(* ===== verification/Prelude.thy ===== *)
theory Prelude
  imports Main "HOL-Library.Word"
begin

text \<open>
  Shared vocabulary of the development: the C integer conversions the sources rely on
  (two's-complement wrap-around of \<open>int\<close>, remainder that truncates towards zero), the
  result type of kernel code (a value, a \<open>panic\<close>, a process that has to sleep, an endless loop),
  little-endian fields of byte arrays, and generic lemmas on lists that several components use.
\<close>

named_theorems cint_simps \<open>evaluation of the C integer conversions\<close>
named_theorems slot_simps \<open>facts on scans of fixed-size tables\<close>

section \<open>C integers\<close>

text \<open>The value an \<open>int\<close> variable holds after \<open>x\<close> is stored in it (gcc wraps).\<close>

definition wrap32 :: "int \<Rightarrow> int" where
  "wrap32 x = (x + 2 ^ 31) mod 2 ^ 32 - 2 ^ 31"

text \<open>The \<open>%\<close> operator of C: the sign follows the dividend.\<close>

definition c_rem :: "int \<Rightarrow> int \<Rightarrow> int" where
  "c_rem a b = sgn a * (\<bar>a\<bar> mod \<bar>b\<bar>)"

abbreviation int_max :: int where
  "int_max \<equiv> 2147483647"

abbreviation int_min :: int where
  "int_min \<equiv> - 2147483648"

lemma wrap32_id [cint_simps]: "int_min \<le> x \<Longrightarrow> x \<le> int_max \<Longrightarrow> wrap32 x = x"
  by (simp add: wrap32_def)

lemma wrap32_range: "int_min \<le> wrap32 x \<and> wrap32 x \<le> int_max"
proof -
  have "0 \<le> (x + 2 ^ 31) mod 2 ^ 32 \<and> (x + 2 ^ 31) mod 2 ^ 32 < 2 ^ 32" by simp
  then show ?thesis by (simp add: wrap32_def)
qed

lemma c_rem_nonneg [cint_simps]: "0 \<le> a \<Longrightarrow> 0 < b \<Longrightarrow> c_rem a b = a mod b"
  by (cases "a = 0") (simp_all add: c_rem_def)

lemma unat_of_nat32: "n < 4294967296 \<Longrightarrow> unat (of_nat n :: 32 word) = n"
  by (simp add: unsigned_of_nat take_bit_nat_eq_self)

section \<open>Lists\<close>

lemma in_set_butlast: "x \<in> set xs \<Longrightarrow> x \<noteq> last xs \<Longrightarrow> x \<in> set (butlast xs)"
  by (induction xs) (auto split: if_splits)

lemma find_SomeD: "find P xs = Some x \<Longrightarrow> P x \<and> x \<in> set xs"
  by (auto simp: find_Some_iff)

lemma find_NoneD: "find P xs = None \<Longrightarrow> x \<in> set xs \<Longrightarrow> \<not> P x"
  by (auto simp: find_None_iff)

lemma find_append: "find P (xs @ ys) = (case find P xs of None \<Rightarrow> find P ys | Some x \<Rightarrow> Some x)"
  by (induction xs) auto

lemma find_map: "find P (map f xs) = map_option f (find (\<lambda>x. P (f x)) xs)"
  by (induction xs) auto

lemma find_shift:
  assumes "\<And>i. i < n \<Longrightarrow> P (b + i) = Q i"
  shows "find P [b..<b + n] = map_option ((+) b) (find Q [0..<n])"
proof -
  have "[b..<b + n] = map ((+) b) [0..<n]" by (intro nth_equalityI) auto
  moreover have "find (\<lambda>i. P (b + i)) [0..<n] = find Q [0..<n]" using assms by (intro find_cong) auto
  ultimately show ?thesis by (simp add: find_map)
qed

text \<open>Places of a ring: two positions less than its length apart are different.\<close>

lemma mod_window_distinct:
  assumes "i < k" and "k < (N :: nat)"
  shows "(a + i) mod N \<noteq> (a + k) mod N"
proof
  assume "(a + i) mod N = (a + k) mod N"
  then have "(a + k - (a + i)) mod N = 0" using assms(1) by (metis mod_eq_dvd_iff_nat dvd_imp_mod_0 less_imp_le_nat add_le_mono order_refl)
  with assms show False by simp
qed

section \<open>Singly linked lists in a store\<close>

text \<open>
  \<open>linked nxt nil p as\<close>: following \<open>nxt\<close> from \<open>p\<close> visits exactly the cells \<open>as\<close> and then
  reaches \<open>nil\<close>.
\<close>

fun linked :: "('a \<Rightarrow> 'a) \<Rightarrow> 'a \<Rightarrow> 'a \<Rightarrow> 'a list \<Rightarrow> bool" where
  "linked nxt nil p [] = (p = nil)"
| "linked nxt nil p (a # as) = (p = a \<and> a \<noteq> nil \<and> linked nxt nil (nxt a) as)"

lemma linked_cong: "(\<And>a. a \<in> set as \<Longrightarrow> nxt a = nxt' a) \<Longrightarrow> linked nxt nil p as = linked nxt' nil p as"
  by (induction as arbitrary: p) auto

lemma linked_unique: "linked nxt nil p as \<Longrightarrow> linked nxt nil p bs \<Longrightarrow> as = bs"
proof (induction as arbitrary: p bs)
  case Nil
  then show ?case by (cases bs) auto
next
  case (Cons a as)
  then show ?case by (cases bs) auto
qed

section \<open>Circular lists with a head cell\<close>

text \<open>\<open>ring nxt h as\<close>: from the head \<open>h\<close>, \<open>nxt\<close> visits the distinct cells \<open>as\<close> and comes back.\<close>

definition ring :: "('a \<Rightarrow> 'a) \<Rightarrow> 'a \<Rightarrow> 'a list \<Rightarrow> bool" where
  "ring nxt h as \<longleftrightarrow> distinct (h # as) \<and> linked nxt h (nxt h) as"

text \<open>The same by positions: each cell points to the one after it in \<open>h, as, h\<close>.\<close>

fun chain :: "('a \<Rightarrow> 'a) \<Rightarrow> 'a list \<Rightarrow> bool" where
  "chain nxt (a # b # as) = (nxt a = b \<and> chain nxt (b # as))"
| "chain nxt _ = True"

lemma chain_append:
  "as \<noteq> [] \<Longrightarrow> chain nxt (as @ b # bs) \<longleftrightarrow> chain nxt as \<and> nxt (last as) = b \<and> chain nxt (b # bs)"
  by (induction nxt as rule: chain.induct) auto

lemma chain_cong: "(\<And>a. a \<in> set (butlast as) \<Longrightarrow> nxt a = nxt' a) \<Longrightarrow> chain nxt as = chain nxt' as"
  by (induction nxt as rule: chain.induct) auto

lemma chain_linked: "h \<notin> set as \<Longrightarrow> chain nxt (a # as @ [h]) \<longleftrightarrow> linked nxt h (nxt a) as"
  by (induction as arbitrary: a) auto

lemma ring_chain: "ring nxt h as \<longleftrightarrow> distinct (h # as) \<and> chain nxt (h # as @ [h])"
  by (auto simp: ring_def chain_linked)

lemma ring_push: 
  assumes "ring nxt h as" and "b \<notin> set (h # as)"
  shows "ring (nxt(b := nxt h, h := b)) h (b # as)"
proof -
  have "chain nxt (h # as @ [h])" using assms by (simp add: ring_chain)
  moreover obtain a bs where "as @ [h] = a # bs" "butlast (a # bs) = as" by (cases as) auto
  moreover from this have "chain nxt (a # bs) = chain (nxt(b := nxt h, h := b)) (a # bs)"
    using assms by (intro chain_cong) (auto simp: ring_chain)
  ultimately show ?thesis using assms by (auto simp: ring_chain)
qed

lemma last_butlast_distinct: "distinct as \<Longrightarrow> as \<noteq> [] \<Longrightarrow> last as \<notin> set (butlast as)"
  by (induction as rule: rev_induct) auto

lemma ring_snoc:
  assumes "ring nxt h as" and "b \<notin> set (h # as)"
  shows "ring (nxt(b := h, last (h # as) := b)) h (as @ [b])"
proof -
  let ?n = "nxt(b := h, last (h # as) := b)"
  have d: "distinct (h # as)" and ch: "chain nxt (h # as)"
    using assms(1) chain_append [of "h # as" nxt h "[]"] by (simp_all add: ring_chain)
  have "chain ?n (h # as) = chain nxt (h # as)"
    using last_butlast_distinct [OF d] assms(2) by (intro chain_cong) (auto dest: in_set_butlastD)
  moreover have "b \<noteq> last (h # as)" using assms(2) last_in_set [of "h # as"] by auto
  ultimately show ?thesis
    using assms(2) d ch chain_append [of "h # as" ?n b "[h]"] by (auto simp: ring_chain)
qed

lemma ring_unlink:
  assumes "ring nxt h (as @ b # cs)"
  shows "ring (nxt(last (h # as) := nxt b)) h (as @ cs)"
proof -
  let ?p = "last (h # as)" let ?n = "nxt(last (h # as) := nxt b)"
  obtain c ds where cd: "cs @ [h] = c # ds" by (cases cs) auto
  have d: "distinct (h # as @ b # cs)" and ch: "chain nxt ((h # as) @ b # c # ds)"
    using assms by (simp_all add: ring_chain flip: cd)
  from ch have 1: "chain nxt (h # as)" and 2: "nxt b = c" and 3: "chain nxt (c # ds)"
    using chain_append [of "h # as" nxt b "c # ds"] by simp_all
  have "chain ?n (h # as) = chain nxt (h # as)"
    using last_butlast_distinct [of "h # as"] d by (intro chain_cong) auto
  moreover have "?p \<notin> set (butlast (c # ds))"
    using d by (cases as rule: rev_cases) (auto simp flip: cd)
  then have "chain ?n (c # ds) = chain nxt (c # ds)" by (intro chain_cong) auto
  ultimately have "chain ?n ((h # as) @ c # ds)"
    using 1 2 3 chain_append [of "h # as" ?n c ds] by simp
  then show ?thesis using d by (simp add: ring_chain flip: cd)
qed

lemma ring_prev: "ring nxt h (as @ b # cs) \<Longrightarrow> nxt (last (h # as)) = b"
  using chain_append [of "h # as" nxt b "cs @ [h]"] by (simp add: ring_chain)

lemma ring_next: "ring nxt h (as @ b # cs) \<Longrightarrow> nxt b = hd (cs @ [h])"
  using ring_prev [of nxt h "as @ [b]" "hd cs" "tl cs"] chain_append [of "h # as @ [b]" nxt h "[]"]
  by (cases cs) (auto simp: ring_chain)

section \<open>Results of kernel code\<close>

text \<open>
  Kernel code returns a value, calls \<open>panic\<close>, reaches a \<open>sleep\<close> on a condition that only
  another process can change, or never leaves a loop.
\<close>

datatype 'a kres = Ok 'a | Panic string | Sleeps | Loops

fun kbind :: "'a kres \<Rightarrow> ('a \<Rightarrow> 'b kres) \<Rightarrow> 'b kres" where
  "kbind (Ok x) f = f x"
| "kbind (Panic e) f = Panic e"
| "kbind Sleeps f = Sleeps"
| "kbind Loops f = Loops"

lemma kbind_Ok: "kbind r f = Ok y \<longleftrightarrow> (\<exists>x. r = Ok x \<and> f x = Ok y)"
  by (cases r) auto

lemma kbind_Ok_right [simp]: "kbind r Ok = r"
  by (cases r) auto

lemma kbind_cong [fundef_cong]:
  "r = r' \<Longrightarrow> (\<And>x. r' = Ok x \<Longrightarrow> f x = f' x) \<Longrightarrow> kbind r f = kbind r' f'"
  by (cases r') auto

section \<open>Little-endian fields of a byte array\<close>

text \<open>\<open>k\<close> bytes from offset \<open>i\<close>, least significant first, as x86 stores integers.\<close>

fun get_le :: "nat \<Rightarrow> 8 word list \<Rightarrow> nat \<Rightarrow> nat" where
  "get_le 0 d i = 0"
| "get_le (Suc k) d i = unat (d ! i) + 256 * get_le k d (Suc i)"

fun put_le :: "nat \<Rightarrow> nat \<Rightarrow> 8 word list \<Rightarrow> nat \<Rightarrow> 8 word list" where
  "put_le 0 v d i = d"
| "put_le (Suc k) v d i = put_le k (v div 256) (d[i := word_of_nat v]) (Suc i)"

lemma length_put_le [simp]: "length (put_le k v d i) = length d"
  by (induction k v d i rule: put_le.induct) auto

lemma put_le_nth: "j < i \<or> i + k \<le> j \<Longrightarrow> put_le k v d i ! j = d ! j"
  by (induction k v d i rule: put_le.induct) auto

lemma get_le_cong: "(\<And>j. i \<le> j \<Longrightarrow> j < i + k \<Longrightarrow> d ! j = d' ! j) \<Longrightarrow> get_le k d i = get_le k d' i"
  by (induction k d i rule: get_le.induct) auto

lemma get_put_le_other: "i + k \<le> j \<or> j + l \<le> i \<Longrightarrow> get_le k (put_le l v d j) i = get_le k d i"
  by (intro get_le_cong put_le_nth) auto

lemma get_put_le: "i + k \<le> length d \<Longrightarrow> get_le k (put_le k v d i) i = v mod 256 ^ k"
proof (induction k arbitrary: v d i)
  case (Suc k)
  have "unat (put_le k (v div 256) (d[i := word_of_nat v]) (Suc i) ! i) = v mod 256"
    using Suc.prems by (simp add: put_le_nth unsigned_of_nat take_bit_eq_mod)
  moreover have "get_le k (put_le k (v div 256) (d[i := word_of_nat v]) (Suc i)) (Suc i) = (v div 256) mod 256 ^ k"
    using Suc by simp
  ultimately show ?case using mod_mult2_eq [of v 256 "256 ^ k"] by simp
qed simp

lemma get_le_bound: "get_le k d i < 256 ^ k"
proof (induction k d i rule: get_le.induct)
  case (2 k d i)
  have "unat (d ! i) < 2 ^ LENGTH(8)" by (rule unsigned_less)
  then have "unat (d ! i) \<le> 255" by simp
  moreover have "256 * get_le k d (Suc i) + 256 \<le> 256 * 256 ^ k" using 2 by simp
  ultimately show ?case by simp
qed simp

lemma get_le_zero: "i + k \<le> n \<Longrightarrow> get_le k (replicate n 0) i = 0"
  by (induction k "replicate n (0 :: 8 word)" i rule: get_le.induct) auto

end
