(* ===== verification/Bestfit_Alloc.thy ===== *)
theory Bestfit_Alloc
  imports Prelude
begin

text \<open>
  The best-fit allocator \<open>src/P3/linux/mem.c\<close>. Memory is split by field as the C structs
  are: \<open>ints\<close> holds the 4-byte integers and \<open>ptrs\<close> the 8-byte pointers, both indexed by
  byte address, on the LP64 layout the Makefile builds for: \<open>block_t\<close> has \<open>size\<close> at offset 0
  and \<open>next\<close> at offset 8 (16 bytes), \<open>used_t\<close> has \<open>size\<close> at offset 0 and \<open>magic\<close> at
  offset 4 (8 bytes). A list walk that may not end is a \<open>partial_function\<close>: \<open>None\<close> is a
  walk that does not return.
  The region is described by the list of its tiles \<open>(address, size, used)\<close>; the free list of
  the code is the subsequence of the free tiles.
\<close>

section \<open>The state and the operations of mem.c\<close>

record mem_state =
  head :: int
  totalSize :: int
  m_error :: int
  ints :: "int \<Rightarrow> int"
  ptrs :: "int \<Rightarrow> int"

definition E_NO_SPACE :: int where "E_NO_SPACE = 1"
definition E_BAD_ARGS :: int where "E_BAD_ARGS = 4"
definition E_BAD_POINTER :: int where "E_BAD_POINTER = 5"
definition MAGIC_NUM :: int where "MAGIC_NUM = 50"
definition sizeof_block_t :: int where "sizeof_block_t = 16"
definition sizeof_used_t :: int where "sizeof_used_t = 8"
definition minimumSize :: int where "minimumSize = sizeof_block_t + 8"

lemmas mem_consts = E_NO_SPACE_def E_BAD_ARGS_def E_BAD_POINTER_def MAGIC_NUM_def
  sizeof_block_t_def sizeof_used_t_def minimumSize_def

abbreviation NULL :: int where "NULL \<equiv> 0"

definition blk_size :: "mem_state \<Rightarrow> int \<Rightarrow> int" where
  "blk_size m p = ints m p"

definition blk_next :: "mem_state \<Rightarrow> int \<Rightarrow> int" where
  "blk_next m p = ptrs m (p + 8)"

definition blk_magic :: "mem_state \<Rightarrow> int \<Rightarrow> int" where
  "blk_magic m p = ints m (p + 4)"

definition set_size :: "int \<Rightarrow> int \<Rightarrow> mem_state \<Rightarrow> mem_state" where
  "set_size p v m = m\<lparr>ints := (ints m)(p := v)\<rparr>"

definition set_next :: "int \<Rightarrow> int \<Rightarrow> mem_state \<Rightarrow> mem_state" where
  "set_next p v m = m\<lparr>ptrs := (ptrs m)(p + 8 := v)\<rparr>"

definition set_magic :: "int \<Rightarrow> int \<Rightarrow> mem_state \<Rightarrow> mem_state" where
  "set_magic p v m = m\<lparr>ints := (ints m)(p + 4 := v)\<rparr>"

text \<open>
  \<open>Mem_Init\<close>: \<open>pageSize\<close> is what \<open>getpagesize\<close> returns and \<open>mapped\<close> what \<open>mmap\<close> of
  \<open>/dev/zero\<close> returns (\<open>None\<close> for \<open>MAP_FAILED\<close>, on which the program exits: \<open>Inl 1\<close>).
  The pages are mapped privately and read as zero.
\<close>

definition init_trueSize :: "int \<Rightarrow> int \<Rightarrow> int" where
  "init_trueSize pageSize sizeOfRegion =
     (let numPages = c_rem sizeOfRegion pageSize;
          left = wrap32 (sizeOfRegion - wrap32 (numPages * pageSize));
          left = wrap32 (pageSize - left)
      in wrap32 (sizeOfRegion + left))"

definition Mem_Init :: "int \<Rightarrow> int option \<Rightarrow> int \<Rightarrow> mem_state \<Rightarrow> int + (int \<times> mem_state)" where
  "Mem_Init pageSize mapped sizeOfRegion m =
     (if sizeOfRegion \<le> 0 \<or> totalSize m \<noteq> 0 then Inr (-1, m\<lparr>m_error := E_BAD_ARGS\<rparr>)
      else let m = m\<lparr>totalSize := sizeOfRegion\<rparr>
           in case mapped of
                None \<Rightarrow> Inl 1
              | Some ptr \<Rightarrow>
                  let zero = (\<lambda>f a. if ptr \<le> a \<and> a < ptr + sizeOfRegion then 0 else f a);
                      m = m\<lparr>ints := zero (ints m), ptrs := zero (ptrs m)\<rparr>;
                      m = m\<lparr>head := ptr\<rparr>;
                      m = set_size ptr (init_trueSize pageSize sizeOfRegion) m;
                      m = set_next ptr NULL m
                  in Inr (0, m))"

text \<open>\<open>Mem_Alloc\<close>: the size computation, the search loop, and the split of the best block.\<close>

definition alloc_size :: "int \<Rightarrow> int" where
  "alloc_size n =
     (let sz = wrap32 (n + sizeof_used_t) in wrap32 (sz + (8 - c_rem sz 8)))"

partial_function (option) bestfit_loop ::
  "mem_state \<Rightarrow> int \<Rightarrow> int \<Rightarrow> int \<Rightarrow> int \<Rightarrow> int \<Rightarrow> (int \<times> int) option" where
  "bestfit_loop m sz ptr prev best bestprev =
     (if ptr = NULL then Some (best, bestprev)
      else if sz \<le> blk_size m ptr then
        (if best \<noteq> NULL then
           (if blk_size m ptr < blk_size m best
            then bestfit_loop m sz (blk_next m ptr) ptr ptr prev
            else bestfit_loop m sz (blk_next m ptr) ptr best bestprev)
         else bestfit_loop m sz (blk_next m ptr) ptr ptr prev)
      else bestfit_loop m sz (blk_next m ptr) ptr best bestprev)"

definition take_block :: "mem_state \<Rightarrow> int \<Rightarrow> int \<Rightarrow> int \<Rightarrow> mem_state" where
  "take_block m sz best bestprev =
     (let currSize = blk_size m best;
          next = blk_next m best;
          header = best;
          m = set_size header sz m;
          m = set_magic header MAGIC_NUM m;
          remaining = wrap32 (currSize - sz)
      in if minimumSize < remaining then
           let ptr = header + sz;
               m = set_size ptr (wrap32 (currSize - sz)) m;
               m = set_next ptr next m
           in if bestprev = NULL then m\<lparr>head := ptr\<rparr> else set_next bestprev ptr m
         else
           if bestprev = NULL
           then set_size header (wrap32 (blk_size m header + remaining)) (m\<lparr>head := next\<rparr>)
           else set_size header (wrap32 (blk_size m header + remaining)) (set_next bestprev next m))"

definition Mem_Alloc :: "int \<Rightarrow> mem_state \<Rightarrow> (int \<times> mem_state) option" where
  "Mem_Alloc n m =
     (if n \<le> 0 then Some (NULL, m\<lparr>m_error := E_BAD_ARGS\<rparr>)
      else let sz = alloc_size n
           in case bestfit_loop m sz (head m) NULL NULL NULL of
                None \<Rightarrow> None
              | Some (best, bestprev) \<Rightarrow>
                  if best = NULL then Some (NULL, m\<lparr>m_error := E_NO_SPACE\<rparr>)
                  else Some (best + sizeof_used_t, take_block m sz best bestprev))"

text \<open>\<open>Mem_Free\<close>: the insertion point in the address-ordered list, then coalescing.\<close>

partial_function (option) insert_loop :: "mem_state \<Rightarrow> int \<Rightarrow> int \<Rightarrow> int \<Rightarrow> (int \<times> int) option" where
  "insert_loop m freeHeader itr prev =
     (if itr = NULL then Some (prev, NULL)
      else if freeHeader < itr then Some (prev, itr)
      else insert_loop m freeHeader (blk_next m itr) itr)"

definition link_block :: "mem_state \<Rightarrow> int \<Rightarrow> int \<Rightarrow> int \<Rightarrow> mem_state" where
  "link_block m freeHeader prev itr =
     (if itr \<noteq> NULL then
        (if prev = NULL then (set_next freeHeader (head m) m)\<lparr>head := freeHeader\<rparr>
         else set_next prev freeHeader (set_next freeHeader itr m))
      else set_next freeHeader itr (set_next prev freeHeader m))"

definition coalesce_next :: "int \<Rightarrow> mem_state \<Rightarrow> mem_state" where
  "coalesce_next freeHeader m =
     (if blk_next m freeHeader \<noteq> NULL \<and>
         freeHeader + blk_size m freeHeader = blk_next m freeHeader
      then let m = set_size freeHeader
                     (wrap32 (blk_size m freeHeader + blk_size m (blk_next m freeHeader))) m
           in set_next freeHeader (blk_next m (blk_next m freeHeader)) m
      else m)"

definition coalesce_prev :: "int \<Rightarrow> int \<Rightarrow> mem_state \<Rightarrow> mem_state" where
  "coalesce_prev freeHeader prev m =
     (if prev \<noteq> NULL \<and> prev + blk_size m prev = freeHeader
      then let m = set_size prev (wrap32 (blk_size m prev + blk_size m freeHeader)) m
           in set_next prev (blk_next m freeHeader) m
      else m)"

definition Mem_Free :: "int \<Rightarrow> mem_state \<Rightarrow> (int \<times> mem_state) option" where
  "Mem_Free ptr m =
     (if ptr = NULL then Some (0, m)
      else let header = ptr - sizeof_used_t
           in if blk_magic m header \<noteq> MAGIC_NUM then Some (-1, m\<lparr>m_error := E_BAD_POINTER\<rparr>)
              else let freeHeader = header;
                       m = set_size freeHeader (blk_size m header) m
                   in if head m = NULL then
                        let m = (set_next freeHeader (head m) m)\<lparr>head := freeHeader\<rparr>
                        in Some (0, coalesce_prev freeHeader NULL (coalesce_next freeHeader m))
                      else case insert_loop m freeHeader (head m) NULL of
                             None \<Rightarrow> None
                           | Some (prev, itr) \<Rightarrow>
                               Some (0, coalesce_prev freeHeader prev
                                          (coalesce_next freeHeader (link_block m freeHeader prev itr))))"

text \<open>\<open>Mem_Dump\<close>: the lines it prints, as the pairs \<open>(size, next)\<close> of the free blocks in order.\<close>

partial_function (option) Mem_Dump :: "mem_state \<Rightarrow> int \<Rightarrow> (int \<times> int) list \<Rightarrow> (int \<times> int) list option" where
  "Mem_Dump m ptr out =
     (if ptr = NULL then Some out
      else Mem_Dump m (blk_next m ptr) (out @ [(blk_size m ptr, blk_next m ptr)]))"

section \<open>The region as a list of tiles\<close>

type_synonym tile = "int \<times> int \<times> bool"

abbreviation t_used :: "tile \<Rightarrow> bool" where "t_used t \<equiv> snd (snd t)"

fun contig :: "int \<Rightarrow> tile list \<Rightarrow> int \<Rightarrow> bool" where
  "contig b [] e = (b = e)"
| "contig b ((a, s, u) # T) e = (a = b \<and> 16 \<le> s \<and> 8 dvd s \<and> contig (a + s) T e)"

fun chain :: "mem_state \<Rightarrow> int \<Rightarrow> int list \<Rightarrow> bool" where
  "chain m p [] = (p = NULL)"
| "chain m p (a # as) = (p = a \<and> a \<noteq> NULL \<and> chain m (blk_next m a) as)"

definition free_addrs :: "tile list \<Rightarrow> int list" where
  "free_addrs T = map fst (filter (\<lambda>t. \<not> t_used t) T)"

definition tile_ok :: "mem_state \<Rightarrow> tile \<Rightarrow> bool" where
  "tile_ok m t = (blk_size m (fst t) = fst (snd t) \<and> (t_used t \<longrightarrow> blk_magic m (fst t) = MAGIC_NUM))"

definition heap_ok :: "int \<Rightarrow> int \<Rightarrow> tile list \<Rightarrow> mem_state \<Rightarrow> bool" where
  "heap_ok b e T m =
     (0 < b \<and> 8 dvd b \<and> e - b \<le> int_max \<and> contig b T e \<and> list_all (tile_ok m) T \<and>
      chain m (head m) (free_addrs T))"

definition coalesced :: "tile list \<Rightarrow> bool" where
  "coalesced T = successively (\<lambda>x y. t_used x \<or> t_used y) T"

definition lastz :: "int list \<Rightarrow> int" where
  "lastz as = (if as = [] then NULL else last as)"

subsection \<open>Reading back what was written\<close>

lemma blk_upd [simp]:
  "blk_size (set_size p v m) q = (if q = p then v else blk_size m q)"
  "blk_size (set_next p v m) q = blk_size m q"
  "blk_next (set_next p v m) q = (if q = p then v else blk_next m q)"
  "blk_next (set_size p v m) q = blk_next m q"
  "blk_next (set_magic p v m) q = blk_next m q"
  "blk_magic (set_magic p v m) q = (if q = p then v else blk_magic m q)"
  "blk_magic (set_next p v m) q = blk_magic m q"
  "blk_size (m\<lparr>head := h\<rparr>) q = blk_size m q"
  "blk_next (m\<lparr>head := h\<rparr>) q = blk_next m q"
  "blk_magic (m\<lparr>head := h\<rparr>) q = blk_magic m q"
  "head (set_size p v m) = head m"
  "head (set_next p v m) = head m"
  "head (set_magic p v m) = head m"
  by (simp_all add: blk_size_def blk_next_def blk_magic_def set_size_def set_next_def set_magic_def)

lemma dvd8_not_plus4: "8 dvd p \<Longrightarrow> 8 dvd q \<Longrightarrow> p \<noteq> q + (4::int)"
  by presburger

lemma blk_upd_aligned [simp]:
  "8 dvd p \<Longrightarrow> 8 dvd q \<Longrightarrow> blk_magic (set_size p v m) q = blk_magic m q"
  "8 dvd p \<Longrightarrow> 8 dvd q \<Longrightarrow> blk_size (set_magic p v m) q = blk_size m q"
  using dvd8_not_plus4 [of p q] dvd8_not_plus4 [of q p]
  by (simp_all add: blk_size_def blk_magic_def set_size_def set_magic_def)

subsection \<open>Tiles\<close>

lemma contig_append: "contig b (T1 @ T2) e \<longleftrightarrow> (\<exists>c. contig b T1 c \<and> contig c T2 e)"
  by (induction T1 arbitrary: b) auto

lemma contig_le: "contig b T e \<Longrightarrow> b \<le> e"
  by (induction T arbitrary: b) force+

lemma contig_mem:
  "contig b T e \<Longrightarrow> (a, s, u) \<in> set T \<Longrightarrow> b \<le> a \<and> a + s \<le> e \<and> 16 \<le> s \<and> 8 dvd s"
  by (induction T arbitrary: b) (auto dest: contig_le, force+)

lemma contig_aligned: "contig b T e \<Longrightarrow> 8 dvd b \<Longrightarrow> (a, s, u) \<in> set T \<Longrightarrow> 8 dvd a"
  by (induction T arbitrary: b) auto

lemma contig_end_aligned: "contig b T e \<Longrightarrow> 8 dvd b \<Longrightarrow> 8 dvd e"
  by (induction T arbitrary: b) auto

lemma contig_distinct: "contig b T e \<Longrightarrow> distinct (map fst T)"
proof (induction T arbitrary: b)
  case (Cons t T)
  obtain a s u where t: "t = (a, s, u)" by (cases t)
  with Cons.prems have c: "contig (a + s) T e" "16 \<le> s" by auto
  then have "a \<notin> fst ` set T" using contig_mem [OF c(1)] by fastforce
  with Cons.IH [OF c(1)] t show ?case by simp
qed simp

lemma free_addrs_simps [simp]:
  "free_addrs [] = []"
  "free_addrs ((a, s, u) # T) = (if u then free_addrs T else a # free_addrs T)"
  "free_addrs (T1 @ T2) = free_addrs T1 @ free_addrs T2"
  by (simp_all add: free_addrs_def)

lemma free_addrs_mem: "a \<in> set (free_addrs T) \<longleftrightarrow> (\<exists>s. (a, s, False) \<in> set T)"
  by (force simp: free_addrs_def)

lemma free_addrs_split:
  "free_addrs T = F1 @ a # F2 \<Longrightarrow>
   \<exists>T1 s T2. T = T1 @ (a, s, False) # T2 \<and> free_addrs T1 = F1 \<and> free_addrs T2 = F2"
proof (induction T arbitrary: F1)
  case (Cons t T)
  obtain b s u where t: "t = (b, s, u)" by (cases t)
  show ?case
  proof (cases "u \<or> F1 \<noteq> []")
    case True
    then obtain F1' where F: "free_addrs T = F1' @ a # F2" "F1 = (if u then F1' else b # F1')"
      using Cons.prems t by (cases u; cases F1) auto
    from Cons.IH [OF F(1)] obtain T1 s' T2 where
      "T = T1 @ (a, s', False) # T2" "free_addrs T1 = F1'" "free_addrs T2 = F2" by blast
    then have "t # T = (t # T1) @ (a, s', False) # T2" "free_addrs (t # T1) = F1"
      using F t by auto
    with \<open>free_addrs T2 = F2\<close> show ?thesis by blast
  next
    case False
    with Cons.prems t have "t # T = [] @ (a, s, False) # T" "free_addrs T = F2" "F1 = []" by auto
    then show ?thesis by (metis free_addrs_simps(1))
  qed
qed simp

subsection \<open>Walks along the free list\<close>

lemma chain_upd_next [simp]: "p \<notin> set as \<Longrightarrow> chain (set_next p v m) q as = chain m q as"
  by (induction as arbitrary: q) auto

lemma chain_upd_other [simp]:
  "chain (set_size p v m) q as = chain m q as"
  "chain (set_magic p v m) q as = chain m q as"
  "chain (m\<lparr>head := h\<rparr>) q as = chain m q as"
  by (induction as arbitrary: q) auto

lemma chain_NULL: "chain m p as \<Longrightarrow> NULL \<notin> set as"
  by (induction as arbitrary: p) auto

lemma chain_hd: "chain m p as \<Longrightarrow> p = (case as of [] \<Rightarrow> NULL | a # _ \<Rightarrow> a)"
  by (cases as) auto

lemma chain_suffix:
  "chain m p (as @ bs) \<Longrightarrow> chain m (if as = [] then p else blk_next m (last as)) bs"
proof (induction as arbitrary: p)
  case (Cons a as)
  then have "chain m (blk_next m a) (as @ bs)" by simp
  from Cons.IH [OF this] show ?case by (cases "as = []") auto
qed simp

text \<open>
  The list surgery of both operations: the link that leads out of the prefix \<open>as\<close> (the head
  pointer, or the \<open>next\<close> field of its last block) is redirected to \<open>q\<close>.
\<close>

definition redirect :: "int list \<Rightarrow> int \<Rightarrow> mem_state \<Rightarrow> mem_state" where
  "redirect as q m = (if lastz as = NULL then m\<lparr>head := q\<rparr> else set_next (lastz as) q m)"

lemma redirect_blk [simp]:
  "blk_size (redirect as q m) p = blk_size m p"
  "blk_magic (redirect as q m) p = blk_magic m p"
  by (simp_all add: redirect_def)

lemma chain_append_last:
  "as \<noteq> [] \<Longrightarrow> distinct as \<Longrightarrow> last as \<notin> set bs \<Longrightarrow> chain m p (as @ cs) \<Longrightarrow> chain m q bs \<Longrightarrow>
   chain (set_next (last as) q m) p (as @ bs)"
proof (induction as arbitrary: p)
  case (Cons a as)
  show ?case
  proof (cases "as = []")
    case True
    with Cons.prems show ?thesis by auto
  next
    case False
    with Cons.prems have "a \<noteq> last as" by auto
    with False Cons show ?thesis by auto
  qed
qed simp

lemma chain_redirect:
  assumes "chain m (head m) (as @ cs)" and "distinct as" and "set as \<inter> set bs = {}"
    and "chain m q bs"
  shows "chain (redirect as q m) (head (redirect as q m)) (as @ bs)"
proof (cases "as = []")
  case True
  with assms(4) show ?thesis by (simp add: redirect_def lastz_def)
next
  case False
  then have "last as \<in> set (as @ cs)" by simp
  then have "last as \<noteq> NULL" using chain_NULL [OF assms(1)] by metis
  moreover from False assms(3) have "last as \<notin> set bs"
    using last_in_set [OF False] by blast
  ultimately show ?thesis
    using False assms chain_append_last [of as bs m "head m" cs q] by (simp add: redirect_def lastz_def)
qed

fun pick :: "mem_state \<Rightarrow> int \<Rightarrow> int \<Rightarrow> int \<Rightarrow> int \<Rightarrow> int list \<Rightarrow> int \<times> int" where
  "pick m sz prev best bestprev [] = (best, bestprev)"
| "pick m sz prev best bestprev (a # as) =
     (if sz \<le> blk_size m a \<and> (best = NULL \<or> blk_size m a < blk_size m best)
      then pick m sz a a prev as else pick m sz a best bestprev as)"

lemma loops_NULL [simp]:
  "bestfit_loop m sz NULL prev best bestprev = Some (best, bestprev)"
  "insert_loop m f NULL prev = Some (prev, NULL)"
  by (subst bestfit_loop.simps, simp) (subst insert_loop.simps, simp)

lemma bestfit_loop_pick:
  "chain m ptr as \<Longrightarrow> bestfit_loop m sz ptr prev best bestprev = Some (pick m sz prev best bestprev as)"
proof (induction as arbitrary: ptr prev best bestprev)
  case Nil
  then show ?case by simp
next
  case (Cons a as)
  then have "chain m (blk_next m a) as" and "ptr = a" and "a \<noteq> NULL" by auto
  with Cons.IH [OF this(1)] show ?case by (auto simp: bestfit_loop.simps [of m sz a])
qed

definition best_so_far :: "mem_state \<Rightarrow> int \<Rightarrow> int list \<Rightarrow> int \<Rightarrow> int \<Rightarrow> bool" where
  "best_so_far m sz as best bestprev =
     (if best = NULL then bestprev = NULL \<and> (\<forall>a \<in> set as. blk_size m a < sz)
      else (\<exists>P Q. as = P @ best # Q \<and> bestprev = lastz P) \<and> sz \<le> blk_size m best \<and>
           (\<forall>a \<in> set as. sz \<le> blk_size m a \<longrightarrow> blk_size m best \<le> blk_size m a))"

lemma best_so_far_step:
  assumes "best_so_far m sz P best bestprev" and "a \<noteq> NULL"
  shows "if sz \<le> blk_size m a \<and> (best = NULL \<or> blk_size m a < blk_size m best)
         then best_so_far m sz (P @ [a]) a (lastz P) else best_so_far m sz (P @ [a]) best bestprev"
proof (cases "sz \<le> blk_size m a \<and> (best = NULL \<or> blk_size m a < blk_size m best)")
  case True
  with assms show ?thesis
    by (force simp: best_so_far_def split: if_splits)
next
  case False
  then show ?thesis
    using assms by (force simp: best_so_far_def split: if_splits)
qed

lemma pick_best:
  "best_so_far m sz P best bestprev \<Longrightarrow> NULL \<notin> set as \<Longrightarrow>
   case pick m sz (lastz P) best bestprev as of (b, bp) \<Rightarrow> best_so_far m sz (P @ as) b bp"
proof (induction as arbitrary: P best bestprev)
  case (Cons a as)
  have la: "lastz (P @ [a]) = a" by (simp add: lastz_def)
  from best_so_far_step [OF Cons.prems(1), of a] Cons.prems(2)
  show ?case
    using Cons.IH [of "P @ [a]" a "lastz P"] Cons.IH [of "P @ [a]" best bestprev] Cons.prems(2) la
    by (auto split: if_splits)
qed simp

lemma bestfit_loop_best:
  assumes "chain m (head m) as"
  shows "\<exists>b bp. bestfit_loop m sz (head m) NULL NULL NULL = Some (b, bp) \<and> best_so_far m sz as b bp"
proof -
  have "best_so_far m sz [] NULL NULL" by (simp add: best_so_far_def)
  from pick_best [OF this chain_NULL [OF assms]] bestfit_loop_pick [OF assms]
  show ?thesis by (auto simp: lastz_def split: prod.splits)
qed

lemma insert_loop_split:
  assumes "chain m p (as @ bs)" and "\<forall>a \<in> set as. a \<le> f" and "\<forall>b \<in> set bs. f < b"
  shows "insert_loop m f p prev =
           Some (if as = [] then prev else last as, case bs of [] \<Rightarrow> NULL | b # _ \<Rightarrow> b)"
  using assms
proof (induction as arbitrary: p prev)
  case Nil
  then show ?case
    by (cases bs) (auto simp: insert_loop.simps [of m f p])
next
  case (Cons a as)
  then have "insert_loop m f p prev = insert_loop m f (blk_next m a) a"
    by (auto simp: insert_loop.simps [of m f a])
  also have "\<dots> = Some (if as = [] then a else last as, case bs of [] \<Rightarrow> NULL | b # _ \<Rightarrow> b)"
    using Cons.prems by (intro Cons.IH) auto
  finally show ?case by simp
qed

section \<open>Allocation\<close>

definition alloc_tiles :: "int \<Rightarrow> int \<Rightarrow> int \<Rightarrow> tile list" where
  "alloc_tiles a s sz =
     (if minimumSize < s - sz then [(a, sz, True), (a + sz, s - sz, False)] else [(a, s, True)])"

lemma alloc_size_facts:
  assumes "0 < n" and "n \<le> int_max - 16"
  shows "n + 8 < alloc_size n" and "alloc_size n \<le> n + 16" and "8 dvd alloc_size n" and "16 \<le> alloc_size n"
proof -
  have "alloc_size n = n + 8 + (8 - (n + 8) mod 8)"
    using assms by (simp add: alloc_size_def mem_consts cint_simps Let_def)
  with assms(1) show "n + 8 < alloc_size n" and "alloc_size n \<le> n + 16" and "8 dvd alloc_size n"
    and "16 \<le> alloc_size n"
    by presburger+
qed

text \<open>The last sixteen values of an \<open>int\<close> make the size wrap to a negative number.\<close>

lemma alloc_size_wraps:
  assumes "int_max - 16 < n" and "n \<le> int_max"
  shows "alloc_size n < 0"
proof -
  from assms have "n = 2147483632 \<or> n = 2147483633 \<or> n = 2147483634 \<or> n = 2147483635 \<or>
      n = 2147483636 \<or> n = 2147483637 \<or> n = 2147483638 \<or> n = 2147483639 \<or> n = 2147483640 \<or>
      n = 2147483641 \<or> n = 2147483642 \<or> n = 2147483643 \<or> n = 2147483644 \<or> n = 2147483645 \<or>
      n = 2147483646 \<or> n = 2147483647" by arith
  then show ?thesis by (elim disjE) (simp_all add: alloc_size_def sizeof_used_t_def wrap32_def c_rem_def)
qed

lemma contig_range: "contig b T c \<Longrightarrow> t \<in> set T \<Longrightarrow> b \<le> fst t \<and> fst t + 16 \<le> c"
  using contig_mem by (cases t) fastforce

lemma free_addrs_range: "contig b T c \<Longrightarrow> x \<in> set (free_addrs T) \<Longrightarrow> b \<le> x \<and> x + 16 \<le> c"
  using contig_range by (fastforce simp: free_addrs_def)

lemma free_addrs_distinct: "contig b T c \<Longrightarrow> distinct (free_addrs T)"
  by (simp add: free_addrs_def contig_distinct distinct_map_filter)

lemma tiles_frame:
  assumes "list_all (tile_ok m) T"
    and "\<And>t. t \<in> set T \<Longrightarrow> blk_size m' (fst t) = blk_size m (fst t) \<and> blk_magic m' (fst t) = blk_magic m (fst t)"
  shows "list_all (tile_ok m') T"
  using assms by (auto simp: list_all_iff tile_ok_def)

text \<open>What the invariant says around one tile of the region.\<close>

lemma heap_ok_at:
  assumes "heap_ok b e (T1 @ (a, s, u) # T2) m"
  shows "0 < b" "b \<le> a" "8 dvd a" "16 \<le> s" "8 dvd s" "s \<le> int_max" "contig b T1 a" "contig (a + s) T2 e"
    "blk_size m a = s" "\<And>t. t \<in> set T1 \<Longrightarrow> 8 dvd fst t \<and> fst t < a"
    "\<And>t. t \<in> set T2 \<Longrightarrow> 8 dvd fst t \<and> a + s \<le> fst t"
    "\<And>x. x \<in> set (free_addrs T1) \<Longrightarrow> x < a" "\<And>x. x \<in> set (free_addrs T2) \<Longrightarrow> a + s \<le> x"
    "distinct (free_addrs T1)" "list_all (tile_ok m) T1" "list_all (tile_ok m) T2"
proof -
  from assms have c: "contig b (T1 @ (a, s, u) # T2) e" and b: "8 dvd b" "0 < b"
    and k: "list_all (tile_ok m) (T1 @ (a, s, u) # T2)" "e - b \<le> int_max"
    by (simp_all add: heap_ok_def)
  from c show c1: "contig b T1 a" and c2: "contig (a + s) T2 e" and "16 \<le> s" and "8 dvd s"
    by (auto simp: contig_append)
  show "0 < b" and ba: "b \<le> a" and a8: "8 dvd a"
    using b contig_le [OF c1] contig_end_aligned [OF c1] by auto
  show "s \<le> int_max" using contig_le [OF c2] ba k(2) by linarith
  show "blk_size m a = s" and "list_all (tile_ok m) T1" and "list_all (tile_ok m) T2"
    using k(1) by (auto simp: tile_ok_def)
  show "\<And>t. t \<in> set T1 \<Longrightarrow> 8 dvd fst t \<and> fst t < a"
    using contig_range [OF c1] contig_aligned [OF c1 b(1)] by fastforce
  show "\<And>t. t \<in> set T2 \<Longrightarrow> 8 dvd fst t \<and> a + s \<le> fst t"
    using contig_range [OF c2] contig_aligned [OF c2] a8 \<open>8 dvd s\<close> by fastforce
  show "\<And>x. x \<in> set (free_addrs T1) \<Longrightarrow> x < a" and "\<And>x. x \<in> set (free_addrs T2) \<Longrightarrow> a + s \<le> x"
    using free_addrs_range [OF c1] free_addrs_range [OF c2] by fastforce+
  show "distinct (free_addrs T1)" using free_addrs_distinct [OF c1] .
qed

lemma take_block_redirect:
  assumes "blk_size m a = s" and "sz \<le> s" and "s \<le> int_max" and "16 \<le> sz" and "8 dvd a"
  shows "take_block m sz a (lastz P) =
    (if minimumSize < s - sz
     then redirect P (a + sz)
            (set_next (a + sz) (blk_next m a) (set_size (a + sz) (s - sz) (set_magic a MAGIC_NUM (set_size a sz m))))
     else set_size a s (redirect P (blk_next m a) (set_magic a MAGIC_NUM (set_size a sz m))))"
  using assms by (simp add: take_block_def redirect_def cint_simps Let_def)

lemma heap_ok_take_block:
  assumes ok: "heap_ok b e (T1 @ (a, s, False) # T2) m" and sz: "16 \<le> sz" "sz \<le> s" "8 dvd sz"
  shows "heap_ok b e (T1 @ alloc_tiles a s sz @ T2) (take_block m sz a (lastz (free_addrs T1)))"
proof -
  let ?m0 = "set_magic a MAGIC_NUM (set_size a sz m)"
  let ?ms = "set_next (a + sz) (blk_next m a) (set_size (a + sz) (s - sz) ?m0)"
  note at = heap_ok_at [OF ok]
  have "chain m (head m) (free_addrs T1 @ a # free_addrs T2)"
    using ok by (simp add: heap_ok_def)
  then have c0: "chain m (blk_next m a) (free_addrs T2)" and c1: "chain m (head m) (free_addrs T1 @ a # free_addrs T2)"
    using chain_suffix [of m "head m" "free_addrs T1 @ [a]" "free_addrs T2"] by auto
  have big: "a + sz \<notin> set (free_addrs T1) \<and> a + sz \<noteq> a \<and> (minimumSize < s - sz \<longrightarrow> a + sz \<notin> set (free_addrs T2))"
    using at(12) [of "a + sz"] at(13) [of "a + sz"] sz by (auto simp: mem_consts)
  have dj: "set (free_addrs T1) \<inter> set (free_addrs T2) = {}"
    using at(12,13) at(4) by fastforce
  show ?thesis
  proof (cases "minimumSize < s - sz")
    case True
    have "chain ?ms (head ?ms) (free_addrs T1 @ a # free_addrs T2)" and "chain ?ms (a + sz) ((a + sz) # free_addrs T2)"
      using c0 c1 big True at(1,2) sz by auto
    then have ch: "chain (redirect (free_addrs T1) (a + sz) ?ms) (head (redirect (free_addrs T1) (a + sz) ?ms))
        (free_addrs T1 @ (a + sz) # free_addrs T2)"
      using at(14) dj big by (intro chain_redirect) auto
    have al: "8 dvd a + sz" "0 < sz" "a + sz \<noteq> a" using at(3) sz by auto
    have "list_all (tile_ok (redirect (free_addrs T1) (a + sz) ?ms)) T1"
      by (rule tiles_frame [OF at(15)], drule at(10)) (use at(3) al in simp)
    moreover have "list_all (tile_ok (redirect (free_addrs T1) (a + sz) ?ms)) T2"
      by (rule tiles_frame [OF at(16)], drule at(11)) (use at(3,4) al True in \<open>simp add: mem_consts\<close>)
    moreover have "list_all (tile_ok (redirect (free_addrs T1) (a + sz) ?ms)) (alloc_tiles a s sz)"
      using at(3) al True by (simp add: alloc_tiles_def tile_ok_def)
    ultimately have "list_all (tile_ok (redirect (free_addrs T1) (a + sz) ?ms)) (T1 @ alloc_tiles a s sz @ T2)"
      by simp
    with ch show ?thesis
      using ok True sz at(5) take_block_redirect [OF at(9) sz(2) at(6) sz(1) at(3)]
      by (auto simp: heap_ok_def alloc_tiles_def contig_append mem_consts)
  next
    case False
    let ?mr = "redirect (free_addrs T1) (blk_next m a) ?m0"
    have "chain ?mr (head ?mr) (free_addrs T1 @ free_addrs T2)"
      using c0 c1 at(14) dj by (intro chain_redirect [where cs = "a # free_addrs T2"]) auto
    moreover have "list_all (tile_ok (set_size a s ?mr)) T1"
      by (rule tiles_frame [OF at(15)], drule at(10)) (use at(3) in simp)
    moreover have "list_all (tile_ok (set_size a s ?mr)) T2"
      by (rule tiles_frame [OF at(16)], drule at(11)) (use at(3,4) in simp)
    moreover have "tile_ok (set_size a s ?mr) (a, s, True)"
      using at(3) by (simp add: tile_ok_def)
    ultimately show ?thesis
      using ok False take_block_redirect [OF at(9) sz(2) at(6) sz(1) at(3)]
      by (auto simp: heap_ok_def alloc_tiles_def contig_append)
  qed
qed

lemma heap_ok_free_size:
  "heap_ok b e T m \<Longrightarrow> (a, s, u) \<in> set T \<Longrightarrow> 16 \<le> s \<and> s \<le> int_max - 7"
  using contig_mem [of b T e a s u] by (auto simp: heap_ok_def)

lemma mem_alloc_cases:
  assumes ok: "heap_ok b e T m" and n: "0 < n"
  obtains (none) "\<forall>a s. (a, s, False) \<in> set T \<longrightarrow> s < alloc_size n"
      "Mem_Alloc n m = Some (NULL, m\<lparr>m_error := E_NO_SPACE\<rparr>)"
  | (best) T1 a s T2 where "T = T1 @ (a, s, False) # T2" "alloc_size n \<le> s"
      "\<forall>a' s'. (a', s', False) \<in> set T \<longrightarrow> alloc_size n \<le> s' \<longrightarrow> s \<le> s'"
      "Mem_Alloc n m = Some (a + sizeof_used_t, take_block m (alloc_size n) a (lastz (free_addrs T1)))"
proof -
  have sizes: "blk_size m a = s" if "(a, s, u) \<in> set T" for a s u
    using ok that by (fastforce simp: heap_ok_def list_all_iff tile_ok_def)
  have ch: "chain m (head m) (free_addrs T)" using ok by (simp add: heap_ok_def)
  from bestfit_loop_best [OF ch, of "alloc_size n"] obtain best bp where
    r: "bestfit_loop m (alloc_size n) (head m) NULL NULL NULL = Some (best, bp)"
    and bsf: "best_so_far m (alloc_size n) (free_addrs T) best bp" by blast
  show thesis
  proof (cases "best = NULL")
    case True
    with bsf have "\<forall>a s. (a, s, False) \<in> set T \<longrightarrow> s < alloc_size n"
      using sizes by (fastforce simp: best_so_far_def free_addrs_mem)
    then show thesis using r n True none by (simp add: Mem_Alloc_def)
  next
    case False
    with bsf obtain P Q where PQ: "free_addrs T = P @ best # Q" "bp = lastz P"
      and fit: "alloc_size n \<le> blk_size m best"
      and least: "\<forall>a \<in> set (free_addrs T). alloc_size n \<le> blk_size m a \<longrightarrow> blk_size m best \<le> blk_size m a"
      by (auto simp: best_so_far_def)
    from free_addrs_split [OF PQ(1)] obtain T1 s T2 where
      T: "T = T1 @ (best, s, False) # T2" "free_addrs T1 = P" by blast
    have "blk_size m best = s" using sizes [of best s False] T by simp
    moreover from this least have "\<forall>a' s'. (a', s', False) \<in> set T \<longrightarrow> alloc_size n \<le> s' \<longrightarrow> s \<le> s'"
      using sizes by (fastforce simp: free_addrs_mem)
    ultimately show thesis
      using best [OF T(1)] fit r n False PQ(2) T(2) by (simp add: Mem_Alloc_def)
  qed
qed

section \<open>Release\<close>

definition merge_next :: "int \<Rightarrow> int \<Rightarrow> tile list \<Rightarrow> tile list" where
  "merge_next a s T =
     (case T of (a2, s2, False) # T' \<Rightarrow> (a, s + s2, False) # T' | _ \<Rightarrow> (a, s, False) # T)"

definition merge_prev :: "tile list \<Rightarrow> tile list \<Rightarrow> tile list" where
  "merge_prev T1 T =
     (if T1 \<noteq> [] \<and> \<not> t_used (last T1)
      then butlast T1 @ merge_next (fst (last T1)) (fst (snd (last T1))) T else T1 @ T)"

lemma heap_ok_coalesce_next:
  assumes ok: "heap_ok b e (T1 @ (a, s, False) # T2) m"
  shows "heap_ok b e (T1 @ merge_next a s T2) (coalesce_next a m)"
proof -
  note at = heap_ok_at [OF ok]
  have c: "chain m (head m) (free_addrs T1 @ a # free_addrs T2)"
    using ok by (simp add: heap_ok_def)
  then have c2: "chain m (blk_next m a) (free_addrs T2)"
    using chain_suffix [of m "head m" "free_addrs T1 @ [a]" "free_addrs T2"] by auto
  show ?thesis
  proof (cases "\<exists>a2 s2 T2'. T2 = (a2, s2, False) # T2'")
    case True
    then obtain s2 T2' where T2: "T2 = (a + s, s2, False) # T2'" using at(8) by auto
    have ok2: "heap_ok b e ((T1 @ [(a, s, False)]) @ (a + s, s2, False) # T2') m" using ok T2 by simp
    note at2 = heap_ok_at [OF ok2]
    have nx: "blk_next m a = a + s" and c3: "chain m (blk_next m (a + s)) (free_addrs T2')"
      using c2 T2 at(1,2) at(4) by auto
    have "s + s2 \<le> int_max" using contig_le [OF at2(8)] at(1,2) ok by (simp add: heap_ok_def)
    then have w: "wrap32 (s + s2) = s + s2" using at(4) at2(4) by (simp add: cint_simps)
    have eq: "coalesce_next a m = set_next a (blk_next m (a + s)) (set_size a (s + s2) m)"
      using at(4,9) at2(9) at(1,2) nx w by (simp add: coalesce_next_def Let_def)
    have "chain (coalesce_next a m) (head m) ((free_addrs T1 @ [a]) @ free_addrs T2')"
    proof -
      have "a \<notin> set (free_addrs T2')" and "a \<notin> set (free_addrs T1)"
        using at(4) at2(4) at(12) [of a] at2(13) [of a] by auto
      then show ?thesis
        using chain_append_last [of "free_addrs T1 @ [a]" "free_addrs T2'" "set_size a (s + s2) m" "head m"
            "free_addrs T2" "blk_next m (a + s)"] at(14) c c3 by (simp add: eq)
    qed
    moreover have "list_all (tile_ok (coalesce_next a m)) T1"
      unfolding eq by (rule tiles_frame [OF at(15)], drule at(10)) (use at(3) in simp)
    moreover have "list_all (tile_ok (coalesce_next a m)) T2'"
      unfolding eq by (rule tiles_frame [OF at2(16)], drule at2(11)) (use at(3,4) at2(4) in simp)
    ultimately show ?thesis
      using ok T2 eq by (auto simp: heap_ok_def merge_next_def contig_append tile_ok_def add.assoc)
  next
    case False
    then have mn: "merge_next a s T2 = (a, s, False) # T2"
      by (auto simp: merge_next_def split: list.splits prod.splits bool.splits)
    have "blk_next m a = NULL \<or> a + s \<noteq> blk_next m a"
    proof (cases "free_addrs T2")
      case (Cons x xs)
      then obtain U1 t U2 where "T2 = U1 @ (x, t, False) # U2" using free_addrs_split [of T2 "[]"] by auto
      with False at(8) have "contig (a + s) U1 x" and "U1 \<noteq> []" by (auto simp: contig_append)
      then have "a + s < x" using contig_range [of "a + s" U1 x "hd U1"] by auto
      with c2 Cons show ?thesis by simp
    qed (use c2 in simp)
    then have "coalesce_next a m = m" using at(9) by (auto simp: coalesce_next_def)
    with ok mn show ?thesis by simp
  qed
qed

lemma coalesce_prev_next:
  "prev \<noteq> NULL \<Longrightarrow> blk_next m prev = a \<Longrightarrow> a \<noteq> NULL \<Longrightarrow> coalesce_prev a prev m = coalesce_next prev m"
  by (auto simp: coalesce_prev_def coalesce_next_def Let_def)

lemma merge_next_used: "T \<noteq> [] \<Longrightarrow> t_used (hd T) \<Longrightarrow> merge_next a s T = (a, s, False) # T"
  by (cases T) (auto simp: merge_next_def split: prod.splits bool.splits)

lemma free_addrs_Nil: "free_addrs T = [] \<longleftrightarrow> (\<forall>t \<in> set T. t_used t)"
  by (auto simp: free_addrs_def filter_empty_conv)

lemma heap_ok_coalesce_prev:
  assumes ok: "heap_ok b e (T1 @ (a, s, False) # T2) m"
  shows "heap_ok b e (merge_prev T1 ((a, s, False) # T2)) (coalesce_prev a (lastz (free_addrs T1)) m)"
proof (cases "free_addrs T1 = []")
  case True
  then have "T1 \<noteq> [] \<Longrightarrow> t_used (last T1)" by (simp add: free_addrs_Nil)
  with ok True show ?thesis by (auto simp: merge_prev_def coalesce_prev_def lastz_def)
next
  case False
  define p where p: "p = last (free_addrs T1)"
  have F: "free_addrs T1 = butlast (free_addrs T1) @ p # []" using False p by simp
  from free_addrs_split [OF F] obtain U1 sp U2 where
    T1: "T1 = U1 @ (p, sp, False) # U2" and U2: "free_addrs U2 = []" by blast
  have ch: "chain m (head m) (free_addrs T1 @ a # free_addrs T2)" using ok by (simp add: heap_ok_def)
  then have "chain m (blk_next m p) (a # free_addrs T2)" using chain_suffix [OF ch] False p by simp
  then have "blk_next m p = a" and "a \<noteq> NULL" by auto
  moreover have "p \<in> set (free_addrs T1 @ a # free_addrs T2)" using False p by simp
  with chain_NULL [OF ch] have "p \<noteq> NULL" by metis
  ultimately have cp: "coalesce_prev a (lastz (free_addrs T1)) m = coalesce_next p m"
    using coalesce_prev_next False p by (simp add: lastz_def)
  have "heap_ok b e (U1 @ (p, sp, False) # U2 @ (a, s, False) # T2) m" using ok T1 by simp
  from heap_ok_coalesce_next [OF this]
  have r: "heap_ok b e (U1 @ merge_next p sp (U2 @ (a, s, False) # T2)) (coalesce_next p m)" .
  show ?thesis
  proof (cases "U2 = []")
    case True
    then have "last T1 = (p, sp, False)" and "butlast T1 = U1" using T1 by (metis last_snoc, metis butlast_snoc)
    then have "merge_prev T1 ((a, s, False) # T2) = U1 @ merge_next p sp ((a, s, False) # T2)"
      using T1 by (simp add: merge_prev_def)
    with r cp True show ?thesis by simp
  next
    case False
    with U2 have "t_used (hd U2)" and "t_used (last U2)" by (auto simp: free_addrs_Nil)
    moreover have "last T1 = last U2" using T1 False by (metis last_appendR last_ConsR list.distinct(1))
    ultimately have "merge_prev T1 ((a, s, False) # T2) = T1 @ (a, s, False) # T2"
      and "merge_next p sp (U2 @ (a, s, False) # T2) = (p, sp, False) # U2 @ (a, s, False) # T2"
      using False merge_next_used [of "U2 @ (a, s, False) # T2"] by (simp_all add: merge_prev_def)
    with r cp T1 show ?thesis by simp
  qed
qed

definition hdz :: "int list \<Rightarrow> int" where
  "hdz as = (case as of [] \<Rightarrow> NULL | a # _ \<Rightarrow> a)"

lemma link_block_redirect:
  assumes ch: "chain m (head m) (as @ bs)" and ne: "as @ bs \<noteq> []" and a: "a \<notin> set as"
  shows "link_block m a (lastz as) (hdz bs) = redirect as a (set_next a (hdz bs) m)"
proof (cases bs)
  case Nil
  with ne have as: "as \<noteq> []" by simp
  then have "last as \<noteq> NULL" and "last as \<noteq> a" using chain_NULL [OF ch] a last_in_set [OF as] by (metis UnCI set_append)+
  with as Nil show ?thesis
    by (simp add: link_block_def redirect_def lastz_def hdz_def set_next_def fun_upd_twist)
next
  case (Cons x xs)
  then have "x \<noteq> NULL" using chain_NULL [OF ch] by auto
  show ?thesis
  proof (cases "as = []")
    case True
    with ch Cons \<open>x \<noteq> NULL\<close> show ?thesis by (simp add: link_block_def redirect_def lastz_def hdz_def)
  next
    case False
    then have "last as \<noteq> NULL" using chain_NULL [OF ch] last_in_set [OF False] by (metis UnCI set_append)
    with False Cons \<open>x \<noteq> NULL\<close> show ?thesis by (simp add: link_block_def redirect_def lastz_def hdz_def)
  qed
qed

lemma heap_ok_link:
  assumes ok: "heap_ok b e (T1 @ (a, s, True) # T2) m"
  shows "heap_ok b e (T1 @ (a, s, False) # T2)
           (redirect (free_addrs T1) a (set_next a (hdz (free_addrs T2)) m))"
    (is "heap_ok b e _ (redirect ?F1 a ?m1)")
proof -
  note at = heap_ok_at [OF ok]
  have c: "chain m (head m) (?F1 @ free_addrs T2)" using ok by (simp add: heap_ok_def)
  then have c2: "chain m (hdz (free_addrs T2)) (free_addrs T2)"
    using chain_suffix [OF c] chain_hd [of m _ "free_addrs T2"] unfolding hdz_def by metis
  have nin: "a \<notin> set ?F1" "a \<notin> set (free_addrs T2)" using at(4) at(12) [of a] at(13) [of a] by auto
  have dj: "set ?F1 \<inter> set (free_addrs T2) = {}" using at(4,12,13) by fastforce
  have "chain ?m1 (head ?m1) (?F1 @ free_addrs T2)" and "chain ?m1 a (a # free_addrs T2)"
    using c c2 nin at(1,2) by auto
  then have "chain (redirect ?F1 a ?m1) (head (redirect ?F1 a ?m1)) (?F1 @ a # free_addrs T2)"
    using at(14) nin dj by (intro chain_redirect [where cs = "free_addrs T2"]) auto
  moreover have "list_all (tile_ok (redirect ?F1 a ?m1)) (T1 @ (a, s, False) # T2)"
    using at(9,15,16) by (auto simp: list_all_iff tile_ok_def)
  ultimately show ?thesis using ok by (auto simp: heap_ok_def contig_append)
qed

lemma set_size_same: "set_size p (blk_size m p) m = m"
  by (simp add: set_size_def blk_size_def)

lemma merge_next_Cons: "\<exists>s' T'. merge_next a s T = (a, s', False) # T'"
  by (auto simp: merge_next_def split: list.splits prod.splits bool.splits)

lemma mem_free_ok:
  assumes ok: "heap_ok b e (T1 @ (a, s, True) # T2) m"
  obtains m' where "Mem_Free (a + sizeof_used_t) m = Some (0, m')"
    and "heap_ok b e (merge_prev T1 (merge_next a s T2)) m'"
proof -
  let ?F1 = "free_addrs T1" and ?F2 = "free_addrs T2"
  let ?ml = "redirect ?F1 a (set_next a (hdz ?F2) m)"
  let ?m' = "coalesce_prev a (lastz ?F1) (coalesce_next a ?ml)"
  note at = heap_ok_at [OF ok]
  have c: "chain m (head m) (?F1 @ ?F2)" using ok by (simp add: heap_ok_def)
  have mg: "blk_magic m a = MAGIC_NUM" using ok by (auto simp: heap_ok_def tile_ok_def)
  have nin: "a \<notin> set ?F1" using at(12) [of a] by auto
  have ret: "Mem_Free (a + sizeof_used_t) m = Some (0, ?m')"
  proof (cases "head m = NULL")
    case True
    with c have "?F1 = []" and "?F2 = []" using chain_hd [OF c] chain_NULL [OF c] by (cases ?F1; cases ?F2; auto)+
    with True mg at(1,2) show ?thesis
      by (simp add: Mem_Free_def sizeof_used_t_def set_size_same redirect_def lastz_def hdz_def Let_def)
  next
    case False
    then have ne: "?F1 @ ?F2 \<noteq> []" using c by auto
    have "insert_loop m a (head m) NULL = Some (lastz ?F1, hdz ?F2)"
      using insert_loop_split [OF c, of a NULL] at(4,12,13) by (force simp: lastz_def hdz_def)
    then show ?thesis using False mg at(1,2) link_block_redirect [OF c ne nin]
      by (simp add: Mem_Free_def sizeof_used_t_def set_size_same Let_def)
  qed
  have "heap_ok b e (T1 @ merge_next a s T2) (coalesce_next a ?ml)"
    by (rule heap_ok_coalesce_next [OF heap_ok_link [OF ok]])
  moreover obtain s' T2' where "merge_next a s T2 = (a, s', False) # T2'"
    using merge_next_Cons by blast
  ultimately have "heap_ok b e (merge_prev T1 (merge_next a s T2)) ?m'"
    using heap_ok_coalesce_prev by metis
  with ret show thesis using that by blast
qed

section \<open>Clients that free only what they hold\<close>

lemma coalesced_append:
  "coalesced (T1 @ T2) \<longleftrightarrow> coalesced T1 \<and> coalesced T2 \<and>
     (T1 = [] \<or> T2 = [] \<or> t_used (last T1) \<or> t_used (hd T2))"
  by (auto simp: coalesced_def successively_append_iff)

lemma coalesced_Cons:
  "coalesced (t # T) \<longleftrightarrow> coalesced T \<and> (T = [] \<or> t_used t \<or> t_used (hd T))"
  using coalesced_append [of "[t]" T] by (auto simp: coalesced_def)


lemma coalesced_merge_next:
  "coalesced T2 \<Longrightarrow> coalesced (merge_next a s T2)"
  by (auto simp: merge_next_def coalesced_Cons split: list.splits prod.splits bool.splits)

lemma merge_next_hd: "hd (merge_next a s T2) = (a, snd (hd (merge_next a s T2))) \<and> \<not> t_used (hd (merge_next a s T2))"
  by (auto simp: merge_next_def split: list.splits prod.splits bool.splits)

lemma coalesced_free:
  assumes "coalesced (T1 @ (a, s, True) # T2)"
  shows "coalesced (merge_prev T1 (merge_next a s T2))"
proof -
  from assms have c1: "coalesced T1" and c2: "coalesced (merge_next a s T2)"
    by (auto simp: coalesced_append coalesced_Cons intro: coalesced_merge_next)
  show ?thesis
  proof (cases "T1 \<noteq> [] \<and> \<not> t_used (last T1)")
    case True
    then have T1: "T1 = butlast T1 @ [last T1]" by simp
    with c1 True have "coalesced (butlast T1)" "butlast T1 = [] \<or> t_used (last (butlast T1))"
      by (metis coalesced_append list.sel(1) not_Cons_self2)+
    with True c2 coalesced_merge_next [OF c2] show ?thesis
      by (auto simp: merge_prev_def coalesced_append)
  next
    case False
    with c1 c2 show ?thesis by (auto simp: merge_prev_def coalesced_append)
  qed
qed




text \<open>
  The states a client can reach: the first successful \<open>Mem_Init\<close> of \<open>region\<close> bytes (any
  \<open>int\<close>), then any calls of \<open>Mem_Init\<close> and \<open>Mem_Alloc\<close> with any argument and any
  \<open>Mem_Free\<close> of a pointer it still holds. \<open>L\<close> records the live pointers with the size asked
  for, \<open>R\<close> every size the client has asked for.
\<close>

inductive mem_run :: "int \<Rightarrow> int \<Rightarrow> int \<Rightarrow> mem_state \<Rightarrow> (int \<times> int) set \<Rightarrow> int set \<Rightarrow> bool"
  for pageSize :: int and base :: int and region :: int where
  init: "Mem_Init pageSize (Some base) region m0 = Inr (0, m) \<Longrightarrow>
     mem_run pageSize base region m {} {}"
| init_again: "mem_run pageSize base region m L R \<Longrightarrow> Mem_Init pageSize mapped n m = Inr (r, m') \<Longrightarrow>
     mem_run pageSize base region m' L R"
| alloc: "mem_run pageSize base region m L R \<Longrightarrow> Mem_Alloc n m = Some (p, m') \<Longrightarrow>
     mem_run pageSize base region m' (if p = NULL then L else insert (p, n) L) (insert n R)"
| free: "mem_run pageSize base region m L R \<Longrightarrow> (p, n) \<in> L \<Longrightarrow> Mem_Free p m = Some (r, m') \<Longrightarrow>
     mem_run pageSize base region m' (L - {(p, n)}) R"
| free_null: "mem_run pageSize base region m L R \<Longrightarrow> Mem_Free NULL m = Some (r, m') \<Longrightarrow>
     mem_run pageSize base region m' L R"

lemma totalSize_upd [simp]:
  "totalSize (set_size p v m) = totalSize m" "totalSize (set_next p v m) = totalSize m"
  "totalSize (set_magic p v m) = totalSize m"
  by (simp_all add: set_size_def set_next_def set_magic_def)





lemma heap_ok_m_error [simp]: "heap_ok b e T (m\<lparr>m_error := x\<rparr>) = heap_ok b e T m"
proof -
  have "chain (m\<lparr>m_error := x\<rparr>) p as = chain m p as" for p as
    by (induction as arbitrary: p) (auto simp: blk_next_def)
  moreover have "tile_ok (m\<lparr>m_error := x\<rparr>) = tile_ok m"
    by (simp add: tile_ok_def blk_size_def blk_magic_def fun_eq_iff)
  ultimately show ?thesis by (simp add: heap_ok_def)
qed

lemma init_trueSize_eq:
  assumes "0 < pageSize" "pageSize \<le> 32768" "0 < n" "n \<le> int_max"
  shows "init_trueSize pageSize n = pageSize * (1 + n mod pageSize)"
proof -
  let ?r = "n mod pageSize"
  have r: "0 \<le> ?r" "?r < pageSize" using assms by simp_all
  have "?r * pageSize \<le> 32767 * 32768" and "pageSize * (1 + ?r) \<le> 32768 * 32768"
    using r assms by (intro mult_mono; linarith)+
  then have b: "0 \<le> ?r * pageSize" "?r * pageSize \<le> 32767 * 32768" "pageSize * (1 + ?r) \<le> 32768 * 32768"
    using r assms by simp_all
  have w: "wrap32 (n - ?r * pageSize) = n - ?r * pageSize"
    "wrap32 (pageSize - (n - ?r * pageSize)) = pageSize - (n - ?r * pageSize)"
    "wrap32 (?r * pageSize) = ?r * pageSize"
    using b assms by (rule_tac wrap32_id; linarith)+
  have eq: "n + (pageSize - (n - ?r * pageSize)) = pageSize * (1 + ?r)" by (simp add: algebra_simps)
  have w2: "wrap32 (pageSize * (1 + ?r)) = pageSize * (1 + ?r)"
    using b(3) r assms by (intro wrap32_id) (auto intro: order_trans [OF _ mult_nonneg_nonneg])
  have "init_trueSize pageSize n = wrap32 (n + (pageSize - (n - ?r * pageSize)))"
    using assms r w by (simp add: init_trueSize_def c_rem_nonneg Let_def)
  then show ?thesis unfolding eq w2 .
qed







section \<open>Properties\<close>



definition mem_zero :: mem_state where
  "mem_zero = \<lparr>head = 0, totalSize = 0, m_error = 0, ints = (\<lambda>_. 0), ptrs = (\<lambda>_. 0)\<rparr>"

definition mem_page :: mem_state where
  "mem_page = set_next 4096 NULL (set_size 4096 4096 (mem_zero\<lparr>totalSize := 4096, head := 4096\<rparr>))"



lemma mem_page_alloc: "Mem_Alloc 100 mem_page = Some (4104, take_block mem_page 112 4096 NULL)"
proof -
  have a: "alloc_size 100 = 112" by (simp add: alloc_size_def mem_consts cint_simps)
  have b: "blk_size mem_page 4096 = 4096" "blk_next mem_page 4096 = NULL" "head mem_page = 4096"
    by (simp_all add: mem_page_def)
  then have "bestfit_loop mem_page 112 4096 NULL NULL NULL = Some (4096, NULL)"
    by (subst bestfit_loop.simps) simp
  with a b show ?thesis by (simp add: Mem_Alloc_def sizeof_used_t_def)
qed



text \<open>
  C2. \<open>Mem_Alloc\<close> of any \<open>int\<close> on a well-formed heap returns (the search ends). A request
  that is not positive is answered \<open>NULL\<close> with \<open>E_BAD_ARGS\<close>. A request of up to
  \<open>INT_MAX - 16\<close> bytes gets the smallest free block that fits, header and alignment included,
  split when more than \<open>minimumSize\<close> bytes remain, with the heap well-formed again; or
  \<open>NULL\<close> with \<open>E_NO_SPACE\<close> exactly when no free block is large enough. For the last
  sixteen values of an \<open>int\<close> the size computation wraps to a negative number: the smallest
  free block is handed out, although no free block has room for more than that, and
  \<open>E_NO_SPACE\<close> comes only when nothing at all is free.
\<close>
theorem mem_alloc_best_fit:
  assumes "heap_ok b e T m" and "n \<le> int_max"
  shows "(n \<le> 0 \<longrightarrow> Mem_Alloc n m = Some (NULL, m\<lparr>m_error := E_BAD_ARGS\<rparr>)) \<and>
    (0 < n \<and> n \<le> int_max - 16 \<longrightarrow>
       sizeof_used_t + n < alloc_size n \<and> alloc_size n \<le> sizeof_used_t + n + 8 \<and> 8 dvd alloc_size n \<and>
       ((\<exists>T1 a s T2 m'. T = T1 @ (a, s, False) # T2 \<and> alloc_size n \<le> s \<and>
            (\<forall>a' s'. (a', s', False) \<in> set T \<longrightarrow> alloc_size n \<le> s' \<longrightarrow> s \<le> s') \<and>
            Mem_Alloc n m = Some (a + sizeof_used_t, m') \<and>
            heap_ok b e (T1 @ alloc_tiles a s (alloc_size n) @ T2) m') \<or>
        ((\<forall>a s. (a, s, False) \<in> set T \<longrightarrow> s < alloc_size n) \<and>
            Mem_Alloc n m = Some (NULL, m\<lparr>m_error := E_NO_SPACE\<rparr>)))) \<and>
    (int_max - 16 < n \<longrightarrow>
       alloc_size n < 0 \<and>
       ((\<exists>a s m'. (a, s, False) \<in> set T \<and> (\<forall>a' s'. (a', s', False) \<in> set T \<longrightarrow> s \<le> s') \<and>
            s - sizeof_used_t \<le> n \<and> Mem_Alloc n m = Some (a + sizeof_used_t, m')) \<or>
        ((\<forall>a s. (a, s, False) \<notin> set T) \<and>
            Mem_Alloc n m = Some (NULL, m\<lparr>m_error := E_NO_SPACE\<rparr>))))"
    (is "?bad \<and> (?ok \<longrightarrow> ?s1 \<and> ?s2 \<and> ?s3 \<and> ?fit) \<and> (?big \<longrightarrow> ?neg \<and> ?wrapped)")
proof (intro conjI impI)
  show "Mem_Alloc n m = Some (NULL, m\<lparr>m_error := E_BAD_ARGS\<rparr>)" if "n \<le> 0"
    using that by (simp add: Mem_Alloc_def)
next
  assume n: "0 < n \<and> n \<le> int_max - 16"
  note sz = alloc_size_facts [OF conjunct1 [OF n] conjunct2 [OF n]]
  from sz show "sizeof_used_t + n < alloc_size n" "alloc_size n \<le> sizeof_used_t + n + 8" "8 dvd alloc_size n"
    by (simp_all add: sizeof_used_t_def)
  from assms(1) conjunct1 [OF n] show ?fit
  proof (cases rule: mem_alloc_cases)
    case (best T1 a s T2)
    have "heap_ok b e (T1 @ alloc_tiles a s (alloc_size n) @ T2)
        (take_block m (alloc_size n) a (lastz (free_addrs T1)))"
      using heap_ok_take_block [OF assms(1) [unfolded best(1)] sz(4) best(2) sz(3)] .
    with best show ?thesis by blast
  qed blast
next
  assume n: ?big
  show neg: "alloc_size n < 0" by (rule alloc_size_wraps [OF n assms(2)])
  have fits: "alloc_size n \<le> s \<and> s - sizeof_used_t \<le> n" if "(a, s, False) \<in> set T" for a s
    using heap_ok_free_size [OF assms(1) that] neg n by (simp add: sizeof_used_t_def)
  have "0 < n" using n by simp
  with assms(1) show ?wrapped
  proof (cases rule: mem_alloc_cases)
    case none
    then show ?thesis using fits by (meson not_le)
  next
    case (best T1 a s T2)
    then have "(a, s, False) \<in> set T" by simp
    with best fits show ?thesis by blast
  qed
qed

lemma mem_page_ok: "heap_ok 4096 8192 [(4096, 4096, False)] mem_page"
  by (simp add: heap_ok_def tile_ok_def mem_page_def)

theorem mem_alloc_best_fit_witness:
  "heap_ok 4096 8192 [(4096, 4096, False)] mem_page \<and>
   (\<exists>m'. Mem_Alloc 100 mem_page = Some (4104, m') \<and>
      heap_ok 4096 8192 [(4096, 112, True), (4208, 3984, False)] m')"
proof -
  have a: "alloc_size 100 = 112" by (simp add: alloc_size_def mem_consts cint_simps)
  have t: "alloc_tiles 4096 4096 112 = [(4096, 112, True), (4208, 3984, False)]"
    by (simp add: alloc_tiles_def mem_consts)
  show ?thesis
    using mem_alloc_best_fit [OF mem_page_ok, of 100] mem_page_ok mem_page_alloc
    by (auto simp: a t Cons_eq_append_conv)
qed

text \<open>
  C3. \<open>Mem_Free\<close> of an allocated block returns 0, gives the block back and merges it with the
  free neighbours on both sides; a heap without adjacent free blocks stays so.
\<close>
theorem mem_free_coalesces:
  assumes "heap_ok b e (T1 @ (a, s, True) # T2) m"
  shows "\<exists>m'. Mem_Free (a + sizeof_used_t) m = Some (0, m') \<and>
    heap_ok b e (merge_prev T1 (merge_next a s T2)) m' \<and>
    (coalesced (T1 @ (a, s, True) # T2) \<longrightarrow> coalesced (merge_prev T1 (merge_next a s T2)))"
  using mem_free_ok [OF assms] coalesced_free by metis

lemma mem_page_used_ok:
  "heap_ok 4096 8192 ([] @ (4096, 112, True) # [(4208, 3984, False)]) (take_block mem_page 112 4096 NULL)"
  using heap_ok_take_block [of 4096 8192 "[]" 4096 4096 "[]" mem_page 112] mem_page_ok
  by (simp add: alloc_tiles_def mem_consts lastz_def)

theorem mem_free_coalesces_witness:
  "\<exists>m'. Mem_Free 4104 (take_block mem_page 112 4096 NULL) = Some (0, m') \<and>
     heap_ok 4096 8192 [(4096, 4096, False)] m'"
  using mem_free_coalesces [OF mem_page_used_ok]
  by (auto simp: merge_prev_def merge_next_def sizeof_used_t_def)

text \<open>
  \<open>Mem_Init\<close> on a fresh allocator succeeds and creates one free block, but of
  \<open>pageSize * (1 + sizeOfRegion mod pageSize)\<close> bytes, whatever was mapped: one page for any
  whole number of pages, and far more than the mapping for other sizes.
\<close>
theorem mem_init_block_size:
  assumes "0 < pageSize" and "pageSize \<le> 32768" and "0 < n" and "n \<le> int_max" and "totalSize m = 0"
  shows "\<exists>m'. Mem_Init pageSize (Some base) n m = Inr (0, m') \<and> head m' = base \<and>
    blk_next m' base = NULL \<and> blk_size m' base = pageSize * (1 + n mod pageSize)"
  using assms init_trueSize_eq [OF assms(1-4)] by (simp add: Mem_Init_def Let_def)

theorem mem_init_block_size_witness:
  "\<exists>m'. Mem_Init 4096 (Some 4096) 100 mem_zero = Inr (0, m') \<and> blk_size m' 4096 = 413696"
  using mem_init_block_size [of 4096 100 mem_zero 4096] by (auto simp: mem_zero_def)

lemma coalesce_next_magic:
  "8 dvd p \<Longrightarrow> 8 dvd q \<Longrightarrow> blk_magic (coalesce_next p m) q = blk_magic m q"
  by (simp add: coalesce_next_def Let_def)

lemma coalesce_prev_magic:
  "8 dvd p \<Longrightarrow> 8 dvd q \<Longrightarrow> blk_magic (coalesce_prev a p m) q = blk_magic m q"
  by (simp add: coalesce_prev_def Let_def)

lemma link_block_magic: "blk_magic (link_block m a p i) q = blk_magic m q"
  by (simp add: link_block_def)

lemma Mem_Free_magic:
  assumes ok: "heap_ok b e (T1 @ (a, s, True) # T2) m"
    and ret: "Mem_Free (a + sizeof_used_t) m = Some (r, m')"
  shows "blk_magic m' a = MAGIC_NUM"
proof -
  note at = heap_ok_at [OF ok]
  have mg: "blk_magic m a = MAGIC_NUM" using ok by (auto simp: heap_ok_def tile_ok_def)
  have c: "chain m (head m) (free_addrs T1 @ free_addrs T2)" using ok by (simp add: heap_ok_def)
  have al: "8 dvd lastz (free_addrs T1)"
  proof (cases "free_addrs T1 = []")
    case False
    then obtain t where "t \<in> set T1" "fst t = last (free_addrs T1)"
      using last_in_set [OF False] by (auto simp: free_addrs_def)
    with at(10) [of t] False show ?thesis by (simp add: lastz_def)
  qed (simp add: lastz_def)
  have "insert_loop m a (head m) NULL = Some (lastz (free_addrs T1), hdz (free_addrs T2))"
    using insert_loop_split [OF c, of a NULL] at(4,12,13) by (force simp: lastz_def hdz_def)
  then show ?thesis
    using ret mg al at(1,2,3)
    by (auto simp: Mem_Free_def sizeof_used_t_def set_size_same Let_def coalesce_next_magic
        coalesce_prev_magic link_block_magic split: if_splits)
qed

text \<open>
  The magic number does not stop a double free: freeing a block leaves its magic number in
  place, so a second \<open>Mem_Free\<close> of the same pointer is never answered with \<open>-1\<close>.
\<close>
theorem mem_double_free_accepted:
  assumes "heap_ok b e (T1 @ (a, s, True) # T2) m"
    and "Mem_Free (a + sizeof_used_t) m = Some (r, m')"
    and "Mem_Free (a + sizeof_used_t) m' = Some (r', m'')"
  shows "r' = 0"
  using Mem_Free_magic [OF assms(1,2)] assms(3)
  by (auto simp: Mem_Free_def Let_def sizeof_used_t_def split: if_splits option.splits prod.splits)

lemma mem_page_free:
  "Mem_Free 4104 (take_block mem_page 112 4096 NULL) =
     Some (0, set_next 4096 NULL (set_size 4096 4096
       ((set_next 4096 4208 (take_block mem_page 112 4096 NULL))\<lparr>head := 4096\<rparr>)))"
proof -
  let ?m = "take_block mem_page 112 4096 NULL"
  have h: "head ?m = 4208" "blk_size ?m 4096 = 112" "blk_size ?m 4208 = 3984" "blk_next ?m 4208 = NULL"
    "blk_magic ?m 4096 = MAGIC_NUM"
    by (simp_all add: take_block_def mem_page_def mem_consts cint_simps Let_def)
  moreover have "insert_loop ?m 4096 4208 NULL = Some (NULL, 4208)"
    by (subst insert_loop.simps) simp
  ultimately show ?thesis
    by (simp add: Mem_Free_def sizeof_used_t_def set_size_same [of 4096 ?m, unfolded h(2)] link_block_def
        coalesce_next_def coalesce_prev_def cint_simps Let_def)
qed

theorem mem_double_free_accepted_witness:
  "\<exists>m' r' m''. Mem_Free 4104 (take_block mem_page 112 4096 NULL) = Some (0, m') \<and>
     Mem_Free 4104 m' = Some (r', m'') \<and> r' = 0"
proof -
  let ?m' = "set_next 4096 NULL (set_size 4096 4096
       ((set_next 4096 4208 (take_block mem_page 112 4096 NULL))\<lparr>head := 4096\<rparr>))"
  have h: "head ?m' = 4096" "blk_next ?m' 4096 = NULL" "blk_size ?m' 4096 = 4096"
    "blk_magic ?m' 4096 = MAGIC_NUM"
    by (simp_all add: take_block_def mem_page_def mem_consts cint_simps Let_def)
  have "insert_loop ?m' 4096 4096 NULL = Some (4096, NULL)"
    by (subst insert_loop.simps) (simp add: h)
  then have "\<exists>r' m''. Mem_Free 4104 ?m' = Some (r', m'')"
    using h by (simp add: Mem_Free_def sizeof_used_t_def set_size_same [of 4096 ?m', unfolded h(3)] Let_def)
  then show ?thesis
    using mem_double_free_accepted [OF mem_page_used_ok] mem_page_free by (auto simp: sizeof_used_t_def)
qed

end
