(* ===== verification/Cstring.thy ===== *)
theory Cstring
  imports Prelude
begin

text \<open>
  The byte and string routines of the xv6 kernel (\<open>src/P1/xv6/xv6/kernel/string.c\<close>) and of
  its user library (\<open>user/ulib.c\<close>, \<open>user/printf.c\<close>). Memory is a function from addresses
  to bytes; a routine that only reads takes the bytes behind its pointer as a function of the
  offset, so that it applies to memory and to byte lists alike. Loops bounded by a count are
  recursive on it; loops that run to a NUL byte are \<open>partial_function\<close>s.
\<close>

type_synonym byte = "8 word"
type_synonym memory = "nat \<Rightarrow> byte"

definition at :: "memory \<Rightarrow> nat \<Rightarrow> nat \<Rightarrow> byte" where
  "at m a i = m (a + i)"

definition of_bytes :: "byte list \<Rightarrow> nat \<Rightarrow> byte" where
  "of_bytes bs i = (if i < length bs then bs ! i else 0)"

section \<open>kernel/string.c\<close>

fun memset :: "memory \<Rightarrow> nat \<Rightarrow> byte \<Rightarrow> nat \<Rightarrow> memory" where
  "memset m dst c 0 = m"
| "memset m dst c (Suc n) = memset (m(dst := c)) (Suc dst) c n"

fun memcmp :: "(nat \<Rightarrow> byte) \<Rightarrow> (nat \<Rightarrow> byte) \<Rightarrow> nat \<Rightarrow> int" where
  "memcmp s1 s2 0 = 0"
| "memcmp s1 s2 (Suc n) =
     (if s1 0 \<noteq> s2 0 then uint (s1 0) - uint (s2 0)
      else memcmp (\<lambda>i. s1 (Suc i)) (\<lambda>i. s2 (Suc i)) n)"

fun copy_up :: "memory \<Rightarrow> nat \<Rightarrow> nat \<Rightarrow> nat \<Rightarrow> memory" where
  "copy_up m d s 0 = m"
| "copy_up m d s (Suc n) = copy_up (m(d := m s)) (Suc d) (Suc s) n"

fun copy_down :: "memory \<Rightarrow> nat \<Rightarrow> nat \<Rightarrow> nat \<Rightarrow> memory" where
  "copy_down m d s 0 = m"
| "copy_down m d s (Suc n) = copy_down (m(d + n := m (s + n))) d s n"

definition memmove :: "memory \<Rightarrow> nat \<Rightarrow> nat \<Rightarrow> nat \<Rightarrow> memory" where
  "memmove m dst src n =
     (if src < dst \<and> dst < src + n then copy_down m dst src n else copy_up m dst src n)"

definition memcpy :: "memory \<Rightarrow> nat \<Rightarrow> nat \<Rightarrow> nat \<Rightarrow> memory" where
  "memcpy m dst src n = memmove m dst src n"

fun strncmp :: "(nat \<Rightarrow> byte) \<Rightarrow> (nat \<Rightarrow> byte) \<Rightarrow> nat \<Rightarrow> int" where
  "strncmp p q 0 = 0"
| "strncmp p q (Suc n) =
     (if p 0 \<noteq> 0 \<and> p 0 = q 0 then strncmp (\<lambda>i. p (Suc i)) (\<lambda>i. q (Suc i)) n
      else uint (p 0) - uint (q 0))"

fun strncpy :: "memory \<Rightarrow> nat \<Rightarrow> nat \<Rightarrow> nat \<Rightarrow> memory" where
  "strncpy m s t 0 = m"
| "strncpy m s t (Suc n) =
     (let c = m t; m = m(s := c)
      in if c \<noteq> 0 then strncpy m (Suc s) (Suc t) n else memset m (Suc s) 0 n)"

fun safestrcpy_loop :: "memory \<Rightarrow> nat \<Rightarrow> nat \<Rightarrow> nat \<Rightarrow> memory" where
  "safestrcpy_loop m s t 0 = m(s := 0)"
| "safestrcpy_loop m s t (Suc n) =
     (let c = m t; m = m(s := c)
      in if c \<noteq> 0 then safestrcpy_loop m (Suc s) (Suc t) n else m(Suc s := 0))"

definition safestrcpy :: "memory \<Rightarrow> nat \<Rightarrow> nat \<Rightarrow> int \<Rightarrow> memory" where
  "safestrcpy m s t n = (if n \<le> 0 then m else safestrcpy_loop m s t (nat n - 1))"

partial_function (option) strlen_from :: "(nat \<Rightarrow> byte) \<Rightarrow> nat \<Rightarrow> nat option" where
  "strlen_from s n = (if s n = 0 then Some n else strlen_from s (Suc n))"

definition strlen :: "(nat \<Rightarrow> byte) \<Rightarrow> nat option" where
  "strlen s = strlen_from s 0"

section \<open>user/ulib.c\<close>

partial_function (option) strcpy :: "memory \<Rightarrow> nat \<Rightarrow> nat \<Rightarrow> memory option" where
  "strcpy m s t = (if m t = 0 then Some (m(s := 0)) else strcpy (m(s := m t)) (Suc s) (Suc t))"

partial_function (option) strcmp :: "(nat \<Rightarrow> byte) \<Rightarrow> (nat \<Rightarrow> byte) \<Rightarrow> int option" where
  "strcmp p q =
     (if p 0 \<noteq> 0 \<and> p 0 = q 0 then strcmp (\<lambda>i. p (Suc i)) (\<lambda>i. q (Suc i))
      else Some (uint (p 0) - uint (q 0)))"

partial_function (option) strchr_from :: "(nat \<Rightarrow> byte) \<Rightarrow> byte \<Rightarrow> nat \<Rightarrow> nat option option" where
  "strchr_from s c i =
     (if s i = 0 then Some None else if s i = c then Some (Some i) else strchr_from s c (Suc i))"

definition strchr :: "(nat \<Rightarrow> byte) \<Rightarrow> byte \<Rightarrow> nat option option" where
  "strchr s c = strchr_from s c 0"

text \<open>\<open>gets\<close> reads file descriptor 0 byte by byte: \<open>inp\<close> is what \<open>read\<close> still delivers.\<close>

fun gets_loop :: "byte list \<Rightarrow> nat \<Rightarrow> byte list \<Rightarrow> byte list \<times> byte list" where
  "gets_loop inp 0 acc = (acc @ [0], inp)"
| "gets_loop [] (Suc k) acc = (acc @ [0], [])"
| "gets_loop (c # inp) (Suc k) acc =
     (if c = 10 \<or> c = 13 then (acc @ [c, 0], inp) else gets_loop inp k (acc @ [c]))"

definition gets :: "byte list \<Rightarrow> nat \<Rightarrow> byte list \<times> byte list" where
  "gets inp maxlen = gets_loop inp (maxlen - 1) []"

partial_function (option) atoi_loop :: "(nat \<Rightarrow> byte) \<Rightarrow> nat \<Rightarrow> int \<Rightarrow> int option" where
  "atoi_loop s i n =
     (if 48 \<le> s i \<and> s i \<le> 57 then atoi_loop s (Suc i) (wrap32 (n * 10 + uint (s i) - 48))
      else Some n)"

definition atoi :: "(nat \<Rightarrow> byte) \<Rightarrow> int option" where
  "atoi s = atoi_loop s 0 0"

definition umemmove :: "memory \<Rightarrow> nat \<Rightarrow> nat \<Rightarrow> nat \<Rightarrow> memory" where
  "umemmove m dst src n = copy_up m dst src n"

section \<open>user/printf.c: printint\<close>

definition digit_char :: "nat \<Rightarrow> byte" where
  "digit_char d = (if d < 10 then 48 + of_nat d else 55 + of_nat d)"

text \<open>
  The do-while loop: the digits in the order they are put into \<open>buf\<close>, lowest first. It is
  called with base 10 and 16 only; a base below 2 (on which the loop would not end) stops at
  once.
\<close>

function digits_rev :: "nat \<Rightarrow> nat \<Rightarrow> byte list" where
  "digits_rev base x =
     (if x div base = 0 \<or> base \<le> 1 then [digit_char (x mod base)]
      else digit_char (x mod base) # digits_rev base (x div base))"
  by pat_completeness auto
termination
proof (relation "measure snd", goal_cases)
  case (2 base x)
  then have "0 < x" and "1 < base" by (auto intro: Nat.gr0I)
  then show ?case by simp
qed simp

declare digits_rev.simps [simp del]

definition printint :: "32 word \<Rightarrow> nat \<Rightarrow> bool \<Rightarrow> byte list" where
  "printint xx base signed_p =
     (let neg = (signed_p \<and> sint xx < 0);
          x = (if neg then - xx else xx);
          buf = digits_rev base (unat x) @ (if neg then [45] else [])
      in rev buf)"

section \<open>Copies\<close>

lemma memset_spec: "memset m dst c n a = (if dst \<le> a \<and> a < dst + n then c else m a)"
  by (induction n arbitrary: m dst) auto

lemma copy_down_spec:
  assumes "s < d"
  shows "copy_down m d s n a = (if d \<le> a \<and> a < d + n then m (s + (a - d)) else m a)"
  using assms
proof (induction n arbitrary: m)
  case (Suc n)
  then show ?case by (cases "a = d + n") (auto simp: less_Suc_eq)
qed auto

lemma copy_up_spec:
  assumes "\<not> (s < d \<and> d < s + n)"
  shows "copy_up m d s n a = (if d \<le> a \<and> a < d + n then m (s + (a - d)) else m a)"
  using assms
proof (induction n arbitrary: m d s)
  case (Suc n)
  have IH: "copy_up (m(d := m s)) (Suc d) (Suc s) n a =
     (if Suc d \<le> a \<and> a < Suc d + n then (m(d := m s)) (Suc s + (a - Suc d)) else (m(d := m s)) a)"
    using Suc by auto
  show ?case
  proof (cases "Suc d \<le> a \<and> a < Suc d + n")
    case True
    then have "Suc s + (a - Suc d) = s + (a - d)" by auto
    moreover have "s + (a - d) \<noteq> d \<or> s = d" using True Suc.prems by auto
    ultimately show ?thesis using IH True by auto
  next
    case False
    then show ?thesis using IH by auto
  qed
qed auto

text \<open>
  \<open>memmove\<close> is correct for overlapping regions too: afterwards the destination holds the
  bytes the source had before, and every other byte is unchanged.
\<close>
theorem memmove_correct:
  "memmove m dst src n a = (if dst \<le> a \<and> a < dst + n then m (src + (a - dst)) else m a)"
  by (simp add: memmove_def copy_down_spec copy_up_spec)

lemma copy_up_snoc: "copy_up m d s (Suc n) = (copy_up m d s n)(d + n := copy_up m d s n (s + n))"
proof (induction n arbitrary: m d s)
  case (Suc n)
  have "copy_up m d s (Suc (Suc n)) = copy_up (m(d := m s)) (Suc d) (Suc s) (Suc n)" by simp
  also note Suc.IH
  finally show ?case by (simp del: fun_upd_apply)
qed simp

lemma copy_up_repeat:
  "s < d \<Longrightarrow> copy_up m d s n a = (if d \<le> a \<and> a < d + n then m (s + (a - d) mod (d - s)) else m a)"
proof (induction n arbitrary: a)
  case (Suc n)
  have "copy_up m d s n (s + n) = m (s + n mod (d - s))"
  proof (cases "s + n < d")
    case True
    then have "n mod (d - s) = n" by simp
    with True Suc show ?thesis by simp
  next
    case False
    then have "s + n - d = n - (d - s)" using Suc.prems by simp
    then have "(s + n - d) mod (d - s) = n mod (d - s)"
      using False Suc.prems by (simp add: le_mod_geq)
    with False Suc show ?thesis by simp
  qed
  with Suc show ?case
    unfolding copy_up_snoc by (auto simp: less_Suc_eq)
qed auto

text \<open>
  The user library's \<open>memmove\<close> copies upwards only. It agrees with the kernel's unless the
  destination starts inside the source; then it repeats the first \<open>dst - src\<close> bytes of the
  source instead of moving the block.
\<close>
theorem umemmove_overlap:
  "(if src < dst \<and> dst < src + n
    then umemmove m dst src n a =
           (if dst \<le> a \<and> a < dst + n then m (src + (a - dst) mod (dst - src)) else m a)
    else umemmove m dst src n = memmove m dst src n)"
  by (simp add: umemmove_def memmove_def copy_up_repeat)

section \<open>String comparison and copying\<close>

text \<open>The string behind a pointer, read up to a NUL byte or \<open>n\<close> bytes.\<close>

fun cstr :: "(nat \<Rightarrow> byte) \<Rightarrow> nat \<Rightarrow> byte list" where
  "cstr p 0 = []"
| "cstr p (Suc n) = (if p 0 = 0 then [] else p 0 # cstr (\<lambda>i. p (Suc i)) n)"

lemma cstr_length: "length (cstr p n) \<le> n"
  by (induction p n rule: cstr.induct) auto

lemma cstr_no_NUL: "0 \<notin> set (cstr p n)"
  by (induction p n rule: cstr.induct) auto

lemma cstr_nth: "i < length (cstr p n) \<Longrightarrow> cstr p n ! i = p i"
proof (induction p n arbitrary: i rule: cstr.induct)
  case (2 p n)
  then show ?case by (cases i) (auto split: if_splits)
qed simp

lemma cstr_stop: "length (cstr p n) < n \<Longrightarrow> p (length (cstr p n)) = 0"
  by (induction p n rule: cstr.induct) auto

lemma cstr_cong: "(\<And>i. i < n \<Longrightarrow> p i = q i) \<Longrightarrow> cstr p n = cstr q n"
proof (induction p n arbitrary: q rule: cstr.induct)
  case (2 p n)
  have "cstr (\<lambda>i. p (Suc i)) n = cstr (\<lambda>i. q (Suc i)) n" if "p 0 \<noteq> 0"
    using "2.IH" [OF that, of "\<lambda>i. q (Suc i)"] "2.prems" by simp
  with "2.prems" [of 0] show ?case by auto
qed simp

lemma strncmp_zero: "strncmp p q n = 0 \<longleftrightarrow> cstr p n = cstr q n"
proof (induction p q n rule: strncmp.induct)
  case (2 p q n)
  show ?case
  proof (cases "p 0 \<noteq> 0 \<and> p 0 = q 0")
    case True
    with 2 show ?thesis by auto
  next
    case False
    then have "strncmp p q (Suc n) = 0 \<longleftrightarrow> p 0 = q 0" by (auto simp: word_uint_eq_iff)
    with False show ?thesis by auto
  qed
qed simp

lemma strncmp_sign: "strncmp p q n < 0 \<longleftrightarrow> (cstr p n, cstr q n) \<in> lexord {(x, y). x < y}"
proof (induction p q n rule: strncmp.induct)
  case (2 p q n)
  show ?case
  proof (cases "p 0 \<noteq> 0 \<and> p 0 = q 0")
    case True
    with 2 show ?thesis by auto
  next
    case False
    then have "strncmp p q (Suc n) < 0 \<longleftrightarrow> p 0 < q 0" by (auto simp: word_less_alt)
    with False show ?thesis by (auto simp: word_gt_0)
  qed
qed simp

text \<open>
  \<open>strncmp\<close> decides equality of the two strings cut at \<open>n\<close> bytes, and its sign is
  their lexicographic order on unsigned bytes.
\<close>
theorem strncmp_correct:
  "(strncmp p q n = 0 \<longleftrightarrow> cstr p n = cstr q n) \<and>
   (strncmp p q n < 0 \<longleftrightarrow> (cstr p n, cstr q n) \<in> lexord {(x, y). x < y})"
  using strncmp_zero strncmp_sign by blast

lemma strncpy_frame: "a < s \<or> s + n \<le> a \<Longrightarrow> strncpy m s t n a = m a"
  by (induction m s t n rule: strncpy.induct) (auto simp: Let_def memset_spec)

lemma strncpy_bytes:
  "\<lbrakk>i < n; t + n \<le> s \<or> s + n \<le> t\<rbrakk> \<Longrightarrow>
   strncpy m s t n (s + i) = (if i < length (cstr (at m t) n) then m (t + i) else 0)"
proof (induction m s t n arbitrary: i rule: strncpy.induct)
  case (2 m s t n)
  let ?m = "m(s := m t)"
  have tl: "cstr (\<lambda>i. at m t (Suc i)) n = cstr (at ?m (Suc t)) n"
    using "2.prems"(2) by (intro cstr_cong) (auto simp: at_def)
  show ?case
  proof (cases "m t = 0")
    case True
    then show ?thesis using "2.prems"(1) by (cases i) (auto simp: at_def memset_spec)
  next
    case False
    show ?thesis
    proof (cases i)
      case 0
      then show ?thesis using False by (simp add: strncpy_frame at_def)
    next
      case (Suc j)
      have "strncpy ?m (Suc s) (Suc t) n (Suc s + j) =
          (if j < length (cstr (at ?m (Suc t)) n) then ?m (Suc t + j) else 0)"
        using "2.prems" Suc False by (intro "2.IH") auto
      then show ?thesis
        using False Suc "2.prems" tl by (auto simp: at_def)
    qed
  qed
qed simp

lemma cstr_strncpy:
  assumes "t + n \<le> s \<or> s + n \<le> t"
  shows "cstr (at (strncpy m s t n) s) n = cstr (at m t) n"
proof -
  have "cstr (at (strncpy m s t n) s) n = cstr (\<lambda>i. if i < length (cstr (at m t) n) then at m t i else 0) n"
    using strncpy_bytes [OF _ assms] by (intro cstr_cong) (simp add: at_def)
  also have "cstr (\<lambda>i. if i < length (cstr p n) then p i else 0) n = cstr p n" for p n
  proof (induction p n rule: cstr.induct)
    case (2 p n)
    then show ?case by (cases "p 0 = 0") auto
  qed simp
  finally show ?thesis .
qed

text \<open>
  \<open>strncpy\<close> between disjoint buffers fills exactly \<open>n\<close> bytes: the source string cut at
  \<open>n\<close> bytes, then NUL bytes, so reading the result back as an \<open>n\<close>-byte string gives the
  source string.
\<close>
theorem strncpy_roundtrip:
  assumes "t + n \<le> s \<or> s + n \<le> t"
  shows "cstr (at (strncpy m s t n) s) n = cstr (at m t) n \<and>
    (\<forall>a. a < s \<or> s + n \<le> a \<longrightarrow> strncpy m s t n a = m a)"
  using cstr_strncpy [OF assms] strncpy_frame by blast

theorem strncpy_roundtrip_witness:
  "cstr (at (strncpy (of_bytes [104, 105, 0, 9, 9, 9]) 10 0 4) 10) 4 = [104, 105]"
proof -
  have "cstr (at (of_bytes [104, 105, 0, 9, 9, 9]) 0) 4 = [104, 105]" by code_simp
  then show ?thesis using strncpy_roundtrip [of 0 4 10 "of_bytes [104, 105, 0, 9, 9, 9]"] by simp
qed

lemma safestrcpy_loop_frame: "a < s \<or> s + k < a \<Longrightarrow> safestrcpy_loop m s t k a = m a"
  by (induction m s t k rule: safestrcpy_loop.induct) (auto simp: Let_def)

lemma safestrcpy_loop_cstr:
  "t + k < s \<or> s + k < t \<Longrightarrow> cstr (at (safestrcpy_loop m s t k) s) (Suc k) = cstr (at m t) k"
proof (induction m s t k rule: safestrcpy_loop.induct)
  case (2 m s t k)
  let ?m = "m(s := m t)"
  show ?case
  proof (cases "m t = 0")
    case False
    let ?r = "safestrcpy_loop ?m (Suc s) (Suc t) k"
    have "?r s = m t" by (simp add: safestrcpy_loop_frame)
    moreover have "cstr (\<lambda>i. at ?r s (Suc i)) (Suc k) = cstr (at ?r (Suc s)) (Suc k)"
      by (rule cstr_cong) (simp add: at_def)
    moreover have "cstr (at ?r (Suc s)) (Suc k) = cstr (at ?m (Suc t)) k"
      using False "2.prems" by (intro "2.IH") auto
    moreover have "cstr (at ?m (Suc t)) k = cstr (\<lambda>i. at m t (Suc i)) k"
      using "2.prems" by (intro cstr_cong) (auto simp: at_def)
    ultimately show ?thesis using False by (simp add: at_def del: fun_upd_apply)
  qed (simp add: at_def)
qed (simp add: at_def)

text \<open>
  \<open>safestrcpy\<close> between disjoint buffers always leaves a NUL-terminated string inside the
  \<open>n\<close> bytes it may write: the source string cut at \<open>n - 1\<close> bytes, and nothing else changes.
\<close>
theorem safestrcpy_terminates_string:
  assumes "0 < n" and "t + nat n \<le> s \<or> s + nat n \<le> t"
  shows "cstr (at (safestrcpy m s t n) s) (nat n) = cstr (at m t) (nat n - 1) \<and>
    (\<exists>i < nat n. safestrcpy m s t n (s + i) = 0) \<and>
    (\<forall>a. a < s \<or> s + nat n \<le> a \<longrightarrow> safestrcpy m s t n a = m a)"
proof -
  obtain k where k: "nat n = Suc k" using assms(1) by (cases "nat n") auto
  then have r: "safestrcpy m s t n = safestrcpy_loop m s t k" using assms(1) by (simp add: safestrcpy_def)
  have c: "cstr (at (safestrcpy_loop m s t k) s) (Suc k) = cstr (at m t) k"
    using assms(2) k by (intro safestrcpy_loop_cstr) auto
  let ?l = "length (cstr (at (safestrcpy_loop m s t k) s) (Suc k))"
  have "?l < Suc k" unfolding c using cstr_length [of "at m t" k] by simp
  moreover from cstr_stop [OF this] have "safestrcpy_loop m s t k (s + ?l) = 0" by (simp add: at_def)
  moreover have "a < s \<or> s + nat n \<le> a \<Longrightarrow> safestrcpy_loop m s t k a = m a" for a
    using k by (intro safestrcpy_loop_frame) auto
  ultimately show ?thesis using r c k by auto
qed

theorem safestrcpy_terminates_string_witness:
  "cstr (at (safestrcpy (of_bytes [105, 110, 105, 116, 99]) 16 0 4) 16) 4 = [105, 110, 105]"
proof -
  have "cstr (at (of_bytes [105, 110, 105, 116, 99]) 0) 3 = [105, 110, 105]" by code_simp
  then show ?thesis
    using safestrcpy_terminates_string [of 4 0 16 "of_bytes [105, 110, 105, 116, 99]"] by simp
qed

section \<open>Numbers\<close>

abbreviation dec_val :: "int \<Rightarrow> byte list \<Rightarrow> int" where
  "dec_val \<equiv> foldl (\<lambda>n c. n * 10 + uint c - 48)"

lemma uint_digit_char: "d < 10 \<Longrightarrow> uint (digit_char d) = 48 + int d"
  by (simp add: digit_char_def uint_word_ariths unsigned_of_nat take_bit_eq_mod)

lemma digits_rev_range: "c \<in> set (digits_rev 10 x) \<Longrightarrow> 48 \<le> uint c \<and> uint c \<le> 57"
proof (induction "10::nat" x rule: digits_rev.induct)
  case (1 x)
  have "48 \<le> uint (digit_char (x mod 10)) \<and> uint (digit_char (x mod 10)) \<le> 57"
    using uint_digit_char [of "x mod 10"] mod_less_divisor [of 10 x] by simp
  with 1 show ?case by (subst (asm) (2) digits_rev.simps) (auto split: if_splits)
qed

lemma dec_val_digits: "dec_val 0 (rev (digits_rev 10 x)) = int x"
proof (induction "10::nat" x rule: digits_rev.induct)
  case (1 x)
  have d: "uint (digit_char (x mod 10)) = 48 + int (x mod 10)" by (simp add: uint_digit_char)
  have m: "int (x div 10) * 10 + int (x mod 10) = int x" by presburger
  show ?case
  proof (cases "x div 10 = 0")
    case True
    with m d show ?thesis by (subst digits_rev.simps) simp
  next
    case False
    with 1 m d show ?thesis by (subst digits_rev.simps) simp
  qed
qed

lemma dec_val_mono: "0 \<le> n \<Longrightarrow> \<forall>c \<in> set cs. 48 \<le> uint c \<Longrightarrow> n \<le> dec_val n cs"
proof (induction cs arbitrary: n)
  case (Cons c cs)
  then have "n * 10 + uint c - 48 \<le> dec_val (n * 10 + uint c - 48) cs" by (intro Cons.IH) auto
  with Cons.prems show ?case by auto
qed simp

lemma atoi_loop_digits:
  assumes "\<forall>c \<in> set cs. 48 \<le> uint c \<and> uint c \<le> 57" and "0 \<le> n" and "dec_val n cs \<le> int_max"
    and "\<And>j. j < length cs \<Longrightarrow> s (i + j) = cs ! j" and "\<not> (48 \<le> s (i + length cs) \<and> s (i + length cs) \<le> 57)"
  shows "atoi_loop s i n = Some (dec_val n cs)"
  using assms
proof (induction cs arbitrary: i n)
  case Nil
  then show ?case by (subst atoi_loop.simps) auto
next
  case (Cons c cs)
  let ?n = "n * 10 + uint c - 48"
  have c: "s i = c" "48 \<le> c" "c \<le> 57" using Cons.prems(1) Cons.prems(4) [of 0] by (auto simp: word_le_def)
  have mono: "?n \<le> dec_val ?n cs" using Cons.prems by (intro dec_val_mono) auto
  then have w: "wrap32 ?n = ?n" using Cons.prems by (intro wrap32_id) auto
  have "atoi_loop s i n = atoi_loop s (Suc i) ?n"
    using c w by (subst atoi_loop.simps) simp
  also have "\<dots> = Some (dec_val ?n cs)"
  proof (rule Cons.IH)
    show "s (Suc i + j) = cs ! j" if "j < length cs" for j
      using Cons.prems(4) [of "Suc j"] that by simp
  qed (use Cons.prems in auto)
  finally show ?case by simp
qed

lemma of_bytes_append: "of_bytes (cs @ [0]) (length cs) = 0" "j < length cs \<Longrightarrow> of_bytes (cs @ [0]) j = cs ! j"
  by (simp_all add: of_bytes_def nth_append)

text \<open>
  Printing an \<open>int\<close> with \<open>%d\<close> and reading it back with \<open>atoi\<close> gives the number for every
  non-negative value; \<open>atoi\<close> knows no sign, so a negative number reads back as 0.
\<close>
theorem atoi_printint:
  "atoi (of_bytes (printint x 10 True @ [0])) = Some (if sint x < 0 then 0 else sint x)"
proof (cases "sint x < 0")
  case True
  then have "of_bytes (printint x 10 True @ [0]) 0 = 45"
    by (simp add: printint_def of_bytes_def)
  then show ?thesis using True by (simp add: atoi_def) (subst atoi_loop.simps, simp)
next
  case False
  let ?cs = "rev (digits_rev 10 (unat x))"
  have p: "printint x 10 True = ?cs" using False by (simp add: printint_def)
  have lt: "sint x < 2 ^ 31" using sint_lt [of x] by simp
  have "uint x = take_bit 32 (sint x)" by (simp add: uint_sint)
  then have "uint x = sint x" using False lt by (simp add: take_bit_int_eq_self)
  then have v: "dec_val 0 ?cs = sint x" using dec_val_digits [of "unat x"] by simp
  have "atoi_loop (of_bytes (?cs @ [0])) 0 0 = Some (dec_val 0 ?cs)"
  proof (rule atoi_loop_digits)
    show "\<forall>c \<in> set ?cs. 48 \<le> uint c \<and> uint c \<le> 57" using digits_rev_range by simp
    show "dec_val 0 ?cs \<le> int_max" using v lt by simp
  qed (simp_all only: of_bytes_append add_0, simp_all)
  with v p False show ?thesis by (simp add: atoi_def)
qed

lemma digits_rev_length: "0 < k \<Longrightarrow> x < base ^ k \<Longrightarrow> 1 < base \<Longrightarrow> length (digits_rev base x) \<le> k"
proof (induction k arbitrary: x)
  case (Suc k)
  show ?case
  proof (cases "x div base = 0")
    case True
    then show ?thesis by (subst digits_rev.simps) simp
  next
    case False
    have "x div base < base ^ k" using Suc.prems by (simp add: less_mult_imp_div_less mult.commute)
    moreover from this False have "0 < k" by (cases k) auto
    ultimately have "length (digits_rev base (x div base)) \<le> k" using Suc by blast
    with False Suc.prems show ?thesis by (subst digits_rev.simps) simp
  qed
qed simp

text \<open>
  The 16-byte buffer of \<open>printint\<close> never overflows in the two bases it is called with: at
  most ten digits and a sign in decimal, at most eight digits in hexadecimal.
\<close>
theorem printint_fits:
  "length (printint x 10 s) \<le> 11 \<and> length (printint x 16 False) \<le> 8"
proof -
  have "unat y < 2 ^ LENGTH(32)" for y :: "32 word" by (rule unsigned_less)
  then have b: "unat y < 4294967296" for y :: "32 word" by simp
  have l: "length (digits_rev 10 (unat y)) \<le> 10" for y :: "32 word"
    using b [of y] by (intro digits_rev_length) simp_all
  moreover have "length (digits_rev 10 (unat y)) \<le> 11" for y :: "32 word"
    using l [of y] by linarith
  moreover have "length (digits_rev 16 (unat x)) \<le> 8"
    using b [of x] by (intro digits_rev_length) simp_all
  ultimately show ?thesis by (simp add: printint_def Let_def)
qed

end
