(* ===== verification/Kalloc.thy ===== *)
theory Kalloc
  imports Prelude
begin

text \<open>
  The physical page allocator \<open>src/P1/xv6/xv6/kernel/kalloc.c\<close>. Physical memory is a function
  from addresses to 32-bit words; a free page holds the address of the next free page in its
  first word (\<open>struct run\<close>). \<open>kend\<close> is the linker symbol \<open>end\<close>. The locale \<open>page_pool\<close> is
  the contract the clients of the allocator (pipes, processes, page tables) rely on.
\<close>

definition PGSIZE :: nat where "PGSIZE = 4096"
definition PHYSTOP :: nat where "PHYSTOP = 0x1000000"

definition PGROUNDUP :: "nat \<Rightarrow> nat" where
  "PGROUNDUP sz = (sz + PGSIZE - 1) div PGSIZE * PGSIZE"

record kmem =
  freelist :: nat
  pmem :: "nat \<Rightarrow> 32 word"

definition fill_page :: "nat \<Rightarrow> 32 word \<Rightarrow> (nat \<Rightarrow> 32 word) \<Rightarrow> nat \<Rightarrow> 32 word" where
  "fill_page v w m a = (if v \<le> a \<and> a < v + PGSIZE then w else m a)"

definition kfree :: "nat \<Rightarrow> nat \<Rightarrow> kmem \<Rightarrow> kmem kres" where
  "kfree kend v k =
     (if v mod PGSIZE \<noteq> 0 \<or> v < kend \<or> PHYSTOP \<le> v then Panic ''kfree''
      else let m = fill_page v 0x01010101 (pmem k);
               m = m(v := of_nat (freelist k))
           in Ok (k\<lparr>pmem := m, freelist := v\<rparr>))"

definition kalloc :: "kmem \<Rightarrow> nat \<times> kmem" where
  "kalloc k =
     (let r = freelist k
      in (r, if r \<noteq> 0 then k\<lparr>freelist := unat (pmem k r)\<rparr> else k))"

function kinit_loop :: "nat \<Rightarrow> nat \<Rightarrow> kmem \<Rightarrow> kmem kres" where
  "kinit_loop kend p k =
     (if p + PGSIZE \<le> PHYSTOP
      then kbind (kfree kend p k) (kinit_loop kend (p + PGSIZE)) else Ok k)"
  by pat_completeness auto
termination
  by (relation "measure (\<lambda>(kend, p, k). PHYSTOP - p)") (auto simp: PGSIZE_def PHYSTOP_def)

declare kinit_loop.simps [simp del]

definition kinit :: "nat \<Rightarrow> kmem \<Rightarrow> kmem kres" where
  "kinit kend k = kinit_loop kend (PGROUNDUP kend) k"

section \<open>The free list\<close>

definition run_next :: "kmem \<Rightarrow> nat \<Rightarrow> nat" where
  "run_next k r = unat (pmem k r)"

definition page_ok :: "nat \<Rightarrow> nat \<Rightarrow> bool" where
  "page_ok kend v \<longleftrightarrow> v mod PGSIZE = 0 \<and> kend \<le> v \<and> v < PHYSTOP"

definition free_pages :: "nat \<Rightarrow> kmem \<Rightarrow> nat list \<Rightarrow> bool" where
  "free_pages kend k ps \<longleftrightarrow>
     0 < kend \<and> linked (run_next k) 0 (freelist k) ps \<and> distinct ps \<and> (\<forall>p \<in> set ps. page_ok kend p)"

lemma page_ok_kfree: "page_ok kend v \<Longrightarrow> \<exists>k'. kfree kend v k = Ok k'"
  by (simp add: kfree_def page_ok_def)

lemma page_ok_distinct_apart:
  assumes "page_ok kend p" and "page_ok kend q" and "p \<noteq> q"
  shows "\<not> (q \<le> p \<and> p < q + PGSIZE)"
proof
  assume a: "q \<le> p \<and> p < q + PGSIZE"
  from assms have "PGSIZE dvd p - q" by (simp add: page_ok_def mod_0_imp_dvd dvd_diff_nat)
  with a assms(3) show False by (auto dest: dvd_imp_le)
qed

lemma freelist_small: "free_pages kend k ps \<Longrightarrow> freelist k < 2 ^ 32"
  by (cases ps) (auto simp: free_pages_def page_ok_def PHYSTOP_def)

lemma kfree_free_pages:
  assumes fp: "free_pages kend k ps" and v: "page_ok kend v" "v \<notin> set ps"
  shows "\<exists>k'. kfree kend v k = Ok k' \<and> free_pages kend k' (v # ps)"
proof -
  let ?k = "k\<lparr>pmem := (fill_page v 0x01010101 (pmem k))(v := of_nat (freelist k)), freelist := v\<rparr>"
  have ret: "kfree kend v k = Ok ?k" using v(1) by (simp add: kfree_def page_ok_def Let_def)
  have nx: "run_next ?k v = freelist k"
    using freelist_small [OF fp] by (simp add: run_next_def unat_of_nat32)
  have "run_next ?k p = run_next k p" if "p \<in> set ps" for p
  proof -
    have "page_ok kend p" and "p \<noteq> v" using that fp v(2) by (auto simp: free_pages_def)
    from page_ok_distinct_apart [OF this(1) v(1) this(2)] \<open>p \<noteq> v\<close>
    show ?thesis by (auto simp: run_next_def fill_page_def)
  qed
  then have "linked (run_next ?k) 0 (freelist k) ps"
    using linked_cong [of ps "run_next ?k" "run_next k" 0 "freelist k"] fp by (simp add: free_pages_def)
  moreover have "v \<noteq> 0" using v(1) fp by (auto simp: page_ok_def free_pages_def)
  ultimately have "free_pages kend ?k (v # ps)" using nx v fp by (simp add: free_pages_def)
  with ret show ?thesis by blast
qed

lemma kalloc_free_pages:
  assumes "free_pages kend k ps"
  shows "case ps of [] \<Rightarrow> kalloc k = (0, k)
         | p # qs \<Rightarrow> \<exists>k'. kalloc k = (p, k') \<and> p \<noteq> 0 \<and> free_pages kend k' qs \<and> pmem k' = pmem k"
proof (cases ps)
  case (Cons p qs)
  have "linked (run_next (k\<lparr>freelist := f\<rparr>)) 0 q qs = linked (run_next k) 0 q qs" for f q
    by (rule linked_cong) (simp add: run_next_def)
  with Cons assms show ?thesis by (auto simp: kalloc_def free_pages_def run_next_def)
qed (use assms in \<open>simp add: kalloc_def free_pages_def\<close>)

section \<open>The contract of the allocator\<close>

text \<open>
  A page pool: \<open>rep s ps\<close> says that the free pages of state \<open>s\<close> are the list \<open>ps\<close>.
  \<open>take\<close> returns 0 when the pool is empty.
\<close>

locale page_pool =
  fixes rep :: "'s \<Rightarrow> nat list \<Rightarrow> bool"
    and take_page :: "'s \<Rightarrow> nat \<times> 's"
    and give_page :: "nat \<Rightarrow> 's \<Rightarrow> 's kres"
    and legal :: "nat \<Rightarrow> bool"
  assumes take_empty: "rep s [] \<Longrightarrow> take_page s = (0, s)"
    and take_some: "rep s (p # ps) \<Longrightarrow> \<exists>s'. take_page s = (p, s') \<and> p \<noteq> 0 \<and> rep s' ps"
    and give: "rep s ps \<Longrightarrow> legal p \<Longrightarrow> p \<notin> set ps \<Longrightarrow> \<exists>s'. give_page p s = Ok s' \<and> rep s' (p # ps)"
    and rep_distinct: "rep s ps \<Longrightarrow> distinct ps"
    and rep_legal: "rep s ps \<Longrightarrow> p \<in> set ps \<Longrightarrow> legal p"
begin

fun take_pages :: "nat \<Rightarrow> 's \<Rightarrow> nat list \<times> 's" where
  "take_pages 0 s = ([], s)"
| "take_pages (Suc n) s = (let (p, s) = take_page s; (ps, s) = take_pages n s in (p # ps, s))"

lemma take_pages_prefix:
  "rep s ps \<Longrightarrow> n \<le> length ps \<Longrightarrow> \<exists>s'. take_pages n s = (take n ps, s') \<and> rep s' (drop n ps)"
proof (induction n arbitrary: s ps)
  case (Suc n)
  then obtain p qs where ps: "ps = p # qs" by (cases ps) auto
  with take_some Suc.prems(1) obtain s1 where "take_page s = (p, s1)" "rep s1 qs" by blast
  with Suc.IH [of s1 qs] Suc.prems(2) ps show ?case by auto
qed simp

lemma take_pages_fresh:
  assumes "rep s ps" and "n \<le> length ps"
  shows "\<exists>qs s'. take_pages n s = (qs, s') \<and> length qs = n \<and> distinct qs \<and> (\<forall>q \<in> set qs. legal q \<and> q \<noteq> 0) \<and>
    rep s' (drop n ps) \<and> set qs \<inter> set (drop n ps) = {}"
proof -
  have nz: "0 \<notin> set ps" if "rep s ps" for s ps
    using that
  proof (induction ps arbitrary: s)
    case (Cons p ps)
    then show ?case using take_some by fastforce
  qed simp
  from take_pages_prefix [OF assms] obtain s' where
    "take_pages n s = (take n ps, s')" "rep s' (drop n ps)" by blast
  then show ?thesis
    using rep_distinct [OF assms(1)] rep_legal [OF assms(1)] nz [OF assms(1)] assms(2)
    by (auto simp: set_take_disj_set_drop_if_distinct dest: in_set_takeD intro!: gr0I)
qed

lemma take_give:
  assumes "rep s (p # ps)"
  shows "\<exists>s1 s2. take_page s = (p, s1) \<and> give_page p s1 = Ok s2 \<and> rep s2 (p # ps)"
proof -
  from take_some [OF assms] obtain s1 where t: "take_page s = (p, s1)" "rep s1 ps" by blast
  have "legal p" "p \<notin> set ps" using rep_legal [OF assms] rep_distinct [OF assms] by auto
  with give [OF t(2)] t(1) show ?thesis by blast
qed

end

interpretation km: page_pool "free_pages kend" kalloc "kfree kend" "page_ok kend" for kend
proof (unfold_locales, goal_cases)
  case (1 s)
  then show ?case using kalloc_free_pages by fastforce
next
  case (2 s p ps)
  then show ?case using kalloc_free_pages by fastforce
next
  case (3 s ps p)
  then show ?case by (rule kfree_free_pages)
qed (auto simp: free_pages_def)

section \<open>Initialisation\<close>

fun pages_from :: "nat \<Rightarrow> nat \<Rightarrow> nat list" where
  "pages_from p 0 = []"
| "pages_from p (Suc n) = p # pages_from (p + PGSIZE) n"

lemma pages_from_mem: "q \<in> set (pages_from p n) \<longleftrightarrow> (\<exists>i < n. q = p + i * PGSIZE)"
proof (induction n arbitrary: p)
  case (Suc n)
  have "(\<exists>i < Suc n. q = p + i * PGSIZE) \<longleftrightarrow> q = p \<or> (\<exists>i < n. q = p + Suc i * PGSIZE)"
    by (auto simp: less_Suc_eq_0_disj)
  then show ?case using Suc by (auto simp: add_ac)
qed simp

lemma kinit_loop_pages:
  assumes "free_pages kend k ps" and "p mod PGSIZE = 0" and "kend \<le> p" and "\<forall>q \<in> set ps. q < p"
  shows "\<exists>k'. kinit_loop kend p k = Ok k' \<and> free_pages kend k' (rev (pages_from p ((PHYSTOP - p) div PGSIZE)) @ ps)"
  using assms
proof (induction kend p k arbitrary: ps rule: kinit_loop.induct)
  case (1 kend p k)
  show ?case
  proof (cases "p + PGSIZE \<le> PHYSTOP")
    case True
    then have "page_ok kend p" and "p \<notin> set ps"
      using "1.prems" by (auto simp: page_ok_def PGSIZE_def)
    from kfree_free_pages [OF "1.prems"(1) this] obtain k1 where
      k1: "kfree kend p k = Ok k1" "free_pages kend k1 (p # ps)" by blast
    have "\<forall>q \<in> set (p # ps). q < p + PGSIZE" using "1.prems"(4) by (auto simp: PGSIZE_def)
    with "1.IH" [OF True k1] "1.prems" obtain k' where
      k': "kinit_loop kend (p + PGSIZE) k1 = Ok k'"
      "free_pages kend k' (rev (pages_from (p + PGSIZE) ((PHYSTOP - (p + PGSIZE)) div PGSIZE)) @ p # ps)"
      by auto
    have "(PHYSTOP - p) div PGSIZE = Suc ((PHYSTOP - (p + PGSIZE)) div PGSIZE)"
      using True by (simp add: PGSIZE_def le_div_geq)
    with k' k1 True show ?thesis by (simp add: kinit_loop.simps [of kend p k])
  next
    case False
    then have "(PHYSTOP - p) div PGSIZE = 0" by (simp add: PGSIZE_def)
    with False "1.prems" show ?thesis by (simp add: kinit_loop.simps [of kend p k])
  qed
qed

lemma PGROUNDUP_spec: "PGROUNDUP x mod PGSIZE = 0" "x \<le> PGROUNDUP x" "PGROUNDUP x < x + PGSIZE"
proof -
  have "(x + 4095) div 4096 * 4096 + (x + 4095) mod 4096 = x + 4095" by simp
  moreover have "(x + 4095) mod 4096 < 4096" by simp
  ultimately show "PGROUNDUP x mod PGSIZE = 0" "x \<le> PGROUNDUP x" "PGROUNDUP x < x + PGSIZE"
    unfolding PGROUNDUP_def PGSIZE_def by simp_all
qed

lemma page_index:
  "(\<exists>i < (PHYSTOP - PGROUNDUP kend) div PGSIZE. q = PGROUNDUP kend + i * PGSIZE) \<longleftrightarrow>
   q mod PGSIZE = 0 \<and> kend \<le> q \<and> q + PGSIZE \<le> PHYSTOP" (is "?L \<longleftrightarrow> ?R")
proof -
  obtain a where a: "PGROUNDUP kend = a * 4096"
    using PGROUNDUP_spec(1) [of kend] by (metis PGSIZE_def mod_0_imp_dvd dvd_def mult.commute)
  have ph: "PHYSTOP = 4096 * 4096" by (simp add: PHYSTOP_def)
  have n: "(PHYSTOP - PGROUNDUP kend) div PGSIZE = 4096 - a"
    unfolding a ph PGSIZE_def by (simp flip: diff_mult_distrib)
  show ?thesis
  proof
    assume ?L
    then obtain i where "i < 4096 - a" "q = (a + i) * 4096" using n a by (auto simp: PGSIZE_def algebra_simps)
    with PGROUNDUP_spec(2) [of kend] a ph show ?R by (simp add: PGSIZE_def)
  next
    assume r: ?R
    then obtain c where c: "q = c * 4096" by (metis PGSIZE_def mod_0_imp_dvd dvd_def mult.commute)
    with r PGROUNDUP_spec(3) [of kend] a ph have "a \<le> c" "c < 4096" by (simp_all add: PGSIZE_def)
    then have "c - a < 4096 - a" "q = a * 4096 + (c - a) * 4096" using c by (simp_all flip: add_mult_distrib)
    then show ?L unfolding n unfolding a by (auto simp: PGSIZE_def intro!: exI [of _ "c - a"])
  qed
qed

text \<open>
  C20. \<open>kinit\<close> never panics and leaves on the free list exactly the whole pages between the end
  of the kernel and \<open>PHYSTOP\<close>, each once.
\<close>
theorem kinit_all_pages:
  assumes "0 < kend" and "freelist k = 0"
  shows "\<exists>k' ps. kinit kend k = Ok k' \<and> free_pages kend k' ps \<and>
    set ps = {p. p mod PGSIZE = 0 \<and> kend \<le> p \<and> p + PGSIZE \<le> PHYSTOP}"
proof -
  let ?p = "PGROUNDUP kend" and ?n = "(PHYSTOP - PGROUNDUP kend) div PGSIZE"
  have "free_pages kend k []" using assms by (simp add: free_pages_def)
  from kinit_loop_pages [OF this PGROUNDUP_spec(1,2)] obtain k' where
    k': "kinit kend k = Ok k'" "free_pages kend k' (rev (pages_from ?p ?n))"
    by (auto simp: kinit_def)
  have "set (rev (pages_from ?p ?n)) = {p. p mod PGSIZE = 0 \<and> kend \<le> p \<and> p + PGSIZE \<le> PHYSTOP}"
    by (intro set_eqI) (simp add: pages_from_mem page_index)
  with k' show ?thesis by blast
qed

theorem kinit_all_pages_witness:
  "\<exists>k' ps. kinit 0xFFF000 \<lparr>freelist = 0, pmem = (\<lambda>_. 0)\<rparr> = Ok k' \<and> free_pages 0xFFF000 k' ps \<and> 0xFFF000 \<in> set ps"
proof -
  obtain k' ps where "kinit 0xFFF000 \<lparr>freelist = 0, pmem = (\<lambda>_. 0)\<rparr> = Ok k'" "free_pages 0xFFF000 k' ps"
    "set ps = {p. p mod PGSIZE = 0 \<and> 0xFFF000 \<le> p \<and> p + PGSIZE \<le> PHYSTOP}"
    using kinit_all_pages [of "0xFFF000" "\<lparr>freelist = 0, pmem = (\<lambda>_. 0)\<rparr>"] by auto
  then show ?thesis by (intro exI [of _ k'] exI [of _ ps]) (simp add: PGSIZE_def PHYSTOP_def)
qed

text \<open>
  Successive calls of \<open>kalloc\<close> hand out distinct, page-aligned pages of the pool, and none of
  them is still free afterwards.
\<close>
theorem kalloc_fresh_pages:
  assumes "free_pages kend k ps" and "n \<le> length ps"
  shows "\<exists>qs k'. km.take_pages n k = (qs, k') \<and> length qs = n \<and> distinct qs \<and>
    (\<forall>q \<in> set qs. page_ok kend q \<and> q \<noteq> 0) \<and> free_pages kend k' (drop n ps) \<and> set qs \<inter> set (drop n ps) = {}"
  using km.take_pages_fresh [OF assms] .

theorem kalloc_fresh_pages_witness:
  "\<exists>qs k'. km.take_pages 1 \<lparr>freelist = 4096, pmem = (\<lambda>_. 0)\<rparr> = (qs, k') \<and> length qs = 1 \<and> free_pages 4096 k' []"
  using kalloc_fresh_pages [of 4096 "\<lparr>freelist = 4096, pmem = (\<lambda>_. 0)\<rparr>" "[4096]" 1]
  by (auto simp: free_pages_def page_ok_def run_next_def PGSIZE_def PHYSTOP_def)

end
