(* ===== verification/Vm.thy ===== *)
theory Vm
  imports Kalloc
begin

unbundle bit_operations_syntax

text \<open>
  Virtual memory, \<open>src/P1/xv6/xv6/kernel/vm.c\<close>. Page directories and page tables live in the pages
  \<open>kalloc\<close> hands out; an entry is a 32-bit word of physical memory, which the kernel maps one to one. A
  pointer to an entry is its address, 0 the null pointer. Memory is addressed by words here: the
  model uses the addresses that are multiples of 4. The size of a process never exceeds \<open>USERTOP\<close>,
  so only \<open>mappages\<close>, whose device range ends at address 0, has addresses that wrap.
\<close>

section \<open>mmu.h\<close>

definition USERTOP :: nat where "USERTOP = 0xA0000"
definition NPDENTRIES :: nat where "NPDENTRIES = 1024"

definition PTE_P :: "32 word" where "PTE_P = 1"
definition PTE_W :: "32 word" where "PTE_W = 2"
definition PTE_U :: "32 word" where "PTE_U = 4"

definition PTE_ADDR :: "32 word \<Rightarrow> nat" where
  "PTE_ADDR pte = unat (pte AND NOT 0xFFF)"

definition PDX :: "nat \<Rightarrow> nat" where "PDX va = va div 2 ^ 22 mod 1024"
definition PTX :: "nat \<Rightarrow> nat" where "PTX va = va div 2 ^ 12 mod 1024"

definition PGROUNDDOWN :: "nat \<Rightarrow> nat" where "PGROUNDDOWN a = a div PGSIZE * PGSIZE"

section \<open>vm.c\<close>

definition set_word :: "nat \<Rightarrow> 32 word \<Rightarrow> kmem \<Rightarrow> kmem" where
  "set_word a w k = k\<lparr>pmem := (pmem k)(a := w)\<rparr>"

text \<open>\<open>memset(p, 0, PGSIZE)\<close> and \<open>memmove(dst, src, PGSIZE)\<close> of whole pages.\<close>

definition zero_page :: "nat \<Rightarrow> kmem \<Rightarrow> kmem" where
  "zero_page p k = k\<lparr>pmem := fill_page p 0 (pmem k)\<rparr>"

definition copy_page :: "nat \<Rightarrow> nat \<Rightarrow> kmem \<Rightarrow> kmem" where
  "copy_page dst src k =
     k\<lparr>pmem := \<lambda>a. if dst \<le> a \<and> a < dst + PGSIZE then pmem k (src + (a - dst)) else pmem k a\<rparr>"

definition present :: "32 word \<Rightarrow> bool" where
  "present e \<longleftrightarrow> e AND PTE_P \<noteq> 0"

definition walkpgdir :: "nat \<Rightarrow> nat \<Rightarrow> bool \<Rightarrow> kmem \<Rightarrow> nat \<times> kmem" where
  "walkpgdir pgdir va create k =
     (let pde = pgdir + 4 * PDX va in
      if present (pmem k pde) then (PTE_ADDR (pmem k pde) + 4 * PTX va, k)
      else if \<not> create then (0, k)
      else let (pgtab, k) = kalloc k in
        if pgtab = 0 then (0, k)
        else (pgtab + 4 * PTX va,
              set_word pde (of_nat pgtab OR PTE_P OR PTE_W OR PTE_U) (zero_page pgtab k)))"

text \<open>
  The loop of \<open>mappages\<close> stops when \<open>a\<close> reaches \<open>last\<close>; both are page-aligned, so \<open>n\<close> further rounds follow
  where \<open>n\<close> is their distance in pages, counted round the end of the address space.
\<close>

fun mappages_loop :: "nat \<Rightarrow> nat \<Rightarrow> nat \<Rightarrow> nat \<Rightarrow> 32 word \<Rightarrow> kmem \<Rightarrow> (int \<times> kmem) kres" where
  "mappages_loop n pgdir a pa perm k =
     (let (pte, k) = walkpgdir pgdir a True k in
      if pte = 0 then Ok (- 1, k)
      else if present (pmem k pte) then Panic ''remap''
      else let k = set_word pte (of_nat pa OR perm OR PTE_P) k in
        case n of 0 \<Rightarrow> Ok (0, k)
        | Suc n \<Rightarrow> mappages_loop n pgdir ((a + PGSIZE) mod 2 ^ 32) ((pa + PGSIZE) mod 2 ^ 32) perm k)"

declare mappages_loop.simps [simp del]

definition mappages :: "nat \<Rightarrow> nat \<Rightarrow> nat \<Rightarrow> nat \<Rightarrow> 32 word \<Rightarrow> kmem \<Rightarrow> (int \<times> kmem) kres" where
  "mappages pgdir la sz pa perm k =
     (let a = PGROUNDDOWN la; last = PGROUNDDOWN ((la + sz + 2 ^ 32 - 1) mod 2 ^ 32) in
      mappages_loop ((last + 2 ^ 32 - a) mod 2 ^ 32 div PGSIZE) pgdir a pa perm k)"

text \<open>\<open>kmap\<close>: start, end and permission; \<open>data\<close> is the linker symbol where the kernel's data starts.\<close>

definition kmap :: "nat \<Rightarrow> (nat \<times> nat \<times> 32 word) list" where
  "kmap data = [(USERTOP, 0x100000, PTE_W), (0x100000, data, 0), (data, PHYSTOP, PTE_W), (0xFE000000, 0, PTE_W)]"

fun setupkvm_loop :: "nat \<Rightarrow> (nat \<times> nat \<times> 32 word) list \<Rightarrow> kmem \<Rightarrow> (nat \<times> kmem) kres" where
  "setupkvm_loop pgdir [] k = Ok (pgdir, k)"
| "setupkvm_loop pgdir ((p, e, perm) # ms) k =
     kbind (mappages pgdir p ((e + 2 ^ 32 - p) mod 2 ^ 32) p perm k) (\<lambda>(r, k).
       if r < 0 then Ok (0, k) else setupkvm_loop pgdir ms k)"

definition setupkvm :: "nat \<Rightarrow> kmem \<Rightarrow> (nat \<times> kmem) kres" where
  "setupkvm data k = (let (pgdir, k) = kalloc k in
     if pgdir = 0 then Ok (0, k) else setupkvm_loop pgdir (kmap data) (zero_page pgdir k))"

function deallocuvm_loop :: "nat \<Rightarrow> nat \<Rightarrow> nat \<Rightarrow> nat \<Rightarrow> kmem \<Rightarrow> kmem kres" where
  "deallocuvm_loop kend pgdir a oldsz k =
     (if a < oldsz then
        let (pte, k) = walkpgdir pgdir a False k in
        kbind (if pte \<noteq> 0 \<and> present (pmem k pte) then
                 (let pa = PTE_ADDR (pmem k pte) in
                  if pa = 0 then Panic ''kfree''
                  else kbind (kfree kend pa k) (\<lambda>k. Ok (set_word pte 0 k)))
               else Ok k) (deallocuvm_loop kend pgdir (a + PGSIZE) oldsz)
      else Ok k)"
  by pat_completeness auto
termination by (relation "measure (\<lambda>(kend, pgdir, a, oldsz, k). oldsz - a)") (auto simp: PGSIZE_def)

declare deallocuvm_loop.simps [simp del]

definition deallocuvm :: "nat \<Rightarrow> nat \<Rightarrow> nat \<Rightarrow> nat \<Rightarrow> kmem \<Rightarrow> (nat \<times> kmem) kres" where
  "deallocuvm kend pgdir oldsz newsz k =
     (if newsz \<ge> oldsz then Ok (oldsz, k)
      else kbind (deallocuvm_loop kend pgdir (PGROUNDUP newsz) oldsz k) (\<lambda>k. Ok (newsz, k)))"

function allocuvm_loop :: "nat \<Rightarrow> nat \<Rightarrow> nat \<Rightarrow> nat \<Rightarrow> nat \<Rightarrow> kmem \<Rightarrow> (nat \<times> kmem) kres" where
  "allocuvm_loop kend pgdir oldsz newsz a k =
     (if a < newsz then
        let (mem, k) = kalloc k in
        if mem = 0 then kbind (deallocuvm kend pgdir newsz oldsz k) (\<lambda>(_, k). Ok (0, k))
        else kbind (mappages pgdir a PGSIZE mem (PTE_W OR PTE_U) (zero_page mem k)) (\<lambda>(_, k).
             allocuvm_loop kend pgdir oldsz newsz (a + PGSIZE) k)
      else Ok (newsz, k))"
  by pat_completeness auto
termination by (relation "measure (\<lambda>(kend, pgdir, oldsz, newsz, a, k). newsz - a)") (auto simp: PGSIZE_def)

declare allocuvm_loop.simps [simp del]

definition allocuvm :: "nat \<Rightarrow> nat \<Rightarrow> nat \<Rightarrow> nat \<Rightarrow> kmem \<Rightarrow> (nat \<times> kmem) kres" where
  "allocuvm kend pgdir oldsz newsz k =
     (if newsz > USERTOP then Ok (0, k)
      else if newsz < oldsz then Ok (oldsz, k)
      else allocuvm_loop kend pgdir oldsz newsz (PGROUNDUP oldsz) k)"

fun freevm_tables :: "nat \<Rightarrow> nat \<Rightarrow> nat list \<Rightarrow> kmem \<Rightarrow> kmem kres" where
  "freevm_tables kend pgdir [] k = Ok k"
| "freevm_tables kend pgdir (i # is) k =
     kbind (if present (pmem k (pgdir + 4 * i)) then kfree kend (PTE_ADDR (pmem k (pgdir + 4 * i))) k else Ok k)
       (freevm_tables kend pgdir is)"

definition freevm :: "nat \<Rightarrow> nat \<Rightarrow> kmem \<Rightarrow> kmem kres" where
  "freevm kend pgdir k =
     (if pgdir = 0 then Panic ''freevm: no pgdir''
      else kbind (deallocuvm kend pgdir USERTOP 0 k) (\<lambda>(_, k).
           kbind (freevm_tables kend pgdir [0..<NPDENTRIES] k) (kfree kend pgdir)))"

function copyuvm_loop :: "nat \<Rightarrow> nat \<Rightarrow> nat \<Rightarrow> nat \<Rightarrow> nat \<Rightarrow> kmem \<Rightarrow> (nat \<times> kmem) kres" where
  "copyuvm_loop kend pgdir d sz i k =
     (if i < sz then
        let (pte, k) = walkpgdir pgdir i False k in
        if pte = 0 then Panic ''copyuvm: pte should exist''
        else if \<not> present (pmem k pte) then Panic ''copyuvm: page not present''
        else let pa = PTE_ADDR (pmem k pte); (mem, k) = kalloc k in
          if mem = 0 then kbind (freevm kend d k) (\<lambda>k. Ok (0, k))
          else kbind (mappages d i PGSIZE mem (PTE_W OR PTE_U) (copy_page mem pa k)) (\<lambda>(r, k).
            if r < 0 then kbind (freevm kend d k) (\<lambda>k. Ok (0, k))
            else copyuvm_loop kend pgdir d sz (i + PGSIZE) k)
      else Ok (d, k))"
  by pat_completeness auto
termination by (relation "measure (\<lambda>(kend, pgdir, d, sz, i, k). sz - i)") (auto simp: PGSIZE_def)

declare copyuvm_loop.simps [simp del]

definition copyuvm :: "nat \<Rightarrow> nat \<Rightarrow> nat \<Rightarrow> nat \<Rightarrow> kmem \<Rightarrow> (nat \<times> kmem) kres" where
  "copyuvm kend data pgdir sz k =
     kbind (setupkvm data k) (\<lambda>(d, k). if d = 0 then Ok (0, k) else copyuvm_loop kend pgdir d sz 0 k)"

section \<open>Entries\<close>

text \<open>
  The page table below a directory \<open>d\<close> as a function of the virtual page number \<open>v\<close>: which table serves it,
  where its entry is, and the entry, 0 when the table is missing. \<open>pt_pages\<close> are the pages it is made of.
\<close>

definition table :: "(nat \<Rightarrow> 32 word) \<Rightarrow> nat \<Rightarrow> nat \<Rightarrow> nat" where
  "table m d i = PTE_ADDR (m (d + 4 * i))"

definition dirs :: "(nat \<Rightarrow> 32 word) \<Rightarrow> nat \<Rightarrow> nat set" where
  "dirs m d = {i. i < NPDENTRIES \<and> present (m (d + 4 * i))}"

definition pt_pages :: "(nat \<Rightarrow> 32 word) \<Rightarrow> nat \<Rightarrow> nat set" where
  "pt_pages m d = insert d (table m d ` dirs m d)"

definition entry_at :: "(nat \<Rightarrow> 32 word) \<Rightarrow> nat \<Rightarrow> nat \<Rightarrow> nat" where
  "entry_at m d v = table m d (v div 1024) + 4 * (v mod 1024)"

definition entry :: "(nat \<Rightarrow> 32 word) \<Rightarrow> nat \<Rightarrow> nat \<Rightarrow> 32 word" where
  "entry m d v = (if v div 1024 \<in> dirs m d then m (entry_at m d v) else 0)"

definition pt_ok :: "nat \<Rightarrow> (nat \<Rightarrow> 32 word) \<Rightarrow> nat \<Rightarrow> bool" where
  "pt_ok kend m d \<longleftrightarrow> page_ok kend d \<and> (\<forall>p \<in> table m d ` dirs m d. page_ok kend p \<and> p \<noteq> d) \<and> inj_on (table m d) (dirs m d)"

lemma not_present_0 [simp]: "\<not> present 0"
  by (simp add: present_def)

lemma present_bit: "present e \<longleftrightarrow> bit e 0"
  by (simp add: present_def PTE_P_def and_one_eq mod_2_eq_odd bit_0)

lemma present_pte [simp]: "present (x OR PTE_P)" "present (x OR y OR PTE_P)" "present (x OR PTE_P OR y)"
  by (simp_all add: present_bit bit_or_iff PTE_P_def)

lemma low_bits_word: "x AND 0xFFF = take_bit 12 (x :: 32 word)"
proof -
  have "(0xFFF :: 32 word) = mask 12" by (simp add: mask_eq_exp_minus_1)
  then show ?thesis by (simp add: take_bit_eq_mask)
qed

lemma aligned_word: "p mod PGSIZE = 0 \<Longrightarrow> (of_nat p :: 32 word) AND 0xFFF = 0"
proof -
  assume "p mod PGSIZE = 0"
  then have "take_bit 12 p = 0" by (simp add: PGSIZE_def take_bit_eq_mod)
  then have "take_bit 12 (of_nat p :: 32 word) = 0" using take_bit_of_nat [of 12 p, where 'a = "32 word"] by simp
  then show ?thesis by (simp add: low_bits_word)
qed

lemma and_not_low: "x AND 0xFFF = 0 \<Longrightarrow> x AND NOT 0xFFF = (x :: 32 word)"
proof -
  assume "x AND 0xFFF = 0"
  moreover have "x = (x AND 0xFFF) OR (x AND NOT 0xFFF)" by (simp flip: bit.conj_disj_distrib)
  ultimately show ?thesis by simp
qed

text \<open>Words that only have permission bits.\<close>

definition flags :: "32 word \<Rightarrow> bool" where
  "flags f \<longleftrightarrow> f AND NOT 0xFFF = 0"

lemma flags_simps [simp]: "flags PTE_P" "flags PTE_W" "flags PTE_U" "flags 0"
  by (simp_all add: flags_def PTE_P_def PTE_W_def PTE_U_def)

lemma flags_or [simp]: "flags (x OR y) \<longleftrightarrow> flags x \<and> flags y"
  by (auto simp: flags_def bit.conj_disj_distrib2 or_eq_0_iff)

lemma PTE_ADDR_pte:
  assumes "p mod PGSIZE = 0" and "p < 2 ^ 32" and "flags f"
  shows "PTE_ADDR (of_nat p OR f) = p"
proof -
  have "(of_nat p OR f) AND NOT 0xFFF = (of_nat p :: 32 word) AND NOT 0xFFF" using assms(3) by (simp add: bit.conj_disj_distrib2 flags_def)
  also have "\<dots> = of_nat p" by (rule and_not_low) (rule aligned_word [OF assms(1)])
  finally show ?thesis using assms(2) by (simp add: PTE_ADDR_def unat_of_nat32)
qed

lemma PTE_ADDR_aligned: "PTE_ADDR e mod PGSIZE = 0" and PTE_ADDR_small: "PTE_ADDR e < 2 ^ 32"
proof -
  have "take_bit 12 (e AND NOT 0xFFF) = 0"
    by (simp flip: low_bits_word add: and.assoc)
  then have "unat (take_bit 12 (e AND NOT 0xFFF)) = 0" by simp
  then have "take_bit 12 (unat (e AND NOT 0xFFF)) = 0" by (simp only: unsigned_take_bit_eq)
  then show "PTE_ADDR e mod PGSIZE = 0" by (simp add: PTE_ADDR_def PGSIZE_def take_bit_eq_mod)
  show "PTE_ADDR e < 2 ^ 32" using unsigned_less [of "e AND NOT 0xFFF"] by (simp add: PTE_ADDR_def)
qed

lemma PGROUNDDOWN_word:
  assumes "p mod PGSIZE = 0" and "i < 1024"
  shows "PGROUNDDOWN (p + 4 * i) = p"
proof -
  from assms(1) obtain q where "p = 4096 * q" by (auto simp: PGSIZE_def)
  then show ?thesis using assms(2) by (simp add: PGROUNDDOWN_def PGSIZE_def)
qed

lemma PGROUNDDOWN_page: "p mod PGSIZE = 0 \<Longrightarrow> PGROUNDDOWN p = p"
  using PGROUNDDOWN_word [of p 0] by simp

lemma in_page: "p mod PGSIZE = 0 \<Longrightarrow> p \<le> a \<and> a < p + PGSIZE \<longleftrightarrow> PGROUNDDOWN a = p"
proof -
  assume "p mod PGSIZE = 0"
  then obtain q where "p = 4096 * q" by (auto simp: PGSIZE_def)
  then show ?thesis by (auto simp: PGROUNDDOWN_def PGSIZE_def)
qed

lemma page_ok_aligned: "page_ok kend p \<Longrightarrow> p mod PGSIZE = 0"
  and page_ok_small: "page_ok kend p \<Longrightarrow> p < 2 ^ 32"
  by (simp_all add: page_ok_def PHYSTOP_def)

lemma fill_page_at: "p mod PGSIZE = 0 \<Longrightarrow> fill_page p w m a = (if PGROUNDDOWN a = p then w else m a)"
  by (simp add: fill_page_def in_page)

lemma table_page: "table m d i mod PGSIZE = 0"
  by (simp add: table_def PTE_ADDR_aligned)

lemma page_of_pde: "page_ok kend d \<Longrightarrow> i < 1024 \<Longrightarrow> PGROUNDDOWN (d + 4 * i) = d"
  by (simp add: PGROUNDDOWN_word page_ok_aligned)

lemma page_of_entry: "PGROUNDDOWN (entry_at m d v) = table m d (v div 1024)"
  by (simp add: entry_at_def PGROUNDDOWN_word table_page)

lemma pt_pages_pde: "i \<in> dirs m d \<Longrightarrow> table m d i \<in> pt_pages m d"
  by (simp add: pt_pages_def)

lemma pt_pages_page_ok: "pt_ok kend m d \<Longrightarrow> p \<in> pt_pages m d \<Longrightarrow> page_ok kend p"
  by (auto simp: pt_ok_def pt_pages_def)

text \<open>The directory decides which pages the table is made of.\<close>

lemma pt_dir:
  assumes pde: "\<And>i. i < 1024 \<Longrightarrow> m' (d + 4 * i) = m (d + 4 * i)"
  shows "dirs m' d = dirs m d" and "i < 1024 \<Longrightarrow> table m' d i = table m d i" and "pt_pages m' d = pt_pages m d"
    and "pt_ok kend m' d = pt_ok kend m d"
proof -
  show tab: "table m' d i = table m d i" if "i < 1024" for i using that pde by (simp add: table_def)
  show dirs: "dirs m' d = dirs m d" using pde by (auto simp: dirs_def NPDENTRIES_def)
  have sub: "dirs m d \<subseteq> {i. i < 1024}" by (auto simp: dirs_def NPDENTRIES_def)
  have im: "table m' d ` dirs m d = table m d ` dirs m d" using tab sub by (intro image_cong) auto
  show "pt_pages m' d = pt_pages m d" using im by (simp add: pt_pages_def dirs)
  have "inj_on (table m' d) (dirs m d) = inj_on (table m d) (dirs m d)" using tab sub by (intro inj_on_cong) auto
  then show "pt_ok kend m' d = pt_ok kend m d" unfolding pt_ok_def dirs im by (rule conj_cong [OF refl conj_cong [OF refl]])
qed

lemma dirs_less: "i \<in> dirs m d \<Longrightarrow> i < 1024"
  by (simp add: dirs_def NPDENTRIES_def)

lemma finite_dirs [simp]: "finite (dirs m d)"
  by (rule finite_subset [of _ "{..<1024}"]) (auto dest: dirs_less)

text \<open>A page table depends only on the memory of its own pages.\<close>

lemma pt_frame:
  assumes ok: "pt_ok kend m d" and same: "\<And>a. PGROUNDDOWN a \<in> pt_pages m d \<Longrightarrow> m' a = m a"
  shows "dirs m' d = dirs m d" and "pt_pages m' d = pt_pages m d" and "pt_ok kend m' d" and "entry m' d = entry m d"
proof -
  have "page_ok kend d" using ok by (simp add: pt_ok_def)
  then have pde: "m' (d + 4 * i) = m (d + 4 * i)" if "i < 1024" for i
    using same page_of_pde that by (simp add: pt_pages_def)
  note dir = pt_dir [of m' d m, OF pde]
  show "dirs m' d = dirs m d" "pt_pages m' d = pt_pages m d" "pt_ok kend m' d" using dir ok by simp_all
  have "entry m' d v = entry m d v" if "v div 1024 \<in> dirs m d" for v
  proof -
    have "entry_at m' d v = entry_at m d v" using dir(2) dirs_less [OF that] by (simp add: entry_at_def)
    then show ?thesis using that dir(1) same [of "entry_at m d v"] pt_pages_pde [OF that] by (simp add: entry_def page_of_entry)
  qed
  then show "entry m' d = entry m d" by (auto simp: fun_eq_iff entry_def dir(1))
qed

lemma entry_at_inj:
  assumes "pt_ok kend m d" and "u div 1024 \<in> dirs m d" and "v div 1024 \<in> dirs m d" and "entry_at m d u = entry_at m d v"
  shows "u = v"
proof -
  have "table m d (u div 1024) = table m d (v div 1024)" using assms(4) page_of_entry [of m d] by metis
  moreover from this have "u mod 1024 = v mod 1024" using assms(4) by (simp add: entry_at_def)
  moreover have "inj_on (table m d) (dirs m d)" using assms(1) by (simp add: pt_ok_def)
  ultimately show ?thesis using assms(2, 3) by (metis inj_onD div_mult_mod_eq)
qed

text \<open>Storing an entry.\<close>

lemma pt_store:
  assumes ok: "pt_ok kend m d" and v: "v div 1024 \<in> dirs m d" and m': "m' = m(entry_at m d v := w)"
  shows "dirs m' d = dirs m d" and "pt_pages m' d = pt_pages m d" and "pt_ok kend m' d"
    and "entry m' d = (entry m d)(v := w)"
proof -
  have d: "page_ok kend d" using ok by (simp add: pt_ok_def)
  have pde: "m' (d + 4 * i) = m (d + 4 * i)" if "i < 1024" for i
  proof -
    have "table m d (v div 1024) \<noteq> d" using ok v by (auto simp: pt_ok_def)
    then have "d + 4 * i \<noteq> entry_at m d v" using page_of_pde [OF d that] page_of_entry [of m d v] by auto
    then show ?thesis by (simp add: m')
  qed
  note dir = pt_dir [of m' d m, OF pde]
  show "dirs m' d = dirs m d" "pt_pages m' d = pt_pages m d" "pt_ok kend m' d" using dir ok by simp_all
  have "entry m' d u = ((entry m d)(v := w)) u" if u: "u div 1024 \<in> dirs m d" for u
  proof -
    have "entry_at m' d u = entry_at m d u" using dir(2) dirs_less [OF u] by (simp add: entry_at_def)
    then show ?thesis using u dir(1) v entry_at_inj [OF ok u v] by (auto simp: entry_def m')
  qed
  then show "entry m' d = (entry m d)(v := w)" using v by (auto simp: fun_eq_iff entry_def dir(1))
qed

text \<open>Hooking a zeroed page in as a new table.\<close>

lemma pt_new_table:
  assumes ok: "pt_ok kend m d" and i: "i < 1024" "i \<notin> dirs m d" and p: "page_ok kend p" "p \<notin> pt_pages m d"
    and m': "m' = (fill_page p 0 m)(d + 4 * i := of_nat p OR PTE_P OR PTE_W OR PTE_U)"
  shows "dirs m' d = insert i (dirs m d)" and "table m' d i = p" and "pt_pages m' d = insert p (pt_pages m d)"
    and "pt_ok kend m' d" and "entry m' d = entry m d"
proof -
  have d: "page_ok kend d" using ok by (simp add: pt_ok_def)
  have pd: "p \<noteq> d" using p(2) by (simp add: pt_pages_def)
  have pde: "m' (d + 4 * j) = m (d + 4 * j)" if "j < 1024" "j \<noteq> i" for j
    using that pd page_of_pde [OF d that(1)] by (simp add: m' fill_page_at page_ok_aligned [OF p(1)])
  show tab_i: "table m' d i = p"
    using PTE_ADDR_pte [of p "PTE_P OR PTE_W OR PTE_U"] page_ok_aligned [OF p(1)] page_ok_small [OF p(1)]
    by (simp add: table_def m' or.assoc)
  have tab: "table m' d j = table m d j" if "j \<in> dirs m d" for j
    using pde [of j] that i(2) dirs_less [OF that] by (metis table_def)
  have "present (of_nat p OR PTE_P OR PTE_W OR PTE_U)" by (simp add: present_bit bit_or_iff PTE_P_def)
  then show dirs: "dirs m' d = insert i (dirs m d)"
    using pde i(1) by (auto simp: dirs_def NPDENTRIES_def m')
  have im: "table m' d ` dirs m d = table m d ` dirs m d" using tab by (intro image_cong) auto
  show "pt_pages m' d = insert p (pt_pages m d)" using im by (auto simp: pt_pages_def dirs tab_i)
  have "inj_on (table m' d) (dirs m d)" using tab ok inj_on_cong [of "dirs m d" "table m' d" "table m d"] by (simp add: pt_ok_def)
  then show "pt_ok kend m' d" using ok p pd im tab_i i(2)
    by (auto simp: pt_ok_def dirs pt_pages_def)
  have "entry m' d v = entry m d v" if v: "v div 1024 \<in> dirs m d" for v
  proof -
    have at: "entry_at m' d v = entry_at m d v" using tab [OF v] by (simp add: entry_at_def)
    have "table m d (v div 1024) \<in> pt_pages m d" "table m d (v div 1024) \<noteq> d" using v ok by (auto simp: pt_pages_def pt_ok_def)
    then have "table m d (v div 1024) \<noteq> p" "entry_at m d v \<noteq> d + 4 * i"
      using p(2) page_of_entry [of m d v] page_of_pde [OF d i(1)] by auto
    then have "m' (entry_at m d v) = m (entry_at m d v)"
      by (simp add: m' fill_page_at page_ok_aligned [OF p(1)] page_of_entry)
    then show ?thesis using v at by (simp add: entry_def dirs)
  qed
  moreover have "entry m' d v = 0" if "v div 1024 = i" for v
  proof -
    have "PGROUNDDOWN (entry_at m' d v) = p" "entry_at m' d v \<noteq> d + 4 * i"
      using page_of_entry [of m' d v] tab_i that page_of_pde [OF d i(1)] pd by auto
    then show ?thesis by (simp add: entry_def m' fill_page_at page_ok_aligned [OF p(1)])
  qed
  ultimately show "entry m' d = entry m d" using i(2) by (fastforce simp: fun_eq_iff entry_def dirs)
qed

section \<open>Page tables and the free list\<close>

lemma free_pages_frame:
  assumes "free_pages kend k ps" and "freelist k' = freelist k" and "\<And>p. p \<in> set ps \<Longrightarrow> pmem k' p = pmem k p"
  shows "free_pages kend k' ps"
  using assms linked_cong [of ps "run_next k'" "run_next k" 0 "freelist k"] by (simp add: free_pages_def run_next_def)

lemma set_word_sel [simp]: "pmem (set_word a w k) = (pmem k)(a := w)" "freelist (set_word a w k) = freelist k"
  by (simp_all add: set_word_def)

lemma zero_page_sel [simp]: "pmem (zero_page p k) = fill_page p 0 (pmem k)" "freelist (zero_page p k) = freelist k"
  by (simp_all add: zero_page_def)

text \<open>A page table beside a free list \<open>ps\<close> that shares no page with it.\<close>

definition vm_ok :: "nat \<Rightarrow> kmem \<Rightarrow> nat list \<Rightarrow> nat \<Rightarrow> bool" where
  "vm_ok kend k ps d \<longleftrightarrow> free_pages kend k ps \<and> pt_ok kend (pmem k) d \<and> set ps \<inter> pt_pages (pmem k) d = {}"

text \<open>
  What an operation on \<open>d\<close> may do besides changing entries: turn pages from the front of the free list into tables,
  one for each new directory entry. No other memory changes.
\<close>

definition grown :: "nat \<Rightarrow> nat \<Rightarrow> kmem \<Rightarrow> nat list \<Rightarrow> kmem \<Rightarrow> nat list \<Rightarrow> bool" where
  "grown kend d k ps k' ps' \<longleftrightarrow> vm_ok kend k' ps' d \<and>
     (\<exists>ts. ps = ts @ ps' \<and> pt_pages (pmem k') d = set ts \<union> pt_pages (pmem k) d \<and>
           card (dirs (pmem k') d) = length ts + card (dirs (pmem k) d)) \<and>
     dirs (pmem k) d \<subseteq> dirs (pmem k') d \<and>
     (\<forall>a. PGROUNDDOWN a \<notin> pt_pages (pmem k') d \<longrightarrow> pmem k' a = pmem k a)"

lemma grown_refl: "vm_ok kend k ps d \<Longrightarrow> grown kend d k ps k ps"
  by (auto simp: grown_def)

lemma grown_trans:
  assumes "grown kend d k ps k1 ps1" and "grown kend d k1 ps1 k2 ps2"
  shows "grown kend d k ps k2 ps2"
proof -
  from assms(1) obtain ts where 1: "ps = ts @ ps1" "pt_pages (pmem k1) d = set ts \<union> pt_pages (pmem k) d"
    "card (dirs (pmem k1) d) = length ts + card (dirs (pmem k) d)" "dirs (pmem k) d \<subseteq> dirs (pmem k1) d"
    "\<forall>a. PGROUNDDOWN a \<notin> pt_pages (pmem k1) d \<longrightarrow> pmem k1 a = pmem k a" by (auto simp: grown_def)
  from assms(2) obtain us where 2: "ps1 = us @ ps2" "pt_pages (pmem k2) d = set us \<union> pt_pages (pmem k1) d"
    "card (dirs (pmem k2) d) = length us + card (dirs (pmem k1) d)" "dirs (pmem k1) d \<subseteq> dirs (pmem k2) d"
    "\<forall>a. PGROUNDDOWN a \<notin> pt_pages (pmem k2) d \<longrightarrow> pmem k2 a = pmem k1 a" "vm_ok kend k2 ps2 d" by (auto simp: grown_def)
  have "ps = (ts @ us) @ ps2" "pt_pages (pmem k2) d = set (ts @ us) \<union> pt_pages (pmem k) d"
    "card (dirs (pmem k2) d) = length (ts @ us) + card (dirs (pmem k) d)" using 1 2 by auto
  moreover have "\<forall>a. PGROUNDDOWN a \<notin> pt_pages (pmem k2) d \<longrightarrow> pmem k2 a = pmem k a" using 1(5) 2(2,5) by auto
  ultimately show ?thesis using 1(4) 2(4,6) unfolding grown_def by blast
qed

text \<open>The page of the entry of an address, and the entry a walk finds.\<close>

lemma PDX_page: "va < 2 ^ 32 \<Longrightarrow> PDX va = va div PGSIZE div 1024" and PTX_page: "PTX va = va div PGSIZE mod 1024"
  by (simp_all add: PDX_def PTX_def PGSIZE_def flip: div_mult2_eq)

lemma PDX_less: "PDX va < 1024"
  by (simp add: PDX_def)

lemma walk_present:
  assumes "va < 2 ^ 32" and "va div PGSIZE div 1024 \<in> dirs (pmem k) d"
  shows "walkpgdir d va c k = (entry_at (pmem k) d (va div PGSIZE), k)"
  using assms by (simp add: walkpgdir_def dirs_def entry_at_def table_def PDX_page PTX_page)

lemma walk_absent:
  assumes "va < 2 ^ 32" and "va div PGSIZE div 1024 \<notin> dirs (pmem k) d"
  shows "walkpgdir d va False k = (0, k)"
  using assms PDX_less [of va] by (simp add: walkpgdir_def dirs_def PDX_page NPDENTRIES_def)

lemma entry_at_pos: "pt_ok kend m d \<Longrightarrow> 0 < kend \<Longrightarrow> v div 1024 \<in> dirs m d \<Longrightarrow> 0 < entry_at m d v"
  by (auto simp: pt_ok_def entry_at_def page_ok_def)

lemma walk_create:
  assumes ok: "vm_ok kend k ps d" and va: "va < 2 ^ 32" and absent: "va div PGSIZE div 1024 \<notin> dirs (pmem k) d" and ps: "ps = p # ps'"
  shows "\<exists>k'. walkpgdir d va True k = (entry_at (pmem k') d (va div PGSIZE), k') \<and> grown kend d k ps k' ps' \<and>
    dirs (pmem k') d = insert (va div PGSIZE div 1024) (dirs (pmem k) d) \<and> entry (pmem k') d = entry (pmem k) d"
proof -
  let ?i = "va div PGSIZE div 1024"
  have i: "?i < 1024" using PDX_less [of va] by (simp add: PDX_page [OF va])
  have fp: "free_pages kend k (p # ps')" and pt: "pt_ok kend (pmem k) d" and dis: "p \<notin> pt_pages (pmem k) d" "set ps' \<inter> pt_pages (pmem k) d = {}"
    using ok ps by (auto simp: vm_ok_def)
  from kalloc_free_pages [OF fp] obtain k1 where k1: "kalloc k = (p, k1)" "p \<noteq> 0" "free_pages kend k1 ps'" "pmem k1 = pmem k" by auto
  have p: "page_ok kend p" "p \<notin> set ps'" using fp by (auto simp: free_pages_def)
  have dpg: "PGROUNDDOWN (d + 4 * ?i) = d" using pt by (intro page_of_pde [of kend, OF _ i]) (simp add: pt_ok_def)
  define k' where "k' = set_word (d + 4 * PDX va) (of_nat p OR PTE_P OR PTE_W OR PTE_U) (zero_page p k1)"
  have m': "pmem k' = (fill_page p 0 (pmem k))(d + 4 * ?i := of_nat p OR PTE_P OR PTE_W OR PTE_U)"
    by (simp add: k'_def k1(4) PDX_page [OF va])
  note new = pt_new_table [OF pt i absent p(1) dis(1) m']
  have walk: "walkpgdir d va True k = (p + 4 * PTX va, k')"
    using absent i k1 by (simp add: walkpgdir_def Let_def k'_def dirs_def NPDENTRIES_def PDX_page [OF va])
  have at: "entry_at (pmem k') d (va div PGSIZE) = p + 4 * PTX va" by (simp add: entry_at_def new(2) PTX_page)
  have apart: "PGROUNDDOWN q = q" "q \<noteq> p" "q \<noteq> d + 4 * ?i" if "q \<in> set ps'" for q
  proof -
    have "page_ok kend q" using that fp by (simp add: free_pages_def)
    then show "PGROUNDDOWN q = q" by (simp add: PGROUNDDOWN_page page_ok_aligned)
    moreover have "q \<noteq> d" using that dis(2) by (auto simp: pt_pages_def)
    ultimately show "q \<noteq> p" "q \<noteq> d + 4 * ?i" using that p(2) dpg by auto
  qed
  then have "free_pages kend k' ps'"
    using k1(3,4) m' by (intro free_pages_frame [OF k1(3)]) (auto simp: k'_def fill_page_at page_ok_aligned [OF p(1)])
  then have "vm_ok kend k' ps' d" using new(3,4) p(2) dis(2) by (auto simp: vm_ok_def)
  moreover have "pmem k' a = pmem k a" if "PGROUNDDOWN a \<notin> pt_pages (pmem k') d" for a
  proof -
    have "PGROUNDDOWN a \<noteq> p" "PGROUNDDOWN a \<noteq> d" using that new(3) by (auto simp: pt_pages_def)
    moreover from this have "a \<noteq> d + 4 * ?i" using dpg by auto
    ultimately show ?thesis by (simp add: m' fill_page_at page_ok_aligned [OF p(1)])
  qed
  ultimately have "grown kend d k ps k' ps'"
    using new(1,3) absent ps by (auto simp: grown_def intro!: exI [of _ "[p]"])
  then show ?thesis using walk at new by auto
qed

lemma grown_store:
  assumes ok: "vm_ok kend k ps d" and v: "v div 1024 \<in> dirs (pmem k) d"
  shows "grown kend d k ps (set_word (entry_at (pmem k) d v) w k) ps"
    and "entry (pmem (set_word (entry_at (pmem k) d v) w k)) d = (entry (pmem k) d)(v := w)"
    and "dirs (pmem (set_word (entry_at (pmem k) d v) w k)) d = dirs (pmem k) d"
proof -
  let ?k = "set_word (entry_at (pmem k) d v) w k"
  have fp: "free_pages kend k ps" and pt: "pt_ok kend (pmem k) d" and dis: "set ps \<inter> pt_pages (pmem k) d = {}"
    using ok by (simp_all add: vm_ok_def)
  note st = pt_store [OF pt v, of "pmem ?k" w, simplified]
  have "PGROUNDDOWN (entry_at (pmem k) d v) \<in> pt_pages (pmem k) d" using v by (simp add: page_of_entry pt_pages_pde)
  moreover have "PGROUNDDOWN p = p" if "p \<in> set ps" for p
    using that fp by (auto simp: free_pages_def intro: PGROUNDDOWN_page page_ok_aligned)
  ultimately have ne: "entry_at (pmem k) d v \<notin> set ps" and out: "PGROUNDDOWN a \<notin> pt_pages (pmem k) d \<Longrightarrow> a \<noteq> entry_at (pmem k) d v" for a
    using dis by auto
  have "free_pages kend ?k ps" using ne by (intro free_pages_frame [OF fp]) auto
  then show "grown kend d k ps ?k ps" using st dis out by (auto simp: grown_def vm_ok_def)
  show "entry (pmem ?k) d = (entry (pmem k) d)(v := w)" "dirs (pmem ?k) d = dirs (pmem k) d" using st by simp_all
qed

section \<open>Mapping a range\<close>

text \<open>\<open>j\<close> consecutive pages from page \<open>v\<close> on mapped to consecutive pages from \<open>pa\<close> on.\<close>

fun map_range :: "(nat \<Rightarrow> 32 word) \<Rightarrow> nat \<Rightarrow> nat \<Rightarrow> 32 word \<Rightarrow> nat \<Rightarrow> nat \<Rightarrow> 32 word" where
  "map_range e v pa perm 0 = e"
| "map_range e v pa perm (Suc j) =
     map_range (e(v := of_nat pa OR perm OR PTE_P)) ((v + 1) mod 2 ^ 20) ((pa + PGSIZE) mod 2 ^ 32) perm j"

lemma map_range_other: "v < 2 ^ 20 \<Longrightarrow> (\<And>i. i < j \<Longrightarrow> u \<noteq> (v + i) mod 2 ^ 20) \<Longrightarrow> map_range e v pa perm j u = e u"
proof (induction j arbitrary: e v pa)
  case (Suc j)
  have "u \<noteq> v" using Suc.prems(2) [of 0] Suc.prems(1) by simp
  moreover have "u \<noteq> ((v + 1) mod 2 ^ 20 + i) mod 2 ^ 20" if "i < j" for i
    using Suc.prems(2) [of "Suc i"] that by (simp add: mod_simps)
  ultimately show ?case using Suc.IH [of "(v + 1) mod 2 ^ 20"] by simp
qed simp

lemma mod_shift_ne: "v < N \<Longrightarrow> 0 < i \<Longrightarrow> i < N \<Longrightarrow> (v + i) mod N \<noteq> (v :: nat)"
  by (cases "v + i < N") (auto simp: le_mod_geq)

lemma of_nat_mod32: "(of_nat (n mod 2 ^ 32) :: 32 word) = of_nat n"
  by (subst word_of_nat_eq_iff) (simp add: take_bit_eq_mod)

lemma map_range_at:
  "v < 2 ^ 20 \<Longrightarrow> i < j \<Longrightarrow> j \<le> 2 ^ 20 \<Longrightarrow>
   map_range e v pa perm j ((v + i) mod 2 ^ 20) = of_nat (pa + i * PGSIZE) OR perm OR PTE_P"
proof (induction j arbitrary: e v pa i)
  case (Suc j)
  show ?case
  proof (cases i)
    case 0
    have "v \<noteq> ((v + 1) mod 2 ^ 20 + l) mod 2 ^ 20" if "l < j" for l
    proof -
      have "((v + 1) mod 2 ^ 20 + l) mod 2 ^ 20 = (v + Suc l) mod 2 ^ 20" by (simp add: mod_simps)
      moreover have "v \<noteq> (v + Suc l) mod 2 ^ 20" if "Suc l < 2 ^ 20"
        using mod_shift_ne [of v "2 ^ 20" "Suc l"] Suc.prems(1) that by simp
      ultimately show ?thesis using that Suc.prems(3) by simp
    qed
    then show ?thesis using map_range_other [of "(v + 1) mod 2 ^ 20" j v] Suc.prems(1) 0 by simp
  next
    case (Suc l)
    have "(v + i) mod 2 ^ 20 = ((v + 1) mod 2 ^ 20 + l) mod 2 ^ 20" by (simp add: Suc mod_simps)
    then have "map_range e v pa perm (Suc j) ((v + i) mod 2 ^ 20) = of_nat ((pa + PGSIZE) mod 2 ^ 32 + l * PGSIZE) OR perm OR PTE_P"
      using Suc.IH [of "(v + 1) mod 2 ^ 20" l] Suc Suc.prems by simp
    also have "(of_nat ((pa + PGSIZE) mod 2 ^ 32 + l * PGSIZE) :: 32 word) = of_nat (pa + i * PGSIZE)"
      unfolding of_nat_add of_nat_mod32 Suc by (simp add: algebra_simps)
    finally show ?thesis .
  qed
qed simp


lemma page_step: "a < 2 ^ 32 \<Longrightarrow> (a + PGSIZE) mod 2 ^ 32 div PGSIZE = (a div PGSIZE + 1) mod 2 ^ 20"
proof -
  have "(a + 4096) mod (4096 * 2 ^ 20) div 4096 = (a + 4096) div 4096 mod 2 ^ 20"
    using mod_mult2_eq [of "a + 4096" 4096 "2 ^ 20"] by (simp add: div_add1_eq)
  moreover have "(a + 4096) div 4096 = Suc (a div 4096)" by (simp add: div_add_self2)
  ultimately show ?thesis by (simp add: PGSIZE_def)
qed

text \<open>One round of the loop: either the pool is empty and a table is missing, or the entry is stored.\<close>

lemma map_round:
  assumes ok: "vm_ok kend k ps d" and a: "a < 2 ^ 32" and np: "\<not> present (entry (pmem k) d (a div PGSIZE))"
  shows "walkpgdir d a True k = (0, k) \<and> ps = [] \<and> a div PGSIZE div 1024 \<notin> dirs (pmem k) d \<or>
    (\<exists>pte k1 ps1. walkpgdir d a True k = (pte, k1) \<and> 0 < pte \<and> \<not> present (pmem k1 pte) \<and>
       grown kend d k ps (set_word pte w k1) ps1 \<and>
       entry (pmem (set_word pte w k1)) d = (entry (pmem k) d)(a div PGSIZE := w) \<and>
       dirs (pmem (set_word pte w k1)) d = insert (a div PGSIZE div 1024) (dirs (pmem k) d))"
proof -
  let ?v = "a div PGSIZE"
  have found: ?thesis if g: "grown kend d k ps k1 ps1" and v: "?v div 1024 \<in> dirs (pmem k1) d" and e: "entry (pmem k1) d = entry (pmem k) d"
    and w: "walkpgdir d a True k = (entry_at (pmem k1) d ?v, k1)" and di: "dirs (pmem k1) d = insert (?v div 1024) (dirs (pmem k) d)" for k1 ps1
  proof -
    have ok1: "vm_ok kend k1 ps1 d" using g by (simp add: grown_def)
    note st = grown_store [OF ok1 v, of w]
    have "0 < entry_at (pmem k1) d ?v" using ok1 v by (intro entry_at_pos) (auto simp: vm_ok_def free_pages_def)
    moreover have "entry (pmem k1) d ?v = pmem k1 (entry_at (pmem k1) d ?v)" using v by (simp add: entry_def)
    then have "\<not> present (pmem k1 (entry_at (pmem k1) d ?v))" using np e by simp
    ultimately show ?thesis using w st grown_trans [OF g st(1)] e di by auto
  qed
  show ?thesis
  proof (cases "?v div 1024 \<in> dirs (pmem k) d")
    case True
    then show ?thesis using found [OF grown_refl [OF ok] True refl walk_present [OF a True]] by blast
  next
    case absent: False
    show ?thesis
    proof (cases ps)
      case Nil
      then have "kalloc k = (0, k)" using kalloc_free_pages [of kend k ps] ok by (simp add: vm_ok_def)
      then show ?thesis using absent Nil PDX_less [of a]
        by (simp add: walkpgdir_def dirs_def PDX_page [OF a] NPDENTRIES_def)
    next
      case (Cons p qs)
      show ?thesis using walk_create [OF ok a absent Cons] found by blast
    qed
  qed
qed

lemma insert_cover: "X \<subseteq> Y \<union> A \<Longrightarrow> Y = insert x Z \<Longrightarrow> A \<subseteq> B \<Longrightarrow> x \<in> B \<Longrightarrow> X \<subseteq> Z \<union> B"
  by blast

lemma mappages_loop_spec:
  assumes "vm_ok kend k ps d" and "a < 2 ^ 32" and "n < 2 ^ 20"
    and "\<And>i. i \<le> n \<Longrightarrow> \<not> present (entry (pmem k) d ((a div PGSIZE + i) mod 2 ^ 20))"
  shows "\<exists>r k' ps' j. mappages_loop n d a pa perm k = Ok (r, k') \<and> grown kend d k ps k' ps' \<and>
    (r = 0 \<and> j = Suc n \<or> r = - 1 \<and> ps' = [] \<and> j \<le> n \<and> (a div PGSIZE + j) mod 2 ^ 20 div 1024 \<notin> dirs (pmem k') d) \<and>
    entry (pmem k') d = map_range (entry (pmem k) d) (a div PGSIZE) pa perm j \<and>
    dirs (pmem k') d \<subseteq> dirs (pmem k) d \<union> (\<lambda>i. (a div PGSIZE + i) mod 2 ^ 20 div 1024) ` {..n}"
  using assms
proof (induction n arbitrary: k ps a pa)
  case 0
  let ?w = "of_nat pa OR perm OR PTE_P"
  have v: "a div PGSIZE mod 2 ^ 20 = a div PGSIZE" using 0(2) by (simp add: PGSIZE_def less_mult_imp_div_less)
  from map_round [OF 0(1,2), of ?w] 0(4) [of 0] v
  consider "walkpgdir d a True k = (0, k)" "ps = []" "a div PGSIZE div 1024 \<notin> dirs (pmem k) d" | pte k1 ps1 where "walkpgdir d a True k = (pte, k1)" "0 < pte"
    "\<not> present (pmem k1 pte)" "grown kend d k ps (set_word pte ?w k1) ps1"
    "entry (pmem (set_word pte ?w k1)) d = (entry (pmem k) d)(a div PGSIZE := ?w)"
    "dirs (pmem (set_word pte ?w k1)) d = insert (a div PGSIZE div 1024) (dirs (pmem k) d)" by auto
  then show ?case
  proof cases
    case 1
    then show ?thesis using v grown_refl [OF 0(1)] by (auto simp: mappages_loop.simps [of 0] intro!: exI [of _ 0])
  next
    case 2
    then show ?thesis using v
      by (auto simp: mappages_loop.simps [of 0] intro!: exI [of _ "Suc 0"] exI [of _ ps1])
  qed
next
  case (Suc n)
  let ?w = "of_nat pa OR perm OR PTE_P" and ?a = "(a + PGSIZE) mod 2 ^ 32" and ?pa = "(pa + PGSIZE) mod 2 ^ 32"
  have v: "a div PGSIZE mod 2 ^ 20 = a div PGSIZE" using Suc.prems(2) by (simp add: PGSIZE_def less_mult_imp_div_less)
  have sh: "(?a div PGSIZE + i) mod 2 ^ 20 = (a div PGSIZE + Suc i) mod 2 ^ 20" for i
    unfolding page_step [OF Suc.prems(2)] by (simp add: mod_simps)
  from map_round [OF Suc.prems(1,2), of ?w] Suc.prems(4) [of 0] v
  consider "walkpgdir d a True k = (0, k)" "ps = []" "a div PGSIZE div 1024 \<notin> dirs (pmem k) d" | pte k1 ps1 where "walkpgdir d a True k = (pte, k1)" "0 < pte"
    "\<not> present (pmem k1 pte)" "grown kend d k ps (set_word pte ?w k1) ps1"
    "entry (pmem (set_word pte ?w k1)) d = (entry (pmem k) d)(a div PGSIZE := ?w)"
    "dirs (pmem (set_word pte ?w k1)) d = insert (a div PGSIZE div 1024) (dirs (pmem k) d)" by auto
  then show ?case
  proof cases
    case 1
    then show ?thesis using v grown_refl [OF Suc.prems(1)] by (auto simp: mappages_loop.simps [of "Suc n"] intro!: exI [of _ 0])
  next
    case 2
    let ?k = "set_word pte ?w k1"
    have np: "\<not> present (entry (pmem ?k) d ((?a div PGSIZE + i) mod 2 ^ 20))" if "i \<le> n" for i
    proof -
      have "(a div PGSIZE + Suc i) mod 2 ^ 20 \<noteq> a div PGSIZE"
        using mod_shift_ne [of "a div PGSIZE" "2 ^ 20" "Suc i"] that Suc.prems(3) mod_less_divisor [of "2 ^ 20" "a div PGSIZE"] unfolding v by simp
      then show ?thesis unfolding 2(5) sh using Suc.prems(4) [of "Suc i"] that by simp
    qed
    have sm: "?a < 2 ^ 32" "n < 2 ^ 20" using Suc.prems(3) by simp_all
    have "vm_ok kend ?k ps1 d" using 2(4) by (simp add: grown_def)
    from Suc.IH [OF this sm np, of ?pa] obtain r k' ps' j where
      r: "mappages_loop n d ?a ?pa perm ?k = Ok (r, k')" "grown kend d ?k ps1 k' ps'"
      "r = 0 \<and> j = Suc n \<or> r = - 1 \<and> ps' = [] \<and> j \<le> n \<and> (?a div PGSIZE + j) mod 2 ^ 20 div 1024 \<notin> dirs (pmem k') d"
      "entry (pmem k') d = map_range (entry (pmem ?k) d) (?a div PGSIZE) ?pa perm j"
      "dirs (pmem k') d \<subseteq> dirs (pmem ?k) d \<union> (\<lambda>i. (?a div PGSIZE + i) mod 2 ^ 20 div 1024) ` {..n}" by blast
    have 3: "mappages_loop (Suc n) d a pa perm k = Ok (r, k')"
      unfolding mappages_loop.simps [of "Suc n"] using 2(1-3) r(1) by (simp only: Let_def split_beta fst_conv snd_conv nat.case) simp
    have 4: "entry (pmem k') d = map_range (entry (pmem k) d) (a div PGSIZE) pa perm (Suc j)"
      using r(4) 2(5) page_step [OF Suc.prems(2)] by simp
    have "(\<lambda>i. (?a div PGSIZE + i) mod 2 ^ 20 div 1024) ` {..n} \<subseteq> (\<lambda>i. (a div PGSIZE + i) mod 2 ^ 20 div 1024) ` {..Suc n}"
    proof (rule image_subsetI)
      fix i assume "i \<in> {..n}"
      then show "(?a div PGSIZE + i) mod 2 ^ 20 div 1024 \<in> (\<lambda>i. (a div PGSIZE + i) mod 2 ^ 20 div 1024) ` {..Suc n}"
        unfolding sh by (intro image_eqI [of _ _ "Suc i"]) simp_all
    qed
    moreover have "a div PGSIZE div 1024 \<in> (\<lambda>i. (a div PGSIZE + i) mod 2 ^ 20 div 1024) ` {..Suc n}"
      using v by (auto intro!: image_eqI [of _ _ 0])
    ultimately have "dirs (pmem k') d \<subseteq> dirs (pmem k) d \<union> (\<lambda>i. (a div PGSIZE + i) mod 2 ^ 20 div 1024) ` {..Suc n}"
      by (rule insert_cover [OF r(5) 2(6)])
    moreover have "r = 0 \<and> Suc j = Suc (Suc n) \<or>
      r = - 1 \<and> ps' = [] \<and> Suc j \<le> Suc n \<and> (a div PGSIZE + Suc j) mod 2 ^ 20 div 1024 \<notin> dirs (pmem k') d"
      using r(3) unfolding sh by simp
    ultimately show ?thesis using 3 4 grown_trans [OF 2(4) r(2)]
      by - (intro exI [of _ r] exI [of _ k'] exI [of _ ps'] exI [of _ "Suc j"] conjI; assumption)
  qed
qed

lemma mappages_rounds:
  assumes "v + Suc n \<le> 2 ^ 20"
  shows "mappages d (v * PGSIZE) (Suc n * PGSIZE) pa perm k = mappages_loop n d (v * PGSIZE) pa perm k"
proof -
  have l: "(v * PGSIZE + Suc n * PGSIZE + 2 ^ 32 - 1) mod 2 ^ 32 = (v + n) * PGSIZE + 4095"
  proof -
    have "v * PGSIZE + Suc n * PGSIZE + 2 ^ 32 - 1 = (v + n) * PGSIZE + 4095 + 2 ^ 32" by (simp add: PGSIZE_def algebra_simps)
    moreover have "(v + n) * PGSIZE + 4095 < 2 ^ 32" using assms by (simp add: PGSIZE_def)
    ultimately show ?thesis by (simp only: mod_add_self2 mod_less)
  qed
  have "PGROUNDDOWN ((v + n) * PGSIZE + 4095) = (v + n) * PGSIZE"
    using PGROUNDDOWN_page [of "(v + n) * PGSIZE"] in_page [of "(v + n) * PGSIZE" "(v + n) * PGSIZE + 4095"] by (simp add: PGSIZE_def)
  moreover have "PGROUNDDOWN (v * PGSIZE) = v * PGSIZE" by (simp add: PGROUNDDOWN_def PGSIZE_def)
  moreover have "((v + n) * PGSIZE + 2 ^ 32 - v * PGSIZE) mod 2 ^ 32 div PGSIZE = n"
  proof -
    have "(v + n) * PGSIZE + 2 ^ 32 - v * PGSIZE = n * PGSIZE + 2 ^ 32" by (simp add: algebra_simps)
    moreover have "n * PGSIZE < 2 ^ 32" using assms by (simp add: PGSIZE_def)
    ultimately show ?thesis by (simp add: PGSIZE_def)
  qed
  ultimately show ?thesis unfolding mappages_def Let_def l by simp
qed

lemma map_range_view:
  assumes "v + j \<le> 2 ^ 20" and "v < 2 ^ 20"
  shows "map_range e v pa perm j u = (if v \<le> u \<and> u < v + j then of_nat (pa + (u - v) * PGSIZE) OR perm OR PTE_P else e u)"
proof (cases "v \<le> u \<and> u < v + j")
  case True
  moreover from this have "u - v < j" "(v + (u - v)) mod 2 ^ 20 = u" using assms by auto
  ultimately show ?thesis using map_range_at [of v "u - v" j e pa perm] assms by simp
next
  case False
  then have "u \<noteq> (v + i) mod 2 ^ 20" if "i < j" for i using that assms by auto
  then show ?thesis using map_range_other [of v j u e pa perm] assms False by auto
qed

text \<open>Mapping a page-aligned range of the address space that is not mapped yet.\<close>

lemma mappages_spec:
  assumes ok: "vm_ok kend k ps d" and v: "v + Suc n \<le> 2 ^ 20"
    and np: "\<And>u. v \<le> u \<Longrightarrow> u \<le> v + n \<Longrightarrow> \<not> present (entry (pmem k) d u)"
  shows "\<exists>r k' ps' j. mappages d (v * PGSIZE) (Suc n * PGSIZE) pa perm k = Ok (r, k') \<and> grown kend d k ps k' ps' \<and>
    (r = 0 \<and> j = Suc n \<or> r = - 1 \<and> ps' = [] \<and> j \<le> n \<and> (v + j) div 1024 \<notin> dirs (pmem k') d) \<and>
    entry (pmem k') d = (\<lambda>u. if v \<le> u \<and> u < v + j then of_nat (pa + (u - v) * PGSIZE) OR perm OR PTE_P else entry (pmem k) d u) \<and>
    dirs (pmem k') d \<subseteq> dirs (pmem k) d \<union> {v div 1024..(v + n) div 1024}"
proof -
  have a: "v * PGSIZE < 2 ^ 32" "v * PGSIZE div PGSIZE = v" "n < 2 ^ 20" using v by (simp_all add: PGSIZE_def)
  have nw: "(v + i) mod 2 ^ 20 = v + i" if "i \<le> n" for i using that v by simp
  have np': "\<not> present (entry (pmem k) d ((v * PGSIZE div PGSIZE + i) mod 2 ^ 20))" if "i \<le> n" for i
    unfolding a(2) nw [OF that] using that by (intro np) auto
  from mappages_loop_spec [OF ok a(1,3) np', of pa perm] obtain r k' ps' j where
    r: "mappages_loop n d (v * PGSIZE) pa perm k = Ok (r, k')" "grown kend d k ps k' ps'"
    "r = 0 \<and> j = Suc n \<or> r = - 1 \<and> ps' = [] \<and> j \<le> n \<and> (v + j) mod 2 ^ 20 div 1024 \<notin> dirs (pmem k') d"
    "entry (pmem k') d = map_range (entry (pmem k) d) v pa perm j"
    "dirs (pmem k') d \<subseteq> dirs (pmem k) d \<union> (\<lambda>i. (v + i) mod 2 ^ 20 div 1024) ` {..n}" unfolding a(2) by blast
  have j: "v + j \<le> 2 ^ 20" "v < 2 ^ 20" using r(3) v by auto
  have "(\<lambda>i. (v + i) mod 2 ^ 20 div 1024) ` {..n} \<subseteq> {v div 1024..(v + n) div 1024}"
    using nw by (auto intro!: div_le_mono)
  moreover have "entry (pmem k') d = (\<lambda>u. if v \<le> u \<and> u < v + j then of_nat (pa + (u - v) * PGSIZE) OR perm OR PTE_P else entry (pmem k) d u)"
    unfolding r(4) by (rule ext) (rule map_range_view [OF j])
  moreover have "r = 0 \<and> j = Suc n \<or> r = - 1 \<and> ps' = [] \<and> j \<le> n \<and> (v + j) div 1024 \<notin> dirs (pmem k') d" using r(3) nw by auto
  moreover have "dirs (pmem k') d \<subseteq> dirs (pmem k) d \<union> {v div 1024..(v + n) div 1024}" using r(5) calculation(1) by blast
  ultimately show ?thesis using r(1,2) unfolding mappages_rounds [OF v]
    by - (intro exI [of _ r] exI [of _ k'] exI [of _ ps'] exI [of _ j] conjI; assumption)
qed

section \<open>The kernel's part\<close>

text \<open>A line of \<open>kmap\<close> in pages: the first one and the number, and its effect on the entries.\<close>

definition seg_size :: "nat \<times> nat \<times> 32 word \<Rightarrow> nat" where
  "seg_size = (\<lambda>(p, e, perm). (e + 2 ^ 32 - p) mod 2 ^ 32 div PGSIZE)"

definition seg_pages :: "nat \<times> nat \<times> 32 word \<Rightarrow> nat set" where
  "seg_pages s = {fst s div PGSIZE..<fst s div PGSIZE + seg_size s}"

definition seg_ok :: "nat \<times> nat \<times> 32 word \<Rightarrow> bool" where
  "seg_ok = (\<lambda>(p, e, perm). p mod PGSIZE = 0 \<and> (e + 2 ^ 32 - p) mod 2 ^ 32 mod PGSIZE = 0 \<and>
     0 < seg_size (p, e, perm) \<and> p div PGSIZE + seg_size (p, e, perm) \<le> 2 ^ 20)"

definition seg_map :: "nat \<times> nat \<times> 32 word \<Rightarrow> (nat \<Rightarrow> 32 word) \<Rightarrow> nat \<Rightarrow> 32 word" where
  "seg_map s f u = (if u \<in> seg_pages s then of_nat (u * PGSIZE) OR snd (snd s) OR PTE_P else f u)"

lemma mappages_seg:
  assumes ok: "vm_ok kend k ps d" and s: "seg_ok (p, e, perm)" and np: "\<And>u. u \<in> seg_pages (p, e, perm) \<Longrightarrow> \<not> present (entry (pmem k) d u)"
  shows "\<exists>r k' ps'. mappages d p ((e + 2 ^ 32 - p) mod 2 ^ 32) p perm k = Ok (r, k') \<and> grown kend d k ps k' ps' \<and>
    (r = 0 \<and> entry (pmem k') d = seg_map (p, e, perm) (entry (pmem k) d) \<or>
     r = - 1 \<and> ps' = [] \<and> (\<exists>u \<in> seg_pages (p, e, perm). u div 1024 \<notin> dirs (pmem k') d)) \<and>
    dirs (pmem k') d \<subseteq> dirs (pmem k) d \<union> (\<lambda>u. u div 1024) ` seg_pages (p, e, perm)"
proof -
  let ?v = "p div PGSIZE"
  obtain n where n: "seg_size (p, e, perm) = Suc n" using s gr0_implies_Suc by (auto simp: seg_ok_def)
  have p: "p = ?v * PGSIZE" using s by (auto simp: seg_ok_def)
  have sz: "(e + 2 ^ 32 - p) mod 2 ^ 32 = Suc n * PGSIZE"
    using s n by (simp add: seg_ok_def seg_size_def) (metis mult_Suc mod_div_mult_eq add.right_neutral add.commute)
  have pages: "seg_pages (p, e, perm) = {?v..?v + n}" using n by (auto simp: seg_pages_def)
  have v: "?v + Suc n \<le> 2 ^ 20" using s n by (simp add: seg_ok_def)
  from mappages_spec [OF ok v, of p perm] np pages obtain r k' ps' j where
    r: "mappages d (?v * PGSIZE) (Suc n * PGSIZE) p perm k = Ok (r, k')" "grown kend d k ps k' ps'"
    "r = 0 \<and> j = Suc n \<or> r = - 1 \<and> ps' = [] \<and> j \<le> n \<and> (?v + j) div 1024 \<notin> dirs (pmem k') d"
    "entry (pmem k') d = (\<lambda>u. if ?v \<le> u \<and> u < ?v + j then of_nat (p + (u - ?v) * PGSIZE) OR perm OR PTE_P else entry (pmem k) d u)"
    "dirs (pmem k') d \<subseteq> dirs (pmem k) d \<union> {?v div 1024..(?v + n) div 1024}" by auto
  have "{?v div 1024..(?v + n) div 1024} \<subseteq> (\<lambda>u. u div 1024) ` {?v..?v + n}"
  proof
    fix i assume "i \<in> {?v div 1024..(?v + n) div 1024}"
    then show "i \<in> (\<lambda>u. u div 1024) ` {?v..?v + n}"
      by (intro image_eqI [of _ _ "max ?v (i * 1024)"]) (auto simp: max_def)
  qed
  then have "dirs (pmem k') d \<subseteq> dirs (pmem k) d \<union> (\<lambda>u. u div 1024) ` seg_pages (p, e, perm)" using r(5) pages by blast
  moreover have "entry (pmem k') d = seg_map (p, e, perm) (entry (pmem k) d)" if "r = 0"
  proof
    fix u
    have "p + (u - ?v) * PGSIZE = u * PGSIZE" if "?v \<le> u" using p that by (metis add_mult_distrib le_add_diff_inverse)
    then show "entry (pmem k') d u = seg_map (p, e, perm) (entry (pmem k) d) u"
      using r(3,4) \<open>r = 0\<close> by (auto simp: seg_map_def pages)
  qed
  moreover have "\<exists>u \<in> seg_pages (p, e, perm). u div 1024 \<notin> dirs (pmem k') d" if "r = - 1"
    using r(3) that by (auto simp: pages intro!: bexI [of _ "?v + j"])
  ultimately show ?thesis using r(1-3) unfolding sz p [symmetric] by auto
qed

abbreviation seg_dirs :: "nat \<times> nat \<times> 32 word \<Rightarrow> nat set" where
  "seg_dirs s \<equiv> (\<lambda>u. u div 1024) ` seg_pages s"

lemma setupkvm_loop_spec:
  assumes "vm_ok kend k ps d" and "\<forall>s \<in> set ms. seg_ok s" and "sorted_wrt (\<lambda>s t. seg_pages s \<inter> seg_pages t = {}) ms"
    and "\<forall>s \<in> set ms. \<forall>u \<in> seg_pages s. \<not> present (entry (pmem k) d u)"
  shows "\<exists>r k' ps'. setupkvm_loop d ms k = Ok (r, k') \<and> grown kend d k ps k' ps' \<and>
    dirs (pmem k') d \<subseteq> dirs (pmem k) d \<union> \<Union> (seg_dirs ` set ms) \<and>
    (r = d \<and> entry (pmem k') d = fold seg_map ms (entry (pmem k) d) \<or>
     r = 0 \<and> ps' = [] \<and> \<not> \<Union> (seg_dirs ` set ms) \<subseteq> dirs (pmem k') d)"
  using assms
proof (induction d ms k arbitrary: ps rule: setupkvm_loop.induct)
  case (1 d k)
  then show ?case using grown_refl [OF 1(1)] by auto
next
  case (2 d p e perm ms k)
  let ?s = "(p, e, perm)"
  from mappages_seg [OF 2(2), of p e perm] 2(3,5) obtain r k1 ps1 where
    r: "mappages d p ((e + 2 ^ 32 - p) mod 2 ^ 32) p perm k = Ok (r, k1)" "grown kend d k ps k1 ps1"
    "r = 0 \<and> entry (pmem k1) d = seg_map ?s (entry (pmem k) d) \<or> r = - 1 \<and> ps1 = [] \<and> (\<exists>u \<in> seg_pages ?s. u div 1024 \<notin> dirs (pmem k1) d)"
    "dirs (pmem k1) d \<subseteq> dirs (pmem k) d \<union> seg_dirs ?s" by auto
  show ?case
  proof (cases "r = 0")
    case True
    have e: "entry (pmem k1) d = seg_map ?s (entry (pmem k) d)" using r(3) True by simp
    have np: "\<forall>s \<in> set ms. \<forall>u \<in> seg_pages s. \<not> present (entry (pmem k1) d u)"
      using 2(4,5) by (auto simp: e seg_map_def)
    have ok1: "vm_ok kend k1 ps1 d" and ms: "\<forall>s \<in> set ms. seg_ok s" "sorted_wrt (\<lambda>s t. seg_pages s \<inter> seg_pages t = {}) ms"
      using r(2) 2(3,4) by (simp_all add: grown_def)
    from 2(1) [OF r(1) refl _ ok1 ms np] True obtain r' k' ps' where r': "setupkvm_loop d ms k1 = Ok (r', k')" "grown kend d k1 ps1 k' ps'"
      "dirs (pmem k') d \<subseteq> dirs (pmem k1) d \<union> \<Union> (seg_dirs ` set ms)"
      "r' = d \<and> entry (pmem k') d = fold seg_map ms (entry (pmem k1) d) \<or> r' = 0 \<and> ps' = [] \<and> \<not> \<Union> (seg_dirs ` set ms) \<subseteq> dirs (pmem k') d"
      by blast
    have "setupkvm_loop d (?s # ms) k = Ok (r', k')" using r(1) r'(1) True by simp
    moreover have "dirs (pmem k') d \<subseteq> dirs (pmem k) d \<union> \<Union> (seg_dirs ` set (?s # ms))" using r(4) r'(3) by auto
    moreover have "r' = d \<and> entry (pmem k') d = fold seg_map (?s # ms) (entry (pmem k) d) \<or>
      r' = 0 \<and> ps' = [] \<and> \<not> \<Union> (seg_dirs ` set (?s # ms)) \<subseteq> dirs (pmem k') d" using r'(4) e by (simp only: fold_simps o_apply set_simps image_insert Union_insert Un_subset_iff) blast
    ultimately show ?thesis using grown_trans [OF r(2) r'(2)] by blast
  next
    case False
    then obtain u where u: "r = - 1" "ps1 = []" "u \<in> seg_pages ?s" "u div 1024 \<notin> dirs (pmem k1) d" using r(3) by auto
    then have "setupkvm_loop d (?s # ms) k = Ok (0, k1)" using r(1) by simp
    moreover have "\<not> \<Union> (seg_dirs ` set (?s # ms)) \<subseteq> dirs (pmem k1) d" using u by auto
    moreover have "dirs (pmem k1) d \<subseteq> dirs (pmem k) d \<union> \<Union> (seg_dirs ` set (?s # ms))" using r(4) by auto
    ultimately show ?thesis using r(2) u by blast
  qed
qed

text \<open>The address of the kernel's data: \<open>data.S\<close> aligns it to a page; it lies behind the text and below \<open>PHYSTOP\<close>.\<close>

definition data_ok :: "nat \<Rightarrow> bool" where
  "data_ok data \<longleftrightarrow> data mod PGSIZE = 0 \<and> 0x100000 < data \<and> data < PHYSTOP"

definition kern_entry :: "nat \<Rightarrow> nat \<Rightarrow> 32 word" where
  "kern_entry data v =
     (if 0x100 \<le> v \<and> v < data div PGSIZE then of_nat (v * PGSIZE) OR PTE_P
      else if 0xA0 \<le> v \<and> v < 0x1000 \<or> 0xFE000 \<le> v \<and> v < 2 ^ 20 then of_nat (v * PGSIZE) OR PTE_W OR PTE_P
      else 0)"

lemma wrap_diff: "p \<le> e \<Longrightarrow> e < 2 ^ 32 \<Longrightarrow> (e + 2 ^ 32 - p) mod 2 ^ 32 = e - (p :: nat)"
proof -
  assume a: "p \<le> e" "e < 2 ^ 32"
  then have "e + 2 ^ 32 - p = (e - p) + 2 ^ 32" by simp
  then show ?thesis using a by (simp only: mod_add_self2) simp
qed

lemma kmap_segs:
  assumes "data_ok data"
  shows "\<forall>s \<in> set (kmap data). seg_ok s" and "sorted_wrt (\<lambda>s t. seg_pages s \<inter> seg_pages t = {}) (kmap data)"
    and "\<Union> (seg_dirs ` set (kmap data)) = {0..3} \<union> {1016..1023}"
    and "fold seg_map (kmap data) (\<lambda>_. 0) = kern_entry data"
proof -
  obtain D where D: "data = D * 4096" "256 < D" "D < 4096" using assms by (auto simp: data_ok_def PGSIZE_def PHYSTOP_def)
  have sz: "seg_size (655360, 1048576, x) = 96" "seg_size (1048576, data, x) = D - 256"
    "seg_size (data, 16777216, x) = 4096 - D" "seg_size (4261412864, 0, x) = 8192" for x
    using D wrap_diff [of 1048576 data] wrap_diff [of data 16777216]
    by (simp_all add: seg_size_def PGSIZE_def div_diff flip: diff_mult_distrib)
  have pages: "seg_pages (655360, 1048576, x) = {160..<256}" "seg_pages (1048576, data, x) = {256..<D}"
    "seg_pages (data, 16777216, x) = {D..<4096}" "seg_pages (4261412864, 0, x) = {1040384..<1048576}" for x
    using D sz by (auto simp: seg_pages_def PGSIZE_def)
  have dp: "data div PGSIZE = D" by (simp add: D(1) PGSIZE_def)
  note km = kmap_def USERTOP_def PHYSTOP_def
  show "\<forall>s \<in> set (kmap data). seg_ok s" 
  proof -
    have "(data + 2 ^ 32 - 1048576) mod 2 ^ 32 = data - 1048576" "(16777216 + 2 ^ 32 - data) mod 2 ^ 32 = 16777216 - data"
      using D by (rule_tac [!] wrap_diff) simp_all
    moreover have "data - 1048576 = (D - 256) * 4096" "16777216 - data = (4096 - D) * 4096" using D by simp_all
    ultimately have "(data + 2 ^ 32 - 1048576) mod 2 ^ 32 = (D - 256) * 4096" "(16777216 + 2 ^ 32 - data) mod 2 ^ 32 = (4096 - D) * 4096"
      by (simp_all only:)
    then show ?thesis using D sz by (simp add: km seg_ok_def PGSIZE_def)
  qed
  show "sorted_wrt (\<lambda>s t. seg_pages s \<inter> seg_pages t = {}) (kmap data)" using D(2,3) by (auto simp: km pages)
  show "fold seg_map (kmap data) (\<lambda>_. 0) = kern_entry data"
    using D(2,3) dp by (auto simp: km pages seg_map_def kern_entry_def fun_eq_iff)
  have im: "(\<lambda>u. u div 1024) ` {a..<b} = {a div 1024..(b - 1) div 1024}" if "a < b" for a b :: nat
  proof (rule set_eqI)
    fix i show "i \<in> (\<lambda>u. u div 1024) ` {a..<b} \<longleftrightarrow> i \<in> {a div 1024..(b - 1) div 1024}"
      using that by (auto intro!: div_le_mono image_eqI [of i _ "max a (i * 1024)"] simp: max_def)
  qed
  have "D div 1024 \<le> 3" using D by simp
  then show "\<Union> (seg_dirs ` set (kmap data)) = {0..3} \<union> {1016..1023}"
    using D(2,3) by (auto simp: km pages im)
qed

end
