(* ===== verification/Vm_Space.thy ===== *)
theory Vm_Space
  imports Vm
begin

unbundle bit_operations_syntax

text \<open>
  Address spaces: what \<open>setupkvm\<close>, \<open>allocuvm\<close>, \<open>deallocuvm\<close>, \<open>freevm\<close> and \<open>copyuvm\<close> of
  \<open>src/P1/xv6/xv6/kernel/vm.c\<close> do to the page table of a process, to the pages it maps and to the free list.
\<close>

section \<open>A fresh page table\<close>

lemma fresh_dir:
  assumes fp: "free_pages kend k (p # ps)"
  shows "\<exists>k1. kalloc k = (p, k1) \<and> p \<noteq> 0 \<and> page_ok kend p \<and> vm_ok kend (zero_page p k1) ps p \<and> dirs (pmem (zero_page p k1)) p = {} \<and>
    pt_pages (pmem (zero_page p k1)) p = {p} \<and> entry (pmem (zero_page p k1)) p = (\<lambda>_. 0) \<and> 
    (\<forall>a. PGROUNDDOWN a \<noteq> p \<longrightarrow> pmem (zero_page p k1) a = pmem k a)"
proof -
  from kalloc_free_pages [OF fp] obtain k1 where k1: "kalloc k = (p, k1)" "p \<noteq> 0" "free_pages kend k1 ps" "pmem k1 = pmem k" by auto
  have p: "page_ok kend p" "p \<notin> set ps" and q: "\<And>q. q \<in> set ps \<Longrightarrow> page_ok kend q" using fp by (auto simp: free_pages_def)
  let ?k = "zero_page p k1"
  have m: "pmem ?k a = (if PGROUNDDOWN a = p then 0 else pmem k a)" for a
    by (simp add: fill_page_at page_ok_aligned [OF p(1)] k1(4))
  have dirs: "dirs (pmem ?k) p = {}" using page_of_pde [OF p(1)] by (auto simp: dirs_def NPDENTRIES_def m simp del: zero_page_sel)
  have "free_pages kend ?k ps"
  proof (rule free_pages_frame [OF k1(3)])
    fix x assume x: "x \<in> set ps"
    then have "PGROUNDDOWN x \<noteq> p" using PGROUNDDOWN_page [OF page_ok_aligned [OF q [OF x]]] p(2) by auto
    then show "pmem ?k x = pmem k1 x" by (simp only: m k1(4) if_False)
  qed simp
  then have "vm_ok kend ?k ps p" using dirs p by (simp add: vm_ok_def pt_ok_def pt_pages_def)
  then show ?thesis using k1 p m dirs by (auto simp: pt_pages_def entry_def fun_eq_iff)
qed

abbreviation kern_dirs :: "nat set" where
  "kern_dirs \<equiv> {0..3} \<union> {1016..1023}"

lemma card_kern_dirs: "card kern_dirs = 12"
  by (subst card_Un_disjoint) auto

lemma kern_entry_dirs:
  assumes d: "data_ok data" and e: "entry m p = kern_entry data"
  shows "kern_dirs \<subseteq> dirs m p"
proof
  fix i assume i: "i \<in> kern_dirs"
  define v where "v = (if i = 0 then 0xA0 else i * 1024)"
  have v: "v div 1024 = i" by (auto simp: v_def)
  have "data div PGSIZE < 0x1000" using d by (auto simp: data_ok_def PGSIZE_def PHYSTOP_def)
  then have "present (kern_entry data v)" using i by (auto simp: kern_entry_def v_def)
  then show "i \<in> dirs m p" using e v by (metis entry_def not_present_0)
qed

lemma setupkvm_spec:
  assumes fp: "free_pages kend k ps" and data: "data_ok data"
  shows "\<exists>r k' ts ps'. setupkvm data k = Ok (r, k') \<and> ps = ts @ ps' \<and> free_pages kend k' ps' \<and>
    (\<forall>a. PGROUNDDOWN a \<notin> set ts \<longrightarrow> pmem k' a = pmem k a) \<and>
    (r = 0 \<and> length ps < 13 \<and> ps' = [] \<or>
     r \<noteq> 0 \<and> length ts = 13 \<and> vm_ok kend k' ps' r \<and> pt_pages (pmem k') r = set ts \<and> entry (pmem k') r = kern_entry data \<and>
     dirs (pmem k') r = kern_dirs)"
proof (cases ps)
  case Nil
  then have "kalloc k = (0, k)" using kalloc_free_pages [OF fp] by simp
  then show ?thesis using Nil fp by (simp add: setupkvm_def)
next
  case (Cons p qs)
  from fresh_dir [of kend k p qs] fp Cons obtain k1 where
    k1: "kalloc k = (p, k1)" "p \<noteq> 0" "vm_ok kend (zero_page p k1) qs p" "dirs (pmem (zero_page p k1)) p = {}"
    "pt_pages (pmem (zero_page p k1)) p = {p}" "entry (pmem (zero_page p k1)) p = (\<lambda>_. 0)"
    "\<forall>a. PGROUNDDOWN a \<noteq> p \<longrightarrow> pmem (zero_page p k1) a = pmem k a" by auto
  let ?k = "zero_page p k1"
  have "\<forall>s \<in> set (kmap data). \<forall>u \<in> seg_pages s. \<not> present (entry (pmem ?k) p u)" using k1(6) by simp
  from setupkvm_loop_spec [OF k1(3) kmap_segs(1,2) [OF data] this]
  obtain r k' ps' where r: "setupkvm_loop p (kmap data) ?k = Ok (r, k')" "grown kend p ?k qs k' ps'"
    "dirs (pmem k') p \<subseteq> dirs (pmem ?k) p \<union> \<Union> (seg_dirs ` set (kmap data))"
    "r = p \<and> entry (pmem k') p = fold seg_map (kmap data) (entry (pmem ?k) p) \<or>
     r = 0 \<and> ps' = [] \<and> \<not> \<Union> (seg_dirs ` set (kmap data)) \<subseteq> dirs (pmem k') p" by blast
  note r3 = r(3) [unfolded kmap_segs(3) [OF data] k1(4)] and r4 = r(4) [unfolded kmap_segs(3,4) [OF data] k1(6)]
  from r(2) obtain ts where ts: "qs = ts @ ps'" "pt_pages (pmem k') p = set ts \<union> {p}" "card (dirs (pmem k') p) = length ts"
    "vm_ok kend k' ps' p" "\<forall>a. PGROUNDDOWN a \<notin> pt_pages (pmem k') p \<longrightarrow> pmem k' a = pmem ?k a"
    using k1(4,5) by (auto simp: grown_def)
  have "setupkvm data k = Ok (r, k')" using k1(1,2) r(1) by (simp add: setupkvm_def)
  moreover have "ps = (p # ts) @ ps'" using ts(1) Cons by simp
  moreover have "\<forall>a. PGROUNDDOWN a \<notin> set (p # ts) \<longrightarrow> pmem k' a = pmem k a" using ts(2,5) k1(7) by auto
  moreover have "free_pages kend k' ps'" using ts(4) by (simp add: vm_ok_def)
  moreover have "r = 0 \<and> length ps < 13 \<and> ps' = [] \<or> r \<noteq> 0 \<and> length (p # ts) = 13 \<and> vm_ok kend k' ps' r \<and>
    pt_pages (pmem k') r = set (p # ts) \<and> entry (pmem k') r = kern_entry data \<and> dirs (pmem k') r = kern_dirs"
  proof (cases "r = p")
    case True
    have e: "entry (pmem k') p = kern_entry data" using r4 True k1(2) by auto
    have "dirs (pmem k') p = kern_dirs" using kern_entry_dirs [OF data e] r3 by auto
    then show ?thesis using True k1(2) ts card_kern_dirs e by auto
  next
    case False
    then have f: "r = 0" "ps' = []" "\<not> kern_dirs \<subseteq> dirs (pmem k') p" using r4 by auto
    have "dirs (pmem k') p \<subset> kern_dirs" using f(3) r3 by blast
    from psubset_card_mono [OF _ this] have "length ts < 12" using ts(3) card_kern_dirs by simp
    then show ?thesis using f ts(1) Cons by simp
  qed
  ultimately show ?thesis by blast
qed

section \<open>User pages\<close>

text \<open>
  User memory is below \<open>USERTOP\<close>, the first 160 pages, all served by the first page table. \<open>uspace\<close>: the page table \<open>d\<close>
  maps exactly the user pages \<open>U\<close>, each to its own physical page, apart from the page table and the free list \<open>ps\<close>.
\<close>

definition UPAGES :: nat where "UPAGES = USERTOP div PGSIZE"

definition upage :: "(nat \<Rightarrow> 32 word) \<Rightarrow> nat \<Rightarrow> nat \<Rightarrow> nat" where
  "upage m d v = PTE_ADDR (entry m d v)"

definition owned :: "(nat \<Rightarrow> 32 word) \<Rightarrow> nat \<Rightarrow> nat set \<Rightarrow> nat set" where
  "owned m d U = pt_pages m d \<union> upage m d ` U"

definition uspace :: "nat \<Rightarrow> kmem \<Rightarrow> nat list \<Rightarrow> nat \<Rightarrow> nat set \<Rightarrow> bool" where
  "uspace kend k ps d U \<longleftrightarrow> vm_ok kend k ps d \<and> 0 \<in> dirs (pmem k) d \<and> U \<subseteq> {..<UPAGES} \<and>
     (\<forall>v < UPAGES. present (entry (pmem k) d v) \<longleftrightarrow> v \<in> U) \<and> (\<forall>v \<in> U. page_ok kend (upage (pmem k) d v)) \<and>
     inj_on (upage (pmem k) d) U \<and> upage (pmem k) d ` U \<inter> (pt_pages (pmem k) d \<union> set ps) = {}"

lemma UPAGES_160: "UPAGES = 160"
  by (simp add: UPAGES_def USERTOP_def PGSIZE_def)

lemma user_dir: "uspace kend k ps d U \<Longrightarrow> v < UPAGES \<Longrightarrow> v div 1024 \<in> dirs (pmem k) d"
  by (simp add: uspace_def UPAGES_160)

lemma walk_user:
  assumes "uspace kend k ps d U" and "v < UPAGES"
  shows "walkpgdir d (v * PGSIZE) c k = (entry_at (pmem k) d v, k)" and "0 < entry_at (pmem k) d v"
    and "pmem k (entry_at (pmem k) d v) = entry (pmem k) d v"
proof -
  have v: "v * PGSIZE < 2 ^ 32" "v * PGSIZE div PGSIZE = v" using assms(2) by (simp_all add: UPAGES_160 PGSIZE_def)
  show "walkpgdir d (v * PGSIZE) c k = (entry_at (pmem k) d v, k)"
    using walk_present [OF v(1), of k d c] user_dir [OF assms] unfolding v(2) by blast
  show "0 < entry_at (pmem k) d v"
    using assms(1) user_dir [OF assms] by (intro entry_at_pos [of kend]) (auto simp: uspace_def vm_ok_def free_pages_def)
  show "pmem k (entry_at (pmem k) d v) = entry (pmem k) d v" using user_dir [OF assms] by (simp add: entry_def)
qed

lemma uspace_owned: "uspace kend k ps d U \<Longrightarrow> owned (pmem k) d U \<inter> set ps = {}"
  by (auto simp: uspace_def vm_ok_def owned_def)

lemma uspace_page_ok: "uspace kend k ps d U \<Longrightarrow> p \<in> owned (pmem k) d U \<Longrightarrow> page_ok kend p"
  by (auto simp: uspace_def vm_ok_def owned_def intro: pt_pages_page_ok)

text \<open>An address space depends only on the memory of the page table, and is indifferent to the free list.\<close>

lemma uspace_frame:
  assumes u: "uspace kend k ps d U" and same: "\<And>a. PGROUNDDOWN a \<in> pt_pages (pmem k) d \<Longrightarrow> pmem k' a = pmem k a"
    and fp: "free_pages kend k' ps'" and apart: "owned (pmem k) d U \<inter> set ps' = {}"
  shows "uspace kend k' ps' d U" and "entry (pmem k') d = entry (pmem k) d" and "owned (pmem k') d U = owned (pmem k) d U"
    and "pt_pages (pmem k') d = pt_pages (pmem k) d"
proof -
  have "pt_ok kend (pmem k) d" using u by (simp add: uspace_def vm_ok_def)
  note fr = pt_frame [OF this same]
  have up: "upage (pmem k') d = upage (pmem k) d" by (simp add: upage_def fr(4) fun_eq_iff)
  show "uspace kend k' ps' d U" using u fr fp apart unfolding uspace_def vm_ok_def owned_def up by auto
  show "entry (pmem k') d = entry (pmem k) d" "owned (pmem k') d U = owned (pmem k) d U" "pt_pages (pmem k') d = pt_pages (pmem k) d"
    using fr up by (simp_all add: owned_def)
qed

lemma user_pte: "page_ok kend p \<Longrightarrow> PTE_ADDR (of_nat p OR (PTE_W OR PTE_U) OR PTE_P) = p"
  using PTE_ADDR_pte [of p "(PTE_W OR PTE_U) OR PTE_P"] page_ok_aligned page_ok_small by (simp add: or.assoc)

text \<open>Mapping one more user page: the table is there, so nothing is allocated.\<close>

lemma map_user_page:
  assumes u: "uspace kend k ps d U" and v: "v < UPAGES" "v \<notin> U"
    and p: "page_ok kend p" "p \<notin> owned (pmem k) d U" "p \<notin> set ps"
  shows "\<exists>k'. mappages d (v * PGSIZE) PGSIZE p (PTE_W OR PTE_U) k = Ok (0, k') \<and> uspace kend k' ps d (insert v U) \<and>
    entry (pmem k') d = (entry (pmem k) d)(v := of_nat p OR (PTE_W OR PTE_U) OR PTE_P) \<and>
    owned (pmem k') d (insert v U) = insert p (owned (pmem k) d U) \<and> pt_pages (pmem k') d = pt_pages (pmem k) d \<and>
    (\<forall>a. PGROUNDDOWN a \<notin> pt_pages (pmem k) d \<longrightarrow> pmem k' a = pmem k a)"
proof -
  have ok: "vm_ok kend k ps d" using u by (simp add: uspace_def)
  have np: "\<not> present (entry (pmem k) d w)" if "v \<le> w" "w \<le> v + 0" for w
    using that u v by (simp add: uspace_def)
  have bd: "v + Suc 0 \<le> 2 ^ 20" using v by (simp add: UPAGES_160)
  from mappages_spec [OF ok bd np, of p "PTE_W OR PTE_U"] obtain r k' ps' j where
    r: "mappages d (v * PGSIZE) (Suc 0 * PGSIZE) p (PTE_W OR PTE_U) k = Ok (r, k')" "grown kend d k ps k' ps'"
    "r = 0 \<and> j = Suc 0 \<or> r = - 1 \<and> ps' = [] \<and> j \<le> 0 \<and> (v + j) div 1024 \<notin> dirs (pmem k') d"
    "entry (pmem k') d = (\<lambda>w. if v \<le> w \<and> w < v + j then of_nat (p + (w - v) * PGSIZE) OR (PTE_W OR PTE_U) OR PTE_P else entry (pmem k) d w)"
    "dirs (pmem k') d \<subseteq> dirs (pmem k) d \<union> {v div 1024..(v + 0) div 1024}" by blast
  from r(2) obtain ts where ts: "ps = ts @ ps'" "pt_pages (pmem k') d = set ts \<union> pt_pages (pmem k) d"
    "card (dirs (pmem k') d) = length ts + card (dirs (pmem k) d)" "dirs (pmem k) d \<subseteq> dirs (pmem k') d" "vm_ok kend k' ps' d"
    "\<forall>a. PGROUNDDOWN a \<notin> pt_pages (pmem k') d \<longrightarrow> pmem k' a = pmem k a" by (auto simp: grown_def)
  have j: "r = 0" "j = 1" using r(3) ts(4) user_dir [OF u v(1)] by auto
  have "dirs (pmem k') d = dirs (pmem k) d" using r(5) ts(4) user_dir [OF u v(1)] by auto
  then have ps': "ts = []" "ps' = ps" using ts(1,3) by auto
  let ?e = "of_nat p OR (PTE_W OR PTE_U) OR PTE_P"
  have e: "entry (pmem k') d = (entry (pmem k) d)(v := ?e)" unfolding r(4) j by (auto simp: fun_eq_iff)
  have up: "upage (pmem k') d = (upage (pmem k) d)(v := p)" using user_pte [OF p(1)] by (auto simp: upage_def e fun_eq_iff)
  have upU: "upage (pmem k') d w = upage (pmem k) d w" if "w \<in> U" for w using that v(2) by (auto simp: up)
  then have im: "upage (pmem k') d ` U = upage (pmem k) d ` U" by (intro image_cong) auto
  have pt: "pt_pages (pmem k') d = pt_pages (pmem k) d" using ts(2) ps' by simp
  have "inj_on (upage (pmem k') d) U" using u inj_on_cong [of U, OF upU] by (simp add: uspace_def)
  moreover have "p \<notin> upage (pmem k) d ` U" "p \<notin> pt_pages (pmem k) d" using p(2) by (auto simp: owned_def)
  ultimately have "uspace kend k' ps d (insert v U)"
    using u v p ts(5) ps' pt im \<open>dirs (pmem k') d = dirs (pmem k) d\<close> unfolding uspace_def
    by (auto simp: up e)
  moreover have "owned (pmem k') d (insert v U) = insert p (owned (pmem k) d U)" using im by (auto simp: owned_def pt up)
  ultimately show ?thesis using r(1) e pt ts(6) j by auto
qed

text \<open>Unmapping a user page and giving it back.\<close>

lemma kfree_page:
  assumes fp: "free_pages kend k ps" and p: "page_ok kend p" "p \<notin> set ps"
  shows "\<exists>k'. kfree kend p k = Ok k' \<and> free_pages kend k' (p # ps) \<and> (\<forall>a. PGROUNDDOWN a \<noteq> p \<longrightarrow> pmem k' a = pmem k a)"
proof -
  from kfree_free_pages [OF fp p] obtain k' where k': "kfree kend p k = Ok k'" "free_pages kend k' (p # ps)" by blast
  then have "pmem k' = (fill_page p 0x01010101 (pmem k))(p := of_nat (freelist k))"
    by (auto simp: kfree_def Let_def split: if_splits)
  then have "pmem k' a = pmem k a" if "PGROUNDDOWN a \<noteq> p" for a
    using that PGROUNDDOWN_page [OF page_ok_aligned [OF p(1)]] by (auto simp: fill_page_at page_ok_aligned [OF p(1)])
  then show ?thesis using k' by blast
qed

lemma free_user_page:
  assumes u: "uspace kend k ps d U" and v: "v \<in> U"
  shows "\<exists>k1. kfree kend (upage (pmem k) d v) k = Ok k1 \<and>
    (let k' = set_word (entry_at (pmem k) d v) 0 k1; p = upage (pmem k) d v in
     uspace kend k' (p # ps) d (U - {v}) \<and> entry (pmem k') d = (entry (pmem k) d)(v := 0) \<and> pt_pages (pmem k') d = pt_pages (pmem k) d \<and>
     (\<forall>a. PGROUNDDOWN a \<notin> insert p (pt_pages (pmem k) d) \<longrightarrow> pmem k' a = pmem k a))"
proof -
  let ?p = "upage (pmem k) d v"
  have p: "page_ok kend ?p" "?p \<notin> set ps" "?p \<notin> pt_pages (pmem k) d" and fp: "free_pages kend k ps"
    using u v by (auto simp: uspace_def vm_ok_def)
  from kfree_page [OF fp p(1,2)] obtain k1 where k1: "kfree kend ?p k = Ok k1" "free_pages kend k1 (?p # ps)"
    "\<forall>a. PGROUNDDOWN a \<noteq> ?p \<longrightarrow> pmem k1 a = pmem k a" by blast
  have pt: "pt_ok kend (pmem k) d" using u by (simp add: uspace_def vm_ok_def)
  have same: "PGROUNDDOWN a \<in> pt_pages (pmem k) d \<Longrightarrow> pmem k1 a = pmem k a" for a using k1(3) p(3) by metis
  note fr = pt_frame [OF pt same]
  have vU: "v < UPAGES" using u v by (auto simp: uspace_def)
  have at: "entry_at (pmem k1) d v = entry_at (pmem k) d v"
  proof -
    have "table (pmem k1) d (v div 1024) = table (pmem k) d (v div 1024)"
      using same [of "d + 4 * (v div 1024)"] page_of_pde [of kend d] pt dirs_less [OF user_dir [OF u vU]]
      by (simp add: table_def pt_ok_def pt_pages_def)
    then show ?thesis by (simp add: entry_at_def)
  qed
  have ok1: "vm_ok kend k1 (?p # ps) d" using k1(2) fr(2,3) u p(3) by (auto simp: vm_ok_def uspace_def)
  have dv: "v div 1024 \<in> dirs (pmem k1) d" using user_dir [OF u vU] fr(1) by simp
  let ?k = "set_word (entry_at (pmem k1) d v) 0 k1"
  note st = grown_store [OF ok1 dv, of 0]
  have e: "entry (pmem ?k) d = (entry (pmem k) d)(v := 0)" using st(2) fr(4) by simp
  have dirs: "dirs (pmem ?k) d = dirs (pmem k) d" using st(3) fr(1) by simp
  have pg: "pt_pages (pmem ?k) d = pt_pages (pmem k) d" using st(1) fr(2) by (auto simp: grown_def)
  have up: "upage (pmem ?k) d w = upage (pmem k) d w" if "w \<noteq> v" for w unfolding upage_def e using that by simp
  then have im: "upage (pmem ?k) d ` (U - {v}) = upage (pmem k) d ` (U - {v})" by (intro image_cong) auto
  have inj: "inj_on (upage (pmem k) d) U" using u by (simp add: uspace_def)
  then have "?p \<notin> upage (pmem k) d ` (U - {v})" using v by (auto dest: inj_onD)
  moreover have "inj_on (upage (pmem ?k) d) (U - {v})"
    using inj_on_subset [OF inj, of "U - {v}"] inj_on_cong [of "U - {v}" "upage (pmem ?k) d" "upage (pmem k) d", OF up] by auto
  moreover have "vm_ok kend ?k (?p # ps) d" using st(1) by (simp add: grown_def)
  moreover have "\<forall>w < UPAGES. present (entry (pmem ?k) d w) \<longleftrightarrow> w \<in> U - {v}" unfolding e using u by (auto simp: uspace_def)
  moreover have "\<forall>w \<in> U - {v}. page_ok kend (upage (pmem ?k) d w)" using up u by (auto simp: uspace_def)
  ultimately have "uspace kend ?k (?p # ps) d (U - {v})" using u im pg dirs by (auto simp: uspace_def)
  moreover have "pmem ?k a = pmem k a" if "PGROUNDDOWN a \<notin> insert ?p (pt_pages (pmem k) d)" for a
    using st(1) that k1(3) pg by (auto simp: grown_def)
  ultimately show ?thesis using k1(1) e pg unfolding at by (auto simp: Let_def)
qed

section \<open>Shrinking\<close>

definition npages :: "nat \<Rightarrow> nat" where
  "npages sz = PGROUNDUP sz div PGSIZE"

lemma PGROUNDUP_npages: "PGROUNDUP sz = npages sz * PGSIZE"
  by (simp add: npages_def PGROUNDUP_def PGSIZE_def)

lemma npages_less: "i * PGSIZE < sz \<longleftrightarrow> i < npages sz"
  by (simp add: npages_def PGROUNDUP_def PGSIZE_def) arith

lemma npages_mono: "sz \<le> sz' \<Longrightarrow> npages sz \<le> npages sz'"
  by (simp add: npages_def PGROUNDUP_def PGSIZE_def div_le_mono)

lemma npages_0 [simp]: "npages 0 = 0"
  by (simp add: npages_def PGROUNDUP_def PGSIZE_def)

lemma npages_USERTOP: "npages USERTOP = UPAGES"
  by (simp add: npages_def PGROUNDUP_def PGSIZE_def UPAGES_160 USERTOP_def)

lemma npages_top: "sz \<le> USERTOP \<Longrightarrow> npages sz \<le> UPAGES"
  using npages_mono [of sz USERTOP] by (simp add: npages_USERTOP)

text \<open>What taking the user pages \<open>F\<close> away from a space does: they are put on the free list.\<close>

definition shrunk :: "nat \<Rightarrow> nat \<Rightarrow> kmem \<Rightarrow> nat list \<Rightarrow> nat set \<Rightarrow> nat set \<Rightarrow> kmem \<Rightarrow> nat list \<Rightarrow> bool" where
  "shrunk kend d k ps U F k' ps' \<longleftrightarrow> uspace kend k' ps' d (U - F) \<and> entry (pmem k') d = (\<lambda>v. if v \<in> F then 0 else entry (pmem k) d v) \<and>
     pt_pages (pmem k') d = pt_pages (pmem k) d \<and> (\<exists>fs. ps' = fs @ ps \<and> set fs = upage (pmem k) d ` F \<and>
     (\<forall>a. PGROUNDDOWN a \<notin> set fs \<union> pt_pages (pmem k) d \<longrightarrow> pmem k' a = pmem k a))"

lemma deallocuvm_loop_spec:
  assumes "uspace kend k ps d U" and "sz \<le> USERTOP"
  shows "\<exists>k' ps'. deallocuvm_loop kend d (i * PGSIZE) sz k = Ok k' \<and> shrunk kend d k ps U (U \<inter> {i..<npages sz}) k' ps'"
  using assms
proof (induction "npages sz - i" arbitrary: i k ps U)
  case 0
  then have "npages sz \<le> i" by simp
  then have "\<not> i * PGSIZE < sz" "U \<inter> {i..<npages sz} = {}" by (auto simp: npages_less)
  then show ?case using 0(2) by (auto simp: deallocuvm_loop.simps [of kend d "i * PGSIZE"] shrunk_def fun_eq_iff)
next
  case (Suc n)
  let ?N = "npages sz"
  have i: "i < ?N" "i < UPAGES" "i * PGSIZE < sz" using Suc.hyps(2) npages_top [OF Suc.prems(2)] by (auto simp: npages_less)
  have next_page: "i * PGSIZE + PGSIZE = Suc i * PGSIZE" by simp
  note w = walk_user [OF Suc.prems(1) i(2)]
  have step: "deallocuvm_loop kend d (i * PGSIZE) sz k =
    kbind (if present (entry (pmem k) d i)
           then kbind (kfree kend (upage (pmem k) d i) k) (\<lambda>k1. Ok (set_word (entry_at (pmem k) d i) 0 k1))
           else Ok k) (deallocuvm_loop kend d (Suc i * PGSIZE) sz)"
  proof -
    have "upage (pmem k) d i \<noteq> 0" if "present (entry (pmem k) d i)"
      using that Suc.prems(1) i(2) by (auto simp: uspace_def vm_ok_def free_pages_def page_ok_def)
    then show ?thesis using i(3) w
      by (cases "present (entry (pmem k) d i)") (simp_all add: deallocuvm_loop.simps [of kend d "i * PGSIZE"] upage_def Let_def add.commute)
  qed
  show ?case
  proof (cases "i \<in> U")
    case True
    then have pr: "present (entry (pmem k) d i)" using Suc.prems(1) i(2) by (simp add: uspace_def)
    from free_user_page [OF Suc.prems(1) True] obtain k1 where k1: "kfree kend (upage (pmem k) d i) k = Ok k1" and
      f: "let k' = set_word (entry_at (pmem k) d i) 0 k1; p = upage (pmem k) d i in
       uspace kend k' (p # ps) d (U - {i}) \<and> entry (pmem k') d = (entry (pmem k) d)(i := 0) \<and> pt_pages (pmem k') d = pt_pages (pmem k) d \<and>
       (\<forall>a. PGROUNDDOWN a \<notin> insert p (pt_pages (pmem k) d) \<longrightarrow> pmem k' a = pmem k a)" by blast
    define k2 where "k2 = set_word (entry_at (pmem k) d i) 0 k1"
    let ?p = "upage (pmem k) d i"
    have k2: "uspace kend k2 (?p # ps) d (U - {i})" "entry (pmem k2) d = (entry (pmem k) d)(i := 0)" "pt_pages (pmem k2) d = pt_pages (pmem k) d"
      "\<forall>a. PGROUNDDOWN a \<notin> insert ?p (pt_pages (pmem k) d) \<longrightarrow> pmem k2 a = pmem k a" using f by (simp_all add: k2_def Let_def)
    have n: "n = npages sz - Suc i" using Suc.hyps(2) by simp
    from Suc.hyps(1) [OF n k2(1) Suc.prems(2)] obtain k' ps' where
      k': "deallocuvm_loop kend d (Suc i * PGSIZE) sz k2 = Ok k'" "shrunk kend d k2 (?p # ps) (U - {i}) ((U - {i}) \<inter> {Suc i..<?N}) k' ps'" by blast
    let ?F = "U \<inter> {i..<?N}" and ?G = "(U - {i}) \<inter> {Suc i..<?N}"
    have FG: "?F = insert i ?G" "i \<notin> ?G" "U - ?F = U - {i} - ?G" using True i(1) by auto
    have up: "upage (pmem k2) d ` ?G = upage (pmem k) d ` ?G" by (intro image_cong) (auto simp: upage_def k2(2))
    from k'(2) obtain fs where fs: "ps' = fs @ ?p # ps" "set fs = upage (pmem k) d ` ?G" "uspace kend k' ps' d (U - ?F)"
      "entry (pmem k') d = (\<lambda>v. if v \<in> ?G then 0 else entry (pmem k2) d v)" "pt_pages (pmem k') d = pt_pages (pmem k) d"
      "\<forall>a. PGROUNDDOWN a \<notin> set fs \<union> pt_pages (pmem k2) d \<longrightarrow> pmem k' a = pmem k2 a"
      unfolding shrunk_def up FG(3) k2(3) by blast
    have "entry (pmem k') d = (\<lambda>v. if v \<in> ?F then 0 else entry (pmem k) d v)" unfolding fs(4) k2(2) FG(1) using FG(2) by (auto simp: fun_eq_iff)
    moreover have "ps' = (fs @ [?p]) @ ps" "set (fs @ [?p]) = upage (pmem k) d ` ?F" unfolding FG(1) using fs(1,2) by auto
    moreover have "\<forall>a. PGROUNDDOWN a \<notin> set (fs @ [?p]) \<union> pt_pages (pmem k) d \<longrightarrow> pmem k' a = pmem k a" using fs(6) k2(3,4) by auto
    ultimately have "shrunk kend d k ps U ?F k' ps'" unfolding shrunk_def using fs(3,5) by blast
    moreover have "deallocuvm_loop kend d (i * PGSIZE) sz k = Ok k'" using step pr k1 k'(1) by (simp add: k2_def)
    ultimately show ?thesis by blast
  next
    case False
    then have "\<not> present (entry (pmem k) d i)" using Suc.prems(1) i(2) by (simp add: uspace_def)
    then have "deallocuvm_loop kend d (i * PGSIZE) sz k = deallocuvm_loop kend d (Suc i * PGSIZE) sz k" using step by simp
    moreover have "U \<inter> {i..<?N} = U \<inter> {Suc i..<?N}" using False by (auto simp: Suc_le_eq le_less)
    ultimately show ?thesis using Suc.hyps(1) [of "Suc i", OF _ Suc.prems] Suc.hyps(2) by auto
  qed
qed

lemma deallocuvm_spec:
  assumes "uspace kend k ps d U" and "oldsz \<le> USERTOP" and "newsz < oldsz"
  shows "\<exists>k' ps'. deallocuvm kend d oldsz newsz k = Ok (newsz, k') \<and> shrunk kend d k ps U (U \<inter> {npages newsz..<npages oldsz}) k' ps'"
  using deallocuvm_loop_spec [OF assms(1,2), of "npages newsz"] assms(3) by (auto simp: deallocuvm_def PGROUNDUP_npages)

section \<open>Tearing a space down\<close>

lemma freevm_tables_spec:
  assumes "free_pages kend k ps" and "pt_ok kend m d" and "\<forall>a. PGROUNDDOWN a = d \<longrightarrow> pmem k a = m a"
    and "distinct is" and "set is \<subseteq> {..<1024}" and "d \<notin> set ps" and "table m d ` (set is \<inter> dirs m d) \<inter> set ps = {}"
  shows "\<exists>k' fs. freevm_tables kend d is k = Ok k' \<and> free_pages kend k' (fs @ ps) \<and> set fs = table m d ` (set is \<inter> dirs m d) \<and>
    (\<forall>a. PGROUNDDOWN a \<notin> set fs \<longrightarrow> pmem k' a = pmem k a)"
  using assms
proof (induction "is" arbitrary: k ps)
  case Nil
  then show ?case by auto
next
  case (Cons i "is")
  have d: "page_ok kend d" using Cons.prems(2) by (simp add: pt_ok_def)
  have i: "i < 1024" and pde: "pmem k (d + 4 * i) = m (d + 4 * i)" using Cons.prems(3,5) page_of_pde [OF d] by auto
  show ?case
  proof (cases "i \<in> dirs m d")
    case True
    let ?p = "table m d i"
    have p: "page_ok kend ?p" "?p \<noteq> d" "?p \<notin> set ps" using True Cons.prems(2,7) by (auto simp: pt_ok_def)
    have "present (m (d + 4 * i))" "PTE_ADDR (m (d + 4 * i)) = ?p" using True by (simp_all add: dirs_def table_def)
    moreover from kfree_page [OF Cons.prems(1) p(1,3)] obtain k1 where k1: "kfree kend ?p k = Ok k1" "free_pages kend k1 (?p # ps)"
      "\<forall>a. PGROUNDDOWN a \<noteq> ?p \<longrightarrow> pmem k1 a = pmem k a" by blast
    ultimately have step: "freevm_tables kend d (i # is) k = freevm_tables kend d is k1" using pde by simp
    have "inj_on (table m d) (dirs m d)" using Cons.prems(2) by (simp add: pt_ok_def)
    then have ne: "?p \<notin> table m d ` (set is \<inter> dirs m d)" using True Cons.prems(4) by (auto dest: inj_onD)
    have "\<forall>a. PGROUNDDOWN a = d \<longrightarrow> pmem k1 a = m a" using k1(3) Cons.prems(3) p(2) by auto
    moreover have "table m d ` (set is \<inter> dirs m d) \<inter> set (?p # ps) = {}" using ne Cons.prems(7) by auto
    ultimately obtain k' fs where k': "freevm_tables kend d is k1 = Ok k'" "free_pages kend k' (fs @ ?p # ps)"
      "set fs = table m d ` (set is \<inter> dirs m d)" "\<forall>a. PGROUNDDOWN a \<notin> set fs \<longrightarrow> pmem k' a = pmem k1 a"
      using Cons.IH [OF k1(2) Cons.prems(2)] Cons.prems p(2) by auto
    have "set (i # is) \<inter> dirs m d = insert i (set is \<inter> dirs m d)" using True by auto
    then show ?thesis using step k' k1(3) by (intro exI [of _ k'] exI [of _ "fs @ [?p]"]) auto
  next
    case False
    then have "\<not> present (m (d + 4 * i))" using i by (simp add: dirs_def NPDENTRIES_def)
    then have "freevm_tables kend d (i # is) k = freevm_tables kend d is k" using pde by simp
    moreover have "set (i # is) \<inter> dirs m d = set is \<inter> dirs m d" using False by auto
    ultimately show ?thesis using Cons.IH [OF Cons.prems(1,2,3)] Cons.prems by auto
  qed
qed

lemma freevm_spec:
  assumes u: "uspace kend k ps d U"
  shows "\<exists>k' fs. freevm kend d k = Ok k' \<and> free_pages kend k' (fs @ ps) \<and> set fs = owned (pmem k) d U \<and>
    (\<forall>a. PGROUNDDOWN a \<notin> set fs \<longrightarrow> pmem k' a = pmem k a)"
proof -
  have d0: "d \<noteq> 0" using u by (auto simp: uspace_def vm_ok_def pt_ok_def page_ok_def free_pages_def)
  have "(0 :: nat) < USERTOP" by (simp add: USERTOP_def)
  from deallocuvm_spec [OF u order_refl this] obtain k1 ps1 where
    k1: "deallocuvm kend d USERTOP 0 k = Ok (0, k1)" "shrunk kend d k ps U (U \<inter> {npages 0..<npages USERTOP}) k1 ps1" by blast
  have F: "U \<inter> {npages 0..<npages USERTOP} = U" using u by (auto simp: uspace_def npages_USERTOP)
  from k1(2) [unfolded F shrunk_def] obtain fs where fs: "ps1 = fs @ ps" "set fs = upage (pmem k) d ` U" "uspace kend k1 ps1 d {}"
    "pt_pages (pmem k1) d = pt_pages (pmem k) d" "\<forall>a. PGROUNDDOWN a \<notin> set fs \<union> pt_pages (pmem k) d \<longrightarrow> pmem k1 a = pmem k a" by auto
  let ?m = "pmem k1"
  have ok1: "free_pages kend k1 ps1" "pt_ok kend ?m d" "set ps1 \<inter> pt_pages ?m d = {}" using fs(3) by (auto simp: uspace_def vm_ok_def)
  have all: "set [0..<NPDENTRIES] \<inter> dirs ?m d = dirs ?m d" by (auto simp: NPDENTRIES_def dest: dirs_less)
  have pre: "set [0..<NPDENTRIES] \<subseteq> {..<1024}" "d \<notin> set ps1" "table ?m d ` (set [0..<NPDENTRIES] \<inter> dirs ?m d) \<inter> set ps1 = {}"
    unfolding all using ok1(3) by (auto simp: pt_pages_def NPDENTRIES_def)
  from freevm_tables_spec [OF ok1(1,2) _ distinct_upt pre] obtain k2 gs where
    k2: "freevm_tables kend d [0..<NPDENTRIES] k1 = Ok k2" "free_pages kend k2 (gs @ ps1)" "set gs = table ?m d ` dirs ?m d"
    "\<forall>a. PGROUNDDOWN a \<notin> set gs \<longrightarrow> pmem k2 a = ?m a" unfolding all by blast
  have "d \<notin> set (gs @ ps1)" using ok1(2,3) k2(3) by (auto simp: pt_ok_def pt_pages_def)
  moreover have "page_ok kend d" using ok1(2) by (simp add: pt_ok_def)
  ultimately obtain k3 where k3: "kfree kend d k2 = Ok k3" "free_pages kend k3 (d # gs @ ps1)" "\<forall>a. PGROUNDDOWN a \<noteq> d \<longrightarrow> pmem k3 a = pmem k2 a"
    using kfree_page [OF k2(2)] by blast
  have pt: "pt_pages (pmem k) d = insert d (set gs)" using fs(4) k2(3) by (simp add: pt_pages_def)
  then have own: "set (d # gs @ fs) = owned (pmem k) d U" using fs(2) by (auto simp: owned_def)
  have "freevm kend d k = Ok k3" using d0 k1(1) k2(1) k3(1) by (simp add: freevm_def)
  moreover have "free_pages kend k3 ((d # gs @ fs) @ ps)" using k3(2) fs(1) by simp
  moreover have "\<forall>a. PGROUNDDOWN a \<notin> set (d # gs @ fs) \<longrightarrow> pmem k3 a = pmem k a" using k3(3) k2(4) fs(5) pt by auto
  ultimately show ?thesis using own by blast
qed

section \<open>Growing\<close>

text \<open>
  The pages \<open>o\<close> to \<open>j\<close> of the space \<open>d\<close> were taken from the front of the free list and filled with \<open>C\<close>: word \<open>x\<close> of
  page \<open>v\<close> holds \<open>C v x\<close>. The page table has the same pages as before and no other memory changed.
\<close>

definition gained :: "nat \<Rightarrow> nat \<Rightarrow> nat \<Rightarrow> (nat \<Rightarrow> nat \<Rightarrow> 32 word) \<Rightarrow> kmem \<Rightarrow> nat list \<Rightarrow> nat \<Rightarrow> kmem \<Rightarrow> nat list \<Rightarrow> bool" where
  "gained kend d b C k ps j k1 ps1 \<longleftrightarrow> uspace kend k1 ps1 d {..<j} \<and> b \<le> j \<and> ps = map (upage (pmem k1) d) [b..<j] @ ps1 \<and>
     (\<forall>v. entry (pmem k1) d v = (if b \<le> v \<and> v < j then of_nat (upage (pmem k1) d v) OR (PTE_W OR PTE_U) OR PTE_P else entry (pmem k) d v)) \<and>
     pt_pages (pmem k1) d = pt_pages (pmem k) d \<and>
     (\<forall>v x. b \<le> v \<and> v < j \<and> x < PGSIZE \<longrightarrow> pmem k1 (upage (pmem k1) d v + x) = C v x) \<and>
     (\<forall>a. PGROUNDDOWN a \<notin> pt_pages (pmem k) d \<union> upage (pmem k1) d ` {b..<j} \<longrightarrow> pmem k1 a = pmem k a)"

lemma gained_start: "uspace kend k ps d {..<b} \<Longrightarrow> gained kend d b C k ps b k ps"
  by (auto simp: gained_def)

lemma in_page_off: "page_ok kend p \<Longrightarrow> PGROUNDDOWN a = p \<longleftrightarrow> (\<exists>x < PGSIZE. a = p + x)"
  using in_page [OF page_ok_aligned, of kend p a] by (metis le_add1 le_add_diff_inverse nat_add_left_cancel_less)

lemma gained_step:
  assumes g: "gained kend d b C k ps j k1 (p # qs)" and j: "j < UPAGES"
  shows "\<exists>k2. kalloc k1 = (p, k2) \<and> p \<noteq> 0 \<and> pmem k2 = pmem k1 \<and> page_ok kend p \<and> (\<forall>k3. freelist k3 = freelist k2 \<longrightarrow>
    (\<forall>a. pmem k3 a = (if PGROUNDDOWN a = p then C j (a - p) else pmem k1 a)) \<longrightarrow>
    (\<exists>k4. mappages d (j * PGSIZE) PGSIZE p (PTE_W OR PTE_U) k3 = Ok (0, k4) \<and> gained kend d b C k ps (Suc j) k4 qs))"
proof -
  have u: "uspace kend k1 (p # qs) d {..<j}" using g by (simp add: gained_def)
  then have fp: "free_pages kend k1 (p # qs)" by (simp add: uspace_def vm_ok_def)
  from kalloc_free_pages [OF fp] obtain k2 where k2: "kalloc k1 = (p, k2)" "p \<noteq> 0" "free_pages kend k2 qs" "pmem k2 = pmem k1" by auto
  have p: "page_ok kend p" "p \<notin> set qs" "p \<notin> owned (pmem k1) d {..<j}"
    using fp uspace_owned [OF u] by (auto simp: free_pages_def)
  have "\<exists>k4. mappages d (j * PGSIZE) PGSIZE p (PTE_W OR PTE_U) k3 = Ok (0, k4) \<and> gained kend d b C k ps (Suc j) k4 qs"
    if fl: "freelist k3 = freelist k2" and m3: "\<forall>a. pmem k3 a = (if PGROUNDDOWN a = p then C j (a - p) else pmem k1 a)" for k3
  proof -
    have pg: "PGROUNDDOWN q = q" if "q \<in> set qs" for q using that fp by (auto simp: free_pages_def intro: PGROUNDDOWN_page page_ok_aligned)
    have fp3: "free_pages kend k3 qs"
    proof (rule free_pages_frame [OF k2(3) fl])
      fix q assume "q \<in> set qs"
      then show "pmem k3 q = pmem k2 q" using m3 pg [of q] p(2) k2(4) by auto
    qed
    have own: "owned (pmem k1) d {..<j} \<inter> set qs = {}" using uspace_owned [OF u] by auto
    have "pmem k3 a = pmem k1 a" if "PGROUNDDOWN a \<in> pt_pages (pmem k1) d" for a using that m3 p(3) by (auto simp: owned_def)
    note fr = uspace_frame [OF u this fp3 own]
    from map_user_page [OF fr(1) j _ p(1) _ p(2)] p(3) fr(3) obtain k4 where
      k4: "mappages d (j * PGSIZE) PGSIZE p (PTE_W OR PTE_U) k3 = Ok (0, k4)" "uspace kend k4 qs d (insert j {..<j})"
      "entry (pmem k4) d = (entry (pmem k3) d)(j := of_nat p OR (PTE_W OR PTE_U) OR PTE_P)"
      "pt_pages (pmem k4) d = pt_pages (pmem k3) d" "\<forall>a. PGROUNDDOWN a \<notin> pt_pages (pmem k3) d \<longrightarrow> pmem k4 a = pmem k3 a" by auto
    have up: "upage (pmem k4) d v = (if v = j then p else upage (pmem k1) d v)" for v
      using user_pte [OF p(1)] by (simp add: upage_def k4(3) fr(2))
    have map_up: "map (upage (pmem k4) d) [b..<j] = map (upage (pmem k1) d) [b..<j]" by (auto simp: up)
    have im: "upage (pmem k4) d ` {b..<Suc j} = insert p (upage (pmem k1) d ` {b..<j})" if "b \<le> j"
      using that by (auto simp: up image_iff less_Suc_eq)
    have same: "pmem k4 a = pmem k3 a" if "PGROUNDDOWN a \<notin> pt_pages (pmem k) d" for a
      using that k4(4,5) fr(4) g by (auto simp: gained_def)
    have new: "pmem k4 (p + x) = C j x" if "x < PGSIZE" for x
    proof -
      have "PGROUNDDOWN (p + x) = p" using in_page_off [OF p(1)] that by blast
      moreover have "p \<notin> pt_pages (pmem k) d" using p(3) g by (auto simp: owned_def gained_def)
      ultimately show ?thesis using same [of "p + x"] m3 by simp
    qed
    have old: "pmem k4 (upage (pmem k1) d v + x) = C v x" if "b \<le> v" "v < j" "x < PGSIZE" for v x
    proof -
      let ?q = "upage (pmem k1) d v"
      have q: "page_ok kend ?q" "?q \<notin> pt_pages (pmem k1) d" "?q \<noteq> p" using that u p(3) by (auto simp: uspace_def owned_def)
      have "PGROUNDDOWN (?q + x) = ?q" using in_page_off [OF q(1)] that(3) by blast
      then show ?thesis using same [of "?q + x"] m3 q g that by (auto simp: gained_def)
    qed
    have "gained kend d b C k ps (Suc j) k4 qs"
      unfolding gained_def
    proof (intro conjI allI impI)
      show "uspace kend k4 qs d {..<Suc j}" using k4(2) by (simp add: lessThan_Suc)
      show "b \<le> Suc j" "pt_pages (pmem k4) d = pt_pages (pmem k) d" using g k4(4) fr(4) by (simp_all add: gained_def)
      show "ps = map (upage (pmem k4) d) [b..<Suc j] @ qs" using g map_up by (simp add: gained_def up)
      show "entry (pmem k4) d v = (if b \<le> v \<and> v < Suc j then of_nat (upage (pmem k4) d v) OR (PTE_W OR PTE_U) OR PTE_P else entry (pmem k) d v)" for v
        using g by (auto simp: gained_def k4(3) fr(2) up less_Suc_eq)
      show "pmem k4 (upage (pmem k4) d v + x) = C v x" if "b \<le> v \<and> v < Suc j \<and> x < PGSIZE" for v x
        using that new old by (auto simp: up)
      show "pmem k4 a = pmem k a" if "PGROUNDDOWN a \<notin> pt_pages (pmem k) d \<union> upage (pmem k4) d ` {b..<Suc j}" for a
        using that im same [of a] m3 g by (auto simp: gained_def)
    qed
    then show ?thesis using k4(1) by blast
  qed
  then show ?thesis using k2 p(1) by blast
qed

text \<open>\<open>allocuvm\<close>: all the pages, zeroed, or none.\<close>

abbreviation zeroed :: "nat \<Rightarrow> nat \<Rightarrow> 32 word" where
  "zeroed \<equiv> \<lambda>v x. 0"

text \<open>Back to the first \<open>b\<close> pages, with the free list as it was up to its order.\<close>

definition restored :: "nat \<Rightarrow> nat \<Rightarrow> nat \<Rightarrow> kmem \<Rightarrow> nat list \<Rightarrow> kmem \<Rightarrow> nat list \<Rightarrow> bool" where
  "restored kend d b k ps k' ps' \<longleftrightarrow> uspace kend k' ps' d {..<b} \<and> set ps' = set ps \<and>
     (\<forall>v. v < b \<or> UPAGES \<le> v \<longrightarrow> entry (pmem k') d v = entry (pmem k) d v) \<and> pt_pages (pmem k') d = pt_pages (pmem k) d \<and>
     (\<forall>a. PGROUNDDOWN a \<notin> pt_pages (pmem k) d \<union> set ps \<longrightarrow> pmem k' a = pmem k a)"

lemma gained_shrunk:
  assumes g: "gained kend d b C k ps j k1 []" and s: "shrunk kend d k1 [] {..<j} {b..<j} k' ps'"
  shows "restored kend d b k ps k' ps'"
proof -
  have ps: "ps = map (upage (pmem k1) d) [b..<j]" using g by (simp add: gained_def)
  have U: "{..<j} - {b..<j} = {..<b}" using g by (auto simp: gained_def)
  from s obtain fs where fs: "ps' = fs" "set fs = upage (pmem k1) d ` {b..<j}" "uspace kend k' ps' d {..<b}"
    "entry (pmem k') d = (\<lambda>v. if v \<in> {b..<j} then 0 else entry (pmem k1) d v)" "pt_pages (pmem k') d = pt_pages (pmem k1) d"
    "\<forall>a. PGROUNDDOWN a \<notin> set fs \<union> pt_pages (pmem k1) d \<longrightarrow> pmem k' a = pmem k1 a" unfolding shrunk_def U by auto
  have st: "set ps = upage (pmem k1) d ` {b..<j}" by (simp add: ps)
  have j: "j \<le> UPAGES" using g by (auto simp: gained_def uspace_def)
  have "\<forall>v. v < b \<or> UPAGES \<le> v \<longrightarrow> entry (pmem k') d v = entry (pmem k) d v" using g j unfolding fs(4) gained_def by auto
  moreover have "\<forall>a. PGROUNDDOWN a \<notin> pt_pages (pmem k) d \<union> set ps \<longrightarrow> pmem k' a = pmem k a"
    using fs(2,6) g unfolding st gained_def by auto
  ultimately show ?thesis using fs(1,2,3,5) st g unfolding gained_def restored_def by auto
qed

lemma allocuvm_loop_end: "\<not> a < newsz \<Longrightarrow> allocuvm_loop kend d oldsz newsz a k = Ok (newsz, k)"
  by (simp add: allocuvm_loop.simps [of kend d oldsz newsz a])

lemma allocuvm_loop_spec:
  assumes "gained kend d (npages oldsz) zeroed k ps j k1 ps1" and "newsz \<le> USERTOP" and "oldsz < newsz" and "j \<le> npages newsz"
  shows "\<exists>r k' ps'. allocuvm_loop kend d oldsz newsz (j * PGSIZE) k1 = Ok (r, k') \<and>
    (r = newsz \<and> gained kend d (npages oldsz) zeroed k ps (npages newsz) k' ps' \<or>
     r = 0 \<and> length ps < npages newsz - npages oldsz \<and> restored kend d (npages oldsz) k ps k' ps')"
  using assms
proof (induction "npages newsz - j" arbitrary: j k1 ps1)
  case 0
  then have "j = npages newsz" "\<not> j * PGSIZE < newsz" by (auto simp: npages_less)
  then have "allocuvm_loop kend d oldsz newsz (j * PGSIZE) k1 = Ok (newsz, k1)"
    by (intro allocuvm_loop_end)
  then show ?case using 0(2) \<open>j = npages newsz\<close> by blast
next
  case (Suc n)
  let ?N = "npages newsz" and ?b = "npages oldsz"
  have j: "j < ?N" "j * PGSIZE < newsz" "j < UPAGES" using Suc.hyps(2) npages_top [OF Suc.prems(2)] by (auto simp: npages_less)
  have u: "uspace kend k1 ps1 d {..<j}" "?b \<le> j" using Suc.prems(1) by (simp_all add: gained_def)
  show ?case
  proof (cases ps1)
    case Nil
    have ka: "kalloc k1 = (0, k1)" using kalloc_free_pages [of kend k1 ps1] u(1) Nil by (simp add: uspace_def vm_ok_def)
    from deallocuvm_spec [OF u(1) Suc.prems(2,3)] obtain k' ps' where
      k': "deallocuvm kend d newsz oldsz k1 = Ok (oldsz, k')" "shrunk kend d k1 ps1 {..<j} ({..<j} \<inter> {?b..<?N}) k' ps'" by blast
    have "{..<j} \<inter> {?b..<?N} = {?b..<j}" using j(1) by auto
    then have "shrunk kend d k1 [] {..<j} {?b..<j} k' ps'" using k'(2) Nil by simp
    from gained_shrunk [OF Suc.prems(1) [unfolded Nil] this] have "restored kend d ?b k ps k' ps'" .
    moreover have "allocuvm_loop kend d oldsz newsz (j * PGSIZE) k1 = Ok (0, k')"
      using j(2) ka k'(1) by (simp add: allocuvm_loop.simps [of kend d oldsz newsz "j * PGSIZE"])
    moreover have "length ps < ?N - ?b" using Suc.prems(1) Nil j(1) u(2) by (auto simp: gained_def)
    ultimately show ?thesis by blast
  next
    case (Cons p qs)
    from gained_step [OF Suc.prems(1) [unfolded Cons] j(3)] obtain k2 where
      k2: "kalloc k1 = (p, k2)" "p \<noteq> 0" "pmem k2 = pmem k1" "page_ok kend p" and
      step: "\<forall>k3. freelist k3 = freelist k2 \<longrightarrow> (\<forall>a. pmem k3 a = (if PGROUNDDOWN a = p then 0 else pmem k1 a)) \<longrightarrow>
        (\<exists>k4. mappages d (j * PGSIZE) PGSIZE p (PTE_W OR PTE_U) k3 = Ok (0, k4) \<and> gained kend d ?b zeroed k ps (Suc j) k4 qs)" by blast
    have "\<forall>a. pmem (zero_page p k2) a = (if PGROUNDDOWN a = p then 0 else pmem k1 a)"
      by (simp add: fill_page_at page_ok_aligned [OF k2(4)] k2(3))
    with step [rule_format, of "zero_page p k2"] obtain k4 where
      k4: "mappages d (j * PGSIZE) PGSIZE p (PTE_W OR PTE_U) (zero_page p k2) = Ok (0, k4)" "gained kend d ?b zeroed k ps (Suc j) k4 qs" by auto
    have "allocuvm_loop kend d oldsz newsz (j * PGSIZE) k1 = allocuvm_loop kend d oldsz newsz (Suc j * PGSIZE) k4"
      using j(2) k2(1,2) k4(1) by (simp add: allocuvm_loop.simps [of kend d oldsz newsz "j * PGSIZE"] add.commute)
    moreover have "n = ?N - Suc j" "Suc j \<le> ?N" using Suc.hyps(2) j(1) by auto
    ultimately show ?thesis using Suc.hyps(1) [OF _ k4(2) Suc.prems(2,3)] by simp
  qed
qed

lemma allocuvm_spec:
  assumes u: "uspace kend k ps d {..<npages oldsz}" and new: "newsz \<le> USERTOP" and le: "oldsz \<le> newsz"
  shows "\<exists>r k' ps'. allocuvm kend d oldsz newsz k = Ok (r, k') \<and>
    (r = newsz \<and> gained kend d (npages oldsz) zeroed k ps (npages newsz) k' ps' \<or>
     r = 0 \<and> length ps < npages newsz - npages oldsz \<and> restored kend d (npages oldsz) k ps k' ps')"
proof (cases "oldsz = newsz")
  case True
  then have "\<not> PGROUNDUP oldsz < newsz" by (simp add: PGROUNDUP_npages npages_less)
  then have "allocuvm kend d oldsz newsz k = Ok (newsz, k)"
    using new True allocuvm_loop_end by (simp add: allocuvm_def)
  then show ?thesis using gained_start [OF u, of zeroed] True by blast
next
  case False
  then show ?thesis using allocuvm_loop_spec [OF gained_start [OF u] new _ npages_mono [OF le]] new le
    by (simp add: allocuvm_def PGROUNDUP_npages)
qed

section \<open>Copying a space\<close>

text \<open>
  \<open>copyuvm\<close> goes over the pages of the parent \<open>d\<close>; the child \<open>c\<close> was set up in the state \<open>k\<close>. The child gains pages
  with the contents of the parent's. If the pages run out, the child is torn down again.
\<close>

abbreviation contents :: "kmem \<Rightarrow> nat \<Rightarrow> nat \<Rightarrow> nat \<Rightarrow> 32 word" where
  "contents k d v x \<equiv> pmem k (upage (pmem k) d v + x)"

lemma gained_apart:
  assumes g: "gained kend c 0 C k ps j k1 ps1" and u: "uspace kend k ps d U" and ap: "owned (pmem k) d U \<inter> owned (pmem k) c {} = {}"
  shows "uspace kend k1 ps1 d U \<and> entry (pmem k1) d = entry (pmem k) d \<and> owned (pmem k1) d U = owned (pmem k) d U \<and>
    (\<forall>a. PGROUNDDOWN a \<in> owned (pmem k) d U \<longrightarrow> pmem k1 a = pmem k a)"
proof -
  have ps: "set ps = upage (pmem k1) c ` {0..<j} \<union> set ps1" using g by (simp add: gained_def)
  have own: "owned (pmem k) d U \<inter> set ps = {}" by (rule uspace_owned [OF u])
  have same: "pmem k1 a = pmem k a" if "PGROUNDDOWN a \<in> owned (pmem k) d U" for a
    using that g own ap unfolding ps gained_def owned_def by blast
  have "free_pages kend k1 ps1" using g by (simp add: gained_def uspace_def vm_ok_def)
  moreover have "owned (pmem k) d U \<inter> set ps1 = {}" using own ps by auto
  moreover have "pmem k1 a = pmem k a" if "PGROUNDDOWN a \<in> pt_pages (pmem k) d" for a using same that by (simp add: owned_def)
  ultimately show ?thesis using uspace_frame [OF u] same by auto
qed

lemma copyuvm_loop_spec:
  assumes "gained kend c 0 (contents k d) k ps j k1 ps1" and "uspace kend k ps d {..<npages sz}"
    and "owned (pmem k) d {..<npages sz} \<inter> owned (pmem k) c {} = {}" and "sz \<le> USERTOP" and "j \<le> npages sz"
  shows "\<exists>r k' ps'. copyuvm_loop kend d c sz (j * PGSIZE) k1 = Ok (r, k') \<and>
    (r = c \<and> gained kend c 0 (contents k d) k ps (npages sz) k' ps' \<or>
     r = 0 \<and> length ps < npages sz \<and> free_pages kend k' ps' \<and> set ps' = set ps \<union> owned (pmem k) c {} \<and>
       (\<forall>a. PGROUNDDOWN a \<notin> set ps' \<longrightarrow> pmem k' a = pmem k a))"
  using assms
proof (induction "npages sz - j" arbitrary: j k1 ps1)
  case 0
  then have j: "j = npages sz" "\<not> j * PGSIZE < sz" by (auto simp: npages_less)
  have "copyuvm_loop kend d c sz a k1 = Ok (c, k1)" if "\<not> a < sz" for a
    using that by (simp add: copyuvm_loop.simps [of kend d c sz a])
  then show ?case using 0(2) j by blast
next
  case (Suc n)
  let ?N = "npages sz" and ?C = "contents k d"
  have j: "j < ?N" "j * PGSIZE < sz" "j < UPAGES" using Suc.hyps(2) npages_top [OF Suc.prems(4)] by (auto simp: npages_less)
  have u: "uspace kend k1 ps1 c {..<j}" using Suc.prems(1) by (simp add: gained_def)
  note par = gained_apart [OF Suc.prems(1,2,3)]
  have ud: "uspace kend k1 ps1 d {..<?N}" using par by blast
  note w = walk_user [OF ud j(3)]
  have pr: "present (entry (pmem k1) d j)" using ud j(1,3) by (auto simp: uspace_def)
  have pa: "PTE_ADDR (entry (pmem k1) d j) = upage (pmem k) d j" using par by (simp add: upage_def)
  note unf = copyuvm_loop.simps [of kend d c sz "j * PGSIZE"]
  show ?case
  proof (cases ps1)
    case Nil
    have ka: "kalloc k1 = (0, k1)" using kalloc_free_pages [of kend k1 ps1] u Nil by (simp add: uspace_def vm_ok_def)
    from freevm_spec [OF u] obtain k' fs where k': "freevm kend c k1 = Ok k'" "free_pages kend k' (fs @ ps1)"
      "set fs = owned (pmem k1) c {..<j}" "\<forall>a. PGROUNDDOWN a \<notin> set fs \<longrightarrow> pmem k' a = pmem k1 a" by blast
    have "copyuvm_loop kend d c sz (j * PGSIZE) k1 = Ok (0, k')" using j(2) w pr ka k'(1) by (simp add: unf)
    moreover have own: "set fs = set ps \<union> owned (pmem k) c {}"
      using k'(3) Suc.prems(1) Nil by (auto simp: gained_def owned_def lessThan_atLeast0)
    moreover have "length ps < ?N" using Suc.prems(1) Nil j(1) by (simp add: gained_def)
    moreover have "\<forall>a. PGROUNDDOWN a \<notin> set fs \<longrightarrow> pmem k' a = pmem k a"
    proof (intro allI impI)
      fix a assume a: "PGROUNDDOWN a \<notin> set fs"
      then have "PGROUNDDOWN a \<notin> pt_pages (pmem k) c \<union> upage (pmem k1) c ` {0..<j}"
        using own Suc.prems(1) Nil by (auto simp: gained_def owned_def)
      then show "pmem k' a = pmem k a" using k'(4) a Suc.prems(1) by (auto simp: gained_def)
    qed
    ultimately show ?thesis using k'(2) Nil by auto
  next
    case (Cons p qs)
    from gained_step [OF Suc.prems(1) [unfolded Cons] j(3)] obtain k2 where
      k2: "kalloc k1 = (p, k2)" "p \<noteq> 0" "pmem k2 = pmem k1" "page_ok kend p" and
      step: "\<forall>k3. freelist k3 = freelist k2 \<longrightarrow> (\<forall>a. pmem k3 a = (if PGROUNDDOWN a = p then ?C j (a - p) else pmem k1 a)) \<longrightarrow>
        (\<exists>k4. mappages c (j * PGSIZE) PGSIZE p (PTE_W OR PTE_U) k3 = Ok (0, k4) \<and> gained kend c 0 ?C k ps (Suc j) k4 qs)" by blast
    let ?q = "upage (pmem k) d j"
    have q: "page_ok kend ?q" "?q \<in> owned (pmem k) d {..<?N}" using Suc.prems(2) j(1) by (auto simp: uspace_def owned_def)
    have "pmem (copy_page p ?q k2) a = (if PGROUNDDOWN a = p then ?C j (a - p) else pmem k1 a)" for a
    proof (cases "PGROUNDDOWN a = p")
      case True
      then obtain x where x: "x < PGSIZE" "a = p + x" using in_page_off [OF k2(4)] by blast
      have "PGROUNDDOWN (?q + x) = ?q" using in_page_off [OF q(1)] x(1) by blast
      then have "pmem k1 (?q + x) = pmem k (?q + x)" using par q(2) by simp
      then show ?thesis using x True k2(3) by (simp add: copy_page_def)
    next
      case False
      then show ?thesis using in_page [OF page_ok_aligned [OF k2(4)], of a] k2(3) by (auto simp: copy_page_def)
    qed
    moreover have "freelist (copy_page p ?q k2) = freelist k2" by (simp add: copy_page_def)
    ultimately obtain k4 where k4: "mappages c (j * PGSIZE) PGSIZE p (PTE_W OR PTE_U) (copy_page p ?q k2) = Ok (0, k4)"
      "gained kend c 0 ?C k ps (Suc j) k4 qs" using step by blast
    have "copyuvm_loop kend d c sz (j * PGSIZE) k1 = copyuvm_loop kend d c sz (Suc j * PGSIZE) k4"
      using j(2) w pr k2(1,2) k4(1) pa by (simp add: unf add.commute)
    moreover have "n = ?N - Suc j" "Suc j \<le> ?N" using Suc.hyps(2) j(1) by auto
    ultimately show ?thesis using Suc.hyps(1) [OF _ k4(2) Suc.prems(2-4)] by simp
  qed
qed

text \<open>The space \<open>setupkvm\<close> makes has no user page.\<close>

lemma kern_entry_user: "v < UPAGES \<Longrightarrow> kern_entry data v = 0"
  by (simp add: kern_entry_def UPAGES_160)

lemma setup_uspace:
  assumes "vm_ok kend k ps d" and "entry (pmem k) d = kern_entry data" and "dirs (pmem k) d = kern_dirs"
  shows "uspace kend k ps d {}"
  using assms by (simp add: uspace_def kern_entry_user)

lemma copyuvm_spec:
  assumes data: "data_ok data" and u: "uspace kend k ps d {..<npages sz}" and sz: "sz \<le> USERTOP"
  shows "\<exists>r k' ps'. copyuvm kend data d sz k = Ok (r, k') \<and> uspace kend k' ps' d {..<npages sz} \<and>
    (\<forall>a. PGROUNDDOWN a \<in> owned (pmem k) d {..<npages sz} \<longrightarrow> pmem k' a = pmem k a) \<and> entry (pmem k') d = entry (pmem k) d \<and>
    (r = 0 \<and> length ps < 13 + npages sz \<and> (13 \<le> length ps \<longrightarrow> set ps' = set ps) \<or>
     r \<noteq> 0 \<and> uspace kend k' ps' r {..<npages sz} \<and> owned (pmem k') r {..<npages sz} \<inter> owned (pmem k') d {..<npages sz} = {} \<and>
     (\<forall>v < npages sz. \<forall>x < PGSIZE. contents k' r v x = contents k' d v x) \<and>
     (\<forall>v. entry (pmem k') r v = (if v < npages sz then of_nat (upage (pmem k') r v) OR (PTE_W OR PTE_U) OR PTE_P else kern_entry data v)))"
proof -
  let ?N = "npages sz" and ?O = "owned (pmem k) d {..<npages sz}"
  have fp: "free_pages kend k ps" using u by (simp add: uspace_def vm_ok_def)
  have dis: "?O \<inter> set ps = {}" by (rule uspace_owned [OF u])
  from setupkvm_spec [OF fp data] obtain c k1 ts ps1 where s: "setupkvm data k = Ok (c, k1)" "ps = ts @ ps1" "free_pages kend k1 ps1"
    "\<forall>a. PGROUNDDOWN a \<notin> set ts \<longrightarrow> pmem k1 a = pmem k a"
    "c = 0 \<and> length ps < 13 \<and> ps1 = [] \<or> c \<noteq> 0 \<and> length ts = 13 \<and> vm_ok kend k1 ps1 c \<and> pt_pages (pmem k1) c = set ts \<and>
     entry (pmem k1) c = kern_entry data \<and> dirs (pmem k1) c = kern_dirs" by blast
  have same: "pmem k1 a = pmem k a" if "PGROUNDDOWN a \<in> ?O" for a using that s(2,4) dis by auto
  have "pmem k1 a = pmem k a" if "PGROUNDDOWN a \<in> pt_pages (pmem k) d" for a using that same by (simp add: owned_def)
  moreover have "?O \<inter> set ps1 = {}" using s(2) dis by auto
  ultimately have u1: "uspace kend k1 ps1 d {..<?N}" "entry (pmem k1) d = entry (pmem k) d" "owned (pmem k1) d {..<?N} = ?O"
    using uspace_frame [OF u _ s(3)] by auto
  show ?thesis
  proof (cases "c = 0")
    case True
    then have "copyuvm kend data d sz k = Ok (0, k1)" using s(1) by (simp add: copyuvm_def)
    moreover have "length ps < 13" using True s(5) by simp
    ultimately show ?thesis using u1 same by (intro exI [of _ "0::nat"] exI [of _ k1] exI [of _ ps1]) auto
  next
    case False
    then have c: "length ts = 13" "vm_ok kend k1 ps1 c" "pt_pages (pmem k1) c = set ts" "entry (pmem k1) c = kern_entry data" "dirs (pmem k1) c = kern_dirs"
      using s(5) by auto
    have uc: "uspace kend k1 ps1 c {}" by (rule setup_uspace [OF c(2,4,5)])
    have oc: "owned (pmem k1) c {} = set ts" using c(3) by (simp add: owned_def)
    have ap: "owned (pmem k1) d {..<?N} \<inter> owned (pmem k1) c {} = {}" unfolding u1(3) oc using dis s(2) by auto
    have g: "gained kend c 0 (contents k1 d) k1 ps1 0 k1 ps1" using uc by (intro gained_start) simp
    from copyuvm_loop_spec [OF g u1(1) ap sz le0] obtain r k' ps' where r: "copyuvm_loop kend d c sz 0 k1 = Ok (r, k')"
      "r = c \<and> gained kend c 0 (contents k1 d) k1 ps1 ?N k' ps' \<or> r = 0 \<and> length ps1 < ?N \<and> free_pages kend k' ps' \<and>
       set ps' = set ps1 \<union> owned (pmem k1) c {} \<and> (\<forall>a. PGROUNDDOWN a \<notin> set ps' \<longrightarrow> pmem k' a = pmem k1 a)" by auto
    have ret: "copyuvm kend data d sz k = Ok (r, k')" using s(1) False r(1) by (simp add: copyuvm_def)
    show ?thesis
    proof (cases "r = c")
      case True
      then have g': "gained kend c 0 (contents k1 d) k1 ps1 ?N k' ps'" using r(2) False by auto
      note par = gained_apart [OF g' u1(1) ap]
      have uc': "uspace kend k' ps' c {..<?N}" using g' by (simp add: gained_def)
      have "owned (pmem k') c {..<?N} \<subseteq> set ps" using g' oc s(2) by (auto simp: gained_def owned_def lessThan_atLeast0)
      then have dj: "owned (pmem k') c {..<?N} \<inter> owned (pmem k') d {..<?N} = {}" using par u1(3) dis by auto
      have copy: "contents k' c v x = contents k' d v x" if "v < ?N" "x < PGSIZE" for v x
      proof -
        let ?q = "upage (pmem k) d v"
        have q: "page_ok kend ?q" "?q \<in> ?O" using u that(1) by (auto simp: uspace_def owned_def)
        have "PGROUNDDOWN (?q + x) = ?q" using in_page_off [OF q(1)] that(2) by blast
        then have "pmem k' (?q + x) = pmem k1 (?q + x)" using par q(2) u1(3) by simp
        moreover have "upage (pmem k') d v = ?q" "upage (pmem k1) d v = ?q" using par u1(2) by (simp_all add: upage_def)
        ultimately show ?thesis using g' that by (simp add: gained_def)
      qed
      have "entry (pmem k') c v = (if v < ?N then of_nat (upage (pmem k') c v) OR (PTE_W OR PTE_U) OR PTE_P else kern_entry data v)" for v
        using g' c(4) by (simp add: gained_def)
      moreover have "\<forall>a. PGROUNDDOWN a \<in> ?O \<longrightarrow> pmem k' a = pmem k a" using par same u1(3) by auto
      ultimately show ?thesis using ret True False uc' dj copy par u1(2)
        by (intro exI [of _ r] exI [of _ k'] exI [of _ ps']) auto
    next
      case rc: False
      then have f: "r = 0" "length ps1 < ?N" "free_pages kend k' ps'" "set ps' = set ps" "\<forall>a. PGROUNDDOWN a \<notin> set ps' \<longrightarrow> pmem k' a = pmem k1 a"
        using r(2) oc s(2) by auto
      have keep: "pmem k' a = pmem k a" if "PGROUNDDOWN a \<in> ?O" for a using that f(4,5) dis same by auto
      have "pmem k' a = pmem k a" if "PGROUNDDOWN a \<in> pt_pages (pmem k) d" for a using that keep by (simp add: owned_def)
      moreover have "?O \<inter> set ps' = {}" using f(4) dis by simp
      ultimately have "uspace kend k' ps' d {..<?N}" "entry (pmem k') d = entry (pmem k) d" using uspace_frame [OF u _ f(3)] by auto
      then show ?thesis using ret f keep c(1) s(2) by (intro exI [of _ r] exI [of _ k'] exI [of _ ps']) auto
    qed
  qed
qed

section \<open>A booted machine\<close>

text \<open>A kernel that ends at \<open>0x110000\<close>, after \<open>kinit\<close>, with the space of a process of one page.\<close>

definition boot_mem :: kmem where
  "boot_mem = \<lparr>freelist = 0, pmem = (\<lambda>_. 0)\<rparr>"

lemma length_pages_from: "length (pages_from p n) = n"
  by (induction n arbitrary: p) auto

lemma boot_pages: "\<exists>k ps. kinit 0x110000 boot_mem = Ok k \<and> free_pages 0x110000 k ps \<and> length ps = 3824"
proof -
  have "free_pages 0x110000 boot_mem []" by (simp add: free_pages_def boot_mem_def)
  from kinit_loop_pages [OF this PGROUNDUP_spec(1,2)] obtain k where
    "kinit 0x110000 boot_mem = Ok k" "free_pages 0x110000 k (rev (pages_from (PGROUNDUP 0x110000) ((PHYSTOP - PGROUNDUP 0x110000) div PGSIZE)))"
    by (auto simp: kinit_def)
  moreover have "(PHYSTOP - PGROUNDUP 0x110000) div PGSIZE = 3824" by (simp add: PGROUNDUP_def PGSIZE_def PHYSTOP_def)
  ultimately show ?thesis using length_pages_from length_rev by metis
qed

lemma boot_data: "data_ok 0x108000"
  by (simp add: data_ok_def PGSIZE_def PHYSTOP_def)

lemma boot_setup: "\<exists>k ps d. uspace 0x110000 k ps d {} \<and> length ps = 3811"
proof -
  obtain k ps where k: "free_pages 0x110000 k ps" "length ps = 3824" using boot_pages by blast
  from setupkvm_spec [OF k(1) boot_data] obtain d k' ts ps' where s: "ps = ts @ ps'"
    "d = 0 \<and> length ps < 13 \<and> ps' = [] \<or> d \<noteq> 0 \<and> length ts = 13 \<and> vm_ok 0x110000 k' ps' d \<and> pt_pages (pmem k') d = set ts \<and>
     entry (pmem k') d = kern_entry 0x108000 \<and> dirs (pmem k') d = kern_dirs" by metis
  have "\<not> length ps < 13" using k(2) by simp
  with s(2) have v: "length ts = 13" "vm_ok 0x110000 k' ps' d" "entry (pmem k') d = kern_entry 0x108000" "dirs (pmem k') d = kern_dirs"
    by blast+
  have "length ps' = 3811" using s(1) k(2) v(1) by simp
  then show ?thesis using setup_uspace [OF v(2-4)] by blast
qed

lemma npages_one: "npages 4096 = 1"
  by (simp add: npages_def PGROUNDUP_def PGSIZE_def)

lemma boot_process: "\<exists>k ps d. uspace 0x110000 k ps d {..<npages 4096} \<and> length ps = 3810"
proof -
  obtain k ps d where u: "uspace 0x110000 k ps d {..<npages 0}" "length ps = 3811" using boot_setup by auto
  have "(4096 :: nat) \<le> USERTOP" by (simp add: USERTOP_def)
  from allocuvm_spec [OF u(1) this] obtain r k' ps' where
    "r = 4096 \<and> gained 0x110000 d (npages 0) zeroed k ps (npages 4096) k' ps' \<or> r = 0 \<and> length ps < npages 4096 - npages 0" by blast
  then have "gained 0x110000 d (npages 0) zeroed k ps (npages 4096) k' ps'" using u(2) npages_one by auto
  then have "uspace 0x110000 k' ps' d {..<npages 4096}" "length ps = 1 + length ps'" by (simp_all add: gained_def npages_one)
  then show ?thesis using u(2) by fastforce
qed

section \<open>What the address spaces promise\<close>

text \<open>
  C7. \<open>copyuvm\<close> never panics and keeps parent and child apart: the parent's page table and memory are unchanged; a child that is
  returned maps the same pages, writable, with the same contents, in pages that the parent does not own, and
  the kernel above them. It fails only when fewer pages are free than it needs, and if it got past \<open>setupkvm\<close> it has then
  put every page back.
\<close>
theorem copyuvm_isolated:
  assumes "data_ok data" and "uspace kend k ps d {..<npages sz}" and "sz \<le> USERTOP"
  shows "\<exists>r k' ps'. copyuvm kend data d sz k = Ok (r, k') \<and> uspace kend k' ps' d {..<npages sz} \<and>
    (\<forall>a. PGROUNDDOWN a \<in> owned (pmem k) d {..<npages sz} \<longrightarrow> pmem k' a = pmem k a) \<and> entry (pmem k') d = entry (pmem k) d \<and>
    (r = 0 \<and> length ps < 13 + npages sz \<and> (13 \<le> length ps \<longrightarrow> set ps' = set ps) \<or>
     r \<noteq> 0 \<and> uspace kend k' ps' r {..<npages sz} \<and> owned (pmem k') r {..<npages sz} \<inter> owned (pmem k') d {..<npages sz} = {} \<and>
     (\<forall>v < npages sz. \<forall>x < PGSIZE. contents k' r v x = contents k' d v x) \<and>
     (\<forall>v. entry (pmem k') r v = (if v < npages sz then of_nat (upage (pmem k') r v) OR (PTE_W OR PTE_U) OR PTE_P else kern_entry data v)))"
  by (rule copyuvm_spec [OF assms])

theorem copyuvm_isolated_witness:
  "\<exists>k ps d r k' ps'. uspace 0x110000 k ps d {..<npages 4096} \<and> copyuvm 0x110000 0x108000 d 4096 k = Ok (r, k') \<and> r \<noteq> 0 \<and>
     uspace 0x110000 k' ps' r {..<npages 4096}"
proof -
  obtain k ps d where u: "uspace 0x110000 k ps d {..<npages 4096}" "length ps = 3810" using boot_process by blast
  have "(4096 :: nat) \<le> USERTOP" by (simp add: USERTOP_def)
  from copyuvm_isolated [OF boot_data u(1) this] obtain r k' ps' where
    "copyuvm 0x110000 0x108000 d 4096 k = Ok (r, k')" "r = 0 \<and> length ps < 13 + npages 4096 \<or> r \<noteq> 0 \<and> uspace 0x110000 k' ps' r {..<npages 4096}"
    by blast
  moreover have "\<not> length ps < 13 + npages 4096" using u(2) npages_one by simp
  ultimately show ?thesis using u(1) by blast
qed

text \<open>
  C28. Growing a process is all or nothing: either \<open>allocuvm\<close> returns the new size, every new page is zeroed and the process keeps the
  old ones with their contents, or it returns 0 because too few pages are free, and page table and free list are as before,
  the latter up to order.
\<close>
theorem allocuvm_all_or_nothing:
  assumes "uspace kend k ps d {..<npages oldsz}" and "newsz \<le> USERTOP" and "oldsz \<le> newsz"
  shows "\<exists>r k' ps'. allocuvm kend d oldsz newsz k = Ok (r, k') \<and> (\<forall>v < npages oldsz. entry (pmem k') d v = entry (pmem k) d v) \<and>
    (\<forall>v < npages oldsz. \<forall>x < PGSIZE. contents k' d v x = contents k d v x) \<and>
    (r = newsz \<and> uspace kend k' ps' d {..<npages newsz} \<and> length ps = npages newsz - npages oldsz + length ps' \<and>
     (\<forall>v x. npages oldsz \<le> v \<and> v < npages newsz \<and> x < PGSIZE \<longrightarrow> contents k' d v x = 0) \<or>
     r = 0 \<and> length ps < npages newsz - npages oldsz \<and> uspace kend k' ps' d {..<npages oldsz} \<and> set ps' = set ps)"
proof -
  let ?b = "npages oldsz" and ?N = "npages newsz"
  from allocuvm_spec [OF assms] obtain r k' ps' where r: "allocuvm kend d oldsz newsz k = Ok (r, k')"
    "r = newsz \<and> gained kend d ?b zeroed k ps ?N k' ps' \<or> r = 0 \<and> length ps < ?N - ?b \<and> restored kend d ?b k ps k' ps'" by blast
  have keep: "contents k' d v x = contents k d v x"
    if e: "entry (pmem k') d v = entry (pmem k) d v" and v: "v < ?b" "x < PGSIZE"
      and s: "\<forall>a. PGROUNDDOWN a \<notin> pt_pages (pmem k) d \<union> set ps \<longrightarrow> pmem k' a = pmem k a" for v x
  proof -
    have q: "page_ok kend (upage (pmem k) d v)" "upage (pmem k) d v \<notin> pt_pages (pmem k) d \<union> set ps"
      using assms(1) v(1) by (auto simp: uspace_def)
    have "PGROUNDDOWN (upage (pmem k) d v + x) = upage (pmem k) d v" using in_page_off [OF q(1)] v(2) by blast
    then show ?thesis using s q(2) e by (simp add: upage_def)
  qed
  from r(2) show ?thesis
  proof (elim disjE conjE)
    assume n: "r = newsz" and g: "gained kend d ?b zeroed k ps ?N k' ps'"
    have "set ps = upage (pmem k') d ` {?b..<?N} \<union> set ps'" using g by (simp add: gained_def)
    then have "\<forall>a. PGROUNDDOWN a \<notin> pt_pages (pmem k) d \<union> set ps \<longrightarrow> pmem k' a = pmem k a" using g by (auto simp: gained_def)
    moreover have "entry (pmem k') d v = entry (pmem k) d v" if "v < ?b" for v using g that by (simp add: gained_def)
    ultimately show ?thesis using r(1) n g keep by (intro exI [of _ r] exI [of _ k'] exI [of _ ps']) (auto simp: gained_def)
  next
    assume f: "r = 0" "length ps < ?N - ?b" "restored kend d ?b k ps k' ps'"
    then show ?thesis using r(1) keep by (intro exI [of _ r] exI [of _ k'] exI [of _ ps']) (auto simp: restored_def)
  qed
qed

theorem allocuvm_all_or_nothing_witness:
  "\<exists>k ps d r k'. uspace 0x110000 k ps d {..<npages 4096} \<and> allocuvm 0x110000 d 4096 8192 k = Ok (r, k') \<and> r = 8192 \<and> contents k' d 1 0 = 0"
proof -
  obtain k ps d where u: "uspace 0x110000 k ps d {..<npages 4096}" "length ps = 3810" using boot_process by blast
  have "(8192 :: nat) \<le> USERTOP" "(4096 :: nat) \<le> 8192" by (simp_all add: USERTOP_def)
  from allocuvm_all_or_nothing [OF u(1) this] obtain r k' ps' where
    "allocuvm 0x110000 d 4096 8192 k = Ok (r, k')"
    "r = 8192 \<and> (\<forall>v x. npages 4096 \<le> v \<and> v < npages 8192 \<and> x < PGSIZE \<longrightarrow> contents k' d v x = 0) \<or> r = 0 \<and> length ps < npages 8192 - npages 4096"
    by blast
  moreover have "npages 8192 = 2" "0 < PGSIZE" by (simp_all add: npages_def PGROUNDUP_def PGSIZE_def)
  ultimately show ?thesis using u npages_one by fastforce
qed

text \<open>
  C31. With 13 free pages \<open>setupkvm\<close> returns a page table that maps exactly the kernel: I/O space, text, data and memory and the devices, each
  page to itself, the text read-only. \<open>freevm\<close> gives all of its pages back.
\<close>
theorem setupkvm_freevm:
  assumes "free_pages kend k ps" and "data_ok data" and "13 \<le> length ps"
  shows "\<exists>d k1 ps1 k2 ps2. setupkvm data k = Ok (d, k1) \<and> d \<noteq> 0 \<and> uspace kend k1 ps1 d {} \<and> entry (pmem k1) d = kern_entry data \<and>
    length ps = 13 + length ps1 \<and> freevm kend d k1 = Ok k2 \<and> free_pages kend k2 ps2 \<and> set ps2 = set ps"
proof -
  from setupkvm_spec [OF assms(1,2)] obtain d k1 ts ps1 where s: "setupkvm data k = Ok (d, k1)" "ps = ts @ ps1"
    "d = 0 \<and> length ps < 13 \<and> ps1 = [] \<or> d \<noteq> 0 \<and> length ts = 13 \<and> vm_ok kend k1 ps1 d \<and> pt_pages (pmem k1) d = set ts \<and>
     entry (pmem k1) d = kern_entry data \<and> dirs (pmem k1) d = kern_dirs" by blast
  have v: "d \<noteq> 0" "length ts = 13" "vm_ok kend k1 ps1 d" "pt_pages (pmem k1) d = set ts" "entry (pmem k1) d = kern_entry data" "dirs (pmem k1) d = kern_dirs"
    using s(3) assms(3) by auto
  have u: "uspace kend k1 ps1 d {}" by (rule setup_uspace [OF v(3,5,6)])
  from freevm_spec [OF u] obtain k2 fs where "freevm kend d k1 = Ok k2" "free_pages kend k2 (fs @ ps1)" "set fs = set ts" using v(4) by (auto simp: owned_def)
  then show ?thesis using s(1,2) v u by (intro exI [of _ d] exI [of _ k1] exI [of _ ps1] exI [of _ k2] exI [of _ "fs @ ps1"]) auto
qed

theorem setupkvm_freevm_witness:
  "\<exists>k d k1 k2. kinit 0x110000 boot_mem = Ok k \<and> setupkvm 0x108000 k = Ok (d, k1) \<and> d \<noteq> 0 \<and> freevm 0x110000 d k1 = Ok k2"
proof -
  obtain k ps where k: "kinit 0x110000 boot_mem = Ok k" "free_pages 0x110000 k ps" "length ps = 3824" using boot_pages by blast
  then show ?thesis using setupkvm_freevm [OF k(2) boot_data] by fastforce
qed

text \<open>
  When \<open>setupkvm\<close> runs out of memory it returns 0 without freeing what it took: with at least one but fewer than 13 free pages, the
  free list is empty afterwards.
\<close>
theorem setupkvm_leaks:
  assumes "free_pages kend k ps" and "data_ok data" and "length ps < 13"
  shows "\<exists>k'. setupkvm data k = Ok (0, k') \<and> free_pages kend k' []"
proof -
  from setupkvm_spec [OF assms(1,2)] obtain d k1 ts ps1 where s: "setupkvm data k = Ok (d, k1)" "ps = ts @ ps1" "free_pages kend k1 ps1"
    "d = 0 \<and> ps1 = [] \<or> length ts = 13" by blast
  then show ?thesis using assms(3) by auto
qed

theorem setupkvm_leaks_witness:
  "\<exists>k'. setupkvm 0x108000 \<lparr>freelist = 0x200000, pmem = (\<lambda>_. 0)\<rparr> = Ok (0, k') \<and> free_pages 0x110000 k' []"
proof -
  have "free_pages 0x110000 \<lparr>freelist = 0x200000, pmem = (\<lambda>_. 0)\<rparr> [0x200000]"
    by (simp add: free_pages_def page_ok_def run_next_def PGSIZE_def PHYSTOP_def)
  from setupkvm_leaks [OF this boot_data] show ?thesis by simp
qed

end
