(* ===== verification/Spinlock.thy ===== *)
theory Spinlock
  imports Prelude
begin

text \<open>
  Spin locks, \<open>src/P1/xv6/xv6/kernel/spinlock.c\<close>. A CPU has its interrupt flag and the
  \<open>pushcli\<close> nesting; a lock has its word and the CPU recorded in it. The functions follow the
  source for one CPU; the relation \<open>lock_step\<close> interleaves the atomic parts of \<open>acquire\<close> and
  \<open>release\<close> on any number of CPUs. The call-stack record \<open>pcs\<close> and the name are debugging
  data and left out.
\<close>

record cpu =
  ncli :: int
  intena :: bool
  eflags_IF :: bool

record spinlock =
  locked :: bool
  lk_cpu :: "nat option"

definition initlock :: "spinlock \<Rightarrow> spinlock" where
  "initlock lk = lk\<lparr>locked := False, lk_cpu := None\<rparr>"

definition holding :: "spinlock \<Rightarrow> nat \<Rightarrow> bool" where
  "holding lk i \<longleftrightarrow> locked lk \<and> lk_cpu lk = Some i"

definition pushcli :: "cpu \<Rightarrow> cpu" where
  "pushcli c =
     (let eflags = eflags_IF c;
          c = c\<lparr>eflags_IF := False\<rparr>;
          c = (if ncli c = 0 then c\<lparr>intena := eflags\<rparr> else c)
      in c\<lparr>ncli := ncli c + 1\<rparr>)"

definition popcli :: "cpu \<Rightarrow> cpu kres" where
  "popcli c =
     (if eflags_IF c then Panic ''popcli - interruptible''
      else let c = c\<lparr>ncli := ncli c - 1\<rparr>
           in if ncli c < 0 then Panic ''popcli''
              else Ok (if ncli c = 0 \<and> intena c then c\<lparr>eflags_IF := True\<rparr> else c))"

text \<open>The atomic exchange: the old value and the lock with the new one.\<close>

definition xchg :: "spinlock \<Rightarrow> bool \<Rightarrow> bool \<times> spinlock" where
  "xchg lk v = (locked lk, lk\<lparr>locked := v\<rparr>)"

text \<open>\<open>acquire\<close> on CPU \<open>i\<close>; \<open>Sleeps\<close> stands for spinning on a lock another CPU holds.\<close>

definition acquire :: "nat \<Rightarrow> spinlock \<Rightarrow> cpu \<Rightarrow> (spinlock \<times> cpu) kres" where
  "acquire i lk c =
     (let c = pushcli c
      in if holding lk i then Panic ''acquire''
         else let (old, lk) = xchg lk True
              in if old then Sleeps else Ok (lk\<lparr>lk_cpu := Some i\<rparr>, c))"

definition release :: "nat \<Rightarrow> spinlock \<Rightarrow> cpu \<Rightarrow> (spinlock \<times> cpu) kres" where
  "release i lk c =
     (if \<not> holding lk i then Panic ''release''
      else let lk = lk\<lparr>lk_cpu := None\<rparr>;
               lk = snd (xchg lk False)
           in kbind (popcli c) (\<lambda>c. Ok (lk, c)))"

section \<open>Nesting of pushcli and popcli\<close>

definition cli_ok :: "cpu \<Rightarrow> bool" where
  "cli_ok c \<longleftrightarrow> 0 \<le> ncli c \<and> (0 < ncli c \<longrightarrow> \<not> eflags_IF c)"

lemma cli_ok_pushcli: "cli_ok c \<Longrightarrow> cli_ok (pushcli c) \<and> 0 < ncli (pushcli c) \<and> \<not> eflags_IF (pushcli c)"
  by (auto simp: cli_ok_def pushcli_def Let_def)

lemma popcli_ok: "cli_ok c \<Longrightarrow> 0 < ncli c \<Longrightarrow> \<exists>c'. popcli c = Ok c' \<and> cli_ok c' \<and> ncli c' = ncli c - 1"
  by (auto simp: cli_ok_def popcli_def Let_def)

text \<open>
  \<open>acquire\<close> then \<open>release\<close> of a free lock never panics, keeps interrupts off in between, and
  gives back the lock and the interrupt state of the CPU as they were, at any nesting depth.
\<close>
theorem acquire_release_restores:
  assumes "cli_ok c" and "\<not> locked lk" and "lk_cpu lk = None"
  shows "\<exists>lk1 c1 c2. acquire i lk c = Ok (lk1, c1) \<and> holding lk1 i \<and> \<not> eflags_IF c1 \<and>
    release i lk1 c1 = Ok (lk, c2) \<and> ncli c2 = ncli c \<and> eflags_IF c2 = eflags_IF c \<and>
    (0 < ncli c \<longrightarrow> intena c2 = intena c)"
  using assms
  by (cases lk; cases c)
    (auto simp: acquire_def release_def pushcli_def popcli_def holding_def xchg_def cli_ok_def Let_def)

theorem acquire_release_restores_witness:
  "\<exists>lk1 c1 c2. acquire 0 \<lparr>locked = False, lk_cpu = None\<rparr> \<lparr>ncli = 0, intena = False, eflags_IF = True\<rparr> = Ok (lk1, c1) \<and>
     release 0 lk1 c1 = Ok (\<lparr>locked = False, lk_cpu = None\<rparr>, c2) \<and> eflags_IF c2"
  using acquire_release_restores [of "\<lparr>ncli = 0, intena = False, eflags_IF = True\<rparr>"
      "\<lparr>locked = False, lk_cpu = None\<rparr>" 0]
  by (auto simp: cli_ok_def)

section \<open>Several CPUs\<close>

text \<open>
  Where a CPU stands in \<open>acquire\<close> and \<open>release\<close>: before \<open>acquire\<close>; past the \<open>holding\<close>
  check and spinning; the exchange won; the owner recorded; the owner cleared; unlocked, with
  \<open>popcli\<close> still to run.
\<close>

datatype lock_pc = Outside | Spinning | Won | Inside | Leaving | Unlocked

record lock_sys =
  lk :: spinlock
  cpus :: "nat \<Rightarrow> cpu"
  pcs :: "nat \<Rightarrow> lock_pc"
  panicked :: bool

inductive lock_step :: "lock_sys \<Rightarrow> lock_sys \<Rightarrow> bool" where
  enter: "pcs s i = Outside \<Longrightarrow>
     lock_step s (s\<lparr>cpus := (cpus s)(i := pushcli (cpus s i)), pcs := (pcs s)(i := Spinning),
                    panicked := panicked s \<or> holding (lk s) i\<rparr>)"
| spin: "pcs s i = Spinning \<Longrightarrow> xchg (lk s) True = (True, l) \<Longrightarrow> lock_step s (s\<lparr>lk := l\<rparr>)"
| win: "pcs s i = Spinning \<Longrightarrow> xchg (lk s) True = (False, l) \<Longrightarrow>
     lock_step s (s\<lparr>lk := l, pcs := (pcs s)(i := Won)\<rparr>)"
| record_owner: "pcs s i = Won \<Longrightarrow>
     lock_step s (s\<lparr>lk := (lk s)\<lparr>lk_cpu := Some i\<rparr>, pcs := (pcs s)(i := Inside)\<rparr>)"
| leave: "pcs s i = Inside \<Longrightarrow>
     lock_step s (s\<lparr>lk := (lk s)\<lparr>lk_cpu := None\<rparr>, pcs := (pcs s)(i := Leaving),
                    panicked := panicked s \<or> \<not> holding (lk s) i\<rparr>)"
| unlock: "pcs s i = Leaving \<Longrightarrow> xchg (lk s) False = (old, l) \<Longrightarrow>
     lock_step s (s\<lparr>lk := l, pcs := (pcs s)(i := Unlocked)\<rparr>)"
| pop: "pcs s i = Unlocked \<Longrightarrow> popcli (cpus s i) = Ok c \<Longrightarrow>
     lock_step s (s\<lparr>cpus := (cpus s)(i := c), pcs := (pcs s)(i := Outside)\<rparr>)"
| pop_panic: "pcs s i = Unlocked \<Longrightarrow> popcli (cpus s i) = Panic e \<Longrightarrow> lock_step s (s\<lparr>panicked := True\<rparr>)"

inductive lock_reach :: "lock_sys \<Rightarrow> bool" where
  boot: "(\<And>i. cli_ok (c i)) \<Longrightarrow>
     lock_reach \<lparr>lk = initlock l, cpus = c, pcs = (\<lambda>_. Outside), panicked = False\<rparr>"
| step: "lock_reach s \<Longrightarrow> lock_step s t \<Longrightarrow> lock_reach t"

definition owner_pc :: "lock_pc \<Rightarrow> bool" where
  "owner_pc pc \<longleftrightarrow> pc \<in> {Won, Inside, Leaving}"

definition lock_inv :: "lock_sys \<Rightarrow> bool" where
  "lock_inv s \<longleftrightarrow>
     (\<forall>i j. owner_pc (pcs s i) \<longrightarrow> owner_pc (pcs s j) \<longrightarrow> i = j) \<and>
     (locked (lk s) \<longleftrightarrow> (\<exists>i. owner_pc (pcs s i))) \<and>
     (\<forall>i. lk_cpu (lk s) = Some i \<longleftrightarrow> pcs s i = Inside) \<and>
     (\<forall>i. cli_ok (cpus s i) \<and> (pcs s i \<noteq> Outside \<longrightarrow> 0 < ncli (cpus s i))) \<and>
     \<not> panicked s"

lemma owner_pc_simps [simp]:
  "owner_pc Won" "owner_pc Inside" "owner_pc Leaving"
  "\<not> owner_pc Outside" "\<not> owner_pc Spinning" "\<not> owner_pc Unlocked"
  by (simp_all add: owner_pc_def)

text \<open>A move that does not change who owns the lock keeps the first two clauses.\<close>

lemma owner_pc_same: "owner_pc x = owner_pc (f i) \<Longrightarrow> owner_pc ((f(i := x)) j) = owner_pc (f j)"
  by simp

lemma lock_inv_step: "lock_step s t \<Longrightarrow> lock_inv s \<Longrightarrow> lock_inv t"
proof (induction rule: lock_step.induct)
  case (enter s i)
  then show ?case
    using cli_ok_pushcli [of "cpus s i"] owner_pc_same [of Spinning "pcs s" i]
    by (simp add: lock_inv_def holding_def)
next
  case (spin s i l)
  then show ?case by (auto simp: lock_inv_def xchg_def)
next
  case (win s i l)
  then have "\<not> owner_pc (pcs s j)" for j by (auto simp: lock_inv_def xchg_def)
  with win show ?case by (auto simp: lock_inv_def xchg_def)
next
  case (record_owner s i)
  then have "pcs s j \<noteq> Inside" for j by (metis lock_inv_def owner_pc_simps(1,2) lock_pc.distinct(19))
  with record_owner show ?case
    using owner_pc_same [of Inside "pcs s" i] by (simp add: lock_inv_def)
next
  case (leave s i)
  then have own: "owner_pc (pcs s j) \<longleftrightarrow> j = i" for j by (metis lock_inv_def owner_pc_simps(2))
  then have "pcs s j = Inside \<longleftrightarrow> j = i" for j using leave by (metis owner_pc_simps(2))
  then have "lk_cpu (lk s) = Some i" using leave by (simp add: lock_inv_def)
  with own leave show ?case by (auto simp: lock_inv_def holding_def) metis
next
  case (unlock s i old l)
  then have "owner_pc (pcs s j) \<longleftrightarrow> j = i" for j by (metis lock_inv_def owner_pc_simps(3))
  with unlock show ?case by (auto simp: lock_inv_def xchg_def)
next
  case (pop s i c)
  then show ?case
    using popcli_ok [of "cpus s i"] owner_pc_same [of Outside "pcs s" i] by (simp add: lock_inv_def)
next
  case (pop_panic s i e)
  then show ?case using popcli_ok [of "cpus s i"] by (auto simp: lock_inv_def)
qed

lemma lock_reach_inv: "lock_reach s \<Longrightarrow> lock_inv s"
proof (induction rule: lock_reach.induct)
  case (boot c l)
  then show ?case by (simp add: lock_inv_def initlock_def)
next
  case (step s t)
  then show ?case by (blast intro: lock_inv_step)
qed

text \<open>
  C13. Mutual exclusion and interrupt safety of the spin lock on any number of CPUs: at most one
  CPU is between winning the exchange and unlocking, its interrupts are off, and no
  interleaving makes \<open>acquire\<close>, \<open>release\<close> or \<open>popcli\<close> panic.
\<close>
theorem spinlock_mutual_exclusion:
  assumes "lock_reach s"
  shows "(\<forall>i j. owner_pc (pcs s i) \<longrightarrow> owner_pc (pcs s j) \<longrightarrow> i = j) \<and>
    (\<forall>i. owner_pc (pcs s i) \<longrightarrow> locked (lk s) \<and> \<not> eflags_IF (cpus s i)) \<and> \<not> panicked s"
proof -
  from lock_reach_inv [OF assms] have inv: "lock_inv s" .
  moreover have "\<not> eflags_IF (cpus s i)" if "owner_pc (pcs s i)" for i
  proof -
    have "pcs s i \<noteq> Outside" using that by auto
    with inv show ?thesis by (auto simp: lock_inv_def cli_ok_def)
  qed
  ultimately show ?thesis unfolding lock_inv_def by blast
qed

theorem spinlock_mutual_exclusion_witness:
  "\<exists>s. lock_reach s \<and> owner_pc (pcs s 0) \<and> locked (lk s) \<and> \<not> eflags_IF (cpus s 0)"
proof -
  let ?c = "\<lparr>ncli = 0, intena = False, eflags_IF = True\<rparr>"
  let ?s0 = "\<lparr>lk = initlock \<lparr>locked = False, lk_cpu = None\<rparr>, cpus = (\<lambda>_::nat. ?c), pcs = (\<lambda>_. Outside), panicked = False\<rparr>"
  have 0: "lock_reach ?s0" by (rule lock_reach.boot) (simp add: cli_ok_def)
  let ?s1 = "?s0\<lparr>cpus := (cpus ?s0)(0 := pushcli (cpus ?s0 0)), pcs := (pcs ?s0)(0 := Spinning),
                    panicked := panicked ?s0 \<or> holding (lk ?s0) 0\<rparr>"
  have 1: "lock_reach ?s1" by (rule lock_reach.step [OF 0 lock_step.enter]) simp
  let ?s2 = "?s1\<lparr>lk := (lk ?s1)\<lparr>locked := True\<rparr>, pcs := (pcs ?s1)(0 := Won)\<rparr>"
  have 2: "lock_reach ?s2"
    by (rule lock_reach.step [OF 1 lock_step.win]) (simp_all add: xchg_def initlock_def)
  from spinlock_mutual_exclusion [OF 2] 2 show ?thesis
    by (intro exI [of _ ?s2]) (simp add: pushcli_def initlock_def)
qed

end
