(* ===== verification/Proc_Table.thy ===== *)
theory Proc_Table
  imports Spinlock
begin

text \<open>
  The process table of \<open>src/P1/xv6/xv6/kernel/proc.c\<close>: the parts of the process operations that run under
  \<open>ptable.lock\<close>, and their interleaving on any number of CPUs. A process pointer is an index of the table, \<open>None\<close> the
  null pointer. A channel is the address a process sleeps on; a process waiting for its children sleeps on
  its own entry. Memory, files and the working directory of a process are added in \<open>Process\<close>.
\<close>

section \<open>proc.h\<close>

definition NPROC :: nat where "NPROC = 64"

datatype procstate = UNUSED | EMBRYO | SLEEPING | RUNNABLE | RUNNING | ZOMBIE

datatype channel = Ch_proc nat | Ch_nread nat | Ch_nwrite nat | Ch_addr nat

record trapframe =
  tf_edi :: "32 word"
  tf_esi :: "32 word"
  tf_ebp :: "32 word"
  tf_oesp :: "32 word"
  tf_ebx :: "32 word"
  tf_edx :: "32 word"
  tf_ecx :: "32 word"
  tf_eax :: "32 word"
  tf_gs :: "16 word"
  tf_fs :: "16 word"
  tf_es :: "16 word"
  tf_ds :: "16 word"
  tf_trapno :: "32 word"
  tf_err :: "32 word"
  tf_eip :: "32 word"
  tf_cs :: "16 word"
  tf_eflags :: "32 word"
  tf_esp :: "32 word"
  tf_ss :: "16 word"

text \<open>Callee-saved registers of a kernel thread that is not running.\<close>

record swtch_context =
  ctx_edi :: "32 word"
  ctx_esi :: "32 word"
  ctx_ebx :: "32 word"
  ctx_ebp :: "32 word"
  ctx_eip :: "32 word"

definition zero_frame :: trapframe where
  "zero_frame = \<lparr>tf_edi = 0, tf_esi = 0, tf_ebp = 0, tf_oesp = 0, tf_ebx = 0, tf_edx = 0, tf_ecx = 0, tf_eax = 0, tf_gs = 0, tf_fs = 0, tf_es = 0, tf_ds = 0, tf_trapno = 0, tf_err = 0, tf_eip = 0, tf_cs = 0, tf_eflags = 0, tf_esp = 0, tf_ss = 0\<rparr>"

definition zero_context :: swtch_context where
  "zero_context = \<lparr>ctx_edi = 0, ctx_esi = 0, ctx_ebx = 0, ctx_ebp = 0, ctx_eip = 0\<rparr>"

record proc =
  p_sz :: nat
  p_pgdir :: nat
  p_kstack :: nat
  p_state :: procstate
  p_pid :: int
  p_parent :: "nat option"
  p_tf :: trapframe
  p_context :: swtch_context
  p_chan :: "channel option"
  p_killed :: bool
  p_ofile :: "nat \<Rightarrow> nat option"
  p_cwd :: "nat option"
  p_name :: "8 word list"

record ptable =
  procs :: "nat \<Rightarrow> proc"
  nextpid :: int
  initproc :: nat

definition upd_proc :: "nat \<Rightarrow> (proc \<Rightarrow> proc) \<Rightarrow> ptable \<Rightarrow> ptable" where
  "upd_proc i f t = t\<lparr>procs := (procs t)(i := f (procs t i))\<rparr>"

section \<open>Under the lock\<close>

text \<open>\<open>allocproc\<close>, up to the release of the lock: the first unused entry and the next pid.\<close>

definition alloc_slot :: "ptable \<Rightarrow> (nat \<times> ptable) option" where
  "alloc_slot t = map_option (\<lambda>i. (i, (upd_proc i (\<lambda>p. p\<lparr>p_state := EMBRYO, p_pid := nextpid t\<rparr>) t)\<lparr>nextpid := wrap32 (nextpid t + 1)\<rparr>))
     (find (\<lambda>i. p_state (procs t i) = UNUSED) [0..<NPROC])"

definition wakeup1 :: "channel option \<Rightarrow> ptable \<Rightarrow> ptable" where
  "wakeup1 ch t = t\<lparr>procs := \<lambda>i. let p = procs t i in
     if i < NPROC \<and> p_state p = SLEEPING \<and> p_chan p = ch then p\<lparr>p_state := RUNNABLE\<rparr> else p\<rparr>"

definition wakeup :: "channel \<Rightarrow> ptable \<Rightarrow> ptable" where
  "wakeup ch t = wakeup1 (Some ch) t"

text \<open>The loop of \<open>exit\<close> that passes abandoned children to the first process.\<close>

definition reparent :: "nat \<Rightarrow> nat \<Rightarrow> ptable \<Rightarrow> ptable" where
  "reparent me i t =
     (if p_parent (procs t i) = Some me then
        (let t = upd_proc i (p_parent_update (\<lambda>_. Some (initproc t))) t in
         if p_state (procs t i) = ZOMBIE then wakeup1 (Some (Ch_proc (initproc t))) t else t)
      else t)"

definition exit_table :: "nat \<Rightarrow> ptable \<Rightarrow> ptable kres" where
  "exit_table me t =
     (let t = wakeup1 (map_option Ch_proc (p_parent (procs t me))) t;
          t = fold (reparent me) [0..<NPROC] t
      in Ok (upd_proc me (p_state_update (\<lambda>_. ZOMBIE)) t))"

text \<open>The scan of \<open>wait\<close>: a dead child, or whether there is a child at all.\<close>

fun wait_scan :: "nat \<Rightarrow> ptable \<Rightarrow> nat list \<Rightarrow> bool \<Rightarrow> nat + bool" where
  "wait_scan me t [] havekids = Inr havekids"
| "wait_scan me t (i # is) havekids =
     (if p_parent (procs t i) \<noteq> Some me then wait_scan me t is havekids
      else if p_state (procs t i) = ZOMBIE then Inl i else wait_scan me t is True)"

definition clear_slot :: "nat \<Rightarrow> ptable \<Rightarrow> ptable" where
  "clear_slot i = upd_proc i (\<lambda>p. p\<lparr>p_kstack := 0, p_state := UNUSED, p_pid := 0, p_parent := None,
     p_name := (p_name p)[0 := 0], p_killed := False\<rparr>)"

text \<open>\<open>sleep\<close>, from the point where it holds \<open>ptable.lock\<close>: the current process \<open>me\<close> gives up the CPU.\<close>

definition sleep_table :: "nat \<Rightarrow> channel \<Rightarrow> ptable \<Rightarrow> ptable" where
  "sleep_table me ch = upd_proc me (\<lambda>p. p\<lparr>p_chan := Some ch, p_state := SLEEPING\<rparr>)"

definition kill :: "int \<Rightarrow> ptable \<Rightarrow> int \<times> ptable" where
  "kill pid t = (case find (\<lambda>i. p_pid (procs t i) = pid) [0..<NPROC] of
     None \<Rightarrow> (- 1, t)
   | Some i \<Rightarrow> (0, upd_proc i (\<lambda>p. let p = p\<lparr>p_killed := True\<rparr> in
        if p_state p = SLEEPING then p\<lparr>p_state := RUNNABLE\<rparr> else p) t))"

text \<open>\<open>sched\<close> checks that only \<open>ptable.lock\<close> is held and that the state was changed before it switches.\<close>

definition sched :: "nat \<Rightarrow> spinlock \<Rightarrow> cpu \<Rightarrow> procstate \<Rightarrow> unit kres" where
  "sched c l cp st =
     (if \<not> holding l c then Panic ''sched ptable.lock''
      else if ncli cp \<noteq> 1 then Panic ''sched locks''
      else if st = RUNNING then Panic ''sched running''
      else if eflags_IF cp then Panic ''sched interruptible''
      else Ok ())"

text \<open>
  The switch to a process. One that slept goes on behind \<open>sched\<close> in \<open>sleep\<close>, still under the lock, where it clears its channel; the others
  have none.
\<close>

definition run_table :: "nat \<Rightarrow> ptable \<Rightarrow> ptable" where
  "run_table i = upd_proc i (\<lambda>p. p\<lparr>p_state := RUNNING, p_chan := None\<rparr>)"

text \<open>
  One pass of \<open>scheduler\<close> over the table; \<open>run i\<close> stands for everything that happens from the switch to
  process \<open>i\<close> to the switch back.
\<close>

definition scheduler_pass :: "(nat \<Rightarrow> ptable \<Rightarrow> ptable) \<Rightarrow> ptable \<Rightarrow> nat list \<times> ptable" where
  "scheduler_pass run t = fold (\<lambda>i (ran, t).
     if p_state (procs t i) \<noteq> RUNNABLE then (ran, t)
     else (ran @ [i], run i (upd_proc i (p_state_update (\<lambda>_. RUNNING)) t))) [0..<NPROC] ([], t)"

definition yield_table :: "nat \<Rightarrow> ptable \<Rightarrow> ptable" where
  "yield_table me = upd_proc me (p_state_update (\<lambda>_. RUNNABLE))"

section \<open>Interleavings\<close>

text \<open>
  \<open>running c\<close> is the process on CPU \<open>c\<close>. A process that is inside \<open>fork\<close> between \<open>allocproc\<close> and the end owns the new entry,
  \<open>forking\<close>; it can be preempted there but does nothing else to the table. \<open>forks\<close> counts the pids handed out since start-up, which the
  kernel does not do: \<open>nextpid\<close> wraps around after \<open>2 ^ 31 - 2\<close> of them.
\<close>

record psys =
  tab :: ptable
  running :: "nat \<Rightarrow> nat option"
  forking :: "nat \<Rightarrow> nat option"
  forks :: nat

inductive pstep :: "psys \<Rightarrow> psys \<Rightarrow> bool" where
  dispatch: "running s c = None \<Longrightarrow> i < NPROC \<Longrightarrow> p_state (procs (tab s) i) = RUNNABLE \<Longrightarrow>
    pstep s (s\<lparr>tab := run_table i (tab s), running := (running s)(c := Some i)\<rparr>)"
| yield: "running s c = Some me \<Longrightarrow> pstep s (s\<lparr>tab := yield_table me (tab s), running := (running s)(c := None)\<rparr>)"
| sleep: "running s c = Some me \<Longrightarrow> forking s me = None \<Longrightarrow> (\<forall>q. ch \<noteq> Ch_proc q) \<Longrightarrow>
    pstep s (s\<lparr>tab := sleep_table me ch (tab s), running := (running s)(c := None)\<rparr>)"
| wakeup: "pstep s (s\<lparr>tab := wakeup ch (tab s)\<rparr>)"
| kill: "running s c = Some me \<Longrightarrow> forking s me = None \<Longrightarrow> pstep s (s\<lparr>tab := snd (kill pid (tab s))\<rparr>)"
| fork_alloc: "running s c = Some me \<Longrightarrow> forking s me = None \<Longrightarrow> alloc_slot (tab s) = Some (np, t) \<Longrightarrow>
    pstep s (s\<lparr>tab := t, forking := (forking s)(me := Some np), forks := forks s + 1\<rparr>)"
| fork_ok: "running s c = Some me \<Longrightarrow> forking s me = Some np \<Longrightarrow>
    pstep s (s\<lparr>tab := upd_proc np (\<lambda>p. p\<lparr>p_parent := Some me, p_state := RUNNABLE\<rparr>) (tab s), forking := (forking s)(me := None)\<rparr>)"
| fork_fail: "running s c = Some me \<Longrightarrow> forking s me = Some np \<Longrightarrow>
    pstep s (s\<lparr>tab := upd_proc np (p_state_update (\<lambda>_. UNUSED)) (tab s), forking := (forking s)(me := None)\<rparr>)"
| exit: "running s c = Some me \<Longrightarrow> forking s me = None \<Longrightarrow> me \<noteq> initproc (tab s) \<Longrightarrow> exit_table me (tab s) = Ok t \<Longrightarrow>
    pstep s (s\<lparr>tab := t, running := (running s)(c := None)\<rparr>)"
| wait_reap: "running s c = Some me \<Longrightarrow> forking s me = None \<Longrightarrow> wait_scan me (tab s) [0..<NPROC] False = Inl i \<Longrightarrow>
    pstep s (s\<lparr>tab := clear_slot i (tab s)\<rparr>)"
| wait_sleep: "running s c = Some me \<Longrightarrow> forking s me = None \<Longrightarrow> wait_scan me (tab s) [0..<NPROC] False = Inr True \<Longrightarrow>
    \<not> p_killed (procs (tab s) me) \<Longrightarrow>
    pstep s (s\<lparr>tab := sleep_table me (Ch_proc me) (tab s), running := (running s)(c := None)\<rparr>)"

text \<open>The table after \<open>userinit\<close>: the first process in the first entry, nothing else.\<close>

definition boot_table :: "ptable \<Rightarrow> bool" where
  "boot_table t \<longleftrightarrow> initproc t = 0 \<and> nextpid t = 2 \<and> p_state (procs t 0) = RUNNABLE \<and> p_pid (procs t 0) = 1 \<and> p_parent (procs t 0) = None \<and>
     (\<forall>i. 0 < i \<and> i < NPROC \<longrightarrow> p_state (procs t i) = UNUSED \<and> p_parent (procs t i) = None)"

inductive preach :: "psys \<Rightarrow> bool" where
  boot: "boot_table t \<Longrightarrow> preach \<lparr>tab = t, running = (\<lambda>_. None), forking = (\<lambda>_. None), forks = 0\<rparr>"
| step: "preach s \<Longrightarrow> pstep s s' \<Longrightarrow> preach s'"

section \<open>What the operations leave alone\<close>

lemma upd_proc_sel [simp]:
  "procs (upd_proc i f t) = (procs t)(i := f (procs t i))" "nextpid (upd_proc i f t) = nextpid t" "initproc (upd_proc i f t) = initproc t"
  by (simp_all add: upd_proc_def)

text \<open>All a wake-up does: some sleeping processes become runnable.\<close>

definition calm :: "ptable \<Rightarrow> ptable \<Rightarrow> bool" where
  "calm t t' \<longleftrightarrow> nextpid t' = nextpid t \<and> initproc t' = initproc t \<and>
     (\<forall>i. p_pid (procs t' i) = p_pid (procs t i) \<and> p_chan (procs t' i) = p_chan (procs t i) \<and>
        (p_state (procs t' i) = p_state (procs t i) \<or> p_state (procs t i) = SLEEPING \<and> p_state (procs t' i) = RUNNABLE))"

lemma calm_refl [simp]: "calm t t"
  by (simp add: calm_def)

lemma calm_trans: "calm t t' \<Longrightarrow> calm t' t'' \<Longrightarrow> calm t t''"
  unfolding calm_def by (metis procstate.distinct)

lemma calm_wakeup1 [simp]: "calm t (wakeup1 ch t)"
  by (auto simp: calm_def wakeup1_def Let_def)

lemma wakeup1_parent [simp]: "p_parent (procs (wakeup1 ch t) i) = p_parent (procs t i)"
  by (simp add: wakeup1_def Let_def)

lemma wakeup1_awake: "i < NPROC \<Longrightarrow> p_chan (procs t i) = ch \<Longrightarrow> p_state (procs (wakeup1 ch t) i) \<noteq> SLEEPING"
  by (simp add: wakeup1_def Let_def)

lemma calm_stateD:
  assumes "calm t t'"
  shows "st \<noteq> SLEEPING \<Longrightarrow> p_state (procs t i) = st \<Longrightarrow> p_state (procs t' i) = st"
    and "st \<noteq> RUNNABLE \<Longrightarrow> p_state (procs t' i) = st \<Longrightarrow> p_state (procs t i) = st"
  using assms unfolding calm_def by (metis procstate.distinct)+

lemma reparent_calm: "calm t (reparent me i t)"
proof -
  have "calm t (upd_proc i (p_parent_update (\<lambda>_. Some (initproc t))) t)" by (auto simp: calm_def)
  then show ?thesis using calm_trans [OF _ calm_wakeup1] by (auto simp: reparent_def Let_def)
qed

lemma reparent_parent:
  "p_parent (procs (reparent me i t) j) = (if j = i \<and> p_parent (procs t j) = Some me then Some (initproc t) else p_parent (procs t j))"
  by (auto simp: reparent_def Let_def)

lemma reparent_all_calm: "calm t (fold (reparent me) is t)"
proof (induction "is" arbitrary: t)
  case (Cons i "is")
  then show ?case using calm_trans [OF reparent_calm [of t me i] Cons.IH] by simp
qed simp

lemma calm_initproc: "calm t t' \<Longrightarrow> initproc t' = initproc t"
  by (simp add: calm_def)

lemma reparent_all_parent:
  "p_parent (procs (fold (reparent me) is t) j) =
     (if j \<in> set is \<and> p_parent (procs t j) = Some me then Some (initproc t) else p_parent (procs t j))"
proof (induction "is" arbitrary: t)
  case (Cons i "is")
  then show ?case using calm_initproc [OF reparent_calm [of t me i]] by (auto simp: reparent_parent)
qed simp

lemma reparent_all_awake:
  assumes "initproc t < NPROC" and "i \<in> set is" and "p_parent (procs t i) = Some me" and "p_state (procs t i) = ZOMBIE"
    and "p_chan (procs t (initproc t)) = Some (Ch_proc (initproc t))"
  shows "p_state (procs (fold (reparent me) is t) (initproc t)) \<noteq> SLEEPING"
  using assms
proof (induction "is" arbitrary: t)
  case (Cons j "is")
  let ?t = "reparent me j t"
  have c: "calm t ?t" by (rule reparent_calm)
  show ?case
  proof (cases "i = j")
    case True
    let ?u = "upd_proc j (p_parent_update (\<lambda>_. Some (initproc t))) t"
    have "p_chan (procs ?u (initproc t)) = Some (Ch_proc (initproc t))" using Cons.prems(5) by auto
    from wakeup1_awake [OF Cons.prems(1) this] have "p_state (procs ?t (initproc t)) \<noteq> SLEEPING"
      using Cons.prems True by (simp add: reparent_def Let_def)
    moreover have "calm ?t (fold (reparent me) is ?t)" by (rule reparent_all_calm)
    ultimately show ?thesis using calm_stateD(2) [of ?t _ SLEEPING] by auto
  next
    case False
    then have "i \<in> set is" "p_parent (procs ?t i) = Some me" "p_state (procs ?t i) = ZOMBIE" "initproc ?t = initproc t"
      "p_chan (procs ?t (initproc t)) = Some (Ch_proc (initproc t))"
      using Cons.prems c calm_stateD(1) [OF c, of ZOMBIE] by (auto simp: reparent_parent calm_def)
    then show ?thesis using Cons.IH [of ?t] Cons.prems(1) by simp
  qed
qed simp

text \<open>What \<open>exit\<close> does to the table.\<close>

lemma exit_table_spec:
  assumes "exit_table me t = Ok t'" and "initproc t < NPROC" and "me \<noteq> initproc t" and "p_state (procs t me) = RUNNING"
  shows "\<exists>t1. calm t t1 \<and> procs t' = (procs t1)(me := (procs t1 me)\<lparr>p_state := ZOMBIE\<rparr>) \<and> nextpid t' = nextpid t \<and> initproc t' = initproc t \<and>
    p_state (procs t1 me) = RUNNING \<and>
    (\<forall>j < NPROC. p_parent (procs t1 j) = (if p_parent (procs t j) = Some me then Some (initproc t) else p_parent (procs t j))) \<and>
    (\<forall>q < NPROC. p_parent (procs t me) = Some q \<and> p_chan (procs t q) = Some (Ch_proc q) \<longrightarrow> p_state (procs t1 q) \<noteq> SLEEPING) \<and>
    ((\<exists>i < NPROC. p_parent (procs t i) = Some me \<and> p_state (procs t i) = ZOMBIE) \<and> p_chan (procs t (initproc t)) = Some (Ch_proc (initproc t)) \<longrightarrow>
       p_state (procs t1 (initproc t)) \<noteq> SLEEPING)"
proof -
  define t0 where "t0 = wakeup1 (map_option Ch_proc (p_parent (procs t me))) t"
  define t1 where "t1 = fold (reparent me) [0..<NPROC] t0"
  have c0: "calm t t0" by (simp add: t0_def)
  have c1: "calm t0 t1" unfolding t1_def by (rule reparent_all_calm)
  note c = calm_trans [OF c0 c1]
  have t': "t' = upd_proc me (p_state_update (\<lambda>_. ZOMBIE)) t1" using assms(1) by (simp add: exit_table_def Let_def t0_def t1_def)
  have par: "p_parent (procs t1 j) = (if p_parent (procs t j) = Some me then Some (initproc t) else p_parent (procs t j))" if "j < NPROC" for j
    using that c0 by (simp add: t1_def reparent_all_parent t0_def calm_def)
  have "p_state (procs t1 q) \<noteq> SLEEPING" if "q < NPROC" "p_parent (procs t me) = Some q" "p_chan (procs t q) = Some (Ch_proc q)" for q
    using wakeup1_awake [of q t "Some (Ch_proc q)"] that calm_stateD(2) [OF c1, of SLEEPING q] by (auto simp: t0_def)
  moreover have "p_state (procs t1 (initproc t)) \<noteq> SLEEPING"
    if i: "i < NPROC" "p_parent (procs t i) = Some me" "p_state (procs t i) = ZOMBIE" and ch: "p_chan (procs t (initproc t)) = Some (Ch_proc (initproc t))" for i
  proof -
    have "p_state (procs t0 i) = ZOMBIE" using calm_stateD(1) [OF c0, of ZOMBIE i] i(3) by simp
    moreover have "initproc t0 = initproc t" "p_chan (procs t0 (initproc t)) = Some (Ch_proc (initproc t))" using c0 ch by (simp_all add: calm_def)
    moreover have "p_parent (procs t0 i) = Some me" using i(2) by (simp add: t0_def)
    ultimately show ?thesis using reparent_all_awake [of t0 i "[0..<NPROC]" me] i(1) assms(2) by (simp add: t1_def)
  qed
  moreover have "p_state (procs t1 me) = RUNNING" using calm_stateD(1) [OF c, of RUNNING me] assms(4) by simp
  ultimately show ?thesis using c par t' by (intro exI [of _ t1]) (auto simp: calm_def)
qed

section \<open>The invariant\<close>

definition alive :: "procstate \<Rightarrow> bool" where
  "alive st \<longleftrightarrow> st = SLEEPING \<or> st = RUNNABLE \<or> st = RUNNING"

text \<open>The first process lives; a process is on a CPU, and on one only, exactly if it is \<open>RUNNING\<close>.\<close>

definition cpu_inv :: "psys \<Rightarrow> bool" where
  "cpu_inv s \<longleftrightarrow> initproc (tab s) < NPROC \<and> alive (p_state (procs (tab s) (initproc (tab s)))) \<and>
     (\<forall>c i. running s c = Some i \<longrightarrow> i < NPROC \<and> p_state (procs (tab s) i) = RUNNING) \<and>
     (\<forall>c c' i. running s c = Some i \<and> running s c' = Some i \<longrightarrow> c = c') \<and>
     (\<forall>i < NPROC. p_state (procs (tab s) i) = RUNNING \<longrightarrow> i \<in> ran (running s))"

text \<open>Processes have positive and different pids, as long as \<open>nextpid\<close> has not wrapped around.\<close>

definition used :: "ptable \<Rightarrow> nat set" where
  "used t = {i. i < NPROC \<and> p_state (procs t i) \<noteq> UNUSED}"

definition pid_inv :: "psys \<Rightarrow> bool" where
  "pid_inv s \<longleftrightarrow> (forks s \<le> 2147483645 \<longrightarrow> nextpid (tab s) = int (forks s) + 2 \<and>
     (\<forall>i \<in> used (tab s). 0 < p_pid (procs (tab s) i) \<and> p_pid (procs (tab s) i) < nextpid (tab s)) \<and>
     inj_on (\<lambda>i. p_pid (procs (tab s) i)) (used (tab s)))"

text \<open>Every process but the first has a living parent; an entry that is not a process yet has none.\<close>

definition live :: "ptable \<Rightarrow> nat set" where
  "live t = {i. i < NPROC \<and> alive (p_state (procs t i))}"

definition started :: "ptable \<Rightarrow> nat set" where
  "started t = {i. i < NPROC \<and> p_state (procs t i) \<noteq> UNUSED \<and> p_state (procs t i) \<noteq> EMBRYO}"

definition family_inv :: "psys \<Rightarrow> bool" where
  "family_inv s \<longleftrightarrow> p_parent (procs (tab s) (initproc (tab s))) = None \<and> (\<forall>i < NPROC. p_parent (procs (tab s) i) \<noteq> Some i) \<and>
     (\<forall>i < NPROC. i \<notin> started (tab s) \<longrightarrow> p_parent (procs (tab s) i) = None) \<and>
     (\<forall>i \<in> started (tab s) - {initproc (tab s)}. p_parent (procs (tab s) i) \<in> Some ` live (tab s))"

text \<open>A process asleep in \<open>wait\<close> has no dead child.\<close>

definition dead_child :: "ptable \<Rightarrow> nat \<Rightarrow> bool" where
  "dead_child t q \<longleftrightarrow> (\<exists>i < NPROC. p_parent (procs t i) = Some q \<and> p_state (procs t i) = ZOMBIE)"

definition wait_inv :: "psys \<Rightarrow> bool" where
  "wait_inv s \<longleftrightarrow> (\<forall>q < NPROC. \<forall>w. p_state (procs (tab s) q) = SLEEPING \<and> p_chan (procs (tab s) q) = Some (Ch_proc w) \<longrightarrow>
     w = q \<and> \<not> dead_child (tab s) q)"

text \<open>An entry is being built by exactly one process, which is running or was preempted.\<close>

definition embryos :: "ptable \<Rightarrow> nat set" where
  "embryos t = {i. i < NPROC \<and> p_state (procs t i) = EMBRYO}"

definition ready :: "ptable \<Rightarrow> nat set" where
  "ready t = {i. i < NPROC \<and> (p_state (procs t i) = RUNNING \<or> p_state (procs t i) = RUNNABLE)}"

definition fork_inv :: "psys \<Rightarrow> bool" where
  "fork_inv s \<longleftrightarrow> dom (forking s) \<subseteq> ready (tab s) \<and> ran (forking s) = embryos (tab s) \<and> inj_on (forking s) (dom (forking s))"

definition pinv :: "psys \<Rightarrow> bool" where
  "pinv s \<longleftrightarrow> cpu_inv s \<and> pid_inv s \<and> family_inv s \<and> wait_inv s \<and> fork_inv s"

lemmas pinv_defs = pinv_def cpu_inv_def pid_inv_def family_inv_def wait_inv_def fork_inv_def

lemma dead_child_cong:
  assumes "\<And>i q. i < NPROC \<Longrightarrow> p_state (procs t' i) = ZOMBIE \<and> p_parent (procs t' i) = Some q \<longleftrightarrow> p_state (procs t i) = ZOMBIE \<and> p_parent (procs t i) = Some q"
  shows "dead_child t' = dead_child t"
  using assms unfolding dead_child_def fun_eq_iff by blast

lemma alive_simps [simp]: "alive RUNNING" "alive RUNNABLE" "alive SLEEPING" "\<not> alive ZOMBIE" "\<not> alive EMBRYO" "\<not> alive UNUSED"
  by (simp_all add: alive_def)

lemma pid_inv_mono:
  assumes inv: "pid_inv s" and sub: "used (tab s') \<subseteq> used (tab s)" and n: "nextpid (tab s') = nextpid (tab s)" "forks s' = forks s"
    and pid: "\<And>i. i \<in> used (tab s') \<Longrightarrow> p_pid (procs (tab s') i) = p_pid (procs (tab s) i)"
  shows "pid_inv s'"
proof -
  have "inj_on (\<lambda>i. p_pid (procs (tab s) i)) (used (tab s'))" if "forks s \<le> 2147483645"
    using that inv sub by (auto simp: pid_inv_def intro: inj_on_subset)
  then have "inj_on (\<lambda>i. p_pid (procs (tab s') i)) (used (tab s'))" if "forks s \<le> 2147483645" using that pid by (simp cong: inj_on_cong)
  then show ?thesis using inv sub n pid by (auto simp: pid_inv_def)
qed

lemma family_inv_cong:
  assumes "family_inv s" and "live (tab s') = live (tab s)" and "started (tab s') = started (tab s)" and "initproc (tab s') = initproc (tab s)"
    and "\<And>i. p_parent (procs (tab s') i) = p_parent (procs (tab s) i)"
  shows "family_inv s'"
  using assms by (simp add: family_inv_def)

lemma pinv_boot: "boot_table t \<Longrightarrow> pinv \<lparr>tab = t, running = (\<lambda>_. None), forking = (\<lambda>_. None), forks = 0\<rparr>"
proof -
  assume b: "boot_table t"
  have st: "p_state (procs t i) = (if i = 0 then RUNNABLE else UNUSED)" "p_parent (procs t i) = None" if "i < NPROC" for i
    using that b by (cases "i = 0"; simp add: boot_table_def)+
  have pos: "0 < NPROC" by (simp add: NPROC_def)
  have us: "used t = {0}" "started t = {0}" "embryos t = {}" using st pos by (auto simp: used_def started_def embryos_def split: if_splits)
  show ?thesis using b st [OF pos] pos by (auto simp: pinv_defs boot_table_def alive_def st us split: if_splits)
qed

text \<open>Changing the state of one process that is not being built among \<open>SLEEPING\<close>, \<open>RUNNABLE\<close>, \<open>RUNNING\<close>.\<close>

lemma pinv_calm:
  assumes inv: "pinv s" and c: "calm (tab s) t" and par: "\<And>i. p_parent (procs t i) = p_parent (procs (tab s) i)"
  shows "pinv (s\<lparr>tab := t\<rparr>)"
proof -
  note st = calm_stateD [OF c]
  have e: "nextpid t = nextpid (tab s)" "initproc t = initproc (tab s)" "\<And>i. p_pid (procs t i) = p_pid (procs (tab s) i)"
    "\<And>i. p_chan (procs t i) = p_chan (procs (tab s) i)" using c by (simp_all add: calm_def)
  have u: "p_state (procs t i) = UNUSED \<longleftrightarrow> p_state (procs (tab s) i) = UNUSED" "p_state (procs t i) = EMBRYO \<longleftrightarrow> p_state (procs (tab s) i) = EMBRYO"
    "p_state (procs t i) = ZOMBIE \<longleftrightarrow> p_state (procs (tab s) i) = ZOMBIE" "p_state (procs t i) = RUNNING \<longleftrightarrow> p_state (procs (tab s) i) = RUNNING"
    "alive (p_state (procs t i)) \<longleftrightarrow> alive (p_state (procs (tab s) i))" for i
    using st [of _ i] c unfolding calm_def alive_def by (metis procstate.distinct)+
  have "cpu_inv (s\<lparr>tab := t\<rparr>)" using inv by (simp add: pinv_def cpu_inv_def e u)
  moreover have "pid_inv (s\<lparr>tab := t\<rparr>)" using inv by (rule_tac pid_inv_mono [of s]) (auto simp: pinv_def e u used_def)
  moreover have "family_inv (s\<lparr>tab := t\<rparr>)" using inv by (rule_tac family_inv_cong [of s]) (auto simp: pinv_def live_def started_def e u par)
  moreover have "wait_inv (s\<lparr>tab := t\<rparr>)" using inv st(2) [of SLEEPING] by (auto simp: pinv_def wait_inv_def dead_child_def e u par)
  moreover have "fork_inv (s\<lparr>tab := t\<rparr>)" using inv st(1) [of RUNNABLE] by (auto simp: pinv_def fork_inv_def embryos_def ready_def u)
  ultimately show ?thesis by (simp add: pinv_def)
qed

lemma pinv_kill: "pinv s \<Longrightarrow> pinv (s\<lparr>tab := snd (kill pid (tab s))\<rparr>)"
  by (rule pinv_calm) (auto simp: kill_def calm_def Let_def split: option.splits)

lemma ran_clear:
  assumes "m c = Some x" and uniq: "\<And>c'. m c' = Some x \<Longrightarrow> c' = c"
  shows "ran (m(c := None)) = ran m - {x}"
proof (intro set_eqI iffI)
  fix y assume "y \<in> ran (m(c := None))"
  then obtain c' where "m c' = Some y" "c' \<noteq> c" by (auto simp: ran_def split: if_splits)
  then show "y \<in> ran m - {x}" using uniq by (auto intro: ranI)
next
  fix y assume "y \<in> ran m - {x}"
  then obtain c' where "m c' = Some y" "y \<noteq> x" by (auto simp: ran_def)
  then have "(m(c := None)) c' = Some y" using assms(1) by auto
  then show "y \<in> ran (m(c := None))" by (rule ranI)
qed

lemma pinv_dispatch:
  assumes inv: "pinv s" and c: "running s c = None" and i: "i < NPROC" "p_state (procs (tab s) i) = RUNNABLE"
  shows "pinv (s\<lparr>tab := run_table i (tab s), running := (running s)(c := Some i)\<rparr>)"
  unfolding run_table_def
proof -
  let ?s = "s\<lparr>tab := upd_proc i (\<lambda>p. p\<lparr>p_state := RUNNING, p_chan := None\<rparr>) (tab s), running := (running s)(c := Some i)\<rparr>"
  have "cpu_inv ?s" using inv c i ran_map_upd [of "running s", OF c, of i] unfolding pinv_def cpu_inv_def alive_def by (auto split: if_splits)
  moreover have "pid_inv ?s" using inv i by (rule_tac pid_inv_mono [of s]) (auto simp: pinv_def used_def)
  moreover have "family_inv ?s" using inv i by (rule_tac family_inv_cong [of s]) (auto simp: pinv_def live_def started_def alive_def)
  moreover have "dead_child (tab ?s) = dead_child (tab s)" using i by (rule_tac dead_child_cong) auto
  then have "wait_inv ?s" using inv i unfolding pinv_def wait_inv_def by auto
  moreover have "embryos (tab ?s) = embryos (tab s)" "ready (tab ?s) = ready (tab s)" using i by (auto simp: embryos_def ready_def)
  then have "fork_inv ?s" using inv by (simp add: pinv_def fork_inv_def)
  ultimately show "pinv ?s" by (simp add: pinv_def)
qed

text \<open>A process leaves its CPU; if it goes to sleep in \<open>wait\<close>, it must not have a dead child.\<close>

lemma pinv_stop:
  assumes inv: "pinv s" and c: "running s c = Some me" and st: "p_state q = RUNNABLE \<or> p_state q = SLEEPING \<and> forking s me = None"
    and q: "p_pid q = p_pid (procs (tab s) me)" "p_parent q = p_parent (procs (tab s) me)"
    and w: "\<And>w. p_state q = SLEEPING \<Longrightarrow> p_chan q = Some (Ch_proc w) \<Longrightarrow> w = me \<and> \<not> dead_child (tab s) me"
  shows "pinv (s\<lparr>tab := upd_proc me (\<lambda>_. q) (tab s), running := (running s)(c := None)\<rparr>)" (is "pinv ?s")
proof -
  have me: "me < NPROC" "p_state (procs (tab s) me) = RUNNING" and uniq: "\<And>c'. running s c' = Some me \<Longrightarrow> c' = c"
    using inv c unfolding pinv_def cpu_inv_def by blast+
  have r: "ran (running ?s) = ran (running s) - {me}" using ran_clear [of "running s", OF c uniq] by simp
  have "cpu_inv ?s" unfolding cpu_inv_def r using inv c st me uniq unfolding pinv_def cpu_inv_def alive_def by (auto split: if_splits)
  moreover have "pid_inv ?s" using inv me q by (rule_tac pid_inv_mono [of s]) (auto simp: pinv_def used_def)
  moreover have "family_inv ?s" using inv st me q by (rule_tac family_inv_cong [of s]) (auto simp: pinv_def live_def started_def alive_def)
  moreover have "dead_child (tab ?s) = dead_child (tab s)" using st me q by (rule_tac dead_child_cong) auto
  then have "wait_inv ?s" unfolding wait_inv_def
  proof (intro allI impI)
    fix q' v assume "dead_child (tab ?s) = dead_child (tab s)" and q': "q' < NPROC"
      and sl: "p_state (procs (tab ?s) q') = SLEEPING \<and> p_chan (procs (tab ?s) q') = Some (Ch_proc v)"
    moreover have "v = q' \<and> \<not> dead_child (tab s) q'"
    proof (cases "q' = me")
      case True
      then have "p_state q = SLEEPING" "p_chan q = Some (Ch_proc v)" using sl by simp_all
      from w [OF this] show ?thesis using True by blast
    next
      case False
      then show ?thesis using inv q' sl by (simp add: pinv_def wait_inv_def)
    qed
    ultimately show "v = q' \<and> \<not> dead_child (tab ?s) q'" by simp
  qed
  moreover have "fork_inv ?s"
  proof -
    have e: "embryos (tab ?s) = embryos (tab s)" and r: "ready (tab s) - {me} \<subseteq> ready (tab ?s)" using st me by (auto simp: embryos_def ready_def)
    have m: "me \<in> ready (tab ?s) \<or> me \<notin> dom (forking s)" using st me(1) by (auto simp: ready_def)
    have d: "dom (forking s) \<subseteq> ready (tab s)" using inv by (simp add: pinv_def fork_inv_def)
    have "x \<in> ready (tab ?s)" if x: "x \<in> dom (forking s)" for x
    proof (cases "x = me")
      case False
      then have "x \<in> ready (tab s) - {me}" using d x by blast
      with r show ?thesis by (rule subsetD)
    qed (use m x in simp)
    then show ?thesis using inv e by (simp add: pinv_def fork_inv_def subset_iff)
  qed
  ultimately show ?thesis by (simp add: pinv_def)
qed

lemma upd_proc_const: "upd_proc i f t = upd_proc i (\<lambda>_. f (procs t i)) t"
  by (simp add: upd_proc_def)

lemma pinv_fork_alloc:
  assumes inv: "pinv s" and c: "running s c = Some me" and f: "forking s me = None"
    and a: "alloc_slot (tab s) = Some (np, t)"
  shows "pinv (s\<lparr>tab := t, forking := (forking s)(me := Some np), forks := forks s + 1\<rparr>)" (is "pinv ?s")
proof -
  have me: "me < NPROC" "p_state (procs (tab s) me) = RUNNING" using inv c unfolding pinv_def cpu_inv_def by blast+
  have np: "np < NPROC" "p_state (procs (tab s) np) = UNUSED"
    and t: "procs t = (procs (tab s))(np := (procs (tab s) np)\<lparr>p_state := EMBRYO, p_pid := nextpid (tab s)\<rparr>)"
      "nextpid t = wrap32 (nextpid (tab s) + 1)" "initproc t = initproc (tab s)"
    using a by (auto simp: alloc_slot_def dest: find_SomeD)
  have "cpu_inv ?s" using inv np t unfolding pinv_def cpu_inv_def alive_def by (auto split: if_splits)
  moreover have "pid_inv ?s" unfolding pid_inv_def
  proof (rule impI)
    assume "forks ?s \<le> 2147483645"
    then have n: "forks s < 2147483645" and old: "nextpid (tab s) = int (forks s) + 2"
        "\<forall>i \<in> used (tab s). 0 < p_pid (procs (tab s) i) \<and> p_pid (procs (tab s) i) < nextpid (tab s)"
        "inj_on (\<lambda>i. p_pid (procs (tab s) i)) (used (tab s))"
      using inv unfolding pinv_def pid_inv_def by auto
    then have nx: "nextpid t = nextpid (tab s) + 1" using t(2) by (simp add: wrap32_id)
    have us: "used t = insert np (used (tab s))" "np \<notin> used (tab s)" using np t(1) by (auto simp: used_def)
    have pid: "p_pid (procs t i) = (if i = np then nextpid (tab s) else p_pid (procs (tab s) i))" for i by (simp add: t(1))
    have "p_pid (procs t i) = p_pid (procs (tab s) i)" if "i \<in> used (tab s)" for i using that us(2) by (auto simp: pid)
    from inj_on_cong [of "used (tab s)", OF this] have "inj_on (\<lambda>i. p_pid (procs t i)) (used (tab s))" using old(3) by simp
    then show "nextpid (tab ?s) = int (forks ?s) + 2 \<and>
        (\<forall>i \<in> used (tab ?s). 0 < p_pid (procs (tab ?s) i) \<and> p_pid (procs (tab ?s) i) < nextpid (tab ?s)) \<and>
        inj_on (\<lambda>i. p_pid (procs (tab ?s) i)) (used (tab ?s))"
      using us old nx by (auto simp: pid)
  qed
  moreover have "family_inv ?s" using inv np t by (rule_tac family_inv_cong [of s]) (auto simp: pinv_def live_def started_def alive_def)
  moreover have "dead_child t = dead_child (tab s)" using np t(1) by (rule_tac dead_child_cong) auto
  then have "wait_inv ?s" using inv np t(1) unfolding pinv_def wait_inv_def by auto
  moreover have "fork_inv ?s"
  proof -
    have "embryos t = insert np (embryos (tab s))" "np \<notin> embryos (tab s)" "ready (tab s) \<subseteq> ready t" "me \<in> ready (tab s)"
      using np t(1) me by (auto simp: embryos_def ready_def)
    moreover have "ran ((forking s)(me \<mapsto> np)) = insert np (ran (forking s))" by (rule ran_map_upd) (rule f)
    moreover have "inj_on ((forking s)(me \<mapsto> np)) (insert me (dom (forking s)))" if "np \<notin> ran (forking s)" "inj_on (forking s) (dom (forking s))"
      using that f by (auto simp: inj_on_def ran_def)
    ultimately show ?thesis using inv by (auto simp: pinv_def fork_inv_def)
  qed
  ultimately show ?thesis by (simp add: pinv_def)
qed

lemma pinv_fork_end:
  assumes inv: "pinv s" and c: "running s c = Some me" and f: "forking s me = Some np"
    and q: "p_state q = RUNNABLE \<and> p_parent q = Some me \<or> p_state q = UNUSED \<and> p_parent q = None" "p_pid q = p_pid (procs (tab s) np)"
  shows "pinv (s\<lparr>tab := upd_proc np (\<lambda>_. q) (tab s), forking := (forking s)(me := None)\<rparr>)" (is "pinv ?s")
proof -
  have me: "me < NPROC" "p_state (procs (tab s) me) = RUNNING" using inv c unfolding pinv_def cpu_inv_def by blast+
  have np: "np < NPROC" "p_state (procs (tab s) np) = EMBRYO" and uniq: "\<And>m. forking s m = Some np \<Longrightarrow> m = me"
    using inv f ranI [of "forking s" me np] by (auto simp: pinv_def fork_inv_def embryos_def inj_on_def dom_def)
  have ni: "np \<noteq> initproc (tab s)" using inv np(2) unfolding pinv_def cpu_inv_def alive_def by auto
  have "cpu_inv ?s" using inv np q(1) ni unfolding pinv_def cpu_inv_def alive_def by (auto split: if_splits)
  moreover have "pid_inv ?s" using inv np q by (rule_tac pid_inv_mono [of s]) (auto simp: pinv_def used_def)
  moreover have "family_inv ?s"
  proof -
    let ?t = "upd_proc np (\<lambda>_. q) (tab s)"
    have b: "np \<notin> started (tab s)" "p_parent (procs (tab s) np) = None" using inv np by (auto simp: pinv_def family_inv_def started_def)
    have l: "live (tab s) \<subseteq> live ?t" "me \<in> live (tab s)" using np me by (auto simp: live_def alive_def)
    have s: "started ?t = (if p_state q = UNUSED then started (tab s) else insert np (started (tab s)))"
      using np q(1) by (auto simp: started_def)
    have "p_parent (procs ?t i) \<in> Some ` live ?t" if "i \<in> started ?t - {initproc (tab s)}" for i
    proof (cases "i = np")
      case True
      then show ?thesis using that s b(1) q(1) l by (auto split: if_splits)
    next
      case False
      then have "p_parent (procs (tab s) i) \<in> Some ` live (tab s)" using that s inv by (auto simp: pinv_def family_inv_def split: if_splits)
      then show ?thesis using False l(1) by auto
    qed
    moreover have "np \<noteq> me" using np me by auto
    ultimately show ?thesis using inv s ni q(1) b by (auto simp: pinv_def family_inv_def)
  qed
  moreover have "dead_child (tab ?s) = dead_child (tab s)" using np q(1) by (rule_tac dead_child_cong) auto
  then have "wait_inv ?s" using inv np q(1) unfolding pinv_def wait_inv_def by auto
  moreover have "fork_inv ?s"
  proof -
    have "embryos (tab ?s) = embryos (tab s) - {np}" "ready (tab s) \<subseteq> ready (tab ?s)" using np q(1) by (auto simp: embryos_def ready_def)
    moreover have "ran ((forking s)(me := None)) = ran (forking s) - {np}" by (rule ran_clear [of "forking s", OF f uniq])
    moreover have "inj_on ((forking s)(me := None)) (dom (forking s) - {me})" if "inj_on (forking s) (dom (forking s))"
      using that by (auto simp: inj_on_def)
    ultimately show ?thesis using inv by (auto simp: pinv_def fork_inv_def)
  qed
  ultimately show ?thesis by (simp add: pinv_def)
qed

lemma pinv_exit:
  assumes inv: "pinv s" and c: "running s c = Some me" and f: "forking s me = None" and ni: "me \<noteq> initproc (tab s)"
    and e: "exit_table me (tab s) = Ok t"
  shows "pinv (s\<lparr>tab := t, running := (running s)(c := None)\<rparr>)" (is "pinv ?s")
proof -
  let ?i = "initproc (tab s)"
  have me: "me < NPROC" "p_state (procs (tab s) me) = RUNNING" and uniq: "\<And>c'. running s c' = Some me \<Longrightarrow> c' = c"
    and i: "?i < NPROC" "alive (p_state (procs (tab s) ?i))" using inv c unfolding pinv_def cpu_inv_def by blast+
  from exit_table_spec [OF e i(1) ni me(2)] obtain t1 where
    c1: "calm (tab s) t1" and t: "procs t = (procs t1)(me := (procs t1 me)\<lparr>p_state := ZOMBIE\<rparr>)" "nextpid t = nextpid (tab s)" "initproc t = ?i"
    and par: "\<forall>j < NPROC. p_parent (procs t1 j) = (if p_parent (procs (tab s) j) = Some me then Some ?i else p_parent (procs (tab s) j))"
    and wp: "\<forall>q < NPROC. p_parent (procs (tab s) me) = Some q \<and> p_chan (procs (tab s) q) = Some (Ch_proc q) \<longrightarrow> p_state (procs t1 q) \<noteq> SLEEPING"
    and wi: "(\<exists>i < NPROC. p_parent (procs (tab s) i) = Some me \<and> p_state (procs (tab s) i) = ZOMBIE) \<and> p_chan (procs (tab s) ?i) = Some (Ch_proc ?i) \<longrightarrow>
       p_state (procs t1 ?i) \<noteq> SLEEPING" by blast
  note st = calm_stateD [OF c1]
  have ch: "p_chan (procs t1 i) = p_chan (procs (tab s) i)" "p_pid (procs t1 i) = p_pid (procs (tab s) i)" for i using c1 by (simp_all add: calm_def)
  have u: "p_state (procs t1 i) = UNUSED \<longleftrightarrow> p_state (procs (tab s) i) = UNUSED" "p_state (procs t1 i) = EMBRYO \<longleftrightarrow> p_state (procs (tab s) i) = EMBRYO"
    "p_state (procs t1 i) = ZOMBIE \<longleftrightarrow> p_state (procs (tab s) i) = ZOMBIE" "p_state (procs t1 i) = RUNNING \<longleftrightarrow> p_state (procs (tab s) i) = RUNNING"
    "alive (p_state (procs t1 i)) \<longleftrightarrow> alive (p_state (procs (tab s) i))" for i
    using st [of _ i] c1 unfolding calm_def alive_def by (metis procstate.distinct)+
  have r: "ran (running ?s) = ran (running s) - {me}" using ran_clear [of "running s", OF c uniq] by simp
  have "cpu_inv ?s" unfolding cpu_inv_def r using inv uniq ni i unfolding pinv_def cpu_inv_def by (auto simp: t u split: if_splits)
  moreover have "used t = used (tab s)" using me by (auto simp: used_def t u)
  then have "pid_inv ?s" using inv by (rule_tac pid_inv_mono [of s]) (auto simp: pinv_def t ch)
  moreover have "family_inv ?s"
  proof -
    have l: "live t = live (tab s) - {me}" and sd: "started t = started (tab s)" and i': "?i \<in> live t"
      using me i ni by (auto simp: live_def started_def t u)
    have pt: "p_parent (procs t j) = (if p_parent (procs (tab s) j) = Some me then Some ?i else p_parent (procs (tab s) j))" if "j < NPROC" for j
      using par that by (simp add: t(1))
    have "p_parent (procs t j) \<in> Some ` live t" if "j \<in> started (tab s) - {?i}" for j
    proof -
      have "p_parent (procs (tab s) j) \<in> Some ` live (tab s)" using that inv by (auto simp: pinv_def family_inv_def)
      moreover have "j < NPROC" using that by (auto simp: started_def)
      ultimately show ?thesis using i' by (auto simp: pt l)
    qed
    moreover have "p_parent (procs t j) = None" if "j < NPROC" "j \<notin> started (tab s)" for j
      using that inv pt [of j] by (simp add: pinv_def family_inv_def)
    moreover have "p_parent (procs t ?i) = None" using inv pt [OF i(1)] by (simp add: pinv_def family_inv_def)
    moreover have "p_parent (procs t j) \<noteq> Some j" if "j < NPROC" for j
      using that inv pt [OF that] by (auto simp: pinv_def family_inv_def)
    ultimately show ?thesis by (simp add: family_inv_def sd t(3))
  qed
  moreover have "wait_inv ?s"
    unfolding wait_inv_def
  proof (intro allI impI)
    fix q w assume q: "q < NPROC" and "p_state (procs (tab ?s) q) = SLEEPING \<and> p_chan (procs (tab ?s) q) = Some (Ch_proc w)"
    then have s1: "q \<noteq> me" "p_state (procs t1 q) = SLEEPING" "p_chan (procs (tab s) q) = Some (Ch_proc w)" by (auto simp: t(1) ch split: if_splits)
    then have "p_state (procs (tab s) q) = SLEEPING" using st(2) [of SLEEPING q] by simp
    then have w: "w = q" "\<not> dead_child (tab s) q" using inv q s1(3) by (auto simp: pinv_def wait_inv_def)
    have "\<not> dead_child t q"
    proof
      assume "dead_child t q"
      then obtain j where j: "j < NPROC" "p_parent (procs t1 j) = Some q" "j = me \<or> p_state (procs (tab s) j) = ZOMBIE"
        by (auto simp: dead_child_def t(1) u split: if_splits)
      show False
      proof (cases "p_parent (procs (tab s) j) = Some me")
        case True
        then have "q = ?i" using par j(1,2) by auto
        moreover have "j \<noteq> me" using True inv me(1) by (auto simp: pinv_def family_inv_def)
        then have "p_state (procs (tab s) j) = ZOMBIE" using j(3) by simp
        ultimately show False using wi True j(1) s1(2,3) w(1) by auto
      next
        case False
        then have pj: "p_parent (procs (tab s) j) = Some q" using par j(1,2) by auto
        show False
        proof (cases "j = me")
          case True
          then show False using wp q pj s1(2,3) w(1) by auto
        next
          case False
          then show False using j pj w(2) by (auto simp: dead_child_def)
        qed
      qed
    qed
    then show "w = q \<and> \<not> dead_child (tab ?s) q" using w(1) by simp
  qed
  moreover have "fork_inv ?s"
  proof -
    have "embryos t = embryos (tab s)" "ready (tab s) - {me} \<subseteq> ready t" using me st(1) [of RUNNABLE] by (auto simp: embryos_def ready_def t u)
    moreover have "dom (forking s) \<subseteq> ready (tab s) - {me}" using inv f by (auto simp: pinv_def fork_inv_def)
    ultimately show ?thesis using inv by (auto simp: pinv_def fork_inv_def)
  qed
  ultimately show ?thesis by (simp add: pinv_def)
qed

lemma wait_scan_Inl: "wait_scan me t is b = Inl i \<Longrightarrow> i \<in> set is \<and> p_parent (procs t i) = Some me \<and> p_state (procs t i) = ZOMBIE"
  by (induction "is" arbitrary: b) (auto split: if_splits)

lemma wait_scan_Inr: "wait_scan me t is b = Inr b' \<Longrightarrow> (\<forall>i \<in> set is. p_parent (procs t i) = Some me \<longrightarrow> p_state (procs t i) \<noteq> ZOMBIE) \<and>
    b' = (b \<or> (\<exists>i \<in> set is. p_parent (procs t i) = Some me))"
  by (induction "is" arbitrary: b) (auto split: if_splits)

lemma pinv_reap:
  assumes inv: "pinv s" and i: "i < NPROC" "p_state (procs (tab s) i) = ZOMBIE"
  shows "pinv (s\<lparr>tab := clear_slot i (tab s)\<rparr>)"
  unfolding clear_slot_def
proof -
  let ?s = "s\<lparr>tab := upd_proc i (\<lambda>p. p\<lparr>p_kstack := 0, p_state := UNUSED, p_pid := 0, p_parent := None,
     p_name := (p_name p)[0 := 0], p_killed := False\<rparr>) (tab s)\<rparr>"
  have "cpu_inv ?s" using inv i unfolding pinv_def cpu_inv_def by (auto split: if_splits)
  moreover have "pid_inv ?s" using inv i by (rule_tac pid_inv_mono [of s]) (auto simp: pinv_def used_def)
  moreover have "family_inv ?s"
  proof -
    have "live (tab ?s) = live (tab s)" "started (tab ?s) = started (tab s) - {i}" using i by (auto simp: live_def started_def)
    then show ?thesis using inv by (auto simp: pinv_def family_inv_def)
  qed
  moreover have "dead_child (tab s) q" if "dead_child (tab ?s) q" for q using that by (auto simp: dead_child_def split: if_splits)
  then have "wait_inv ?s" using inv i unfolding pinv_def wait_inv_def by (auto split: if_splits)
  moreover have "embryos (tab ?s) = embryos (tab s)" "ready (tab ?s) = ready (tab s)" using i by (auto simp: embryos_def ready_def)
  then have "fork_inv ?s" using inv by (simp add: pinv_def fork_inv_def)
  ultimately show "pinv ?s" by (simp add: pinv_def)
qed

lemma pinv_step: "pstep s s' \<Longrightarrow> pinv s \<Longrightarrow> pinv s'"
proof (induction rule: pstep.induct)
  case (dispatch s c i)
  then show ?case by (simp add: pinv_dispatch)
next
  case (yield s c me)
  then show ?case unfolding yield_table_def by (subst upd_proc_const, intro pinv_stop) auto
next
  case (sleep s c me ch)
  then show ?case unfolding sleep_table_def by (subst upd_proc_const, intro pinv_stop) auto
next
  case (wakeup s ch)
  then show ?case unfolding wakeup_def by (intro pinv_calm) auto
next
  case (fork_alloc s c me np t)
  then show ?case by (intro pinv_fork_alloc)
next
  case (fork_ok s c me np)
  then show ?case by (subst upd_proc_const, intro pinv_fork_end) auto
next
  case (fork_fail s c me np)
  then have "np \<in> embryos (tab s)" using ranI [of "forking s" me np] by (auto simp: pinv_def fork_inv_def)
  then have "p_parent (procs (tab s) np) = None" using fork_fail by (simp add: pinv_def family_inv_def embryos_def started_def)
  with fork_fail show ?case by (subst upd_proc_const, intro pinv_fork_end) auto
next
  case (exit s c me t)
  then show ?case by (simp add: pinv_exit)
next
  case (wait_reap s c me i)
  then show ?case using wait_scan_Inl [OF wait_reap(3)] by (simp add: pinv_reap)
next
  case (wait_sleep s c me)
  then have "\<not> dead_child (tab s) me" using wait_scan_Inr [OF wait_sleep(3)] by (auto simp: dead_child_def)
  with wait_sleep show ?case unfolding sleep_table_def by (subst upd_proc_const, intro pinv_stop) auto
qed (rule pinv_kill)

lemma pinv_reach: "preach s \<Longrightarrow> pinv s"
  by (induction rule: preach.induct) (auto intro: pinv_boot pinv_step)

section \<open>A run\<close>

text \<open>The first process forks, its child runs and exits, the first process waits.\<close>

definition run_blank :: proc where
  "run_blank = \<lparr>p_sz = 0, p_pgdir = 0, p_kstack = 0, p_state = UNUSED, p_pid = 0, p_parent = None,
     p_tf = zero_frame, p_context = zero_context, p_chan = None, p_killed = False, p_ofile = (\<lambda>_. None), p_cwd = None, p_name = []\<rparr>"

definition run_boot :: psys where
  "run_boot = \<lparr>tab = \<lparr>procs = \<lambda>i. if i = 0 then run_blank\<lparr>p_state := RUNNABLE, p_pid := 1\<rparr> else run_blank, nextpid = 2, initproc = 0\<rparr>,
     running = (\<lambda>_. None), forking = (\<lambda>_. None), forks = 0\<rparr>"

definition run_first :: psys where
  "run_first = run_boot\<lparr>tab := run_table 0 (tab run_boot), running := [0 \<mapsto> 0]\<rparr>"

definition run_fork :: psys where
  "run_fork = run_first\<lparr>tab := snd (the (alloc_slot (tab run_first))), forking := [0 \<mapsto> 1], forks := 1\<rparr>"

definition run_forked :: psys where
  "run_forked = run_fork\<lparr>tab := upd_proc 1 (\<lambda>p. p\<lparr>p_parent := Some 0, p_state := RUNNABLE\<rparr>) (tab run_fork), forking := (\<lambda>_. None)\<rparr>"

definition run_child :: psys where
  "run_child = run_forked\<lparr>tab := run_table 1 (tab run_forked), running := [0 \<mapsto> 0, 1 \<mapsto> 1]\<rparr>"

definition run_waiting :: psys where
  "run_waiting = run_child\<lparr>tab := sleep_table 0 (Ch_proc 0) (tab run_child), running := [1 \<mapsto> 1]\<rparr>"

definition run_exited :: psys where
  "run_exited = run_waiting\<lparr>tab := (case exit_table 1 (tab run_waiting) of Ok t \<Rightarrow> t), running := (\<lambda>_. None)\<rparr>"

lemma run_boot_reach: "preach run_boot"
  unfolding run_boot_def by (rule preach.boot) (simp add: boot_table_def run_blank_def)

lemma run_first_reach: "preach run_first"
  using preach.step [OF run_boot_reach pstep.dispatch [of run_boot 0 0]]
  by (simp add: run_first_def run_boot_def run_blank_def NPROC_def)

lemma run_alloc: "alloc_slot (tab run_first) = Some (1, (upd_proc 1 (\<lambda>p. p\<lparr>p_state := EMBRYO, p_pid := 2\<rparr>) (tab run_first))\<lparr>nextpid := 3\<rparr>)"
  by (simp add: alloc_slot_def run_first_def run_boot_def run_table_def run_blank_def NPROC_def upt_conv_Cons wrap32_id)

lemma run_fork_reach: "preach run_fork"
  using preach.step [OF run_first_reach pstep.fork_alloc [of run_first 0 0, OF _ _ run_alloc]]
  by (simp add: run_fork_def run_alloc) (simp add: run_first_def run_boot_def run_table_def)

lemma run_forked_reach: "preach run_forked"
  using preach.step [OF run_fork_reach pstep.fork_ok [of run_fork 0 0 1]]
  by (simp add: run_forked_def run_fork_def run_first_def)

lemma run_child_reach: "preach run_child"
  using preach.step [OF run_forked_reach pstep.dispatch [of run_forked 1 1]]
  by (simp add: run_child_def run_forked_def) (simp add: run_fork_def run_first_def NPROC_def)

lemma run_child_state: "p_state (procs (tab run_child) 0) = RUNNING" "p_state (procs (tab run_child) 1) = RUNNING"
  "p_parent (procs (tab run_child) 0) = None" "p_parent (procs (tab run_child) 1) = Some 0" "\<not> p_killed (procs (tab run_child) 0)" "initproc (tab run_child) = 0"
  "\<And>i. 1 < i \<Longrightarrow> p_state (procs (tab run_child) i) = UNUSED \<and> p_parent (procs (tab run_child) i) = None"
  unfolding run_child_def run_forked_def run_fork_def run_alloc
  by (simp_all add: run_first_def run_boot_def run_table_def run_blank_def)

lemma run_wait_scan: "wait_scan 0 (tab run_child) [0..<NPROC] False = Inr True"
proof -
  have "wait_scan 0 (tab run_child) (0 # 1 # [2..<NPROC]) False = Inr True"
    using wait_scan_Inl [of 0 "tab run_child" "[2..<NPROC]" True] wait_scan_Inr [of 0 "tab run_child" "[2..<NPROC]" True]
    by (cases "wait_scan 0 (tab run_child) [2..<NPROC] True") (auto simp: run_child_state simp del: One_nat_def)
  moreover have "[0..<NPROC] = 0 # 1 # [2..<NPROC]" using upt_conv_Cons [of 0 NPROC] upt_conv_Cons [of 1 NPROC] unfolding NPROC_def numeral_2_eq_2 by simp
  ultimately show ?thesis by simp
qed

lemma run_waiting_reach: "preach run_waiting"
proof -
  have "(running run_child)(0 := None) = [1 \<mapsto> 1]" by (auto simp: run_child_def)
  with preach.step [OF run_child_reach pstep.wait_sleep [of run_child 0 0, OF _ _ run_wait_scan]] run_child_state
  show ?thesis by (simp add: run_waiting_def) (simp add: run_child_def run_forked_def)
qed

lemma run_exited_reach: "preach run_exited"
proof -
  have i: "1 \<noteq> initproc (tab run_waiting)" by (simp add: run_waiting_def sleep_table_def run_child_state)
  obtain t where t: "exit_table 1 (tab run_waiting) = Ok t" by (simp add: exit_table_def Let_def)
  have "(running run_waiting)(1 := None) = (\<lambda>_. None)" "running run_waiting 1 = Some 1" "forking run_waiting 1 = None"
    by (auto simp: run_waiting_def run_child_def run_forked_def)
  with preach.step [OF run_waiting_reach pstep.exit [of run_waiting 1 1, OF _ _ i t]]
  show ?thesis by (simp add: run_exited_def t del: One_nat_def)
qed

lemma run_exited_zombie: "p_state (procs (tab run_exited) 1) = ZOMBIE"
  by (simp add: run_exited_def exit_table_def Let_def)

section \<open>Properties\<close>

text \<open>
  C23. In every reachable state, on any number of CPUs: no process runs on two CPUs at once; as long as no more than \<open>2 ^ 31 - 3\<close> pids have been handed out since
  start-up (the next one wraps \<open>nextpid\<close>), the processes have positive and pairwise different pids; the first process never dies, and every other process that has started has a parent that is alive.
\<close>

theorem process_table_invariant:
  assumes "preach s"
  shows "(\<forall>c c' i. running s c = Some i \<and> running s c' = Some i \<longrightarrow> c = c' \<and> p_state (procs (tab s) i) = RUNNING) \<and>
    (\<forall>i < NPROC. p_state (procs (tab s) i) = RUNNING \<longrightarrow> (\<exists>c. running s c = Some i)) \<and>
    (forks s \<le> 2147483645 \<longrightarrow> (\<forall>i j. i < NPROC \<and> j < NPROC \<and> p_state (procs (tab s) i) \<noteq> UNUSED \<and> p_state (procs (tab s) j) \<noteq> UNUSED \<and>
       p_pid (procs (tab s) i) = p_pid (procs (tab s) j) \<longrightarrow> i = j \<and> 0 < p_pid (procs (tab s) i))) \<and>
    alive (p_state (procs (tab s) (initproc (tab s)))) \<and>
    (\<forall>i < NPROC. i \<noteq> initproc (tab s) \<and> p_state (procs (tab s) i) \<notin> {UNUSED, EMBRYO} \<longrightarrow>
       (\<exists>q < NPROC. p_parent (procs (tab s) i) = Some q \<and> alive (p_state (procs (tab s) q))))"
proof -
  have c: "cpu_inv s" and p: "pid_inv s" and f: "family_inv s" using pinv_reach [OF assms] by (simp_all add: pinv_def)
  have "i = j \<and> 0 < p_pid (procs (tab s) i)" if "i \<in> used (tab s)" "j \<in> used (tab s)" "p_pid (procs (tab s) i) = p_pid (procs (tab s) j)" "forks s \<le> 2147483645" for i j
    using p that inj_onD [of "\<lambda>i. p_pid (procs (tab s) i)" "used (tab s)" i j] by (simp add: pid_inv_def)
  moreover have "\<exists>q < NPROC. p_parent (procs (tab s) i) = Some q \<and> alive (p_state (procs (tab s) q))"
    if "i < NPROC" "i \<noteq> initproc (tab s)" "p_state (procs (tab s) i) \<notin> {UNUSED, EMBRYO}" for i
  proof -
    have "p_parent (procs (tab s) i) \<in> Some ` live (tab s)" using that f by (simp add: family_inv_def started_def)
    then show ?thesis by (auto simp: live_def)
  qed
  ultimately show ?thesis using c by (simp add: cpu_inv_def used_def ran_def) blast
qed

theorem process_table_invariant_witness:
  "(\<exists>q < NPROC. p_parent (procs (tab run_exited) 1) = Some q \<and> alive (p_state (procs (tab run_exited) q)))"
proof -
  have "1 < NPROC" "1 \<noteq> initproc (tab run_exited)" by (simp_all add: NPROC_def run_exited_def exit_table_def Let_def run_waiting_def sleep_table_def run_child_state
    calm_initproc [OF reparent_all_calm] calm_initproc [OF calm_wakeup1])
  with process_table_invariant [OF run_exited_reach] run_exited_zombie show ?thesis by simp
qed

text \<open>
  C16. No wake-up is lost between \<open>exit\<close> and \<open>wait\<close>. In every reachable state, a process that has exited has a living parent that is not asleep in
  \<open>wait\<close>, and if that parent calls \<open>wait\<close> now it finds a dead child at once. It does not matter how the exit, the reparenting of orphans
  and the waiting were interleaved.
\<close>

theorem zombie_is_collectable:
  assumes "preach s" and "i < NPROC" and "p_state (procs (tab s) i) = ZOMBIE"
  shows "\<exists>q j. q < NPROC \<and> p_parent (procs (tab s) i) = Some q \<and> alive (p_state (procs (tab s) q)) \<and>
    \<not> (p_state (procs (tab s) q) = SLEEPING \<and> p_chan (procs (tab s) q) = Some (Ch_proc q)) \<and>
    wait_scan q (tab s) [0..<NPROC] False = Inl j"
proof -
  have inv: "pinv s" by (rule pinv_reach) (rule assms(1))
  then have "i \<noteq> initproc (tab s)" using assms(3) by (auto simp: pinv_def cpu_inv_def)
  then have "p_parent (procs (tab s) i) \<in> Some ` live (tab s)" using inv assms(2,3) by (simp add: pinv_def family_inv_def started_def)
  then obtain q where q: "q < NPROC" "p_parent (procs (tab s) i) = Some q" "alive (p_state (procs (tab s) q))" by (auto simp: live_def)
  have d: "dead_child (tab s) q" using assms(2,3) q(2) by (auto simp: dead_child_def)
  then have "\<not> (p_state (procs (tab s) q) = SLEEPING \<and> p_chan (procs (tab s) q) = Some (Ch_proc q))"
    using inv q(1) by (auto simp: pinv_def wait_inv_def)
  moreover obtain j where "wait_scan q (tab s) [0..<NPROC] False = Inl j"
    using wait_scan_Inr [of q "tab s" "[0..<NPROC]" False] assms(2,3) q(2) by (cases "wait_scan q (tab s) [0..<NPROC] False") auto
  ultimately show ?thesis using q by blast
qed

theorem zombie_is_collectable_witness:
  "\<exists>q j. q < NPROC \<and> p_parent (procs (tab run_exited) 1) = Some q \<and> wait_scan q (tab run_exited) [0..<NPROC] False = Inl j"
proof -
  have "1 < NPROC" by (simp add: NPROC_def)
  from zombie_is_collectable [OF run_exited_reach this run_exited_zombie] show ?thesis by blast
qed

text \<open>
  \<open>kill\<close> does not look at the state of the entry it finds. \<open>kill(0)\<close> matches a free entry, returns 0 as if a process had been killed, and marks the
  entry; neither \<open>allocproc\<close> nor \<open>fork\<close> resets the mark, so the next process that gets this entry is already killed when it starts.
\<close>

theorem kill_marks_free_entry:
  assumes "preach s" and "i < NPROC" and "p_state (procs (tab s) i) = UNUSED" and "p_pid (procs (tab s) i) = 0"
    and "\<forall>j < i. p_state (procs (tab s) j) \<noteq> UNUSED" and "forks s \<le> 2147483645"
  shows "\<exists>t t'. kill 0 (tab s) = (0, t) \<and> alloc_slot t = Some (i, t') \<and> p_state (procs t' i) = EMBRYO \<and> p_killed (procs t' i)"
proof -
  have inv: "pinv s" by (rule pinv_reach) (rule assms(1))
  have up: "[0..<NPROC] = [0..<i] @ i # [Suc i..<NPROC]" using assms(2) upt_add_eq_append [of 0 i "NPROC - i"] by (simp add: upt_conv_Cons)
  have "p_pid (procs (tab s) j) \<noteq> 0" if "j < i" for j 
  proof -
    have "j \<in> used (tab s)" using that assms(2,5) by (simp add: used_def)
    then have "0 < p_pid (procs (tab s) j)" using inv assms(6) by (simp add: pinv_def pid_inv_def)
    then show ?thesis by simp
  qed
  then have f: "find (\<lambda>j. p_pid (procs (tab s) j) = 0) [0..<i] = None" by (auto simp: find_None_iff)
  then have k: "find (\<lambda>j. p_pid (procs (tab s) j) = 0) [0..<NPROC] = Some i" using assms(4) by (simp add: up find_append)
  let ?t = "snd (kill 0 (tab s))"
  have t: "kill 0 (tab s) = (0, upd_proc i (p_killed_update (\<lambda>_. True)) (tab s))" using assms(3) by (simp add: kill_def k upd_proc_def)
  have "find (\<lambda>j. p_state (procs ?t j) = UNUSED) [0..<i] = None" using assms(5) by (auto simp: find_None_iff t)
  then have "find (\<lambda>j. p_state (procs ?t j) = UNUSED) [0..<NPROC] = Some i" using assms(3) by (simp add: up find_append t)
  then show ?thesis using t by (simp add: alloc_slot_def)
qed

theorem kill_marks_free_entry_witness:
  "\<exists>t t'. kill 0 (tab run_first) = (0, t) \<and> alloc_slot t = Some (1, t') \<and> p_state (procs t' 1) = EMBRYO \<and> p_killed (procs t' 1)"
  by (rule kill_marks_free_entry [OF run_first_reach])
    (auto simp: run_first_def run_boot_def run_table_def run_blank_def NPROC_def)

end
