(* ===== verification/Bcache.thy ===== *)
theory Bcache
  imports Prelude
begin

text \<open>
  The buffer cache, \<open>src/P1/xv6/xv6/kernel/bio.c\<close>, over the IDE driver, \<open>ide.c\<close>. Buffers are the
  cells 0 to \<open>NBUF - 1\<close> of an array and cell \<open>NBUF\<close> is the list head; \<open>prev\<close>, \<open>next\<close> and \<open>qnext\<close>
  are array indices, the flag bits are booleans. The drive is its sectors and the set of sectors
  that report an error. \<open>iderw\<close> queues a request and takes interrupts until the buffer is done
  (the theory \<open>Disk_Wait\<close> lets other processes run in between).
  The first part is the code, the second the LRU list and the disk queue, the third the
  interface \<open>block_cache\<close> file-system code relies on and its interpretation on this code.
\<close>

definition NBUF :: nat where "NBUF = 10"
definition BSIZE :: nat where "BSIZE = 512"

lemma NBUF_gt [simp]: "0 < NBUF" "Suc 0 < NBUF"
  by (simp_all add: NBUF_def)

record buf =
  b_busy :: bool
  b_valid :: bool
  b_dirty :: bool
  b_dev :: nat
  b_sector :: nat
  b_prev :: nat
  b_next :: nat
  b_qnext :: "nat option"
  b_data :: "8 word list"

record bcache =
  bufs :: "nat \<Rightarrow> buf"
  idequeue :: "nat option"
  havedisk1 :: bool
  sectors :: "nat \<times> nat \<Rightarrow> 8 word list"
  bad_sectors :: "(nat \<times> nat) set"

definition upd_buf :: "nat \<Rightarrow> (buf \<Rightarrow> buf) \<Rightarrow> 'a bcache_scheme \<Rightarrow> 'a bcache_scheme" where
  "upd_buf b f s = s\<lparr>bufs := (bufs s)(b := f (bufs s b))\<rparr>"

section \<open>The IDE driver\<close>

text \<open>
  The bytes \<open>idestart\<close> writes to the address ports 0x1f3 to 0x1f6, and the drive and sector the
  controller reads from them: bit 4 of the last one selects the drive, its low four bits are the
  top of the 28-bit sector number.
\<close>

definition ide_ports :: "buf \<Rightarrow> nat list" where
  "ide_ports b = [b_sector b mod 256, (b_sector b div 2 ^ 8) mod 256, (b_sector b div 2 ^ 16) mod 256,
     0xe0 + (b_dev b mod 2) * 2 ^ 4 + (b_sector b div 2 ^ 24) mod 16]"

fun drive_addr :: "nat list \<Rightarrow> nat \<times> nat" where
  "drive_addr [p3, p4, p5, p6] = (p6 div 2 ^ 4 mod 2, p3 + p4 * 2 ^ 8 + p5 * 2 ^ 16 + (p6 mod 16) * 2 ^ 24)"
| "drive_addr _ = (0, 0)"

definition idestart :: "nat \<Rightarrow> 'a bcache_scheme \<Rightarrow> 'a bcache_scheme" where
  "idestart b s =
     (if b_dirty (bufs s b)
      then s\<lparr>sectors := (sectors s)(drive_addr (ide_ports (bufs s b)) := b_data (bufs s b))\<rparr>
      else s)"

definition ideintr :: "'a bcache_scheme \<Rightarrow> 'a bcache_scheme" where
  "ideintr s = (case idequeue s of None \<Rightarrow> s | Some b \<Rightarrow>
     let s1 = s\<lparr>idequeue := b_qnext (bufs s b)\<rparr>;
         a = drive_addr (ide_ports (bufs s1 b));
         s2 = (if \<not> b_dirty (bufs s1 b) \<and> a \<notin> bad_sectors s1 then upd_buf b (b_data_update (\<lambda>_. sectors s1 a)) s1 else s1);
         s3 = upd_buf b (\<lambda>bf. bf\<lparr>b_valid := True, b_dirty := False\<rparr>) s2
     in (case idequeue s3 of None \<Rightarrow> s3 | Some b' \<Rightarrow> idestart b' s3))"

text \<open>The walk \<open>for(pp=&idequeue; *pp; pp=&(*pp)->qnext)\<close> from a queued buffer to the last one.\<close>

partial_function (option) queue_last :: "(nat \<Rightarrow> buf) \<Rightarrow> nat \<Rightarrow> nat option" where
  "queue_last bs p = (case b_qnext (bs p) of None \<Rightarrow> Some p | Some q \<Rightarrow> queue_last bs q)"

definition ide_submit :: "nat \<Rightarrow> 'a bcache_scheme \<Rightarrow> 'a bcache_scheme kres" where
  "ide_submit b s =
     (let s1 = upd_buf b (b_qnext_update (\<lambda>_. None)) s
      in case idequeue s1 of
           None \<Rightarrow> Ok (idestart b (s1\<lparr>idequeue := Some b\<rparr>))
         | Some p \<Rightarrow> (case queue_last (bufs s1) p of
             None \<Rightarrow> Loops
           | Some l \<Rightarrow>
               let s2 = upd_buf l (b_qnext_update (\<lambda>_. Some b)) s1
               in Ok (if p = b then idestart b s2 else s2)))"

text \<open>\<open>iderw\<close> up to its sleep: the guards, and the request queued under the driver's lock.\<close>

definition iderw_start :: "nat \<Rightarrow> 'a bcache_scheme \<Rightarrow> 'a bcache_scheme kres" where
  "iderw_start b s =
     (if \<not> b_busy (bufs s b) then Panic ''iderw: buf not busy''
      else if b_valid (bufs s b) \<and> \<not> b_dirty (bufs s b) then Panic ''iderw: nothing to do''
      else if b_dev (bufs s b) \<noteq> 0 \<and> \<not> havedisk1 s then Panic ''iderw: ide disk 1 not present''
      else ide_submit b s)"

text \<open>
  The sleep loop of a process that runs alone: each round is one disk interrupt. With no request
  left no interrupt comes and the process sleeps for ever. The theory \<open>Disk_Wait\<close> cuts the
  operations at this sleep and lets other processes run there.
\<close>

partial_function (option) iderw_wait :: "nat \<Rightarrow> 'a bcache_scheme \<Rightarrow> 'a bcache_scheme kres option" where
  "iderw_wait b s =
     (if b_valid (bufs s b) \<and> \<not> b_dirty (bufs s b) then Some (Ok s)
      else if idequeue s = None then Some Sleeps
      else iderw_wait b (ideintr s))"

definition iderw :: "nat \<Rightarrow> 'a bcache_scheme \<Rightarrow> 'a bcache_scheme kres" where
  "iderw b s = kbind (iderw_start b s) (\<lambda>s. case iderw_wait b s of None \<Rightarrow> Loops | Some r \<Rightarrow> r)"

section \<open>The cache\<close>

definition list_push :: "nat \<Rightarrow> (nat \<Rightarrow> buf) \<Rightarrow> nat \<Rightarrow> buf" where
  "list_push b bs =
     (let bs1 = bs(b := (bs b)\<lparr>b_next := b_next (bs NBUF), b_prev := NBUF\<rparr>);
          n = b_next (bs1 NBUF);
          bs2 = bs1(n := (bs1 n)\<lparr>b_prev := b\<rparr>)
      in bs2(NBUF := (bs2 NBUF)\<lparr>b_next := b\<rparr>))"

definition list_unlink :: "nat \<Rightarrow> (nat \<Rightarrow> buf) \<Rightarrow> nat \<Rightarrow> buf" where
  "list_unlink b bs =
     (let n = b_next (bs b);
          bs1 = bs(n := (bs n)\<lparr>b_prev := b_prev (bs b)\<rparr>);
          p = b_prev (bs1 b)
      in bs1(p := (bs1 p)\<lparr>b_next := b_next (bs1 b)\<rparr>))"

definition no_dev :: nat where "no_dev = 4294967295"

definition binit :: "'a bcache_scheme \<Rightarrow> 'a bcache_scheme" where
  "binit s =
     (let bs0 = (bufs s)(NBUF := (bufs s NBUF)\<lparr>b_prev := NBUF, b_next := NBUF\<rparr>)
      in s\<lparr>bufs := fold (\<lambda>b bs. list_push b (bs(b := (bs b)\<lparr>b_dev := no_dev\<rparr>))) [0..<NBUF] bs0\<rparr>)"

partial_function (option) bget_cached :: "(nat \<Rightarrow> buf) \<Rightarrow> nat \<Rightarrow> nat \<Rightarrow> nat \<Rightarrow> nat option option" where
  "bget_cached bs dev sector b =
     (if b = NBUF then Some None
      else if b_dev (bs b) = dev \<and> b_sector (bs b) = sector then Some (Some b)
      else bget_cached bs dev sector (b_next (bs b)))"

partial_function (option) bget_free :: "(nat \<Rightarrow> buf) \<Rightarrow> nat \<Rightarrow> nat option option" where
  "bget_free bs b =
     (if b = NBUF then Some None
      else if \<not> b_busy (bs b) then Some (Some b)
      else bget_free bs (b_prev (bs b)))"

definition bget :: "nat \<Rightarrow> nat \<Rightarrow> 'a bcache_scheme \<Rightarrow> (nat \<times> 'a bcache_scheme) kres" where
  "bget dev sector s = (case bget_cached (bufs s) dev sector (b_next (bufs s NBUF)) of
     None \<Rightarrow> Loops
   | Some (Some b) \<Rightarrow>
       if b_busy (bufs s b) then Sleeps else Ok (b, upd_buf b (b_busy_update (\<lambda>_. True)) s)
   | Some None \<Rightarrow> (case bget_free (bufs s) (b_prev (bufs s NBUF)) of
       None \<Rightarrow> Loops
     | Some None \<Rightarrow> Panic ''bget: no buffers''
     | Some (Some b) \<Rightarrow>
         Ok (b, upd_buf b (\<lambda>bf. bf\<lparr>b_dev := dev, b_sector := sector, b_busy := True, b_valid := False, b_dirty := False\<rparr>) s)))"

definition bread :: "nat \<Rightarrow> nat \<Rightarrow> 'a bcache_scheme \<Rightarrow> (nat \<times> 'a bcache_scheme) kres" where
  "bread dev sector s = kbind (bget dev sector s) (\<lambda>(b, s).
     if \<not> b_valid (bufs s b) then kbind (iderw b s) (\<lambda>s. Ok (b, s)) else Ok (b, s))"

definition bwrite :: "nat \<Rightarrow> 'a bcache_scheme \<Rightarrow> 'a bcache_scheme kres" where
  "bwrite b s =
     (if \<not> b_busy (bufs s b) then Panic ''bwrite''
      else iderw b (upd_buf b (b_dirty_update (\<lambda>_. True)) s))"

definition brelse :: "nat \<Rightarrow> 'a bcache_scheme \<Rightarrow> 'a bcache_scheme kres" where
  "brelse b s =
     (if \<not> b_busy (bufs s b) then Panic ''brelse''
      else Ok (upd_buf b (b_busy_update (\<lambda>_. False)) (s\<lparr>bufs := list_push b (list_unlink b (bufs s))\<rparr>)))"

text \<open>Client code reads and writes \<open>b->data\<close> directly.\<close>

definition buf_data :: "'a bcache_scheme \<Rightarrow> nat \<Rightarrow> 8 word list" where
  "buf_data s b = b_data (bufs s b)"

definition set_data :: "nat \<Rightarrow> 8 word list \<Rightarrow> 'a bcache_scheme \<Rightarrow> 'a bcache_scheme" where
  "set_data b d s = upd_buf b (b_data_update (\<lambda>_. d)) s"

section \<open>The disk queue\<close>

abbreviation addr :: "buf \<Rightarrow> nat \<times> nat" where
  "addr b \<equiv> drive_addr (ide_ports b)"

lemma drive_addr_ports: "addr b = (b_dev b mod 2, b_sector b mod 2 ^ 28)"
proof -
  let ?n = "b_sector b"
  have 1: "?n mod 2 ^ 28 = ?n mod 2 ^ 24 + 2 ^ 24 * (?n div 2 ^ 24 mod 16)"
    using mod_mult2_eq [of ?n "2 ^ 24" 16] by simp
  have 2: "?n mod 2 ^ 24 = ?n mod 2 ^ 16 + 2 ^ 16 * (?n div 2 ^ 16 mod 256)"
    using mod_mult2_eq [of ?n "2 ^ 16" 256] by simp
  have 3: "?n mod 2 ^ 16 = ?n mod 2 ^ 8 + 2 ^ 8 * (?n div 2 ^ 8 mod 256)"
    using mod_mult2_eq [of ?n "2 ^ 8" 256] by simp
  have 4: "(0xe0 + b_dev b mod 2 * 2 ^ 4 + ?n div 2 ^ 24 mod 16) div 2 ^ 4 mod 2 = b_dev b mod 2"
  proof -
    have "0xe0 + b_dev b mod 2 * 2 ^ 4 + ?n div 2 ^ 24 mod 16 = ?n div 2 ^ 24 mod 16 + (14 + b_dev b mod 2) * 2 ^ 4" by simp
    also have "\<dots> div 2 ^ 4 = 14 + b_dev b mod 2" by (subst div_mult_self1) simp_all
    finally have "(0xe0 + b_dev b mod 2 * 2 ^ 4 + ?n div 2 ^ 24 mod 16) div 2 ^ 4 = 14 + b_dev b mod 2" .
    moreover have "(14 + d mod 2) mod 2 = d mod 2" for d :: nat by presburger
    ultimately show ?thesis by (simp only:)
  qed
  have 5: "(0xe0 + b_dev b mod 2 * 2 ^ 4 + ?n div 2 ^ 24 mod 16) mod 16 = ?n div 2 ^ 24 mod 16"
  proof -
    have "0xe0 + b_dev b mod 2 * 2 ^ 4 + ?n div 2 ^ 24 mod 16 = ?n div 2 ^ 24 mod 16 + (14 + b_dev b mod 2) * 16" by simp
    then show ?thesis by (simp only: mod_mult_self1 mod_mod_trivial)
  qed
  show ?thesis using 1 2 3 unfolding ide_ports_def drive_addr.simps 4 5 by simp
qed

text \<open>The requests in the queue, first the one the disk works on.\<close>

fun qnext_of :: "(nat \<Rightarrow> buf) \<Rightarrow> nat option \<Rightarrow> nat option" where
  "qnext_of bs None = None"
| "qnext_of bs (Some i) = b_qnext (bs i)"

definition ide_queue :: "'a bcache_scheme \<Rightarrow> nat list \<Rightarrow> bool" where
  "ide_queue s q \<longleftrightarrow> distinct q \<and> linked (qnext_of (bufs s)) None (idequeue s) (map Some q)"

definition head_of :: "nat list \<Rightarrow> nat option" where
  "head_of q = (case q of [] \<Rightarrow> None | d # _ \<Rightarrow> Some d)"

text \<open>What a request does to the buffer, and what starting it does to the disk.\<close>

definition served :: "'a bcache_scheme \<Rightarrow> nat \<Rightarrow> buf" where
  "served s c = (let bf = bufs s c in
     (if b_dirty bf \<or> addr bf \<in> bad_sectors s then bf else bf\<lparr>b_data := sectors s (addr bf)\<rparr>)
       \<lparr>b_valid := True, b_dirty := False\<rparr>)"

definition write_out :: "(nat \<Rightarrow> buf) \<Rightarrow> nat \<Rightarrow> (nat \<times> nat \<Rightarrow> 8 word list) \<Rightarrow> nat \<times> nat \<Rightarrow> 8 word list" where
  "write_out bs d sec = (if b_dirty (bs d) then sec(addr (bs d) := b_data (bs d)) else sec)"

lemma ide_queue_head: "ide_queue s q \<Longrightarrow> idequeue s = head_of q"
  by (cases q) (auto simp: ide_queue_def head_of_def)

lemma ide_queue_Nil [simp]: "ide_queue s [] \<longleftrightarrow> idequeue s = None"
  by (simp add: ide_queue_def)

lemma ide_queue_tail: "ide_queue s (c # q) \<Longrightarrow> b_qnext (bufs s c) = head_of q"
  by (cases q) (auto simp: ide_queue_def head_of_def)

lemma ide_queue_cong:
  "idequeue t = idequeue s \<Longrightarrow> (\<And>i. i \<in> set q \<Longrightarrow> b_qnext (bufs t i) = b_qnext (bufs s i)) \<Longrightarrow>
   ide_queue t q = ide_queue s q"
  unfolding ide_queue_def by (subst linked_cong [where nxt' = "qnext_of (bufs s)"]) auto

lemma idestart_eq: "idestart d s = s\<lparr>sectors := write_out (bufs s) d (sectors s)\<rparr>"
  by (simp add: idestart_def write_out_def)

lemma ideintr_step:
  assumes "ide_queue s (c # q)"
  shows "ideintr s = s\<lparr>idequeue := head_of q, bufs := (bufs s)(c := served s c),
    sectors := (case q of [] \<Rightarrow> sectors s | d # _ \<Rightarrow> write_out (bufs s) d (sectors s))\<rparr>"
proof -
  have "c \<notin> set q" using assms by (simp add: ide_queue_def)
  then show ?thesis
    using ide_queue_head [OF assms] ide_queue_tail [OF assms]
    by (cases q) (auto simp: ideintr_def head_of_def served_def upd_buf_def Let_def idestart_eq write_out_def)
qed

lemma ide_queue_ideintr:
  assumes "ide_queue s (c # q)"
  shows "ide_queue (ideintr s) q"
proof -
  have "ide_queue (s\<lparr>idequeue := head_of q\<rparr>) q"
    using assms by (cases q) (auto simp: ide_queue_def head_of_def)
  then show ?thesis
    using assms by (subst ide_queue_cong [of _ "s\<lparr>idequeue := head_of q\<rparr>"])
      (auto simp: ideintr_step [OF assms] ide_queue_def)
qed

text \<open>Waiting for the last request of the queue serves the whole queue in order.\<close>

lemma iderw_wait_serves:
  assumes "ide_queue s (q @ [b])" and "\<not> (b_valid (bufs s b) \<and> \<not> b_dirty (bufs s b))"
  shows "\<exists>bs. iderw_wait b s = Some (Ok (s\<lparr>idequeue := None, bufs := bs,
      sectors := fold (write_out (bufs s)) (tl (q @ [b])) (sectors s)\<rparr>)) \<and>
    (\<forall>c. c \<notin> set q \<longrightarrow> c \<noteq> b \<longrightarrow> bs c = bufs s c) \<and>
    (\<forall>c \<in> set q. b_valid (bs c) \<and> \<not> b_dirty (bs c)) \<and>
    bs b = served (s\<lparr>sectors := fold (write_out (bufs s)) (tl (q @ [b])) (sectors s)\<rparr>) b"
  using assms
proof (induction q arbitrary: s)
  case Nil
  let ?t = "ideintr s"
  have t: "?t = s\<lparr>idequeue := None, bufs := (bufs s)(b := served s b)\<rparr>"
    using ideintr_step [of s b "[]"] Nil by (simp add: head_of_def)
  have "iderw_wait b ?t = Some (Ok ?t)"
    by (subst iderw_wait.simps) (simp add: t served_def Let_def)
  then have "iderw_wait b s = Some (Ok ?t)"
    using Nil ide_queue_head [of s "[b]"] by (subst iderw_wait.simps) (auto simp: head_of_def)
  then show ?case by (auto simp: t intro!: exI [of _ "(bufs s)(b := served s b)"])
next
  case (Cons c q)
  let ?t = "ideintr s"
  obtain d r where d: "q @ [b] = d # r" by (cases q) auto
  have dist: "c \<noteq> b" "c \<notin> set q" using Cons.prems(1) by (auto simp: ide_queue_def)
  have t: "?t = s\<lparr>idequeue := Some d, bufs := (bufs s)(c := served s c), sectors := write_out (bufs s) d (sectors s)\<rparr>"
    using ideintr_step [of s c "q @ [b]"] Cons.prems(1) by (simp add: head_of_def d)
  have w: "iderw_wait b s = iderw_wait b ?t"
    using Cons.prems ide_queue_head [OF Cons.prems(1)] by (subst iderw_wait.simps) (auto simp: head_of_def)
  have "write_out ((bufs s)(c := x)) e = write_out (bufs s) e" if "e \<in> set r" for e x
  proof -
    have "set r \<subseteq> set (q @ [b])" by (auto simp: d)
    with that dist show ?thesis by (auto simp: write_out_def fun_eq_iff)
  qed
  then have f: "fold (write_out ((bufs s)(c := x))) r = fold (write_out (bufs s)) r" for x
    by (intro ext fold_cong) auto
  have g: "fold (write_out (bufs s)) (q @ [b]) (sectors s) = fold (write_out (bufs s)) r (write_out (bufs s) d (sectors s))"
    by (simp add: d)
  have "ide_queue ?t (q @ [b])" using Cons.prems(1) by (intro ide_queue_ideintr) simp
  moreover have "\<not> (b_valid (bufs ?t b) \<and> \<not> b_dirty (bufs ?t b))" using Cons.prems(2) dist by (simp add: t)
  ultimately obtain bs where bs: "iderw_wait b ?t = Some (Ok (?t\<lparr>idequeue := None, bufs := bs,
      sectors := fold (write_out (bufs ?t)) (tl (q @ [b])) (sectors ?t)\<rparr>))"
    "\<forall>c. c \<notin> set q \<longrightarrow> c \<noteq> b \<longrightarrow> bs c = bufs ?t c" "\<forall>c \<in> set q. b_valid (bs c) \<and> \<not> b_dirty (bs c)"
    "bs b = served (?t\<lparr>sectors := fold (write_out (bufs ?t)) (tl (q @ [b])) (sectors ?t)\<rparr>) b"
    using Cons.IH [of ?t] by blast
  have "bs c = served s c" using bs(2) dist by (simp add: t)
  then show ?case
    using bs dist unfolding w by (intro exI [of _ bs]) (auto simp: t d f g served_def Let_def)
qed

lemma queue_last_linked:
  "linked (qnext_of bs) None (Some p) (map Some (p # q)) \<Longrightarrow>
   queue_last bs p = Some (last (p # q))"
proof (induction q arbitrary: p)
  case Nil
  then show ?case by (subst queue_last.simps) simp
next
  case (Cons c q)
  then show ?case by (subst queue_last.simps) simp
qed

lemma linked_snoc:
  assumes "linked nxt nil p as" and "distinct as" and "b \<notin> set as" and "b \<noteq> nil" and "nxt b = nil" and "as \<noteq> []"
  shows "linked (nxt(last as := b)) nil p (as @ [b])"
  using assms
proof (induction as arbitrary: p)
  case (Cons a as)
  then show ?case by (cases "as = []") auto
qed simp

text \<open>Submitting a request appends it; on an idle disk it is started at once.\<close>

lemma ide_submit_appends:
  assumes "ide_queue s q" and "b \<notin> set q"
  shows "\<exists>bs. ide_submit b s = Ok (s\<lparr>idequeue := head_of (q @ [b]), bufs := bs,
      sectors := if q = [] then write_out (bufs s) b (sectors s) else sectors s\<rparr>) \<and>
    (\<forall>c. bs c = (bufs s c)\<lparr>b_qnext := b_qnext (bs c)\<rparr>) \<and>
    ide_queue (s\<lparr>idequeue := head_of (q @ [b]), bufs := bs\<rparr>) (q @ [b])"
proof (cases q)
  case Nil
  then show ?thesis using assms(1)
    by (intro exI [of _ "(bufs s)(b := (bufs s b)\<lparr>b_qnext := None\<rparr>)"])
      (simp add: ide_submit_def upd_buf_def Let_def idestart_eq write_out_def head_of_def ide_queue_def ide_ports_def)
next
  case (Cons p r)
  define bs1 where "bs1 = (bufs s)(b := (bufs s b)\<lparr>b_qnext := None\<rparr>)"
  have l1: "linked (qnext_of bs1) None (Some p) (map Some (p # r))"
    using assms Cons ide_queue_head [OF assms(1)]
    by (subst linked_cong [where nxt' = "qnext_of (bufs s)"]) (auto simp: bs1_def ide_queue_def head_of_def)
  let ?l = "last (p # r)"
  define bs2 where "bs2 = bs1(?l := (bs1 ?l)\<lparr>b_qnext := Some b\<rparr>)"
  have "?l \<in> set q" using Cons by simp
  then have ne: "?l \<noteq> b" "p \<noteq> b" using assms(2) Cons by auto
  have "(qnext_of bs1)(Some ?l := Some b) = qnext_of bs2" by (rule ext, rename_tac x, case_tac x) (auto simp: bs2_def)
  moreover have "linked ((qnext_of bs1)(last (map Some (p # r)) := Some b)) None (Some p) (map Some (p # r) @ [Some b])"
    using assms Cons by (intro linked_snoc [OF l1]) (auto simp: ide_queue_def distinct_map bs1_def)
  moreover have "last (map Some (p # r)) = Some ?l" by (simp add: last_map)
  moreover have "map Some (q @ [b]) = map Some (p # r) @ [Some b]" using Cons by simp
  ultimately have "linked (qnext_of bs2) None (Some p) (map Some (q @ [b]))" by (simp only:)
  then have "ide_queue (s\<lparr>idequeue := head_of (q @ [b]), bufs := bs2\<rparr>) (q @ [b])"
    using assms Cons by (simp add: ide_queue_def head_of_def)
  moreover have "ide_submit b s = Ok (s\<lparr>idequeue := head_of (q @ [b]), bufs := bs2, sectors := sectors s\<rparr>)"
    using ide_queue_head [OF assms(1)] Cons queue_last_linked [OF l1] ne
    by (simp add: ide_submit_def upd_buf_def Let_def head_of_def bs2_def flip: bs1_def)
  ultimately show ?thesis using Cons by (intro exI [of _ bs2]) (auto simp: bs2_def bs1_def)
qed

lemma same_request:
  assumes "bf = bf0\<lparr>b_qnext := n\<rparr>"
  shows "addr bf = addr bf0" "b_dirty bf = b_dirty bf0" "b_data bf = b_data bf0" "b_valid bf = b_valid bf0"
    "b_busy bf = b_busy bf0" "b_dev bf = b_dev bf0"
  using assms by (simp_all add: ide_ports_def)

lemma iderw_spec:
  assumes "ide_queue s q" and "b \<notin> set q" and "b_busy (bufs s b)"
    and "\<not> (b_valid (bufs s b) \<and> \<not> b_dirty (bufs s b))" and "b_dev (bufs s b) = 0 \<or> havedisk1 s"
  defines "sec \<equiv> fold (write_out (bufs s)) (tl q @ [b]) (sectors s)"
  shows "\<exists>bs. iderw b s = Ok (s\<lparr>idequeue := None, bufs := bs, sectors := sec\<rparr>) \<and>
    (\<forall>c \<in> set q. b_valid (bs c) \<and> \<not> b_dirty (bs c)) \<and>
    (\<forall>c. c \<notin> set q \<longrightarrow> c \<noteq> b \<longrightarrow> bs c = (bufs s c)\<lparr>b_qnext := b_qnext (bs c)\<rparr>) \<and>
    bs b = (served (s\<lparr>sectors := sec\<rparr>) b)\<lparr>b_qnext := b_qnext (bs b)\<rparr>"
proof -
  from ide_submit_appends [OF assms(1,2)] obtain bs1 where
    1: "ide_submit b s = Ok (s\<lparr>idequeue := head_of (q @ [b]), bufs := bs1,
      sectors := if q = [] then write_out (bufs s) b (sectors s) else sectors s\<rparr>)" (is "_ = Ok ?t") and
    2: "\<And>c. bs1 c = (bufs s c)\<lparr>b_qnext := b_qnext (bs1 c)\<rparr>" and
    3: "ide_queue (s\<lparr>idequeue := head_of (q @ [b]), bufs := bs1\<rparr>) (q @ [b])"
    by blast
  note eq = same_request [OF 2]
  have 4: "ide_queue ?t (q @ [b])" using 3 by (simp add: ide_queue_def)
  have w: "write_out bs1 = write_out (bufs s)" by (simp add: write_out_def eq fun_eq_iff)
  have "\<not> (b_valid (bufs ?t b) \<and> \<not> b_dirty (bufs ?t b))" using assms(4) by (simp add: eq)
  from iderw_wait_serves [OF 4 this] obtain bs where
    5: "iderw_wait b ?t = Some (Ok (?t\<lparr>idequeue := None, bufs := bs,
      sectors := fold (write_out (bufs ?t)) (tl (q @ [b])) (sectors ?t)\<rparr>))"
      "\<forall>c. c \<notin> set q \<longrightarrow> c \<noteq> b \<longrightarrow> bs c = bufs ?t c"
      "\<forall>c \<in> set q. b_valid (bs c) \<and> \<not> b_dirty (bs c)"
      "bs b = served (?t\<lparr>sectors := fold (write_out (bufs ?t)) (tl (q @ [b])) (sectors ?t)\<rparr>) b" by blast
  have sec: "fold (write_out (bufs ?t)) (tl (q @ [b])) (sectors ?t) = sec"
    by (cases q) (simp_all add: sec_def w)
  have "iderw b s = Ok (s\<lparr>idequeue := None, bufs := bs, sectors := sec\<rparr>)"
    using assms(3-5) 5(1) unfolding sec by (auto simp: iderw_def iderw_start_def 1)
  moreover have "bs b = (served (s\<lparr>sectors := sec\<rparr>) b)\<lparr>b_qnext := b_qnext (bs b)\<rparr>"
  proof -
    obtain n where n: "bs1 b = (bufs s b)\<lparr>b_qnext := n\<rparr>" using 2 by blast
    have "bs b = served (?t\<lparr>sectors := sec\<rparr>) b" using 5(4) unfolding sec .
    then show ?thesis by (cases "bufs s b") (simp add: served_def Let_def n ide_ports_def)
  qed
  moreover have "bs c = (bufs s c)\<lparr>b_qnext := b_qnext (bs c)\<rparr>" if "c \<notin> set q" "c \<noteq> b" for c
  proof -
    have "bs c = bs1 c" using 5(2) that by simp
    then show ?thesis using 2 [of c] by simp
  qed
  ultimately show ?thesis using 5(3) by blast
qed

text \<open>
  \<open>iderw\<close> returns, whatever other requests are pending: the queue is served in first-in
  first-out order, the disk receives the dirty buffers in that order, every request ends with
  a valid, clean buffer, and a read that reports no error brings in the sector.
\<close>
theorem iderw_completes:
  assumes "ide_queue s q" and "b \<notin> set q" and "b_busy (bufs s b)"
    and "\<not> (b_valid (bufs s b) \<and> \<not> b_dirty (bufs s b))" and "b_dev (bufs s b) = 0 \<or> havedisk1 s"
  shows "\<exists>s'. iderw b s = Ok s' \<and> idequeue s' = None \<and>
    (\<forall>c \<in> set (q @ [b]). b_valid (bufs s' c) \<and> \<not> b_dirty (bufs s' c)) \<and>
    sectors s' = fold (write_out (bufs s)) (tl q @ [b]) (sectors s) \<and>
    b_data (bufs s' b) = (if b_dirty (bufs s b) \<or> addr (bufs s b) \<in> bad_sectors s
      then b_data (bufs s b) else sectors s' (addr (bufs s b)))"
proof -
  from iderw_spec [OF assms] obtain bs where bs:
    "iderw b s = Ok (s\<lparr>idequeue := None, bufs := bs, sectors := fold (write_out (bufs s)) (tl q @ [b]) (sectors s)\<rparr>)"
    "\<forall>c \<in> set q. b_valid (bs c) \<and> \<not> b_dirty (bs c)"
    "bs b = (served (s\<lparr>sectors := fold (write_out (bufs s)) (tl q @ [b]) (sectors s)\<rparr>) b)\<lparr>b_qnext := b_qnext (bs b)\<rparr>"
    by blast
  obtain n where n: "bs b = (served (s\<lparr>sectors := fold (write_out (bufs s)) (tl q @ [b]) (sectors s)\<rparr>) b)\<lparr>b_qnext := n\<rparr>"
    using bs(3) by blast
  show ?thesis unfolding bs(1) kres.inject using bs(2) by (simp add: n served_def Let_def)
qed

theorem iderw_completes_witness:
  "\<exists>s :: bcache. ide_queue s [0, 1] \<and> (\<exists>s'. iderw 2 s = Ok s' \<and> idequeue s' = None \<and>
     b_data (bufs s' 2) = [7] \<and> sectors s' (0, 6) = [8])"
proof -
  let ?b = "\<lparr>b_busy = True, b_valid = False, b_dirty = False, b_dev = 0, b_sector = 5, b_prev = 0, b_next = 0, b_qnext = None, b_data = []\<rparr>"
  let ?s = "\<lparr>bufs = (\<lambda>_. ?b)(0 := ?b\<lparr>b_qnext := Some 1\<rparr>, 1 := ?b\<lparr>b_sector := 6, b_dirty := True, b_data := [8]\<rparr>),
    idequeue = Some 0, havedisk1 = False, sectors = (\<lambda>_. [7]), bad_sectors = {}\<rparr>"
  have q: "ide_queue ?s [0, 1]" by (simp add: ide_queue_def)
  show ?thesis using q iderw_completes [OF q, of 2]
    by (intro exI [of _ ?s]) (auto simp: write_out_def ide_ports_def)
qed

section \<open>The LRU list\<close>

definition dlist :: "(nat \<Rightarrow> buf) \<Rightarrow> nat list \<Rightarrow> bool" where
  "dlist bs xs \<longleftrightarrow> ring (\<lambda>i. b_next (bs i)) NBUF xs \<and> ring (\<lambda>i. b_prev (bs i)) NBUF (rev xs)"

text \<open>Two buffers that differ in the list pointers only.\<close>

definition same_buf :: "buf \<Rightarrow> buf \<Rightarrow> bool" where
  "same_buf a b \<longleftrightarrow> a = b\<lparr>b_prev := b_prev a, b_next := b_next a\<rparr>"

lemma same_buf_fields:
  assumes "same_buf a b"
  shows "b_busy a = b_busy b" "b_valid a = b_valid b" "b_dirty a = b_dirty b" "b_dev a = b_dev b"
    "b_sector a = b_sector b" "b_qnext a = b_qnext b" "b_data a = b_data b"
proof -
  obtain p n where a: "a = b\<lparr>b_prev := p, b_next := n\<rparr>" using assms unfolding same_buf_def by blast
  show "b_busy a = b_busy b" "b_valid a = b_valid b" "b_dirty a = b_dirty b" "b_dev a = b_dev b"
    "b_sector a = b_sector b" "b_qnext a = b_qnext b" "b_data a = b_data b" by (simp_all add: a)
qed

lemma same_buf_upd [simp]:
  "same_buf a a" "same_buf (a\<lparr>b_prev := p\<rparr>) b = same_buf a b" "same_buf (a\<lparr>b_next := n\<rparr>) b = same_buf a b"
  by (cases a; cases b; simp add: same_buf_def)+

lemma list_push_same: "same_buf (list_push b bs i) (bs i)"
  by (simp add: list_push_def Let_def)

lemma list_unlink_same: "same_buf (list_unlink b bs i) (bs i)"
  by (simp add: list_unlink_def Let_def)

lemma ring_head_next: "ring nxt h as \<Longrightarrow> nxt h = hd (as @ [h])"
  by (cases as) (auto simp: ring_def)

lemma last_rev_hd: "last (h # rev xs) = hd (xs @ [h])"
  by (cases xs) auto

lemma dlist_push:
  assumes "dlist bs xs" and "b \<notin> set xs" and "b \<noteq> NBUF"
  shows "dlist (list_push b bs) (b # xs)"
proof -
  let ?n = "\<lambda>i. b_next (bs i)" and ?p = "\<lambda>i. b_prev (bs i)"
  have h: "?n NBUF = hd (xs @ [NBUF])" using assms(1) ring_head_next [of ?n NBUF xs] by (simp add: dlist_def)
  have "hd (xs @ [NBUF]) \<noteq> b" using assms(2,3) by (cases xs) auto
  then have 1: "(\<lambda>i. b_next (list_push b bs i)) = ?n(b := ?n NBUF, NBUF := b)"
    and 2: "(\<lambda>i. b_prev (list_push b bs i)) = ?p(b := NBUF, last (NBUF # rev xs) := b)"
    using assms(3) by (auto simp: list_push_def Let_def fun_eq_iff h last_rev_hd simp del: last.simps)
  show ?thesis unfolding dlist_def 1 2
    using assms ring_push [of ?n NBUF xs b] ring_snoc [of ?p NBUF "rev xs" b] by (simp add: dlist_def)
qed

lemma dlist_unlink:
  assumes "dlist bs (as @ b # cs)"
  shows "dlist (list_unlink b bs) (as @ cs)"
proof -
  let ?n = "\<lambda>i. b_next (bs i)" and ?p = "\<lambda>i. b_prev (bs i)"
  have rn: "ring ?n NBUF (as @ b # cs)" and rp: "ring ?p NBUF (rev cs @ b # rev as)"
    using assms by (simp_all add: dlist_def)
  have n: "?n b = last (NBUF # rev cs)" using ring_next [OF rn] by (simp add: last_rev_hd del: last.simps)
  have p: "?p b = last (NBUF # as)" using ring_next [OF rp] last_rev_hd [of NBUF "rev as"] by simp
  have "b \<noteq> last (NBUF # as)" "b \<noteq> last (NBUF # rev cs)"
    using rn last_in_set [of "NBUF # as"] last_in_set [of "NBUF # rev cs"] by (auto simp: ring_def simp del: last.simps)
  then have 1: "(\<lambda>i. b_next (list_unlink b bs i)) = ?n(last (NBUF # as) := ?n b)"
    and 2: "(\<lambda>i. b_prev (list_unlink b bs i)) = ?p(last (NBUF # rev cs) := ?p b)"
    by (auto simp: list_unlink_def Let_def fun_eq_iff n p simp del: last.simps)
  show ?thesis unfolding dlist_def 1 2
    using ring_unlink [OF rn] ring_unlink [OF rp] by simp
qed

definition lru :: "'a bcache_scheme \<Rightarrow> nat list \<Rightarrow> bool" where
  "lru s xs \<longleftrightarrow> dlist (bufs s) xs \<and> set xs = {..<NBUF}"

lemma bget_cached_find:
  "linked (\<lambda>i. b_next (bs i)) NBUF b xs \<Longrightarrow>
   bget_cached bs dev sector b = Some (find (\<lambda>i. b_dev (bs i) = dev \<and> b_sector (bs i) = sector) xs)"
proof (induction xs arbitrary: b)
  case Nil
  then show ?case by (subst bget_cached.simps) simp
next
  case (Cons x xs)
  then show ?case by (subst bget_cached.simps) simp
qed

lemma bget_free_find:
  "linked (\<lambda>i. b_prev (bs i)) NBUF b xs \<Longrightarrow> bget_free bs b = Some (find (\<lambda>i. \<not> b_busy (bs i)) xs)"
proof (induction xs arbitrary: b)
  case Nil
  then show ?case by (subst bget_free.simps) simp
next
  case (Cons x xs)
  then show ?case by (subst bget_free.simps) simp
qed

lemma lru_scans:
  assumes "lru s xs"
  shows "bget_cached (bufs s) dev sector (b_next (bufs s NBUF)) =
      Some (find (\<lambda>i. b_dev (bufs s i) = dev \<and> b_sector (bufs s i) = sector) xs)"
    and "bget_free (bufs s) (b_prev (bufs s NBUF)) = Some (find (\<lambda>i. \<not> b_busy (bufs s i)) (rev xs))"
  using assms by (auto simp: lru_def dlist_def ring_def intro!: bget_cached_find bget_free_find)

text \<open>List pointers are all that matters for the list.\<close>

lemma lru_cong:
  "(\<And>i. b_next (bufs t i) = b_next (bufs s i)) \<Longrightarrow> (\<And>i. b_prev (bufs t i) = b_prev (bufs s i)) \<Longrightarrow> lru t xs = lru s xs"
  by (simp add: lru_def dlist_def)

lemma lru_upd_buf: "(\<And>bf. b_next (f bf) = b_next bf) \<Longrightarrow> (\<And>bf. b_prev (f bf) = b_prev bf) \<Longrightarrow> lru (upd_buf b f s) xs = lru s xs"
  by (rule lru_cong) (simp_all add: upd_buf_def)

lemma brelse_front:
  assumes "lru s xs" and "b < NBUF"
  shows "lru (s\<lparr>bufs := list_push b (list_unlink b (bufs s))\<rparr>) (b # remove1 b xs)"
proof -
  obtain as cs where xs: "xs = as @ b # cs" "b \<notin> set as"
    using assms split_list_first [of b xs] by (auto simp: lru_def)
  have d: "distinct xs" using assms by (simp add: lru_def dlist_def ring_def)
  have "dlist (list_push b (list_unlink b (bufs s))) (b # as @ cs)"
    using assms d xs by (intro dlist_push dlist_unlink) (auto simp: lru_def)
  moreover have "remove1 b xs = as @ cs" using xs by (simp add: remove1_append)
  moreover have "set (b # as @ cs) = set xs" using xs by auto
  ultimately show ?thesis using assms by (simp add: lru_def)
qed

section \<open>The interface of the cache\<close>

text \<open>
  What file-system code may assume of a block cache: a block can be read unless it is held or
  every buffer is, what is read is the block's contents, a write changes that block only and is
  on the disk when it returns, and neither touches any state outside the cache.
\<close>

locale block_cache =
  fixes rd :: "nat \<Rightarrow> nat \<Rightarrow> 's \<Rightarrow> (nat \<times> 's) kres"
    and wr :: "nat \<Rightarrow> 8 word list \<Rightarrow> 's \<Rightarrow> 's kres"
    and rel :: "nat \<Rightarrow> 's \<Rightarrow> 's kres"
    and dat :: "'s \<Rightarrow> nat \<Rightarrow> 8 word list"
    and blocks :: "'s \<Rightarrow> nat \<times> nat \<Rightarrow> 8 word list"
    and held :: "'s \<Rightarrow> nat \<Rightarrow> (nat \<times> nat) option"
    and ready :: "'s \<Rightarrow> (nat \<times> nat) set"
    and rest :: "'s \<Rightarrow> 'r"
    and inv :: "'s \<Rightarrow> bool"
    and cap :: nat
  assumes rd_ok: "inv s \<Longrightarrow> (d, n) \<in> ready s \<Longrightarrow> (d, n) \<notin> ran (held s) \<Longrightarrow> card (dom (held s)) < cap \<Longrightarrow>
      \<exists>h s'. rd d n s = Ok (h, s') \<and> inv s' \<and> held s h = None \<and> held s' = (held s)(h \<mapsto> (d, n)) \<and>
        blocks s' = blocks s \<and> ready s' = ready s \<and> rest s' = rest s"
    and rd_held: "inv s \<Longrightarrow> (d, n) \<in> ran (held s) \<Longrightarrow> rd d n s = Sleeps"
    and rd_full: "inv s \<Longrightarrow> (d, n) \<in> ready s \<Longrightarrow> (d, n) \<notin> ran (held s) \<Longrightarrow> card (dom (held s)) = cap \<Longrightarrow>
      \<exists>e. rd d n s = Panic e"
    and dat_ok: "inv s \<Longrightarrow> held s h = Some k \<Longrightarrow> dat s h = blocks s k"
    and wr_ok: "inv s \<Longrightarrow> held s h = Some k \<Longrightarrow> k \<in> ready s \<Longrightarrow> length x = BSIZE \<Longrightarrow>
      \<exists>s'. wr h x s = Ok s' \<and> inv s' \<and> held s' = held s \<and>
        blocks s' = (blocks s)(k := x) \<and> ready s' = ready s \<and> rest s' = rest s"
    and rel_ok: "inv s \<Longrightarrow> held s h = Some k \<Longrightarrow>
      \<exists>s'. rel h s = Ok s' \<and> inv s' \<and> held s' = (held s)(h := None) \<and>
        blocks s' = blocks s \<and> ready s' = ready s \<and> rest s' = rest s"
    and blocks_length: "inv s \<Longrightarrow> length (blocks s k) = BSIZE"
begin

definition same_but :: "'s \<Rightarrow> (nat \<times> nat \<Rightarrow> 8 word list) \<Rightarrow> 's \<Rightarrow> bool" where
  "same_but s B s' \<longleftrightarrow> inv s' \<and> held s' = held s \<and> blocks s' = B \<and> ready s' = ready s \<and> rest s' = rest s"

definition room :: "'s \<Rightarrow> nat \<times> nat \<Rightarrow> bool" where
  "room s k \<longleftrightarrow> inv s \<and> k \<in> ready s \<and> k \<notin> ran (held s) \<and> card (dom (held s)) < cap"

lemma same_but_trans: "same_but s B t \<Longrightarrow> same_but t B' u \<Longrightarrow> same_but s B' u"
  by (simp add: same_but_def)

lemma room_same: "same_but s B t \<Longrightarrow> room s k \<Longrightarrow> room t k"
  by (simp add: same_but_def room_def)

lemma room_read:
  assumes "room s (d, n)"
  obtains h s' where "rd d n s = Ok (h, s')" "inv s'" "held s h = None" "held s' = (held s)(h \<mapsto> (d, n))"
    "blocks s' = blocks s" "ready s' = ready s" "rest s' = rest s" "dat s' h = blocks s (d, n)"
proof -
  from assms rd_ok [of s d n] obtain h s' where 1: "rd d n s = Ok (h, s')" "inv s'" "held s h = None"
    "held s' = (held s)(h \<mapsto> (d, n))" "blocks s' = blocks s" "ready s' = ready s" "rest s' = rest s"
    by (auto simp: room_def)
  moreover have "dat s' h = blocks s (d, n)" using dat_ok [OF 1(2), of h "(d, n)"] 1(4,5) by simp
  ultimately show thesis by (rule that)
qed

text \<open>Read a block and release it.\<close>

lemma with_block:
  assumes "room s (d, n)"
  shows "\<exists>s'. same_but s (blocks s) s' \<and>
    kbind (rd d n s) (\<lambda>(h, s). kbind (rel h s) (K (dat s h))) = K (blocks s (d, n)) s'"
proof -
  from assms obtain h s1 where 1: "rd d n s = Ok (h, s1)" "inv s1" "held s h = None"
    "held s1 = (held s)(h \<mapsto> (d, n))" "blocks s1 = blocks s" "ready s1 = ready s" "rest s1 = rest s"
    by (rule room_read)
  from rel_ok [OF 1(2), of h "(d, n)"] 1(4) obtain s2 where 2: "rel h s1 = Ok s2" "inv s2"
    "held s2 = (held s1)(h := None)" "blocks s2 = blocks s1" "ready s2 = ready s1" "rest s2 = rest s1" by auto
  have "held s2 = held s" using 1(3,4) 2(3) by auto
  with 1 2 dat_ok [OF 1(2), of h "(d, n)"] show ?thesis
    by (intro exI [of _ s2]) (simp add: same_but_def)
qed

text \<open>Read a block, change it, write it and release it.\<close>

lemma update_block:
  assumes "room s (d, n)" and "length (f (blocks s (d, n))) = BSIZE"
  shows "\<exists>s'. same_but s ((blocks s)((d, n) := f (blocks s (d, n)))) s' \<and>
    kbind (rd d n s) (\<lambda>(h, s). kbind (wr h (f (dat s h)) s) (\<lambda>s'. kbind (rel h s') (K (dat s h)))) =
      K (blocks s (d, n)) s'"
proof -
  from assms(1) obtain h s1 where 1: "rd d n s = Ok (h, s1)" "inv s1" "held s h = None"
    "held s1 = (held s)(h \<mapsto> (d, n))" "blocks s1 = blocks s" "ready s1 = ready s" "rest s1 = rest s"
    by (rule room_read)
  have h: "held s1 h = Some (d, n)" using 1(4) by simp
  from dat_ok [OF 1(2) h] 1(5) have d: "dat s1 h = blocks s (d, n)" by simp
  from wr_ok [OF 1(2) h] assms 1(6) obtain s2 where 2: "wr h (f (blocks s (d, n))) s1 = Ok s2" "inv s2"
    "held s2 = held s1" "blocks s2 = (blocks s1)((d, n) := f (blocks s (d, n)))" "ready s2 = ready s1" "rest s2 = rest s1"
    by (metis room_def)
  from rel_ok [OF 2(2), of h "(d, n)"] 2(3) h obtain s3 where 3: "rel h s2 = Ok s3" "inv s3"
    "held s3 = (held s2)(h := None)" "blocks s3 = blocks s2" "ready s3 = ready s2" "rest s3 = rest s2" by auto
  have "held s3 = held s" using 1(3,4) 2(3) 3(3) by auto
  with 1 2 3 d show ?thesis by (intro exI [of _ s3]) (simp add: same_but_def)
qed

end

section \<open>The cache implements the interface\<close>

definition bc_held :: "'a bcache_scheme \<Rightarrow> nat \<Rightarrow> (nat \<times> nat) option" where
  "bc_held s h = (if h < NBUF \<and> b_busy (bufs s h) then Some (b_dev (bufs s h), b_sector (bufs s h)) else None)"

definition bc_ready :: "'a bcache_scheme \<Rightarrow> (nat \<times> nat) set" where
  "bc_ready s = {(d, n). d < 2 \<and> n < 2 ^ 28 \<and> (d = 0 \<or> havedisk1 s) \<and> (d, n) \<notin> bad_sectors s}"

text \<open>
  The invariant between calls: no request is pending; a buffer is assigned to a sector exactly
  when it is valid, no sector has two buffers, and every valid buffer agrees with the disk.
\<close>

definition buf_ok :: "(nat \<times> nat \<Rightarrow> 8 word list) \<Rightarrow> buf \<Rightarrow> bool" where
  "buf_ok sec bf \<longleftrightarrow> \<not> b_dirty bf \<and> (b_valid bf \<longleftrightarrow> b_dev bf \<noteq> no_dev) \<and> (b_busy bf \<longrightarrow> b_valid bf) \<and>
     (b_valid bf \<longrightarrow> b_dev bf < 2 \<and> b_sector bf < 2 ^ 28 \<and> b_data bf = sec (b_dev bf, b_sector bf))"

definition bc_inv :: "'a bcache_scheme \<Rightarrow> bool" where
  "bc_inv s \<longleftrightarrow> idequeue s = None \<and> (\<exists>xs. lru s xs) \<and>
     (\<forall>i < NBUF. buf_ok (sectors s) (bufs s i)) \<and>
     (\<forall>i < NBUF. \<forall>j < NBUF. b_valid (bufs s i) \<longrightarrow> b_dev (bufs s i) = b_dev (bufs s j) \<longrightarrow>
        b_sector (bufs s i) = b_sector (bufs s j) \<longrightarrow> i = j) \<and>
     (\<forall>a. length (sectors s a) = BSIZE)"

lemma addr_small: "b_dev bf < 2 \<Longrightarrow> b_sector bf < 2 ^ 28 \<Longrightarrow> addr bf = (b_dev bf, b_sector bf)"
  by (simp add: drive_addr_ports)

lemma bc_held_ran: "k \<in> ran (bc_held s) \<longleftrightarrow> (\<exists>i < NBUF. b_busy (bufs s i) \<and> k = (b_dev (bufs s i), b_sector (bufs s i)))"
  by (auto simp: ran_def bc_held_def split: if_splits)

lemma bc_held_dom: "dom (bc_held s) = {i. i < NBUF \<and> b_busy (bufs s i)}"
  by (auto simp: bc_held_def split: if_splits)

lemma buf_ok_qnext [simp]: "buf_ok sec (bf\<lparr>b_qnext := m\<rparr>) = buf_ok sec bf"
  by (simp add: buf_ok_def)

text \<open>A request of the only process on an idle disk.\<close>

lemma iderw_idle:
  assumes "idequeue s = None" and "b_busy (bufs s b)" and "\<not> (b_valid (bufs s b) \<and> \<not> b_dirty (bufs s b))"
    and "b_dev (bufs s b) = 0 \<or> havedisk1 s"
  shows "\<exists>bs. iderw b s = Ok (s\<lparr>bufs := bs, sectors := write_out (bufs s) b (sectors s)\<rparr>) \<and>
    (\<forall>c. c \<noteq> b \<longrightarrow> (\<exists>n. bs c = (bufs s c)\<lparr>b_qnext := n\<rparr>)) \<and>
    (\<exists>n. bs b = (served (s\<lparr>sectors := write_out (bufs s) b (sectors s)\<rparr>) b)\<lparr>b_qnext := n\<rparr>)"
proof -
  have q: "ide_queue s []" using assms(1) by simp
  have "s\<lparr>idequeue := None, bufs := bs, sectors := sec\<rparr> = s\<lparr>bufs := bs, sectors := sec\<rparr>" for bs sec
    using assms(1) by (cases s) simp
  then show ?thesis using iderw_spec [OF q _ assms(2-4)] by fastforce
qed

lemma bc_inv_upd:
  assumes "bc_inv s" and "b < NBUF" and "lru t xs" and "idequeue t = None"
    and "sectors t = sec" and "\<And>a. length (sec a) = BSIZE"
    and "\<And>i. i < NBUF \<Longrightarrow> i \<noteq> b \<Longrightarrow> (b_dev (bufs t i), b_sector (bufs t i), b_valid (bufs t i)) =
      (b_dev (bufs s i), b_sector (bufs s i), b_valid (bufs s i))"
    and "\<And>i. i < NBUF \<Longrightarrow> buf_ok sec (bufs t i)"
    and "\<And>i. i < NBUF \<Longrightarrow> i \<noteq> b \<Longrightarrow> b_valid (bufs s i) \<Longrightarrow>
      (b_dev (bufs s i), b_sector (bufs s i)) \<noteq> (b_dev (bufs t b), b_sector (bufs t b))"
  shows "bc_inv t"
proof -
  have v: "b_valid (bufs u i) \<longleftrightarrow> b_dev (bufs u i) \<noteq> no_dev"
    if "i < NBUF" "\<And>i. i < NBUF \<Longrightarrow> buf_ok x (bufs u i)" for i x and u :: "'c bcache_scheme"
    using that by (auto simp: buf_ok_def)
  have "i = j" if ij: "i < NBUF" "j < NBUF" "b_valid (bufs t i)" "b_dev (bufs t i) = b_dev (bufs t j)"
    "b_sector (bufs t i) = b_sector (bufs t j)" for i j
  proof -
    have vj: "b_valid (bufs t j)" using ij v [of i sec t] v [of j sec t] assms(8) by simp
    consider "i = b" "j = b" | "i = b" "j \<noteq> b" | "i \<noteq> b" "j = b" | "i \<noteq> b" "j \<noteq> b" by blast
    then show ?thesis
    proof cases
      case 2 then show ?thesis using assms(7,9) [of j] ij vj by auto
    next
      case 3 then show ?thesis using assms(7,9) [of i] ij by auto
    next
      case 4 then show ?thesis using assms(1) assms(7) [of i] assms(7) [of j] ij unfolding bc_inv_def by auto
    qed simp
  qed
  then show ?thesis using assms(3-6,8) unfolding bc_inv_def by blast
qed

lemma no_dev_big: "d < 2 \<Longrightarrow> d \<noteq> no_dev"
  by (simp add: no_dev_def)

lemma bc_cached:
  assumes "bc_inv s" and "lru s xs" and "d < 2"
    and "find (\<lambda>i. b_dev (bufs s i) = d \<and> b_sector (bufs s i) = n) xs = Some b"
  shows "b < NBUF" "b_dev (bufs s b) = d" "b_sector (bufs s b) = n" "b_valid (bufs s b)"
proof -
  from find_SomeD [OF assms(4)] assms(2) show b: "b < NBUF" "b_dev (bufs s b) = d" "b_sector (bufs s b) = n"
    by (auto simp: lru_def)
  with assms(1) no_dev_big [OF assms(3)] show "b_valid (bufs s b)" by (auto simp: bc_inv_def buf_ok_def)
qed

lemma bread_hit:
  assumes "bc_inv s" and "lru s xs" and "d < 2"
    and "find (\<lambda>i. b_dev (bufs s i) = d \<and> b_sector (bufs s i) = n) xs = Some b"
    and "\<not> b_busy (bufs s b)"
  shows "bread d n s = Ok (b, upd_buf b (b_busy_update (\<lambda>_. True)) s)"
    and "bc_inv (upd_buf b (b_busy_update (\<lambda>_. True)) s)"
proof -
  note b = bc_cached [OF assms(1-4)]
  show "bread d n s = Ok (b, upd_buf b (b_busy_update (\<lambda>_. True)) s)"
    using assms(4,5) b by (simp add: bread_def bget_def lru_scans [OF assms(2)] upd_buf_def)
  show "bc_inv (upd_buf b (b_busy_update (\<lambda>_. True)) s)"
  proof (rule bc_inv_upd [OF assms(1) b(1)])
    show "lru (upd_buf b (b_busy_update (\<lambda>_. True)) s) xs" using assms(2) by (simp add: lru_upd_buf)
    show "buf_ok (sectors s) (bufs (upd_buf b (b_busy_update (\<lambda>_. True)) s) i)" if "i < NBUF" for i
      using assms(1) b that by (auto simp: upd_buf_def bc_inv_def buf_ok_def)
  qed (use assms(1) b in \<open>auto simp: upd_buf_def bc_inv_def\<close>)
qed

lemma bread_miss:
  assumes inv: "bc_inv s" and l: "lru s xs" and r: "(d, n) \<in> bc_ready s"
    and miss: "find (\<lambda>i. b_dev (bufs s i) = d \<and> b_sector (bufs s i) = n) xs = None"
    and fr: "find (\<lambda>i. \<not> b_busy (bufs s i)) (rev xs) = Some b"
  shows "\<exists>bs. bread d n s = Ok (b, s\<lparr>bufs := bs\<rparr>) \<and> bc_inv (s\<lparr>bufs := bs\<rparr>) \<and>
    b_dev (bs b) = d \<and> b_sector (bs b) = n \<and> b_busy (bs b) \<and> (\<forall>c. c \<noteq> b \<longrightarrow> (\<exists>m. bs c = (bufs s c)\<lparr>b_qnext := m\<rparr>))"
proof -
  have b: "b < NBUF" "\<not> b_busy (bufs s b)" using find_SomeD [OF fr] l by (auto simp: lru_def)
  have small: "d < 2" "n < 2 ^ 28" and dev: "d = 0 \<or> havedisk1 s" and good: "(d, n) \<notin> bad_sectors s"
    using r by (auto simp: bc_ready_def)
  define s1 where "s1 = upd_buf b (\<lambda>bf. bf\<lparr>b_dev := d, b_sector := n, b_busy := True, b_valid := False, b_dirty := False\<rparr>) s"
  have s1: "bufs s1 = (bufs s)(b := (bufs s b)\<lparr>b_dev := d, b_sector := n, b_busy := True, b_valid := False, b_dirty := False\<rparr>)"
    "sectors s1 = sectors s" "idequeue s1 = None" "havedisk1 s1 = havedisk1 s" "bad_sectors s1 = bad_sectors s"
    using inv by (simp_all add: s1_def upd_buf_def bc_inv_def)
  have get: "bget d n s = Ok (b, s1)"
    using miss fr by (simp add: bget_def lru_scans [OF l] s1_def)
  have "write_out (bufs s1) b (sectors s1) = sectors s" by (simp add: write_out_def s1)
  with iderw_idle [of s1 b] dev obtain bs m where
    1: "iderw b s1 = Ok (s1\<lparr>bufs := bs, sectors := sectors s\<rparr>)"
      "\<forall>c. c \<noteq> b \<longrightarrow> (\<exists>n. bs c = (bufs s1 c)\<lparr>b_qnext := n\<rparr>)"
      "bs b = (served (s1\<lparr>sectors := sectors s\<rparr>) b)\<lparr>b_qnext := m\<rparr>"
    by (auto simp: s1)
  have s2: "s1\<lparr>bufs := bs, sectors := sectors s\<rparr> = s\<lparr>bufs := bs\<rparr>"
    by (cases s) (simp add: s1_def upd_buf_def)
  have a: "addr (bufs s1 b) = (d, n)" using small by (simp add: drive_addr_ports s1)
  have bb: "bs b = (bufs s b)\<lparr>b_dev := d, b_sector := n, b_busy := True, b_data := sectors s (d, n), b_valid := True, b_dirty := False, b_qnext := m\<rparr>"
    unfolding 1(3) using a good by (cases "bufs s b") (simp add: served_def Let_def s1 drive_addr_ports)
  have other: "\<exists>m. bs c = (bufs s c)\<lparr>b_qnext := m\<rparr>" if "c \<noteq> b" for c using 1(2) that by (simp add: s1)
  have "bread d n s = Ok (b, s\<lparr>bufs := bs\<rparr>)" by (simp add: bread_def get s1 1(1) s2)
  moreover have "bc_inv (s\<lparr>bufs := bs\<rparr>)"
  proof (rule bc_inv_upd [OF inv b(1)])
    have "b_next (bs i) = b_next (bufs s i) \<and> b_prev (bs i) = b_prev (bufs s i)" for i
      using other [of i] bb by (cases "i = b") auto
    then show "lru (s\<lparr>bufs := bs\<rparr>) xs" using l lru_cong [of "s\<lparr>bufs := bs\<rparr>" s] by simp
    show "buf_ok (sectors s) (bufs (s\<lparr>bufs := bs\<rparr>) i)" if "i < NBUF" for i
    proof (cases "i = b")
      case True
      then show ?thesis using small no_dev_big by (simp add: bb buf_ok_def)
    next
      case False
      then obtain m where "bs i = (bufs s i)\<lparr>b_qnext := m\<rparr>" using other by blast
      then show ?thesis using inv that by (simp add: bc_inv_def)
    qed
    show "(b_dev (bufs (s\<lparr>bufs := bs\<rparr>) i), b_sector (bufs (s\<lparr>bufs := bs\<rparr>) i), b_valid (bufs (s\<lparr>bufs := bs\<rparr>) i)) =
      (b_dev (bufs s i), b_sector (bufs s i), b_valid (bufs s i))" if "i \<noteq> b" for i
      using other [OF that] by auto
    show "(b_dev (bufs s i), b_sector (bufs s i)) \<noteq> (b_dev (bufs (s\<lparr>bufs := bs\<rparr>) b), b_sector (bufs (s\<lparr>bufs := bs\<rparr>) b))"
      if "i < NBUF" for i
      using find_NoneD [OF miss, of i] l that by (auto simp: lru_def bb)
  qed (use inv in \<open>auto simp: bc_inv_def\<close>)
  ultimately show ?thesis using bb other by auto
qed

lemma bc_held_upd:
  assumes "b < NBUF" and "\<And>c. c \<noteq> b \<Longrightarrow> (b_busy (bufs t c), b_dev (bufs t c), b_sector (bufs t c)) =
      (b_busy (bufs s c), b_dev (bufs s c), b_sector (bufs s c))"
  shows "bc_held t = (bc_held s)(b := bc_held t b)"
  using assms by (auto simp: bc_held_def fun_eq_iff)

lemma bread_ok:
  assumes inv: "bc_inv s" and r: "(d, n) \<in> bc_ready s" and nh: "(d, n) \<notin> ran (bc_held s)"
    and room: "card (dom (bc_held s)) < NBUF"
  shows "\<exists>h s'. bread d n s = Ok (h, s') \<and> bc_inv s' \<and> bc_held s h = None \<and>
    bc_held s' = (bc_held s)(h \<mapsto> (d, n)) \<and> sectors s' = sectors s \<and> bc_ready s' = bc_ready s \<and>
    bcache.more s' = bcache.more s"
proof -
  obtain xs where l: "lru s xs" using inv by (auto simp: bc_inv_def)
  have d: "d < 2" using r by (simp add: bc_ready_def)
  show ?thesis
  proof (cases "find (\<lambda>i. b_dev (bufs s i) = d \<and> b_sector (bufs s i) = n) xs")
    case (Some b)
    note b = bc_cached [OF inv l d Some]
    have nb: "\<not> b_busy (bufs s b)" using nh b by (auto simp: bc_held_ran)
    let ?t = "upd_buf b (b_busy_update (\<lambda>_. True)) s"
    have "bc_held ?t = (bc_held s)(b := bc_held ?t b)" by (rule bc_held_upd [OF b(1)]) (simp add: upd_buf_def)
    moreover have "bc_held ?t b = Some (d, n)" using b by (simp add: bc_held_def upd_buf_def)
    ultimately show ?thesis using bread_hit [OF inv l d Some nb] nb
      by (intro exI [of _ b] exI [of _ ?t]) (simp add: bc_held_def [of s b] upd_buf_def bc_ready_def)
  next
    case None
    have "\<exists>i < NBUF. \<not> b_busy (bufs s i)"
    proof (rule ccontr)
      assume "\<not> ?thesis"
      then have "dom (bc_held s) = {..<NBUF}" by (auto simp: bc_held_dom)
      with room show False by simp
    qed
    then have "find (\<lambda>i. \<not> b_busy (bufs s i)) (rev xs) \<noteq> None" using l by (auto simp: lru_def find_None_iff)
    then obtain b where b: "find (\<lambda>i. \<not> b_busy (bufs s i)) (rev xs) = Some b" by auto
    with find_SomeD [OF b] l have bs: "b < NBUF" "\<not> b_busy (bufs s b)" by (auto simp: lru_def)
    from bread_miss [OF inv l r None b] obtain bs where 1: "bread d n s = Ok (b, s\<lparr>bufs := bs\<rparr>)"
      "bc_inv (s\<lparr>bufs := bs\<rparr>)" "b_dev (bs b) = d" "b_sector (bs b) = n" "b_busy (bs b)"
      "\<forall>c. c \<noteq> b \<longrightarrow> (\<exists>m. bs c = (bufs s c)\<lparr>b_qnext := m\<rparr>)" by blast
    have "bc_held (s\<lparr>bufs := bs\<rparr>) = (bc_held s)(b := bc_held (s\<lparr>bufs := bs\<rparr>) b)"
    proof (rule bc_held_upd [OF bs(1)])
      fix c assume "c \<noteq> b"
      then obtain m where "bs c = (bufs s c)\<lparr>b_qnext := m\<rparr>" using 1(6) by blast
      then show "(b_busy (bufs (s\<lparr>bufs := bs\<rparr>) c), b_dev (bufs (s\<lparr>bufs := bs\<rparr>) c), b_sector (bufs (s\<lparr>bufs := bs\<rparr>) c)) =
        (b_busy (bufs s c), b_dev (bufs s c), b_sector (bufs s c))" by simp
    qed
    moreover have "bc_held (s\<lparr>bufs := bs\<rparr>) b = Some (d, n)" using bs 1(3-5) by (simp add: bc_held_def)
    ultimately show ?thesis using 1(1,2) bs
      by (intro exI [of _ b] exI [of _ "s\<lparr>bufs := bs\<rparr>"]) (simp add: bc_held_def [of s b] bc_ready_def)
  qed
qed

lemma bread_held:
  assumes "bc_inv s" and "(d, n) \<in> ran (bc_held s)"
  shows "bread d n s = Sleeps"
proof -
  obtain xs where l: "lru s xs" using assms by (auto simp: bc_inv_def)
  obtain i where i: "i < NBUF" "b_busy (bufs s i)" "b_dev (bufs s i) = d" "b_sector (bufs s i) = n"
    using assms(2) by (auto simp: bc_held_ran)
  have "find (\<lambda>i. b_dev (bufs s i) = d \<and> b_sector (bufs s i) = n) xs \<noteq> None"
    using i l by (auto simp: lru_def find_None_iff)
  then obtain b where b: "find (\<lambda>i. b_dev (bufs s i) = d \<and> b_sector (bufs s i) = n) xs = Some b" by auto
  from find_SomeD [OF b] l have "b < NBUF" "b_dev (bufs s b) = d" "b_sector (bufs s b) = n" by (auto simp: lru_def)
  moreover have "b_valid (bufs s i)" using assms(1) i by (auto simp: bc_inv_def buf_ok_def)
  ultimately have "b = i" using assms(1) i unfolding bc_inv_def by metis
  with b i show ?thesis by (simp add: bread_def bget_def lru_scans [OF l])
qed

lemma bread_full:
  assumes "bc_inv s" and "(d, n) \<in> bc_ready s" and "(d, n) \<notin> ran (bc_held s)" and "card (dom (bc_held s)) = NBUF"
  shows "bread d n s = Panic ''bget: no buffers''"
proof -
  obtain xs where l: "lru s xs" using assms by (auto simp: bc_inv_def)
  have "dom (bc_held s) \<subseteq> {..<NBUF}" by (auto simp: bc_held_dom)
  with assms(4) have "dom (bc_held s) = {..<NBUF}" by (metis card_lessThan card_subset_eq finite_lessThan)
  then have busy: "b_busy (bufs s i)" if "i < NBUF" for i using that by (auto simp: bc_held_dom)
  have "find (\<lambda>i. b_dev (bufs s i) = d \<and> b_sector (bufs s i) = n) xs = None"
    using assms(3) busy l by (auto simp: find_None_iff lru_def bc_held_ran)
  moreover have "find (\<lambda>i. \<not> b_busy (bufs s i)) (rev xs) = None"
    using busy l by (auto simp: find_None_iff lru_def)
  ultimately show ?thesis by (simp add: bread_def bget_def lru_scans [OF l])
qed

lemma bwrite_ok:
  assumes inv: "bc_inv s" and h: "bc_held s h = Some k" and r: "k \<in> bc_ready s" and len: "length x = BSIZE"
  shows "\<exists>s'. bwrite h (set_data h x s) = Ok s' \<and> bc_inv s' \<and> bc_held s' = bc_held s \<and>
    sectors s' = (sectors s)(k := x) \<and> bc_ready s' = bc_ready s \<and> bcache.more s' = bcache.more s"
proof -
  have b: "h < NBUF" "b_busy (bufs s h)" "k = (b_dev (bufs s h), b_sector (bufs s h))"
    using h by (auto simp: bc_held_def split: if_splits)
  have small: "b_dev (bufs s h) < 2" "b_sector (bufs s h) < 2 ^ 28" and dev: "b_dev (bufs s h) = 0 \<or> havedisk1 s"
    using r b by (auto simp: bc_ready_def)
  have v: "b_valid (bufs s h)" using inv b by (auto simp: bc_inv_def buf_ok_def)
  define s1 where "s1 = upd_buf h (b_dirty_update (\<lambda>_. True)) (set_data h x s)"
  have s1: "bufs s1 = (bufs s)(h := (bufs s h)\<lparr>b_data := x, b_dirty := True\<rparr>)" "sectors s1 = sectors s"
    "idequeue s1 = None" "havedisk1 s1 = havedisk1 s"
    using inv by (simp_all add: s1_def set_data_def upd_buf_def bc_inv_def)
  have w: "write_out (bufs s1) h (sectors s1) = (sectors s)(k := x)"
    using addr_small [OF small] by (simp add: write_out_def s1 b(3) ide_ports_def)
  from iderw_idle [of s1 h] b dev obtain bs m where
    1: "iderw h s1 = Ok (s1\<lparr>bufs := bs, sectors := (sectors s)(k := x)\<rparr>)"
      "\<forall>c. c \<noteq> h \<longrightarrow> (\<exists>n. bs c = (bufs s1 c)\<lparr>b_qnext := n\<rparr>)"
      "bs h = (served (s1\<lparr>sectors := (sectors s)(k := x)\<rparr>) h)\<lparr>b_qnext := m\<rparr>"
    unfolding w by (auto simp: s1)
  let ?t = "s\<lparr>bufs := bs, sectors := (sectors s)(k := x)\<rparr>"
  have t: "s1\<lparr>bufs := bs, sectors := (sectors s)(k := x)\<rparr> = ?t"
    by (cases s) (simp add: s1_def set_data_def upd_buf_def)
  have bh: "bs h = (bufs s h)\<lparr>b_data := x, b_valid := True, b_dirty := False, b_qnext := m\<rparr>"
    unfolding 1(3) by (cases "bufs s h") (simp add: served_def Let_def s1)
  have other: "\<exists>m. bs c = (bufs s c)\<lparr>b_qnext := m\<rparr>" if "c \<noteq> h" for c using 1(2) that by (simp add: s1)
  have flds: "b_next (bs i) = b_next (bufs s i) \<and> b_prev (bs i) = b_prev (bufs s i) \<and> b_busy (bs i) = b_busy (bufs s i) \<and>
    b_dev (bs i) = b_dev (bufs s i) \<and> b_sector (bs i) = b_sector (bufs s i) \<and> b_valid (bs i) = b_valid (bufs s i)" for i
    using other [of i] bh v by (cases "i = h") auto
  have neq: "(b_dev (bufs s i), b_sector (bufs s i)) \<noteq> k" if "i < NBUF" "i \<noteq> h" "b_valid (bufs s i)" for i
    using inv that b unfolding bc_inv_def by blast
  obtain xs where l: "lru s xs" using inv by (auto simp: bc_inv_def)
  have "bc_inv ?t"
  proof (rule bc_inv_upd [OF inv b(1)])
    show "lru ?t xs" using l lru_cong [of ?t s] flds by simp
    show "buf_ok ((sectors s)(k := x)) (bufs ?t i)" if "i < NBUF" for i
    proof (cases "i = h")
      case True
      then show ?thesis using small no_dev_big b by (simp add: bh buf_ok_def)
    next
      case False
      then obtain m where "bs i = (bufs s i)\<lparr>b_qnext := m\<rparr>" using other by blast
      moreover have "buf_ok (sectors s) (bufs s i)" using inv that by (simp add: bc_inv_def)
      ultimately show ?thesis using neq [OF that False] by (auto simp: buf_ok_def)
    qed
  qed (use inv len neq b flds in \<open>auto simp: bc_inv_def\<close>)
  moreover have "bc_held ?t = bc_held s" using flds by (auto simp: bc_held_def)
  moreover have "bwrite h (set_data h x s) = Ok ?t"
    using b(2) 1(1) by (simp add: bwrite_def t flip: s1_def) (simp add: set_data_def upd_buf_def)
  ultimately show ?thesis by (intro exI [of _ ?t]) (simp add: bc_ready_def)
qed

lemma brelse_ok:
  assumes inv: "bc_inv s" and h: "bc_held s h = Some k"
  shows "\<exists>s'. brelse h s = Ok s' \<and> bc_inv s' \<and> bc_held s' = (bc_held s)(h := None) \<and>
    sectors s' = sectors s \<and> bc_ready s' = bc_ready s \<and> bcache.more s' = bcache.more s"
proof -
  have b: "h < NBUF" "b_busy (bufs s h)" using h by (auto simp: bc_held_def split: if_splits)
  obtain xs where l: "lru s xs" using inv by (auto simp: bc_inv_def)
  define s1 where "s1 = s\<lparr>bufs := list_push h (list_unlink h (bufs s))\<rparr>"
  define t where "t = upd_buf h (b_busy_update (\<lambda>_. False)) s1"
  have flds: "b_dirty (bufs s1 i) = b_dirty (bufs s i) \<and> b_busy (bufs s1 i) = b_busy (bufs s i) \<and> b_data (bufs s1 i) = b_data (bufs s i) \<and>
    b_dev (bufs s1 i) = b_dev (bufs s i) \<and> b_sector (bufs s1 i) = b_sector (bufs s i) \<and> b_valid (bufs s1 i) = b_valid (bufs s i)" for i
    using same_buf_fields [OF list_push_same [of h "list_unlink h (bufs s)" i]]
      same_buf_fields [OF list_unlink_same [of h "bufs s" i]] by (simp add: s1_def)
  have l1: "lru s1 (h # remove1 h xs)" using brelse_front [OF l b(1)] by (simp add: s1_def)
  have oth: "sectors s1 = sectors s" "idequeue s1 = idequeue s" by (simp_all add: s1_def)
  have "bc_inv t"
  proof (rule bc_inv_upd [OF inv b(1)])
    show "lru t (h # remove1 h xs)" unfolding t_def using l1 by (subst lru_upd_buf) simp_all
    show "buf_ok (sectors s) (bufs t i)" if "i < NBUF" for i
    proof -
      have "buf_ok (sectors s) (bufs s i)" using inv that by (simp add: bc_inv_def)
      with flds [of i] show ?thesis by (auto simp: t_def upd_buf_def buf_ok_def)
    qed
    show "(b_dev (bufs s i), b_sector (bufs s i)) \<noteq> (b_dev (bufs t h), b_sector (bufs t h))"
      if "i < NBUF" "i \<noteq> h" "b_valid (bufs s i)" for i
    proof -
      have "b_dev (bufs t h) = b_dev (bufs s h)" "b_sector (bufs t h) = b_sector (bufs s h)"
        using flds [of h] by (simp_all add: t_def upd_buf_def)
      with inv that b show ?thesis unfolding bc_inv_def by (metis prod.inject)
    qed
  qed (use inv flds oth in \<open>auto simp: bc_inv_def t_def upd_buf_def\<close>)
  moreover have "bc_held t = (bc_held s)(h := bc_held t h)"
    using flds by (intro bc_held_upd [OF b(1)]) (simp add: t_def upd_buf_def)
  moreover have "bc_held t h = None" by (simp add: bc_held_def t_def upd_buf_def)
  moreover have "brelse h s = Ok t" using b(2) by (simp add: brelse_def t_def s1_def)
  ultimately show ?thesis by (intro exI [of _ t]) (simp add: t_def s1_def upd_buf_def bc_ready_def)
qed

interpretation bc: block_cache bread "\<lambda>h x s. bwrite h (set_data h x s)" brelse buf_data sectors bc_held bc_ready
  bcache.more bc_inv NBUF
proof
  show "buf_data s h = sectors s k" if "bc_inv s" "bc_held s h = Some k" for s :: "'a bcache_scheme" and h k
    using that by (auto simp: buf_data_def bc_held_def bc_inv_def buf_ok_def split: if_splits)
  show "length (sectors s k) = BSIZE" if "bc_inv s" for s :: "'a bcache_scheme" and k
    using that by (cases k) (simp add: bc_inv_def)
  show "\<exists>e. bread d n s = Panic e" if "bc_inv s" "(d, n) \<in> bc_ready s" "(d, n) \<notin> ran (bc_held s)"
    "card (dom (bc_held s)) = NBUF" for s :: "'a bcache_scheme" and d n
    using bread_full [OF that] by blast
qed (fact bread_ok bread_held bwrite_ok brelse_ok)+

section \<open>Frame of the cache\<close>

text \<open>
  Whatever the state of the cache, a call that returns leaves the state outside it alone. The
  collection \<open>frames\<close> says so for every operation.
\<close>

named_theorems frames \<open>operations that keep the state outside the cache\<close>

lemma upd_buf_more [simp]: "bcache.more (upd_buf b f s) = bcache.more s" "sectors (upd_buf b f s) = sectors s"
  by (simp_all add: upd_buf_def)

lemma idestart_more [simp]: "bcache.more (idestart b s) = bcache.more s"
  by (simp add: idestart_def)

lemma ideintr_more [simp]: "bcache.more (ideintr s) = bcache.more s"
  by (simp add: ideintr_def Let_def split: option.split)

lemma ide_submit_more [frames]: "ide_submit b s = Ok s' \<Longrightarrow> bcache.more s' = bcache.more s"
  by (auto simp: ide_submit_def Let_def split: option.splits if_splits)

lemma iderw_wait_more:
  assumes "iderw_wait b s = Some (Ok s')"
  shows "bcache.more s' = bcache.more s"
proof -
  have "\<forall>s'. r = Ok s' \<longrightarrow> bcache.more s' = bcache.more s" if "iderw_wait b s = Some r" for r
    by (rule iderw_wait.raw_induct [of "\<lambda>b s r. \<forall>s'. r = Ok s' \<longrightarrow> bcache.more s' = bcache.more s", OF _ that])
      (auto split: if_splits)
  with assms show ?thesis by blast
qed

lemma iderw_more [frames]: "iderw b s = Ok s' \<Longrightarrow> bcache.more s' = bcache.more s"
  by (auto simp: iderw_def iderw_start_def kbind_Ok iderw_wait_more ide_submit_more split: if_splits option.splits)

lemma bget_more [frames]: "bget d n s = Ok (b, s') \<Longrightarrow> bcache.more s' = bcache.more s"
  by (auto simp: bget_def split: option.splits if_splits)

lemma bread_more [frames]: "bread d n s = Ok (b, s') \<Longrightarrow> bcache.more s' = bcache.more s"
  by (auto simp: bread_def kbind_Ok bget_more iderw_more split: if_splits)

lemma set_data_more [simp]: "bcache.more (set_data b x s) = bcache.more s"
  by (simp add: set_data_def)

lemma bwrite_more [frames]: "bwrite b s = Ok s' \<Longrightarrow> bcache.more s' = bcache.more s"
  by (auto simp: bwrite_def iderw_more split: if_splits)

lemma brelse_more [frames]: "brelse b s = Ok s' \<Longrightarrow> bcache.more s' = bcache.more s"
  by (auto simp: brelse_def split: if_splits)

section \<open>The cache at boot\<close>

text \<open>The state at boot: zeroed buffers and an idle disk.\<close>

definition cold :: "'a bcache_scheme \<Rightarrow> bool" where
  "cold s \<longleftrightarrow> idequeue s = None \<and> (\<forall>a. length (sectors s a) = BSIZE) \<and>
     (\<forall>i < NBUF. \<not> b_busy (bufs s i) \<and> \<not> b_valid (bufs s i) \<and> \<not> b_dirty (bufs s i))"

definition binit_bufs :: "(nat \<Rightarrow> buf) \<Rightarrow> nat \<Rightarrow> nat \<Rightarrow> buf" where
  "binit_bufs bs0 k = fold (\<lambda>b bs. list_push b (bs(b := (bs b)\<lparr>b_dev := no_dev\<rparr>))) [0..<k] bs0"

lemma dlist_cong: "(\<And>i. b_next (bs i) = b_next (bs' i)) \<Longrightarrow> (\<And>i. b_prev (bs i) = b_prev (bs' i)) \<Longrightarrow> dlist bs xs = dlist bs' xs"
  by (simp add: dlist_def)

lemma binit_bufs_list:
  assumes "dlist bs0 []" and "k \<le> NBUF"
  shows "dlist (binit_bufs bs0 k) (rev [0..<k]) \<and>
    (\<forall>i. b_busy (binit_bufs bs0 k i) = b_busy (bs0 i) \<and> b_valid (binit_bufs bs0 k i) = b_valid (bs0 i) \<and>
      b_dirty (binit_bufs bs0 k i) = b_dirty (bs0 i) \<and> (i < k \<longrightarrow> b_dev (binit_bufs bs0 k i) = no_dev))"
  using assms(2)
proof (induction k)
  case 0
  then show ?case using assms(1) by (simp add: binit_bufs_def)
next
  case (Suc k)
  let ?bs = "binit_bufs bs0 k"
  let ?c = "?bs(k := (?bs k)\<lparr>b_dev := no_dev\<rparr>)"
  have e: "binit_bufs bs0 (Suc k) = list_push k ?c" by (simp add: binit_bufs_def)
  have "dlist ?c (rev [0..<k])" using Suc dlist_cong [of ?c ?bs] by simp
  then have "dlist (list_push k ?c) (k # rev [0..<k])" using Suc.prems by (intro dlist_push) auto
  then show ?case using Suc same_buf_fields [OF list_push_same [of k ?c]] by (auto simp: e less_Suc_eq)
qed

lemma binit_inv:
  assumes "cold s"
  shows "bc_inv (binit s)" and "sectors (binit s) = sectors s" and "bc_held (binit s) = Map.empty"
proof -
  let ?bs0 = "(bufs s)(NBUF := (bufs s NBUF)\<lparr>b_prev := NBUF, b_next := NBUF\<rparr>)"
  have b: "bufs (binit s) = binit_bufs ?bs0 NBUF" "idequeue (binit s) = idequeue s"
    by (simp_all add: binit_def Let_def binit_bufs_def)
  show s: "sectors (binit s) = sectors s" by (simp add: binit_def Let_def)
  have "dlist ?bs0 []" by (simp add: dlist_def ring_def)
  note l = binit_bufs_list [OF this order.refl]
  have f: "\<not> b_busy (bufs (binit s) i) \<and> \<not> b_valid (bufs (binit s) i) \<and> \<not> b_dirty (bufs (binit s) i) \<and> b_dev (bufs (binit s) i) = no_dev"
    if "i < NBUF" for i
    using l assms that by (simp add: b cold_def)
  have "lru (binit s) (rev [0..<NBUF])" using l by (auto simp: lru_def b)
  then show "bc_inv (binit s)" using assms f by (auto simp: bc_inv_def cold_def b s buf_ok_def)
  show "bc_held (binit s) = Map.empty" using f by (auto simp: bc_held_def)
qed

lemma binit_cold:
  assumes "cold s" and "i < NBUF"
  shows "\<not> b_valid (bufs (binit s) i)"
proof -
  let ?bs0 = "(bufs s)(NBUF := (bufs s NBUF)\<lparr>b_prev := NBUF, b_next := NBUF\<rparr>)"
  have "dlist ?bs0 []" by (simp add: dlist_def ring_def)
  from binit_bufs_list [OF this order.refl] show ?thesis
    using assms by (simp add: binit_def Let_def binit_bufs_def cold_def)
qed

lemma lru_example:
  assumes "\<And>i. b_next (bufs s i) = (if i = 0 then NBUF else i - 1)"
    and "\<And>i. b_prev (bufs s i) = (if i = NBUF - 1 then NBUF else if i = NBUF then 0 else i + 1)"
  shows "lru s (rev [0..<NBUF])"
proof -
  have "[0..<NBUF] = [0, 1, 2, 3, 4, 5, 6, 7, 8, 9]" by (simp add: NBUF_def upt_rec)
  moreover have "set (rev [0..<NBUF]) = {..<NBUF}" by auto
  ultimately show ?thesis unfolding lru_def dlist_def ring_def assms by (simp add: NBUF_def)
qed

lemma find_rev: "find P (rev xs) = (if filter P xs = [] then None else Some (last (filter P xs)))"
  by (induction xs rule: rev_induct) auto

text \<open>
  Replacement is least-recently-used: a sector that is not cached takes over the last buffer
  of the list that nobody holds, and releasing a buffer moves it to the front.
\<close>
theorem bget_lru:
  assumes "lru s xs"
  shows "(\<forall>d n. (\<forall>b < NBUF. (b_dev (bufs s b), b_sector (bufs s b)) \<noteq> (d, n)) \<longrightarrow>
      bget d n s = (let free = filter (\<lambda>b. \<not> b_busy (bufs s b)) xs in
        if free = [] then Panic ''bget: no buffers''
        else Ok (last free, upd_buf (last free) (\<lambda>bf. bf\<lparr>b_dev := d, b_sector := n, b_busy := True, b_valid := False, b_dirty := False\<rparr>) s))) \<and>
    (\<forall>b < NBUF. b_busy (bufs s b) \<longrightarrow> (\<exists>s'. brelse b s = Ok s' \<and> lru s' (b # remove1 b xs)))"
proof (intro conjI allI impI)
  fix d n assume n: "\<forall>b < NBUF. (b_dev (bufs s b), b_sector (bufs s b)) \<noteq> (d, n)"
  have "find (\<lambda>i. b_dev (bufs s i) = d \<and> b_sector (bufs s i) = n) xs = None"
    using n assms by (auto simp: find_None_iff lru_def)
  then show "bget d n s = (let free = filter (\<lambda>b. \<not> b_busy (bufs s b)) xs in
        if free = [] then Panic ''bget: no buffers''
        else Ok (last free, upd_buf (last free) (\<lambda>bf. bf\<lparr>b_dev := d, b_sector := n, b_busy := True, b_valid := False, b_dirty := False\<rparr>) s))"
    by (simp add: bget_def lru_scans [OF assms] find_rev Let_def)
next
  fix b assume "b < NBUF" "b_busy (bufs s b)"
  then show "\<exists>s'. brelse b s = Ok s' \<and> lru s' (b # remove1 b xs)"
    using brelse_front [OF assms, of b] by (auto simp: brelse_def lru_upd_buf)
qed

theorem bget_lru_witness:
  "\<exists>(s :: bcache) s'. lru s (rev [0..<NBUF]) \<and> bget 0 5 s = Ok (0, s')"
proof -
  let ?b = "\<lparr>b_busy = False, b_valid = False, b_dirty = False, b_dev = 0, b_sector = 0, b_prev = 0, b_next = 0, b_qnext = None, b_data = []\<rparr>"
  let ?s = "\<lparr>bufs = (\<lambda>i. ?b\<lparr>b_next := if i = 0 then NBUF else i - 1, b_prev := if i = NBUF - 1 then NBUF else if i = NBUF then 0 else i + 1\<rparr>),
    idequeue = None, havedisk1 = False, sectors = (\<lambda>_. []), bad_sectors = {}\<rparr>"
  have u: "[0..<NBUF] = [0, 1, 2, 3, 4, 5, 6, 7, 8, 9]" by (simp add: NBUF_def upt_rec)
  have l: "lru ?s (rev [0..<NBUF])" by (rule lru_example) simp_all
  from bget_lru [OF l] have "\<exists>s'. bget 0 5 ?s = Ok (0, s')" by (simp add: u Let_def)
  with l show ?thesis by blast
qed

text \<open>
  A read the drive reports as failed is not reported: \<open>ideintr\<close> skips the transfer but marks
  the buffer valid, so \<open>bread\<close> returns the recycled buffer with the bytes of the sector it held
  before.
\<close>
theorem bread_error_stale:
  assumes "idequeue s = None" and "lru s xs" and "d < 2" and "n < 2 ^ 28" and "d = 0 \<or> havedisk1 s"
    and "\<And>i. i < NBUF \<Longrightarrow> (b_dev (bufs s i), b_sector (bufs s i)) \<noteq> (d, n)"
    and "find (\<lambda>i. \<not> b_busy (bufs s i)) (rev xs) = Some b" and "(d, n) \<in> bad_sectors s"
  shows "\<exists>s'. bread d n s = Ok (b, s') \<and> b_valid (bufs s' b) \<and> buf_data s' b = buf_data s b"
proof -
  define s1 where "s1 = upd_buf b (\<lambda>bf. bf\<lparr>b_dev := d, b_sector := n, b_busy := True, b_valid := False, b_dirty := False\<rparr>) s"
  have miss: "find (\<lambda>i. b_dev (bufs s i) = d \<and> b_sector (bufs s i) = n) xs = None"
    using assms(2,6) by (auto simp: find_None_iff lru_def)
  have get: "bget d n s = Ok (b, s1)"
    using miss assms(7) by (simp add: bget_def lru_scans [OF assms(2)] s1_def)
  have s1: "bufs s1 b = (bufs s b)\<lparr>b_dev := d, b_sector := n, b_busy := True, b_valid := False, b_dirty := False\<rparr>"
    "idequeue s1 = None" "havedisk1 s1 = havedisk1 s" "bad_sectors s1 = bad_sectors s"
    using assms(1) by (simp_all add: s1_def upd_buf_def)
  have "addr (bufs s1 b) = (d, n)" using assms(3,4) by (simp add: drive_addr_ports s1)
  moreover obtain bs m sec where "iderw b s1 = Ok (s1\<lparr>bufs := bs, sectors := sec\<rparr>)"
    "bs b = (served (s1\<lparr>sectors := sec\<rparr>) b)\<lparr>b_qnext := m\<rparr>"
    using iderw_idle [of s1 b] assms(5) by (auto simp: s1)
  ultimately show ?thesis
    using assms(8) by (simp add: bread_def get s1 served_def Let_def buf_data_def)
qed

theorem bread_error_stale_witness:
  "\<exists>(s :: bcache) s'. bread 0 5 s = Ok (0, s') \<and> buf_data s' 0 = [1] \<and> sectors s (0, 5) = [2]"
proof -
  let ?b = "\<lparr>b_busy = False, b_valid = False, b_dirty = False, b_dev = 0, b_sector = 0, b_prev = 0, b_next = 0, b_qnext = None, b_data = [1]\<rparr>"
  let ?s = "\<lparr>bufs = (\<lambda>i. ?b\<lparr>b_next := if i = 0 then NBUF else i - 1, b_prev := if i = NBUF - 1 then NBUF else if i = NBUF then 0 else i + 1\<rparr>),
    idequeue = None, havedisk1 = False, sectors = (\<lambda>_. [2]), bad_sectors = {(0, 5)}\<rparr>"
  have u: "[0..<NBUF] = [0, 1, 2, 3, 4, 5, 6, 7, 8, 9]" by (simp add: NBUF_def upt_rec)
  have l: "lru ?s (rev [0..<NBUF])" by (rule lru_example) simp_all
  have "find (\<lambda>i. \<not> b_busy (bufs ?s i)) (rev (rev [0..<NBUF])) = Some 0" by (simp add: u)
  from bread_error_stale [OF _ l _ _ _ _ this, of 0 5] obtain s' where
    "bread 0 5 ?s = Ok (0, s')" "buf_data s' 0 = [1]" by (auto simp: buf_data_def)
  then show ?thesis by (intro exI [of _ ?s] exI [of _ s']) simp
qed

end
