(* ===== verification/Fs_Disk.thy ===== *)
theory Fs_Disk
  imports Bcache
begin

unbundle bit_operations_syntax

text \<open>
  The block layer of the file system, first part of \<open>src/P1/xv6/xv6/kernel/fs.c\<close>: the on-disk
  layout of \<open>fs.h\<close>, the super block, zeroing a block, and the allocator over the in-use bitmap.
  Blocks are changed through the buffer cache. A \<open>uint\<close> is a \<open>nat\<close> below \<open>2 ^ 32\<close>. The lemmas
  state each operation as a function of the blocks' contents and prove the code equal to it.
\<close>

section \<open>Layout\<close>

definition IPB :: nat where "IPB = 8"
definition BPB :: nat where "BPB = 4096"

definition IBLOCK :: "nat \<Rightarrow> nat" where
  "IBLOCK i = i div IPB + 2"

definition BBLOCK :: "nat \<Rightarrow> nat \<Rightarrow> nat" where
  "BBLOCK b ninodes = b div BPB + ninodes div IPB + 3"

record superblock =
  sb_size :: nat
  sb_nblocks :: nat
  sb_ninodes :: nat

definition decode_sb :: "8 word list \<Rightarrow> superblock" where
  "decode_sb d = \<lparr>sb_size = get_le 4 d 0, sb_nblocks = get_le 4 d 4, sb_ninodes = get_le 4 d 8\<rparr>"

definition bit_set :: "8 word list \<Rightarrow> nat \<Rightarrow> bool" where
  "bit_set d bi \<longleftrightarrow> d ! (bi div 8) AND push_bit (bi mod 8) 1 \<noteq> 0"

definition mark_bit :: "8 word list \<Rightarrow> nat \<Rightarrow> 8 word list" where
  "mark_bit d bi = d[bi div 8 := d ! (bi div 8) OR push_bit (bi mod 8) 1]"

definition clear_bit :: "8 word list \<Rightarrow> nat \<Rightarrow> 8 word list" where
  "clear_bit d bi = d[bi div 8 := d ! (bi div 8) AND NOT (push_bit (bi mod 8) 1)]"

section \<open>The operations\<close>

definition readsb :: "nat \<Rightarrow> 'a bcache_scheme \<Rightarrow> (superblock \<times> 'a bcache_scheme) kres" where
  "readsb dev s = kbind (bread dev 1 s) (\<lambda>(bp, s).
     kbind (brelse bp s) (\<lambda>s'. Ok (decode_sb (buf_data s bp), s')))"

definition bzero :: "nat \<Rightarrow> nat \<Rightarrow> 'a bcache_scheme \<Rightarrow> 'a bcache_scheme kres" where
  "bzero dev bno s = kbind (bread dev bno s) (\<lambda>(bp, s).
     kbind (bwrite bp (set_data bp (replicate BSIZE 0) s)) (brelse bp))"

function balloc_loop :: "nat \<Rightarrow> superblock \<Rightarrow> nat \<Rightarrow> 'a bcache_scheme \<Rightarrow> (nat \<times> 'a bcache_scheme) kres" where
  "balloc_loop dev sb b s =
     (if b < sb_size sb then
        kbind (bread dev (BBLOCK b (sb_ninodes sb)) s) (\<lambda>(bp, s).
          case find (\<lambda>bi. \<not> bit_set (buf_data s bp) bi) [0..<BPB] of
            Some bi \<Rightarrow>
              kbind (bwrite bp (set_data bp (mark_bit (buf_data s bp) bi) s)) (\<lambda>s.
              kbind (brelse bp s) (\<lambda>s. Ok (b + bi, s)))
          | None \<Rightarrow> kbind (brelse bp s) (balloc_loop dev sb (b + BPB)))
      else Panic ''balloc: out of blocks'')"
  by pat_completeness auto
termination by (relation "measure (\<lambda>(dev, sb, b, s). sb_size sb - b)") (auto simp: BPB_def)

declare balloc_loop.simps [simp del]

definition balloc :: "nat \<Rightarrow> 'a bcache_scheme \<Rightarrow> (nat \<times> 'a bcache_scheme) kres" where
  "balloc dev s = kbind (readsb dev s) (\<lambda>(sb, s). balloc_loop dev sb 0 s)"

definition bfree :: "nat \<Rightarrow> nat \<Rightarrow> 'a bcache_scheme \<Rightarrow> 'a bcache_scheme kres" where
  "bfree dev b s =
     kbind (bzero dev b s) (\<lambda>s.
     kbind (readsb dev s) (\<lambda>(sb, s).
     kbind (bread dev (BBLOCK b (sb_ninodes sb)) s) (\<lambda>(bp, s).
       if \<not> bit_set (buf_data s bp) (b mod BPB) then Panic ''freeing free block''
       else kbind (bwrite bp (set_data bp (clear_bit (buf_data s bp) (b mod BPB)) s)) (brelse bp))))"

lemma readsb_more [frames]: "readsb dev s = Ok (sb, s') \<Longrightarrow> bcache.more s' = bcache.more s"
  by (auto simp: readsb_def kbind_Ok frames)

lemma bzero_more [frames]: "bzero dev b s = Ok s' \<Longrightarrow> bcache.more s' = bcache.more s"
  by (auto simp: bzero_def kbind_Ok frames)

lemma balloc_loop_more [frames]: "balloc_loop dev sb b s = Ok (x, s') \<Longrightarrow> bcache.more s' = bcache.more s"
proof (induction dev sb b s rule: balloc_loop.induct)
  case (1 dev sb b s)
  from 1(2) obtain h s1 where r: "b < sb_size sb" "bread dev (BBLOCK b (sb_ninodes sb)) s = Ok (h, s1)" and
    k: "(case find (\<lambda>bi. \<not> bit_set (buf_data s1 h) bi) [0..<BPB] of
          Some bi \<Rightarrow> kbind (bwrite h (set_data h (mark_bit (buf_data s1 h) bi) s1)) (\<lambda>s. kbind (brelse h s) (\<lambda>s. Ok (b + bi, s)))
        | None \<Rightarrow> kbind (brelse h s1) (balloc_loop dev sb (b + BPB))) = Ok (x, s')"
    unfolding balloc_loop.simps [of dev sb b s] by (auto simp: kbind_Ok split: if_splits)
  show ?case
  proof (cases "find (\<lambda>bi. \<not> bit_set (buf_data s1 h) bi) [0..<BPB]")
    case None
    with k obtain s2 where "brelse h s1 = Ok s2" "balloc_loop dev sb (b + BPB) s2 = Ok (x, s')" by (auto simp: kbind_Ok)
    with 1(1) [OF r(1,2) refl None] r(2) show ?thesis by (simp add: frames)
  next
    case (Some bi)
    with k r(2) show ?thesis by (auto simp: kbind_Ok frames)
  qed
qed

lemma balloc_more [frames]: "balloc dev s = Ok (x, s') \<Longrightarrow> bcache.more s' = bcache.more s"
  by (auto simp: balloc_def kbind_Ok frames)

lemma bfree_more [frames]: "bfree dev b s = Ok s' \<Longrightarrow> bcache.more s' = bcache.more s"
  by (auto simp: bfree_def kbind_Ok frames split: if_splits)

section \<open>Bits\<close>

lemma bit_set_bit: "bit_set d bi \<longleftrightarrow> bit (d ! (bi div 8)) (bi mod 8)"
proof -
  have "w AND push_bit n 1 = (if bit w n then push_bit n 1 else 0)" for w :: "8 word" and n
    by (rule bit_eqI) (auto simp: bit_simps)
  moreover have "(push_bit (bi mod 8) 1 :: 8 word) \<noteq> 0"
  proof -
    have "bi mod 8 < LENGTH(8)" by simp
    then have "bit (push_bit (bi mod 8) 1 :: 8 word) (bi mod 8)" by (simp only: bit_simps) simp
    then show ?thesis by (metis bit_0_eq bot_apply bot_bool_def)
  qed
  ultimately show ?thesis by (simp add: bit_set_def)
qed

lemma length_mark_bit [simp]: "length (mark_bit d bi) = length d" "length (clear_bit d bi) = length d"
  by (simp_all add: mark_bit_def clear_bit_def)

lemma bit_set_mark: "bi div 8 < length d \<Longrightarrow> bit_set (mark_bit d bi) bj \<longleftrightarrow> bit_set d bj \<or> bi = bj"
proof -
  assume l: "bi div 8 < length d"
  have "bi = bj \<longleftrightarrow> bi div 8 = bj div 8 \<and> bi mod 8 = bj mod 8" by (metis div_mult_mod_eq)
  moreover have "bj mod 8 < 8" by simp
  ultimately show ?thesis using l
    by (auto simp: bit_set_bit mark_bit_def nth_list_update bit_simps)
qed

lemma bit_set_clear: "bi div 8 < length d \<Longrightarrow> bit_set (clear_bit d bi) bj \<longleftrightarrow> bit_set d bj \<and> bi \<noteq> bj"
proof -
  assume l: "bi div 8 < length d"
  have "bi = bj \<longleftrightarrow> bi div 8 = bj div 8 \<and> bi mod 8 = bj mod 8" by (metis div_mult_mod_eq)
  moreover have "bj mod 8 < 8" by simp
  ultimately show ?thesis using l
    by (auto simp: bit_set_bit clear_bit_def nth_list_update bit_simps)
qed

section \<open>The operations on the contents of the disk\<close>

type_synonym blocks = "nat \<times> nat \<Rightarrow> 8 word list"

definition fs_sb :: "blocks \<Rightarrow> nat \<Rightarrow> superblock" where
  "fs_sb B dev = decode_sb (B (dev, 1))"

definition bitmap_block :: "blocks \<Rightarrow> nat \<Rightarrow> nat \<Rightarrow> nat" where
  "bitmap_block B dev b = BBLOCK b (sb_ninodes (fs_sb B dev))"

definition in_use :: "blocks \<Rightarrow> nat \<Rightarrow> nat \<Rightarrow> bool" where
  "in_use B dev b = bit_set (B (dev, bitmap_block B dev b)) (b mod BPB)"

text \<open>The bits \<open>balloc\<close> looks at: those of whole bitmap blocks.\<close>

definition bitmap_end :: "blocks \<Rightarrow> nat \<Rightarrow> nat" where
  "bitmap_end B dev = BPB * ((sb_size (fs_sb B dev) + BPB - 1) div BPB)"

definition first_free :: "blocks \<Rightarrow> nat \<Rightarrow> nat option" where
  "first_free B dev = find (\<lambda>b. \<not> in_use B dev b) [0..<bitmap_end B dev]"

definition mark_used :: "blocks \<Rightarrow> nat \<Rightarrow> nat \<Rightarrow> blocks" where
  "mark_used B dev b = B((dev, bitmap_block B dev b) := mark_bit (B (dev, bitmap_block B dev b)) (b mod BPB))"

definition mark_free :: "blocks \<Rightarrow> nat \<Rightarrow> nat \<Rightarrow> blocks" where
  "mark_free B dev b = B((dev, bitmap_block B dev b) := clear_bit (B (dev, bitmap_block B dev b)) (b mod BPB))"

definition zero_block :: "blocks \<Rightarrow> nat \<Rightarrow> nat \<Rightarrow> blocks" where
  "zero_block B dev b = B((dev, b) := replicate BSIZE 0)"

text \<open>The super block and the bitmap can be read: the sectors work and nobody holds them.\<close>

definition alloc_room :: "nat \<Rightarrow> 'a bcache_scheme \<Rightarrow> bool" where
  "alloc_room dev s \<longleftrightarrow> bc.room s (dev, 1) \<and>
     (\<forall>b < bitmap_end (sectors s) dev. bc.room s (dev, bitmap_block (sectors s) dev b))"

lemma bitmap_end_ge: "sb_size (fs_sb B dev) \<le> bitmap_end B dev"
  and bitmap_end_less: "b < bitmap_end B dev \<Longrightarrow> BPB * (b div BPB) < sb_size (fs_sb B dev)"
proof -
  let ?n = "sb_size (fs_sb B dev)"
  have p: "0 < BPB" by (simp add: BPB_def)
  have "(?n + BPB - 1) mod BPB < BPB" using p by simp
  moreover have "BPB * ((?n + BPB - 1) div BPB) + (?n + BPB - 1) mod BPB = ?n + BPB - 1" by (rule mult_div_mod_eq)
  ultimately show "?n \<le> bitmap_end B dev" using p unfolding bitmap_end_def by linarith
  assume "b < bitmap_end B dev"
  then have "b div BPB < (?n + BPB - 1) div BPB" unfolding bitmap_end_def using p by (simp add: less_mult_imp_div_less mult.commute)
  then have "Suc (b div BPB) \<le> (?n + BPB - 1) div BPB" by simp
  then have "BPB * Suc (b div BPB) \<le> ?n + BPB - 1" by (metis mult_le_mono2 order.trans times_div_less_eq_dividend)
  then show "BPB * (b div BPB) < ?n" using p by (simp add: algebra_simps)
qed

lemma in_use_shift: "bi < BPB \<Longrightarrow> in_use B dev (BPB * j + bi) = bit_set (B (dev, bitmap_block B dev (BPB * j))) bi"
  by (simp add: in_use_def bitmap_block_def BBLOCK_def)

lemma readsb_ok:
  assumes "bc.room s (dev, 1)"
  shows "\<exists>s'. readsb dev s = Ok (fs_sb (sectors s) dev, s') \<and> bc.same_but s (sectors s) s'"
  using bc.with_block [OF assms, of "\<lambda>d s'. Ok (decode_sb d, s')"] by (auto simp: readsb_def fs_sb_def)

lemma bzero_ok:
  assumes "bc.room s (dev, b)"
  shows "\<exists>s'. bzero dev b s = Ok s' \<and> bc.same_but s (zero_block (sectors s) dev b) s'"
  using bc.update_block [OF assms, of "\<lambda>_. replicate BSIZE 0" "\<lambda>_. Ok"]
  by (auto simp: bzero_def zero_block_def BSIZE_def intro: exI)

lemma bitmap_end_block:
  assumes "BPB * j < sb_size (fs_sb B dev)"
  shows "BPB * Suc j \<le> bitmap_end B dev"
proof -
  have "BPB * j < bitmap_end B dev" using assms bitmap_end_ge [where B = B and dev = dev] by simp
  then have "j < (sb_size (fs_sb B dev) + BPB - 1) div BPB" unfolding bitmap_end_def by (simp add: BPB_def)
  then show ?thesis unfolding bitmap_end_def by (intro mult_le_mono2) simp
qed

lemma bitmap_end_stop:
  assumes "\<not> BPB * j < sb_size (fs_sb B dev)"
  shows "bitmap_end B dev \<le> BPB * j"
proof (rule ccontr)
  assume "\<not> ?thesis"
  then have "BPB * (BPB * j div BPB) < sb_size (fs_sb B dev)" by (intro bitmap_end_less) simp
  with assms show False by (simp add: BPB_def)
qed

text \<open>The search by bitmap blocks.\<close>

lemma find_free_split:
  assumes "BPB * j < sb_size (fs_sb B dev)"
  shows "find (\<lambda>b. \<not> in_use B dev b) [BPB * j..<bitmap_end B dev] =
    (case find (\<lambda>bi. \<not> bit_set (B (dev, bitmap_block B dev (BPB * j))) bi) [0..<BPB] of
       Some bi \<Rightarrow> Some (BPB * j + bi)
     | None \<Rightarrow> find (\<lambda>b. \<not> in_use B dev b) [BPB * Suc j..<bitmap_end B dev])"
proof -
  have "[BPB * j..<bitmap_end B dev] = [BPB * j..<BPB * j + BPB] @ [BPB * Suc j..<bitmap_end B dev]"
    using bitmap_end_block [OF assms] upt_add_eq_append [of "BPB * j" "BPB * j + BPB" "bitmap_end B dev - (BPB * j + BPB)"]
    by (simp add: algebra_simps)
  moreover have "find (\<lambda>b. \<not> in_use B dev b) [BPB * j..<BPB * j + BPB] =
    map_option ((+) (BPB * j)) (find (\<lambda>bi. \<not> bit_set (B (dev, bitmap_block B dev (BPB * j))) bi) [0..<BPB])"
    by (rule find_shift) (simp add: in_use_shift)
  ultimately show ?thesis by (simp add: find_append split: option.splits)
qed

lemma balloc_loop_ok:
  assumes "alloc_room dev s"
  defines "B \<equiv> sectors s"
  shows "case find (\<lambda>b. \<not> in_use B dev b) [BPB * j..<bitmap_end B dev] of
      Some x \<Rightarrow> \<exists>s'. balloc_loop dev (fs_sb B dev) (BPB * j) s = Ok (x, s') \<and> bc.same_but s (mark_used B dev x) s'
    | None \<Rightarrow> balloc_loop dev (fs_sb B dev) (BPB * j) s = Panic ''balloc: out of blocks''"
  using assms(1) unfolding B_def
proof (induction "sb_size (fs_sb (sectors s) dev) - BPB * j" arbitrary: j s rule: less_induct)
  case less
  let ?B = "sectors s" and ?sb = "fs_sb (sectors s) dev" and ?b = "BPB * j"
  let ?k = "(dev, bitmap_block (sectors s) dev (BPB * j))"
  have p: "0 < BPB" by (simp add: BPB_def)
  show ?case
  proof (cases "?b < sb_size ?sb")
    case False
    with bitmap_end_stop [OF False] show ?thesis by (simp add: balloc_loop.simps)
  next
    case True
    have "?b < bitmap_end ?B dev" using True bitmap_end_ge [where B = ?B and dev = dev] by simp
    with less.prems have room: "bc.room s ?k" by (simp add: alloc_room_def)
    obtain h s1 where 1: "bread dev (bitmap_block ?B dev ?b) s = Ok (h, s1)" "buf_data s1 h = ?B ?k"
      using bc.room_read [OF room] by blast
    have bb: "BBLOCK ?b (sb_ninodes ?sb) = bitmap_block ?B dev ?b" by (simp add: bitmap_block_def)
    show ?thesis
    proof (cases "find (\<lambda>bi. \<not> bit_set (?B ?k) bi) [0..<BPB]")
      case (Some bi)
      then have "bi < BPB" by (auto dest: find_SomeD)
      then have m: "mark_used ?B dev (?b + bi) = ?B(?k := mark_bit (?B ?k) bi)"
        by (simp add: mark_used_def bitmap_block_def BBLOCK_def)
      from bc.update_block [OF room, of "\<lambda>d. mark_bit d bi" "\<lambda>_ s. Ok (?b + bi, s)"] bc.blocks_length [of s] room
      show ?thesis using Some True 1 by (subst (1 2) balloc_loop.simps) (auto simp: find_free_split bb m bc.room_def)
    next
      case None
      from bc.with_block [OF room, of "\<lambda>_. balloc_loop dev ?sb (?b + BPB)"] obtain s' where s': "bc.same_but s ?B s'"
        "balloc_loop dev ?sb ?b s = balloc_loop dev ?sb (BPB * Suc j) s'"
        using None True 1 by (auto simp: bb algebra_simps balloc_loop.simps [of dev ?sb ?b s])
      have sec: "sectors s' = ?B" using s'(1) by (simp add: bc.same_but_def)
      have "alloc_room dev s'" using less.prems bc.room_same [OF s'(1)] by (simp add: alloc_room_def sec)
      moreover have "sb_size (fs_sb (sectors s') dev) - BPB * Suc j < sb_size ?sb - ?b" using True p by (simp add: sec)
      ultimately show ?thesis using less.hyps [of s' "Suc j"] bc.same_but_trans [OF s'(1)] None True
        by (auto simp: sec s'(2) find_free_split split: option.splits)
    qed
  qed
qed

lemma balloc_spec:
  assumes "alloc_room dev s"
  shows "case first_free (sectors s) dev of
      Some b \<Rightarrow> \<exists>s'. balloc dev s = Ok (b, s') \<and> bc.same_but s (mark_used (sectors s) dev b) s'
    | None \<Rightarrow> balloc dev s = Panic ''balloc: out of blocks''"
proof -
  from readsb_ok [of s dev] assms obtain s1 where
    1: "readsb dev s = Ok (fs_sb (sectors s) dev, s1)" "bc.same_but s (sectors s) s1" by (auto simp: alloc_room_def)
  have sec: "sectors s1 = sectors s" using 1(2) by (simp add: bc.same_but_def)
  have "alloc_room dev s1" using assms bc.room_same [OF 1(2)] by (simp add: alloc_room_def sec)
  from balloc_loop_ok [OF this, of 0] bc.same_but_trans [OF 1(2)] show ?thesis
    by (auto simp: balloc_def 1(1) sec first_free_def split: option.splits)
qed

text \<open>The blocks the allocator itself lives in.\<close>

definition sys_blocks :: "blocks \<Rightarrow> nat \<Rightarrow> nat set" where
  "sys_blocks B dev = insert 1 (bitmap_block B dev ` {..<bitmap_end B dev})"

lemma bitmap_block_ge: "3 \<le> bitmap_block B dev b"
  by (simp add: bitmap_block_def BBLOCK_def)

lemma fs_sb_upd: "n \<noteq> 1 \<Longrightarrow> fs_sb (B((dev, n) := x)) dev = fs_sb B dev"
  by (simp add: fs_sb_def)

lemma bitmap_block_upd: "n \<noteq> 1 \<Longrightarrow> bitmap_block (B((dev, n) := x)) dev = bitmap_block B dev"
  by (simp add: bitmap_block_def fs_sb_upd fun_eq_iff)

lemma bitmap_end_upd: "n \<noteq> 1 \<Longrightarrow> bitmap_end (B((dev, n) := x)) dev = bitmap_end B dev"
  by (simp add: bitmap_end_def fs_sb_upd)

lemma in_use_upd: "n \<notin> sys_blocks B dev \<Longrightarrow> b < bitmap_end B dev \<Longrightarrow> in_use (B((dev, n) := x)) dev b = in_use B dev b"
  by (auto simp: in_use_def sys_blocks_def bitmap_block_upd)

lemmas layout_upd = fs_sb_upd bitmap_block_upd bitmap_end_upd

lemma mark_layout [simp]:
  "fs_sb (mark_used B dev b) dev = fs_sb B dev" "bitmap_block (mark_used B dev b) dev = bitmap_block B dev"
  "bitmap_end (mark_used B dev b) dev = bitmap_end B dev" "fs_sb (mark_free B dev b) dev = fs_sb B dev"
  "bitmap_block (mark_free B dev b) dev = bitmap_block B dev" "bitmap_end (mark_free B dev b) dev = bitmap_end B dev"
  using bitmap_block_ge [of B dev b] by (auto simp: mark_used_def mark_free_def intro!: layout_upd)

lemma mark_other:
  "k \<noteq> (dev, bitmap_block B dev b) \<Longrightarrow> mark_used B dev b k = B k"
  "k \<noteq> (dev, bitmap_block B dev b) \<Longrightarrow> mark_free B dev b k = B k"
  by (simp_all add: mark_used_def mark_free_def)

lemma sys_blocks_mark [simp]: "sys_blocks (mark_used B dev b) dev = sys_blocks B dev" "sys_blocks (mark_free B dev b) dev = sys_blocks B dev"
  by (simp_all add: sys_blocks_def)

lemma bitmap_block_eq: "bitmap_block B dev b = bitmap_block B dev c \<longleftrightarrow> b div BPB = c div BPB"
  by (simp add: bitmap_block_def BBLOCK_def)

lemma bit_in_block: "b mod BPB div 8 < BSIZE"
  by (simp add: BPB_def BSIZE_def less_mult_imp_div_less)

lemma bitmap_block_neq_sb [simp]: "bitmap_block B dev b \<noteq> Suc 0"
  using bitmap_block_ge [of B dev b] by simp

lemma block_bit_eq: "c = b \<longleftrightarrow> c div BPB = b div BPB \<and> c mod BPB = b mod BPB"
  by (metis div_mult_mod_eq)

lemma in_use_mark_used:
  assumes "\<And>k. length (B k) = BSIZE"
  shows "in_use (mark_used B dev b) dev c \<longleftrightarrow> in_use B dev c \<or> c = b"
  using assms bit_in_block [of b] unfolding block_bit_eq [of c b] in_use_def mark_layout
  by (auto simp: mark_used_def bit_set_mark bitmap_block_def BBLOCK_def)

lemma in_use_mark_free:
  assumes "\<And>k. length (B k) = BSIZE"
  shows "in_use (mark_free B dev b) dev c \<longleftrightarrow> in_use B dev c \<and> c \<noteq> b"
  using assms bit_in_block [of b] unfolding block_bit_eq [of c b] in_use_def mark_layout
  by (auto simp: mark_free_def bit_set_clear bitmap_block_def BBLOCK_def)

lemma bfree_spec:
  assumes "alloc_room dev s" and "bc.room s (dev, b)" and "b < bitmap_end (sectors s) dev"
    and "b \<notin> sys_blocks (sectors s) dev"
  shows "if in_use (sectors s) dev b
    then \<exists>s'. bfree dev b s = Ok s' \<and> bc.same_but s (mark_free (zero_block (sectors s) dev b) dev b) s'
    else bfree dev b s = Panic ''freeing free block''"
proof -
  let ?B = "sectors s" and ?Z = "zero_block (sectors s) dev b"
  have b1: "b \<noteq> 1" using assms(4) by (auto simp: sys_blocks_def)
  from bzero_ok [OF assms(2)] obtain s1 where 1: "bzero dev b s = Ok s1" "bc.same_but s ?Z s1" by blast
  have sec1: "sectors s1 = ?Z" using 1(2) by (simp add: bc.same_but_def)
  have lay: "fs_sb ?Z dev = fs_sb ?B dev" "bitmap_block ?Z dev = bitmap_block ?B dev"
    using b1 by (simp_all add: zero_block_def layout_upd)
  from readsb_ok [of s1 dev] bc.room_same [OF 1(2)] assms(1) obtain s2 where
    2: "readsb dev s1 = Ok (fs_sb ?B dev, s2)" "bc.same_but s1 ?Z s2" by (auto simp: alloc_room_def sec1 lay)
  have sec2: "sectors s2 = ?Z" using 2(2) by (simp add: bc.same_but_def)
  have use: "in_use ?Z dev b = in_use ?B dev b" using in_use_upd [OF assms(4,3)] by (simp add: zero_block_def)
  note s2 = bc.same_but_trans [OF 1(2) 2(2)]
  have room: "bc.room s2 (dev, bitmap_block ?B dev b)"
    using assms(1,3) bc.room_same [OF s2] by (simp add: alloc_room_def)
  have bb: "BBLOCK b (sb_ninodes (fs_sb ?B dev)) = bitmap_block ?B dev b" by (simp add: bitmap_block_def)
  obtain h s3 where 3: "bread dev (bitmap_block ?B dev b) s2 = Ok (h, s3)" "buf_data s3 h = ?Z (dev, bitmap_block ?B dev b)"
    using bc.room_read [OF room] sec2 by metis
  show ?thesis
  proof (cases "in_use ?B dev b")
    case False
    then have "\<not> bit_set (buf_data s3 h) (b mod BPB)" using use by (simp add: 3(2) in_use_def lay)
    with False show ?thesis by (simp add: bfree_def 1(1) 2(1) bb 3(1))
  next
    case True
    then have "bit_set (buf_data s3 h) (b mod BPB)" using use by (simp add: 3(2) in_use_def lay)
    moreover have "mark_free ?Z dev b = ?Z((dev, bitmap_block ?B dev b) := clear_bit (?Z (dev, bitmap_block ?B dev b)) (b mod BPB))"
      by (simp add: mark_free_def lay)
    moreover from bc.update_block [OF room, of "\<lambda>d. clear_bit d (b mod BPB)" "\<lambda>_. Ok"] bc.blocks_length [of s2] room
    obtain s' where "bc.same_but s2 (?Z((dev, bitmap_block ?B dev b) := clear_bit (?Z (dev, bitmap_block ?B dev b)) (b mod BPB))) s'"
      "kbind (bwrite h (set_data h (clear_bit (buf_data s3 h) (b mod BPB)) s3)) (brelse h) = Ok s'"
      by (auto simp: bc.room_def sec2 3)
    ultimately show ?thesis using True bc.same_but_trans [OF s2] by (simp add: bfree_def 1(1) 2(1) bb 3(1))
  qed
qed

section \<open>Properties of the allocator\<close>

lemma first_free_Some:
  "first_free B dev = Some b \<longleftrightarrow> b < bitmap_end B dev \<and> \<not> in_use B dev b \<and> (\<forall>c < b. in_use B dev c)"
  by (auto simp: first_free_def find_Some_iff)

lemma first_free_None: "first_free B dev = None \<longleftrightarrow> (\<forall>b < bitmap_end B dev. in_use B dev b)"
  by (auto simp: first_free_def find_None_iff)

text \<open>
  C29. \<open>balloc\<close> hands out the lowest free block and marks exactly that one in use, changing
  nothing else on the disk; it panics exactly when every bit of the bitmap blocks is set.
\<close>
theorem balloc_correct:
  assumes "alloc_room dev s"
  shows "(\<exists>b s'. balloc dev s = Ok (b, s') \<and> \<not> in_use (sectors s) dev b \<and> (\<forall>c < b. in_use (sectors s) dev c) \<and>
      (\<forall>c. in_use (sectors s') dev c \<longleftrightarrow> in_use (sectors s) dev c \<or> c = b) \<and>
      (\<forall>k. k \<noteq> (dev, bitmap_block (sectors s) dev b) \<longrightarrow> sectors s' k = sectors s k) \<and> alloc_room dev s') \<or>
    (\<forall>b < bitmap_end (sectors s) dev. in_use (sectors s) dev b) \<and> balloc dev s = Panic ''balloc: out of blocks''"
proof (cases "first_free (sectors s) dev")
  case None
  then show ?thesis using balloc_spec [OF assms] first_free_None [of "sectors s" dev] by auto
next
  case (Some b)
  then obtain s' where s': "balloc dev s = Ok (b, s')" "bc.same_but s (mark_used (sectors s) dev b) s'"
    using balloc_spec [OF assms] by auto
  have sec: "sectors s' = mark_used (sectors s) dev b" using s'(2) by (simp add: bc.same_but_def)
  have "length (sectors s k) = BSIZE" for k
    using assms bc.blocks_length [of s] by (auto simp: alloc_room_def bc.room_def)
  moreover have "alloc_room dev s'" using assms bc.room_same [OF s'(2)] by (simp add: alloc_room_def sec)
  ultimately show ?thesis using Some s'(1)
    by (intro disjI1 exI [of _ b] exI [of _ s']) (auto simp: first_free_Some sec in_use_mark_used mark_other)
qed

text \<open>A disk of one super block (\<open>size\<close> blocks, 8 inodes) and otherwise zeros, cache empty.\<close>

definition blank_disk :: "nat \<Rightarrow> bcache" where
  "blank_disk n = binit \<lparr>bufs = (\<lambda>_. \<lparr>b_busy = False, b_valid = False, b_dirty = False, b_dev = 0, b_sector = 0,
       b_prev = 0, b_next = 0, b_qnext = None, b_data = []\<rparr>),
     idequeue = None, havedisk1 = True,
     sectors = (\<lambda>_. replicate BSIZE 0)((1, 1) := put_le 4 8 (put_le 4 n (replicate BSIZE 0) 0) 8), bad_sectors = {}\<rparr>"

lemma blank_disk_sectors:
  "sectors (blank_disk n) = (\<lambda>_. replicate BSIZE 0)((1, 1) := put_le 4 8 (put_le 4 n (replicate BSIZE 0) 0) 8)"
  by (simp add: blank_disk_def binit_def Let_def)

lemma blank_disk_inv: "bc_inv (blank_disk n)" "bc_held (blank_disk n) = Map.empty"
  unfolding blank_disk_def by (rule binit_inv; simp add: cold_def)+

lemma blank_disk_room: "k < 2 ^ 28 \<Longrightarrow> bc.room (blank_disk n) (1, k)"
proof -
  have "havedisk1 (blank_disk n)" "bad_sectors (blank_disk n) = {}" by (simp_all add: blank_disk_def binit_def Let_def)
  moreover have "0 < NBUF" by (simp add: NBUF_def)
  ultimately show "k < 2 ^ 28 \<Longrightarrow> bc.room (blank_disk n) (1, k)"
    using blank_disk_inv [of n] by (simp add: bc.room_def bc_ready_def)
qed

lemma blank_disk_sb: "n < 2 ^ 32 \<Longrightarrow> sb_size (fs_sb (sectors (blank_disk n)) 1) = n"
  "sb_ninodes (fs_sb (sectors (blank_disk n)) 1) = 8"
  by (simp_all add: fs_sb_def blank_disk_sectors decode_sb_def get_put_le_other get_put_le BSIZE_def)

lemma blank_disk_alloc_room:
  assumes "0 < n" and "n \<le> BPB"
  shows "alloc_room 1 (blank_disk n)" and "bitmap_end (sectors (blank_disk n)) 1 = BPB"
    and "\<not> in_use (sectors (blank_disk n)) 1 b"
proof -
  have n: "sb_size (fs_sb (sectors (blank_disk n)) 1) = n" using assms by (intro blank_disk_sb) (simp add: BPB_def)
  have "(n + BPB - 1) div BPB = 1" using assms by (intro div_nat_eqI) (simp_all add: BPB_def)
  then show e: "bitmap_end (sectors (blank_disk n)) 1 = BPB" by (simp add: bitmap_end_def n del: One_nat_def)
  have bb: "bitmap_block (sectors (blank_disk n)) 1 b = b div BPB + 4" for b
    by (simp add: bitmap_block_def BBLOCK_def blank_disk_sb IPB_def del: One_nat_def)
  then show "alloc_room 1 (blank_disk n)"
    using blank_disk_room [of _ n] by (auto simp: alloc_room_def e bb BPB_def simp del: One_nat_def)
  show "\<not> in_use (sectors (blank_disk n)) 1 b"
    using bit_in_block [of b] unfolding in_use_def bb by (simp add: blank_disk_sectors bit_set_def)
qed

theorem balloc_correct_witness:
  "alloc_room 1 (blank_disk 100) \<and> (\<exists>s'. balloc 1 (blank_disk 100) = Ok (0, s') \<and> in_use (sectors s') 1 0)"
proof -
  have r: "alloc_room 1 (blank_disk 100)" and u: "\<not> in_use (sectors (blank_disk 100)) 1 b" for b
    by (rule blank_disk_alloc_room; simp add: BPB_def)+
  have e: "0 < bitmap_end (sectors (blank_disk 100)) 1" by (subst blank_disk_alloc_room) (simp_all add: BPB_def)
  from balloc_correct [OF r] r u e show ?thesis by (metis neq0_conv)
qed

text \<open>
  The search runs to the end of the last bitmap block, not to the end of the disk: when every
  block of the disk is in use but a later bit of the bitmap is clear, \<open>balloc\<close> does not panic
  but returns a block number past the size in the super block.
\<close>
theorem balloc_past_end:
  assumes "alloc_room dev s" and "\<forall>b < sb_size (fs_sb (sectors s) dev). in_use (sectors s) dev b"
    and "c < bitmap_end (sectors s) dev" and "\<not> in_use (sectors s) dev c"
  shows "\<exists>b s'. balloc dev s = Ok (b, s') \<and> sb_size (fs_sb (sectors s) dev) \<le> b"
proof -
  from assms(3,4) first_free_None [of "sectors s" dev] obtain b where b: "first_free (sectors s) dev = Some b"
    by (cases "first_free (sectors s) dev") auto
  then have "sb_size (fs_sb (sectors s) dev) \<le> b" using assms(2) by (auto simp: first_free_Some not_less [symmetric])
  with balloc_spec [OF assms(1)] b show ?thesis by auto
qed

theorem balloc_past_end_witness:
  "\<exists>s :: bcache. alloc_room 1 s \<and> sb_size (fs_sb (sectors s) 1) = 1 \<and> in_use (sectors s) 1 0 \<and> (\<exists>b s'. balloc 1 s = Ok (b, s') \<and> 1 \<le> b)"
proof -
  have r: "alloc_room 1 (blank_disk 1)" and u: "\<not> in_use (sectors (blank_disk 1)) 1 b"
    and e: "bitmap_end (sectors (blank_disk 1)) 1 = BPB" for b
    by (rule blank_disk_alloc_room; simp add: BPB_def)+
  have z: "sb_size (fs_sb (sectors (blank_disk 1)) 1) = 1" by (rule blank_disk_sb) simp
  have "first_free (sectors (blank_disk 1)) 1 = Some 0" using u e by (simp add: first_free_Some BPB_def)
  with balloc_spec [OF r] obtain s where s: "bc.same_but (blank_disk 1) (mark_used (sectors (blank_disk 1)) 1 0) s" by auto
  then have sec: "sectors s = mark_used (sectors (blank_disk 1)) 1 0" by (simp add: bc.same_but_def)
  have r': "alloc_room 1 s" using r bc.room_same [OF s] by (simp add: alloc_room_def sec)
  have "length (sectors (blank_disk 1) k) = BSIZE" for k using bc.blocks_length blank_disk_inv(1) by blast
  then have i: "in_use (sectors s) 1 c \<longleftrightarrow> c = 0" for c using u by (simp add: sec in_use_mark_used del: One_nat_def)
  have z': "sb_size (fs_sb (sectors s) 1) = 1" "bitmap_end (sectors s) 1 = BPB" using z e by (simp_all add: sec del: One_nat_def)
  have "\<exists>b s'. balloc 1 s = Ok (b, s') \<and> sb_size (fs_sb (sectors s) 1) \<le> b"
    by (rule balloc_past_end [OF r', of 5]) (simp_all add: i z' BPB_def del: One_nat_def)
  with r' i z' show ?thesis by (intro exI [of _ s]) simp
qed

text \<open>
  \<open>bfree\<close> of a data block zeroes it and clears exactly its bit, and panics on a block that is
  free already; freeing the block \<open>balloc\<close> has just handed out restores the bitmap.
\<close>
theorem bfree_correct:
  assumes "alloc_room dev s" and "bc.room s (dev, b)" and "b < bitmap_end (sectors s) dev"
    and "b \<notin> sys_blocks (sectors s) dev"
  shows "if in_use (sectors s) dev b
    then \<exists>s'. bfree dev b s = Ok s' \<and> sectors s' (dev, b) = replicate BSIZE 0 \<and>
      (\<forall>c < bitmap_end (sectors s) dev. in_use (sectors s') dev c \<longleftrightarrow> in_use (sectors s) dev c \<and> c \<noteq> b) \<and>
      (\<forall>k. k \<noteq> (dev, b) \<longrightarrow> k \<noteq> (dev, bitmap_block (sectors s) dev b) \<longrightarrow> sectors s' k = sectors s k)
    else bfree dev b s = Panic ''freeing free block''"
proof (cases "in_use (sectors s) dev b")
  case False
  then show ?thesis using bfree_spec [OF assms] by simp
next
  case True
  let ?B = "sectors s" and ?Z = "zero_block (sectors s) dev b"
  from True bfree_spec [OF assms] obtain s' where s': "bfree dev b s = Ok s'" "bc.same_but s (mark_free ?Z dev b) s'" by auto
  have b: "b \<noteq> 1" "b \<noteq> bitmap_block ?B dev b" using assms(3,4) by (auto simp: sys_blocks_def)
  have bb: "bitmap_block ?Z dev = bitmap_block ?B dev" using b(1) by (simp add: zero_block_def layout_upd)
  have len: "length (?Z k) = BSIZE" for k
    using assms(2) bc.blocks_length [of s k] by (auto simp: zero_block_def bc.room_def)
  have "in_use (mark_free ?Z dev b) dev c \<longleftrightarrow> in_use ?B dev c \<and> c \<noteq> b" if "c < bitmap_end ?B dev" for c
    using in_use_mark_free [of ?Z dev b c, OF len] in_use_upd [OF assms(4) that] by (simp add: zero_block_def)
  moreover have "sectors s' = mark_free ?Z dev b" using s'(2) by (simp add: bc.same_but_def)
  ultimately show ?thesis using True s'(1) b(2)
    by (auto simp: mark_other bb) (simp_all add: zero_block_def)
qed

theorem bfree_correct_witness:
  "\<exists>s'. bfree 1 50 (blank_disk 100) = Panic ''freeing free block'' \<and> bzero 1 50 (blank_disk 100) = Ok s'"
proof -
  have r: "alloc_room 1 (blank_disk 100)" and u: "\<not> in_use (sectors (blank_disk 100)) 1 b"
    and e: "bitmap_end (sectors (blank_disk 100)) 1 = BPB" for b
    by (rule blank_disk_alloc_room; simp add: BPB_def)+
  have b: "bc.room (blank_disk 100) (1, 50)" by (rule blank_disk_room) simp
  have "50 \<notin> sys_blocks (sectors (blank_disk 100)) 1"
    by (auto simp: sys_blocks_def e bitmap_block_def BBLOCK_def blank_disk_sb IPB_def BPB_def simp del: One_nat_def)
  from bfree_correct [OF r b _ this] u e bzero_ok [OF b] show ?thesis by (auto simp: BPB_def)
qed

end
