(* ===== verification/Inode.thy ===== *)
theory Inode
  imports Fs_Disk "HOL-Library.Multiset"
begin

text \<open>
  Inodes, second part of \<open>src/P1/xv6/xv6/kernel/fs.c\<close>: the inode cache with reference counts and
  locks, the on-disk inode, the block map with its indirect block, and reading, writing and
  truncating a file. The state extends the buffer cache by the inode table and the device
  switch; an inode pointer is an index of the table. A \<open>short\<close> is the \<open>nat\<close> of its 16 bits.
\<close>

definition NINODE :: nat where "NINODE = 50"
definition NDIRECT :: nat where "NDIRECT = 12"
definition NINDIRECT :: nat where "NINDIRECT = 128"
definition MAXFILE :: nat where "MAXFILE = NDIRECT + NINDIRECT"
definition NDEV :: nat where "NDEV = 10"
definition T_DIR :: nat where "T_DIR = 1"
definition T_FILE :: nat where "T_FILE = 2"
definition T_DEV :: nat where "T_DEV = 3"

record inode =
  i_dev :: nat
  i_inum :: nat
  i_ref :: int
  i_busy :: bool
  i_valid :: bool
  i_type :: nat
  i_major :: nat
  i_minor :: nat
  i_nlink :: nat
  i_size :: nat
  i_addrs :: "nat list"

text \<open>A device driver's entry: what a read of \<open>n\<close> bytes or a write of some bytes on the inode gives.\<close>

record devsw =
  dev_read :: "(nat \<Rightarrow> nat \<Rightarrow> (int \<times> 8 word list) kres) option"
  dev_write :: "(nat \<Rightarrow> 8 word list \<Rightarrow> int kres) option"

record fsys = bcache +
  icache :: "nat \<Rightarrow> inode"
  devsw :: "nat \<Rightarrow> devsw"

definition upd_inode :: "nat \<Rightarrow> (inode \<Rightarrow> inode) \<Rightarrow> 'a fsys_scheme \<Rightarrow> 'a fsys_scheme" where
  "upd_inode ip f s = s\<lparr>icache := (icache s)(ip := f (icache s ip))\<rparr>"

section \<open>On-disk inodes\<close>

definition sizeof_dinode :: nat where "sizeof_dinode = 64"

definition dinode_off :: "nat \<Rightarrow> nat" where
  "dinode_off inum = sizeof_dinode * (inum mod IPB)"

definition di_type :: "8 word list \<Rightarrow> nat \<Rightarrow> nat" where
  "di_type d i = get_le 2 d i"

text \<open>The fields \<open>ilock\<close> copies from the disk inode at offset \<open>i\<close> of a block.\<close>

definition load_inode :: "8 word list \<Rightarrow> nat \<Rightarrow> inode \<Rightarrow> inode" where
  "load_inode d i ino = ino\<lparr>i_type := di_type d i, i_major := get_le 2 d (i + 2), i_minor := get_le 2 d (i + 4),
     i_nlink := get_le 2 d (i + 6), i_size := get_le 4 d (i + 8),
     i_addrs := map (\<lambda>j. get_le 4 d (i + 12 + 4 * j)) [0..<NDIRECT + 1]\<rparr>"

definition store_addrs :: "nat list \<Rightarrow> 8 word list \<Rightarrow> nat \<Rightarrow> 8 word list" where
  "store_addrs as d i = fold (\<lambda>j d. put_le 4 (as ! j) d (i + 4 * j)) [0..<NDIRECT + 1] d"

text \<open>The fields \<open>iupdate\<close> copies to it.\<close>

definition store_inode :: "inode \<Rightarrow> 8 word list \<Rightarrow> nat \<Rightarrow> 8 word list" where
  "store_inode ino d i = store_addrs (i_addrs ino)
     (put_le 4 (i_size ino) (put_le 2 (i_nlink ino) (put_le 2 (i_minor ino) (put_le 2 (i_major ino)
       (put_le 2 (i_type ino) d i) (i + 2)) (i + 4)) (i + 6)) (i + 8)) (i + 12)"

section \<open>The inode cache\<close>

fun iget_scan :: "(nat \<Rightarrow> inode) \<Rightarrow> nat \<Rightarrow> nat \<Rightarrow> nat list \<Rightarrow> nat option \<Rightarrow> nat option \<times> nat option" where
  "iget_scan ics dev inum [] emp = (None, emp)"
| "iget_scan ics dev inum (ip # ips) emp =
     (if i_ref (ics ip) > 0 \<and> i_dev (ics ip) = dev \<and> i_inum (ics ip) = inum then (Some ip, emp)
      else iget_scan ics dev inum ips (if emp = None \<and> i_ref (ics ip) = 0 then Some ip else emp))"

definition iget :: "nat \<Rightarrow> nat \<Rightarrow> 'a fsys_scheme \<Rightarrow> (nat \<times> 'a fsys_scheme) kres" where
  "iget dev inum s = (case iget_scan (icache s) dev inum [0..<NINODE] None of
     (Some ip, _) \<Rightarrow> Ok (ip, upd_inode ip (i_ref_update (\<lambda>r. r + 1)) s)
   | (None, None) \<Rightarrow> Panic ''iget: no inodes''
   | (None, Some ip) \<Rightarrow>
       Ok (ip, upd_inode ip (\<lambda>i. i\<lparr>i_dev := dev, i_inum := inum, i_ref := 1, i_busy := False, i_valid := False\<rparr>) s))"

definition idup :: "nat \<Rightarrow> 'a fsys_scheme \<Rightarrow> nat \<times> 'a fsys_scheme" where
  "idup ip s = (ip, upd_inode ip (i_ref_update (\<lambda>r. r + 1)) s)"

function ialloc_loop :: "nat \<Rightarrow> nat \<Rightarrow> nat \<Rightarrow> nat \<Rightarrow> 'a fsys_scheme \<Rightarrow> (nat \<times> 'a fsys_scheme) kres" where
  "ialloc_loop dev type ninodes inum s =
     (if inum < ninodes then
        kbind (bread dev (IBLOCK inum) s) (\<lambda>(bp, s).
          let d = buf_data s bp; i = dinode_off inum in
          if di_type d i = 0 then
            kbind (bwrite bp (set_data bp (put_le 2 type (put_le sizeof_dinode 0 d i) i) s)) (\<lambda>s.
            kbind (brelse bp s) (iget dev inum))
          else kbind (brelse bp s) (ialloc_loop dev type ninodes (inum + 1)))
      else Panic ''ialloc: no inodes'')"
  by pat_completeness auto
termination by (relation "measure (\<lambda>(dev, type, n, inum, s). n - inum)") auto

declare ialloc_loop.simps [simp del]

definition ialloc :: "nat \<Rightarrow> nat \<Rightarrow> 'a fsys_scheme \<Rightarrow> (nat \<times> 'a fsys_scheme) kres" where
  "ialloc dev type s = kbind (readsb dev s) (\<lambda>(sb, s). ialloc_loop dev type (sb_ninodes sb) 1 s)"

definition iupdate :: "nat \<Rightarrow> 'a fsys_scheme \<Rightarrow> 'a fsys_scheme kres" where
  "iupdate ip s = (let ino = icache s ip in
     kbind (bread (i_dev ino) (IBLOCK (i_inum ino)) s) (\<lambda>(bp, s).
     kbind (bwrite bp (set_data bp (store_inode ino (buf_data s bp) (dinode_off (i_inum ino))) s)) (brelse bp)))"

definition ilock :: "nat \<Rightarrow> 'a fsys_scheme \<Rightarrow> 'a fsys_scheme kres" where
  "ilock ip s =
     (if i_ref (icache s ip) < 1 then Panic ''ilock''
      else if i_busy (icache s ip) then Sleeps
      else let s = upd_inode ip (i_busy_update (\<lambda>_. True)) s; ino = icache s ip in
        if \<not> i_valid ino then
          kbind (bread (i_dev ino) (IBLOCK (i_inum ino)) s) (\<lambda>(bp, s).
            let s' = upd_inode ip (load_inode (buf_data s bp) (dinode_off (i_inum ino))) s in
            kbind (brelse bp s') (\<lambda>s.
              let s = upd_inode ip (i_valid_update (\<lambda>_. True)) s in
              if i_type (icache s ip) = 0 then Panic ''ilock: no type'' else Ok s))
        else Ok s)"

definition iunlock :: "nat \<Rightarrow> 'a fsys_scheme \<Rightarrow> 'a fsys_scheme kres" where
  "iunlock ip s =
     (if \<not> i_busy (icache s ip) \<or> i_ref (icache s ip) < 1 then Panic ''iunlock''
      else Ok (upd_inode ip (i_busy_update (\<lambda>_. False)) s))"

section \<open>Contents\<close>

definition set_addr :: "nat \<Rightarrow> nat \<Rightarrow> nat \<Rightarrow> 'a fsys_scheme \<Rightarrow> 'a fsys_scheme" where
  "set_addr ip n a = upd_inode ip (i_addrs_update (\<lambda>as. as[n := a]))"

text \<open>The entry \<open>n\<close> of the indirect block \<open>x\<close>, allocating the data block if necessary.\<close>

definition bmap_indirect :: "nat \<Rightarrow> nat \<Rightarrow> nat \<Rightarrow> 'a bcache_scheme \<Rightarrow> (nat \<times> 'a bcache_scheme) kres" where
  "bmap_indirect dev x n s = kbind (bread dev x s) (\<lambda>(bp, s).
     let addr = get_le 4 (buf_data s bp) (4 * n) in
     kbind (if addr = 0
            then kbind (balloc dev s) (\<lambda>(addr, s).
                 kbind (bwrite bp (set_data bp (put_le 4 addr (buf_data s bp) (4 * n)) s)) (\<lambda>s. Ok (addr, s)))
            else Ok (addr, s)) (\<lambda>(addr, s).
     kbind (brelse bp s) (\<lambda>s. Ok (addr, s))))"

definition bmap :: "nat \<Rightarrow> nat \<Rightarrow> 'a fsys_scheme \<Rightarrow> (nat \<times> 'a fsys_scheme) kres" where
  "bmap ip bn s = (let dev = i_dev (icache s ip) in
     if bn < NDIRECT then
       (if i_addrs (icache s ip) ! bn = 0
        then kbind (balloc dev s) (\<lambda>(addr, s). Ok (addr, set_addr ip bn addr s))
        else Ok (i_addrs (icache s ip) ! bn, s))
     else if bn - NDIRECT < NINDIRECT then
       kbind (if i_addrs (icache s ip) ! NDIRECT = 0
              then kbind (balloc dev s) (\<lambda>(addr, s). Ok (addr, set_addr ip NDIRECT addr s))
              else Ok (i_addrs (icache s ip) ! NDIRECT, s)) (\<lambda>(addr, s).
       bmap_indirect dev addr (bn - NDIRECT) s)
     else Panic ''bmap: out of range'')"

text \<open>\<open>itrunc\<close>: the loop over the direct blocks, then the loop over the indirect ones.\<close>

fun itrunc_direct :: "nat \<Rightarrow> nat list \<Rightarrow> 'a fsys_scheme \<Rightarrow> 'a fsys_scheme kres" where
  "itrunc_direct ip [] s = Ok s"
| "itrunc_direct ip (i # is) s =
     (if i_addrs (icache s ip) ! i \<noteq> 0
      then kbind (bfree (i_dev (icache s ip)) (i_addrs (icache s ip) ! i) s) (\<lambda>s. itrunc_direct ip is (set_addr ip i 0 s))
      else itrunc_direct ip is s)"

fun itrunc_indirect :: "nat \<Rightarrow> nat \<Rightarrow> nat list \<Rightarrow> 'a fsys_scheme \<Rightarrow> 'a fsys_scheme kres" where
  "itrunc_indirect dev bp [] s = Ok s"
| "itrunc_indirect dev bp (j # js) s =
     (if get_le 4 (buf_data s bp) (4 * j) \<noteq> 0
      then kbind (bfree dev (get_le 4 (buf_data s bp) (4 * j)) s) (itrunc_indirect dev bp js)
      else itrunc_indirect dev bp js s)"

definition itrunc :: "nat \<Rightarrow> 'a fsys_scheme \<Rightarrow> 'a fsys_scheme kres" where
  "itrunc ip s =
     kbind (itrunc_direct ip [0..<NDIRECT] s) (\<lambda>s.
     kbind (let a = i_addrs (icache s ip) ! NDIRECT; dev = i_dev (icache s ip) in
            if a \<noteq> 0 then
              kbind (bread dev a s) (\<lambda>(bp, s).
              kbind (itrunc_indirect dev bp [0..<NINDIRECT] s) (\<lambda>s.
              kbind (brelse bp s) (\<lambda>s.
              kbind (bfree dev a s) (\<lambda>s. Ok (set_addr ip NDIRECT 0 s)))))
            else Ok s) (\<lambda>s.
     iupdate ip (upd_inode ip (i_size_update (\<lambda>_. 0)) s)))"

definition iput :: "nat \<Rightarrow> 'a fsys_scheme \<Rightarrow> 'a fsys_scheme kres" where
  "iput ip s =
     kbind (if i_ref (icache s ip) = 1 \<and> i_valid (icache s ip) \<and> i_nlink (icache s ip) = 0 then
              (if i_busy (icache s ip) then Panic ''iput busy''
               else kbind (itrunc ip (upd_inode ip (i_busy_update (\<lambda>_. True)) s)) (\<lambda>s.
                    kbind (iupdate ip (upd_inode ip (i_type_update (\<lambda>_. 0)) s)) (\<lambda>s.
                    Ok (upd_inode ip (\<lambda>i. i\<lparr>i_busy := False, i_valid := False\<rparr>) s))))
            else Ok s)
       (\<lambda>s. Ok (upd_inode ip (i_ref_update (\<lambda>r. r - 1)) s))"

definition iunlockput :: "nat \<Rightarrow> 'a fsys_scheme \<Rightarrow> 'a fsys_scheme kres" where
  "iunlockput ip s = kbind (iunlock ip s) (iput ip)"

record stat =
  st_dev :: nat
  st_ino :: nat
  st_type :: nat
  st_nlink :: nat
  st_size :: nat

definition stati :: "nat \<Rightarrow> 'a fsys_scheme \<Rightarrow> stat" where
  "stati ip s = (let ino = icache s ip in
     \<lparr>st_dev = i_dev ino, st_ino = i_inum ino, st_type = i_type ino, st_nlink = i_nlink ino, st_size = i_size ino\<rparr>)"

section \<open>Reading and writing\<close>

text \<open>Each round of the loops moves the bytes up to the next block boundary.\<close>

definition chunk :: "nat \<Rightarrow> nat \<Rightarrow> nat" where
  "chunk off n = min n (BSIZE - off mod BSIZE)"

lemma chunk_pos: "0 < n \<Longrightarrow> 0 < chunk off n" and chunk_le: "chunk off n \<le> n"
  by (simp_all add: chunk_def BSIZE_def)

function readi_loop :: "nat \<Rightarrow> nat \<Rightarrow> nat \<Rightarrow> 'a fsys_scheme \<Rightarrow> (8 word list \<times> 'a fsys_scheme) kres" where
  "readi_loop ip off n s =
     (if n = 0 then Ok ([], s)
      else kbind (bmap ip (off div BSIZE) s) (\<lambda>(a, s).
        kbind (bread (i_dev (icache s ip)) a s) (\<lambda>(bp, s).
          let m = chunk off n; d = take m (drop (off mod BSIZE) (buf_data s bp)) in
          kbind (brelse bp s) (\<lambda>s.
          kbind (readi_loop ip (off + m) (n - m) s) (\<lambda>(r, s). Ok (d @ r, s))))))"
  by pat_completeness auto
termination by (relation "measure (\<lambda>(ip, off, n, s). n)") (auto simp: chunk_pos)

function writei_loop :: "nat \<Rightarrow> 8 word list \<Rightarrow> nat \<Rightarrow> nat \<Rightarrow> 'a fsys_scheme \<Rightarrow> 'a fsys_scheme kres" where
  "writei_loop ip src off n s =
     (if n = 0 then Ok s
      else kbind (bmap ip (off div BSIZE) s) (\<lambda>(a, s).
        kbind (bread (i_dev (icache s ip)) a s) (\<lambda>(bp, s).
          let m = chunk off n; k = off mod BSIZE; d = buf_data s bp in
          kbind (bwrite bp (set_data bp (take k d @ take m src @ drop (k + m) d) s)) (\<lambda>s.
          kbind (brelse bp s) (writei_loop ip (drop m src) (off + m) (n - m))))))"
  by pat_completeness auto
termination by (relation "measure (\<lambda>(ip, src, off, n, s). n)") (auto simp: chunk_pos)

declare readi_loop.simps [simp del] writei_loop.simps [simp del]

text \<open>The unsigned overflow test, and the cut at the largest file, on 32-bit values.\<close>

definition off_overflow :: "nat \<Rightarrow> nat \<Rightarrow> bool" where
  "off_overflow off n \<longleftrightarrow> (off + n) mod 2 ^ 32 < off"

definition writei_n :: "nat \<Rightarrow> nat \<Rightarrow> nat" where
  "writei_n off n = (if off + n > MAXFILE * BSIZE then (MAXFILE * BSIZE + 2 ^ 32 - off) mod 2 ^ 32 else n)"

definition readi :: "nat \<Rightarrow> nat \<Rightarrow> nat \<Rightarrow> 'a fsys_scheme \<Rightarrow> (int \<times> 8 word list \<times> 'a fsys_scheme) kres" where
  "readi ip off n s = (let ino = icache s ip in
     if i_type ino = T_DEV then
       (if i_major ino \<ge> 32768 \<or> i_major ino \<ge> NDEV then Ok (- 1, [], s)
        else case dev_read (devsw s (i_major ino)) of
               None \<Rightarrow> Ok (- 1, [], s)
             | Some rd \<Rightarrow> kbind (rd ip n) (\<lambda>(r, d). Ok (r, d, s)))
     else if off > i_size ino \<or> off_overflow off n then Ok (- 1, [], s)
     else let n = (if off + n > i_size ino then i_size ino - off else n) in
       kbind (readi_loop ip off n s) (\<lambda>(d, s). Ok (int n, d, s)))"

definition writei :: "nat \<Rightarrow> 8 word list \<Rightarrow> nat \<Rightarrow> 'a fsys_scheme \<Rightarrow> (int \<times> 'a fsys_scheme) kres" where
  "writei ip src off s = (let ino = icache s ip; n = length src in
     if i_type ino = T_DEV then
       (if i_major ino \<ge> 32768 \<or> i_major ino \<ge> NDEV then Ok (- 1, s)
        else case dev_write (devsw s (i_major ino)) of
               None \<Rightarrow> Ok (- 1, s)
             | Some wr \<Rightarrow> kbind (wr ip src) (\<lambda>r. Ok (r, s)))
     else if off > i_size ino \<or> off_overflow off n then Ok (- 1, s)
     else let n = writei_n off n in
       kbind (writei_loop ip src off n s) (\<lambda>s.
       kbind (if n > 0 \<and> off + n > i_size (icache s ip)
              then iupdate ip (upd_inode ip (i_size_update (\<lambda>_. off + n)) s) else Ok s) (\<lambda>s.
       Ok (int n, s))))"

section \<open>Identity and reference count of table slots\<close>

text \<open>What no operation but \<open>iget\<close>, \<open>idup\<close> and \<open>iput\<close> changes.\<close>

definition ident :: "'a fsys_scheme \<Rightarrow> nat \<Rightarrow> nat \<times> nat \<times> int" where
  "ident s ip = (i_dev (icache s ip), i_inum (icache s ip), i_ref (icache s ip))"

named_theorems idents \<open>operations that keep the identity and reference count of every slot\<close>

lemma more_icache: "bcache.more t = bcache.more s \<Longrightarrow> icache t = icache s \<and> devsw t = devsw s"
  for s t :: "'a fsys_scheme"
  by (cases s; cases t) simp

lemma more_ident: "bcache.more t = bcache.more s \<Longrightarrow> ident t = ident s"
  using more_icache [of t s] by (simp add: ident_def fun_eq_iff)

lemmas [idents] = frames [THEN more_ident]

lemma ident_upd [simp]:
  "(\<And>i. i_dev (f i) = i_dev i) \<Longrightarrow> (\<And>i. i_inum (f i) = i_inum i) \<Longrightarrow> (\<And>i. i_ref (f i) = i_ref i) \<Longrightarrow> ident (upd_inode ip f s) = ident s"
  by (auto simp: ident_def upd_inode_def fun_eq_iff)

lemma ident_set_addr [simp]: "ident (set_addr ip n a s) = ident s"
  by (simp add: set_addr_def)

lemma ident_set_data [simp]: "ident (set_data b x s) = ident s"
  by (rule more_ident) simp

lemma iupdate_ident [idents]: "iupdate ip s = Ok s' \<Longrightarrow> ident s' = ident s"
  by (auto simp: iupdate_def Let_def kbind_Ok idents)

lemma ilock_ident [idents]: "ilock ip s = Ok s' \<Longrightarrow> ident s' = ident s"
  by (auto simp: ilock_def Let_def kbind_Ok idents load_inode_def split: if_splits)

lemma iunlock_ident [idents]: "iunlock ip s = Ok s' \<Longrightarrow> ident s' = ident s"
  by (auto simp: iunlock_def split: if_splits)

lemma bmap_indirect_ident [idents]: "bmap_indirect dev x n s = Ok (a, s') \<Longrightarrow> ident s' = ident s"
  by (auto simp: bmap_indirect_def Let_def kbind_Ok idents split: if_splits)

lemma bmap_ident [idents]: "bmap ip bn s = Ok (a, s') \<Longrightarrow> ident s' = ident s"
  by (auto simp: bmap_def Let_def kbind_Ok idents split: if_splits)

lemma itrunc_direct_ident [idents]: "itrunc_direct ip is s = Ok s' \<Longrightarrow> ident s' = ident s"
  by (induction ip "is" s rule: itrunc_direct.induct) (auto simp: kbind_Ok idents split: if_splits)

lemma itrunc_indirect_ident [idents]: "itrunc_indirect d bp js s = Ok s' \<Longrightarrow> ident s' = ident s"
  by (induction d bp js s rule: itrunc_indirect.induct) (auto simp: kbind_Ok idents split: if_splits)

lemma itrunc_ident [idents]: "itrunc ip s = Ok s' \<Longrightarrow> ident s' = ident s"
  by (auto simp: itrunc_def Let_def kbind_Ok idents split: if_splits)

lemma readi_loop_ident [idents]: "readi_loop ip off n s = Ok (d, s') \<Longrightarrow> ident s' = ident s"
proof (induction n arbitrary: off s d rule: less_induct)
  case (less n)
  show ?case
  proof (cases "n = 0")
    case True
    with less.prems show ?thesis by (simp add: readi_loop.simps)
  next
    case False
    with less.prems obtain a s1 bp s2 s3 r where
      "bmap ip (off div BSIZE) s = Ok (a, s1)" "bread (i_dev (icache s1 ip)) a s1 = Ok (bp, s2)" "brelse bp s2 = Ok s3"
      "readi_loop ip (off + chunk off n) (n - chunk off n) s3 = Ok (r, s')"
      unfolding readi_loop.simps [of ip off n s] by (auto simp: kbind_Ok Let_def)
    then show ?thesis using less.IH [of "n - chunk off n"] False by (simp add: chunk_pos idents)
  qed
qed

lemma writei_loop_ident [idents]: "writei_loop ip src off n s = Ok s' \<Longrightarrow> ident s' = ident s"
proof (induction n arbitrary: src off s rule: less_induct)
  case (less n)
  show ?case
  proof (cases "n = 0")
    case True
    with less.prems show ?thesis by (simp add: writei_loop.simps)
  next
    case False
    with less.prems obtain a s1 bp s2 x s3 s4 where
      "bmap ip (off div BSIZE) s = Ok (a, s1)" "bread (i_dev (icache s1 ip)) a s1 = Ok (bp, s2)"
      "bwrite bp (set_data bp x s2) = Ok s3" "brelse bp s3 = Ok s4"
      "writei_loop ip (drop (chunk off n) src) (off + chunk off n) (n - chunk off n) s4 = Ok s'"
      unfolding writei_loop.simps [of ip src off n s] by (auto simp: kbind_Ok Let_def)
    then show ?thesis using less.IH [of "n - chunk off n"] False by (simp add: chunk_pos idents)
  qed
qed

lemma readi_ident [idents]: "readi ip off n s = Ok (r, d, s') \<Longrightarrow> ident s' = ident s"
  by (auto simp: readi_def Let_def kbind_Ok idents split: if_splits option.splits)

lemma writei_ident [idents]: "writei ip src off s = Ok (r, s') \<Longrightarrow> ident s' = ident s"
proof (cases "i_type (icache s ip) = T_DEV \<or> off > i_size (icache s ip) \<or> off_overflow off (length src)")
  case True
  assume "writei ip src off s = Ok (r, s')"
  with True have "s' = s" by (auto simp: writei_def Let_def kbind_Ok split: if_split_asm option.split_asm)
  then show ?thesis by simp
next
  case False
  assume "writei ip src off s = Ok (r, s')"
  with False obtain s1 where 1: "writei_loop ip src off (writei_n off (length src)) s = Ok s1" and
    2: "(if writei_n off (length src) > 0 \<and> off + writei_n off (length src) > i_size (icache s1 ip)
      then iupdate ip (upd_inode ip (i_size_update (\<lambda>_. off + writei_n off (length src))) s1) else Ok s1) = Ok s'"
    unfolding writei_def Let_def by (auto simp: kbind_Ok)
  from 2 have "ident s' = ident s1" by (auto simp: iupdate_ident split: if_split_asm)
  with writei_loop_ident [OF 1] show ?thesis by simp
qed

lemma ident_ref: "ident (upd_inode ip (i_ref_update f) s) =
    (ident s)(ip := (i_dev (icache s ip), i_inum (icache s ip), f (i_ref (icache s ip))))"
  by (simp add: ident_def upd_inode_def fun_eq_iff)

lemma iput_ident:
  assumes "iput ip s = Ok s'"
  shows "ident s' = (ident s)(ip := (fst (ident s ip), fst (snd (ident s ip)), snd (snd (ident s ip)) - 1))"
proof -
  from assms obtain s1 where s': "s' = upd_inode ip (i_ref_update (\<lambda>r. r - 1)) s1" and
    1: "s1 = s \<or> (\<exists>t u. itrunc ip (upd_inode ip (i_busy_update (\<lambda>_. True)) s) = Ok t \<and>
      iupdate ip (upd_inode ip (i_type_update (\<lambda>_. 0)) t) = Ok u \<and>
      s1 = upd_inode ip (\<lambda>i. i\<lparr>i_busy := False, i_valid := False\<rparr>) u)"
    unfolding iput_def by (fastforce simp: kbind_Ok split: if_split_asm)
  from 1 have s1: "ident s1 = ident s" by (auto simp: itrunc_ident iupdate_ident)
  have "ident s' = (ident s1)(ip := (fst (ident s1 ip), fst (snd (ident s1 ip)), snd (snd (ident s1 ip)) - 1))"
    unfolding s' ident_ref by (simp add: ident_def)
  then show ?thesis unfolding s1 .
qed

lemma iget_scan_find:
  "fst (iget_scan ics d n ips e) = find (\<lambda>ip. i_ref (ics ip) > 0 \<and> i_dev (ics ip) = d \<and> i_inum (ics ip) = n) ips"
  "fst (iget_scan ics d n ips e) = None \<Longrightarrow> snd (iget_scan ics d n ips e) =
     (if e = None then find (\<lambda>ip. i_ref (ics ip) = 0) ips else e)"
  by (induction ics d n ips e rule: iget_scan.induct) auto

text \<open>The two ways \<open>iget\<close> returns: the slot that caches the inode, or a free slot.\<close>

lemma iget_cases:
  assumes "iget d n s = Ok (ip, s')"
  shows "ip < NINODE \<and>
    ((\<exists>r. ident s ip = (d, n, r) \<and> r > 0 \<and> ident s' = (ident s)(ip := (d, n, r + 1))) \<or>
     (snd (snd (ident s ip)) = 0 \<and> ident s' = (ident s)(ip := (d, n, 1)) \<and>
       (\<forall>j < NINODE. \<forall>r. ident s j = (d, n, r) \<longrightarrow> r \<le> 0)))"
proof -
  obtain f e where sc: "iget_scan (icache s) d n [0..<NINODE] None = (f, e)" by force
  note fd = iget_scan_find [of "icache s" d n "[0..<NINODE]" None, unfolded sc fst_conv snd_conv]
  show ?thesis
  proof (cases f)
    case (Some j)
    with assms sc have "j = ip" "s' = upd_inode ip (i_ref_update (\<lambda>r. r + 1)) s" by (auto simp: iget_def)
    with fd(1) Some show ?thesis
      by (auto simp: ident_ref dest!: find_SomeD [OF sym]) (auto simp: ident_def)
  next
    case None
    with fd have e: "e = find (\<lambda>ip. i_ref (icache s ip) = 0) [0..<NINODE]" by simp
    from None assms sc obtain j where j: "e = Some j" "j = ip"
      "s' = upd_inode ip (\<lambda>i. i\<lparr>i_dev := d, i_inum := n, i_ref := 1, i_busy := False, i_valid := False\<rparr>) s"
      by (cases e) (auto simp: iget_def)
    with e have "ip < NINODE" "i_ref (icache s ip) = 0" by (auto dest!: find_SomeD [OF sym])
    moreover have "ident s' = (ident s)(ip := (d, n, 1))" by (simp add: j(3) ident_def upd_inode_def fun_eq_iff)
    moreover have "\<forall>k < NINODE. \<forall>r. ident s k = (d, n, r) \<longrightarrow> r \<le> 0"
    proof (intro allI impI)
      fix k r assume "k < NINODE" "ident s k = (d, n, r)"
      with find_NoneD [OF fd(1) [symmetric, unfolded None], of k] show "r \<le> 0" by (auto simp: ident_def)
    qed
    ultimately show ?thesis by (simp add: ident_def)
  qed
qed

section \<open>Runs of the inode cache\<close>

text \<open>
  \<open>ref_run s R\<close>: \<open>s\<close> is reached by any sequence of inode operations, and \<open>R\<close> is the multiset of
  references handed out and not yet dropped, each with the inode it was obtained for.
\<close>

inductive ref_run :: "fsys \<Rightarrow> (nat \<times> nat \<times> nat) multiset \<Rightarrow> bool" where
  boot: "(\<And>ip. i_ref (icache s ip) = 0) \<Longrightarrow> ref_run s {#}"
| get: "ref_run s R \<Longrightarrow> iget d n s = Ok (ip, s') \<Longrightarrow> ref_run s' (add_mset (ip, d, n) R)"
| dup: "ref_run s R \<Longrightarrow> (ip, d, n) \<in># R \<Longrightarrow> idup ip s = (ip, s') \<Longrightarrow> ref_run s' (add_mset (ip, d, n) R)"
| lock: "ref_run s R \<Longrightarrow> ilock ip s = Ok s' \<Longrightarrow> ref_run s' R"
| unlock: "ref_run s R \<Longrightarrow> iunlock ip s = Ok s' \<Longrightarrow> ref_run s' R"
| read: "ref_run s R \<Longrightarrow> readi ip off k s = Ok (r, bs, s') \<Longrightarrow> ref_run s' R"
| modify: "ref_run s R \<Longrightarrow> writei ip bs off s = Ok (r, s') \<Longrightarrow> ref_run s' R"
| update: "ref_run s R \<Longrightarrow> iupdate ip s = Ok s' \<Longrightarrow> ref_run s' R"
| put: "ref_run s R \<Longrightarrow> (ip, d, n) \<in># R \<Longrightarrow> iput ip s = Ok s' \<Longrightarrow> ref_run s' (R - {#(ip, d, n)#})"

definition refs_ok :: "(nat \<Rightarrow> nat \<times> nat \<times> int) \<Rightarrow> (nat \<times> nat \<times> nat) multiset \<Rightarrow> bool" where
  "refs_ok sl R \<longleftrightarrow>
     (\<forall>ip < NINODE. snd (snd (sl ip)) = int (size {#x \<in># R. fst x = ip#})) \<and>
     (\<forall>ip d n. (ip, d, n) \<in># R \<longrightarrow> ip < NINODE \<and> (\<exists>r. sl ip = (d, n, r))) \<and>
     (\<forall>i < NINODE. \<forall>j < NINODE. \<forall>d n r r'. sl i = (d, n, r) \<longrightarrow> sl j = (d, n, r') \<longrightarrow> r > 0 \<longrightarrow> r' > 0 \<longrightarrow> i = j)"

lemma refs_okD:
  assumes "refs_ok sl R"
  shows "ip < NINODE \<Longrightarrow> snd (snd (sl ip)) = int (size {#x \<in># R. fst x = ip#})"
    and "(ip, d, n) \<in># R \<Longrightarrow> ip < NINODE \<and> (\<exists>r. sl ip = (d, n, r))"
    and "i < NINODE \<Longrightarrow> j < NINODE \<Longrightarrow> sl i = (d, n, r) \<Longrightarrow> sl j = (d, n, r') \<Longrightarrow> r > 0 \<Longrightarrow> r' > 0 \<Longrightarrow> i = j"
  using assms unfolding refs_ok_def by blast+

lemma refs_okI:
  assumes "\<And>ip. ip < NINODE \<Longrightarrow> snd (snd (sl ip)) = int (size {#x \<in># R. fst x = ip#})"
    and "\<And>ip d n. (ip, d, n) \<in># R \<Longrightarrow> ip < NINODE \<and> (\<exists>r. sl ip = (d, n, r))"
    and "\<And>i j d n r r'. i < NINODE \<Longrightarrow> j < NINODE \<Longrightarrow> sl i = (d, n, r) \<Longrightarrow> sl j = (d, n, r') \<Longrightarrow> r > 0 \<Longrightarrow> r' > 0 \<Longrightarrow> i = j"
  shows "refs_ok sl R"
  using assms unfolding refs_ok_def by blast

lemma refs_ok_pos:
  assumes "refs_ok sl R" and "(ip, d, n) \<in># R"
  shows "\<exists>r. sl ip = (d, n, r) \<and> r > 0 \<and> ip < NINODE"
proof -
  from refs_okD(2) [OF assms] obtain c where c: "sl ip = (d, n, c)" "ip < NINODE" by blast
  have "(ip, d, n) \<in># {#x \<in># R. fst x = ip#}" using assms(2) by simp
  then have "size {#x \<in># R. fst x = ip#} \<noteq> 0" by (metis empty_iff set_mset_empty size_eq_0_iff_empty)
  moreover have "c = int (size {#x \<in># R. fst x = ip#})" using refs_okD(1) [OF assms(1) c(2)] c(1) by simp
  ultimately have "c > 0" by (metis bot_nat_0.not_eq_extremum of_nat_0_less_iff)
  with c show ?thesis by blast
qed

text \<open>One more reference to a slot that is in use, or the first one to a free slot.\<close>

lemma refs_ok_add:
  assumes "refs_ok sl R" and "sl ip = (d, n, c)" and "c > 0" and "ip < NINODE"
  shows "refs_ok (sl(ip := (d, n, c + 1))) (add_mset (ip, d, n) R)"
proof (rule refs_okI)
  show "snd (snd ((sl(ip := (d, n, c + 1))) j)) = int (size {#x \<in># add_mset (ip, d, n) R. fst x = j#})" if "j < NINODE" for j
    using refs_okD(1) [OF assms(1) that] assms(2) by auto
  show "j < NINODE \<and> (\<exists>r. (sl(ip := (d, n, c + 1))) j = (x, y, r))" if "(j, x, y) \<in># add_mset (ip, d, n) R" for j x y
    using that refs_okD(2) [OF assms(1), of j x y] assms(2,4) by auto
  show "i = j" if "i < NINODE" "j < NINODE" "(sl(ip := (d, n, c + 1))) i = (x, y, r)" "(sl(ip := (d, n, c + 1))) j = (x, y, r')"
    "r > 0" "r' > 0" for i j x y r r'
    using that refs_okD(3) [OF assms(1), of i j x y "if i = ip then c else r" "if j = ip then c else r'"] assms(2,3)
    by (auto split: if_splits)
qed

lemma refs_ok_fresh:
  assumes "refs_ok sl R" and "snd (snd (sl ip)) = 0" and "ip < NINODE"
    and "\<forall>j < NINODE. \<forall>r. sl j = (d, n, r) \<longrightarrow> r \<le> 0"
  shows "refs_ok (sl(ip := (d, n, 1))) (add_mset (ip, d, n) R)"
proof (rule refs_okI)
  show "snd (snd ((sl(ip := (d, n, 1))) j)) = int (size {#x \<in># add_mset (ip, d, n) R. fst x = j#})" if "j < NINODE" for j
  proof (cases "j = ip")
    case True
    with refs_okD(1) [OF assms(1) that] assms(2) have "size {#x \<in># R. fst x = ip#} = 0" by (simp only:)
    with True show ?thesis by simp
  next
    case False
    with refs_okD(1) [OF assms(1) that] show ?thesis by simp
  qed
  have no: "(ip, a, b) \<notin># R" for a b using refs_ok_pos [OF assms(1), of ip a b] assms(2) by auto
  show "j < NINODE \<and> (\<exists>r. (sl(ip := (d, n, 1))) j = (x, y, r))" if "(j, x, y) \<in># add_mset (ip, d, n) R" for j x y
  proof (cases "j = ip")
    case True
    with that no have "(j, x, y) = (ip, d, n)" by auto
    with True assms(3) show ?thesis by simp
  next
    case False
    with that refs_okD(2) [OF assms(1), of j x y] show ?thesis by simp
  qed
  show "i = j" if "i < NINODE" "j < NINODE" "(sl(ip := (d, n, 1))) i = (x, y, r)" "(sl(ip := (d, n, 1))) j = (x, y, r')"
    "r > 0" "r' > 0" for i j x y r r'
    using that refs_okD(3) [OF assms(1), of i j x y r r'] assms(4) by (force split: if_splits)
qed

lemma refs_ok_remove:
  assumes "refs_ok sl R" and "(ip, d, n) \<in># R" and "sl ip = (a, b, c)"
  shows "refs_ok (sl(ip := (a, b, c - 1))) (R - {#(ip, d, n)#})"
proof (rule refs_okI)
  from refs_ok_pos [OF assms(1,2)] assms(3) have ip: "a = d" "b = n" "c > 0" "ip < NINODE" by auto
  obtain Q where Q: "R = add_mset (ip, d, n) Q" using assms(2) by (metis mset_add)
  show "snd (snd ((sl(ip := (a, b, c - 1))) j)) = int (size {#x \<in># R - {#(ip, d, n)#}. fst x = j#})" if "j < NINODE" for j
    using refs_okD(1) [OF assms(1) that] assms(3) by (auto simp: Q)
  show "j < NINODE \<and> (\<exists>r. (sl(ip := (a, b, c - 1))) j = (x, y, r))" if "(j, x, y) \<in># R - {#(ip, d, n)#}" for j x y
    using in_diffD [OF that] refs_okD(2) [OF assms(1), of j x y] assms(3) by auto
  show "i = j" if "i < NINODE" "j < NINODE" "(sl(ip := (a, b, c - 1))) i = (x, y, r)" "(sl(ip := (a, b, c - 1))) j = (x, y, r')"
    "r > 0" "r' > 0" for i j x y r r'
    using that refs_okD(3) [OF assms(1), of i j x y "if i = ip then c else r" "if j = ip then c else r'"] assms(3) ip
    by (auto split: if_splits)
qed

lemma ref_run_ok: "ref_run s R \<Longrightarrow> refs_ok (ident s) R"
proof (induction rule: ref_run.induct)
  case (boot s)
  then show ?case by (simp add: refs_ok_def ident_def)
next
  case (get s R d n ip s')
  from iget_cases [OF get.hyps(2)] have ip: "ip < NINODE" by blast
  from iget_cases [OF get.hyps(2)] consider
    (hit) r where "ident s ip = (d, n, r)" "r > 0" "ident s' = (ident s)(ip := (d, n, r + 1))"
  | (free) "snd (snd (ident s ip)) = 0" "ident s' = (ident s)(ip := (d, n, 1))"
      "\<forall>j < NINODE. \<forall>r. ident s j = (d, n, r) \<longrightarrow> r \<le> 0" by blast
  then show ?case
  proof cases
    case hit
    with refs_ok_add [OF get.IH hit(1,2) ip] show ?thesis by (simp del: fun_upd_apply)
  next
    case free
    with refs_ok_fresh [OF get.IH free(1) ip free(3)] show ?thesis by (simp del: fun_upd_apply)
  qed
next
  case (dup s R ip d n s')
  from refs_ok_pos [OF dup.IH dup.hyps(2)] obtain c where "ident s ip = (d, n, c)" "c > 0" "ip < NINODE" by auto
  moreover from this dup.hyps(3) have "ident s' = (ident s)(ip := (d, n, c + 1))"
    by (auto simp: idup_def ident_ref) (auto simp: ident_def)
  ultimately show ?case using refs_ok_add [OF dup.IH] by (simp del: fun_upd_apply)
next
  case (put s R ip d n s')
  obtain a b c where "ident s ip = (a, b, c)" by (cases "ident s ip")
  then show ?case using refs_ok_remove [OF put.IH put.hyps(2)] iput_ident [OF put.hyps(3)] by (simp del: fun_upd_apply)
qed (simp_all add: ilock_ident iunlock_ident readi_ident writei_ident iupdate_ident)

text \<open>
  C17. The inode table counts references exactly, whatever sequence of \<open>iget\<close>, \<open>idup\<close>, locking,
  reading, writing, updating and \<open>iput\<close> (with its truncation) led here: the count of a slot is
  the number of references outstanding, a slot someone refers to still holds the inode it was
  obtained for, and two references to the same inode share the slot.
\<close>
theorem inode_refs_exact:
  assumes "ref_run s R"
  shows "(\<forall>ip < NINODE. i_ref (icache s ip) = int (size {#x \<in># R. fst x = ip#})) \<and>
    (\<forall>ip d n. (ip, d, n) \<in># R \<longrightarrow> i_dev (icache s ip) = d \<and> i_inum (icache s ip) = n) \<and>
    (\<forall>ip ip' d n. (ip, d, n) \<in># R \<longrightarrow> (ip', d, n) \<in># R \<longrightarrow> ip = ip')"
proof -
  note r = ref_run_ok [OF assms]
  have "ip = ip'" if m: "(ip, d, n) \<in># R" "(ip', d, n) \<in># R" for ip ip' d n
    using refs_ok_pos [OF r m(1)] refs_ok_pos [OF r m(2)] refs_okD(3) [OF r] by blast
  moreover have "i_dev (icache s ip) = d \<and> i_inum (icache s ip) = n" if "(ip, d, n) \<in># R" for ip d n
    using refs_okD(2) [OF r that] by (simp add: ident_def)
  moreover have "i_ref (icache s ip) = int (size {#x \<in># R. fst x = ip#})" if "ip < NINODE" for ip
    using refs_okD(1) [OF r that] by (simp add: ident_def)
  ultimately show ?thesis by blast
qed

text \<open>An empty inode table on top of a disk.\<close>

definition no_inode :: inode where
  "no_inode = \<lparr>i_dev = 0, i_inum = 0, i_ref = 0, i_busy = False, i_valid = False, i_type = 0, i_major = 0, i_minor = 0,
     i_nlink = 0, i_size = 0, i_addrs = replicate 13 0\<rparr>"

definition mount :: "bcache \<Rightarrow> fsys" where
  "mount s = bcache.extend (bcache.truncate s)
     (fsys.fields (\<lambda>_. no_inode) (\<lambda>_. \<lparr>dev_read = None, dev_write = None\<rparr>))"

lemma mount_sel [simp]: "bufs (mount s) = bufs s" "idequeue (mount s) = idequeue s" "havedisk1 (mount s) = havedisk1 s"
  "sectors (mount s) = sectors s" "bad_sectors (mount s) = bad_sectors s" "icache (mount s) = (\<lambda>_. no_inode)"
  by (simp_all add: mount_def bcache.defs fsys.defs)

theorem inode_refs_exact_witness:
  "\<exists>s R. ref_run s R \<and> (\<exists>ip. size {#x \<in># R. fst x = ip#} = 2 \<and> ip < NINODE \<and> i_ref (icache s ip) = 2 \<and> i_inum (icache s ip) = 5)"
proof -
  let ?s0 = "mount (blank_disk 100)"
  have 0: "ref_run ?s0 {#}" by (rule ref_run.boot) (simp add: no_inode_def)
  have u: "[0..<NINODE] = 0 # [1..<NINODE]" by (simp add: NINODE_def upt_conv_Cons)
  have nf: "fst (iget_scan (\<lambda>_. no_inode) 1 5 ips e) = None" for ips e
    unfolding iget_scan_find(1) by (simp add: find_None_iff no_inode_def)
  have "snd (iget_scan (\<lambda>_. no_inode) 1 5 [0..<NINODE] None) = Some 0"
    unfolding iget_scan_find(2) [OF nf] by (simp add: u no_inode_def)
  with nf have sc: "iget_scan (\<lambda>_. no_inode) 1 5 [0..<NINODE] None = (None, Some 0)"
    by (metis prod.collapse)
  obtain s1 where 1: "iget 1 5 ?s0 = Ok (0, s1)" by (simp add: iget_def sc del: One_nat_def)
  note r1 = ref_run.get [OF 0 1]
  obtain s2 where 2: "idup 0 s1 = (0, s2)" by (simp add: idup_def)
  have r2: "ref_run s2 {#(0, 1, 5), (0, 1, 5)#}" using ref_run.dup [OF r1 _ 2] by simp
  from inode_refs_exact [OF r2] r2 show ?thesis
    by (intro exI [of _ s2] exI [of _ "{#(0, 1, 5), (0, 1, 5)#}"]) (auto simp: NINODE_def)
qed

section \<open>On-disk inodes: encoding and decoding\<close>

text \<open>The values a C inode can hold.\<close>

definition inode_ranged :: "inode \<Rightarrow> bool" where
  "inode_ranged ino \<longleftrightarrow> i_type ino < 2 ^ 16 \<and> i_major ino < 2 ^ 16 \<and> i_minor ino < 2 ^ 16 \<and> i_nlink ino < 2 ^ 16 \<and>
     i_size ino < 2 ^ 32 \<and> length (i_addrs ino) = NDIRECT + 1 \<and> (\<forall>a \<in> set (i_addrs ino). a < 2 ^ 32)"

lemma length_store_addrs [simp]: "length (store_addrs as d i) = length d"
proof -
  have "length (fold (\<lambda>j d. put_le 4 (as ! j) d (i + 4 * j)) js d) = length d" for js
    by (induction js arbitrary: d) auto
  then show ?thesis by (simp add: store_addrs_def)
qed

lemma length_store_inode [simp]: "length (store_inode ino d i) = length d"
  by (simp add: store_inode_def)

lemma store_addrs_other: "j + k \<le> i \<or> i + 52 \<le> j \<Longrightarrow> get_le k (store_addrs as d i) j = get_le k d j"
proof -
  assume a: "j + k \<le> i \<or> i + 52 \<le> j"
  have "get_le k (fold (\<lambda>j d. put_le 4 (as ! j) d (i + 4 * j)) js d) j = get_le k d j" if "\<forall>x \<in> set js. x < 13" for js
    using that by (induction js arbitrary: d) (use a in \<open>auto simp: get_put_le_other\<close>)
  then show ?thesis by (simp add: store_addrs_def NDIRECT_def)
qed

lemma get_store_addrs:
  assumes "j < 13" and "i + 52 \<le> length d"
  shows "get_le 4 (store_addrs as d i) (i + 4 * j) = as ! j mod 2 ^ 32"
proof -
  have "get_le 4 (fold (\<lambda>j d. put_le 4 (as ! j) d (i + 4 * j)) [0..<n] d) (i + 4 * j) = as ! j mod 2 ^ 32"
    if "j < n" "n \<le> 13" for n
    using that
  proof (induction n)
    case (Suc n)
    let ?d = "fold (\<lambda>j d. put_le 4 (as ! j) d (i + 4 * j)) [0..<n] d"
    have l: "length ?d = length d" by (induction n) auto
    show ?case
    proof (cases "j = n")
      case True
      then show ?thesis using Suc.prems assms l by (simp add: get_put_le)
    next
      case False
      then show ?thesis using Suc by (simp add: get_put_le_other)
    qed
  qed simp
  from this [of 13] assms show ?thesis by (simp add: store_addrs_def NDIRECT_def)
qed

lemma load_store_inode:
  assumes "inode_ranged ino" and "i + 64 \<le> length d"
  shows "load_inode (store_inode ino d i) i ino' = ino'\<lparr>i_type := i_type ino, i_major := i_major ino, i_minor := i_minor ino,
    i_nlink := i_nlink ino, i_size := i_size ino, i_addrs := i_addrs ino\<rparr>"
proof -
  let ?d = "store_inode ino d i"
  have "get_le 2 ?d i = i_type ino" "get_le 2 ?d (i + 2) = i_major ino" "get_le 2 ?d (i + 4) = i_minor ino"
    "get_le 2 ?d (i + 6) = i_nlink ino" "get_le 4 ?d (i + 8) = i_size ino"
    using assms by (simp_all add: store_inode_def store_addrs_other get_put_le_other get_put_le inode_ranged_def)
  moreover have "map (\<lambda>j. get_le 4 ?d (i + 12 + 4 * j)) [0..<NDIRECT + 1] = i_addrs ino"
  proof (rule nth_equalityI)
    fix j assume "j < length (map (\<lambda>j. get_le 4 ?d (i + 12 + 4 * j)) [0..<NDIRECT + 1])"
    then have j: "j < 13" by (simp add: NDIRECT_def)
    have "i_addrs ino ! j < 2 ^ 32" using assms(1) j by (simp add: inode_ranged_def NDIRECT_def)
    then show "map (\<lambda>j. get_le 4 ?d (i + 12 + 4 * j)) [0..<NDIRECT + 1] ! j = i_addrs ino ! j"
      using j assms(2) get_store_addrs [of j "i + 12"] by (simp add: NDIRECT_def store_inode_def)
  qed (use assms in \<open>simp add: inode_ranged_def\<close>)
  ultimately show ?thesis by (simp add: load_inode_def di_type_def)
qed

text \<open>Storing one inode of a block leaves the others alone.\<close>

lemma store_inode_other:
  assumes "j + k \<le> i \<or> i + 64 \<le> j"
  shows "get_le k (store_inode ino d i) j = get_le k d j"
  using assms by (elim disjE) (simp_all add: store_inode_def store_addrs_other get_put_le_other)

lemma load_store_other:
  assumes "m \<noteq> n"
  shows "load_inode (store_inode ino d (64 * m)) (64 * n) ino' = load_inode d (64 * n) ino'"
proof -
  have "get_le k (store_inode ino d (64 * m)) (64 * n + o') = get_le k d (64 * n + o')" if "o' + k \<le> 64" for k o'
    using assms that by (intro store_inode_other) (cases "m < n"; simp; linarith)
  from this [of 0 2] this [of 2 2] this [of 4 2] this [of 6 2] this [of 8 4] this [of "12 + 4 * _" 4]
  show ?thesis by (simp add: load_inode_def di_type_def NDIRECT_def add.assoc)
qed

definition iblock_off :: "inode \<Rightarrow> nat \<times> nat" where
  "iblock_off ino = (i_dev ino, IBLOCK (i_inum ino))"

definition store_at :: "inode \<Rightarrow> blocks \<Rightarrow> blocks" where
  "store_at ino B = B(iblock_off ino := store_inode ino (B (iblock_off ino)) (dinode_off (i_inum ino)))"

lemma iupdate_spec:
  assumes "bc.room s (iblock_off (icache s ip))"
  shows "\<exists>s'. iupdate ip s = Ok s' \<and> bc.same_but s (store_at (icache s ip) (sectors s)) s'"
proof -
  let ?i = "icache s ip"
  have "length (sectors s k) = BSIZE" for k using assms bc.blocks_length [of s] by (auto simp: bc.room_def)
  then show ?thesis
    using bc.update_block [of s "i_dev ?i" "IBLOCK (i_inum ?i)" "\<lambda>d. store_inode ?i d (dinode_off (i_inum ?i))" "\<lambda>_. Ok"] assms
    by (auto simp: iupdate_def Let_def iblock_off_def store_at_def)
qed

lemma icache_cache [simp]:
  "bc_inv (s\<lparr>icache := c\<rparr>) = bc_inv s" "bc_held (s\<lparr>icache := c\<rparr>) = bc_held s" "bc_ready (s\<lparr>icache := c\<rparr>) = bc_ready s"
  "buf_data (s\<lparr>icache := c\<rparr>) = buf_data s"
  by (simp_all add: bc_inv_def lru_def bc_held_def bc_ready_def buf_data_def fun_eq_iff)

lemma icache_room [simp]: "bc.room (s\<lparr>icache := c\<rparr>) = bc.room s"
  by (simp add: bc.room_def fun_eq_iff)

lemma upd_inode_cache [simp]:
  "bufs (upd_inode ip f s) = bufs s" "sectors (upd_inode ip f s) = sectors s" "bc_inv (upd_inode ip f s) = bc_inv s"
  "bc_held (upd_inode ip f s) = bc_held s" "bc_ready (upd_inode ip f s) = bc_ready s"
  "icache (upd_inode ip f s) = (icache s)(ip := f (icache s ip))" "bc.room (upd_inode ip f s) = bc.room s"
  "buf_data (upd_inode ip f s) = buf_data s"
  by (simp_all add: upd_inode_def)

lemma same_but_icache: "bc.same_but s B t \<Longrightarrow> icache t = icache s" for s t :: "'a fsys_scheme"
  using more_icache [of t s] by (simp add: bc.same_but_def)

text \<open>Locking an inode that is cached but not loaded.\<close>

lemma ilock_load:
  assumes "i_ref (icache s ip) \<ge> 1" and "\<not> i_busy (icache s ip)" and "\<not> i_valid (icache s ip)"
    and "bc.room s (iblock_off (icache s ip))"
  defines "ino \<equiv> load_inode (sectors s (iblock_off (icache s ip))) (dinode_off (i_inum (icache s ip))) (icache s ip)"
  shows "if i_type ino = 0 then ilock ip s = Panic ''ilock: no type''
    else \<exists>s'. ilock ip s = Ok s' \<and> icache s' = (icache s)(ip := ino\<lparr>i_busy := True, i_valid := True\<rparr>) \<and>
      bc_inv s' \<and> sectors s' = sectors s \<and> bc_held s' = bc_held s \<and> bc_ready s' = bc_ready s"
proof -
  let ?s1 = "upd_inode ip (i_busy_update (\<lambda>_. True)) s"
  let ?k = "iblock_off (icache s ip)"
  have r: "bc.room ?s1 (i_dev (icache s ip), IBLOCK (i_inum (icache s ip)))" using assms(4) by (simp add: iblock_off_def)
  from bc.room_read [OF r] obtain h s2 where 2: "bread (i_dev (icache s ip)) (IBLOCK (i_inum (icache s ip))) ?s1 = Ok (h, s2)"
    "bc_inv s2" "bc_held s h = None" "bc_held s2 = (bc_held s)(h \<mapsto> ?k)" "sectors s2 = sectors s" "bc_ready s2 = bc_ready s"
    "bcache.more s2 = bcache.more ?s1" "buf_data s2 h = sectors s ?k"
    by (auto simp: iblock_off_def)
  define s3 where "s3 = upd_inode ip (load_inode (sectors s ?k) (dinode_off (i_inum (icache s ip)))) s2"
  have "bc_inv s3" "bc_held s3 h = Some ?k" using 2 by (simp_all add: s3_def)
  from bc.rel_ok [OF this] obtain s4 where 4: "brelse h s3 = Ok s4" "bc_inv s4" "bc_held s4 = (bc_held s3)(h := None)"
    "sectors s4 = sectors s3" "bc_ready s4 = bc_ready s3" "bcache.more s4 = bcache.more s3" by blast
  have ic: "icache s2 = icache ?s1" "icache s4 = icache s3" using more_icache 2(7) 4(6) by blast+
  have i4: "icache s4 = (icache s)(ip := ino\<lparr>i_busy := True\<rparr>)"
    by (cases "icache s ip") (simp add: ic s3_def ino_def load_inode_def)
  have h4: "bc_held s4 = bc_held s" using 2(3,4) 4(3) by (auto simp: s3_def)
  have "ilock ip s = (let s = upd_inode ip (i_valid_update (\<lambda>_. True)) s4 in
     if i_type (icache s ip) = 0 then Panic ''ilock: no type'' else Ok s)"
    using assms(1-3) by (simp add: ilock_def Let_def 2 flip: s3_def) (simp add: 4(1))
  then show ?thesis using 2 4 h4 by (simp add: i4 s3_def)
qed

text \<open>
  An inode written with \<open>iupdate\<close> is read back by \<open>ilock\<close>: whenever the table has dropped the
  inode and cached it again, locking it loads exactly the type, device numbers, link count,
  size and block addresses that were stored, and the other inodes of the disk are as before.
\<close>
theorem iupdate_ilock_roundtrip:
  assumes "bc.room s (iblock_off (icache s ip))" and "inode_ranged (icache s ip)" and "i_type (icache s ip) \<noteq> 0"
    and "iupdate ip s = Ok s'" and "t = s'\<lparr>icache := c\<rparr>"
    and "i_dev (c jp) = i_dev (icache s ip)" and "i_inum (c jp) = i_inum (icache s ip)"
    and "i_ref (c jp) \<ge> 1" and "\<not> i_busy (c jp)" and "\<not> i_valid (c jp)"
  shows "\<exists>u. ilock jp t = Ok u \<and> icache u jp = (icache s ip)\<lparr>i_ref := i_ref (c jp), i_busy := True, i_valid := True\<rparr> \<and>
    (\<forall>n ino. n \<noteq> i_inum (icache s ip) \<longrightarrow>
      load_inode (sectors u (i_dev (icache s ip), IBLOCK n)) (dinode_off n) ino =
      load_inode (sectors s (i_dev (icache s ip), IBLOCK n)) (dinode_off n) ino)"
proof -
  let ?i = "icache s ip" and ?k = "iblock_off (icache s ip)"
  from iupdate_spec [OF assms(1)] assms(4) have sb: "bc.same_but s (store_at ?i (sectors s)) s'" by auto
  have sec: "sectors t = store_at ?i (sectors s)" using sb by (simp add: assms(5) bc.same_but_def)
  have r: "bc.room t (iblock_off (icache t jp))"
    using bc.room_same [OF sb assms(1)] assms(5-7)
    by (simp add: iblock_off_def)
  have len: "length (sectors s ?k) = BSIZE" using assms(1) bc.blocks_length [of s] by (simp add: bc.room_def)
  have "dinode_off (i_inum ?i) + 64 \<le> BSIZE"
  proof -
    have "i_inum ?i mod IPB \<le> 7" by (simp add: IPB_def)
    then show ?thesis by (simp add: dinode_off_def sizeof_dinode_def BSIZE_def)
  qed
  with len assms(2) have ld: "load_inode (sectors t ?k) (dinode_off (i_inum ?i)) (c jp) =
    (c jp)\<lparr>i_type := i_type ?i, i_major := i_major ?i, i_minor := i_minor ?i, i_nlink := i_nlink ?i, i_size := i_size ?i, i_addrs := i_addrs ?i\<rparr>"
    by (simp add: sec store_at_def load_store_inode)
  have tc: "icache t = c" and k: "iblock_off (c jp) = ?k" using assms(5-7) by (simp_all add: iblock_off_def)
  from ilock_load [of t jp, unfolded tc, unfolded k assms(7) ld] r assms(3,8-10) obtain u where u: "ilock jp t = Ok u" "sectors u = sectors t"
    "icache u = c(jp := (c jp)\<lparr>i_type := i_type ?i, i_major := i_major ?i, i_minor := i_minor ?i, i_nlink := i_nlink ?i,
      i_size := i_size ?i, i_addrs := i_addrs ?i, i_busy := True, i_valid := True\<rparr>)"
    by (auto simp: tc k)
  have "load_inode (store_at ?i (sectors s) (i_dev ?i, IBLOCK n)) (dinode_off n) ino =
      load_inode (sectors s (i_dev ?i, IBLOCK n)) (dinode_off n) ino" if "n \<noteq> i_inum ?i" for n ino
  proof (cases "IBLOCK n = IBLOCK (i_inum ?i)")
    case True
    then have "n mod IPB \<noteq> i_inum ?i mod IPB" using that by (simp add: IBLOCK_def) (metis div_mult_mod_eq)
    then show ?thesis using True load_store_other [of "i_inum ?i mod IPB" "n mod IPB"]
      by (simp add: store_at_def iblock_off_def dinode_off_def sizeof_dinode_def)
  qed (simp add: store_at_def iblock_off_def)
  then show ?thesis using u assms(6,7) by (auto simp: sec)
qed

lemma mount_room [simp]: "bc_inv (mount s) = bc_inv s" "bc_held (mount s) = bc_held s" "bc_ready (mount s) = bc_ready s"
    "bc.room (mount s) = bc.room s"
proof -
  show 1: "bc_inv (mount s) = bc_inv s" "bc_held (mount s) = bc_held s" "bc_ready (mount s) = bc_ready s"
    by (simp_all add: bc_inv_def lru_def bc_held_def bc_ready_def fun_eq_iff)
  show "bc.room (mount s) = bc.room s" by (simp add: bc.room_def fun_eq_iff 1)
qed

theorem iupdate_ilock_roundtrip_witness:
  "\<exists>(s :: fsys) s' u. i_size (icache s 0) = 7 \<and> iupdate 0 s = Ok s' \<and> ilock 4 (s'\<lparr>icache := (icache s)(4 := (icache s 0)\<lparr>i_valid := False, i_size := 0\<rparr>)\<rparr>) = Ok u \<and> i_size (icache u 4) = 7"
proof -
  let ?i = "no_inode\<lparr>i_dev := 1, i_inum := 3, i_ref := 1, i_valid := True, i_type := T_FILE, i_size := 7\<rparr>"
  let ?s = "(mount (blank_disk 100))\<lparr>icache := \<lambda>_. ?i\<rparr>"
  let ?c = "(icache ?s)(4 := (icache ?s 0)\<lparr>i_valid := False, i_size := 0\<rparr>)"
  have r: "bc.room ?s (iblock_off (icache ?s 0))"
    using blank_disk_room [of "IBLOCK 3" 100] by (simp add: iblock_off_def IBLOCK_def IPB_def)
  from iupdate_spec [OF r] obtain s' where s': "iupdate 0 ?s = Ok s'" by blast
  have "\<exists>u. ilock 4 (s'\<lparr>icache := ?c\<rparr>) = Ok u \<and>
    icache u 4 = (icache ?s 0)\<lparr>i_ref := i_ref (?c 4), i_busy := True, i_valid := True\<rparr> \<and>
    (\<forall>n ino. n \<noteq> i_inum (icache ?s 0) \<longrightarrow>
      load_inode (sectors u (i_dev (icache ?s 0), IBLOCK n)) (dinode_off n) ino =
      load_inode (sectors ?s (i_dev (icache ?s 0), IBLOCK n)) (dinode_off n) ino)"
    by (rule iupdate_ilock_roundtrip [OF r _ _ s' refl]) (simp_all add: inode_ranged_def no_inode_def T_FILE_def NDIRECT_def)
  then obtain u where u: "ilock 4 (s'\<lparr>icache := ?c\<rparr>) = Ok u" "i_size (icache u 4) = 7" by auto
  then show ?thesis using s' by (intro exI [of _ ?s] exI [of _ s'] exI [of _ u]) simp
qed

end
