(* ===== verification/Fs_Content.thy ===== *)
theory Fs_Content
  imports Inode
begin

text \<open>
  What the file operations of \<open>src/P1/xv6/xv6/kernel/fs.c\<close> do to the contents of files. The block
  map is stated as a function of the disk and the inode and \<open>bmap\<close> is proved to compute it; an
  invariant of the disk (allocated metadata, zeroed free blocks) and of a file (distinct,
  allocated blocks, no holes) is kept by every step; \<open>readi\<close> and \<open>writei\<close> are then shown to read
  and splice the byte sequence the file stands for, indirect block, partial blocks and block
  allocation included.
\<close>

section \<open>States between calls\<close>

definition disk_room :: "nat \<Rightarrow> 'a bcache_scheme \<Rightarrow> bool" where
  "disk_room dev s \<longleftrightarrow> bc_inv s \<and> bc_held s = Map.empty \<and>
     (\<forall>b < bitmap_end (sectors s) dev. (dev, b) \<in> bc_ready s) \<and> (\<forall>b \<in> sys_blocks (sectors s) dev. (dev, b) \<in> bc_ready s)"

text \<open>\<open>s'\<close> differs from \<open>s\<close> in the blocks \<open>B\<close> and the inode table \<open>c\<close> only, up to the cache.\<close>

definition becomes :: "'a fsys_scheme \<Rightarrow> blocks \<Rightarrow> (nat \<Rightarrow> inode) \<Rightarrow> 'a fsys_scheme \<Rightarrow> bool" where
  "becomes s B c s' \<longleftrightarrow> bc_inv s' \<and> bc_held s' = bc_held s \<and> bc_ready s' = bc_ready s \<and> sectors s' = B \<and>
     icache s' = c \<and> devsw s' = devsw s"

lemma becomes_trans: "becomes s B c t \<Longrightarrow> becomes t B' c' u \<Longrightarrow> becomes s B' c' u"
  by (simp add: becomes_def)

lemma becomes_same_but: "bc.same_but s B t \<Longrightarrow> becomes s B (icache s) t"
  using more_icache [of t s] by (auto simp: becomes_def bc.same_but_def)

lemma becomes_upd: "becomes s B c t \<Longrightarrow> becomes s B (c(ip := f (c ip))) (upd_inode ip f t)"
  by (auto simp: becomes_def upd_inode_def)

lemma becomes_refl: "bc_inv s \<Longrightarrow> becomes s (sectors s) (icache s) s"
  by (simp add: becomes_def)

lemma disk_room_room: "disk_room dev s \<Longrightarrow> b < bitmap_end (sectors s) dev \<Longrightarrow> bc.room s (dev, b)"
  and disk_room_alloc: "disk_room dev s \<Longrightarrow> alloc_room dev s"
  by (auto simp: disk_room_def bc.room_def alloc_room_def sys_blocks_def)

lemma disk_room_becomes:
  "disk_room dev s \<Longrightarrow> becomes s B c t \<Longrightarrow> bitmap_end B dev = bitmap_end (sectors s) dev \<Longrightarrow>
   sys_blocks B dev = sys_blocks (sectors s) dev \<Longrightarrow> disk_room dev t"
  by (simp add: disk_room_def becomes_def)

section \<open>The block map\<close>

definition palloc :: "blocks \<Rightarrow> nat \<Rightarrow> (nat \<times> blocks) option" where
  "palloc B dev = map_option (\<lambda>b. (b, mark_used B dev b)) (first_free B dev)"

text \<open>The indirect block of an inode, allocated if it has none.\<close>

definition pindirect :: "blocks \<Rightarrow> inode \<Rightarrow> (nat \<times> blocks \<times> inode) option" where
  "pindirect B ino =
     (if i_addrs ino ! NDIRECT = 0
      then map_option (\<lambda>(b, B'). (b, B', ino\<lparr>i_addrs := (i_addrs ino)[NDIRECT := b]\<rparr>)) (palloc B (i_dev ino))
      else Some (i_addrs ino ! NDIRECT, B, ino))"

definition pentry :: "blocks \<Rightarrow> nat \<Rightarrow> nat \<Rightarrow> nat \<Rightarrow> (nat \<times> blocks) option" where
  "pentry B dev x i =
     (let a = get_le 4 (B (dev, x)) i in
      if a = 0 then map_option (\<lambda>(b, B'). (b, B'((dev, x) := put_le 4 b (B' (dev, x)) i))) (palloc B dev)
      else Some (a, B))"

definition pmap :: "blocks \<Rightarrow> inode \<Rightarrow> nat \<Rightarrow> (nat \<times> blocks \<times> inode) option" where
  "pmap B ino bn =
     (if bn < NDIRECT then
        (if i_addrs ino ! bn = 0
         then map_option (\<lambda>(b, B'). (b, B', ino\<lparr>i_addrs := (i_addrs ino)[bn := b]\<rparr>)) (palloc B (i_dev ino))
         else Some (i_addrs ino ! bn, B, ino))
      else Option.bind (pindirect B ino) (\<lambda>(x, B, ino).
        map_option (\<lambda>(a, B'). (a, B', ino)) (pentry B (i_dev ino) x (4 * (bn - NDIRECT)))))"

lemma balloc_palloc:
  assumes "alloc_room dev s"
  shows "case palloc (sectors s) dev of None \<Rightarrow> balloc dev s = Panic ''balloc: out of blocks''
    | Some (b, B') \<Rightarrow> \<exists>s'. balloc dev s = Ok (b, s') \<and> bc.same_but s B' s'"
  using balloc_spec [OF assms] by (auto simp: palloc_def split: option.splits)

text \<open>\<open>set_addr\<close> after an allocation.\<close>

lemma balloc_set_addr:
  assumes "alloc_room (i_dev (icache s ip)) s"
  shows "case palloc (sectors s) (i_dev (icache s ip)) of
      None \<Rightarrow> kbind (balloc (i_dev (icache s ip)) s) (\<lambda>(a, s). Ok (a, set_addr ip n a s)) = Panic ''balloc: out of blocks''
    | Some (b, B') \<Rightarrow> \<exists>s'. kbind (balloc (i_dev (icache s ip)) s) (\<lambda>(a, s). Ok (a, set_addr ip n a s)) = Ok (b, s') \<and>
        becomes s B' ((icache s)(ip := (icache s ip)\<lparr>i_addrs := (i_addrs (icache s ip))[n := b]\<rparr>)) s'"
proof (cases "palloc (sectors s) (i_dev (icache s ip))")
  case None
  then show ?thesis using balloc_palloc [OF assms] by simp
next
  case (Some r)
  obtain b B' where r: "r = (b, B')" by (cases r)
  from balloc_palloc [OF assms] Some r obtain s' where s': "balloc (i_dev (icache s ip)) s = Ok (b, s')" "bc.same_but s B' s'" by auto
  have "becomes s B' ((icache s)(ip := (icache s ip)\<lparr>i_addrs := (i_addrs (icache s ip))[n := b]\<rparr>)) (set_addr ip n b s')"
    using becomes_upd [OF becomes_same_but [OF s'(2)], of ip "i_addrs_update (\<lambda>as. as[n := b])"] by (cases "icache s ip") (simp add: set_addr_def)
  with s'(1) Some r show ?thesis by auto
qed

section \<open>The invariant of the disk\<close>

definition meta_blocks :: "blocks \<Rightarrow> nat \<Rightarrow> nat set" where
  "meta_blocks B dev = insert 0 (sys_blocks B dev \<union> IBLOCK ` {..<sb_ninodes (fs_sb B dev)})"

definition bsized :: "blocks \<Rightarrow> bool" where
  "bsized B \<longleftrightarrow> (\<forall>k. length (B k) = BSIZE)"

lemma bsizedD: "bsized B \<Longrightarrow> length (B k) = BSIZE"
  by (simp only: bsized_def)

lemma bsized_upd: "bsized B \<Longrightarrow> length d = BSIZE \<Longrightarrow> bsized (B(k := d))"
  by (auto simp: bsized_def)

lemma bsized_mark_used: "bsized B \<Longrightarrow> bsized (mark_used B dev b)"
  by (simp add: mark_used_def bsized_upd bsizedD)

lemma in_use_marked: "bsized B \<Longrightarrow> in_use (mark_used B dev b) dev c \<longleftrightarrow> in_use B dev c \<or> c = b"
  by (rule in_use_mark_used) (rule bsizedD)

text \<open>Metadata is marked in use, and free blocks hold zeros (the file system is made so, and \<open>bfree\<close> zeroes).\<close>

definition fs_ok :: "nat \<Rightarrow> blocks \<Rightarrow> bool" where
  "fs_ok dev B \<longleftrightarrow> bsized B \<and> bitmap_end B dev \<le> 2 ^ 32 \<and>
     (\<forall>b \<in> meta_blocks B dev. b < bitmap_end B dev \<longrightarrow> in_use B dev b) \<and>
     (\<forall>b < bitmap_end B dev. \<not> in_use B dev b \<longrightarrow> B (dev, b) = replicate BSIZE 0)"

lemma sys_meta: "b \<in> sys_blocks B dev \<Longrightarrow> b \<in> meta_blocks B dev"
  by (simp add: meta_blocks_def)

lemma meta_blocks_mark [simp]: "meta_blocks (mark_used B dev b) dev = meta_blocks B dev"
  by (simp add: meta_blocks_def)

text \<open>A block that is handed out is none of the metadata and nobody's so far.\<close>

lemma palloc_fresh:
  assumes "fs_ok dev B" and "palloc B dev = Some (b, B')"
  shows "b < bitmap_end B dev" "\<not> in_use B dev b" "b \<notin> meta_blocks B dev" "b \<noteq> 0" "B (dev, b) = replicate BSIZE 0"
    "B' = mark_used B dev b"
proof -
  from assms(2) show b: "b < bitmap_end B dev" "\<not> in_use B dev b" "B' = mark_used B dev b"
    by (auto simp: palloc_def first_free_Some)
  with assms(1) show m: "b \<notin> meta_blocks B dev" and "B (dev, b) = replicate BSIZE 0" by (auto simp: fs_ok_def)
  from m show "b \<noteq> 0" by (auto simp: meta_blocks_def)
qed

lemma mark_used_data: "b < bitmap_end B dev \<Longrightarrow> k \<notin> {dev} \<times> sys_blocks B dev \<Longrightarrow> mark_used B dev b k = B k"
  by (rule mark_other) (auto simp: sys_blocks_def)

lemma fs_ok_palloc:
  assumes "fs_ok dev B" and "palloc B dev = Some (b, B')"
  shows "fs_ok dev B'"
proof -
  note f = palloc_fresh [OF assms]
  have len: "bsized B" using assms(1) by (simp add: fs_ok_def)
  have "B' (dev, c) = replicate BSIZE 0" if "c < bitmap_end B dev" "\<not> in_use B' dev c" for c
  proof -
    have c: "\<not> in_use B dev c" using that(2) len by (simp add: f(6) in_use_marked)
    then have "c \<notin> sys_blocks B dev" using assms(1) that(1) sys_meta by (auto simp: fs_ok_def)
    then show ?thesis using assms(1) that(1) c mark_used_data [OF f(1), of "(dev, c)"] by (simp add: f(6) fs_ok_def)
  qed
  then show ?thesis using assms(1) len f(1) by (auto simp: fs_ok_def f(6) in_use_marked bsized_mark_used)
qed

text \<open>Changing a block that is in use and no metadata keeps the invariant.\<close>

lemma layout_other:
  assumes "x \<notin> sys_blocks B dev"
  shows "fs_sb (B((dev, x) := d)) dev = fs_sb B dev" "bitmap_end (B((dev, x) := d)) dev = bitmap_end B dev"
    "bitmap_block (B((dev, x) := d)) dev = bitmap_block B dev"
    "sys_blocks (B((dev, x) := d)) dev = sys_blocks B dev" "meta_blocks (B((dev, x) := d)) dev = meta_blocks B dev"
    "b < bitmap_end B dev \<Longrightarrow> in_use (B((dev, x) := d)) dev b = in_use B dev b"
proof -
  from assms have x: "x \<noteq> 1" by (auto simp: sys_blocks_def)
  then show l: "fs_sb (B((dev, x) := d)) dev = fs_sb B dev" "bitmap_end (B((dev, x) := d)) dev = bitmap_end B dev"
    "bitmap_block (B((dev, x) := d)) dev = bitmap_block B dev"
    "sys_blocks (B((dev, x) := d)) dev = sys_blocks B dev"
    by (simp_all add: layout_upd sys_blocks_def)
  then show "meta_blocks (B((dev, x) := d)) dev = meta_blocks B dev" by (simp add: meta_blocks_def)
  show "b < bitmap_end B dev \<Longrightarrow> in_use (B((dev, x) := d)) dev b = in_use B dev b"
    using assms by (simp add: in_use_upd)
qed

lemma layout_data:
  assumes "x \<notin> meta_blocks B dev"
  shows "fs_sb (B((dev, x) := d)) dev = fs_sb B dev" "bitmap_end (B((dev, x) := d)) dev = bitmap_end B dev"
    "bitmap_block (B((dev, x) := d)) dev = bitmap_block B dev"
    "sys_blocks (B((dev, x) := d)) dev = sys_blocks B dev" "meta_blocks (B((dev, x) := d)) dev = meta_blocks B dev"
    "b < bitmap_end B dev \<Longrightarrow> in_use (B((dev, x) := d)) dev b = in_use B dev b"
  using assms sys_meta [of x B dev] layout_other [of x B dev] by blast+

lemma fs_ok_data:
  assumes "fs_ok dev B" and "x \<notin> meta_blocks B dev" and "x < bitmap_end B dev" and "in_use B dev x" and "length d = BSIZE"
  shows "fs_ok dev (B((dev, x) := d))"
  using assms unfolding fs_ok_def by (auto simp: layout_data bsized_upd)

section \<open>\<open>bmap\<close> computes the block map\<close>

definition addr_ok :: "nat \<Rightarrow> blocks \<Rightarrow> nat \<Rightarrow> bool" where
  "addr_ok dev B a \<longleftrightarrow> a < bitmap_end B dev \<and> in_use B dev a \<and> a \<notin> meta_blocks B dev"

lemma alloc_room_held:
  assumes "disk_room dev s" and "bc_inv t" and "bc_held t = [h \<mapsto> (dev, x)]" and "bc_ready t = bc_ready s"
    and "sectors t = sectors s" and "x \<notin> sys_blocks (sectors s) dev"
  shows "alloc_room dev t"
  using assms by (auto simp: disk_room_def alloc_room_def bc.room_def sys_blocks_def)

text \<open>The part of \<open>bmap\<close> that works on the indirect block \<open>x\<close>.\<close>

lemma bmap_indirect_spec:
  assumes room: "disk_room dev s" and fs: "fs_ok dev (sectors s)" and x: "x < bitmap_end (sectors s) dev" "x \<notin> meta_blocks (sectors s) dev"
  shows "case pentry (sectors s) dev x (4 * n) of None \<Rightarrow> bmap_indirect dev x n s = Panic ''balloc: out of blocks''
    | Some (a, B') \<Rightarrow> \<exists>s'. bmap_indirect dev x n s = Ok (a, s') \<and> bc.same_but s B' s'"
proof -
  let ?i = "4 * n"
  have held: "bc_held s = Map.empty" using room by (simp add: disk_room_def)
  have xs: "x \<notin> sys_blocks (sectors s) dev" using x(2) sys_meta by blast
  from bc.room_read [OF disk_room_room [OF room x(1)]] obtain h s1 where 1: "bread dev x s = Ok (h, s1)" "bc_inv s1"
    "bc_held s1 = [h \<mapsto> (dev, x)]" "sectors s1 = sectors s" "bc_ready s1 = bc_ready s" "bcache.more s1 = bcache.more s"
    "buf_data s1 h = sectors s (dev, x)" unfolding held by blast
  have ready: "(dev, x) \<in> bc_ready s" using room x(1) by (simp add: disk_room_def)
  have fin: "\<exists>s'. kbind (brelse h t) (\<lambda>s. Ok (a, s)) = Ok (a, s') \<and> bc.same_but s B s'"
    if "bc_inv t" "bc_held t = [h \<mapsto> (dev, x)]" "sectors t = B" "bc_ready t = bc_ready s" "bcache.more t = bcache.more s" for t a B
    using bc.rel_ok [of t h "(dev, x)"] that held by (auto simp: bc.same_but_def)
  show ?thesis
  proof (cases "get_le 4 (sectors s (dev, x)) ?i = 0")
    case False
    then show ?thesis using fin [of s1 "sectors s"] 1 by (simp add: bmap_indirect_def pentry_def Let_def)
  next
    case True
    note ar = alloc_room_held [OF room 1(2,3,5,4) xs]
    show ?thesis
    proof (cases "palloc (sectors s) dev")
      case None
      then show ?thesis using True balloc_palloc [OF ar] 1 by (simp add: bmap_indirect_def pentry_def Let_def)
    next
      case (Some r)
      obtain b B1 where r: "r = (b, B1)" by (cases r)
      from balloc_palloc [OF ar] Some r 1(4) obtain s2 where 2: "balloc dev s1 = Ok (b, s2)" "bc.same_but s1 B1 s2" by auto
      have h2: "bc_inv s2" "bc_held s2 h = Some (dev, x)" "(dev, x) \<in> bc_ready s2" "buf_data s2 h = B1 (dev, x)" "length (B1 (dev, x)) = BSIZE"
        using 2(2) 1(3,5) ready bc.dat_ok [of s2 h "(dev, x)"] bc.blocks_length [of s2] by (auto simp: bc.same_but_def)
      from bc.wr_ok [OF h2(1-3), of "put_le 4 b (B1 (dev, x)) ?i"] h2(5) obtain s3 where
        3: "bwrite h (set_data h (put_le 4 b (B1 (dev, x)) ?i) s2) = Ok s3" "bc_inv s3" "bc_held s3 = bc_held s2"
        "sectors s3 = (sectors s2)((dev, x) := put_le 4 b (B1 (dev, x)) ?i)" "bc_ready s3 = bc_ready s2" "bcache.more s3 = bcache.more s2"
        by auto
      from fin [of s3 "B1((dev, x) := put_le 4 b (B1 (dev, x)) ?i)" b] 3 2(2) 1
      show ?thesis using True Some r 2(1) h2(4) by (auto simp: bmap_indirect_def pentry_def Let_def bc.same_but_def)
    qed
  qed
qed

lemma bmap_spec:
  assumes room: "disk_room dev s" and fs: "fs_ok dev (sectors s)" and dev: "i_dev (icache s ip) = dev" and bn: "bn < MAXFILE"
    and ind: "i_addrs (icache s ip) ! NDIRECT \<noteq> 0 \<Longrightarrow>
      i_addrs (icache s ip) ! NDIRECT < bitmap_end (sectors s) dev \<and> i_addrs (icache s ip) ! NDIRECT \<notin> meta_blocks (sectors s) dev"
  shows "case pmap (sectors s) (icache s ip) bn of None \<Rightarrow> bmap ip bn s = Panic ''balloc: out of blocks''
    | Some (a, B', ino') \<Rightarrow> \<exists>s'. bmap ip bn s = Ok (a, s') \<and> becomes s B' ((icache s)(ip := ino')) s'"
proof (cases "bn < NDIRECT")
  case True
  have inv: "bc_inv s" using room by (simp add: disk_room_def)
  show ?thesis
    using balloc_set_addr [of s ip bn] disk_room_alloc [OF room] True dev becomes_refl [OF inv]
    by (auto simp: bmap_def pmap_def Let_def split: option.splits)
next
  case False
  let ?first = "if i_addrs (icache s ip) ! NDIRECT = 0
    then kbind (balloc dev s) (\<lambda>(addr, s). Ok (addr, set_addr ip NDIRECT addr s))
    else Ok (i_addrs (icache s ip) ! NDIRECT, s)"
  have inv: "bc_inv s" using room by (simp add: disk_room_def)
  have code: "bmap ip bn s = kbind ?first (\<lambda>(addr, s). bmap_indirect dev addr (bn - NDIRECT) s)"
  proof -
    have "bn - NDIRECT < NINDIRECT" using False bn by (simp add: MAXFILE_def)
    then show ?thesis using False dev by (simp add: bmap_def Let_def)
  qed
  show ?thesis
  proof (cases "pindirect (sectors s) (icache s ip)")
    case None
    then have "i_addrs (icache s ip) ! NDIRECT = 0" "palloc (sectors s) dev = None"
      by (auto simp: pindirect_def dev split: if_splits)
    then show ?thesis
      using balloc_palloc [OF disk_room_alloc [OF room]] None False by (simp add: code pmap_def)
  next
    case (Some r)
    obtain x B1 ino1 where r: "r = (x, B1, ino1)" by (cases r)
    have "\<exists>s1. ?first = Ok (x, s1) \<and> becomes s B1 ((icache s)(ip := ino1)) s1"
      using balloc_set_addr [of s ip NDIRECT] disk_room_alloc [OF room] Some r dev becomes_refl [OF inv]
      by (auto simp: pindirect_def split: if_splits option.splits)
    then obtain s1 where 1: "?first = Ok (x, s1)" "becomes s B1 ((icache s)(ip := ino1)) s1" by blast
    have B1: "B1 = sectors s \<or> (\<exists>b. palloc (sectors s) dev = Some (b, B1))" "i_dev ino1 = dev"
      using Some r dev by (auto simp: pindirect_def split: if_splits)
    then have fs1: "fs_ok dev B1" and lay: "bitmap_end B1 dev = bitmap_end (sectors s) dev"
        "sys_blocks B1 dev = sys_blocks (sectors s) dev" "meta_blocks B1 dev = meta_blocks (sectors s) dev"
      using fs fs_ok_palloc [OF fs] palloc_fresh(6) [OF fs] by auto
    have x: "x < bitmap_end (sectors s) dev" "x \<notin> meta_blocks (sectors s) dev"
      using Some r dev ind palloc_fresh [OF fs] by (auto simp: pindirect_def split: if_splits)
    have sec: "sectors s1 = B1" using 1(2) by (simp add: becomes_def)
    have room1: "disk_room dev s1" using disk_room_becomes [OF room 1(2)] lay by simp
    have "bmap ip bn s = bmap_indirect dev x (bn - NDIRECT) s1" by (simp add: code 1(1))
    then show ?thesis
      using bmap_indirect_spec [OF room1, of x "bn - NDIRECT"] fs1 x Some r False B1(2) becomes_trans [OF 1(2)] becomes_same_but [of s1] 1(2)
      by (auto simp: pmap_def sec lay becomes_def split: option.splits)
  qed
qed

section \<open>The invariant of a file\<close>

definition baddr :: "blocks \<Rightarrow> inode \<Rightarrow> nat \<Rightarrow> nat" where
  "baddr B ino bn =
     (if bn < NDIRECT then i_addrs ino ! bn
      else if i_addrs ino ! NDIRECT = 0 then 0
      else get_le 4 (B (i_dev ino, i_addrs ino ! NDIRECT)) (4 * (bn - NDIRECT)))"

definition file_ok :: "blocks \<Rightarrow> inode \<Rightarrow> bool" where
  "file_ok B ino \<longleftrightarrow> length (i_addrs ino) = NDIRECT + 1 \<and>
     (i_addrs ino ! NDIRECT \<noteq> 0 \<longrightarrow> addr_ok (i_dev ino) B (i_addrs ino ! NDIRECT)) \<and>
     (\<forall>bn < MAXFILE. baddr B ino bn \<noteq> 0 \<longrightarrow> addr_ok (i_dev ino) B (baddr B ino bn) \<and> baddr B ino bn \<noteq> i_addrs ino ! NDIRECT) \<and>
     (\<forall>bn < MAXFILE. \<forall>bm < MAXFILE. baddr B ino bn \<noteq> 0 \<longrightarrow> baddr B ino bn = baddr B ino bm \<longrightarrow> bn = bm)"

definition owns :: "blocks \<Rightarrow> inode \<Rightarrow> nat \<Rightarrow> bool" where
  "owns B ino b \<longleftrightarrow> i_addrs ino ! NDIRECT = b \<or> (\<exists>bn < MAXFILE. baddr B ino bn = b)"

text \<open>The file may gain blocks; what it had, and every other block in use, stays.\<close>

definition grows :: "blocks \<Rightarrow> inode \<Rightarrow> blocks \<Rightarrow> inode \<Rightarrow> bool" where
  "grows B ino B' ino' \<longleftrightarrow> (let dev = i_dev ino in
     fs_ok dev B' \<and> file_ok B' ino' \<and> ino' = ino\<lparr>i_addrs := i_addrs ino'\<rparr> \<and>
     bitmap_end B' dev = bitmap_end B dev \<and> sys_blocks B' dev = sys_blocks B dev \<and> meta_blocks B' dev = meta_blocks B dev \<and>
     (\<forall>bn < MAXFILE. baddr B ino bn \<noteq> 0 \<longrightarrow> baddr B' ino' bn = baddr B ino bn) \<and>
     (i_addrs ino ! NDIRECT = 0 \<or> i_addrs ino' ! NDIRECT = i_addrs ino ! NDIRECT) \<and>
     (\<forall>b. addr_ok dev B b \<longrightarrow> addr_ok dev B' b \<and> (b = i_addrs ino' ! NDIRECT \<longrightarrow> b = i_addrs ino ! NDIRECT) \<and>
        (owns B' ino' b \<longrightarrow> owns B ino b) \<and> (b \<noteq> i_addrs ino ! NDIRECT \<longrightarrow> B' (dev, b) = B (dev, b))) \<and>
     (\<forall>b \<in> meta_blocks B dev - sys_blocks B dev. B' (dev, b) = B (dev, b)) \<and>
     (\<forall>k. fst k \<noteq> dev \<longrightarrow> B' k = B k))"

lemma growsD:
  assumes "grows B ino B' ino'"
  shows "fs_ok (i_dev ino) B'" "file_ok B' ino'" "i_dev ino' = i_dev ino" "i_size ino' = i_size ino"
    "bitmap_end B' (i_dev ino) = bitmap_end B (i_dev ino)" "sys_blocks B' (i_dev ino) = sys_blocks B (i_dev ino)"
    "meta_blocks B' (i_dev ino) = meta_blocks B (i_dev ino)"
    "bn < MAXFILE \<Longrightarrow> baddr B ino bn \<noteq> 0 \<Longrightarrow> baddr B' ino' bn = baddr B ino bn"
    "ino' = ino\<lparr>i_addrs := i_addrs ino'\<rparr>"
proof -
  obtain as where "ino' = ino\<lparr>i_addrs := as\<rparr>" using assms unfolding grows_def Let_def by blast
  then show "i_dev ino' = i_dev ino" "i_size ino' = i_size ino" by simp_all
qed (use assms in \<open>simp_all add: grows_def Let_def\<close>)

lemma grows_refl: "fs_ok (i_dev ino) B \<Longrightarrow> file_ok B ino \<Longrightarrow> grows B ino B ino"
  by (simp add: grows_def)

lemma grows_trans:
  assumes "grows B ino B1 ino1" and "grows B1 ino1 B2 ino2"
  shows "grows B ino B2 ino2"
proof -
  note d1 = growsD [OF assms(1)] and d2 = growsD [OF assms(2)]
  have "ino2 = ino\<lparr>i_addrs := i_addrs ino2\<rparr>"
  proof -
    obtain as where "ino1 = ino\<lparr>i_addrs := as\<rparr>" using d1(9) by blast
    then show ?thesis using d2(9) by simp
  qed
  moreover have "i_addrs ino ! NDIRECT = 0 \<or> i_addrs ino2 ! NDIRECT = i_addrs ino ! NDIRECT"
    using assms by (auto simp: grows_def Let_def)
  moreover have "addr_ok (i_dev ino) B2 b \<and> (b = i_addrs ino2 ! NDIRECT \<longrightarrow> b = i_addrs ino ! NDIRECT) \<and>
        (owns B2 ino2 b \<longrightarrow> owns B ino b) \<and> (b \<noteq> i_addrs ino ! NDIRECT \<longrightarrow> B2 (i_dev ino, b) = B (i_dev ino, b))" if "addr_ok (i_dev ino) B b" for b
    using assms that unfolding grows_def Let_def d1(3) by metis
  moreover have "baddr B2 ino2 bn = baddr B ino bn" if "bn < MAXFILE" "baddr B ino bn \<noteq> 0" for bn
    using d1(8) d2(8) that by simp
  moreover have "B2 k = B k" if "fst k \<noteq> i_dev ino" for k
    using assms that d1(3) unfolding grows_def Let_def by metis
  moreover have "B2 (i_dev ino, b) = B (i_dev ino, b)" if "b \<in> meta_blocks B (i_dev ino) - sys_blocks B (i_dev ino)" for b
    using assms that d1(3,6,7) unfolding grows_def Let_def by metis
  ultimately show ?thesis using d1 d2 by (auto simp: grows_def Let_def)
qed

lemma addr_ok_palloc:
  assumes "fs_ok dev B" and "palloc B dev = Some (b, B')"
  shows "addr_ok dev B' c \<longleftrightarrow> addr_ok dev B c \<or> c = b" and "\<not> addr_ok dev B b"
    and "addr_ok dev B c \<Longrightarrow> B' (dev, c) = B (dev, c)" and "B' (dev, b) = B (dev, b)"
proof -
  note f = palloc_fresh [OF assms]
  have "bsized B" using assms(1) by (simp add: fs_ok_def)
  with f show "addr_ok dev B' c \<longleftrightarrow> addr_ok dev B c \<or> c = b" by (auto simp: addr_ok_def in_use_marked)
  show "\<not> addr_ok dev B b" using f by (simp add: addr_ok_def)
  show "addr_ok dev B c \<Longrightarrow> B' (dev, c) = B (dev, c)" "B' (dev, b) = B (dev, b)"
    using mark_used_data [OF f(1), of "(dev, c)"] mark_used_data [OF f(1), of "(dev, b)"] f(3) sys_meta
    by (auto simp: f(6) addr_ok_def)
qed

text \<open>Only the indirect block and the address list matter for the map.\<close>

lemma baddr_cong:
  "i_addrs ino' = i_addrs ino \<Longrightarrow> i_dev ino' = i_dev ino \<Longrightarrow>
   (i_addrs ino ! NDIRECT \<noteq> 0 \<Longrightarrow> B' (i_dev ino, i_addrs ino ! NDIRECT) = B (i_dev ino, i_addrs ino ! NDIRECT)) \<Longrightarrow>
   baddr B' ino' bn = baddr B ino bn"
  by (auto simp: baddr_def)

lemma mark_used_dev: "fst k \<noteq> dev \<Longrightarrow> mark_used B dev b k = B k"
  by (rule mark_other) auto

text \<open>
  The allocations of \<open>bmap\<close>: a fresh block \<open>b\<close> becomes block \<open>bn\<close> of the file (\<open>bn\<close> free before), or
  its indirect block.
\<close>

lemma grows_alloc:
  assumes fs: "fs_ok (i_dev ino) B" and fo: "file_ok B ino" and al: "palloc B (i_dev ino) = Some (b, B1)"
    and B': "B' = B1 \<or> i_addrs ino ! NDIRECT \<noteq> 0 \<and> (\<exists>d. length d = BSIZE \<and> B' = B1((i_dev ino, i_addrs ino ! NDIRECT) := d))"
    and ino': "ino' = ino\<lparr>i_addrs := as\<rparr>" "length as = NDIRECT + 1"
    and ind: "i_addrs ino ! NDIRECT \<noteq> 0 \<Longrightarrow> as ! NDIRECT = i_addrs ino ! NDIRECT" "as ! NDIRECT \<in> {i_addrs ino ! NDIRECT, b}"
    and ba: "\<And>bm. bm < MAXFILE \<Longrightarrow> baddr B' ino' bm = baddr B ino bm \<or> baddr B ino bm = 0 \<and> bm = bn \<and> baddr B' ino' bm = b \<and> as ! NDIRECT \<noteq> b"
  shows "grows B ino B' ino'"
proof -
  let ?dev = "i_dev ino"
  note f = palloc_fresh [OF fs al] and a = addr_ok_palloc [OF fs al]
  have io: "i_addrs ino ! NDIRECT \<noteq> 0 \<Longrightarrow> addr_ok ?dev B (i_addrs ino ! NDIRECT)" using fo by (simp add: file_ok_def)
  have fs1: "fs_ok ?dev B1" by (rule fs_ok_palloc [OF fs al])
  have lay1: "bitmap_end B1 ?dev = bitmap_end B ?dev" "sys_blocks B1 ?dev = sys_blocks B ?dev" "meta_blocks B1 ?dev = meta_blocks B ?dev"
    by (simp_all add: f(6))
  have i1: "i_addrs ino ! NDIRECT \<noteq> 0 \<Longrightarrow> addr_ok ?dev B1 (i_addrs ino ! NDIRECT)" using io a(1) by blast
  have fs': "fs_ok ?dev B'" and lay: "bitmap_end B' ?dev = bitmap_end B ?dev" "sys_blocks B' ?dev = sys_blocks B ?dev"
      "meta_blocks B' ?dev = meta_blocks B ?dev" and ok: "addr_ok ?dev B' c \<longleftrightarrow> addr_ok ?dev B c \<or> c = b" for c
    using B' fs1 i1 lay1 a(1) [of c] by (auto simp: addr_ok_def fs_ok_data layout_data)
  have frame: "c \<noteq> i_addrs ino ! NDIRECT \<Longrightarrow> addr_ok ?dev B c \<Longrightarrow> B' (?dev, c) = B (?dev, c)" for c
    using B' a(3) by auto
  have other: "fst k \<noteq> ?dev \<Longrightarrow> B' k = B k" for k using B' mark_used_dev [of k ?dev B b] by (auto simp: f(6))
  have "file_ok B' ino'"
    unfolding file_ok_def
  proof (intro conjI allI impI)
    show "length (i_addrs ino') = NDIRECT + 1" by (simp add: ino')
    show "addr_ok (i_dev ino') B' (i_addrs ino' ! NDIRECT)" if "i_addrs ino' ! NDIRECT \<noteq> 0"
      using that ind(2) io by (auto simp: ino'(1) ok)
    fix bm assume bm: "bm < MAXFILE" and nz: "baddr B' ino' bm \<noteq> 0"
    show "addr_ok (i_dev ino') B' (baddr B' ino' bm)"
      using ba [OF bm] nz fo bm by (auto simp: ino'(1) ok file_ok_def)
    show "baddr B' ino' bm \<noteq> i_addrs ino' ! NDIRECT"
      using ba [OF bm] nz fo bm ind(2) a(2) by (auto simp: ino'(1) file_ok_def)
    fix bk assume bk: "bk < MAXFILE" and eq: "baddr B' ino' bm = baddr B' ino' bk"
    show "bm = bk"
      using ba [OF bm] ba [OF bk] nz eq fo bm bk a(2) unfolding file_ok_def by metis
  qed
  moreover have "baddr B' ino' bm = baddr B ino bm" if "bm < MAXFILE" "baddr B ino bm \<noteq> 0" for bm
    using ba [OF that(1)] that(2) by auto
  moreover have "owns B' ino' c \<longrightarrow> owns B ino c" if "addr_ok ?dev B c" for c
  proof
    assume "owns B' ino' c"
    moreover have "c \<noteq> b" using that a(2) by blast
    ultimately show "owns B ino c" using ind(2) ba unfolding owns_def by (auto simp: ino'(1)) metis
  qed
  moreover have "B' (?dev, c) = B (?dev, c)" if "c \<in> meta_blocks B ?dev - sys_blocks B ?dev" for c
  proof -
    have "B1 (?dev, c) = B (?dev, c)" using that mark_used_data [OF f(1), of "(?dev, c)"] by (simp add: f(6))
    moreover have "i_addrs ino ! NDIRECT \<noteq> 0 \<Longrightarrow> i_addrs ino ! NDIRECT \<noteq> c" using io that by (auto simp: addr_ok_def)
    ultimately show ?thesis using B' by auto
  qed
  ultimately show ?thesis
    using fs' lay ok frame other ino' ind a(2) unfolding grows_def Let_def by (auto simp: ino'(1))
qed

lemma palloc_not_ind:
  assumes "fs_ok (i_dev ino) B" and "file_ok B ino" and "palloc B (i_dev ino) = Some (b, B1)"
  shows "i_addrs ino ! NDIRECT \<noteq> b"
  using palloc_fresh(4) [OF assms(1,3)] addr_ok_palloc(2) [OF assms(1,3)] assms(2) by (auto simp: file_ok_def)

lemma grows_direct:
  assumes fs: "fs_ok (i_dev ino) B" and fo: "file_ok B ino" and al: "palloc B (i_dev ino) = Some (b, B1)"
    and bn: "bn < NDIRECT" "i_addrs ino ! bn = 0"
  shows "grows B ino B1 (ino\<lparr>i_addrs := (i_addrs ino)[bn := b]\<rparr>)" (is "grows B ino B1 ?ino")
proof (rule grows_alloc [OF fs fo al, of B1 ?ino "(i_addrs ino)[bn := b]" bn])
  have len: "length (i_addrs ino) = NDIRECT + 1" using fo by (simp add: file_ok_def)
  then show "length ((i_addrs ino)[bn := b]) = NDIRECT + 1" by simp
  have same: "B1 (i_dev ino, i_addrs ino ! NDIRECT) = B (i_dev ino, i_addrs ino ! NDIRECT)" if "i_addrs ino ! NDIRECT \<noteq> 0"
    using addr_ok_palloc(3) [OF fs al] fo that by (simp add: file_ok_def)
  show "baddr B1 ?ino bm = baddr B ino bm \<or>
    baddr B ino bm = 0 \<and> bm = bn \<and> baddr B1 ?ino bm = b \<and> (i_addrs ino)[bn := b] ! NDIRECT \<noteq> b" for bm
    using palloc_not_ind [OF fs fo al] bn len same by (auto simp: baddr_def nth_list_update)
qed (use bn in simp_all)

lemma grows_indirect:
  assumes fs: "fs_ok (i_dev ino) B" and fo: "file_ok B ino" and al: "palloc B (i_dev ino) = Some (b, B1)"
    and ind: "i_addrs ino ! NDIRECT = 0"
  shows "grows B ino B1 (ino\<lparr>i_addrs := (i_addrs ino)[NDIRECT := b]\<rparr>)" (is "grows B ino B1 ?ino")
proof (rule grows_alloc [OF fs fo al, of B1 ?ino "(i_addrs ino)[NDIRECT := b]" 0])
  have len: "length (i_addrs ino) = NDIRECT + 1" using fo by (simp add: file_ok_def)
  then show "length ((i_addrs ino)[NDIRECT := b]) = NDIRECT + 1"
    and "(i_addrs ino)[NDIRECT := b] ! NDIRECT \<in> {i_addrs ino ! NDIRECT, b}" by simp_all
  have z: "B1 (i_dev ino, b) = replicate BSIZE 0"
    using addr_ok_palloc(4) [OF fs al] palloc_fresh(5) [OF fs al] by simp
  show "baddr B1 ?ino bm = baddr B ino bm \<or>
    baddr B ino bm = 0 \<and> bm = 0 \<and> baddr B1 ?ino bm = b \<and> (i_addrs ino)[NDIRECT := b] ! NDIRECT \<noteq> b" if "bm < MAXFILE" for bm
  proof -
    have "get_le 4 (replicate BSIZE 0) (4 * (bm - NDIRECT)) = 0"
      using that by (intro get_le_zero) (simp add: MAXFILE_def NDIRECT_def NINDIRECT_def BSIZE_def)
    then show ?thesis using len ind z by (auto simp: baddr_def)
  qed
qed (use ind in simp_all)

lemma grows_entry:
  assumes fs: "fs_ok (i_dev ino) B" and fo: "file_ok B ino" and al: "palloc B (i_dev ino) = Some (b, B1)"
    and ind: "i_addrs ino ! NDIRECT = x" "x \<noteq> 0" and n: "n < NINDIRECT" and free: "baddr B ino (NDIRECT + n) = 0"
  shows "grows B ino (B1((i_dev ino, x) := put_le 4 b (B1 (i_dev ino, x)) (4 * n))) ino" (is "grows B ino ?B ino")
    and "baddr (B1((i_dev ino, x) := put_le 4 b (B1 (i_dev ino, x)) (4 * n))) ino (NDIRECT + n) = b"
proof -
  have len: "length (B1 (i_dev ino, x)) = BSIZE"
    using fs_ok_palloc [OF fs al] by (simp add: fs_ok_def bsizedD)
  have same: "B1 (i_dev ino, x) = B (i_dev ino, x)"
    using addr_ok_palloc(3) [OF fs al] fo ind by (simp add: file_ok_def)
  have b: "b < 2 ^ 32" using palloc_fresh(1) [OF fs al] fs by (simp add: fs_ok_def)
  have n4: "4 * n + 4 \<le> BSIZE" using n by (simp add: NINDIRECT_def BSIZE_def)
  have get: "get_le 4 (?B (i_dev ino, x)) (4 * m) = (if m = n then b else get_le 4 (B (i_dev ino, x)) (4 * m))" for m
  proof (cases "m = n")
    case False
    then have "4 * m + 4 \<le> 4 * n \<or> 4 * n + 4 \<le> 4 * m" by linarith
    with False show ?thesis by (simp add: get_put_le_other same)
  qed (use b n4 len in \<open>simp add: get_put_le\<close>)
  then show "baddr ?B ino (NDIRECT + n) = b" using ind by (simp add: baddr_def)
  show "grows B ino ?B ino"
  proof (rule grows_alloc [OF fs fo al, of ?B ino "i_addrs ino" "NDIRECT + n"])
    show "?B = B1 \<or> i_addrs ino ! NDIRECT \<noteq> 0 \<and> (\<exists>d. length d = BSIZE \<and> ?B = B1((i_dev ino, i_addrs ino ! NDIRECT) := d))"
      using ind len by (intro disjI2 conjI exI [of _ "put_le 4 b (B1 (i_dev ino, x)) (4 * n)"]) simp_all
    show "length (i_addrs ino) = NDIRECT + 1" using fo by (simp add: file_ok_def)
    show "baddr ?B ino bm = baddr B ino bm \<or>
      baddr B ino bm = 0 \<and> bm = NDIRECT + n \<and> baddr ?B ino bm = b \<and> i_addrs ino ! NDIRECT \<noteq> b" for bm
    proof (cases "bm = NDIRECT + n")
      case True
      then show ?thesis using free get [of n] ind palloc_not_ind [OF fs fo al] by (simp add: baddr_def)
    next
      case False
      then show ?thesis using get [of "bm - NDIRECT"] ind by (auto simp: baddr_def)
    qed
  qed simp_all
qed

lemma pmap_grows:
  assumes fs: "fs_ok (i_dev ino) B" and fo: "file_ok B ino" and bn: "bn < MAXFILE" and p: "pmap B ino bn = Some (a, B', ino')"
  shows "grows B ino B' ino' \<and> baddr B' ino' bn = a \<and> a \<noteq> 0"
proof (cases "bn < NDIRECT")
  case True
  have len: "length (i_addrs ino) = NDIRECT + 1" using fo by (simp add: file_ok_def)
  show ?thesis
  proof (cases "i_addrs ino ! bn = 0")
    case False
    with p True grows_refl [OF fs fo] show ?thesis by (auto simp: pmap_def baddr_def)
  next
    case free: True
    with p True obtain B1 where al: "palloc B (i_dev ino) = Some (a, B1)" and r: "B' = B1" "ino' = ino\<lparr>i_addrs := (i_addrs ino)[bn := a]\<rparr>"
      by (auto simp: pmap_def)
    with grows_direct [OF fs fo al True free] palloc_fresh(4) [OF fs al] True len show ?thesis by (auto simp: baddr_def)
  qed
next
  case False
  with p obtain x B1 ino1 where pi: "pindirect B ino = Some (x, B1, ino1)" and
    pe: "pentry B1 (i_dev ino1) x (4 * (bn - NDIRECT)) = Some (a, B')" and i': "ino' = ino1"
    by (auto simp: pmap_def split: option.splits bind_splits)
  have g1: "grows B ino B1 ino1 \<and> i_addrs ino1 ! NDIRECT = x \<and> x \<noteq> 0"
  proof (cases "i_addrs ino ! NDIRECT = 0")
    case True
    with pi have al: "palloc B (i_dev ino) = Some (x, B1)" and "ino1 = ino\<lparr>i_addrs := (i_addrs ino)[NDIRECT := x]\<rparr>"
      by (auto simp: pindirect_def)
    with grows_indirect [OF fs fo al True] palloc_fresh(4) [OF fs al] fo show ?thesis by (simp add: file_ok_def)
  next
    case False
    with pi grows_refl [OF fs fo] show ?thesis by (auto simp: pindirect_def)
  qed
  note d = growsD [OF conjunct1 [OF g1]]
  have fs1: "fs_ok (i_dev ino1) B1" using d by simp
  have n: "bn - NDIRECT < NINDIRECT" "NDIRECT + (bn - NDIRECT) = bn" using bn False by (simp_all add: MAXFILE_def)
  have ba: "baddr B1 ino1 bn = get_le 4 (B1 (i_dev ino1, x)) (4 * (bn - NDIRECT))" using g1 False by (simp add: baddr_def)
  show ?thesis
  proof (cases "baddr B1 ino1 bn = 0")
    case False
    then show ?thesis using pe g1 i' ba by (auto simp: pentry_def Let_def split: if_splits)
  next
    case True
    with pe ba obtain B2 where al: "palloc B1 (i_dev ino1) = Some (a, B2)" and
      B': "B' = B2((i_dev ino1, x) := put_le 4 a (B2 (i_dev ino1, x)) (4 * (bn - NDIRECT)))" by (auto simp: pentry_def Let_def)
    from grows_entry [OF fs1 d(2) al _ _ n(1)] g1 True n(2) B' i' palloc_fresh(4) [OF fs1 al] grows_trans
    show ?thesis by auto
  qed
qed

section \<open>Counting free blocks\<close>

definition free_blocks :: "blocks \<Rightarrow> nat \<Rightarrow> nat" where
  "free_blocks B dev = card {b. b < bitmap_end B dev \<and> \<not> in_use B dev b}"

text \<open>The blocks \<open>bmap\<close> allocates for block \<open>bn\<close> of a file: the block itself and the indirect block, where they are missing.\<close>

definition need :: "blocks \<Rightarrow> inode \<Rightarrow> nat \<Rightarrow> nat" where
  "need B din fbn = (if baddr B din fbn = 0 then 1 else 0) + (if NDIRECT \<le> fbn \<and> i_addrs din ! NDIRECT = 0 then 1 else 0)"

lemma palloc_count:
  assumes "fs_ok dev B"
  shows "case palloc B dev of None \<Rightarrow> free_blocks B dev = 0 | Some (b, B') \<Rightarrow> free_blocks B' dev + 1 = free_blocks B dev"
proof (cases "palloc B dev")
  case None
  then have "{b. b < bitmap_end B dev \<and> \<not> in_use B dev b} = {}" by (auto simp: palloc_def first_free_None)
  then show ?thesis using None by (simp add: free_blocks_def del: Collect_empty_eq)
next
  case (Some r)
  obtain b B' where r: "r = (b, B')" by (cases r)
  note f = palloc_fresh [OF assms, of b B', unfolded Some r, OF refl]
  let ?F = "\<lambda>B. {b. b < bitmap_end B dev \<and> \<not> in_use B dev b}"
  have "?F B = insert b (?F B')" "b \<notin> ?F B'"
    using f(1,2) assms by (auto simp: f(6) in_use_marked fs_ok_def)
  then have "card (?F B) = Suc (card (?F B'))" by simp
  then show ?thesis by (simp add: Some r free_blocks_def)
qed

lemma free_blocks_data: "x \<notin> meta_blocks B dev \<Longrightarrow> free_blocks (B((dev, x) := d)) dev = free_blocks B dev"
  by (simp add: free_blocks_def layout_data cong: conj_cong)

lemma pentry_count:
  assumes "fs_ok dev B" and "x \<notin> meta_blocks B dev"
  shows "case pentry B dev x i of None \<Rightarrow> free_blocks B dev = 0 \<and> get_le 4 (B (dev, x)) i = 0
    | Some (a, B') \<Rightarrow> free_blocks B' dev + (if get_le 4 (B (dev, x)) i = 0 then 1 else 0) = free_blocks B dev"
  using palloc_count [OF assms(1)] palloc_fresh(6) [OF assms(1)] assms(2)
  by (auto simp: pentry_def Let_def free_blocks_data split: option.splits)

text \<open>\<open>bmap\<close> allocates exactly what is missing, and fails exactly when the disk has less.\<close>

lemma pmap_count:
  assumes fs: "fs_ok (i_dev ino) B" and fo: "file_ok B ino" and bn: "bn < MAXFILE"
  shows "case pmap B ino bn of None \<Rightarrow> free_blocks B (i_dev ino) < need B ino bn
    | Some (a, B', ino') \<Rightarrow> free_blocks B' (i_dev ino) + need B ino bn = free_blocks B (i_dev ino)"
proof (cases "bn < NDIRECT")
  case True
  then show ?thesis using palloc_count [OF fs] by (auto simp: pmap_def need_def baddr_def split: option.splits)
next
  case False
  show ?thesis
  proof (cases "i_addrs ino ! NDIRECT = 0")
    case True
    then have n: "need B ino bn = 2" using False by (simp add: need_def baddr_def)
    show ?thesis
    proof (cases "palloc B (i_dev ino)")
      case None
      then show ?thesis using palloc_count [OF fs] True False n by (simp add: pmap_def pindirect_def)
    next
      case (Some r)
      obtain x B1 where r: "r = (x, B1)" by (cases r)
      have al: "palloc B (i_dev ino) = Some (x, B1)" by (simp add: Some r)
      note f = palloc_fresh [OF fs al]
      have "get_le 4 (B1 (i_dev ino, x)) (4 * (bn - NDIRECT)) = 0"
        using bn by (simp add: addr_ok_palloc(4) [OF fs al] f(5) get_le_zero MAXFILE_def NDIRECT_def NINDIRECT_def BSIZE_def)
      then show ?thesis
        using pentry_count [OF fs_ok_palloc [OF fs al], of x "4 * (bn - NDIRECT)"] f(3,6) palloc_count [OF fs] al True False n
        by (auto simp: pmap_def pindirect_def split: option.splits)
    qed
  next
    case ind: False
    then have "i_addrs ino ! NDIRECT \<notin> meta_blocks B (i_dev ino)" using fo by (simp add: file_ok_def addr_ok_def)
    from pentry_count [OF fs this, of "4 * (bn - NDIRECT)"] show ?thesis using ind False
      by (auto simp: pmap_def pindirect_def need_def baddr_def split: option.splits)
  qed
qed

text \<open>Besides block \<open>bn\<close> and the indirect block, the block map stays as it is.\<close>

lemma pmap_only:
  assumes fs: "fs_ok (i_dev ino) B" and fo: "file_ok B ino" and bn: "bn < MAXFILE" and p: "pmap B ino bn = Some (a, B', ino')"
    and bm: "bm < MAXFILE" "bm \<noteq> bn"
  shows "baddr B' ino' bm = baddr B ino bm" and "i_addrs ino' ! NDIRECT = 0 \<longleftrightarrow> bn < NDIRECT \<and> i_addrs ino ! NDIRECT = 0"
proof -
  have len: "length (i_addrs ino) = NDIRECT + 1" using fo by (simp add: file_ok_def)
  have ind: "i_addrs ino ! NDIRECT \<noteq> 0 \<Longrightarrow> addr_ok (i_dev ino) B (i_addrs ino ! NDIRECT)" using fo by (simp add: file_ok_def)
  have "baddr B' ino' bm = baddr B ino bm \<and> (i_addrs ino' ! NDIRECT = 0 \<longleftrightarrow> bn < NDIRECT \<and> i_addrs ino ! NDIRECT = 0)"
  proof (cases "bn < NDIRECT")
    case True
    show ?thesis
    proof (cases "i_addrs ino ! bn = 0")
      case False
      with True p show ?thesis by (auto simp: pmap_def)
    next
      case free: True
      with True p have al: "palloc B (i_dev ino) = Some (a, B')" "ino' = ino\<lparr>i_addrs := (i_addrs ino)[bn := a]\<rparr>"
        by (auto simp: pmap_def)
      then show ?thesis using True bm ind addr_ok_palloc(3) [OF fs al(1)] by (auto simp: baddr_def)
    qed
  next
    case False
    with p obtain x B1 ino1 where 1: "pindirect B ino = Some (x, B1, ino1)" "pentry B1 (i_dev ino1) x (4 * (bn - NDIRECT)) = Some (a, B')" "ino' = ino1"
      by (auto simp: pmap_def bind_eq_Some_conv)
    have s1: "i_dev ino1 = i_dev ino \<and> fs_ok (i_dev ino) B1 \<and> x \<noteq> 0 \<and> addr_ok (i_dev ino) B1 x \<and> i_addrs ino1 ! NDIRECT = x \<and>
        baddr B1 ino1 bm = baddr B ino bm"
    proof (cases "i_addrs ino ! NDIRECT = 0")
      case True
      with 1(1) have al: "palloc B (i_dev ino) = Some (x, B1)" "ino1 = ino\<lparr>i_addrs := (i_addrs ino)[NDIRECT := x]\<rparr>"
        by (auto simp: pindirect_def)
      note f = palloc_fresh [OF fs al(1)] and a = addr_ok_palloc [OF fs al(1)]
      have "get_le 4 (B1 (i_dev ino, x)) (4 * (bm - NDIRECT)) = 0"
        using bm by (simp add: a(4) f(5) get_le_zero MAXFILE_def NDIRECT_def NINDIRECT_def BSIZE_def)
      then show ?thesis using al True len f(4) a(1) fs_ok_palloc [OF fs al(1)] by (auto simp: baddr_def)
    next
      case False
      with 1(1) ind fs show ?thesis by (auto simp: pindirect_def)
    qed
    show ?thesis
    proof (cases "get_le 4 (B1 (i_dev ino, x)) (4 * (bn - NDIRECT)) = 0")
      case False
      with 1 s1 \<open>\<not> bn < NDIRECT\<close> show ?thesis by (simp add: pentry_def)
    next
      case True
      with 1(2) s1 obtain B2 where al: "palloc B1 (i_dev ino) = Some (a, B2)" "B' = B2((i_dev ino, x) := put_le 4 a (B2 (i_dev ino, x)) (4 * (bn - NDIRECT)))"
        by (auto simp: pentry_def)
      have "B2 (i_dev ino, x) = B1 (i_dev ino, x)" using addr_ok_palloc(3) [OF _ al(1)] s1 by blast
      moreover have "get_le 4 (put_le 4 a d (4 * (bn - NDIRECT))) (4 * (bm - NDIRECT)) = get_le 4 d (4 * (bm - NDIRECT))"
        if "NDIRECT \<le> bm" for d using that bm(2) \<open>\<not> bn < NDIRECT\<close> by (intro get_put_le_other) arith
      moreover have "i_dev ino1 = i_dev ino" "i_addrs ino1 ! NDIRECT = x" using s1 by simp_all
      ultimately have "baddr B' ino1 bm = baddr B1 ino1 bm" by (simp add: baddr_def al(2))
      then show ?thesis using s1 1(3) \<open>\<not> bn < NDIRECT\<close> by simp
    qed
  qed
  then show "baddr B' ino' bm = baddr B ino bm" "i_addrs ino' ! NDIRECT = 0 \<longleftrightarrow> bn < NDIRECT \<and> i_addrs ino ! NDIRECT = 0" by simp_all
qed

definition map_kept :: "nat \<Rightarrow> blocks \<Rightarrow> inode \<Rightarrow> blocks \<Rightarrow> inode \<Rightarrow> bool" where
  "map_kept bn B ino B' ino' \<longleftrightarrow> (\<forall>bm < MAXFILE. bm \<noteq> bn \<longrightarrow> baddr B' ino' bm = baddr B ino bm) \<and>
     (i_addrs ino' ! NDIRECT = 0 \<longleftrightarrow> bn < NDIRECT \<and> i_addrs ino ! NDIRECT = 0)"

lemma pmap_kept:
  assumes "fs_ok (i_dev ino) B" and "file_ok B ino" and "bn < MAXFILE" and "pmap B ino bn = Some (a, B', ino')"
  shows "map_kept bn B ino B' ino'"
  using pmap_only(1) [OF assms] pmap_only(2) [OF assms, of "if bn = 0 then 1 else 0"]
  by (simp add: map_kept_def MAXFILE_def NDIRECT_def)

section \<open>File states\<close>

definition file_state :: "nat \<Rightarrow> 'a fsys_scheme \<Rightarrow> bool" where
  "file_state ip s \<longleftrightarrow> disk_room (i_dev (icache s ip)) s \<and> fs_ok (i_dev (icache s ip)) (sectors s) \<and>
     file_ok (sectors s) (icache s ip)"

lemma becomesD: "becomes s B c t \<Longrightarrow> sectors t = B" "becomes s B c t \<Longrightarrow> icache t = c"
  by (simp_all add: becomes_def)

lemma file_state_grows:
  assumes "file_state ip s" and "becomes s B ((icache s)(ip := ino)) t" and "grows (sectors s) (icache s ip) B ino"
  shows "file_state ip t"
  using assms growsD [OF assms(3)] disk_room_becomes [OF _ assms(2)] becomesD [OF assms(2)]
  by (simp add: file_state_def)

text \<open>\<open>bmap\<close> on a well-formed file: it returns block \<open>bn\<close>, allocating if it must, or the disk is full.\<close>

lemma bmap_file:
  assumes "file_state ip s" and "bn < MAXFILE"
  shows "bmap ip bn s = Panic ''balloc: out of blocks'' \<and> baddr (sectors s) (icache s ip) bn = 0 \<and>
      free_blocks (sectors s) (i_dev (icache s ip)) < need (sectors s) (icache s ip) bn \<or>
    (\<exists>a t B ino. bmap ip bn s = Ok (a, t) \<and> becomes s B ((icache s)(ip := ino)) t \<and> grows (sectors s) (icache s ip) B ino \<and>
       baddr B ino bn = a \<and> a \<noteq> 0 \<and> file_state ip t \<and>
       free_blocks B (i_dev (icache s ip)) + need (sectors s) (icache s ip) bn = free_blocks (sectors s) (i_dev (icache s ip)) \<and>
       map_kept bn (sectors s) (icache s ip) B ino \<and>
       (baddr (sectors s) (icache s ip) bn \<noteq> 0 \<longrightarrow> B = sectors s \<and> ino = icache s ip))"
proof -
  let ?B = "sectors s" and ?i = "icache s ip"
  have st: "disk_room (i_dev ?i) s" "fs_ok (i_dev ?i) ?B" "file_ok ?B ?i" using assms(1) by (simp_all add: file_state_def)
  have "i_addrs ?i ! NDIRECT \<noteq> 0 \<Longrightarrow>
      i_addrs ?i ! NDIRECT < bitmap_end ?B (i_dev ?i) \<and> i_addrs ?i ! NDIRECT \<notin> meta_blocks ?B (i_dev ?i)"
    using st(3) by (auto simp: file_ok_def addr_ok_def)
  note b = bmap_spec [OF st(1,2) refl assms(2) this]
  have hit: "pmap ?B ?i bn = Some (baddr ?B ?i bn, ?B, ?i)" if "baddr ?B ?i bn \<noteq> 0"
    using that by (auto simp: pmap_def baddr_def pindirect_def pentry_def Let_def split: if_splits)
  show ?thesis
  proof (cases "pmap ?B ?i bn")
    case None
    then show ?thesis using b hit pmap_count [OF st(2,3) assms(2)] by fastforce
  next
    case (Some r)
    obtain a B ino where r: "r = (a, B, ino)" by (cases r)
    from b Some r obtain t where t: "bmap ip bn s = Ok (a, t)" "becomes s B ((icache s)(ip := ino)) t" by auto
    note g = pmap_grows [OF st(2,3) assms(2), of a B ino]
    have "grows ?B ?i B ino \<and> baddr B ino bn = a \<and> a \<noteq> 0" using g Some r by simp
    moreover from this have "file_state ip t" using file_state_grows [OF assms(1) t(2)] by simp
    moreover have "free_blocks B (i_dev ?i) + need ?B ?i bn = free_blocks ?B (i_dev ?i)"
      using pmap_count [OF st(2,3) assms(2)] Some r by simp
    moreover have "map_kept bn ?B ?i B ino" using pmap_kept [OF st(2,3) assms(2)] Some r by blast
    ultimately show ?thesis using t hit Some r
      by (intro disjI2 exI [of _ a] exI [of _ t] exI [of _ B] exI [of _ ino]) auto
  qed
qed

definition fbyte :: "blocks \<Rightarrow> inode \<Rightarrow> nat \<Rightarrow> 8 word" where
  "fbyte B ino p = B (i_dev ino, baddr B ino (p div BSIZE)) ! (p mod BSIZE)"

definition file_bytes :: "blocks \<Rightarrow> inode \<Rightarrow> 8 word list" where
  "file_bytes B ino = map (fbyte B ino) [0..<i_size ino]"

definition no_holes :: "blocks \<Rightarrow> inode \<Rightarrow> bool" where
  "no_holes B ino \<longleftrightarrow> i_size ino \<le> MAXFILE * BSIZE \<and> (\<forall>p < i_size ino. baddr B ino (p div BSIZE) \<noteq> 0)"

lemma chunk_block: "j < chunk off n \<Longrightarrow> (off + j) div BSIZE = off div BSIZE \<and> (off + j) mod BSIZE = off mod BSIZE + j"
proof -
  assume "j < chunk off n"
  then have "j < BSIZE - off mod BSIZE" by (simp add: chunk_def)
  then have "off mod BSIZE + j < BSIZE" by linarith
  then have j: "(off mod BSIZE + j) div BSIZE = 0" "(off mod BSIZE + j) mod BSIZE = off mod BSIZE + j" by simp_all
  have "off + j = off div BSIZE * BSIZE + (off mod BSIZE + j)" by simp
  then show ?thesis using j by (metis add.right_neutral div_mult_self3 mod_mult_self3 BSIZE_def zero_neq_numeral)
qed

lemma block_less: "p < MAXFILE * BSIZE \<Longrightarrow> p div BSIZE < MAXFILE"
  by (simp add: less_mult_imp_div_less)

lemma upt_chunk: "m \<le> n \<Longrightarrow> map f [off..<off + n] = map f [off..<off + m] @ map f [off + m..<off + m + (n - m)]" for m n :: nat
  using upt_add_eq_append [of off "off + m" "n - m"] by simp

section \<open>Reading\<close>

lemma read_chunk:
  assumes "bsized B"
  shows "take (chunk off n) (drop (off mod BSIZE) (B (i_dev ino, baddr B ino (off div BSIZE)))) = map (fbyte B ino) [off..<off + chunk off n]"
proof (rule nth_equalityI)
  have l: "chunk off n \<le> BSIZE - off mod BSIZE" by (simp add: chunk_def)
  then show "length (take (chunk off n) (drop (off mod BSIZE) (B (i_dev ino, baddr B ino (off div BSIZE))))) =
      length (map (fbyte B ino) [off..<off + chunk off n])"
    using bsizedD [OF assms] by simp
  fix j assume "j < length (take (chunk off n) (drop (off mod BSIZE) (B (i_dev ino, baddr B ino (off div BSIZE)))))"
  then have j: "j < chunk off n" by simp
  show "take (chunk off n) (drop (off mod BSIZE) (B (i_dev ino, baddr B ino (off div BSIZE)))) ! j =
      map (fbyte B ino) [off..<off + chunk off n] ! j"
    using j chunk_block [OF j] l bsizedD [OF assms] by (simp add: fbyte_def)
qed

lemma readi_loop_bytes:
  assumes "file_state ip s" and "no_holes (sectors s) (icache s ip)" and "off + n \<le> i_size (icache s ip)"
  shows "\<exists>t. readi_loop ip off n s = Ok (map (fbyte (sectors s) (icache s ip)) [off..<off + n], t) \<and>
    becomes s (sectors s) (icache s) t \<and> file_state ip t"
  using assms
proof (induction n arbitrary: off s rule: less_induct)
  case (less n)
  let ?B = "sectors s" and ?i = "icache s ip" and ?m = "chunk off n"
  have inv: "bc_inv s" using less.prems(1) by (simp add: file_state_def disk_room_def)
  show ?case
  proof (cases "n = 0")
    case True
    then show ?thesis using becomes_refl [OF inv] less.prems(1) by (simp add: readi_loop.simps)
  next
    case False
    let ?bn = "off div BSIZE"
    have off: "off < i_size ?i" using False less.prems(3) by simp
    then have bn: "?bn < MAXFILE" "baddr ?B ?i ?bn \<noteq> 0" using less.prems(2) block_less [of off] by (auto simp: no_holes_def)
    with bmap_file [OF less.prems(1) bn(1)] obtain t where
      t: "bmap ip ?bn s = Ok (baddr ?B ?i ?bn, t)" "becomes s ?B (icache s) t" "file_state ip t" by auto
    note tD = becomesD [OF t(2)]
    have "addr_ok (i_dev ?i) ?B (baddr ?B ?i ?bn)" using less.prems(1) bn by (simp add: file_state_def file_ok_def)
    then have room: "bc.room t (i_dev ?i, baddr ?B ?i ?bn)"
      using t(3) disk_room_room [of "i_dev ?i" t] by (simp add: file_state_def addr_ok_def tD)
    let ?K = "\<lambda>d s. kbind (readi_loop ip (off + ?m) (n - ?m) s)
      (\<lambda>(r, s). Ok (take ?m (drop (off mod BSIZE) d) @ r, s))"
    from bc.with_block [OF room, of ?K] obtain u where
      u: "bc.same_but t ?B u" "kbind (bread (i_dev ?i) (baddr ?B ?i ?bn) t) (\<lambda>(h, s). kbind (brelse h s) (?K (buf_data s h))) =
        ?K (?B (i_dev ?i, baddr ?B ?i ?bn)) u" unfolding tD by auto
    have ub: "becomes s ?B (icache s) u" using becomes_trans [OF t(2) becomes_same_but [OF u(1)]] by (simp add: tD)
    note uD = becomesD [OF ub]
    have fu: "file_state ip u" using file_state_grows [OF less.prems(1), of ?B ?i u] ub less.prems(1) grows_refl
      by (simp add: file_state_def)
    have len: "bsized ?B" using less.prems(1) by (simp add: file_state_def fs_ok_def)
    have "n - ?m < n" "off + ?m + (n - ?m) \<le> i_size ?i" using False chunk_pos [of n off] chunk_le [of off n] less.prems(3) by auto
    with less.IH [of "n - ?m" u "off + ?m"] fu less.prems(2) obtain v where
      v: "readi_loop ip (off + ?m) (n - ?m) u = Ok (map (fbyte ?B ?i) [off + ?m..<off + ?m + (n - ?m)], v)"
      "becomes u ?B (icache s) v" "file_state ip v" by (auto simp: uD)
    have "readi_loop ip off n s = ?K (?B (i_dev ?i, baddr ?B ?i ?bn)) u"
      using False t(1) u(2) by (subst readi_loop.simps) (simp add: tD Let_def)
    also have "\<dots> = Ok (map (fbyte ?B ?i) [off..<off + n], v)"
      using v(1) read_chunk [OF len, of off n ?i] upt_chunk [OF chunk_le [of off n], of "fbyte ?B ?i" off] by simp
    finally show ?thesis using becomes_trans [OF ub v(2)] v(3) by blast
  qed
qed

section \<open>Writing\<close>

text \<open>What writing \<open>src\<close> at \<open>off\<close> makes of the disk and the inode.\<close>

definition wrote :: "nat \<Rightarrow> 8 word list \<Rightarrow> blocks \<Rightarrow> inode \<Rightarrow> blocks \<Rightarrow> inode \<Rightarrow> bool" where
  "wrote off src B ino B' ino' \<longleftrightarrow> (let dev = i_dev ino in
     fs_ok dev B' \<and> file_ok B' ino' \<and> ino' = ino\<lparr>i_addrs := i_addrs ino'\<rparr> \<and>
     bitmap_end B' dev = bitmap_end B dev \<and> sys_blocks B' dev = sys_blocks B dev \<and> meta_blocks B' dev = meta_blocks B dev \<and>
     (\<forall>bn < MAXFILE. baddr B ino bn \<noteq> 0 \<longrightarrow> baddr B' ino' bn = baddr B ino bn) \<and>
     (\<forall>p. off \<le> p \<and> p < off + length src \<longrightarrow> baddr B' ino' (p div BSIZE) \<noteq> 0 \<and> fbyte B' ino' p = src ! (p - off)) \<and>
     (\<forall>p < MAXFILE * BSIZE. \<not> (off \<le> p \<and> p < off + length src) \<longrightarrow> baddr B ino (p div BSIZE) \<noteq> 0 \<longrightarrow> fbyte B' ino' p = fbyte B ino p) \<and>
     (\<forall>b. addr_ok dev B b \<and> \<not> owns B ino b \<longrightarrow> addr_ok dev B' b \<and> \<not> owns B' ino' b \<and> B' (dev, b) = B (dev, b)) \<and>
     (\<forall>b \<in> meta_blocks B dev - sys_blocks B dev. B' (dev, b) = B (dev, b)) \<and>
     (\<forall>k. fst k \<noteq> dev \<longrightarrow> B' k = B k))"

lemma wroteD:
  assumes "wrote off src B ino B' ino'"
  shows "fs_ok (i_dev ino) B'" "file_ok B' ino'" "ino' = ino\<lparr>i_addrs := i_addrs ino'\<rparr>"
    "i_dev ino' = i_dev ino" "i_size ino' = i_size ino"
    "bitmap_end B' (i_dev ino) = bitmap_end B (i_dev ino)" "sys_blocks B' (i_dev ino) = sys_blocks B (i_dev ino)"
    "meta_blocks B' (i_dev ino) = meta_blocks B (i_dev ino)"
    "\<And>bn. bn < MAXFILE \<Longrightarrow> baddr B ino bn \<noteq> 0 \<Longrightarrow> baddr B' ino' bn = baddr B ino bn"
    "\<And>p. off \<le> p \<Longrightarrow> p < off + length src \<Longrightarrow> baddr B' ino' (p div BSIZE) \<noteq> 0 \<and> fbyte B' ino' p = src ! (p - off)"
    "\<And>p. p < MAXFILE * BSIZE \<Longrightarrow> \<not> (off \<le> p \<and> p < off + length src) \<Longrightarrow> baddr B ino (p div BSIZE) \<noteq> 0 \<Longrightarrow> fbyte B' ino' p = fbyte B ino p"
    "\<And>b. addr_ok (i_dev ino) B b \<Longrightarrow> \<not> owns B ino b \<Longrightarrow> addr_ok (i_dev ino) B' b \<and> \<not> owns B' ino' b \<and> B' (i_dev ino, b) = B (i_dev ino, b)"
    "\<And>b. b \<in> meta_blocks B (i_dev ino) - sys_blocks B (i_dev ino) \<Longrightarrow> B' (i_dev ino, b) = B (i_dev ino, b)"
    "\<And>k. fst k \<noteq> i_dev ino \<Longrightarrow> B' k = B k"
proof -
  note w = assms [unfolded wrote_def Let_def]
  show i: "ino' = ino\<lparr>i_addrs := i_addrs ino'\<rparr>" using w by blast
  obtain as where "ino' = ino\<lparr>i_addrs := as\<rparr>" using i by blast
  then show "i_dev ino' = i_dev ino" "i_size ino' = i_size ino" by simp_all
qed (use assms [unfolded wrote_def Let_def] in blast)+

lemma wrote_Nil: "fs_ok (i_dev ino) B \<Longrightarrow> file_ok B ino \<Longrightarrow> wrote off [] B ino B ino"
  by (simp add: wrote_def)

lemma wrote_append:
  assumes "wrote off xs B ino B1 ino1" and "wrote (off + length xs) ys B1 ino1 B2 ino2" and "off + length xs + length ys \<le> MAXFILE * BSIZE"
  shows "wrote off (xs @ ys) B ino B2 ino2"
proof -
  note d1 = wroteD [OF assms(1)] and d2 = wroteD [OF assms(2), unfolded d1(4)]
  have i: "ino2 = ino\<lparr>i_addrs := i_addrs ino2\<rparr>"
  proof -
    obtain as where "ino1 = ino\<lparr>i_addrs := as\<rparr>" using d1(3) by blast
    then show ?thesis using d2(3) by simp
  qed
  have w: "baddr B2 ino2 (p div BSIZE) \<noteq> 0 \<and> fbyte B2 ino2 p = (xs @ ys) ! (p - off)"
    if p: "off \<le> p" "p < off + length (xs @ ys)" for p
  proof (cases "p < off + length xs")
    case True
    have pm: "p < MAXFILE * BSIZE" using p assms(3) by simp
    from d1(10) [OF p(1) True] d2(9) [OF block_less [OF pm]] d2(11) [OF pm] True p(1)
    show ?thesis by (simp add: nth_append less_diff_conv2)
  next
    case False
    with p d2(10) [of p] show ?thesis by (simp add: nth_append less_diff_conv2)
  qed
  have f: "fbyte B2 ino2 p = fbyte B ino p"
    if p: "p < MAXFILE * BSIZE" "\<not> (off \<le> p \<and> p < off + length (xs @ ys))" "baddr B ino (p div BSIZE) \<noteq> 0" for p
    using d1(11) [OF p(1) _ p(3)] d2(11) [OF p(1)] d1(9) [OF block_less [OF p(1)] p(3)] p by auto
  show ?thesis unfolding wrote_def Let_def
    using d1 d2 i w f by auto
qed

text \<open>One round: the block is found or allocated, and the bytes up to the block boundary replaced.\<close>

lemma wrote_chunk:
  assumes fo: "file_ok B ino" and g: "grows B ino B1 ino1" and a: "baddr B1 ino1 (off div BSIZE) = a" "a \<noteq> 0" and bn: "off div BSIZE < MAXFILE"
    and m: "m = chunk off n" "length xs = m"
  defines "d \<equiv> B1 (i_dev ino, a)"
  defines "B2 \<equiv> B1((i_dev ino, a) := take (off mod BSIZE) d @ xs @ drop (off mod BSIZE + m) d)"
  shows "wrote off xs B ino B2 ino1"
proof -
  note gD = growsD [OF g]
  have dv: "i_dev ino1 = i_dev ino" by (rule gD(3))
  have ok: "addr_ok (i_dev ino) B1 a" "a \<noteq> i_addrs ino1 ! NDIRECT" using gD(2) a bn dv by (auto simp: file_ok_def)
  have km: "off mod BSIZE + m \<le> BSIZE" using mod_less_divisor [of BSIZE off] by (simp add: m(1) chunk_def BSIZE_def)
  have ld: "length d = BSIZE" using gD(1) by (simp add: d_def fs_ok_def bsizedD)
  have l: "length (take (off mod BSIZE) d @ xs @ drop (off mod BSIZE + m) d) = BSIZE" using km ld m(2) by simp
  have fs2: "fs_ok (i_dev ino) B2" unfolding B2_def using gD(1) ok(1) l by (intro fs_ok_data) (auto simp: addr_ok_def)
  have lay: "bitmap_end B2 (i_dev ino) = bitmap_end B (i_dev ino)" "sys_blocks B2 (i_dev ino) = sys_blocks B (i_dev ino)"
    "meta_blocks B2 (i_dev ino) = meta_blocks B (i_dev ino)" and ok2: "addr_ok (i_dev ino) B2 b = addr_ok (i_dev ino) B1 b" for b
    using ok(1) gD(5-7) by (auto simp: B2_def addr_ok_def layout_data)
  have ba: "baddr B2 ino1 bm = baddr B1 ino1 bm" for bm
    using ok(2) dv by (intro baddr_cong) (auto simp: B2_def)
  have fo2: "file_ok B2 ino1" using gD(2) by (simp add: file_ok_def ba ok2 dv)
  have ow: "owns B2 ino1 b = owns B1 ino1 b" for b by (simp add: owns_def ba)
  have fb: "fbyte B2 ino1 p = (if p div BSIZE = off div BSIZE then (take (off mod BSIZE) d @ xs @ drop (off mod BSIZE + m) d) ! (p mod BSIZE)
      else fbyte B1 ino1 p)" if "p < MAXFILE * BSIZE" "baddr B1 ino1 (p div BSIZE) \<noteq> 0" for p
    using gD(2) a bn block_less [OF that(1)] that(2) dv unfolding fbyte_def ba by (auto simp: B2_def file_ok_def)
  have inside: "p div BSIZE = off div BSIZE \<and> p mod BSIZE = off mod BSIZE + (p - off)" if "off \<le> p" "p < off + m" for p
    using chunk_block [of "p - off" off n] that m(1) by simp
  have old: "fbyte B1 ino1 p = fbyte B ino p" if p: "p < MAXFILE * BSIZE" "baddr B ino (p div BSIZE) \<noteq> 0" for p
  proof -
    note b1 = gD(8) [OF block_less [OF p(1)] p(2)]
    have "addr_ok (i_dev ino) B (baddr B ino (p div BSIZE))" "baddr B ino (p div BSIZE) \<noteq> i_addrs ino ! NDIRECT"
      using fo p block_less [OF p(1)] by (auto simp: file_ok_def)
    then have "B1 (i_dev ino, baddr B ino (p div BSIZE)) = B (i_dev ino, baddr B ino (p div BSIZE))"
      using g by (simp add: grows_def Let_def)
    then show ?thesis by (simp add: fbyte_def b1 dv)
  qed
  have new: "baddr B2 ino1 (p div BSIZE) \<noteq> 0 \<and> fbyte B2 ino1 p = xs ! (p - off)" if p: "off \<le> p" "p < off + length xs" for p
  proof -
    obtain j where j: "p = off + j" "j < m" using p m(2) by (auto simp: le_iff_add)
    from inside [OF p(1)] p m(2) have i: "p div BSIZE = off div BSIZE" "p mod BSIZE = off mod BSIZE + j" by (auto simp: j)
    have "p < MAXFILE * BSIZE"
      using bn i(1) by (metis BSIZE_def div_less_iff_less_mult zero_less_numeral)
    moreover have "(take (off mod BSIZE) d @ xs @ drop (off mod BSIZE + m) d) ! (off mod BSIZE + j) = xs ! j"
      using j(2) ld km m(2) by (simp add: nth_append)
    ultimately show ?thesis using fb [of p] i a by (simp add: ba j(1))
  qed
  have same: "fbyte B2 ino1 p = fbyte B ino p"
    if p: "p < MAXFILE * BSIZE" "\<not> (off \<le> p \<and> p < off + length xs)" "baddr B ino (p div BSIZE) \<noteq> 0" for p
  proof -
    have nz: "baddr B1 ino1 (p div BSIZE) \<noteq> 0" using gD(8) [OF block_less [OF p(1)] p(3)] p(3) by simp
    show ?thesis
    proof (cases "p div BSIZE = off div BSIZE")
      case True
      have "p mod BSIZE < off mod BSIZE \<or> off mod BSIZE + m \<le> p mod BSIZE"
      proof (rule ccontr)
        assume "\<not> ?thesis"
        moreover have "p = off div BSIZE * BSIZE + p mod BSIZE" "off = off div BSIZE * BSIZE + off mod BSIZE"
          using True by (metis div_mult_mod_eq)+
        ultimately show False using p(2) m(2) by linarith
      qed
      moreover have "p mod BSIZE < BSIZE" by (simp add: BSIZE_def)
      ultimately have "(take (off mod BSIZE) d @ xs @ drop (off mod BSIZE + m) d) ! (p mod BSIZE) = d ! (p mod BSIZE)"
        using ld m(2) km by (auto simp: nth_append)
      also have "\<dots> = fbyte B1 ino1 p" using True a dv by (simp add: fbyte_def d_def)
      finally show ?thesis using fb [OF p(1) nz] True old [OF p(1,3)] by simp
    next
      case False
      then show ?thesis using fb [OF p(1) nz] old [OF p(1,3)] by simp
    qed
  qed
  have frame: "addr_ok (i_dev ino) B2 b \<and> \<not> owns B2 ino1 b \<and> B2 (i_dev ino, b) = B (i_dev ino, b)"
    if b: "addr_ok (i_dev ino) B b" "\<not> owns B ino b" for b
  proof -
    have "addr_ok (i_dev ino) B1 b" "\<not> owns B1 ino1 b" "b \<noteq> i_addrs ino ! NDIRECT \<Longrightarrow> B1 (i_dev ino, b) = B (i_dev ino, b)"
      using g b by (auto simp: grows_def Let_def)
    moreover have "b \<noteq> i_addrs ino ! NDIRECT" using b(2) by (auto simp: owns_def)
    moreover from calculation have "b \<noteq> a" using a bn by (auto simp: owns_def)
    ultimately show ?thesis using ok2 ow by (simp add: B2_def)
  qed
  have meta: "B2 (i_dev ino, b) = B (i_dev ino, b)" if "b \<in> meta_blocks B (i_dev ino) - sys_blocks B (i_dev ino)" for b
  proof -
    have "b \<noteq> a" using ok(1) that gD(7) by (auto simp: addr_ok_def)
    then show ?thesis using g that by (simp add: B2_def grows_def Let_def)
  qed
  have "B2 k = B k" if "fst k \<noteq> i_dev ino" for k
  proof -
    have "B1 k = B k" using g that unfolding grows_def Let_def by blast
    moreover have "k \<noteq> (i_dev ino, a)" using that by auto
    ultimately show ?thesis by (simp add: B2_def)
  qed
  then show ?thesis unfolding wrote_def Let_def
    using fs2 fo2 gD(8,9) lay ba new same frame meta by auto
qed

lemma file_state_wrote:
  assumes "file_state ip s" and "becomes s B ((icache s)(ip := ino)) t" and "wrote off xs (sectors s) (icache s ip) B ino"
  shows "file_state ip t"
  using assms wroteD [OF assms(3)] disk_room_becomes [OF _ assms(2)] becomesD [OF assms(2)]
  by (simp add: file_state_def)

text \<open>The blocks a range of bytes lies in, and how many blocks a write to it has to allocate.\<close>

definition blocks_of :: "nat \<Rightarrow> nat \<Rightarrow> nat set" where
  "blocks_of off n = (\<lambda>p. p div BSIZE) ` {off..<off + n}"

definition blocks_needed :: "nat \<Rightarrow> nat \<Rightarrow> blocks \<Rightarrow> inode \<Rightarrow> nat" where
  "blocks_needed off n B ino = card {bn \<in> blocks_of off n. baddr B ino bn = 0} +
     (if i_addrs ino ! NDIRECT = 0 \<and> (\<exists>bn \<in> blocks_of off n. NDIRECT \<le> bn) then 1 else 0)"

lemma blocks_needed_0: "blocks_needed off 0 B ino = 0"
  by (simp add: blocks_needed_def blocks_of_def)

lemma blocks_needed_zero: "blocks_needed off n B ino = 0 \<longleftrightarrow> (\<forall>p. off \<le> p \<and> p < off + n \<longrightarrow> baddr B ino (p div BSIZE) \<noteq> 0)"
proof
  assume "blocks_needed off n B ino = 0"
  then have "{bn \<in> blocks_of off n. baddr B ino bn = 0} = {}" by (simp add: blocks_needed_def blocks_of_def split: if_splits)
  then show "\<forall>p. off \<le> p \<and> p < off + n \<longrightarrow> baddr B ino (p div BSIZE) \<noteq> 0" by (auto simp: blocks_of_def)
next
  assume "\<forall>p. off \<le> p \<and> p < off + n \<longrightarrow> baddr B ino (p div BSIZE) \<noteq> 0"
  then have z: "baddr B ino bn \<noteq> 0" if "bn \<in> blocks_of off n" for bn using that by (auto simp: blocks_of_def)
  then have "\<not> (i_addrs ino ! NDIRECT = 0 \<and> (\<exists>bn \<in> blocks_of off n. NDIRECT \<le> bn))" by (fastforce simp: baddr_def)
  moreover from z have "{bn \<in> blocks_of off n. baddr B ino bn = 0} = {}" by blast
  ultimately show "blocks_needed off n B ino = 0" by (simp only: blocks_needed_def card.empty if_False add_0)
qed

lemma blocks_of_step:
  assumes "0 < n"
  shows "blocks_of off n = insert (off div BSIZE) (blocks_of (off + chunk off n) (n - chunk off n))"
    and "off div BSIZE \<notin> blocks_of (off + chunk off n) (n - chunk off n)"
proof -
  let ?m = "chunk off n"
  have m: "?m \<le> n" "0 < ?m" using chunk_le chunk_pos assms by simp_all
  have "{off..<off + n} = {off..<off + ?m} \<union> {off + ?m..<off + ?m + (n - ?m)}" using m by auto
  then have "blocks_of off n = (\<lambda>p. p div BSIZE) ` {off..<off + ?m} \<union> blocks_of (off + ?m) (n - ?m)"
    by (simp add: blocks_of_def image_Un)
  moreover have "(\<lambda>p. p div BSIZE) ` {off..<off + ?m} = {off div BSIZE}"
  proof -
    have b: "p div BSIZE = off div BSIZE" if "off \<le> p" "p < off + ?m" for p
      using chunk_block [of "p - off" off n] that by (metis le_add_diff_inverse less_diff_conv2 add.commute)
    have "(\<lambda>p. p div BSIZE) ` {off..<off + ?m} = (\<lambda>p. off div BSIZE) ` {off..<off + ?m}"
      by (rule image_cong [OF refl], rule b) simp_all
    then show ?thesis using m(2) by (simp add: image_constant_conv)
  qed
  ultimately show "blocks_of off n = insert (off div BSIZE) (blocks_of (off + ?m) (n - ?m))" by simp
  show "off div BSIZE \<notin> blocks_of (off + ?m) (n - ?m)"
  proof
    assume "off div BSIZE \<in> blocks_of (off + ?m) (n - ?m)"
    then obtain p where p: "off + ?m \<le> p" "p < off + n" "p div BSIZE = off div BSIZE" using m by (auto simp: blocks_of_def)
    then have "?m < n" by linarith
    then have "?m = BSIZE - off mod BSIZE" by (auto simp: chunk_def min_def split: if_splits)
    moreover have "p = off div BSIZE * BSIZE + p mod BSIZE" "off = off div BSIZE * BSIZE + off mod BSIZE"
      using p(3) by (metis div_mult_mod_eq)+
    moreover have "p mod BSIZE < BSIZE" "off mod BSIZE < BSIZE" by (simp_all add: BSIZE_def)
    ultimately show False using p(1) by linarith
  qed
qed

lemma blocks_needed_step:
  assumes n: "0 < n" and le: "off + n \<le> MAXFILE * BSIZE" and k: "map_kept (off div BSIZE) B ino B' ino'"
  shows "blocks_needed off n B ino = need B ino (off div BSIZE) + blocks_needed (off + chunk off n) (n - chunk off n) B' ino'"
proof -
  let ?bn = "off div BSIZE" and ?R = "blocks_of (off + chunk off n) (n - chunk off n)"
  note st = blocks_of_step [OF n, of off]
  have fin: "finite ?R" by (simp add: blocks_of_def)
  have R: "bm < MAXFILE \<and> bm \<noteq> ?bn" if "bm \<in> ?R" for bm
  proof
    show "bm \<noteq> ?bn" using that st(2) by blast
    show "bm < MAXFILE" using that le chunk_le [of off n] block_less by (auto simp: blocks_of_def)
  qed
  have "{bn \<in> ?R. baddr B' ino' bn = 0} = {bn \<in> ?R. baddr B ino bn = 0}" using R k by (auto simp: map_kept_def)
  moreover have "{bn \<in> blocks_of off n. baddr B ino bn = 0} =
      (if baddr B ino ?bn = 0 then insert ?bn {bn \<in> ?R. baddr B ino bn = 0} else {bn \<in> ?R. baddr B ino bn = 0})"
    using st(1) by auto
  ultimately have "card {bn \<in> blocks_of off n. baddr B ino bn = 0} =
      (if baddr B ino ?bn = 0 then 1 else 0) + card {bn \<in> ?R. baddr B' ino' bn = 0}"
    using st(2) fin by simp
  then show ?thesis using k st(1) by (auto simp: blocks_needed_def need_def map_kept_def)
qed

lemma need_le_needed: "0 < n \<Longrightarrow> need B ino (off div BSIZE) \<le> blocks_needed off n B ino"
proof -
  assume n: "0 < n"
  let ?Z = "{bn \<in> blocks_of off n. baddr B ino bn = 0}"
  have m: "off div BSIZE \<in> blocks_of off n" using blocks_of_step(1) [OF n] by blast
  have "finite ?Z" by (simp add: blocks_of_def)
  then have "(if baddr B ino (off div BSIZE) = 0 then 1 else 0) \<le> card ?Z" using m card_gt_0_iff [of ?Z] by (auto simp: Suc_le_eq)
  then show ?thesis using m by (auto simp: need_def blocks_needed_def)
qed

lemma writei_loop_bytes:
  assumes "file_state ip s" and "off + n \<le> MAXFILE * BSIZE" and "length src = n"
  shows "writei_loop ip src off n s = Panic ''balloc: out of blocks'' \<and>
      free_blocks (sectors s) (i_dev (icache s ip)) < blocks_needed off n (sectors s) (icache s ip) \<or>
    (\<exists>t B ino. writei_loop ip src off n s = Ok t \<and> becomes s B ((icache s)(ip := ino)) t \<and>
      wrote off src (sectors s) (icache s ip) B ino \<and> file_state ip t \<and>
      free_blocks B (i_dev (icache s ip)) + blocks_needed off n (sectors s) (icache s ip) =
        free_blocks (sectors s) (i_dev (icache s ip)) \<and>
      (blocks_needed off n (sectors s) (icache s ip) = 0 \<longrightarrow> i_addrs ino = i_addrs (icache s ip)))"
  using assms
proof (induction n arbitrary: src off s rule: less_induct)
  case (less n)
  let ?B = "sectors s" and ?i = "icache s ip" and ?m = "chunk off n" and ?bn = "off div BSIZE"
  have st: "bc_inv s" "fs_ok (i_dev ?i) ?B" "file_ok ?B ?i" using less.prems(1) by (simp_all add: file_state_def disk_room_def)
  show ?case
  proof (cases "n = 0")
    case True
    then show ?thesis using becomes_refl [OF st(1)] wrote_Nil [OF st(2,3)] less.prems
      by (intro disjI2 exI [of _ s] exI [of _ ?B] exI [of _ ?i]) (simp add: writei_loop.simps blocks_needed_0)
  next
    case False
    have bn: "?bn < MAXFILE" using False less.prems(2) by (intro block_less) simp
    have n0: "0 < n" using False by simp
    note bm = bmap_file [OF less.prems(1) bn] and step = blocks_needed_step [OF n0 less.prems(2)]
    show ?thesis
    proof (cases "bmap ip ?bn s = Panic ''balloc: out of blocks''")
      case True
      then have z: "baddr ?B ?i ?bn = 0" "free_blocks ?B (i_dev ?i) < need ?B ?i ?bn" using bm by auto
      have "need ?B ?i ?bn \<le> blocks_needed off n ?B ?i" by (rule need_le_needed [OF n0])
      moreover have "writei_loop ip src off n s = Panic ''balloc: out of blocks''" using True False by (simp add: writei_loop.simps [of ip src off n])
      ultimately show ?thesis using z(2) by simp
    next
      case noPanic: False
      then obtain a t B1 i1 where t: "bmap ip ?bn s = Ok (a, t)" "becomes s B1 ((icache s)(ip := i1)) t" "grows ?B ?i B1 i1"
        "baddr B1 i1 ?bn = a" "a \<noteq> 0" "file_state ip t" and
        cnt: "free_blocks B1 (i_dev ?i) + need ?B ?i ?bn = free_blocks ?B (i_dev ?i)" "map_kept ?bn ?B ?i B1 i1"
        "baddr ?B ?i ?bn \<noteq> 0 \<longrightarrow> i1 = ?i" using bm by auto
      note tD = becomesD [OF t(2)] and dv = growsD(3) [OF t(3)]
      have ok: "addr_ok (i_dev ?i) B1 a" "a \<noteq> i_addrs i1 ! NDIRECT" using growsD(2) [OF t(3)] t(4,5) bn dv by (auto simp: file_ok_def)
      then have room: "bc.room t (i_dev ?i, a)"
        using t(6) disk_room_room [of "i_dev ?i" t] by (simp add: file_state_def addr_ok_def tD dv)
      let ?f = "\<lambda>d. take (off mod BSIZE) d @ take ?m src @ drop (off mod BSIZE + ?m) d"
      have len: "length (B1 (i_dev ?i, a)) = BSIZE" using growsD(1) [OF t(3)] by (simp add: fs_ok_def bsizedD)
      have km: "off mod BSIZE + ?m \<le> BSIZE" using mod_less_divisor [of BSIZE off] by (simp add: chunk_def BSIZE_def)
      have lm: "length (take ?m src) = ?m" using less.prems(3) chunk_le [of off n] by simp
      have "length (?f (sectors t (i_dev ?i, a))) = BSIZE" using len km lm by (simp add: tD)
      from bc.update_block [OF room, of ?f "\<lambda>_. writei_loop ip (drop ?m src) (off + ?m) (n - ?m)", OF this] False t(1) obtain u where
        u: "bc.same_but t (B1((i_dev ?i, a) := ?f (B1 (i_dev ?i, a)))) u"
        "writei_loop ip src off n s = writei_loop ip (drop ?m src) (off + ?m) (n - ?m) u"
        by (auto simp: writei_loop.simps [of ip src off n s] tD dv Let_def)
      let ?B2 = "B1((i_dev ?i, a) := ?f (B1 (i_dev ?i, a)))"
      have w: "wrote off (take ?m src) ?B ?i ?B2 i1" by (rule wrote_chunk [OF st(3) t(3,4,5) bn refl lm])
      have fb2: "free_blocks ?B2 (i_dev ?i) = free_blocks B1 (i_dev ?i)"
        using ok(1) by (simp add: addr_ok_def free_blocks_data)
      have "baddr ?B2 i1 bm = baddr B1 i1 bm" for bm using ok(2) dv by (intro baddr_cong) auto
      then have "map_kept ?bn ?B ?i ?B2 i1" using cnt(2) by (simp add: map_kept_def)
      note step = step [OF this]
      have ub: "becomes s ?B2 ((icache s)(ip := i1)) u"
        using becomes_trans [OF t(2) becomes_same_but [OF u(1)]] by (simp add: tD)
      note uD = becomesD [OF ub] and fu = file_state_wrote [OF less.prems(1) ub w]
      have nm: "n - ?m < n" "off + ?m + (n - ?m) \<le> MAXFILE * BSIZE" using False chunk_pos [of n off] chunk_le [of off n] less.prems(2) by auto
      have lsrc: "length (drop ?m src) = n - ?m" using less.prems(3) by simp
      from less.IH [OF nm(1) fu nm(2) lsrc, unfolded uD fun_upd_same dv]
      consider "writei_loop ip (drop ?m src) (off + ?m) (n - ?m) u = Panic ''balloc: out of blocks''"
          "free_blocks ?B2 (i_dev ?i) < blocks_needed (off + ?m) (n - ?m) ?B2 i1"
        | v B3 i3 where "writei_loop ip (drop ?m src) (off + ?m) (n - ?m) u = Ok v" "becomes u B3 ((icache s)(ip := i3)) v"
          "wrote (off + ?m) (drop ?m src) ?B2 i1 B3 i3" "file_state ip v"
          "free_blocks B3 (i_dev ?i) + blocks_needed (off + ?m) (n - ?m) ?B2 i1 = free_blocks ?B2 (i_dev ?i)"
          "blocks_needed (off + ?m) (n - ?m) ?B2 i1 = 0 \<longrightarrow> i_addrs i3 = i_addrs i1" by (auto simp: fun_upd_upd simp del: fun_upd_apply)
      then show ?thesis
      proof cases
        case 1
        then show ?thesis using step cnt(1) fb2 by (simp add: u(2))
      next
        case 2
        have "wrote off (take ?m src @ drop ?m src) ?B ?i B3 i3"
          using wrote_append [OF w, of "drop ?m src" B3 i3] 2(3) lm less.prems(2,3) chunk_le [of off n] by simp
        moreover have "becomes s B3 ((icache s)(ip := i3)) v" by (rule becomes_trans [OF ub 2(2)])
        moreover have "free_blocks B3 (i_dev ?i) + blocks_needed off n ?B ?i = free_blocks ?B (i_dev ?i)"
          using 2(5) step cnt(1) fb2 by simp
        moreover have "blocks_needed off n ?B ?i = 0 \<longrightarrow> i_addrs i3 = i_addrs ?i"
          using step 2(6) cnt(3) by (auto simp: need_def split: if_splits)
        ultimately show ?thesis using 2(1,4) u(2) by (intro disjI2 exI [of _ v] exI [of _ B3] exI [of _ i3]) (simp del: fun_upd_apply)
      qed
    qed
  qed
qed

end
