(* ===== verification/File_Io.thy ===== *)
theory File_Io
  imports Fs_Content
begin

text \<open>
  The contract of \<open>readi\<close> and \<open>writei\<close> of \<open>src/P1/xv6/xv6/kernel/fs.c\<close> on ordinary files: a file
  stands for its byte sequence (\<open>file_bytes\<close>), a read returns a slice of it and a write splices the
  new bytes in, growing the file when it ends past the old size.
\<close>

section \<open>Storing the inode of an open file\<close>

text \<open>An inode whose block on disk is neither the super block nor in the bitmap, and whose file has no holes.\<close>

definition file_open :: "nat \<Rightarrow> 'a fsys_scheme \<Rightarrow> bool" where
  "file_open ip s \<longleftrightarrow> (let ino = icache s ip; B = sectors s; dev = i_dev ino in
     file_state ip s \<and> no_holes B ino \<and> IBLOCK (i_inum ino) \<in> meta_blocks B dev \<and>
     IBLOCK (i_inum ino) < bitmap_end B dev \<and> IBLOCK (i_inum ino) \<notin> sys_blocks B dev)"

lemma baddr_size [simp]: "baddr B (ino\<lparr>i_size := k\<rparr>) = baddr B ino" "fbyte B (ino\<lparr>i_size := k\<rparr>) = fbyte B ino"
  by (simp_all add: baddr_def fbyte_def fun_eq_iff)

lemma baddr_type [simp]: "baddr B (ino\<lparr>i_type := k\<rparr>) = baddr B ino"
  by (simp add: baddr_def fun_eq_iff)

lemma file_ok_size [simp]: "file_ok B (ino\<lparr>i_size := k\<rparr>) = file_ok B ino"
  by (simp add: file_ok_def)

lemma owns_size [simp]: "owns B (ino\<lparr>i_size := k\<rparr>) = owns B ino"
  by (simp add: owns_def fun_eq_iff)

text \<open>Rewriting a block of inodes touches neither the free map nor the data of the file.\<close>

lemma inode_block_upd:
  assumes "fs_ok dev B" and "file_ok B ino" and "i_dev ino = dev" and x: "x \<in> meta_blocks B dev" "x \<notin> sys_blocks B dev"
    and "x < bitmap_end B dev" and "length d = BSIZE"
  defines "B' \<equiv> B((dev, x) := d)"
  shows "fs_ok dev B'" "file_ok B' ino" "baddr B' ino bn = baddr B ino bn" "owns B' ino b = owns B ino b"
    "bn < MAXFILE \<Longrightarrow> baddr B ino bn \<noteq> 0 \<Longrightarrow> B' (dev, baddr B ino bn) = B (dev, baddr B ino bn)"
    "addr_ok dev B' a = addr_ok dev B a"
proof -
  note l = layout_other [OF x(2)]
  show fo: "fs_ok dev B'" using assms(1,6,7) x unfolding B'_def by (auto simp: fs_ok_def l bsized_upd)
  show ao: "addr_ok dev B' a = addr_ok dev B a" for a unfolding B'_def by (auto simp: addr_ok_def l)
  have "i_addrs ino ! NDIRECT \<noteq> x" if "i_addrs ino ! NDIRECT \<noteq> 0"
    using assms(2,3) that x by (auto simp: file_ok_def addr_ok_def)
  then show ba: "baddr B' ino bn = baddr B ino bn" for bn using assms(3) by (auto simp: baddr_def B'_def)
  show "file_ok B' ino" using assms(2,3) by (simp add: file_ok_def ba ao)
  show "owns B' ino b = owns B ino b" by (simp add: owns_def ba)
  assume "bn < MAXFILE" "baddr B ino bn \<noteq> 0"
  then have "baddr B ino bn \<noteq> x" using assms(2,3) x by (auto simp: file_ok_def addr_ok_def)
  then show "B' (dev, baddr B ino bn) = B (dev, baddr B ino bn)" by (simp add: B'_def)
qed

lemma inode_elsewhere:
  assumes "n \<noteq> i_inum ino"
  shows "load_inode (store_at ino B (i_dev ino, IBLOCK n)) (dinode_off n) ino' = load_inode (B (i_dev ino, IBLOCK n)) (dinode_off n) ino'"
proof (cases "IBLOCK n = IBLOCK (i_inum ino)")
  case True
  then have "n mod IPB \<noteq> i_inum ino mod IPB" using assms by (simp add: IBLOCK_def) (metis div_mult_mod_eq)
  then show ?thesis using True load_store_other [of "i_inum ino mod IPB" "n mod IPB"]
    by (simp add: store_at_def iblock_off_def dinode_off_def sizeof_dinode_def)
qed (simp add: store_at_def iblock_off_def)

lemma inode_blocks:
  assumes "n < sb_ninodes (fs_sb B dev)"
  shows "IBLOCK n \<in> meta_blocks B dev - sys_blocks B dev"
proof -
  have "n div IPB \<le> sb_ninodes (fs_sb B dev) div IPB" using assms by (intro div_le_mono) simp
  then have "IBLOCK n \<noteq> bitmap_block B dev b" for b by (simp add: IBLOCK_def bitmap_block_def BBLOCK_def)
  moreover have "IBLOCK n \<noteq> 1" by (simp add: IBLOCK_def)
  ultimately show ?thesis using assms by (auto simp: meta_blocks_def sys_blocks_def)
qed

text \<open>The inode stored on the disk is the one in the table.\<close>

definition on_disk :: "blocks \<Rightarrow> inode \<Rightarrow> bool" where
  "on_disk B ino \<longleftrightarrow> load_inode (B (i_dev ino, IBLOCK (i_inum ino))) (dinode_off (i_inum ino)) ino = ino"

lemma on_disk_cong:
  "B' (i_dev ino, IBLOCK (i_inum ino)) = B (i_dev ino, IBLOCK (i_inum ino)) \<Longrightarrow> on_disk B' ino = on_disk B ino"
  by (simp add: on_disk_def)

lemma get_le_less: "get_le k d i < 2 ^ (8 * k)"
proof (induction k arbitrary: i)
  case (Suc k)
  have "unat (d ! i) < 256" using unsigned_less [of "d ! i"] by simp
  then show ?case using Suc [of "Suc i"] by (simp add: power_add)
qed simp

lemma on_disk_ranged:
  assumes "on_disk B ino" and "fs_ok (i_dev ino) B'" and "file_ok B' ino'" and "ino' = ino\<lparr>i_addrs := as, i_size := k\<rparr>" and "k < 2 ^ 32"
  shows "inode_ranged ino'"
proof -
  let ?d = "B (i_dev ino, IBLOCK (i_inum ino))" and ?o = "dinode_off (i_inum ino)"
  have l: "load_inode ?d ?o ino = ino" using assms(1) by (simp add: on_disk_def)
  have "i_type ino = get_le 2 ?d ?o" "i_major ino = get_le 2 ?d (?o + 2)" "i_minor ino = get_le 2 ?d (?o + 4)"
    "i_nlink ino = get_le 2 ?d (?o + 6)"
    using arg_cong [OF l, of i_type] arg_cong [OF l, of i_major] arg_cong [OF l, of i_minor] arg_cong [OF l, of i_nlink]
    by (simp_all add: load_inode_def di_type_def)
  then have "i_type ino < 2 ^ 16" "i_major ino < 2 ^ 16" "i_minor ino < 2 ^ 16" "i_nlink ino < 2 ^ 16"
    using get_le_less [of 2 ?d] by simp_all
  moreover have "a < 2 ^ 32" if a: "a \<in> set as" for a
  proof -
    obtain j where j: "j < NDIRECT + 1" "a = as ! j" using a assms(3,4) by (auto simp: file_ok_def in_set_conv_nth)
    have "addr_ok (i_dev ino) B' a" if "a \<noteq> 0"
    proof (cases "j = NDIRECT")
      case False
      then have "baddr B' ino' j = a" "j < MAXFILE" using j assms(4) by (simp_all add: baddr_def MAXFILE_def)
      then show ?thesis using that assms(3,4) by (auto simp: file_ok_def)
    qed (use assms(3,4) j that in \<open>simp add: file_ok_def\<close>)
    then show ?thesis using assms(2) by (cases "a = 0") (auto simp: addr_ok_def fs_ok_def)
  qed
  ultimately show ?thesis using assms(3-5) by (simp add: inode_ranged_def file_ok_def)
qed

lemma dinode_fits: "dinode_off n + 64 \<le> BSIZE"
proof -
  have "n mod IPB < 8" by (simp add: IPB_def)
  then show ?thesis by (simp add: dinode_off_def sizeof_dinode_def BSIZE_def)
qed

lemma on_disk_store_at:
  assumes "inode_ranged ino" and "bsized B"
  shows "on_disk (store_at ino B) ino"
  using load_store_inode [OF assms(1), of "dinode_off (i_inum ino)"] dinode_fits bsizedD [OF assms(2)]
  by (simp add: on_disk_def store_at_def iblock_off_def)

section \<open>Splicing bytes\<close>

lemma nth_splice:
  assumes "off \<le> length old" and "p < max (length old) (off + length src)"
  shows "(take off old @ src @ drop (off + length src) old) ! p =
    (if off \<le> p \<and> p < off + length src then src ! (p - off) else old ! p)"
  using assms by (auto simp: nth_append min_def)

lemma length_splice: "off \<le> length old \<Longrightarrow> length (take off old @ src @ drop (off + length src) old) = max (length old) (off + length src)"
  by auto

lemma wrote_bytes:
  assumes "wrote off src B ino B' ino'" and "no_holes B ino" and "off \<le> i_size ino" and "off + length src \<le> MAXFILE * BSIZE"
  defines "ino2 \<equiv> ino'\<lparr>i_size := max (i_size ino) (off + length src)\<rparr>"
  shows "file_bytes B' ino2 = take off (file_bytes B ino) @ src @ drop (off + length src) (file_bytes B ino)" "no_holes B' ino2"
proof -
  note w = wroteD [OF assms(1)]
  have h: "baddr B ino (p div BSIZE) \<noteq> 0" "p < MAXFILE * BSIZE" if "p < i_size ino" for p using assms(2) that by (auto simp: no_holes_def)
  have "baddr B' ino' (p div BSIZE) \<noteq> 0" if "p < max (i_size ino) (off + length src)" for p
    using that w(10) [of p] w(9) [OF block_less [OF h(2)] h(1), of p] h(1) [of p] assms(3) by (cases "off \<le> p") (auto simp: less_max_iff_disj)
  then show "no_holes B' ino2" using assms(2,4) by (simp add: no_holes_def ino2_def)
  show "file_bytes B' ino2 = take off (file_bytes B ino) @ src @ drop (off + length src) (file_bytes B ino)"
  proof (rule nth_equalityI)
    show "length (file_bytes B' ino2) = length (take off (file_bytes B ino) @ src @ drop (off + length src) (file_bytes B ino))"
      using assms(3) by (subst length_splice) (simp_all add: file_bytes_def ino2_def)
    fix p assume "p < length (file_bytes B' ino2)"
    then have p: "p < max (i_size ino) (off + length src)" by (simp add: file_bytes_def ino2_def)
    show "file_bytes B' ino2 ! p = (take off (file_bytes B ino) @ src @ drop (off + length src) (file_bytes B ino)) ! p"
      using p assms(3) w(10,11) h by (subst nth_splice) (auto simp: file_bytes_def ino2_def less_max_iff_disj)
  qed
qed

section \<open>Reading and writing\<close>

lemma off_no_overflow: "off + n < 2 ^ 32 \<Longrightarrow> \<not> off_overflow off n"
  by (simp add: off_overflow_def)

lemma file_bytes_slice: "take n (drop off (file_bytes B ino)) = map (fbyte B ino) [off..<min (off + n) (i_size ino)]"
  by (simp add: file_bytes_def take_map drop_map take_upt min_def)

lemma file_open_becomes:
  assumes "file_open ip s" and "becomes s (sectors s) (icache s) t"
  shows "file_open ip t"
  using assms becomesD [OF assms(2)] disk_room_becomes [OF _ assms(2)] by (simp add: file_open_def file_state_def Let_def)

lemma readi_file:
  assumes "file_open ip s" and "i_type (icache s ip) \<noteq> T_DEV" and "off \<le> i_size (icache s ip)" and "off + n < 2 ^ 32"
  shows "\<exists>t. readi ip off n s = Ok (int (min n (i_size (icache s ip) - off)),
      take n (drop off (file_bytes (sectors s) (icache s ip))), t) \<and>
    file_open ip t \<and> sectors t = sectors s \<and> icache t = icache s \<and> becomes s (sectors s) (icache s) t"
proof -
  let ?i = "icache s ip" and ?m = "min n (i_size (icache s ip) - off)"
  have st: "file_state ip s" "no_holes (sectors s) ?i" using assms(1) by (simp_all add: file_open_def Let_def)
  have m: "off + ?m = min (off + n) (i_size ?i)" using assms(3) by auto
  from readi_loop_bytes [OF st, of off ?m] m obtain t where
    t: "readi_loop ip off ?m s = Ok (take n (drop off (file_bytes (sectors s) ?i)), t)" "becomes s (sectors s) (icache s) t"
    by (auto simp: file_bytes_slice)
  have "(if off + n > i_size ?i then i_size ?i - off else n) = ?m" using assms(3) by auto
  then show ?thesis
    using assms(2,3) off_no_overflow [OF assms(4)] t(1) file_open_becomes [OF assms(1) t(2)] becomesD [OF t(2)] t(2)
    by (auto simp: readi_def Let_def)
qed

text \<open>
  C5. Reading an ordinary file: at any offset within the file, \<open>readi\<close> returns exactly the bytes of the
  file from that offset, as many as were asked for or as there are left, across direct and
  indirect blocks, and changes neither the disk nor the inode table.
\<close>
theorem readi_contents:
  assumes "file_open ip s" and "i_type (icache s ip) \<noteq> T_DEV" and "off \<le> i_size (icache s ip)" and "off + n < 2 ^ 32"
  shows "\<exists>t. readi ip off n s = Ok (int (min n (i_size (icache s ip) - off)),
      take n (drop off (file_bytes (sectors s) (icache s ip))), t) \<and>
    file_open ip t \<and> sectors t = sectors s \<and> icache t = icache s"
  using readi_file [OF assms] by blast

text \<open>Writing back the inode with its new size.\<close>

lemma iupdate_file:
  assumes "file_state ip s" and "IBLOCK (i_inum (icache s ip)) < bitmap_end (sectors s) (i_dev (icache s ip))"
  shows "\<exists>t. iupdate ip s = Ok t \<and> becomes s (store_at (icache s ip) (sectors s)) (icache s) t"
proof -
  have "bc.room s (iblock_off (icache s ip))"
    using assms disk_room_room [of "i_dev (icache s ip)" s] by (simp add: file_state_def iblock_off_def)
  from iupdate_spec [OF this] show ?thesis using becomes_same_but by blast
qed

lemma fbyte_cong:
  assumes "baddr B' ino (p div BSIZE) = baddr B ino (p div BSIZE)"
    and "B' (i_dev ino, baddr B ino (p div BSIZE)) = B (i_dev ino, baddr B ino (p div BSIZE))"
  shows "fbyte B' ino p = fbyte B ino p"
  using assms by (simp add: fbyte_def)

lemma store_at_file:
  assumes "fs_ok (i_dev ino) B" and "file_ok B ino" and "no_holes B ino" and "IBLOCK (i_inum ino) \<in> meta_blocks B (i_dev ino)"
    and "IBLOCK (i_inum ino) < bitmap_end B (i_dev ino)" and "IBLOCK (i_inum ino) \<notin> sys_blocks B (i_dev ino)"
  defines "B' \<equiv> store_at ino B"
  shows "fs_ok (i_dev ino) B'" "file_ok B' ino" "no_holes B' ino" "file_bytes B' ino = file_bytes B ino"
    "bitmap_end B' (i_dev ino) = bitmap_end B (i_dev ino)" "sys_blocks B' (i_dev ino) = sys_blocks B (i_dev ino)"
    "meta_blocks B' (i_dev ino) = meta_blocks B (i_dev ino)"
    "addr_ok (i_dev ino) B b \<Longrightarrow> B' (i_dev ino, b) = B (i_dev ino, b)" "baddr B' ino bn = baddr B ino bn"
proof -
  let ?x = "IBLOCK (i_inum ino)"
  note x = assms(4)
  have B': "B' = B((i_dev ino, ?x) := store_inode ino (B (i_dev ino, ?x)) (dinode_off (i_inum ino)))"
    by (simp add: B'_def store_at_def iblock_off_def)
  have l: "length (store_inode ino (B (i_dev ino, ?x)) (dinode_off (i_inum ino))) = BSIZE"
    using assms(1) by (simp add: fs_ok_def bsizedD)
  note u = inode_block_upd [OF assms(1,2) refl x assms(6,5) l, folded B']
  show "fs_ok (i_dev ino) B'" "file_ok B' ino" "baddr B' ino bn = baddr B ino bn" by (fact u)+
  show "no_holes B' ino" using assms(3) by (simp add: no_holes_def u)
  show "bitmap_end B' (i_dev ino) = bitmap_end B (i_dev ino)" "sys_blocks B' (i_dev ino) = sys_blocks B (i_dev ino)"
    "meta_blocks B' (i_dev ino) = meta_blocks B (i_dev ino)" unfolding B' by (rule layout_other [OF assms(6)])+
  have "fbyte B' ino p = fbyte B ino p" if "p < i_size ino" for p
    using assms(3) that u(5) [of "p div BSIZE"] block_less [of p] by (intro fbyte_cong u) (auto simp: no_holes_def)
  then show "file_bytes B' ino = file_bytes B ino" by (simp add: file_bytes_def)
  show "addr_ok (i_dev ino) B b \<Longrightarrow> B' (i_dev ino, b) = B (i_dev ino, b)" using x by (auto simp: B' addr_ok_def)
qed

lemma writei_file:
  assumes "file_open ip s" and "i_type (icache s ip) \<noteq> T_DEV" and "off \<le> i_size (icache s ip)"
    and "off + length src \<le> MAXFILE * BSIZE"
  shows "writei ip src off s = Panic ''balloc: out of blocks'' \<and>
      free_blocks (sectors s) (i_dev (icache s ip)) < blocks_needed off (length src) (sectors s) (icache s ip) \<or>
    (\<exists>t B ino. writei ip src off s = Ok (int (length src), t) \<and> file_open ip t \<and>
      wrote off src (sectors s) (icache s ip) B ino \<and> icache t ip = ino\<lparr>i_size := max (i_size (icache s ip)) (off + length src)\<rparr> \<and>
      (\<forall>bn < MAXFILE. baddr (sectors t) ino bn = baddr B ino bn \<and>
        (baddr B ino bn \<noteq> 0 \<longrightarrow> sectors t (i_dev ino, baddr B ino bn) = B (i_dev ino, baddr B ino bn))) \<and>
      file_bytes (sectors t) (icache t ip) = take off (file_bytes (sectors s) (icache s ip)) @ src @
        drop (off + length src) (file_bytes (sectors s) (icache s ip)) \<and>
      free_blocks (sectors t) (i_dev (icache s ip)) + blocks_needed off (length src) (sectors s) (icache s ip) =
        free_blocks (sectors s) (i_dev (icache s ip)) \<and>
      (\<forall>jp. jp \<noteq> ip \<longrightarrow> icache t jp = icache s jp) \<and>
      (\<forall>b. addr_ok (i_dev (icache s ip)) (sectors s) b \<and> \<not> owns (sectors s) (icache s ip) b \<longrightarrow>
        sectors t (i_dev (icache s ip), b) = sectors s (i_dev (icache s ip), b)) \<and>
      (\<forall>k. fst k \<noteq> i_dev (icache s ip) \<longrightarrow> sectors t k = sectors s k) \<and>
      (\<forall>n x. n < sb_ninodes (fs_sb (sectors s) (i_dev (icache s ip))) \<and> n \<noteq> i_inum (icache s ip) \<longrightarrow>
        load_inode (sectors t (i_dev (icache s ip), IBLOCK n)) (dinode_off n) x =
        load_inode (sectors s (i_dev (icache s ip), IBLOCK n)) (dinode_off n) x) \<and>
      (on_disk (sectors s) (icache s ip) \<longrightarrow> on_disk (sectors t) (icache t ip)))"
proof -
  let ?B = "sectors s" and ?i = "icache s ip" and ?n = "length src" and ?dev = "i_dev (icache s ip)"
  have st: "file_state ip s" "no_holes ?B ?i" and x: "IBLOCK (i_inum ?i) \<in> meta_blocks ?B ?dev"
    "IBLOCK (i_inum ?i) < bitmap_end ?B ?dev" "IBLOCK (i_inum ?i) \<notin> sys_blocks ?B ?dev"
    using assms(1) by (simp_all add: file_open_def Let_def)
  have ov: "\<not> off_overflow off ?n"
    using assms(4) by (intro off_no_overflow) (simp add: MAXFILE_def NDIRECT_def NINDIRECT_def BSIZE_def)
  have wn: "writei_n off ?n = ?n" using assms(4) by (simp add: writei_n_def)
  let ?k = "\<lambda>s. kbind (if ?n > 0 \<and> off + ?n > i_size (icache s ip)
      then iupdate ip (upd_inode ip (i_size_update (\<lambda>_. off + ?n)) s) else Ok s) (\<lambda>s. Ok (int ?n, s))"
  have eq: "writei ip src off s = kbind (writei_loop ip src off ?n s) ?k"
    using assms(2,3) ov by (simp add: writei_def Let_def wn)
  from writei_loop_bytes [OF st(1) assms(4) refl] consider
      "writei_loop ip src off ?n s = Panic ''balloc: out of blocks''" "free_blocks ?B ?dev < blocks_needed off ?n ?B ?i"
    | t B ino where "writei_loop ip src off ?n s = Ok t" "becomes s B ((icache s)(ip := ino)) t" "wrote off src ?B ?i B ino" "file_state ip t"
      "free_blocks B ?dev + blocks_needed off ?n ?B ?i = free_blocks ?B ?dev" "blocks_needed off ?n ?B ?i = 0 \<longrightarrow> i_addrs ino = i_addrs ?i"
    by (elim disjE exE conjE) meson+
  then show ?thesis
  proof cases
    case 1
    then show ?thesis by (simp add: eq)
  next
    case 2
    note w = wroteD [OF 2(3)] and tD = becomesD [OF 2(2)]
    let ?sz = "max (i_size ?i) (off + ?n)" and ?i2 = "ino\<lparr>i_size := max (i_size ?i) (off + ?n)\<rparr>"
    note wb = wrote_bytes [OF 2(3) st(2) assms(3,4)]
    obtain as where as: "ino = ?i\<lparr>i_addrs := as\<rparr>" using w(3) by blast
    have x2: "i_dev ?i2 = ?dev" "i_inum ?i2 = i_inum ?i" by (simp_all add: as)
    note ib = w(13) [OF inode_blocks]
    have own: "B (?dev, IBLOCK (i_inum ?i)) = ?B (?dev, IBLOCK (i_inum ?i))" using w(13) x by blast
    show ?thesis
    proof (cases "?n > 0 \<and> off + ?n > i_size ?i")
      case False
      then have sz: "?i2 = ino" using assms(3) as by auto
      have "blocks_needed off ?n ?B ?i = 0" using False st(2) by (auto simp: blocks_needed_zero no_holes_def)
      then have io: "ino = ?i" using 2(6) as by simp
      have "file_open ip t" using 2(4) wb(2) x w(4,6-8) x2 by (simp add: file_open_def Let_def tD sz)
      moreover have "writei ip src off s = Ok (int ?n, t)" using False 2(1) w(5) by (auto simp: eq tD)
      moreover have "on_disk B ?i = on_disk ?B ?i" using own by (rule on_disk_cong)
      ultimately show ?thesis using 2(3,5) wb(1) w(12,14) ib io
        by (intro disjI2 exI [of _ t] exI [of _ B] exI [of _ ino]) (simp add: tD sz [unfolded io])
    next
      case True
      let ?t = "upd_inode ip (i_size_update (\<lambda>_. off + ?n)) t"
      have tb: "becomes s B ((icache s)(ip := ?i2)) ?t"
        using becomes_upd [OF 2(2), of ip "i_size_update (\<lambda>_. off + ?n)"] True by (simp add: max_def)
      note ttD = becomesD [OF tb]
      have ft: "file_state ip ?t" using 2(4) tb disk_room_becomes [OF _ tb] st(1) w x2
        by (simp add: file_state_def ttD tD)
      from iupdate_file [OF ft, unfolded ttD fun_upd_same x2] x(2) w(6) obtain u where
        u: "iupdate ip ?t = Ok u" "becomes ?t (store_at ?i2 B) ((icache s)(ip := ?i2)) u" by auto
      have i2: "fs_ok ?dev B" "file_ok B ?i2" "no_holes B ?i2" using w wb by simp_all
      note sf = store_at_file [of ?i2 B, unfolded x2, OF i2]
      have ub: "becomes s (store_at ?i2 B) ((icache s)(ip := ?i2)) u" by (rule becomes_trans [OF tb u(2)])
      note uD = becomesD [OF ub]
      have st': "store_at ?i2 B = B((?dev, IBLOCK (i_inum ?i)) := store_inode ?i2 (B (?dev, IBLOCK (i_inum ?i))) (dinode_off (i_inum ?i)))"
        using x2 by (simp add: store_at_def iblock_off_def)
      have "disk_room ?dev u" using st(1) sf(5,6) x w(6-8)
        by (intro disk_room_becomes [OF _ ub]) (simp_all add: file_state_def)
      then have "file_open ip u" using sf(1-3,5-7) x w(6-8) x2 by (simp add: file_open_def file_state_def Let_def uD)
      moreover have "sectors u (?dev, b) = ?B (?dev, b)" if "addr_ok ?dev ?B b" "\<not> owns ?B ?i b" for b
        using sf(8) w(12) [OF that] x w(6-8) by (simp add: uD)
      moreover have "baddr (sectors u) ino bn = baddr B ino bn \<and> (baddr B ino bn \<noteq> 0 \<longrightarrow>
          sectors u (i_dev ino, baddr B ino bn) = B (i_dev ino, baddr B ino bn))" if "bn < MAXFILE" for bn
        using sf(8,9) x w(2,4,6-8) that by (auto simp: uD file_ok_def)
      moreover have "writei ip src off s = Ok (int ?n, u)" using True 2(1) u(1) w(5) by (auto simp: eq tD)
      moreover have "file_bytes (sectors u) ?i2 = file_bytes B ?i2" using sf(4) x w(6-8) by (simp add: uD)
      moreover have "free_blocks (store_at ?i2 B) ?dev = free_blocks B ?dev"
        unfolding st' using x(3) w(7) by (simp add: free_blocks_def layout_other cong: conj_cong)
      moreover have "store_at ?i2 B k = ?B k" if "fst k \<noteq> ?dev" for k using w(14) [OF that] that by (auto simp: st')
      moreover have "load_inode (store_at ?i2 B (?dev, IBLOCK n)) (dinode_off n) x' = load_inode (?B (?dev, IBLOCK n)) (dinode_off n) x'"
        if "n < sb_ninodes (fs_sb ?B ?dev)" "n \<noteq> i_inum ?i" for n x'
        using inode_elsewhere [of n ?i2 B x', unfolded x2] that ib [of n] by simp
      moreover have "on_disk (store_at ?i2 B) ?i2" if d: "on_disk ?B ?i"
      proof (rule on_disk_store_at)
        have "?sz < 2 ^ 32" using st(2) assms(4) by (simp add: no_holes_def MAXFILE_def NDIRECT_def NINDIRECT_def BSIZE_def)
        then show "inode_ranged ?i2" using on_disk_ranged [OF d i2(1,2), where as = as and k = ?sz] as by simp
        show "bsized B" using i2(1) by (simp add: fs_ok_def)
      qed
      ultimately show ?thesis using 2(3,5) wb(1)
        by (intro disjI2 exI [of _ u] exI [of _ B] exI [of _ ino]) (simp add: uD)
    qed
  qed
qed

text \<open>
  C4. Writing an ordinary file, at an offset within the file and ending within the largest file
  (\<open>MAXFILE\<close> blocks). \<open>writei\<close> panics with \<open>balloc: out of blocks\<close> exactly when the disk has
  fewer free blocks (clear bits in the bitmap) than the file lacks among the blocks of the range,
  its indirect block included.
  Otherwise it writes everything and takes exactly these blocks; the file is then the old bytes
  with the new ones spliced in at the offset (longer if they end past the old size), still without
  holes. No block in use outside the file, no other device, no other inode of the table and no
  other inode on the disk has changed; and if the inode on the disk was the one in the table, it
  is again afterwards, new size and addresses included.
\<close>
theorem writei_contents:
  assumes "file_open ip s" and "i_type (icache s ip) \<noteq> T_DEV" and "off \<le> i_size (icache s ip)"
    and "off + length src \<le> MAXFILE * BSIZE"
  shows "if free_blocks (sectors s) (i_dev (icache s ip)) < blocks_needed off (length src) (sectors s) (icache s ip)
    then writei ip src off s = Panic ''balloc: out of blocks''
    else \<exists>t. writei ip src off s = Ok (int (length src), t) \<and> file_open ip t \<and>
      file_bytes (sectors t) (icache t ip) = take off (file_bytes (sectors s) (icache s ip)) @ src @
        drop (off + length src) (file_bytes (sectors s) (icache s ip)) \<and>
      free_blocks (sectors t) (i_dev (icache s ip)) + blocks_needed off (length src) (sectors s) (icache s ip) =
        free_blocks (sectors s) (i_dev (icache s ip)) \<and>
      (\<forall>jp. jp \<noteq> ip \<longrightarrow> icache t jp = icache s jp) \<and>
      (\<forall>b. addr_ok (i_dev (icache s ip)) (sectors s) b \<and> \<not> owns (sectors s) (icache s ip) b \<longrightarrow>
        sectors t (i_dev (icache s ip), b) = sectors s (i_dev (icache s ip), b)) \<and>
      (\<forall>k. fst k \<noteq> i_dev (icache s ip) \<longrightarrow> sectors t k = sectors s k) \<and>
      (\<forall>n x. n < sb_ninodes (fs_sb (sectors s) (i_dev (icache s ip))) \<and> n \<noteq> i_inum (icache s ip) \<longrightarrow>
        load_inode (sectors t (i_dev (icache s ip), IBLOCK n)) (dinode_off n) x =
        load_inode (sectors s (i_dev (icache s ip), IBLOCK n)) (dinode_off n) x) \<and>
      (on_disk (sectors s) (icache s ip) \<longrightarrow> on_disk (sectors t) (icache t ip))"
  using writei_file [OF assms] by (elim disjE) (auto simp: not_less [symmetric])

section \<open>A small file system\<close>

text \<open>Blocks 0 to 5 are in use; inode 3 is a file whose only block is 5 and which holds three bytes.\<close>

definition small_blocks :: blocks where
  "small_blocks = (sectors (blank_disk 100))((1, 4) := 63 # replicate 511 0, (1, 5) := [1, 2, 3] @ replicate 509 0)"

definition small_inode :: inode where
  "small_inode = no_inode\<lparr>i_dev := 1, i_inum := 3, i_ref := 1, i_valid := True, i_type := T_FILE, i_size := 3, i_addrs := 5 # replicate 12 0\<rparr>"

definition small_fs :: fsys where
  "small_fs = (mount (binit \<lparr>bufs = (\<lambda>_. \<lparr>b_busy = False, b_valid = False, b_dirty = False, b_dev = 0, b_sector = 0,
       b_prev = 0, b_next = 0, b_qnext = None, b_data = []\<rparr>), idequeue = None, havedisk1 = True,
     sectors = small_blocks, bad_sectors = {}\<rparr>))\<lparr>icache := (\<lambda>_. no_inode)(0 := small_inode)\<rparr>"

lemma small_fs_sel: "sectors small_fs = small_blocks" "icache small_fs 0 = small_inode" "havedisk1 small_fs" "bad_sectors small_fs = {}"
  by (simp_all add: small_fs_def binit_def Let_def)

lemma small_fs_inv: "bc_inv small_fs" "bc_held small_fs = Map.empty"
proof -
  let ?s = "\<lparr>bufs = (\<lambda>_. \<lparr>b_busy = False, b_valid = False, b_dirty = False, b_dev = 0, b_sector = 0,
       b_prev = 0, b_next = 0, b_qnext = None, b_data = []\<rparr>), idequeue = None, havedisk1 = True,
     sectors = small_blocks, bad_sectors = {}\<rparr> :: bcache"
  have "cold ?s" by (simp add: cold_def small_blocks_def blank_disk_sectors BSIZE_def)
  from binit_inv [OF this] show "bc_inv small_fs" "bc_held small_fs = Map.empty" by (simp_all add: small_fs_def)
qed

lemma small_layout: "sb_size (fs_sb small_blocks 1) = 100" "sb_ninodes (fs_sb small_blocks 1) = 8"
  "bitmap_end small_blocks 1 = 4096" "bitmap_block small_blocks 1 b = b div BPB + 4"
proof -
  have "fs_sb small_blocks 1 = fs_sb (sectors (blank_disk 100)) 1" by (simp add: small_blocks_def fs_sb_def)
  then show sb: "sb_size (fs_sb small_blocks 1) = 100" "sb_ninodes (fs_sb small_blocks 1) = 8" using blank_disk_sb [of 100] by simp_all
  show "bitmap_end small_blocks 1 = 4096" by (simp add: bitmap_end_def sb BPB_def del: One_nat_def)
  show "bitmap_block small_blocks 1 b = b div BPB + 4" by (simp add: bitmap_block_def BBLOCK_def sb IPB_def del: One_nat_def)
qed

lemma small_sys: "sys_blocks small_blocks 1 = {1, 4}" "meta_blocks small_blocks 1 = {0, 1, 2, 4}"
proof -
  have "(\<lambda>b. b div BPB + 4) ` {..<4096} = {4}" by (auto simp: BPB_def image_iff) presburger
  then show s: "sys_blocks small_blocks 1 = {1, 4}"
    by (simp add: sys_blocks_def small_layout del: One_nat_def)
  have "IBLOCK ` {..<8} = {2}" by (auto simp: IBLOCK_def IPB_def image_iff) presburger
  then show "meta_blocks small_blocks 1 = {0, 1, 2, 4}" by (auto simp: meta_blocks_def s small_layout simp del: One_nat_def)
qed

lemma small_in_use: "b < 4096 \<Longrightarrow> b \<in> {0, 1, 2, 4, 5} \<Longrightarrow> in_use small_blocks 1 b"
  by (auto simp: in_use_def small_layout BPB_def bit_set_def simp del: One_nat_def) (simp_all add: small_blocks_def)

lemma small_bsized: "bsized small_blocks"
  unfolding bsized_def small_blocks_def blank_disk_sectors by (simp add: BSIZE_def)

lemma small_fs_ok: "fs_ok 1 small_blocks"
proof -
  have "small_blocks (1, b) = replicate BSIZE 0" if "b < 4096" "\<not> in_use small_blocks 1 b" for b
  proof -
    have "b \<noteq> 1" "b \<noteq> 4" "b \<noteq> 5" using that small_in_use [of b] by auto
    then show ?thesis by (simp add: small_blocks_def blank_disk_sectors)
  qed
  then show ?thesis using small_bsized small_in_use by (simp add: fs_ok_def small_layout small_sys del: One_nat_def)
qed

lemma small_baddr: "bn < MAXFILE \<Longrightarrow> baddr small_blocks small_inode bn = (if bn = 0 then 5 else 0)"
  by (auto simp: baddr_def small_inode_def NDIRECT_def nth_Cons split: nat.split)

lemma small_file_ok: "file_ok small_blocks small_inode"
proof -
  have "length (i_addrs small_inode) = NDIRECT + 1" "i_addrs small_inode ! NDIRECT = 0" "i_dev small_inode = 1"
    by (simp_all add: small_inode_def NDIRECT_def)
  moreover have "addr_ok 1 small_blocks 5" using small_in_use [of 5] by (simp add: addr_ok_def small_layout small_sys del: One_nat_def)
  ultimately show ?thesis by (simp add: file_ok_def small_baddr)
qed

text \<open>The table may hold the inode with any type and any size up to the one block.\<close>

lemma small_open:
  assumes "n \<le> 512" and "ino = small_inode\<lparr>i_type := ty, i_size := n\<rparr>"
  shows "file_open 0 (small_fs\<lparr>icache := (icache small_fs)(0 := ino)\<rparr>)"
proof -
  have i: "i_dev ino = 1" "i_inum ino = 3" "i_size ino = n" using assms(2) by (simp_all add: small_inode_def)
  have ba: "baddr small_blocks ino = baddr small_blocks small_inode" using assms(2) by simp
  have "disk_room 1 small_fs"
    using small_fs_inv by (auto simp: disk_room_def small_fs_sel small_layout small_sys bc_ready_def simp del: One_nat_def)
  moreover have "no_holes small_blocks ino"
    using assms(1) by (simp add: no_holes_def i ba small_baddr MAXFILE_def NDIRECT_def NINDIRECT_def BSIZE_def)
  moreover have "file_ok small_blocks ino" using small_file_ok assms(2) by (simp add: file_ok_def ba)
  moreover have "IBLOCK 3 = 2" by (simp add: IBLOCK_def IPB_def)
  ultimately show ?thesis using small_fs_ok
    by (simp add: file_open_def file_state_def Let_def small_fs_sel i small_layout small_sys disk_room_def del: One_nat_def)
qed

lemma small_file_open: "file_open 0 small_fs"
proof -
  have "small_fs\<lparr>icache := (icache small_fs)(0 := icache small_fs 0)\<rparr> = small_fs" by simp
  moreover have "icache small_fs 0 = small_inode\<lparr>i_type := T_FILE, i_size := 3\<rparr>" by (simp add: small_fs_sel small_inode_def)
  ultimately show ?thesis using small_open [of 3 "icache small_fs 0" T_FILE] by simp
qed

lemma small_bytes: "file_bytes (sectors small_fs) (icache small_fs 0) = [1, 2, 3]"
proof -
  have "[0..<3] = [0, 1, 2::nat]" by (simp add: upt_rec)
  then show ?thesis using small_baddr [of 0]
    by (simp add: small_fs_sel file_bytes_def fbyte_def small_inode_def MAXFILE_def NDIRECT_def BSIZE_def small_blocks_def)
qed

lemma small_type: "i_type (icache small_fs 0) \<noteq> T_DEV" "i_size (icache small_fs 0) = 3"
  by (simp_all add: small_fs_sel small_inode_def T_FILE_def T_DEV_def)

theorem readi_contents_witness: "\<exists>t. readi 0 1 10 small_fs = Ok (2, [2, 3], t) \<and> sectors t = sectors small_fs"
  using readi_contents [OF small_file_open small_type(1), of 1 10] by (auto simp: small_bytes small_type)

theorem writei_contents_witness:
  "\<exists>t. writei 0 [8, 9, 10] 1 small_fs = Ok (3, t) \<and> file_open 0 t \<and> file_bytes (sectors t) (icache t 0) = [1, 8, 9, 10]"
proof -
  have "blocks_needed 1 3 (sectors small_fs) (icache small_fs 0) = 0"
    by (auto simp: blocks_needed_zero small_fs_sel small_baddr BSIZE_def MAXFILE_def NDIRECT_def NINDIRECT_def)
  then show ?thesis using writei_contents [OF small_file_open small_type(1), of 1 "[8, 9, 10]"]
    by (auto simp: small_bytes small_type MAXFILE_def NDIRECT_def NINDIRECT_def BSIZE_def numeral_3_eq_3)
qed

end
