(* ===== verification/Fs_Path.thy ===== *)
theory Fs_Path
  imports File_Io Cstring
begin

text \<open>
  Directories and path names of \<open>src/P1/xv6/xv6/kernel/fs.c\<close>: \<open>namecmp\<close>, \<open>dirlookup\<close>, \<open>dirlink\<close>,
  \<open>skipelem\<close>, \<open>namex\<close> and its two entry points. A directory is a file of 16-byte entries (inode
  number, then the name padded with NULs); paths are the bytes before the terminating NUL.
\<close>

definition DIRSIZ :: nat where "DIRSIZ = 14"
definition sizeof_dirent :: nat where "sizeof_dirent = 16"
definition ROOTDEV :: nat where "ROOTDEV = 1"
definition ROOTINO :: nat where "ROOTINO = 1"

section \<open>Directories\<close>

definition namecmp :: "byte list \<Rightarrow> byte list \<Rightarrow> int" where
  "namecmp s t = strncmp (of_bytes s) (of_bytes t) DIRSIZ"

definition de_inum :: "byte list \<Rightarrow> nat \<Rightarrow> nat" where
  "de_inum d i = get_le 2 d (sizeof_dirent * i)"

definition de_name :: "byte list \<Rightarrow> nat \<Rightarrow> byte list" where
  "de_name d i = take DIRSIZ (drop (sizeof_dirent * i + 2) d)"

definition de_match :: "byte list \<Rightarrow> byte list \<Rightarrow> nat \<Rightarrow> bool" where
  "de_match name d i \<longleftrightarrow> de_inum d i \<noteq> 0 \<and> namecmp name (de_name d i) = 0"

text \<open>
  The loop over the blocks of the directory; the inner one is over all entries of a block. The size
  is read once: the directory is locked and mapping its blocks does not change it.
\<close>

function dirlookup_loop :: "nat \<Rightarrow> byte list \<Rightarrow> nat \<Rightarrow> nat \<Rightarrow> 'a fsys_scheme \<Rightarrow> ((nat \<times> nat) option \<times> 'a fsys_scheme) kres" where
  "dirlookup_loop dp name sz off s =
     (if off < sz then
        kbind (bmap dp (off div BSIZE) s) (\<lambda>(a, s).
        kbind (bread (i_dev (icache s dp)) a s) (\<lambda>(bp, s).
          let d = buf_data s bp in
          kbind (brelse bp s) (\<lambda>s.
            case find (de_match name d) [0..<BSIZE div sizeof_dirent] of
              Some i \<Rightarrow> kbind (iget (i_dev (icache s dp)) (de_inum d i) s) (\<lambda>(ip, s).
                          Ok (Some (ip, off + sizeof_dirent * i), s))
            | None \<Rightarrow> dirlookup_loop dp name sz (off + BSIZE) s)))
      else Ok (None, s))"
  by pat_completeness auto
termination by (relation "measure (\<lambda>(dp, name, sz, off, s). sz - off)") (auto simp: BSIZE_def)

declare dirlookup_loop.simps [simp del]

definition dirlookup :: "nat \<Rightarrow> byte list \<Rightarrow> 'a fsys_scheme \<Rightarrow> ((nat \<times> nat) option \<times> 'a fsys_scheme) kres" where
  "dirlookup dp name s =
     (if i_type (icache s dp) \<noteq> T_DIR then Panic ''dirlookup not DIR''
      else dirlookup_loop dp name (i_size (icache s dp)) 0 s)"

text \<open>The offset of the first free entry, or the end of the directory.\<close>

function dirlink_slot :: "nat \<Rightarrow> nat \<Rightarrow> nat \<Rightarrow> 'a fsys_scheme \<Rightarrow> (nat \<times> 'a fsys_scheme) kres" where
  "dirlink_slot dp sz off s =
     (if off < sz then
        kbind (readi dp off sizeof_dirent s) (\<lambda>(r, de, s).
          if r \<noteq> int sizeof_dirent then Panic ''dirlink read''
          else if de_inum de 0 = 0 then Ok (off, s) else dirlink_slot dp sz (off + sizeof_dirent) s)
      else Ok (off, s))"
  by pat_completeness auto
termination by (relation "measure (\<lambda>(dp, sz, off, s). sz - off)") (auto simp: sizeof_dirent_def)

declare dirlink_slot.simps [simp del]

text \<open>\<open>strncpy\<close> of a NUL-terminated name into the name field, and the whole entry.\<close>

definition name_field :: "byte list \<Rightarrow> byte list" where
  "name_field name = (let b = length name + DIRSIZ in map (strncpy (of_bytes name) b 0 DIRSIZ) [b..<b + DIRSIZ])"

definition dirent :: "nat \<Rightarrow> byte list \<Rightarrow> byte list" where
  "dirent inum name = put_le 2 inum [0, 0] 0 @ name_field name"

definition dirlink :: "nat \<Rightarrow> byte list \<Rightarrow> nat \<Rightarrow> 'a fsys_scheme \<Rightarrow> (int \<times> 'a fsys_scheme) kres" where
  "dirlink dp name inum s = kbind (dirlookup dp name s) (\<lambda>(r, s).
     case r of
       Some (ip, _) \<Rightarrow> kbind (iput ip s) (\<lambda>s. Ok (- 1, s))
     | None \<Rightarrow> kbind (dirlink_slot dp (i_size (icache s dp)) 0 s) (\<lambda>(off, s).
         kbind (writei dp (dirent inum name) off s) (\<lambda>(r, s).
           if r \<noteq> int sizeof_dirent then Panic ''dirlink'' else Ok (0, s))))"

section \<open>Paths\<close>

abbreviation slash :: byte where "slash \<equiv> 47"

text \<open>\<open>name\<close> is the caller's buffer of \<open>DIRSIZ\<close> bytes; a short element is terminated, a long one cut.\<close>

definition skipelem :: "byte list \<Rightarrow> byte list \<Rightarrow> (byte list \<times> byte list) option" where
  "skipelem path name =
     (let p = dropWhile (\<lambda>c. c = slash) path in
      if p = [] then None
      else let s = takeWhile (\<lambda>c. c \<noteq> slash) p; rest = dropWhile (\<lambda>c. c \<noteq> slash) p; len = length s in
        Some (dropWhile (\<lambda>c. c = slash) rest,
              if len \<ge> DIRSIZ then take DIRSIZ s else s @ 0 # drop (len + 1) name))"

lemma skipelem_shorter: "skipelem path name = Some (rest, name') \<Longrightarrow> length rest < length path"
proof -
  assume a: "skipelem path name = Some (rest, name')"
  define p where "p = dropWhile (\<lambda>c. c = slash) path"
  have r: "p \<noteq> []" "rest = dropWhile (\<lambda>c. c = slash) (dropWhile (\<lambda>c. c \<noteq> slash) p)"
    using a by (auto simp: skipelem_def Let_def p_def split: if_splits)
  have "hd p \<noteq> slash" using r(1) hd_dropWhile [of "\<lambda>c. c = slash" path] by (simp add: p_def)
  then have "length (dropWhile (\<lambda>c. c \<noteq> slash) p) < length p"
    using r(1) length_dropWhile_le [of "\<lambda>c. c \<noteq> slash" "tl p"] by (cases p) auto
  moreover have "length p \<le> length path" by (simp add: p_def length_dropWhile_le)
  moreover have "length rest \<le> length (dropWhile (\<lambda>c. c \<noteq> slash) p)" unfolding r(2) by (rule length_dropWhile_le)
  ultimately show ?thesis by linarith
qed

function namex_loop :: "nat \<Rightarrow> byte list \<Rightarrow> bool \<Rightarrow> byte list \<Rightarrow> 'a fsys_scheme \<Rightarrow> (nat option \<times> byte list \<times> 'a fsys_scheme) kres" where
  "namex_loop ip path parent name s =
     (case skipelem path name of
        None \<Rightarrow> if parent then kbind (iput ip s) (\<lambda>s. Ok (None, name, s)) else Ok (Some ip, name, s)
      | Some (path, name) \<Rightarrow>
          kbind (ilock ip s) (\<lambda>s.
          if i_type (icache s ip) \<noteq> T_DIR then kbind (iunlockput ip s) (\<lambda>s. Ok (None, name, s))
          else if parent \<and> path = [] then kbind (iunlock ip s) (\<lambda>s. Ok (Some ip, name, s))
          else kbind (dirlookup ip name s) (\<lambda>(r, s). case r of
                 None \<Rightarrow> kbind (iunlockput ip s) (\<lambda>s. Ok (None, name, s))
               | Some (nxt, _) \<Rightarrow> kbind (iunlockput ip s) (namex_loop nxt path parent name))))"
  by pat_completeness auto
termination by (relation "measure (\<lambda>(ip, path, parent, name, s). length path)") (auto dest: skipelem_shorter)

declare namex_loop.simps [simp del]

definition namex :: "nat \<Rightarrow> byte list \<Rightarrow> bool \<Rightarrow> byte list \<Rightarrow> 'a fsys_scheme \<Rightarrow> (nat option \<times> byte list \<times> 'a fsys_scheme) kres" where
  "namex cwd path parent name s =
     kbind (if path \<noteq> [] \<and> hd path = slash then iget ROOTDEV ROOTINO s else Ok (idup cwd s)) (\<lambda>(ip, s).
     namex_loop ip path parent name s)"

text \<open>The local buffer of \<open>namei\<close> is uninitialised; its bytes are never returned.\<close>

definition namei :: "nat \<Rightarrow> byte list \<Rightarrow> 'a fsys_scheme \<Rightarrow> (nat option \<times> 'a fsys_scheme) kres" where
  "namei cwd path s = kbind (namex cwd path False (replicate DIRSIZ 0) s) (\<lambda>(r, name, s). Ok (r, s))"

definition nameiparent :: "nat \<Rightarrow> byte list \<Rightarrow> byte list \<Rightarrow> 'a fsys_scheme \<Rightarrow> (nat option \<times> byte list \<times> 'a fsys_scheme) kres" where
  "nameiparent cwd path name s = namex cwd path True name s"

section \<open>\<open>skipelem\<close> walks the elements of a path\<close>

fun split_slash :: "byte list \<Rightarrow> byte list list" where
  "split_slash [] = [[]]"
| "split_slash (c # cs) = (if c = slash then [] # split_slash cs else (c # hd (split_slash cs)) # tl (split_slash cs))"

definition path_elems :: "byte list \<Rightarrow> byte list list" where
  "path_elems path = filter (\<lambda>e. e \<noteq> []) (split_slash path)"

text \<open>The names that repeated calls of \<open>skipelem\<close> leave in the buffer, up to the terminating NUL.\<close>

function walk :: "byte list \<Rightarrow> byte list \<Rightarrow> byte list list" where
  "walk path name = (case skipelem path name of None \<Rightarrow> []
     | Some (path, name) \<Rightarrow> cstr (of_bytes name) DIRSIZ # walk path name)"
  by pat_completeness auto
termination by (relation "measure (\<lambda>(path, name). length path)") (auto dest: skipelem_shorter)

declare walk.simps [simp del]

lemma split_slash_nonempty [simp]: "split_slash p \<noteq> []"
  by (cases p) auto

lemma split_slash_elem:
  "split_slash p = (case dropWhile (\<lambda>c. c \<noteq> slash) p of [] \<Rightarrow> [takeWhile (\<lambda>c. c \<noteq> slash) p]
     | _ # r \<Rightarrow> takeWhile (\<lambda>c. c \<noteq> slash) p # split_slash r)"
  by (induction p) (auto split: list.splits simp del: dropWhile_eq_Nil_conv)

lemma path_elems_slashes: "path_elems (dropWhile (\<lambda>c. c = slash) p) = path_elems p"
  by (induction p) (auto simp: path_elems_def)

lemma path_elems_step:
  assumes "p \<noteq> []" and "hd p \<noteq> slash"
  shows "path_elems p = takeWhile (\<lambda>c. c \<noteq> slash) p # path_elems (dropWhile (\<lambda>c. c = slash) (dropWhile (\<lambda>c. c \<noteq> slash) p))"
proof -
  have ne: "takeWhile (\<lambda>c. c \<noteq> slash) p \<noteq> []" using assms by (cases p) auto
  show ?thesis
  proof (cases "dropWhile (\<lambda>c. c \<noteq> slash) p")
    case Nil
    then have "split_slash p = [takeWhile (\<lambda>c. c \<noteq> slash) p]" using split_slash_elem [of p] by (simp only: list.case)
    then show ?thesis using ne Nil by (simp only: path_elems_def) simp
  next
    case (Cons c r)
    then have "c = slash" by (metis (mono_tags, lifting) hd_dropWhile list.distinct(1) list.sel(1))
    then show ?thesis using Cons ne split_slash_elem [of p] path_elems_slashes [of r] by (simp add: path_elems_def)
  qed
qed

lemma of_bytes_Cons [simp]: "of_bytes (a # s) 0 = a" "(\<lambda>i. of_bytes (a # s) (Suc i)) = of_bytes s"
  by (simp_all add: of_bytes_def fun_eq_iff)

lemma cstr_terminated: "0 \<notin> set s \<Longrightarrow> length s < n \<Longrightarrow> cstr (of_bytes (s @ 0 # r)) n = s"
proof (induction s arbitrary: n)
  case Nil
  then show ?case by (cases n) simp_all
next
  case (Cons a s)
  then obtain m where "n = Suc m" by (cases n) auto
  then show ?case using Cons by simp
qed

lemma cstr_full: "0 \<notin> set s \<Longrightarrow> length s \<ge> n \<Longrightarrow> cstr (of_bytes (take n s)) n = take n s"
proof (induction s arbitrary: n)
  case (Cons a s)
  show ?case
  proof (cases n)
    case (Suc m)
    then show ?thesis using Cons by simp
  qed simp
qed simp

lemma walk_elems:
  assumes "0 \<notin> set path" and "length name = DIRSIZ"
  shows "walk path name = map (take DIRSIZ) (path_elems path)"
  using assms
proof (induction path arbitrary: name rule: length_induct)
  case (1 path)
  let ?p = "dropWhile (\<lambda>c. c = slash) path"
  show ?case
  proof (cases "?p = []")
    case True
    then have "path_elems path = []" using path_elems_slashes [of path] by (simp only: path_elems_def) simp
    then show ?thesis using True by (simp add: walk.simps [of path] skipelem_def)
  next
    case False
    let ?s = "takeWhile (\<lambda>c. c \<noteq> slash) ?p"
    let ?r = "dropWhile (\<lambda>c. c = slash) (dropWhile (\<lambda>c. c \<noteq> slash) ?p)"
    let ?n = "if length ?s \<ge> DIRSIZ then take DIRSIZ ?s else ?s @ 0 # drop (length ?s + 1) name"
    have sk: "skipelem path name = Some (?r, ?n)" using False by (simp add: skipelem_def Let_def)
    have z: "0 \<notin> set ?s" "0 \<notin> set ?r" using 1(2) by (auto dest!: set_takeWhileD set_dropWhileD)
    have "length ?n = DIRSIZ" using 1(3) by simp
    with 1(1) skipelem_shorter [OF sk] z have IH: "walk ?r ?n = map (take DIRSIZ) (path_elems ?r)" by blast
    have "cstr (of_bytes ?n) DIRSIZ = take DIRSIZ ?s" using cstr_terminated [OF z(1)] cstr_full [OF z(1)] by simp
    moreover have "path_elems path = ?s # path_elems ?r"
      using path_elems_step [OF False] False hd_dropWhile [of "\<lambda>c. c = slash" path] path_elems_slashes [of path] by simp
    ultimately show ?thesis using IH by (simp add: walk.simps [of path] sk)
  qed
qed

text \<open>
  Repeated \<open>skipelem\<close> visits exactly the elements of a path, in order: the maximal runs without a slash,
  each cut at \<open>DIRSIZ\<close> bytes, whatever the number of slashes before, between and after them, and
  whatever was in the buffer before.
\<close>
theorem skipelem_elements:
  assumes "0 \<notin> set path" and "length name = DIRSIZ"
  shows "walk path name = map (take DIRSIZ) (path_elems path) \<and> (skipelem path name = None \<longleftrightarrow> path_elems path = [])"
  using walk_elems [OF assms] by (auto simp: walk.simps [of path name] split: option.splits prod.splits)

theorem skipelem_elements_witness:
  "walk [47, 47, 97, 47, 98, 98, 47] (replicate 14 1) = [[97], [98, 98]]"
  using skipelem_elements [of "[47, 47, 97, 47, 98, 98, 47]" "replicate 14 1"] by (simp add: path_elems_def DIRSIZ_def)

section \<open>Directory entries\<close>

text \<open>The entry number \<open>i\<close> of a directory, and when a look-up stops at it.\<close>

definition slot :: "blocks \<Rightarrow> inode \<Rightarrow> nat \<Rightarrow> byte list" where
  "slot B ino i = take sizeof_dirent (drop (sizeof_dirent * (i mod 32)) (B (i_dev ino, baddr B ino (i div 32))))"

definition slot_match :: "byte list \<Rightarrow> blocks \<Rightarrow> inode \<Rightarrow> nat \<Rightarrow> bool" where
  "slot_match name B ino i \<longleftrightarrow> de_match name (slot B ino i) 0"

definition slot_inum :: "blocks \<Rightarrow> inode \<Rightarrow> nat \<Rightarrow> nat" where
  "slot_inum B ino i = de_inum (slot B ino i) 0"

lemma get_le_drop: "i \<le> length d \<Longrightarrow> get_le k (drop i d) j = get_le k d (i + j)"
  by (induction k "drop i d" j rule: get_le.induct) simp_all

lemma get_le_take: "j + k \<le> n \<Longrightarrow> get_le k (take n d) j = get_le k d j"
  by (intro get_le_cong) simp

lemma entry_slot:
  assumes "length d = BSIZE" and "j < 32"
  defines "e \<equiv> take sizeof_dirent (drop (sizeof_dirent * j) d)"
  shows "de_inum d j = de_inum e 0" "de_match name d j = de_match name e 0"
proof -
  show i: "de_inum d j = de_inum e 0"
    using assms(1,2) by (simp add: de_inum_def e_def sizeof_dirent_def get_le_take get_le_drop BSIZE_def)
  have "de_name d j = de_name e 0"
    by (simp add: de_name_def e_def sizeof_dirent_def DIRSIZ_def drop_take add.commute)
  then show "de_match name d j = de_match name e 0" by (simp add: de_match_def i)
qed

lemma slot_block:
  assumes "bsized B" and "j < 32" and "d = B (i_dev ino, baddr B ino k)"
  shows "de_match name d j = slot_match name B ino (32 * k + j)" "de_inum d j = slot_inum B ino (32 * k + j)"
proof -
  have "length d = BSIZE" using assms(1,3) by (simp add: bsizedD)
  from entry_slot [OF this assms(2)] assms(2,3)
  show "de_match name d j = slot_match name B ino (32 * k + j)" "de_inum d j = slot_inum B ino (32 * k + j)"
    by (simp_all add: slot_match_def slot_inum_def slot_def)
qed

lemma slot_nth:
  assumes "bsized B"
  shows "length (slot B ino i) = sizeof_dirent"
    and "q < sizeof_dirent \<Longrightarrow> slot B ino i ! q = fbyte B ino (sizeof_dirent * i + q)"
proof -
  have l: "length (B k) = BSIZE" for k using bsizedD [OF assms] .
  have m: "i mod 32 < 32" by simp
  show "length (slot B ino i) = sizeof_dirent" using l m by (simp add: slot_def sizeof_dirent_def BSIZE_def)
  assume q: "q < sizeof_dirent"
  have "sizeof_dirent * i + q = BSIZE * (i div 32) + (sizeof_dirent * (i mod 32) + q)"
    unfolding sizeof_dirent_def BSIZE_def using div_mult_mod_eq [of i 32] by linarith
  moreover have "sizeof_dirent * (i mod 32) + q < BSIZE" using q m by (simp add: sizeof_dirent_def BSIZE_def)
  moreover have "(BSIZE * a + r) div BSIZE = a" "(BSIZE * a + r) mod BSIZE = r" if "r < BSIZE" for a r using that by simp_all
  ultimately have "(sizeof_dirent * i + q) div BSIZE = i div 32" "(sizeof_dirent * i + q) mod BSIZE = sizeof_dirent * (i mod 32) + q"
    by (simp_all only:)
  then show "slot B ino i ! q = fbyte B ino (sizeof_dirent * i + q)"
    using q l m by (simp add: slot_def fbyte_def sizeof_dirent_def BSIZE_def)
qed

definition nblocks :: "nat \<Rightarrow> nat" where
  "nblocks sz = (sz + BSIZE - 1) div BSIZE"

lemma nblocks_less: "BSIZE * k < sz \<longleftrightarrow> k < nblocks sz"
  by (simp add: nblocks_def BSIZE_def less_eq_div_iff_mult_less_eq flip: Suc_le_eq) linarith

lemma find_slots:
  assumes "bsized B" and "k < nb" and "d = B (i_dev ino, baddr B ino k)"
  shows "find (slot_match name B ino) [32 * k..<32 * nb] =
    (case find (de_match name d) [0..<32] of Some j \<Rightarrow> Some (32 * k + j) | None \<Rightarrow> find (slot_match name B ino) [32 * (k + 1)..<32 * nb])"
proof -
  have "find (slot_match name B ino) [32 * k..<32 * k + 32] = map_option ((+) (32 * k)) (find (de_match name d) [0..<32])"
    using slot_block [OF assms(1) _ assms(3)] by (intro find_shift) simp
  moreover have "[32 * k..<32 * nb] = [32 * k..<32 * k + 32] @ [32 * (k + 1)..<32 * nb]"
    using assms(2) upt_add_eq_append [of "32 * k" "32 * k + 32" "32 * nb - 32 * (k + 1)"] by (simp add: add.commute)
  ultimately show ?thesis by (simp add: find_append split: option.split)
qed

lemma dirlookup_loop_spec:
  assumes "file_open dp s" and "sz = i_size (icache s dp)"
  shows "\<exists>t. becomes s (sectors s) (icache s) t \<and> dirlookup_loop dp name sz (BSIZE * k) s =
    (case find (slot_match name (sectors s) (icache s dp)) [32 * k..<32 * nblocks sz] of
       None \<Rightarrow> Ok (None, t)
     | Some i \<Rightarrow> kbind (iget (i_dev (icache s dp)) (slot_inum (sectors s) (icache s dp) i) t)
                  (\<lambda>(ip, s). Ok (Some (ip, sizeof_dirent * i), s)))"
  using assms
proof (induction "nblocks sz - k" arbitrary: k s rule: less_induct)
  case less
  let ?B = "sectors s" and ?i = "icache s dp"
  have st: "file_state dp s" "no_holes ?B ?i" using less.prems(1) by (simp_all add: file_open_def Let_def)
  have inv: "bc_inv s" and bs: "bsized ?B" using st(1) by (simp_all add: file_state_def disk_room_def fs_ok_def)
  show ?case
  proof (cases "k < nblocks sz")
    case False
    then have "\<not> BSIZE * k < sz" by (simp add: nblocks_less)
    then show ?thesis using False becomes_refl [OF inv] by (intro exI [of _ s]) (simp add: dirlookup_loop.simps)
  next
    case True
    then have lt: "BSIZE * k < sz" by (simp add: nblocks_less)
    have kb: "k < MAXFILE" "baddr ?B ?i k \<noteq> 0"
    proof -
      have "baddr ?B ?i (BSIZE * k div BSIZE) \<noteq> 0" using st(2) lt less.prems(2) unfolding no_holes_def by blast
      moreover have "BSIZE * k < MAXFILE * BSIZE" using st(2) lt less.prems(2) unfolding no_holes_def by linarith
      ultimately show "k < MAXFILE" "baddr ?B ?i k \<noteq> 0" by (simp_all add: BSIZE_def)
    qed
    from bmap_file [OF st(1) kb(1)] kb(2) obtain t where
      t: "bmap dp k s = Ok (baddr ?B ?i k, t)" "becomes s ?B (icache s) t" "file_state dp t" by auto
    note tD = becomesD [OF t(2)]
    have "addr_ok (i_dev ?i) ?B (baddr ?B ?i k)" using st(1) kb by (simp add: file_state_def file_ok_def)
    then have room: "bc.room t (i_dev ?i, baddr ?B ?i k)"
      using t(3) disk_room_room [of "i_dev ?i" t] by (simp add: file_state_def addr_ok_def tD)
    let ?K = "\<lambda>d s. case find (de_match name d) [0..<BSIZE div sizeof_dirent] of
              Some i \<Rightarrow> kbind (iget (i_dev (icache s dp)) (de_inum d i) s) (\<lambda>(ip, s).
                          Ok (Some (ip, BSIZE * k + sizeof_dirent * i), s))
            | None \<Rightarrow> dirlookup_loop dp name sz (BSIZE * k + BSIZE) s"
    let ?d = "?B (i_dev ?i, baddr ?B ?i k)"
    from bc.with_block [OF room, of ?K] obtain u where
      u: "bc.same_but t ?B u" "kbind (bread (i_dev ?i) (baddr ?B ?i k) t) (\<lambda>(h, s). kbind (brelse h s) (?K (buf_data s h))) = ?K ?d u"
      unfolding tD by auto
    have ub: "becomes s ?B (icache s) u" using becomes_trans [OF t(2) becomes_same_but [OF u(1)]] by (simp add: tD)
    note uD = becomesD [OF ub]
    have fu: "file_open dp u" by (rule file_open_becomes [OF less.prems(1) ub])
    have dv: "BSIZE * k div BSIZE = k" by (simp add: BSIZE_def)
    have eq: "dirlookup_loop dp name sz (BSIZE * k) s = ?K ?d u"
      using lt t(1) u(2) dv by (simp add: dirlookup_loop.simps [of dp name sz "BSIZE * k" s] tD Let_def)
    have b32: "BSIZE div sizeof_dirent = 32" by (simp add: BSIZE_def sizeof_dirent_def)
    note fs = find_slots [OF bs True refl, of name ?i]
    show ?thesis
    proof (cases "find (de_match name ?d) [0..<32]")
      case None
      have "nblocks sz - (k + 1) < nblocks sz - k" using True by simp
      from less.hyps [OF this fu, unfolded uD, OF less.prems(2)] obtain v where
        v: "becomes u ?B (icache s) v" "dirlookup_loop dp name sz (BSIZE * (k + 1)) u =
          (case find (slot_match name ?B ?i) [32 * (k + 1)..<32 * nblocks sz] of None \<Rightarrow> Ok (None, v)
           | Some i \<Rightarrow> kbind (iget (i_dev ?i) (slot_inum ?B ?i i) v) (\<lambda>(ip, s). Ok (Some (ip, sizeof_dirent * i), s)))"
        by blast
      have "BSIZE * k + BSIZE = BSIZE * (k + 1)" by simp
      then have "dirlookup_loop dp name sz (BSIZE * k) s = dirlookup_loop dp name sz (BSIZE * (k + 1)) u"
        unfolding eq b32 None by (simp add: add.commute)
      then show ?thesis using becomes_trans [OF ub v(1)] v(2) fs None by auto
    next
      case (Some j)
      then have "j < 32" using find_SomeD by fastforce
      then have "de_inum ?d j = slot_inum ?B ?i (32 * k + j)" by (rule slot_block(2) [OF bs _ refl])
      moreover have "BSIZE * k + sizeof_dirent * j = sizeof_dirent * (32 * k + j)" by (simp add: BSIZE_def sizeof_dirent_def)
      ultimately show ?thesis using ub fs Some unfolding eq b32 by (auto simp: uD)
    qed
  qed
qed

lemma dirlink_slot_spec:
  assumes "file_open dp s" and "i_type (icache s dp) \<noteq> T_DEV" and "i_size (icache s dp) = sizeof_dirent * n" and "j \<le> n"
  shows "\<exists>t i. i \<le> n \<and> dirlink_slot dp (sizeof_dirent * n) (sizeof_dirent * j) s = Ok (sizeof_dirent * i, t) \<and>
    becomes s (sectors s) (icache s) t"
  using assms
proof (induction "n - j" arbitrary: j s rule: less_induct)
  case less
  have inv: "bc_inv s" using less.prems(1) by (simp add: file_open_def Let_def file_state_def disk_room_def)
  have sz: "i_size (icache s dp) \<le> MAXFILE * BSIZE" using less.prems(1) by (simp add: file_open_def Let_def no_holes_def)
  show ?case
  proof (cases "j < n")
    case False
    then show ?thesis using becomes_refl [OF inv] less.prems(4)
      by (intro exI [of _ s] exI [of _ j]) (simp add: dirlink_slot.simps sizeof_dirent_def)
  next
    case True
    let ?o = "sizeof_dirent * j"
    have o: "?o \<le> i_size (icache s dp)" "?o + sizeof_dirent < 2 ^ 32" "min sizeof_dirent (i_size (icache s dp) - ?o) = sizeof_dirent"
      using True sz unfolding less.prems(3) by (simp_all add: sizeof_dirent_def MAXFILE_def NDIRECT_def NINDIRECT_def BSIZE_def)
    from readi_file [OF less.prems(1,2) o(1,2)] o(3) obtain d t where
      t: "readi dp ?o sizeof_dirent s = Ok (int sizeof_dirent, d, t)" "file_open dp t" "sectors t = sectors s" "icache t = icache s"
        "becomes s (sectors s) (icache s) t" by auto
    have lt: "?o < sizeof_dirent * n" using True by (simp add: sizeof_dirent_def)
    show ?thesis
    proof (cases "de_inum d 0 = 0")
      case True
      then have "dirlink_slot dp (sizeof_dirent * n) ?o s = Ok (?o, t)"
        using t(1) lt by (simp add: dirlink_slot.simps [of dp "sizeof_dirent * n"])
      then show ?thesis using t(5) less.prems(4) by blast
    next
      case False
      then have "dirlink_slot dp (sizeof_dirent * n) ?o s = dirlink_slot dp (sizeof_dirent * n) (?o + sizeof_dirent) t"
        using t(1) lt by (simp add: dirlink_slot.simps [of dp "sizeof_dirent * n" ?o])
      moreover have "?o + sizeof_dirent = sizeof_dirent * (j + 1)" by simp
      moreover have "\<exists>u i. i \<le> n \<and> dirlink_slot dp (sizeof_dirent * n) (sizeof_dirent * (j + 1)) t = Ok (sizeof_dirent * i, u) \<and>
          becomes t (sectors t) (icache t) u"
        using True less.prems(2,3) t(2,4) by (intro less.hyps) auto
      ultimately show ?thesis using becomes_trans [OF t(5)] t(3,4) by (metis (no_types))
    qed
  qed
qed

lemma length_dirent: "length (dirent inum name) = sizeof_dirent"
  by (simp add: dirent_def name_field_def sizeof_dirent_def DIRSIZ_def Let_def)

lemma dirent_match:
  assumes "0 < inum" and "inum < 2 ^ 16"
  shows "de_match name (dirent inum name) 0" "de_inum (dirent inum name) 0 = inum"
proof -
  have "get_le 2 (put_le 2 inum [0, 0] 0 @ name_field name) 0 = get_le 2 (put_le 2 inum [0, 0] 0) 0"
    by (intro get_le_cong) (simp add: nth_append)
  also have "\<dots> = inum" using assms by (subst get_put_le) simp_all
  finally show i: "de_inum (dirent inum name) 0 = inum" by (simp add: de_inum_def dirent_def)
  have "de_name (dirent inum name) 0 = name_field name"
    by (simp add: de_name_def dirent_def name_field_def Let_def DIRSIZ_def)
  moreover have "cstr (of_bytes (name_field name)) DIRSIZ = cstr (of_bytes name) DIRSIZ"
  proof -
    let ?b = "length name + DIRSIZ" and ?m = "of_bytes name"
    have "cstr (of_bytes (name_field name)) DIRSIZ = cstr (at (strncpy ?m ?b 0 DIRSIZ) ?b) DIRSIZ"
      by (intro cstr_cong) (simp add: of_bytes_def name_field_def Let_def at_def)
    also have "\<dots> = cstr (at ?m 0) DIRSIZ" by (intro cstr_strncpy) simp
    also have "at ?m 0 = ?m" by (simp add: at_def fun_eq_iff)
    finally show ?thesis .
  qed
  ultimately show "de_match name (dirent inum name) 0" using assms i by (simp add: de_match_def namecmp_def strncmp_zero)
qed

text \<open>Entries before the written one are as they were.\<close>

lemma slot_kept:
  assumes "\<And>p. p < sizeof_dirent * n \<Longrightarrow> fbyte B' ino' p = fbyte B ino p" and "bsized B" and "bsized B'" and "i < n"
  shows "slot B' ino' i = slot B ino i"
proof (rule nth_equalityI)
  show "length (slot B' ino' i) = length (slot B ino i)" using assms(2,3) by (simp add: slot_nth)
  fix q assume "q < length (slot B' ino' i)"
  then have q: "q < sizeof_dirent" using assms(3) by (simp add: slot_nth)
  moreover have "sizeof_dirent * i + q < sizeof_dirent * n" using q assms(4) mult_le_mono2 [of "i + 1" n sizeof_dirent] by simp
  ultimately show "slot B' ino' i ! q = slot B ino i ! q" using assms(1-3) by (simp add: slot_nth)
qed

lemma iget_result: "iget d n s = Panic ''iget: no inodes'' \<or>
  (\<exists>ip t. iget d n s = Ok (ip, t) \<and> i_dev (icache t ip) = d \<and> i_inum (icache t ip) = n)"
proof (cases "iget d n s")
  case (Ok r)
  obtain ip t where "r = (ip, t)" by (cases r)
  with Ok have "iget d n s = Ok (ip, t)" by simp
  from this iget_cases [OF this] show ?thesis by (fastforce simp: ident_def fun_upd_def fun_eq_iff split: if_splits)
qed (auto simp: iget_def split: prod.splits option.splits)

lemma find_first: "i < n \<Longrightarrow> P i \<Longrightarrow> \<forall>j < i. \<not> P j \<Longrightarrow> find P [0..<n] = Some i"
  by (subst find_Some_iff) (auto intro!: exI [of _ i])

lemma dirlookup_slots:
  assumes "file_open dp s" and "i_type (icache s dp) = T_DIR"
  shows "\<exists>t. becomes s (sectors s) (icache s) t \<and> dirlookup dp name s =
    (case find (slot_match name (sectors s) (icache s dp)) [0..<32 * nblocks (i_size (icache s dp))] of
       None \<Rightarrow> Ok (None, t)
     | Some i \<Rightarrow> kbind (iget (i_dev (icache s dp)) (slot_inum (sectors s) (icache s dp) i) t)
                  (\<lambda>(ip, s). Ok (Some (ip, sizeof_dirent * i), s)))"
  using dirlookup_loop_spec [OF assms(1) refl, of name 0] assms(2) by (simp add: dirlookup_def)

lemma slot_in_blocks: "sizeof_dirent * i < sz \<Longrightarrow> i < 32 * nblocks sz"
proof -
  assume "sizeof_dirent * i < sz"
  then have "BSIZE * (i div 32) < sz" using div_mult_mod_eq [of i 32] by (simp add: sizeof_dirent_def BSIZE_def)
  then have "i div 32 < nblocks sz" by (simp add: nblocks_less)
  then show "i < 32 * nblocks sz" by (simp add: div_less_iff_less_mult mult.commute)
qed

text \<open>The new entry is the first one that matches.\<close>

lemma dirlink_found:
  assumes "file_open dp s" and "i_type (icache s dp) = T_DIR" and "i_size (icache s dp) = sizeof_dirent * n"
    and "sizeof_dirent * (n + 1) \<le> MAXFILE * BSIZE" and "0 < inum" and "inum < 2 ^ 16" and "i \<le> n"
    and none: "find (slot_match name (sectors s) (icache s dp)) [0..<32 * nblocks (sizeof_dirent * n)] = None"
    and w: "writei dp (dirent inum name) (sizeof_dirent * i) s = Ok (r, t)"
  shows "file_open dp t \<and> i_type (icache t dp) = T_DIR \<and> i_dev (icache t dp) = i_dev (icache s dp) \<and>
    find (slot_match name (sectors t) (icache t dp)) [0..<32 * nblocks (i_size (icache t dp))] = Some i \<and>
    slot_inum (sectors t) (icache t dp) i = inum"
proof -
  let ?B = "sectors s" and ?i = "icache s dp" and ?o = "sizeof_dirent * i"
  have nd: "i_type ?i \<noteq> T_DEV" using assms(2) by (simp add: T_DIR_def T_DEV_def)
  have le: "?o \<le> i_size ?i" "?o + sizeof_dirent \<le> MAXFILE * BSIZE"
    using assms(4) mult_le_mono2 [OF assms(7), of sizeof_dirent] unfolding assms(3) distrib_left by linarith+
  from writei_file [OF assms(1) nd le(1), of "dirent inum name"] le(2) w obtain B ino where
    b: "file_open dp t" "wrote ?o (dirent inum name) ?B ?i B ino"
      "icache t dp = ino\<lparr>i_size := max (i_size ?i) (?o + sizeof_dirent)\<rparr>"
      "\<forall>bn < MAXFILE. baddr (sectors t) ino bn = baddr B ino bn \<and>
        (baddr B ino bn \<noteq> 0 \<longrightarrow> sectors t (i_dev ino, baddr B ino bn) = B (i_dev ino, baddr B ino bn))"
    by (auto simp: length_dirent)
  note wD = wroteD [OF b(2), unfolded length_dirent]
  have ok: "no_holes ?B ?i" "bsized ?B" "bsized (sectors t)" using assms(1) b(1) by (simp_all add: file_open_def file_state_def fs_ok_def Let_def)
  have tt: "i_type (icache t dp) = T_DIR" using b(3) wD(3) assms(2) by (metis inode.select_convs(6) inode.surjective inode.update_convs(10) inode.update_convs(11))
  have fb: "fbyte (sectors t) (icache t dp) p = fbyte B ino p" if "p < MAXFILE * BSIZE" "baddr B ino (p div BSIZE) \<noteq> 0" for p
    using b(3,4) block_less [OF that(1)] that(2) by (auto simp: fbyte_def)
  have new: "slot (sectors t) (icache t dp) i = dirent inum name"
  proof (rule nth_equalityI)
    fix q assume "q < length (slot (sectors t) (icache t dp) i)"
    then have q: "q < sizeof_dirent" using ok(3) by (simp add: slot_nth)
    show "slot (sectors t) (icache t dp) i ! q = dirent inum name ! q"
      using wD(10) [of "?o + q"] fb [of "?o + q"] q le(2) ok(3) by (simp add: slot_nth)
  qed (use ok(3) in \<open>simp add: slot_nth length_dirent\<close>)
  have old: "slot (sectors t) (icache t dp) j = slot ?B ?i j" if "j < i" for j
  proof (rule slot_kept [OF _ ok(2,3) that])
    fix p assume p: "p < ?o"
    then have "p < i_size ?i" "p < MAXFILE * BSIZE" using le by linarith+
    moreover from this have "baddr ?B ?i (p div BSIZE) \<noteq> 0" using ok(1) by (simp add: no_holes_def)
    ultimately show "fbyte (sectors t) (icache t dp) p = fbyte ?B ?i p"
      using fb [of p] wD(9) [OF block_less] wD(11) [of p] p by simp
  qed
  have "\<not> slot_match name (sectors t) (icache t dp) j" if "j < i" for j
  proof -
    have "sizeof_dirent * j < sizeof_dirent * n" using that assms(7) by (simp add: sizeof_dirent_def)
    then have "j < 32 * nblocks (sizeof_dirent * n)" by (rule slot_in_blocks)
    with find_NoneD [OF none, of j] show ?thesis by (simp add: slot_match_def old [OF that])
  qed
  moreover have "?o < i_size (icache t dp)" using b(3) by (simp add: sizeof_dirent_def)
  then have "i < 32 * nblocks (i_size (icache t dp))" by (rule slot_in_blocks)
  moreover have "slot_match name (sectors t) (icache t dp) i" "slot_inum (sectors t) (icache t dp) i = inum"
    using dirent_match [OF assms(5,6), of name] by (simp_all add: slot_match_def slot_inum_def new)
  ultimately show ?thesis using b(1,3) tt wD(4) find_first by simp
qed

text \<open>
  C9. Linking a name into a directory makes it findable: when \<open>dirlink\<close> of a name and an inode number succeeds,
  \<open>dirlookup\<close> of that name then returns a reference to exactly that inode of the same device, whichever free
  entry (or new block) was used; the only way it can fail is a full inode table.
\<close>
theorem dirlink_dirlookup:
  assumes "file_open dp s" and "i_type (icache s dp) = T_DIR" and "i_size (icache s dp) = sizeof_dirent * n"
    and "sizeof_dirent * (n + 1) \<le> MAXFILE * BSIZE" and "0 < inum" and "inum < 2 ^ 16"
    and "dirlink dp name inum s = Ok (0, t)"
  shows "file_open dp t \<and> (dirlookup dp name t = Panic ''iget: no inodes'' \<or>
    (\<exists>ip off u. dirlookup dp name t = Ok (Some (ip, off), u) \<and> i_dev (icache u ip) = i_dev (icache s dp) \<and> i_inum (icache u ip) = inum))"
proof -
  from dirlookup_slots [OF assms(1,2), of name] obtain s1 where
    s1: "becomes s (sectors s) (icache s) s1" "dirlookup dp name s =
    (case find (slot_match name (sectors s) (icache s dp)) [0..<32 * nblocks (i_size (icache s dp))] of
       None \<Rightarrow> Ok (None, s1)
     | Some i \<Rightarrow> kbind (iget (i_dev (icache s dp)) (slot_inum (sectors s) (icache s dp) i) s1)
                  (\<lambda>(ip, s). Ok (Some (ip, sizeof_dirent * i), s)))" by blast
  note D1 = becomesD [OF s1(1)] and o1 = file_open_becomes [OF assms(1) s1(1)]
  have none: "find (slot_match name (sectors s) (icache s dp)) [0..<32 * nblocks (i_size (icache s dp))] = None"
    using assms(7) s1(2) by (auto simp: dirlink_def kbind_Ok split: option.splits)
  have "i_type (icache s1 dp) \<noteq> T_DEV" using assms(2) by (simp add: D1 T_DIR_def T_DEV_def)
  from dirlink_slot_spec [OF o1 this, of n 0] assms(3) obtain s2 i where
    s2: "i \<le> n" "dirlink_slot dp (sizeof_dirent * n) 0 s1 = Ok (sizeof_dirent * i, s2)" "becomes s1 (sectors s) (icache s) s2" by (auto simp: D1)
  note D2 = becomesD [OF s2(3)]
  have o2: "file_open dp s2" using s2(3) o1 by (intro file_open_becomes [OF o1]) (simp add: D1)
  from assms(7) s1(2) none s2(2) assms(3) obtain r where w: "writei dp (dirent inum name) (sizeof_dirent * i) s2 = Ok (r, t)"
    by (auto simp: dirlink_def kbind_Ok D1 split: if_splits)
  have f: "file_open dp t \<and> i_type (icache t dp) = T_DIR \<and> i_dev (icache t dp) = i_dev (icache s2 dp) \<and>
    find (slot_match name (sectors t) (icache t dp)) [0..<32 * nblocks (i_size (icache t dp))] = Some i \<and>
    slot_inum (sectors t) (icache t dp) i = inum"
    using assms(2-6) s2(1) none by (intro dirlink_found [OF o2 _ _ _ _ _ _ _ w]) (simp_all add: D2)
  with dirlookup_slots [of dp t name] obtain u where
    "dirlookup dp name t = kbind (iget (i_dev (icache s dp)) inum u) (\<lambda>(ip, s). Ok (Some (ip, sizeof_dirent * i), s))"
    by (auto simp: D2)
  with f iget_result [of "i_dev (icache s dp)" inum u] show ?thesis by auto
qed

text \<open>A directory with one entry, the name \<open>[3]\<close> for inode 513, to which the name \<open>a\<close> is added.\<close>

definition small_dir :: fsys where
  "small_dir = small_fs\<lparr>icache := (icache small_fs)(0 := small_inode\<lparr>i_type := T_DIR, i_size := 16\<rparr>)\<rparr>"

lemma small_dir_sel: "sectors small_dir = small_blocks" "icache small_dir 0 = small_inode\<lparr>i_type := T_DIR, i_size := 16\<rparr>"
  by (simp_all add: small_dir_def small_fs_sel)

lemma small_dir_open: "file_open 0 small_dir"
  unfolding small_dir_def by (rule small_open) simp_all

lemma small_dir_link: "\<exists>t. dirlink 0 [97] 7 small_dir = Ok (0, t)"
proof -
  let ?i = "icache small_dir 0" and ?B = "sectors small_dir"
  have d: "i_type ?i = T_DIR" "i_type ?i \<noteq> T_DEV" "i_size ?i = sizeof_dirent * 1"
    by (simp_all add: small_dir_sel T_DIR_def T_DEV_def sizeof_dirent_def)
  have blk: "?B (i_dev ?i, baddr ?B ?i 0) = [1, 2, 3] @ replicate 509 0"
    using small_baddr [of 0] by (simp add: small_dir_sel baddr_def small_inode_def small_blocks_def MAXFILE_def NDIRECT_def)
  have none: "find (slot_match [97] ?B ?i) [0..<32 * nblocks (i_size ?i)] = None"
  proof -
    have "\<not> slot_match [97] ?B ?i j" if "j < 32" for j
    proof -
      have "slot ?B ?i j = take 16 (drop (16 * j) ([1, 2, 3] @ replicate 509 0))" using that blk by (simp add: slot_def sizeof_dirent_def)
      also have "\<dots> = (if j = 0 then [1, 2, 3] @ replicate 13 0 else replicate 16 0)"
        using that by (auto simp: drop_Cons' min_def)
      finally have sl: "slot ?B ?i j = (if j = 0 then [1, 2, 3] @ replicate 13 0 else replicate 16 0)" .
      have "namecmp [97] (3 # r) \<noteq> 0" for r
      proof -
        have d: "DIRSIZ = Suc 13" by (simp add: DIRSIZ_def)
        show ?thesis unfolding namecmp_def d strncmp.simps by simp
      qed
      then show ?thesis using get_le_zero [of 0 2 16] sl
        by (cases "j = 0") (simp_all add: slot_match_def de_match_def de_inum_def de_name_def DIRSIZ_def)
    qed
    then show ?thesis by (simp add: nblocks_def small_dir_sel BSIZE_def find_None_iff)
  qed
  from dirlookup_slots [OF small_dir_open d(1), of "[97]"] none obtain s1 where
    s1: "becomes small_dir ?B (icache small_dir) s1" "dirlookup 0 [97] small_dir = Ok (None, s1)" by auto
  note D1 = becomesD [OF s1(1)] and o1 = file_open_becomes [OF small_dir_open s1(1)]
  from dirlink_slot_spec [OF o1, of 1 0] d obtain s2 i where
    s2: "i \<le> 1" "dirlink_slot 0 (sizeof_dirent * 1) 0 s1 = Ok (sizeof_dirent * i, s2)" "becomes s1 ?B (icache small_dir) s2" by (auto simp: D1)
  note D2 = becomesD [OF s2(3)]
  have o2: "file_open 0 s2" using s2(3) o1 by (intro file_open_becomes [OF o1]) (simp add: D1)
  have "blocks_needed (sizeof_dirent * i) sizeof_dirent ?B ?i = 0"
  proof -
    have "baddr ?B ?i (p div BSIZE) = 5" if "p < 32" for p
      using that small_baddr [of "p div BSIZE"] by (simp add: small_dir_sel baddr_def small_inode_def BSIZE_def MAXFILE_def NDIRECT_def)
    then show ?thesis using s2(1) by (auto simp: blocks_needed_zero sizeof_dirent_def)
  qed
  moreover have "sizeof_dirent * i + length (dirent 7 [97]) \<le> MAXFILE * BSIZE"
    using s2(1) by (simp add: length_dirent sizeof_dirent_def MAXFILE_def NDIRECT_def NINDIRECT_def BSIZE_def)
  moreover have "sizeof_dirent * i \<le> i_size (icache s2 0)" using s2(1) d(3) by (simp add: D2)
  ultimately obtain t where "writei 0 (dirent 7 [97]) (sizeof_dirent * i) s2 = Ok (int sizeof_dirent, t)"
    using writei_file [OF o2, of "sizeof_dirent * i" "dirent 7 [97]"] d(2) by (auto simp: D2 length_dirent)
  then show ?thesis using s1(2) s2(2) d(3) by (simp add: dirlink_def D1)
qed

theorem dirlink_dirlookup_witness:
  "\<exists>t. dirlink 0 [97] 7 small_dir = Ok (0, t) \<and> (dirlookup 0 [97] t = Panic ''iget: no inodes'' \<or>
    (\<exists>ip off u. dirlookup 0 [97] t = Ok (Some (ip, off), u) \<and> i_inum (icache u ip) = 7))"
proof -
  from small_dir_link obtain t where t: "dirlink 0 [97] 7 small_dir = Ok (0, t)" by blast
  show ?thesis using dirlink_dirlookup [OF small_dir_open _ _ _ _ _ t, of 1] t
    by (auto simp: small_dir_sel sizeof_dirent_def MAXFILE_def NDIRECT_def NINDIRECT_def BSIZE_def)
qed

end
