(* ===== verification/Fs_Frame.thy ===== *)
theory Fs_Frame
  imports Fs_Path
begin

text \<open>
  The file system operations do not touch the state that extends the file system's record: the collection \<open>fs_frames\<close>. The kernel's
  other components keep their state there.
\<close>

named_theorems fs_frames \<open>operations that keep the state outside the file system\<close>

lemma more_fsys: "bcache.more t = bcache.more s \<Longrightarrow> fsys.more t = fsys.more s" for s t :: "'a fsys_scheme"
  by (cases s; cases t) simp

lemmas [fs_frames] = frames [THEN more_fsys]

lemma fsys_more_upd [simp]: "fsys.more (upd_inode ip f s) = fsys.more s"
  by (simp add: upd_inode_def)

lemma fsys_more_set_addr [simp]: "fsys.more (set_addr ip n a s) = fsys.more s"
  by (simp add: set_addr_def)

lemma fsys_more_set_data [simp]: "fsys.more (set_data b x s) = fsys.more s"
  by (rule more_fsys) simp

lemma idup_frame [simp]: "fsys.more (snd (idup ip s)) = fsys.more s" "fst (idup ip s) = ip"
  by (simp_all add: idup_def)

lemma iget_frame [fs_frames]: "iget d n s = Ok (ip, s') \<Longrightarrow> fsys.more s' = fsys.more s"
  by (auto simp: iget_def split: prod.splits option.splits)

lemma iupdate_frame [fs_frames]: "iupdate ip s = Ok s' \<Longrightarrow> fsys.more s' = fsys.more s"
  by (auto simp: iupdate_def Let_def kbind_Ok fs_frames)

lemma ialloc_loop_frame [fs_frames]: "ialloc_loop dev ty ni inum s = Ok (ip, s') \<Longrightarrow> fsys.more s' = fsys.more s"
proof (induction "ni - inum" arbitrary: inum s rule: less_induct)
  case less
  from less.prems obtain bp s1 where r: "inum < ni" "bread dev (IBLOCK inum) s = Ok (bp, s1)"
    unfolding ialloc_loop.simps [of dev ty ni inum s] by (auto simp: kbind_Ok split: if_splits)
  show ?case
  proof (cases "di_type (buf_data s1 bp) (dinode_off inum) = 0")
    case True
    with less.prems r show ?thesis unfolding ialloc_loop.simps [of dev ty ni inum s] by (auto simp: kbind_Ok Let_def fs_frames)
  next
    case False
    with less.prems r obtain s2 where "brelse bp s1 = Ok s2" "ialloc_loop dev ty ni (inum + 1) s2 = Ok (ip, s')"
      unfolding ialloc_loop.simps [of dev ty ni inum s] by (auto simp: kbind_Ok Let_def)
    with less.hyps [of "inum + 1" s2] r show ?thesis by (simp add: fs_frames)
  qed
qed

lemma ialloc_frame [fs_frames]: "ialloc dev ty s = Ok (ip, s') \<Longrightarrow> fsys.more s' = fsys.more s"
  by (auto simp: ialloc_def kbind_Ok fs_frames)

lemma ilock_frame [fs_frames]: "ilock ip s = Ok s' \<Longrightarrow> fsys.more s' = fsys.more s"
  by (auto simp: ilock_def Let_def kbind_Ok fs_frames load_inode_def split: if_splits)

lemma iunlock_frame [fs_frames]: "iunlock ip s = Ok s' \<Longrightarrow> fsys.more s' = fsys.more s"
  by (auto simp: iunlock_def split: if_splits)

lemma bmap_indirect_frame [fs_frames]: "bmap_indirect dev x n s = Ok (a, s') \<Longrightarrow> fsys.more s' = fsys.more s"
  by (auto simp: bmap_indirect_def Let_def kbind_Ok fs_frames split: if_splits)

lemma bmap_frame [fs_frames]: "bmap ip bn s = Ok (a, s') \<Longrightarrow> fsys.more s' = fsys.more s"
  by (auto simp: bmap_def Let_def kbind_Ok fs_frames split: if_splits)

lemma itrunc_direct_frame [fs_frames]: "itrunc_direct ip is s = Ok s' \<Longrightarrow> fsys.more s' = fsys.more s"
  by (induction ip "is" s rule: itrunc_direct.induct) (auto simp: kbind_Ok fs_frames split: if_splits)

lemma itrunc_indirect_frame [fs_frames]: "itrunc_indirect d bp js s = Ok s' \<Longrightarrow> fsys.more s' = fsys.more s"
  by (induction d bp js s rule: itrunc_indirect.induct) (auto simp: kbind_Ok fs_frames split: if_splits)

lemma itrunc_frame [fs_frames]: "itrunc ip s = Ok s' \<Longrightarrow> fsys.more s' = fsys.more s"
  by (auto simp: itrunc_def Let_def kbind_Ok fs_frames split: if_splits)

lemma iput_frame [fs_frames]: "iput ip s = Ok s' \<Longrightarrow> fsys.more s' = fsys.more s"
  unfolding iput_def by (fastforce simp: kbind_Ok fs_frames split: if_split_asm)

lemma iunlockput_frame [fs_frames]: "iunlockput ip s = Ok s' \<Longrightarrow> fsys.more s' = fsys.more s"
  by (auto simp: iunlockput_def kbind_Ok fs_frames)

lemma readi_loop_frame [fs_frames]: "readi_loop ip off n s = Ok (d, s') \<Longrightarrow> fsys.more s' = fsys.more s"
proof (induction n arbitrary: off s d rule: less_induct)
  case (less n)
  show ?case
  proof (cases "n = 0")
    case True
    with less.prems show ?thesis by (simp add: readi_loop.simps)
  next
    case False
    with less.prems obtain a s1 bp s2 s3 r where
      "bmap ip (off div BSIZE) s = Ok (a, s1)" "bread (i_dev (icache s1 ip)) a s1 = Ok (bp, s2)" "brelse bp s2 = Ok s3"
      "readi_loop ip (off + chunk off n) (n - chunk off n) s3 = Ok (r, s')"
      unfolding readi_loop.simps [of ip off n s] by (auto simp: kbind_Ok Let_def)
    then show ?thesis using less.IH [of "n - chunk off n"] False by (simp add: chunk_pos fs_frames)
  qed
qed

lemma writei_loop_frame [fs_frames]: "writei_loop ip src off n s = Ok s' \<Longrightarrow> fsys.more s' = fsys.more s"
proof (induction n arbitrary: src off s rule: less_induct)
  case (less n)
  show ?case
  proof (cases "n = 0")
    case True
    with less.prems show ?thesis by (simp add: writei_loop.simps)
  next
    case False
    with less.prems obtain a s1 bp s2 x s3 s4 where
      "bmap ip (off div BSIZE) s = Ok (a, s1)" "bread (i_dev (icache s1 ip)) a s1 = Ok (bp, s2)"
      "bwrite bp (set_data bp x s2) = Ok s3" "brelse bp s3 = Ok s4"
      "writei_loop ip (drop (chunk off n) src) (off + chunk off n) (n - chunk off n) s4 = Ok s'"
      unfolding writei_loop.simps [of ip src off n s] by (auto simp: kbind_Ok Let_def)
    then show ?thesis using less.IH [of "n - chunk off n"] False by (simp add: chunk_pos fs_frames)
  qed
qed

lemma readi_frame [fs_frames]: "readi ip off n s = Ok (r, d, s') \<Longrightarrow> fsys.more s' = fsys.more s"
  by (auto simp: readi_def Let_def kbind_Ok fs_frames split: if_splits option.splits)

lemma writei_frame [fs_frames]: "writei ip src off s = Ok (r, s') \<Longrightarrow> fsys.more s' = fsys.more s"
proof (cases "i_type (icache s ip) = T_DEV \<or> off > i_size (icache s ip) \<or> off_overflow off (length src)")
  case True
  assume "writei ip src off s = Ok (r, s')"
  with True have "s' = s" by (auto simp: writei_def Let_def kbind_Ok split: if_split_asm option.split_asm)
  then show ?thesis by simp
next
  case False
  assume "writei ip src off s = Ok (r, s')"
  with False obtain s1 where 1: "writei_loop ip src off (writei_n off (length src)) s = Ok s1" and
    2: "(if writei_n off (length src) > 0 \<and> off + writei_n off (length src) > i_size (icache s1 ip)
      then iupdate ip (upd_inode ip (i_size_update (\<lambda>_. off + writei_n off (length src))) s1) else Ok s1) = Ok s'"
    unfolding writei_def Let_def by (auto simp: kbind_Ok)
  from 2 have "fsys.more s' = fsys.more s1" by (auto simp: iupdate_frame split: if_split_asm)
  with writei_loop_frame [OF 1] show ?thesis by simp
qed

lemma dirlookup_loop_frame [fs_frames]: "dirlookup_loop dp name sz off s = Ok (r, s') \<Longrightarrow> fsys.more s' = fsys.more s"
proof (induction "sz - off" arbitrary: off s rule: less_induct)
  case less
  show ?case
  proof (cases "off < sz")
    case False
    with less.prems show ?thesis unfolding dirlookup_loop.simps [of dp name sz off s] by simp
  next
    case True
    with less.prems obtain a s1 bp s2 s3 where
      o: "bmap dp (off div BSIZE) s = Ok (a, s1)" "bread (i_dev (icache s1 dp)) a s1 = Ok (bp, s2)" "brelse bp s2 = Ok s3" and
      k: "(case find (de_match name (buf_data s2 bp)) [0..<BSIZE div sizeof_dirent] of
            Some i \<Rightarrow> kbind (iget (i_dev (icache s3 dp)) (de_inum (buf_data s2 bp) i) s3) (\<lambda>(ip, s). Ok (Some (ip, off + sizeof_dirent * i), s))
          | None \<Rightarrow> dirlookup_loop dp name sz (off + BSIZE) s3) = Ok (r, s')"
      unfolding dirlookup_loop.simps [of dp name sz off s] by (auto simp: kbind_Ok Let_def)
    have "sz - (off + BSIZE) < sz - off" using True by (simp add: BSIZE_def)
    from k less.hyps [OF this, of s3] have "fsys.more s' = fsys.more s3" by (auto simp: kbind_Ok fs_frames split: option.splits)
    with o show ?thesis by (simp add: fs_frames)
  qed
qed

lemma dirlookup_frame [fs_frames]: "dirlookup dp name s = Ok (r, s') \<Longrightarrow> fsys.more s' = fsys.more s"
  by (auto simp: dirlookup_def fs_frames split: if_splits)

lemma dirlink_slot_frame [fs_frames]: "dirlink_slot dp sz off s = Ok (r, s') \<Longrightarrow> fsys.more s' = fsys.more s"
proof (induction "sz - off" arbitrary: off s rule: less_induct)
  case less
  show ?case
  proof (cases "off < sz")
    case False
    with less.prems show ?thesis unfolding dirlink_slot.simps [of dp sz off s] by simp
  next
    case True
    with less.prems obtain r' de s1 where o: "readi dp off sizeof_dirent s = Ok (r', de, s1)"
      and k: "(r, s') = (off, s1) \<or> dirlink_slot dp sz (off + sizeof_dirent) s1 = Ok (r, s')"
      unfolding dirlink_slot.simps [of dp sz off s] by (auto simp: kbind_Ok split: if_splits)
    have "sz - (off + sizeof_dirent) < sz - off" using True by (simp add: sizeof_dirent_def)
    from k less.hyps [OF this, of s1] o show ?thesis by (auto simp: fs_frames)
  qed
qed

lemma dirlink_frame [fs_frames]: "dirlink dp name inum s = Ok (r, s') \<Longrightarrow> fsys.more s' = fsys.more s"
  by (auto simp: dirlink_def kbind_Ok fs_frames split: option.splits if_splits)

lemma namex_loop_frame [fs_frames]: "namex_loop ip path parent name s = Ok (r, n', s') \<Longrightarrow> fsys.more s' = fsys.more s"
proof (induction "length path" arbitrary: ip path name s rule: less_induct)
  case less
  show ?case
  proof (cases "skipelem path name")
    case None
    with less.prems show ?thesis unfolding namex_loop.simps [of ip path parent name s] by (auto simp: kbind_Ok fs_frames split: if_splits)
  next
    case (Some a)
    then obtain p n where a: "skipelem path name = Some (p, n)" by (cases a) simp
    with less.prems obtain s1 where l: "ilock ip s = Ok s1" unfolding namex_loop.simps [of ip path parent name s] by (auto simp: kbind_Ok)
    show ?thesis
    proof (cases "i_type (icache s1 ip) \<noteq> T_DIR \<or> parent \<and> p = []")
      case True
      with less.prems a l show ?thesis unfolding namex_loop.simps [of ip path parent name s] by (auto simp: kbind_Ok fs_frames split: if_splits)
    next
      case False
      with less.prems a l obtain q s2 where d: "dirlookup ip n s1 = Ok (q, s2)" and
        k: "(case q of None \<Rightarrow> kbind (iunlockput ip s2) (\<lambda>s. Ok (None, n, s))
             | Some (nxt, _) \<Rightarrow> kbind (iunlockput ip s2) (namex_loop nxt p parent n)) = Ok (r, n', s')"
        unfolding namex_loop.simps [of ip path parent name s] by (auto simp: kbind_Ok)
      from k less.hyps [OF skipelem_shorter [OF a]] have "fsys.more s' = fsys.more s2"
        by (auto simp: kbind_Ok fs_frames split: option.splits)
      with d l show ?thesis by (simp add: fs_frames)
    qed
  qed
qed

lemma namex_frame [fs_frames]: "namex cwd path parent name s = Ok (r, n', s') \<Longrightarrow> fsys.more s' = fsys.more s"
  by (auto simp: namex_def kbind_Ok idup_def fs_frames split: if_splits)

lemma namei_frame [fs_frames]: "namei cwd path s = Ok (r, s') \<Longrightarrow> fsys.more s' = fsys.more s"
  by (auto simp: namei_def kbind_Ok fs_frames)

lemma nameiparent_frame [fs_frames]: "nameiparent cwd path name s = Ok (r, n', s') \<Longrightarrow> fsys.more s' = fsys.more s"
  by (simp add: nameiparent_def fs_frames)

end
