(* ===== verification/Fifo.thy ===== *)
theory Fifo
  imports Prelude
begin

text \<open>
  The contract of a bounded first-in first-out queue, used for the ring of a kernel pipe and for the
  request buffer of the web server: the operations, the laws they promise, and what follows for
  storing or fetching many items and for producers and consumers in any order.
\<close>

section \<open>A bounded first-in first-out queue\<close>

locale bounded_fifo =
  fixes inv :: "'s \<Rightarrow> bool"
    and items :: "'s \<Rightarrow> 'a list"
    and cap :: "'s \<Rightarrow> nat"
    and is_full :: "'s \<Rightarrow> bool"
    and is_empty :: "'s \<Rightarrow> bool"
    and put :: "'a \<Rightarrow> 's \<Rightarrow> 's"
    and get :: "'s \<Rightarrow> 'a \<times> 's"
  assumes bounded: "inv s \<Longrightarrow> length (items s) \<le> cap s"
    and full: "inv s \<Longrightarrow> is_full s \<longleftrightarrow> length (items s) = cap s"
    and empty: "inv s \<Longrightarrow> is_empty s \<longleftrightarrow> items s = []"
    and put: "inv s \<Longrightarrow> \<not> is_full s \<Longrightarrow>
       inv (put x s) \<and> items (put x s) = items s @ [x] \<and> cap (put x s) = cap s"
    and get: "inv s \<Longrightarrow> \<not> is_empty s \<Longrightarrow>
       inv (snd (get s)) \<and> items s = fst (get s) # items (snd (get s)) \<and> cap (snd (get s)) = cap s"
begin

fun put_many :: "'a list \<Rightarrow> 's \<Rightarrow> 's \<times> 'a list" where
  "put_many [] s = (s, [])"
| "put_many (x # xs) s = (if is_full s then (s, x # xs) else put_many xs (put x s))"

fun get_many :: "nat \<Rightarrow> 's \<Rightarrow> 's \<times> 'a list" where
  "get_many 0 s = (s, [])"
| "get_many (Suc n) s =
     (if is_empty s then (s, [])
      else let (x, s1) = get s; (s2, xs) = get_many n s1 in (s2, x # xs))"

lemma put_many_spec:
  "inv s \<Longrightarrow> put_many xs s = (s', rest) \<Longrightarrow>
   inv s' \<and> cap s' = cap s \<and> (\<exists>done. xs = done @ rest \<and> items s' = items s @ done) \<and>
   (rest \<noteq> [] \<longrightarrow> length (items s') = cap s)"
proof (induction xs arbitrary: s)
  case (Cons x xs)
  show ?case
  proof (cases "is_full s")
    case True
    with Cons.prems full show ?thesis by auto
  next
    case False
    note p = put [OF Cons.prems(1) False, of x]
    from Cons.IH [of "put x s"] Cons.prems(2) p False obtain d where
      "inv s'" "cap s' = cap s" "xs = d @ rest" "items s' = items s @ x # d"
      "rest \<noteq> [] \<longrightarrow> length (items s') = cap s" by auto
    then show ?thesis by (intro conjI exI [of _ "x # d"]) auto
  qed
qed simp

lemma get_many_spec:
  "inv s \<Longrightarrow> get_many n s = (s', xs) \<Longrightarrow>
   inv s' \<and> cap s' = cap s \<and> items s = xs @ items s' \<and> length xs = min n (length (items s))"
proof (induction n arbitrary: s xs)
  case (Suc n)
  show ?case
  proof (cases "is_empty s")
    case True
    with Suc.prems empty show ?thesis by auto
  next
    case False
    note g = get [OF Suc.prems(1) False]
    obtain s2 ys where ys: "get_many n (snd (get s)) = (s2, ys)" by (cases "get_many n (snd (get s))")
    with Suc.prems(2) False have r: "s2 = s'" "xs = fst (get s) # ys" by (auto simp: case_prod_unfold)
    note ih = Suc.IH [OF conjunct1 [OF g] ys [unfolded r(1)]]
    have "items s = xs @ items s'" using g ih r(2) by (metis append_Cons)
    moreover have "length xs = min (Suc n) (length (items s))"
      using g ih r(2) by (metis length_Cons min_Suc_Suc)
    ultimately show ?thesis using ih g by metis
  qed
qed auto

text \<open>
  Producers and consumers in any order: \<open>Some x\<close> is a producer with the item \<open>x\<close>, \<open>None\<close> a consumer; one
  that finds the queue full, or empty, waits and changes nothing. The result is the queue, the
  items taken in and the items handed out.
\<close>

fun interleave :: "'a option list \<Rightarrow> 's \<Rightarrow> 's \<times> 'a list \<times> 'a list" where
  "interleave [] s = (s, [], [])"
| "interleave (Some x # ops) s =
     (if is_full s then interleave ops s
      else let (s', ins, outs) = interleave ops (put x s) in (s', x # ins, outs))"
| "interleave (None # ops) s =
     (if is_empty s then interleave ops s
      else let (s', ins, outs) = interleave ops (snd (get s)) in (s', ins, fst (get s) # outs))"

lemma interleave_fifo:
  "inv s \<Longrightarrow> interleave ops s = (s', ins, outs) \<Longrightarrow> inv s' \<and> cap s' = cap s \<and> items s @ ins = outs @ items s'"
proof (induction ops s arbitrary: s' ins outs rule: interleave.induct)
  case (2 x ops s)
  show ?case
  proof (cases "is_full s")
    case False
    obtain s1 i1 o1 where r: "interleave ops (put x s) = (s1, i1, o1)" by (cases "interleave ops (put x s)")
    note p = put [OF "2.prems"(1) False, of x]
    from "2.IH"(2) [OF False _ r] p have "inv s1" "cap s1 = cap s" "(items s @ [x]) @ i1 = o1 @ items s1" by simp_all
    then show ?thesis using "2.prems"(2) False r by simp
  qed (use 2 in simp)
next
  case (3 ops s)
  show ?case
  proof (cases "is_empty s")
    case False
    obtain s1 i1 o1 where r: "interleave ops (snd (get s)) = (s1, i1, o1)" by (cases "interleave ops (snd (get s))")
    note g = get [OF "3.prems"(1) False]
    from "3.IH"(2) [OF False _ r] g have i: "inv s1" "cap s1 = cap s" "items (snd (get s)) @ i1 = o1 @ items s1" by simp_all
    have "items s @ i1 = fst (get s) # o1 @ items s1" using g i(3) by (metis append_Cons)
    then show ?thesis using "3.prems"(2) False r i by auto
  qed (use 3 in simp)
qed simp

end

end
