(* ===== verification/Pipe.thy ===== *)
theory Pipe
  imports Fifo
begin

text \<open>
  Pipes, \<open>src/P1/xv6/xv6/kernel/pipe.c\<close>: a 512-byte ring with free-running 32-bit counters.
  \<open>pipewrite\<close> and \<open>piperead\<close> may sleep in the middle; each is modelled by the slice that runs
  under the pipe's lock from entry, or from a wake-up, to the next sleep or the return. A
  slice yields the pipe, the bytes left or delivered, the channels it wakes and how it ended.
  The ring is shown to meet the contract of a bounded queue, the locale \<open>bounded_fifo\<close>.
\<close>

section \<open>pipe.c\<close>

definition PIPESIZE :: nat where "PIPESIZE = 512"

record pipe =
  pdata :: "8 word list"
  nread :: "32 word"
  nwrite :: "32 word"
  readopen :: bool
  writeopen :: bool

text \<open>The two channels a pipe sleeps on are the addresses of its counters.\<close>

datatype chan = ChanRead | ChanWrite

datatype 'a ending = Return 'a | Sleep chan

definition pipe_init :: "8 word list \<Rightarrow> pipe" where
  "pipe_init junk = \<lparr>pdata = junk, nread = 0, nwrite = 0, readopen = True, writeopen = True\<rparr>"

definition pipe_full :: "pipe \<Rightarrow> bool" where
  "pipe_full p \<longleftrightarrow> nwrite p = nread p + of_nat PIPESIZE"

definition pipe_empty :: "pipe \<Rightarrow> bool" where
  "pipe_empty p \<longleftrightarrow> nread p = nwrite p"

definition pipe_put :: "8 word \<Rightarrow> pipe \<Rightarrow> pipe" where
  "pipe_put c p = p\<lparr>pdata := (pdata p)[unat (nwrite p) mod PIPESIZE := c], nwrite := nwrite p + 1\<rparr>"

definition pipe_get :: "pipe \<Rightarrow> 8 word \<times> pipe" where
  "pipe_get p = (pdata p ! (unat (nread p) mod PIPESIZE), p\<lparr>nread := nread p + 1\<rparr>)"

fun pipewrite :: "bool \<Rightarrow> int \<Rightarrow> pipe \<Rightarrow> 8 word list \<Rightarrow> pipe \<times> 8 word list \<times> chan list \<times> int ending" where
  "pipewrite killed n p [] = (p, [], [ChanRead], Return n)"
| "pipewrite killed n p (c # cs) =
     (if pipe_full p then
        (if \<not> readopen p \<or> killed then (p, c # cs, [], Return (-1))
         else (p, c # cs, [ChanRead], Sleep ChanWrite))
      else pipewrite killed n (pipe_put c p) cs)"

fun piperead_copy :: "nat \<Rightarrow> pipe \<Rightarrow> pipe \<times> 8 word list" where
  "piperead_copy 0 p = (p, [])"
| "piperead_copy (Suc n) p =
     (if pipe_empty p then (p, [])
      else let (c, p) = pipe_get p; (p, cs) = piperead_copy n p in (p, c # cs))"

definition piperead :: "bool \<Rightarrow> pipe \<Rightarrow> int \<Rightarrow> pipe \<times> 8 word list \<times> chan list \<times> int ending" where
  "piperead killed p n =
     (if pipe_empty p \<and> writeopen p then
        (if killed then (p, [], [], Return (-1)) else (p, [], [], Sleep ChanRead))
      else let (p, cs) = piperead_copy (nat n) p
           in (p, cs, [ChanWrite], Return (int (length cs))))"

text \<open>\<open>pipeclose\<close>: the flag says whether the page of the pipe is freed.\<close>

definition pipeclose :: "pipe \<Rightarrow> bool \<Rightarrow> pipe \<times> chan list \<times> bool" where
  "pipeclose p writable =
     (let (p, wk) = (if writable then (p\<lparr>writeopen := False\<rparr>, [ChanRead])
                     else (p\<lparr>readopen := False\<rparr>, [ChanWrite]))
      in (p, wk, \<not> readopen p \<and> \<not> writeopen p))"

section \<open>The ring is a queue, across counter overflow\<close>

definition pipe_bytes :: "pipe \<Rightarrow> 8 word list" where
  "pipe_bytes p =
     map (\<lambda>i. pdata p ! ((unat (nread p) + i) mod PIPESIZE)) [0..<unat (nwrite p - nread p)]"

definition pipe_inv :: "pipe \<Rightarrow> bool" where
  "pipe_inv p \<longleftrightarrow> length (pdata p) = PIPESIZE \<and> unat (nwrite p - nread p) \<le> PIPESIZE"

lemma unat_add_mod512: "unat (a + b :: 32 word) mod 512 = (unat a + unat b) mod 512"
  by (simp add: unat_word_ariths mod_mod_cancel)

lemma ring_index: "unat (nwrite p) mod PIPESIZE = (unat (nread p) + unat (nwrite p - nread p)) mod PIPESIZE"
  using unat_add_mod512 [of "nread p" "nwrite p - nread p"] by (simp add: PIPESIZE_def)

lemma length_pipe_bytes: "length (pipe_bytes p) = unat (nwrite p - nread p)"
  by (simp add: pipe_bytes_def)

lemma pipe_full_iff: "pipe_inv p \<Longrightarrow> pipe_full p \<longleftrightarrow> unat (nwrite p - nread p) = PIPESIZE"
proof -
  have "pipe_full p \<longleftrightarrow> nwrite p - nread p = 512" by (auto simp: pipe_full_def PIPESIZE_def diff_eq_eq)
  also have "\<dots> \<longleftrightarrow> unat (nwrite p - nread p) = unat (512 :: 32 word)" by (simp only: word_unat_eq_iff)
  finally show ?thesis by (simp add: PIPESIZE_def)
qed

lemma pipe_empty_iff: "pipe_empty p \<longleftrightarrow> unat (nwrite p - nread p) = 0"
  by (auto simp: pipe_empty_def unat_eq_zero)

lemma unat_suc: "unat (d :: 32 word) \<le> 512 \<Longrightarrow> unat (d + 1) = Suc (unat d)"
  by (simp add: unat_word_ariths)

lemma pipe_put_spec:
  assumes inv: "pipe_inv p" and nf: "\<not> pipe_full p"
  shows "pipe_inv (pipe_put c p) \<and> pipe_bytes (pipe_put c p) = pipe_bytes p @ [c]"
proof -
  let ?k = "unat (nwrite p - nread p)"
  have k: "?k < 512" using inv nf pipe_full_iff [OF inv] by (simp add: pipe_inv_def PIPESIZE_def)
  have d: "nwrite p + 1 - nread p = nwrite p - nread p + 1" by simp
  then have k': "unat (nwrite p + 1 - nread p) = Suc ?k" unfolding d using k by (intro unat_suc) simp
  let ?w = "(unat (nread p) + ?k) mod 512"
  have w: "?w < length (pdata p)" using inv by (simp add: pipe_inv_def PIPESIZE_def)
  have same: "(pdata p)[?w := c] ! ((unat (nread p) + i) mod 512) = pdata p ! ((unat (nread p) + i) mod 512)"
    if "i < ?k" for i
    using mod_window_distinct [OF that k, of "unat (nread p)"] by simp
  have "pipe_bytes (pipe_put c p) = pipe_bytes p @ [c]"
    using k' w same ring_index [of p] by (simp add: pipe_bytes_def pipe_put_def PIPESIZE_def)
  moreover have "pipe_inv (pipe_put c p)" using inv k k' by (simp add: pipe_inv_def pipe_put_def PIPESIZE_def)
  ultimately show ?thesis by blast
qed

lemma pipe_get_spec:
  assumes inv: "pipe_inv p" and ne: "\<not> pipe_empty p"
  shows "pipe_inv (snd (pipe_get p)) \<and> pipe_bytes p = fst (pipe_get p) # pipe_bytes (snd (pipe_get p))"
proof -
  let ?k = "unat (nwrite p - nread p)" and ?k' = "unat (nwrite p - (nread p + 1))"
  have "nwrite p - nread p = nwrite p - (nread p + 1) + 1" by simp
  moreover have "nwrite p - (nread p + 1) + 1 \<noteq> 0" using ne by (auto simp: pipe_empty_def)
  ultimately have k: "?k = Suc ?k'" by (metis unatSuc add.commute)
  have sh: "(unat (nread p + 1) + i) mod 512 = (unat (nread p) + Suc i) mod 512" for i
  proof -
    have "(unat (nread p + 1) + i) mod 512 = (unat (nread p + 1) mod 512 + i) mod 512" by (simp add: mod_simps)
    also have "\<dots> = (unat (nread p) + 1 + i) mod 512"
      unfolding unat_add_mod512 by (simp add: mod_simps del: One_nat_def)
    finally show ?thesis by simp
  qed
  have up: "[0..<?k] = 0 # map Suc [0..<?k']" using k by (simp add: map_Suc_upt upt_conv_Cons del: upt_Suc)
  have "pipe_bytes p = fst (pipe_get p) # pipe_bytes (snd (pipe_get p))"
    unfolding pipe_bytes_def up using sh by (simp add: pipe_get_def PIPESIZE_def)
  moreover have "pipe_inv (snd (pipe_get p))" using inv k by (simp add: pipe_inv_def pipe_get_def PIPESIZE_def)
  ultimately show ?thesis by blast
qed

interpretation ring: bounded_fifo pipe_inv pipe_bytes "\<lambda>_. PIPESIZE" pipe_full pipe_empty pipe_put pipe_get
proof (unfold_locales, goal_cases)
  case (1 s)
  then show ?case by (simp add: length_pipe_bytes pipe_inv_def)
next
  case (2 s)
  then show ?case by (simp add: length_pipe_bytes pipe_full_iff)
next
  case (3 s)
  then show ?case using length_pipe_bytes [of s] pipe_empty_iff [of s] by auto
next
  case (4 s x)
  then show ?case using pipe_put_spec by simp
next
  case (5 s)
  then show ?case using pipe_get_spec by simp
qed

section \<open>Slices as queue operations\<close>

lemma pipe_flags [simp]:
  "readopen (pipe_put c p) = readopen p" "writeopen (pipe_put c p) = writeopen p"
  "readopen (snd (pipe_get p)) = readopen p" "writeopen (snd (pipe_get p)) = writeopen p"
  by (simp_all add: pipe_put_def pipe_get_def)

lemma pipewrite_put_many:
  "pipewrite killed n p cs =
     (let (p', rest) = ring.put_many cs p
      in (p', rest,
          if rest = [] then [ChanRead] else if \<not> readopen p \<or> killed then [] else [ChanRead],
          if rest = [] then Return n else if \<not> readopen p \<or> killed then Return (-1) else Sleep ChanWrite))"
  by (induction killed n p cs rule: pipewrite.induct) (auto simp: Let_def split: prod.splits)

lemma piperead_copy_get_many: "piperead_copy n p = ring.get_many n p"
  by (induction n p rule: piperead_copy.induct) (auto split: prod.splits)

lemma pipewrite_slice:
  assumes "pipe_inv p" and "pipewrite killed n p cs = (p', rest, wk, r)"
  shows "pipe_inv p'" and "\<exists>d. cs = d @ rest \<and> pipe_bytes p' = pipe_bytes p @ d"
    and "rest \<noteq> [] \<Longrightarrow> length (pipe_bytes p') = PIPESIZE" and "r = Sleep ch \<Longrightarrow> rest \<noteq> [] \<and> ch = ChanWrite"
proof -
  obtain q s where q: "ring.put_many cs p = (q, s)" by (cases "ring.put_many cs p")
  with assms(2) have "q = p'" "s = rest" by (simp_all add: pipewrite_put_many)
  with ring.put_many_spec [OF assms(1)] q
  show "pipe_inv p'" and "\<exists>d. cs = d @ rest \<and> pipe_bytes p' = pipe_bytes p @ d"
    and "rest \<noteq> [] \<Longrightarrow> length (pipe_bytes p') = PIPESIZE" by blast+
  show "r = Sleep ch \<Longrightarrow> rest \<noteq> [] \<and> ch = ChanWrite"
    using assms(2) q by (auto simp: pipewrite_put_many split: if_splits)
qed

lemma piperead_slice:
  assumes "pipe_inv p" and "piperead killed p n = (p', cs, wk, r)"
  shows "pipe_inv p'" and "pipe_bytes p = cs @ pipe_bytes p'"
    and "r = Sleep ch \<Longrightarrow> pipe_bytes p = [] \<and> writeopen p \<and> ch = ChanRead"
    and "r = Return k \<Longrightarrow> 0 \<le> k \<Longrightarrow> cs = take (nat n) (pipe_bytes p) \<and> k = int (length cs) \<and> wk = [ChanWrite]"
proof -
  have e: "pipe_empty p \<Longrightarrow> pipe_bytes p = []" using ring.empty [OF assms(1)] by simp
  obtain q ds where q: "ring.get_many (nat n) p = (q, ds)" by (cases "ring.get_many (nat n) p")
  note g = ring.get_many_spec [OF assms(1) q]
  then have ds: "ds = take (nat n) (pipe_bytes p)" by (metis append_eq_conv_conj take_take take_all min.commute
        append_take_drop_id length_take min_def order_refl take_all_iff)
  have r: "(p', cs, wk, r) = (if pipe_empty p \<and> writeopen p
      then if killed then (p, [], [], Return (-1)) else (p, [], [], Sleep ChanRead)
      else (q, ds, [ChanWrite], Return (int (length ds))))"
    using assms(2) q [folded piperead_copy_get_many] by (auto simp: piperead_def split: if_splits)
  show "pipe_inv p'" and "pipe_bytes p = cs @ pipe_bytes p'"
    and "r = Sleep ch \<Longrightarrow> pipe_bytes p = [] \<and> writeopen p \<and> ch = ChanRead"
    and "r = Return k \<Longrightarrow> 0 \<le> k \<Longrightarrow> cs = take (nat n) (pipe_bytes p) \<and> k = int (length cs) \<and> wk = [ChanWrite]"
    using r g e ds assms(1) by (auto split: if_splits)
qed

section \<open>Writers and readers in any interleaving\<close>

text \<open>
  The slices of any number of writers and readers, and the closing of either end, in any
  order. \<open>wr\<close> collects the bytes writers have put in, \<open>rd\<close> those readers were given.
\<close>

inductive pipe_sys :: "pipe \<Rightarrow> 8 word list \<Rightarrow> 8 word list \<Rightarrow> bool" where
  start: "length junk = PIPESIZE \<Longrightarrow> pipe_sys (pipe_init junk) [] []"
| put: "pipe_sys p wr rd \<Longrightarrow> pipewrite killed n p cs = (p', rest, wk, r) \<Longrightarrow>
     pipe_sys p' (wr @ take (length cs - length rest) cs) rd"
| get: "pipe_sys p wr rd \<Longrightarrow> piperead killed p n = (p', cs, wk, r) \<Longrightarrow> pipe_sys p' wr (rd @ cs)"
| close: "pipe_sys p wr rd \<Longrightarrow> pipeclose p writable = (p', wk, freed) \<Longrightarrow> pipe_sys p' wr rd"

lemma pipe_flag_bytes [simp]:
  "pipe_bytes (p\<lparr>readopen := b\<rparr>) = pipe_bytes p" "pipe_bytes (p\<lparr>writeopen := b\<rparr>) = pipe_bytes p"
  "pipe_inv (p\<lparr>readopen := b\<rparr>) = pipe_inv p" "pipe_inv (p\<lparr>writeopen := b\<rparr>) = pipe_inv p"
  by (simp_all add: pipe_bytes_def pipe_inv_def)

lemma pipe_sys_inv: "pipe_sys p wr rd \<Longrightarrow> pipe_inv p \<and> wr = rd @ pipe_bytes p"
proof (induction rule: pipe_sys.induct)
  case (start junk)
  then show ?case by (simp add: pipe_init_def pipe_inv_def pipe_bytes_def)
next
  case (put p wr rd killed n cs p' rest wk r)
  then obtain d where "pipe_inv p'" "cs = d @ rest" "pipe_bytes p' = pipe_bytes p @ d"
    using pipewrite_slice by blast
  with put.IH show ?case by simp
next
  case (get p wr rd killed n p' cs wk r)
  then have "pipe_inv p'" and "pipe_bytes p = cs @ pipe_bytes p'" using piperead_slice by blast+
  with get.IH show ?case by simp
next
  case (close p wr rd writable p' wk freed)
  then show ?case by (auto simp: pipeclose_def split: if_splits)
qed

text \<open>
  C11. A pipe is a bounded first-in first-out channel: whatever the interleaving of writes, reads
  and closes, and however often the 32-bit counters have wrapped, the bytes readers got
  followed by the at most 512 bytes in the ring are exactly the bytes written, in order.
\<close>
theorem pipe_fifo:
  assumes "pipe_sys p wr rd"
  shows "wr = rd @ pipe_bytes p \<and> length (pipe_bytes p) \<le> PIPESIZE"
  using pipe_sys_inv [OF assms] ring.bounded by blast

theorem pipe_fifo_witness:
  "\<exists>p. pipe_sys p [7, 8] [] \<and> pipe_bytes p = [7, 8]"
proof -
  obtain p' rest wk r where w: "pipewrite False 2 (pipe_init (replicate PIPESIZE 0)) [7, 8] = (p', rest, wk, r)"
    by (metis prod_cases4)
  have "\<not> pipe_full (pipe_init (replicate PIPESIZE 0))" "\<not> pipe_full (pipe_put 7 (pipe_init (replicate PIPESIZE 0)))"
    by (simp_all add: pipe_full_def pipe_put_def pipe_init_def PIPESIZE_def)
  with w have "rest = []" by simp
  with pipe_sys.put [OF pipe_sys.start w] have s: "pipe_sys p' [7, 8] []" by simp
  from pipe_fifo [OF s] s show ?thesis by auto
qed

text \<open>
  C35. Writer and reader never wait for each other: when a writer goes to sleep the ring is full and
  it has woken the readers, so a read of \<open>n > 0\<close> bytes returns some and wakes the writers; when
  a reader goes to sleep the ring is empty and the next write puts bytes in and wakes the
  readers.
\<close>
theorem pipe_no_mutual_wait:
  assumes "pipe_sys p wr rd" and "0 < n"
  shows "(\<forall>p' rest wk. pipewrite killed m p cs = (p', rest, wk, Sleep ChanWrite) \<longrightarrow>
            wk = [ChanRead] \<and> (\<exists>p'' bs. bs \<noteq> [] \<and>
              piperead killed' p' n = (p'', bs, [ChanWrite], Return (int (length bs))))) \<and>
         (\<forall>p' bs wk. piperead killed' p n = (p', bs, wk, Sleep ChanRead) \<longrightarrow> cs \<noteq> [] \<longrightarrow>
            (\<exists>p'' rest r. pipewrite False m p' cs = (p'', rest, [ChanRead], r) \<and> length rest < length cs) \<or>
            \<not> readopen p)"
proof (intro conjI allI impI)
  fix p' rest wk
  assume w: "pipewrite killed m p cs = (p', rest, wk, Sleep ChanWrite)"
  note inv = pipe_sys_inv [OF assms(1)]
  note s = pipewrite_slice [OF conjunct1 [OF inv] w]
  from s(4) have "rest \<noteq> []" by simp
  with s(3) have ne: "pipe_bytes p' \<noteq> []" by (auto simp: PIPESIZE_def)
  from w \<open>rest \<noteq> []\<close> show "wk = [ChanRead]"
    by (auto simp: pipewrite_put_many split: prod.splits if_splits)
  have nem: "\<not> pipe_empty p'" using ring.empty [OF s(1)] ne by simp
  obtain p'' bs wk' r where rd: "piperead killed' p' n = (p'', bs, wk', r)" by (metis prod_cases4)
  with nem have r: "r = Return (int (length bs))" "wk' = [ChanWrite]"
    by (auto simp: piperead_def split: prod.splits)
  with piperead_slice(4) [OF s(1) rd] have "bs = take (nat n) (pipe_bytes p')" by auto
  with ne assms(2) have "bs \<noteq> []" by simp
  with rd r show "\<exists>p'' bs. bs \<noteq> [] \<and> piperead killed' p' n = (p'', bs, [ChanWrite], Return (int (length bs)))"
    by auto
next
  fix p' bs wk
  assume r: "piperead killed' p n = (p', bs, wk, Sleep ChanRead)" and cs: "cs \<noteq> []"
  note inv = pipe_sys_inv [OF assms(1)]
  from r have p': "p' = p" by (auto simp: piperead_def split: if_splits prod.splits)
  from piperead_slice(3) [OF conjunct1 [OF inv] r] have "pipe_bytes p = []" by simp
  then have nf: "\<not> pipe_full p" using ring.full [OF conjunct1 [OF inv]] by (simp add: PIPESIZE_def)
  obtain c ds where c: "cs = c # ds" using cs by (cases cs) auto
  obtain q rest where q: "ring.put_many ds (pipe_put c p) = (q, rest)" by (cases "ring.put_many ds (pipe_put c p)")
  from ring.put_many_spec [OF conjunct1 [OF pipe_put_spec [OF conjunct1 [OF inv] nf]] q]
  have "length rest \<le> length ds" by auto
  with q c nf p' show "(\<exists>p'' rest r. pipewrite False m p' cs = (p'', rest, [ChanRead], r) \<and> length rest < length cs) \<or>
            \<not> readopen p"
    by (auto simp: pipewrite_put_many)
qed

theorem pipe_no_mutual_wait_witness:
  "(0::int) < 5 \<and> (\<exists>p'' rest r. pipewrite False 1 (pipe_init (replicate PIPESIZE 0)) [9] = (p'', rest, [ChanRead], r) \<and>
     length rest < length [9 :: 8 word])"
proof -
  let ?p = "pipe_init (replicate PIPESIZE 0)"
  have s: "pipe_sys ?p [] []" by (rule pipe_sys.start) simp
  have "piperead False ?p 5 = (?p, [], [], Sleep ChanRead)"
    by (simp add: piperead_def pipe_empty_def pipe_init_def)
  moreover have "readopen ?p" by (simp add: pipe_init_def)
  ultimately show ?thesis
    using pipe_no_mutual_wait [OF s, of 5 False 1 "[9]" False] by simp
qed

end
