(* ===== verification/File_Table.thy ===== *)
theory File_Table
  imports Fs_Frame Pipe Proc_Table Vm
begin

text \<open>
  The state of the whole kernel, and the file table of \<open>src/P1/xv6/xv6/kernel/file.c\<close> with the parts of \<open>pipe.c\<close> that open and close
  pipes. The record \<open>kern\<close> extends the file system by the file table, the pipes (by the address of their page), the physical memory,
  the process table and the current process; \<open>link_end\<close> and \<open>link_data\<close> are the linker's symbols \<open>end\<close> and \<open>data\<close>. An operation that
  puts the current process to sleep ends with \<open>Blocks\<close>: the process is asleep in the new state and repeats the operation when it is woken.
\<close>

definition NFILE :: nat where "NFILE = 100"
definition NOFILE :: nat where "NOFILE = 16"

datatype filetype = FD_NONE | FD_PIPE | FD_INODE

record kfile =
  f_type :: filetype
  f_ref :: int
  f_readable :: bool
  f_writable :: bool
  f_pipe :: nat
  f_ip :: nat
  f_off :: nat

record kern = fsys +
  files :: "nat \<Rightarrow> kfile"
  pipes :: "nat \<Rightarrow> pipe"
  phys :: kmem
  ptab :: ptable
  cur :: nat
  ticks :: "32 word"
  syscall_count :: int
  link_end :: nat
  link_data :: nat

datatype 'a outcome = Returns 'a | Blocks

abbreviation curproc :: "kern \<Rightarrow> proc" where
  "curproc s \<equiv> procs (ptab s) (cur s)"

definition upd_file :: "nat \<Rightarrow> (kfile \<Rightarrow> kfile) \<Rightarrow> kern \<Rightarrow> kern" where
  "upd_file f g s = s\<lparr>files := (files s)(f := g (files s f))\<rparr>"

definition upd_cur :: "(proc \<Rightarrow> proc) \<Rightarrow> kern \<Rightarrow> kern" where
  "upd_cur g s = s\<lparr>ptab := upd_proc (cur s) g (ptab s)\<rparr>"

section \<open>Pipes in the kernel\<close>

fun pipe_chan :: "nat \<Rightarrow> chan \<Rightarrow> channel" where
  "pipe_chan p ChanRead = Ch_nread p"
| "pipe_chan p ChanWrite = Ch_nwrite p"

definition pipe_wake :: "nat \<Rightarrow> chan list \<Rightarrow> kern \<Rightarrow> kern" where
  "pipe_wake p wk s = s\<lparr>ptab := fold (\<lambda>c. wakeup (pipe_chan p c)) wk (ptab s)\<rparr>"

definition ksleep :: "channel \<Rightarrow> kern \<Rightarrow> kern" where
  "ksleep ch s = s\<lparr>ptab := sleep_table (cur s) ch (ptab s)\<rparr>"

definition kpipeclose :: "nat \<Rightarrow> bool \<Rightarrow> kern \<Rightarrow> kern kres" where
  "kpipeclose p writable s =
     (let (pp, wk, gone) = pipeclose (pipes s p) writable;
          s = pipe_wake p wk (s\<lparr>pipes := (pipes s)(p := pp)\<rparr>)
      in if gone then kbind (kfree (link_end s) p (phys s)) (\<lambda>m. Ok (s\<lparr>phys := m\<rparr>)) else Ok s)"

definition kpiperead :: "nat \<Rightarrow> int \<Rightarrow> kern \<Rightarrow> int outcome \<times> byte list \<times> kern" where
  "kpiperead p n s =
     (let (pp, d, wk, e) = piperead (p_killed (curproc s)) (pipes s p) n;
          s = pipe_wake p wk (s\<lparr>pipes := (pipes s)(p := pp)\<rparr>)
      in case e of Return r \<Rightarrow> (Returns r, d, s) | Sleep c \<Rightarrow> (Blocks, d, ksleep (pipe_chan p c) s))"

text \<open>A writer that blocks goes on with the bytes that are left.\<close>

definition kpipewrite :: "nat \<Rightarrow> byte list \<Rightarrow> int \<Rightarrow> kern \<Rightarrow> int outcome \<times> byte list \<times> kern" where
  "kpipewrite p d n s =
     (let (pp, rest, wk, e) = pipewrite (p_killed (curproc s)) n (pipes s p) d;
          s = pipe_wake p wk (s\<lparr>pipes := (pipes s)(p := pp)\<rparr>)
      in case e of Return r \<Rightarrow> (Returns r, rest, s) | Sleep c \<Rightarrow> (Blocks, rest, ksleep (pipe_chan p c) s))"

section \<open>file.c\<close>

definition filealloc :: "kern \<Rightarrow> nat option \<times> kern" where
  "filealloc s = (case find (\<lambda>f. f_ref (files s f) = 0) [0..<NFILE] of
     None \<Rightarrow> (None, s)
   | Some f \<Rightarrow> (Some f, upd_file f (f_ref_update (\<lambda>_. 1)) s))"

definition filedup :: "nat \<Rightarrow> kern \<Rightarrow> (nat \<times> kern) kres" where
  "filedup f s = (if f_ref (files s f) < 1 then Panic ''filedup'' else Ok (f, upd_file f (f_ref_update (\<lambda>r. r + 1)) s))"

definition fileclose :: "nat \<Rightarrow> kern \<Rightarrow> kern kres" where
  "fileclose f s =
     (if f_ref (files s f) < 1 then Panic ''fileclose''
      else let s = upd_file f (f_ref_update (\<lambda>r. r - 1)) s in
        if f_ref (files s f) > 0 then Ok s
        else let ff = files s f; s = upd_file f (\<lambda>x. x\<lparr>f_ref := 0, f_type := FD_NONE\<rparr>) s in
          case f_type ff of
            FD_PIPE \<Rightarrow> kpipeclose (f_pipe ff) (f_writable ff) s
          | FD_INODE \<Rightarrow> iput (f_ip ff) s
          | FD_NONE \<Rightarrow> Ok s)"

definition filestat :: "nat \<Rightarrow> kern \<Rightarrow> (int \<times> stat option \<times> kern) kres" where
  "filestat f s =
     (if f_type (files s f) = FD_INODE then
        kbind (ilock (f_ip (files s f)) s) (\<lambda>s.
        let st = stati (f_ip (files s f)) s in
        kbind (iunlock (f_ip (files s f)) s) (\<lambda>s. Ok (0, Some st, s)))
      else Ok (- 1, None, s))"

definition advance :: "nat \<Rightarrow> int \<Rightarrow> kern \<Rightarrow> kern" where
  "advance f r s = (if r > 0 then upd_file f (f_off_update (\<lambda>off. (off + nat r) mod 2 ^ 32)) s else s)"

definition fileread :: "nat \<Rightarrow> int \<Rightarrow> kern \<Rightarrow> (int outcome \<times> byte list \<times> kern) kres" where
  "fileread f n s =
     (if \<not> f_readable (files s f) then Ok (Returns (- 1), [], s)
      else case f_type (files s f) of
        FD_PIPE \<Rightarrow> Ok (kpiperead (f_pipe (files s f)) n s)
      | FD_INODE \<Rightarrow>
          kbind (ilock (f_ip (files s f)) s) (\<lambda>s.
          kbind (readi (f_ip (files s f)) (f_off (files s f)) (nat (n mod 2 ^ 32)) s) (\<lambda>(r, d, s).
          let s = advance f r s in
          kbind (iunlock (f_ip (files s f)) s) (\<lambda>s. Ok (Returns r, d, s))))
      | FD_NONE \<Rightarrow> Panic ''fileread'')"

text \<open>\<open>filewrite\<close> of the bytes \<open>d\<close> at the address, of which there are \<open>n\<close> when \<open>n\<close> is not negative.\<close>

definition filewrite :: "nat \<Rightarrow> byte list \<Rightarrow> int \<Rightarrow> kern \<Rightarrow> (int outcome \<times> byte list \<times> kern) kres" where
  "filewrite f d n s =
     (if \<not> f_writable (files s f) then Ok (Returns (- 1), [], s)
      else case f_type (files s f) of
        FD_PIPE \<Rightarrow> Ok (kpipewrite (f_pipe (files s f)) d n s)
      | FD_INODE \<Rightarrow>
          kbind (ilock (f_ip (files s f)) s) (\<lambda>s.
          kbind (writei (f_ip (files s f)) d (f_off (files s f)) s) (\<lambda>(r, s).
          let s = advance f r s in
          kbind (iunlock (f_ip (files s f)) s) (\<lambda>s. Ok (Returns r, [], s))))
      | FD_NONE \<Rightarrow> Panic ''filewrite'')"

section \<open>pipealloc\<close>

fun close_opt :: "nat option \<Rightarrow> kern \<Rightarrow> kern kres" where
  "close_opt None s = Ok s"
| "close_opt (Some f) s = fileclose f s"

definition pipe_file :: "nat \<Rightarrow> bool \<Rightarrow> kfile \<Rightarrow> kfile" where
  "pipe_file p w x = x\<lparr>f_type := FD_PIPE, f_readable := \<not> w, f_writable := w, f_pipe := p\<rparr>"

definition pipealloc :: "kern \<Rightarrow> ((nat \<times> nat) option \<times> kern) kres" where
  "pipealloc s =
     (let (f0, s) = filealloc s;
          (f1, s) = (if f0 = None then (None, s) else filealloc s);
          (p, m) = (if f0 = None \<or> f1 = None then (0, phys s) else kalloc (phys s));
          s = s\<lparr>phys := m\<rparr>
      in if p = 0 then kbind (close_opt f0 s) (\<lambda>s. kbind (close_opt f1 s) (\<lambda>s. Ok (None, s)))
         else let s = s\<lparr>pipes := (pipes s)(p := pipe_init (pdata (pipes s p)))\<rparr>;
                  s = upd_file (the f0) (pipe_file p False) s;
                  s = upd_file (the f1) (pipe_file p True) s
              in Ok (Some (the f0, the f1), s))"

section \<open>Frames\<close>

lemma upd_file_sel [simp]:
  "files (upd_file f g s) = (files s)(f := g (files s f))" "pipes (upd_file f g s) = pipes s" "phys (upd_file f g s) = phys s"
  "ptab (upd_file f g s) = ptab s" "cur (upd_file f g s) = cur s" "link_end (upd_file f g s) = link_end s" "link_data (upd_file f g s) = link_data s"
  by (simp_all add: upd_file_def)

lemma upd_cur_sel [simp]:
  "files (upd_cur g s) = files s" "pipes (upd_cur g s) = pipes s" "phys (upd_cur g s) = phys s"
  "ptab (upd_cur g s) = upd_proc (cur s) g (ptab s)" "cur (upd_cur g s) = cur s" "link_end (upd_cur g s) = link_end s" "link_data (upd_cur g s) = link_data s"
  by (simp_all add: upd_cur_def)

lemma pipe_wake_sel [simp]:
  "files (pipe_wake p wk s) = files s" "pipes (pipe_wake p wk s) = pipes s" "phys (pipe_wake p wk s) = phys s" "cur (pipe_wake p wk s) = cur s"
  "link_end (pipe_wake p wk s) = link_end s" "link_data (pipe_wake p wk s) = link_data s"
  by (simp_all add: pipe_wake_def)

lemma ksleep_sel [simp]:
  "files (ksleep ch s) = files s" "pipes (ksleep ch s) = pipes s" "phys (ksleep ch s) = phys s" "cur (ksleep ch s) = cur s"
  "link_end (ksleep ch s) = link_end s" "link_data (ksleep ch s) = link_data s"
  by (simp_all add: ksleep_def)

lemma fsys_more_kern: "fsys.more t = fsys.more s \<Longrightarrow> files t = files s \<and> pipes t = pipes s \<and> phys t = phys s \<and> ptab t = ptab s \<and> cur t = cur s \<and>
    link_end t = link_end s \<and> link_data t = link_data s" for s t :: kern
  by (cases s; cases t) simp

text \<open>Every field of the kernel that the file system keeps, for all its operations.\<close>

lemmas kern_frames = fs_frames [THEN fsys_more_kern]

end
