(* ===== verification/File_Refs.thy ===== *)
theory File_Refs
  imports File_Table
begin

text \<open>
  Reference counting in the file table, and what it means for pipes. A run interleaves the operations on files with everything else that uses
  the page allocator; the multiset \<open>H\<close> holds the references handed out, \<open>X\<close> the pages that belong to others. In every run the count of an
  entry is the number of its references, the open flags of a pipe say which of its ends still have a reference, and its page is in nobody
  else's hands.
\<close>

inductive file_run :: "kern \<Rightarrow> nat multiset \<Rightarrow> nat set \<Rightarrow> bool" where
  boot: "(\<And>f. f_ref (files s f) = 0 \<and> f_type (files s f) = FD_NONE) \<Longrightarrow> free_pages (link_end s) (phys s) ps \<Longrightarrow> file_run s {#} {}"
| alloc: "file_run s H X \<Longrightarrow> filealloc s = (Some f, s') \<Longrightarrow> file_run s' (add_mset f H) X"
| set_inode: "file_run s H X \<Longrightarrow> f \<in># H \<Longrightarrow> f_type (files s f) \<noteq> FD_PIPE \<Longrightarrow>
    file_run (upd_file f (\<lambda>x. x\<lparr>f_type := FD_INODE, f_ip := ip, f_off := 0, f_readable := r, f_writable := w\<rparr>) s) H X"
| pipe: "file_run s H X \<Longrightarrow> pipealloc s = Ok (Some (f0, f1), s') \<Longrightarrow> file_run s' (add_mset f0 (add_mset f1 H)) X"
| no_pipe: "file_run s H X \<Longrightarrow> pipealloc s = Ok (None, s') \<Longrightarrow> file_run s' H X"
| dup: "file_run s H X \<Longrightarrow> f \<in># H \<Longrightarrow> filedup f s = Ok (f', s') \<Longrightarrow> file_run s' (add_mset f' H) X"
| close: "file_run s H X \<Longrightarrow> f \<in># H \<Longrightarrow> fileclose f s = Ok s' \<Longrightarrow> file_run s' (H - {#f#}) X"
| read: "file_run s H X \<Longrightarrow> f \<in># H \<Longrightarrow> fileread f n s = Ok (r, d, s') \<Longrightarrow> file_run s' H X"
| modify: "file_run s H X \<Longrightarrow> f \<in># H \<Longrightarrow> filewrite f d n s = Ok (r, d', s') \<Longrightarrow> file_run s' H X"
| take_page: "file_run s H X \<Longrightarrow> kalloc (phys s) = (p, m) \<Longrightarrow> p \<noteq> 0 \<Longrightarrow> file_run (s\<lparr>phys := m\<rparr>) H (insert p X)"
| use_page: "file_run s H X \<Longrightarrow> p \<in> X \<Longrightarrow> i < PGSIZE \<Longrightarrow> file_run (s\<lparr>phys := (phys s)\<lparr>pmem := (pmem (phys s))(p + i := w)\<rparr>\<rparr>) H X"
| give_page: "file_run s H X \<Longrightarrow> p \<in> X \<Longrightarrow> kfree (link_end s) p (phys s) = Ok m \<Longrightarrow> file_run (s\<lparr>phys := m\<rparr>) H (X - {p})"
| others: "file_run s H X \<Longrightarrow> file_run (s\<lparr>ptab := t, cur := c\<rparr>) H X"

section \<open>The invariant\<close>

text \<open>The files that are the reading (\<open>False\<close>) or writing (\<open>True\<close>) end of a pipe.\<close>

definition ends :: "(nat \<Rightarrow> kfile) \<Rightarrow> nat \<Rightarrow> bool \<Rightarrow> nat set" where
  "ends fs p w = {f. f < NFILE \<and> f_type (fs f) = FD_PIPE \<and> f_pipe (fs f) = p \<and> f_writable (fs f) = w}"

definition pipe_pages :: "(nat \<Rightarrow> kfile) \<Rightarrow> nat set" where
  "pipe_pages fs = {p. \<exists>w. ends fs p w \<noteq> {}}"

definition count_ok :: "(nat \<Rightarrow> kfile) \<Rightarrow> nat multiset \<Rightarrow> bool" where
  "count_ok fs H \<longleftrightarrow> set_mset H \<subseteq> {..<NFILE} \<and> (\<forall>f < NFILE. f_ref (fs f) = int (count H f) \<and> (count H f = 0 \<longrightarrow> f_type (fs f) = FD_NONE))"

definition ends_ok :: "(nat \<Rightarrow> kfile) \<Rightarrow> (nat \<Rightarrow> pipe) \<Rightarrow> bool" where
  "ends_ok fs pp \<longleftrightarrow> (\<forall>p w. \<forall>f \<in> ends fs p w. \<forall>g \<in> ends fs p w. f = g) \<and>
     (\<forall>p \<in> pipe_pages fs. readopen (pp p) = (ends fs p False \<noteq> {}) \<and> writeopen (pp p) = (ends fs p True \<noteq> {}))"

definition pages_ok :: "kern \<Rightarrow> nat set \<Rightarrow> bool" where
  "pages_ok s X \<longleftrightarrow> (\<exists>ps. free_pages (link_end s) (phys s) ps \<and> X \<inter> pipe_pages (files s) = {} \<and>
     (\<forall>p \<in> X \<union> pipe_pages (files s). page_ok (link_end s) p \<and> p \<notin> set ps))"

definition file_inv :: "kern \<Rightarrow> nat multiset \<Rightarrow> nat set \<Rightarrow> bool" where
  "file_inv s H X \<longleftrightarrow> count_ok (files s) H \<and> ends_ok (files s) (pipes s) \<and> pages_ok s X"

lemma ends_same:
  assumes "f_type (x :: kfile) = f_type (fs f)" "f_pipe x = f_pipe (fs f)" "f_writable x = f_writable (fs f)"
  shows "ends (fs(f := x)) = ends fs" "pipe_pages (fs(f := x)) = pipe_pages fs"
proof -
  show "ends (fs(f := x)) = ends fs" using assms by (auto simp: ends_def fun_eq_iff)
  then show "pipe_pages (fs(f := x)) = pipe_pages fs" by (simp add: pipe_pages_def)
qed

lemma ends_drop:
  assumes "f_type x \<noteq> FD_PIPE"
  shows "ends (fs(f := x)) p w = ends fs p w - {f}"
  using assms by (auto simp: ends_def)

lemma ends_add:
  assumes "f_type x = FD_PIPE" "f_type (fs f) \<noteq> FD_PIPE" "f < NFILE"
  shows "ends (fs(f := x)) p w = (if p = f_pipe x \<and> w = f_writable x then insert f (ends fs p w) else ends fs p w)"
  using assms by (auto simp: ends_def)

text \<open>The invariant only looks at the file table, the flags of the pipes and the free pages.\<close>

lemma file_inv_cong:
  assumes "file_inv s H X" and "ends (files t) = ends (files s)" and "phys t = phys s" and "link_end t = link_end s"
    and "\<And>p. readopen (pipes t p) = readopen (pipes s p)" "\<And>p. writeopen (pipes t p) = writeopen (pipes s p)"
    and "count_ok (files t) H'"
  shows "file_inv t H' X"
  using assms by (simp add: file_inv_def ends_ok_def pages_ok_def pipe_pages_def)

lemma file_inv_count: "file_inv s H X \<Longrightarrow> f \<in># H \<Longrightarrow> f < NFILE \<and> f_ref (files s f) = int (count H f) \<and> 0 < count H f"
  by (auto simp: file_inv_def count_ok_def)

lemma filealloc_inv:
  assumes inv: "file_inv s H X" and a: "filealloc s = (Some f, s')"
  shows "file_inv s' (add_mset f H) X \<and> f \<notin># H \<and> f_type (files s' f) = FD_NONE"
proof -
  have f: "f < NFILE" "f_ref (files s f) = 0" "s' = upd_file f (f_ref_update (\<lambda>_. 1)) s"
    using a by (auto simp: filealloc_def dest: find_SomeD split: option.splits)
  then have c: "count H f = 0" using inv by (simp add: file_inv_def count_ok_def)
  then have "count_ok (files s') (add_mset f H)" using inv f by (auto simp: file_inv_def count_ok_def)
  then have "file_inv s' (add_mset f H) X" using inv by (rule_tac file_inv_cong [of s H X]) (auto simp: f(3) ends_same)
  then show ?thesis using c f inv by (simp add: file_inv_def count_ok_def not_in_iff)
qed

lemma filealloc_None: "filealloc s = (None, s') \<Longrightarrow> s' = s"
  by (simp add: filealloc_def split: option.splits)

lemma filedup_inv:
  assumes inv: "file_inv s H X" and f: "f \<in># H"
  shows "\<exists>s'. filedup f s = Ok (f, s') \<and> file_inv s' (add_mset f H) X"
proof -
  let ?s = "upd_file f (f_ref_update (\<lambda>r. r + 1)) s"
  have n: "f < NFILE" "0 < f_ref (files s f)" using file_inv_count [OF inv f] by auto
  have "count_ok (files ?s) (add_mset f H)" using inv n by (auto simp: file_inv_def count_ok_def)
  then have "file_inv ?s (add_mset f H) X" using inv by (rule_tac file_inv_cong [of s H X]) (auto simp: ends_same)
  then show ?thesis using n by (simp add: filedup_def)
qed

lemma ends_live: "file_inv s H X \<Longrightarrow> f \<in> ends (files s) p w \<Longrightarrow> f \<in># H"
  by (auto simp: file_inv_def count_ok_def ends_def not_in_iff [symmetric])

text \<open>The pages after an entry stopped being an end of the pipe \<open>p\<close>.\<close>

lemma close_end:
  assumes inv: "file_inv s H X" and f: "f < NFILE" "f_type (files s f) = FD_PIPE" and x: "f_type x = FD_NONE"
    and fs: "fs = (files s)(f := x)" and p: "p = f_pipe (files s f)" and w: "w = f_writable (files s f)"
  shows "ends fs p w = {}" "ends fs p (\<not> w) = ends (files s) p (\<not> w)" "q \<noteq> p \<Longrightarrow> ends fs q = ends (files s) q"
    "pipe_pages fs = (if ends (files s) p (\<not> w) = {} then pipe_pages (files s) - {p} else pipe_pages (files s))" "p \<in> pipe_pages (files s)"
proof -
  have f': "f \<in> ends (files s) p w" using f p w by (simp add: ends_def)
  then have one: "ends (files s) p w = {f}" using inv by (fastforce simp: file_inv_def ends_ok_def)
  have d: "ends fs q v = ends (files s) q v - {f}" for q v unfolding fs by (rule ends_drop) (simp add: x)
  show 1: "ends fs p w = {}" by (simp add: d one)
  show 2: "ends fs p (\<not> w) = ends (files s) p (\<not> w)" unfolding d using w by (auto simp: ends_def)
  have 3: "ends fs q = ends (files s) q" if "q \<noteq> p" for q using that p unfolding fun_eq_iff d by (auto simp: ends_def)
  then show "q \<noteq> p \<Longrightarrow> ends fs q = ends (files s) q" .
  show 5: "p \<in> pipe_pages (files s)" using f' by (auto simp: pipe_pages_def)
  have "q \<in> pipe_pages fs \<longleftrightarrow> q \<in> pipe_pages (files s) \<and> (q = p \<longrightarrow> ends (files s) p (\<not> w) \<noteq> {})" for q
  proof (cases "q = p")
    case True
    have "(\<exists>v. ends fs p v \<noteq> {}) \<longleftrightarrow> ends fs p (\<not> w) \<noteq> {}" using 1 by (cases w) (auto simp: ex_bool_eq)
    then show ?thesis using True 2 5 by (simp add: pipe_pages_def)
  qed (simp add: pipe_pages_def 3)
  then show "pipe_pages fs = (if ends (files s) p (\<not> w) = {} then pipe_pages (files s) - {p} else pipe_pages (files s))" by auto
qed

lemma kpipeclose_inv:
  assumes inv: "file_inv s H X" and f: "f < NFILE" "f_type (files s f) = FD_PIPE" and x: "f_type x = FD_NONE"
    and c: "count_ok ((files s)(f := x)) H'"
    and t: "files t = (files s)(f := x)" "pipes t = pipes s" "phys t = phys s" "link_end t = link_end s"
  shows "\<exists>s'. kpipeclose (f_pipe (files s f)) (f_writable (files s f)) t = Ok s' \<and> file_inv s' H' X"
proof -
  define p w where "p = f_pipe (files s f)" and "w = f_writable (files s f)"
  note ce = close_end [OF inv f x refl p_def w_def, folded t(1)]
  obtain pp wk g where pc: "pipeclose (pipes s p) w = (pp, wk, g)" by (metis prod_cases3)
  have fl: "(if w then writeopen pp else readopen pp) = False" "(if w then readopen pp else writeopen pp) = (ends (files s) p (\<not> w) \<noteq> {})"
    "g = (ends (files s) p (\<not> w) = {})"
    using pc inv ce(5) by (auto simp: pipeclose_def file_inv_def ends_ok_def split: if_splits)
  define u where "u = pipe_wake p wk (t\<lparr>pipes := (pipes s)(p := pp)\<rparr>)"
  have eo: "ends_ok (files u) (pipes u)"
    unfolding ends_ok_def
  proof (intro conjI allI ballI)
    fix q v a b assume "a \<in> ends (files u) q v" "b \<in> ends (files u) q v"
    then have "a \<in> ends (files s) q v" "b \<in> ends (files s) q v" using x by (auto simp: u_def t(1) ends_drop)
    then show "a = b" using inv by (simp add: file_inv_def ends_ok_def)
  next
    fix q assume q: "q \<in> pipe_pages (files u)"
    show "readopen (pipes u q) = (ends (files u) q False \<noteq> {})" "writeopen (pipes u q) = (ends (files u) q True \<noteq> {})"
      using q inv fl(1,2) ce(1-4) by (cases "q = p"; cases w; auto simp: u_def file_inv_def ends_ok_def split: if_splits)+
  qed
  obtain ps where ps: "free_pages (link_end s) (phys s) ps" "X \<inter> pipe_pages (files s) = {}"
    "\<forall>p \<in> X \<union> pipe_pages (files s). page_ok (link_end s) p \<and> p \<notin> set ps" using inv by (auto simp: file_inv_def pages_ok_def)
  have co: "count_ok (files u) H'" using c by (simp add: u_def t(1))
  show ?thesis
  proof (cases g)
    case True
    have pp: "page_ok (link_end s) p" "p \<notin> set ps" using ps(3) ce(5) by auto
    from km.give [OF ps(1) pp] obtain m where m: "kfree (link_end s) p (phys s) = Ok m" "free_pages (link_end s) m (p # ps)" by blast
    have "pages_ok (u\<lparr>phys := m\<rparr>) X" unfolding pages_ok_def
      using m(2) ps(2,3) ce(4,5) True fl(3) by (intro exI [of _ "p # ps"]) (auto simp: u_def t)
    then have "file_inv (u\<lparr>phys := m\<rparr>) H' X" using eo co by (simp add: file_inv_def)
    then show ?thesis using pc True m(1) by (simp add: kpipeclose_def p_def w_def u_def t Let_def)
  next
    case False
    have "pages_ok u X" unfolding pages_ok_def using ps ce(4) False fl(3) by (intro exI [of _ ps]) (auto simp: u_def t)
    then have "file_inv u H' X" using eo co by (simp add: file_inv_def)
    then show ?thesis using pc False by (simp add: kpipeclose_def p_def w_def u_def t Let_def)
  qed
qed

lemma kpipeclose_files: "kpipeclose p w t = Ok s' \<Longrightarrow> files s' = files t"
  by (auto simp: kpipeclose_def kbind_Ok Let_def split: prod.splits if_splits)

lemma fileclose_files:
  assumes "fileclose f s = Ok s'"
  shows "files s' = (files s)(f := (files s f)\<lparr>f_ref := f_ref (files s f) - 1, f_type := if f_ref (files s f) > 1 then f_type (files s f) else FD_NONE\<rparr>)"
proof -
  let ?s1 = "upd_file f (f_ref_update (\<lambda>r. r - 1)) s"
  let ?s2 = "upd_file f (\<lambda>x. x\<lparr>f_ref := 0, f_type := FD_NONE\<rparr>) ?s1"
  have r: "\<not> f_ref (files s f) < 1" using assms by (auto simp: fileclose_def)
  show ?thesis
  proof (cases "f_ref (files s f) > 1")
    case True
    then show ?thesis using assms r by (auto simp: fileclose_def Let_def fun_eq_iff)
  next
    case False
    then have one: "f_ref (files s f) = 1" using r by simp
    have "files s' = files ?s2"
      using assms one fsys_more_kern [OF iput_frame, of "f_ip (files s f)" ?s2 s'] kpipeclose_files [of "f_pipe (files s f)" "f_writable (files s f)" ?s2 s']
      by (cases "f_type (files s f)") (auto simp: fileclose_def Let_def)
    then show ?thesis using one by simp
  qed
qed

lemma fileclose_inv:
  assumes inv: "file_inv s H X" and f: "f \<in># H"
  shows "fileclose f s = Ok s' \<Longrightarrow> file_inv s' (H - {#f#}) X"
    and "f_type (files s f) \<noteq> FD_INODE \<Longrightarrow> \<exists>s'. fileclose f s = Ok s'"
proof -
  let ?s1 = "upd_file f (f_ref_update (\<lambda>r. r - 1)) s"
  let ?x = "(files s f)\<lparr>f_ref := 0, f_type := FD_NONE\<rparr>"
  let ?s2 = "upd_file f (\<lambda>x. x\<lparr>f_ref := 0, f_type := FD_NONE\<rparr>) ?s1"
  note n = file_inv_count [OF inv f]
  have more: "file_inv ?s1 (H - {#f#}) X" if "1 < count H f"
  proof -
    have "count_ok (files ?s1) (H - {#f#})" using inv n that by (auto simp: file_inv_def count_ok_def dest: in_diffD)
    then show ?thesis using inv by (rule_tac file_inv_cong [of s H X]) (auto simp: ends_same)
  qed
  have last: "count_ok ((files s)(f := ?x)) (H - {#f#})" if "count H f = 1"
    using inv n that by (auto simp: file_inv_def count_ok_def dest: in_diffD)
  have s2: "files ?s2 = (files s)(f := ?x)" by simp
  have c: "fileclose f s = (if 1 < count H f then Ok ?s1 else case f_type (files s f) of
     FD_PIPE \<Rightarrow> kpipeclose (f_pipe (files s f)) (f_writable (files s f)) ?s2 | FD_INODE \<Rightarrow> iput (f_ip (files s f)) ?s2 | FD_NONE \<Rightarrow> Ok ?s2)"
    using n by (cases "f_type (files s f)") (auto simp: fileclose_def Let_def simp del: count_greater_zero_iff)
  have other: "file_inv ?s2 (H - {#f#}) X" if "count H f = 1" "f_type (files s f) \<noteq> FD_PIPE"
  proof -
    have "ends (files ?s2) = ends (files s)" using that(2) unfolding fun_eq_iff s2 by (subst ends_drop) (auto simp: ends_def)
    then show ?thesis using inv last [OF that(1)] by (rule_tac file_inv_cong [of s H X]) (auto simp: s2)
  qed
  have pipe: "\<exists>s'. kpipeclose (f_pipe (files s f)) (f_writable (files s f)) ?s2 = Ok s' \<and> file_inv s' (H - {#f#}) X"
    if "count H f = 1" "f_type (files s f) = FD_PIPE"
    by (rule kpipeclose_inv [OF inv _ that(2) _ last [OF that(1)]]) (use n in auto)
  have k: "count H f = 1" if "\<not> 1 < count H f" using n that by linarith
  show "file_inv s' (H - {#f#}) X" if "fileclose f s = Ok s'"
  proof (cases "1 < count H f")
    case True
    then show ?thesis using that more by (simp add: c)
  next
    case False
    note k = k [OF False]
    show ?thesis
    proof (cases "f_type (files s f)")
      case FD_NONE
      then show ?thesis using that other [OF k] k by (simp add: c)
    next
      case FD_PIPE
      then show ?thesis using that pipe [OF k] k by (auto simp: c)
    next
      case FD_INODE
      then have "iput (f_ip (files s f)) ?s2 = Ok s'" using that k by (simp add: c)
      from fsys_more_kern [OF iput_frame [OF this]] show ?thesis using other [OF k] FD_INODE
        by (rule_tac file_inv_cong [of ?s2 "H - {#f#}" X]) (auto simp: file_inv_def)
    qed
  qed
  show "\<exists>s'. fileclose f s = Ok s'" if "f_type (files s f) \<noteq> FD_INODE"
    using that pipe k by (cases "f_type (files s f)") (auto simp: c)
qed

lemma ends_pair:
  assumes f: "f0 < NFILE" "f1 < NFILE" "f0 \<noteq> f1" "f_type (fs f0) \<noteq> FD_PIPE" "f_type (fs f1) \<noteq> FD_PIPE" and p: "p \<notin> pipe_pages fs"
    and fs': "fs' = fs(f0 := pipe_file p False (fs f0), f1 := pipe_file p True (fs f1))"
  shows "ends fs' p False = {f0}" "ends fs' p True = {f1}" "q \<noteq> p \<Longrightarrow> ends fs' q = ends fs q" "pipe_pages fs' = insert p (pipe_pages fs)"
proof -
  have e: "ends fs p v = {}" for v using p by (auto simp: pipe_pages_def)
  have 1: "ends fs' q v = (if q = p then if v then {f1} else {f0} else ends fs q v)" for q v
  proof -
    let ?fs = "fs(f0 := pipe_file p False (fs f0))"
    have "ends ?fs q v = (if q = p \<and> \<not> v then insert f0 (ends fs q v) else ends fs q v)"
      using ends_add [of "pipe_file p False (fs f0)" fs f0 q v] f by (simp add: pipe_file_def)
    moreover have "ends fs' q v = (if q = p \<and> v then insert f1 (ends ?fs q v) else ends ?fs q v)"
      using ends_add [of "pipe_file p True (fs f1)" ?fs f1 q v] f unfolding fs' by (simp add: pipe_file_def)
    ultimately show ?thesis using e by (cases "q = p"; cases v) simp_all
  qed
  show "ends fs' p False = {f0}" "ends fs' p True = {f1}" by (simp_all add: 1)
  show "q \<noteq> p \<Longrightarrow> ends fs' q = ends fs q" by (simp add: fun_eq_iff 1)
  have "q \<in> pipe_pages fs' \<longleftrightarrow> q \<in> insert p (pipe_pages fs)" for q
    by (cases "q = p") (simp_all add: pipe_pages_def 1 ex_bool_eq)
  then show "pipe_pages fs' = insert p (pipe_pages fs)" by blast
qed

lemma pipealloc_inv:
  assumes inv: "file_inv s H X"
  shows "(\<exists>s'. pipealloc s = Ok (None, s') \<and> file_inv s' H X) \<or>
    (\<exists>f0 f1 s'. pipealloc s = Ok (Some (f0, f1), s') \<and> file_inv s' (add_mset f0 (add_mset f1 H)) X)"
proof (cases "filealloc s")
  case (Pair r0 s0)
  show ?thesis
  proof (cases r0)
    case None
    then have "s0 = s" using Pair filealloc_None by simp
    then show ?thesis using inv Pair None by (simp add: pipealloc_def)
  next
    case (Some f0)
    from filealloc_inv [OF inv Pair [unfolded Some]] have i0: "file_inv s0 (add_mset f0 H) X" and t0: "f_type (files s0 f0) = FD_NONE" "f0 \<notin># H" by blast+
    obtain r1 s1 where a1: "filealloc s0 = (r1, s1)" by force
    show ?thesis
    proof (cases r1)
      case None
      then have s1: "s1 = s0" using a1 filealloc_None by simp
      obtain u where u: "fileclose f0 s0 = Ok u" using fileclose_inv(2) [OF i0, of f0] t0(1) by auto
      then have "file_inv u H X" using fileclose_inv(1) [OF i0 _ u] by simp
      then show ?thesis using Pair Some a1 None s1 u by (simp add: pipealloc_def)
    next
      case (Some f1)
      note a1 = a1 [unfolded Some]
      from filealloc_inv [OF i0 a1] have i1: "file_inv s1 (add_mset f1 (add_mset f0 H)) X" and t1: "f_type (files s1 f1) = FD_NONE" "f1 \<noteq> f0" by auto
      have t0': "f_type (files s1 f0) = FD_NONE" using a1 t0 t1(2) by (auto simp: filealloc_def split: option.splits)
      obtain p m where k: "kalloc (phys s1) = (p, m)" by force
      have s1m: "s1\<lparr>phys := phys s1\<rparr> = s1" by simp
      obtain ps where ps: "free_pages (link_end s1) (phys s1) ps" "X \<inter> pipe_pages (files s1) = {}"
        "\<forall>p \<in> X \<union> pipe_pages (files s1). page_ok (link_end s1) p \<and> p \<notin> set ps" using i1 by (auto simp: file_inv_def pages_ok_def)
      note sel = Pair \<open>r0 = Some f0\<close> a1 k
      show ?thesis
      proof (cases ps)
        case Nil
        then have m: "p = 0" "m = phys s1" using km.take_empty ps(1) k by auto
        obtain u where u: "fileclose f0 s1 = Ok u" using fileclose_inv(2) [OF i1, of f0] t0' by auto
        then have iu: "file_inv u (add_mset f1 H) X" using fileclose_inv(1) [OF i1 _ u] t1(2) by simp
        have "f_type (files u f1) = FD_NONE" using u t0' t1 by (auto simp: fileclose_def Let_def split: if_splits)
        then obtain v where v: "fileclose f1 u = Ok v" using fileclose_inv(2) [OF iu, of f1] by auto
        then have "file_inv v H X" using fileclose_inv(1) [OF iu _ v] by simp
        then show ?thesis using sel m u v s1m by (simp add: pipealloc_def)
      next
        case (Cons q qs)
        then have m: "p = q" "p \<noteq> 0" "free_pages (link_end s1) m qs" using km.take_some [of "link_end s1" "phys s1" q qs] ps(1) k by auto
        have pq: "page_ok (link_end s1) p" "p \<notin> set qs" using ps(1) Cons m(1) by (auto simp: free_pages_def)
        have pn: "p \<notin> pipe_pages (files s1)" "p \<notin> X" using ps(3) Cons m(1) by auto
        have lt: "f0 < NFILE" "f1 < NFILE" using file_inv_count [OF i1] by auto
        define s' where "s' = upd_file f1 (pipe_file p True) (upd_file f0 (pipe_file p False) (s1\<lparr>phys := m, pipes := (pipes s1)(p := pipe_init (pdata (pipes s1 p)))\<rparr>))"
        have fs': "files s' = (files s1)(f0 := pipe_file p False (files s1 f0), f1 := pipe_file p True (files s1 f1))" using t1(2) by (simp add: s'_def)
        note ep = ends_pair [OF lt t1(2) [symmetric] _ _ pn(1) fs'] 
        have e: "ends (files s') p False = {f0}" "ends (files s') p True = {f1}" "\<And>q. q \<noteq> p \<Longrightarrow> ends (files s') q = ends (files s1) q"
          "pipe_pages (files s') = insert p (pipe_pages (files s1))" using ep t0' t1(1) by simp_all
        have "ends_ok (files s') (pipes s')" unfolding ends_ok_def
        proof (intro conjI allI ballI)
          fix q w a b assume "a \<in> ends (files s') q w" "b \<in> ends (files s') q w"
          then show "a = b" using e i1 by (cases "q = p"; cases w) (auto simp: file_inv_def ends_ok_def)
        next
          fix q assume "q \<in> pipe_pages (files s')"
          then show "readopen (pipes s' q) = (ends (files s') q False \<noteq> {})" "writeopen (pipes s' q) = (ends (files s') q True \<noteq> {})"
            using e i1 by (cases "q = p"; auto simp: file_inv_def ends_ok_def s'_def pipe_init_def)+
        qed
        moreover have "pages_ok s' X" unfolding pages_ok_def using m(3) ps(2,3) pq pn e(4) Cons by (intro exI [of _ qs]) (auto simp: s'_def)
        moreover have "count_ok (files s') (add_mset f0 (add_mset f1 H))" using i1 lt unfolding fs' by (auto simp: file_inv_def count_ok_def pipe_file_def add_mset_commute)
        ultimately have "file_inv s' (add_mset f0 (add_mset f1 H)) X" by (simp add: file_inv_def)
        then show ?thesis using sel m(2) by (simp add: pipealloc_def s'_def)
      qed
    qed
  qed
qed

lemma piperead_copy_open: "piperead_copy n p = (p', cs) \<Longrightarrow> readopen p' = readopen p \<and> writeopen p' = writeopen p"
  by (induction n arbitrary: p p' cs) (auto simp: pipe_get_def split: if_splits prod.splits)

lemma piperead_open: "piperead k p n = (p', cs, wk, e) \<Longrightarrow> readopen p' = readopen p \<and> writeopen p' = writeopen p"
  by (auto simp: piperead_def Let_def split: if_splits prod.splits dest: piperead_copy_open)

lemma pipewrite_open: "pipewrite k n p d = (p', rest, wk, e) \<Longrightarrow> readopen p' = readopen p \<and> writeopen p' = writeopen p"
  by (induction k n p d rule: pipewrite.induct) (auto simp: pipe_put_def split: if_splits)

text \<open>Wake-ups and sleeping keep the descriptors and make no process die.\<close>

definition quiet :: "ptable \<Rightarrow> ptable \<Rightarrow> bool" where
  "quiet t t' \<longleftrightarrow> (\<forall>i. p_ofile (procs t' i) = p_ofile (procs t i) \<and> (\<not> alive (p_state (procs t' i)) \<longrightarrow> p_state (procs t' i) = p_state (procs t i)))"

lemma quiet_refl [simp]: "quiet t t"
  by (simp add: quiet_def)

lemma quiet_trans: "quiet t u \<Longrightarrow> quiet u v \<Longrightarrow> quiet t v"
  by (simp add: quiet_def)

lemma quiet_wakeup: "quiet t (wakeup ch t)"
  by (auto simp: quiet_def wakeup_def wakeup1_def Let_def)

lemma quiet_fold_wakeup: "quiet t (fold (\<lambda>c. wakeup (g c)) cs t)"
  by (induction cs arbitrary: t) (auto intro: quiet_trans quiet_wakeup)

lemma quiet_sleep: "quiet t (sleep_table i ch t)"
  by (auto simp: quiet_def sleep_table_def)

lemma pipe_wake_quiet: "quiet t (ptab s) \<Longrightarrow> quiet t (ptab (pipe_wake p wk s))"
  by (auto simp: pipe_wake_def intro: quiet_trans quiet_fold_wakeup)

lemma ksleep_quiet: "quiet t (ptab s) \<Longrightarrow> quiet t (ptab (ksleep ch s))"
  by (auto simp: ksleep_def intro: quiet_trans quiet_sleep)

lemma kpiperead_flags:
  assumes "kpiperead p n s = (r, d, s')"
  shows "files s' = files s" "phys s' = phys s" "link_end s' = link_end s" "cur s' = cur s" "quiet (ptab s) (ptab s')"
    "readopen (pipes s' q) = readopen (pipes s q)" "writeopen (pipes s' q) = writeopen (pipes s q)"
  using assms piperead_open [of _ "pipes s p" n] by (auto simp: kpiperead_def Let_def split: prod.splits ending.splits if_splits
      intro!: ksleep_quiet pipe_wake_quiet)

lemma kpipewrite_flags:
  assumes "kpipewrite p d n s = (r, d', s')"
  shows "files s' = files s" "phys s' = phys s" "link_end s' = link_end s" "cur s' = cur s" "quiet (ptab s) (ptab s')"
    "readopen (pipes s' q) = readopen (pipes s q)" "writeopen (pipes s' q) = writeopen (pipes s q)"
  using assms pipewrite_open [of _ n "pipes s p" d] by (auto simp: kpipewrite_def Let_def split: prod.splits ending.splits if_splits
      intro!: ksleep_quiet pipe_wake_quiet)

lemma advance_sel [simp]: "phys (advance f r s) = phys s" "pipes (advance f r s) = pipes s" "link_end (advance f r s) = link_end s"
  "ptab (advance f r s) = ptab s" "cur (advance f r s) = cur s" "ends (files (advance f r s)) = ends (files s)"
  "f_ref (files (advance f r s) g) = f_ref (files s g)" "f_type (files (advance f r s) g) = f_type (files s g)"
  by (simp_all add: advance_def ends_same)

text \<open>What reading and writing leave alone.\<close>

definition io_same :: "kern \<Rightarrow> kern \<Rightarrow> bool" where
  "io_same s t \<longleftrightarrow> ends (files t) = ends (files s) \<and> phys t = phys s \<and> link_end t = link_end s \<and> cur t = cur s \<and> quiet (ptab s) (ptab t) \<and>
     (\<forall>g. f_ref (files t g) = f_ref (files s g) \<and> f_type (files t g) = f_type (files s g)) \<and>
     (\<forall>p. readopen (pipes t p) = readopen (pipes s p) \<and> writeopen (pipes t p) = writeopen (pipes s p))"

lemma io_same_inv: "io_same s t \<Longrightarrow> file_inv s H X \<Longrightarrow> file_inv t H X"
  by (rule file_inv_cong [of s H X]) (auto simp: io_same_def file_inv_def count_ok_def)

lemma fileread_same: "fileread f n s = Ok (r, d, s') \<Longrightarrow> io_same s s'"
proof (cases "f_readable (files s f)")
  case True
  assume a: "fileread f n s = Ok (r, d, s')"
  show ?thesis
  proof (cases "f_type (files s f)")
    case FD_PIPE
    then show ?thesis using a True kpiperead_flags [of "f_pipe (files s f)" n s r d s'] by (simp add: fileread_def io_same_def)
  next
    case FD_INODE
    with a True obtain s1 d1 s2 where o: "ilock (f_ip (files s f)) s = Ok s1" "readi (f_ip (files s1 f)) (f_off (files s1 f)) (nat (n mod 2 ^ 32)) s1 = Ok (d1, d, s2)"
      "iunlock (f_ip (files (advance f d1 s2) f)) (advance f d1 s2) = Ok s'" by (auto simp: fileread_def kbind_Ok Let_def)
    from fsys_more_kern [OF ilock_frame [OF o(1)]] fsys_more_kern [OF readi_frame [OF o(2)]] fsys_more_kern [OF iunlock_frame [OF o(3)]]
    show ?thesis by (simp add: io_same_def)
  qed (use a True in \<open>simp add: fileread_def\<close>)
qed (simp add: fileread_def io_same_def)

lemma filewrite_same: "filewrite f d n s = Ok (r, d', s') \<Longrightarrow> io_same s s'"
proof (cases "f_writable (files s f)")
  case True
  assume a: "filewrite f d n s = Ok (r, d', s')"
  show ?thesis
  proof (cases "f_type (files s f)")
    case FD_PIPE
    then show ?thesis using a True kpipewrite_flags [of "f_pipe (files s f)" d n s r d' s'] by (simp add: filewrite_def io_same_def)
  next
    case FD_INODE
    with a True obtain s1 m s2 where o: "ilock (f_ip (files s f)) s = Ok s1" "writei (f_ip (files s1 f)) d (f_off (files s1 f)) s1 = Ok (m, s2)"
      "iunlock (f_ip (files (advance f m s2) f)) (advance f m s2) = Ok s'" by (auto simp: filewrite_def kbind_Ok Let_def)
    from fsys_more_kern [OF ilock_frame [OF o(1)]] fsys_more_kern [OF writei_frame [OF o(2)]] fsys_more_kern [OF iunlock_frame [OF o(3)]]
    show ?thesis by (simp add: io_same_def)
  qed (use a True in \<open>simp add: filewrite_def\<close>)
qed (simp add: filewrite_def io_same_def)

text \<open>Pages that change hands beside the file table.\<close>

lemma take_page_inv:
  assumes inv: "file_inv s H X" and k: "kalloc (phys s) = (p, m)" "p \<noteq> 0"
  shows "file_inv (s\<lparr>phys := m\<rparr>) H (insert p X)"
proof -
  obtain ps where ps: "free_pages (link_end s) (phys s) ps" "X \<inter> pipe_pages (files s) = {}"
    "\<forall>p \<in> X \<union> pipe_pages (files s). page_ok (link_end s) p \<and> p \<notin> set ps" using inv by (auto simp: file_inv_def pages_ok_def)
  from ps(1) k obtain qs where q: "ps = p # qs" using km.take_empty [of "link_end s" "phys s"] km.take_some [of "link_end s" "phys s"] by (cases ps) auto
  with km.take_some [of "link_end s" "phys s" p qs] ps(1) k have "free_pages (link_end s) m qs" by auto
  moreover have "page_ok (link_end s) p" "p \<notin> set qs" using ps(1) q by (auto simp: free_pages_def)
  ultimately have "pages_ok (s\<lparr>phys := m\<rparr>) (insert p X)" unfolding pages_ok_def using ps(2,3) q by (intro exI [of _ qs]) auto
  then show ?thesis using inv by (simp add: file_inv_def)
qed

lemma give_page_inv:
  assumes inv: "file_inv s H X" and p: "p \<in> X" and k: "kfree (link_end s) p (phys s) = Ok m"
  shows "file_inv (s\<lparr>phys := m\<rparr>) H (X - {p})"
proof -
  obtain ps where ps: "free_pages (link_end s) (phys s) ps" "X \<inter> pipe_pages (files s) = {}"
    "\<forall>p \<in> X \<union> pipe_pages (files s). page_ok (link_end s) p \<and> p \<notin> set ps" using inv by (auto simp: file_inv_def pages_ok_def)
  with km.give [of "link_end s" "phys s" ps p] p k have "free_pages (link_end s) m (p # ps)" by auto
  then have "pages_ok (s\<lparr>phys := m\<rparr>) (X - {p})" unfolding pages_ok_def using ps p by (intro exI [of _ "p # ps"]) auto
  then show ?thesis using inv by (simp add: file_inv_def)
qed

lemma use_page_inv:
  assumes inv: "file_inv s H X" and p: "p \<in> X" and i: "i < PGSIZE"
  shows "file_inv (s\<lparr>phys := (phys s)\<lparr>pmem := (pmem (phys s))(p + i := w)\<rparr>\<rparr>) H X"
proof -
  obtain ps where ps: "free_pages (link_end s) (phys s) ps" "X \<inter> pipe_pages (files s) = {}"
    "\<forall>p \<in> X \<union> pipe_pages (files s). page_ok (link_end s) p \<and> p \<notin> set ps" using inv by (auto simp: file_inv_def pages_ok_def)
  have "q \<noteq> p + i" if q: "q \<in> set ps" for q
  proof
    assume e: "q = p + i"
    have "page_ok (link_end s) q" "page_ok (link_end s) p" "q \<noteq> p" using q p ps by (auto simp: free_pages_def)
    from page_ok_distinct_apart [OF this] show False using e i by simp
  qed
  then have "free_pages (link_end s) ((phys s)\<lparr>pmem := (pmem (phys s))(p + i := w)\<rparr>) ps" by (intro free_pages_frame [OF ps(1)]) auto
  then have "pages_ok (s\<lparr>phys := (phys s)\<lparr>pmem := (pmem (phys s))(p + i := w)\<rparr>\<rparr>) X" unfolding pages_ok_def using ps by (intro exI [of _ ps]) auto
  then show ?thesis using inv by (simp add: file_inv_def)
qed

lemma file_run_inv: "file_run s H X \<Longrightarrow> file_inv s H X"
proof (induction rule: file_run.induct)
  case (boot s ps)
  then have "ends (files s) p w = {}" for p w by (auto simp: ends_def)
  then show ?case using boot by (auto simp: file_inv_def count_ok_def ends_ok_def pages_ok_def pipe_pages_def)
next
  case (set_inode s H X f w r ip)
  let ?s = "upd_file f (\<lambda>x. x\<lparr>f_type := FD_INODE, f_ip := ip, f_off := 0, f_readable := r, f_writable := w\<rparr>) s"
  have "ends (files ?s) = ends (files s)" using set_inode(3) unfolding fun_eq_iff upd_file_sel by (subst ends_drop) (auto simp: ends_def)
  then show ?case using set_inode file_inv_count [OF set_inode(4,2)] by (rule_tac file_inv_cong [of s H X]) (auto simp: file_inv_def count_ok_def)
next
  case (pipe s H X f0 f1 s')
  then show ?case using pipealloc_inv [of s H X] by auto
next
  case (no_pipe s H X s')
  then show ?case using pipealloc_inv [of s H X] by auto
next
  case (dup s H X f f' s')
  then show ?case using filedup_inv [of s H X f] by auto
next
  case (others s H X t c)
  then show ?case by (rule_tac file_inv_cong [of s H X]) (auto simp: file_inv_def)
qed (auto intro: filealloc_inv [THEN conjunct1] fileclose_inv(1) take_page_inv give_page_inv use_page_inv dest: fileread_same filewrite_same intro: io_same_inv)

section \<open>Properties\<close>

text \<open>
  C25. Whatever the interleaving of opening, duplicating, closing, reading and writing files, of creating pipes and of all other uses of the page
  allocator: the reference count of an open file is the number of references handed out; a pipe is open for reading, or for writing, exactly
  as long as a reference to its reading, or writing, end is held; its page is neither free nor owned by anyone else; and duplicating or
  closing a reference never panics.
\<close>

theorem pipe_ends_follow_references:
  assumes "file_run s H X" and "f \<in># H" and "f_type (files s f) = FD_PIPE"
  shows "f_ref (files s f) = int (count H f) \<and>
    (readopen (pipes s (f_pipe (files s f))) \<longleftrightarrow>
       (\<exists>g \<in># H. f_type (files s g) = FD_PIPE \<and> f_pipe (files s g) = f_pipe (files s f) \<and> \<not> f_writable (files s g))) \<and>
    (writeopen (pipes s (f_pipe (files s f))) \<longleftrightarrow>
       (\<exists>g \<in># H. f_type (files s g) = FD_PIPE \<and> f_pipe (files s g) = f_pipe (files s f) \<and> f_writable (files s g))) \<and>
    (\<exists>ps. free_pages (link_end s) (phys s) ps \<and> f_pipe (files s f) \<notin> set ps \<union> X) \<and>
    (\<exists>s'. filedup f s = Ok (f, s')) \<and> (\<exists>s'. fileclose f s = Ok s')"
proof -
  note inv = file_run_inv [OF assms(1)]
  have p: "f_pipe (files s f) \<in> pipe_pages (files s)" using assms(3) file_inv_count [OF inv assms(2)] by (auto simp: pipe_pages_def ends_def)
  have e: "ends (files s) q w \<noteq> {} \<longleftrightarrow> (\<exists>g \<in># H. f_type (files s g) = FD_PIPE \<and> f_pipe (files s g) = q \<and> f_writable (files s g) = w)" for q w
    using ends_live [OF inv] file_inv_count [OF inv] by (auto simp: ends_def)
  have "readopen (pipes s (f_pipe (files s f))) = (ends (files s) (f_pipe (files s f)) False \<noteq> {})"
    "writeopen (pipes s (f_pipe (files s f))) = (ends (files s) (f_pipe (files s f)) True \<noteq> {})"
    using inv p by (simp_all add: file_inv_def ends_ok_def)
  moreover have "\<exists>ps. free_pages (link_end s) (phys s) ps \<and> f_pipe (files s f) \<notin> set ps \<union> X" using inv p by (auto simp: file_inv_def pages_ok_def)
  ultimately show ?thesis unfolding e using file_inv_count [OF inv assms(2)] filedup_inv [OF inv assms(2)] fileclose_inv(2) [OF inv assms(2)] assms(3) by auto
qed

text \<open>A kernel with nothing open and one free page, the pipe made there, and the pipe after its writing end is closed.\<close>

definition idle_kern :: kern where
  "idle_kern = fsys.extend small_fs (kern.fields
     (\<lambda>_. \<lparr>f_type = FD_NONE, f_ref = 0, f_readable = False, f_writable = False, f_pipe = 0, f_ip = 0, f_off = 0\<rparr>)
     (\<lambda>_. pipe_init (replicate PIPESIZE 0)) \<lparr>freelist = 8192, pmem = \<lambda>_. 0\<rparr> (tab run_first) 0 0 0 4096 0x100000)"

definition piped_kern :: kern where
  "piped_kern = (case pipealloc idle_kern of Ok (_, s) \<Rightarrow> s)"

definition half_kern :: kern where
  "half_kern = (case fileclose 1 piped_kern of Ok s \<Rightarrow> s)"

lemma idle_kern_sel: "files idle_kern f = \<lparr>f_type = FD_NONE, f_ref = 0, f_readable = False, f_writable = False, f_pipe = 0, f_ip = 0, f_off = 0\<rparr>"
  "phys idle_kern = \<lparr>freelist = 8192, pmem = \<lambda>_. 0\<rparr>" "link_end idle_kern = 4096"
  by (simp_all add: idle_kern_def fsys.defs kern.defs small_fs_def)

lemma idle_kern_run: "file_run idle_kern {#} {}"
  by (rule file_run.boot [where ps = "[8192]"])
    (simp_all add: idle_kern_sel free_pages_def run_next_def page_ok_def PGSIZE_def PHYSTOP_def)

lemma piped_kern_alloc: "pipealloc idle_kern = Ok (Some (0, 1), piped_kern)"
  by (simp add: pipealloc_def piped_kern_def filealloc_def idle_kern_sel NFILE_def upt_conv_Cons kalloc_def)

lemma piped_kern_run: "file_run piped_kern {#0, 1#} {}"
  using file_run.pipe [OF idle_kern_run piped_kern_alloc] by simp

lemma piped_kern_files: "files piped_kern 0 = pipe_file 8192 False ((files idle_kern 0)\<lparr>f_ref := 1\<rparr>)"
  "files piped_kern 1 = pipe_file 8192 True ((files idle_kern 1)\<lparr>f_ref := 1\<rparr>)"
  by (simp_all add: pipealloc_def piped_kern_def filealloc_def idle_kern_sel NFILE_def upt_conv_Cons kalloc_def)

lemma half_kern_close: "fileclose 1 piped_kern = Ok half_kern"
proof -
  obtain s' where "fileclose 1 piped_kern = Ok s'" using fileclose_inv(2) [OF file_run_inv [OF piped_kern_run], of 1] piped_kern_files(2) by (auto simp: pipe_file_def)
  then show ?thesis by (simp add: half_kern_def)
qed

lemma half_kern_files: "files half_kern 0 = files piped_kern 0"
  using fileclose_files [OF half_kern_close] by simp

lemma half_kern_run: "file_run half_kern {#0#} {}"
  using file_run.close [OF piped_kern_run _ half_kern_close] by simp

theorem pipe_ends_follow_references_witness:
  "writeopen (pipes piped_kern 8192) \<and> \<not> writeopen (pipes half_kern 8192) \<and> readopen (pipes half_kern 8192)"
  using pipe_ends_follow_references [OF piped_kern_run, of 0] pipe_ends_follow_references [OF half_kern_run, of 0]
  by (simp add: piped_kern_files half_kern_files pipe_file_def del: One_nat_def)

end
