(* ===== verification/User_Mem.thy ===== *)
theory User_Mem
  imports File_Table
begin

text \<open>
  Bytes in physical memory and in a process's address space: the rest of \<open>src/P1/xv6/xv6/kernel/vm.c\<close> (\<open>inituvm\<close>, \<open>loaduvm\<close>, \<open>uva2ka\<close>,
  \<open>copyout\<close>), the access of kernel code to user memory through the page table, and the fetching of system call arguments of
  \<open>src/P1/xv6/xv6/kernel/syscall.c\<close>. Memory is kept as 32-bit words at multiples of 4. An access of kernel code to an address with no
  page traps, and \<open>trap\<close> panics.
\<close>

section \<open>Bytes\<close>

definition get_byte :: "kmem \<Rightarrow> nat \<Rightarrow> byte" where
  "get_byte k a = ucast (drop_bit (8 * (a mod 4)) (pmem k (a - a mod 4)))"

definition set_byte :: "nat \<Rightarrow> byte \<Rightarrow> kmem \<Rightarrow> kmem" where
  "set_byte a b k = set_word (a - a mod 4)
     (pmem k (a - a mod 4) AND NOT (push_bit (8 * (a mod 4)) 0xFF) OR push_bit (8 * (a mod 4)) (ucast b)) k"

text \<open>\<open>memmove\<close> of bytes from outside the pages to physical memory.\<close>

fun put_bytes :: "nat \<Rightarrow> byte list \<Rightarrow> kmem \<Rightarrow> kmem" where
  "put_bytes a [] k = k"
| "put_bytes a (b # bs) k = put_bytes (a + 1) bs (set_byte a b k)"

section \<open>User memory seen by the kernel\<close>

definition user_addr :: "nat \<Rightarrow> nat \<Rightarrow> kmem \<Rightarrow> nat kres" where
  "user_addr pgdir va k =
     (let (pte, k) = walkpgdir pgdir va False k in
      if pte = 0 \<or> \<not> present (pmem k pte) then Panic ''trap'' else Ok (PTE_ADDR (pmem k pte) + va mod PGSIZE))"

fun load_user :: "nat \<Rightarrow> nat \<Rightarrow> nat \<Rightarrow> kmem \<Rightarrow> byte list kres" where
  "load_user pgdir va 0 k = Ok []"
| "load_user pgdir va (Suc n) k =
     kbind (user_addr pgdir va k) (\<lambda>a. kbind (load_user pgdir ((va + 1) mod 2 ^ 32) n k) (\<lambda>bs. Ok (get_byte k a # bs)))"

fun store_user :: "nat \<Rightarrow> nat \<Rightarrow> byte list \<Rightarrow> kmem \<Rightarrow> kmem kres" where
  "store_user pgdir va [] k = Ok k"
| "store_user pgdir va (b # bs) k =
     kbind (user_addr pgdir va k) (\<lambda>a. store_user pgdir ((va + 1) mod 2 ^ 32) bs (set_byte a b k))"

text \<open>The word at address 0 of the current process.\<close>

definition null_word :: "kern \<Rightarrow> 32 word kres" where
  "null_word s = kbind (load_user (p_pgdir (curproc s)) 0 4 (phys s)) (\<lambda>bs. Ok (of_nat (get_le 4 bs 0)))"

section \<open>vm.c, continued\<close>

definition inituvm :: "nat \<Rightarrow> byte list \<Rightarrow> kmem \<Rightarrow> kmem kres" where
  "inituvm pgdir init k =
     (if length init \<ge> PGSIZE then Panic ''inituvm: more than a page''
      else let (mem, k) = kalloc k in
        kbind (mappages pgdir 0 PGSIZE mem (PTE_W OR PTE_U) (zero_page mem k)) (\<lambda>(_, k). Ok (put_bytes mem init k)))"

function loaduvm_loop :: "nat \<Rightarrow> nat \<Rightarrow> nat \<Rightarrow> nat \<Rightarrow> nat \<Rightarrow> nat \<Rightarrow> kern \<Rightarrow> (int \<times> kern) kres" where
  "loaduvm_loop pgdir va ip offset sz i s =
     (if i < sz then
        let (pte, m) = walkpgdir pgdir ((va + i) mod 2 ^ 32) False (phys s) in
        if pte = 0 then Panic ''loaduvm: address should exist''
        else let pa = PTE_ADDR (pmem m pte); n = (if sz - i < PGSIZE then sz - i else PGSIZE) in
          kbind (readi ip ((offset + i) mod 2 ^ 32) n s) (\<lambda>(r, d, s).
            let s = s\<lparr>phys := put_bytes pa d (phys s)\<rparr> in
            if r \<noteq> int n then Ok (- 1, s) else loaduvm_loop pgdir va ip offset sz (i + PGSIZE) s)
      else Ok (0, s))"
  by pat_completeness auto
termination by (relation "measure (\<lambda>(pgdir, va, ip, offset, sz, i, s). sz - i)") (auto simp: PGSIZE_def)

declare loaduvm_loop.simps [simp del]

definition loaduvm :: "nat \<Rightarrow> nat \<Rightarrow> nat \<Rightarrow> nat \<Rightarrow> nat \<Rightarrow> kern \<Rightarrow> (int \<times> kern) kres" where
  "loaduvm pgdir va ip offset sz s =
     (if va mod PGSIZE \<noteq> 0 then Panic ''loaduvm: addr must be page aligned'' else loaduvm_loop pgdir va ip offset sz 0 s)"

text \<open>
  \<open>uva2ka\<close> reads the entry \<open>walkpgdir\<close> returns without a check; when that is the null pointer, it reads address 0 of the current address
  space, whose word is \<open>null\<close>.
\<close>

definition uva2ka :: "32 word kres \<Rightarrow> nat \<Rightarrow> nat \<Rightarrow> kmem \<Rightarrow> nat kres" where
  "uva2ka null pgdir uva k =
     (let (pte, k) = walkpgdir pgdir uva False k in
      kbind (if pte = 0 then null else Ok (pmem k pte)) (\<lambda>e.
        if \<not> present e then Ok 0 else if e AND PTE_U = 0 then Ok 0 else Ok (PTE_ADDR e)))"

function copyout :: "32 word kres \<Rightarrow> nat \<Rightarrow> nat \<Rightarrow> byte list \<Rightarrow> kmem \<Rightarrow> (int \<times> kmem) kres" where
  "copyout null pgdir va buf k =
     (if buf = [] then Ok (0, k)
      else let va0 = PGROUNDDOWN va in
        kbind (uva2ka null pgdir va0 k) (\<lambda>pa0.
        if pa0 = 0 then Ok (- 1, k)
        else let n = min (PGSIZE - (va - va0)) (length buf) in
          copyout null pgdir ((va0 + PGSIZE) mod 2 ^ 32) (drop n buf) (put_bytes (pa0 + (va - va0)) (take n buf) k)))"
  by pat_completeness auto
termination
  by (relation "measure (\<lambda>(null, pgdir, va, buf, k). length buf)")
    (auto simp: PGROUNDDOWN_def PGSIZE_def minus_div_mult_eq_mod)

declare copyout.simps [simp del]

section \<open>syscall.c: arguments\<close>

text \<open>The sum \<open>addr+4\<close> is a 32-bit one. A failed fetch is \<open>None\<close>.\<close>

definition fetchint :: "proc \<Rightarrow> nat \<Rightarrow> kmem \<Rightarrow> int option kres" where
  "fetchint p va k =
     (if va \<ge> p_sz p \<or> (va + 4) mod 2 ^ 32 > p_sz p then Ok None
      else kbind (load_user (p_pgdir p) va 4 k) (\<lambda>bs. Ok (Some (wrap32 (int (get_le 4 bs 0))))))"

fun fetchstr_loop :: "nat \<Rightarrow> nat \<Rightarrow> nat \<Rightarrow> kmem \<Rightarrow> byte list option kres" where
  "fetchstr_loop pgdir va 0 k = Ok None"
| "fetchstr_loop pgdir va (Suc n) k =
     kbind (user_addr pgdir va k) (\<lambda>a.
       if get_byte k a = 0 then Ok (Some [])
       else kbind (fetchstr_loop pgdir (va + 1) n k) (\<lambda>r. Ok (map_option (Cons (get_byte k a)) r)))"

text \<open>The string that \<open>fetchstr\<close> finds at \<open>va\<close>, without the NUL; the source returns its length.\<close>

definition fetchstr :: "proc \<Rightarrow> nat \<Rightarrow> kmem \<Rightarrow> byte list option kres" where
  "fetchstr p va k = (if va \<ge> p_sz p then Ok None else fetchstr_loop (p_pgdir p) va (p_sz p - va) k)"

definition argint :: "nat \<Rightarrow> kern \<Rightarrow> int option kres" where
  "argint n s = fetchint (curproc s) (unat (tf_esp (p_tf (curproc s)) + 4 + 4 * of_nat n)) (phys s)"

definition to_uint :: "int \<Rightarrow> nat" where
  "to_uint i = nat (i mod 2 ^ 32)"

definition argptr :: "nat \<Rightarrow> int \<Rightarrow> kern \<Rightarrow> nat option kres" where
  "argptr n sz s = kbind (argint n s) (\<lambda>r. case r of
     None \<Rightarrow> Ok None
   | Some i \<Rightarrow> if to_uint i \<ge> p_sz (curproc s) \<or> to_uint (i + sz) > p_sz (curproc s) then Ok None else Ok (Some (to_uint i)))"

definition argstr :: "nat \<Rightarrow> kern \<Rightarrow> byte list option kres" where
  "argstr n s = kbind (argint n s) (\<lambda>r. case r of None \<Rightarrow> Ok None | Some i \<Rightarrow> fetchstr (curproc s) (to_uint i) (phys s))"

end
