(* ===== verification/Process.thy ===== *)
theory Process
  imports User_Mem
begin

text \<open>
  The process operations of \<open>src/P1/xv6/xv6/kernel/proc.c\<close> on the state of the whole kernel: the parts under the lock come from
  \<open>Proc_Table\<close>, memory from \<open>Vm\<close>, open files from \<open>File_Table\<close>, the working directory from \<open>Inode\<close>. The trap frame and the saved context, which
  live at the top of the kernel stack, are fields of the process. \<open>forkret\<close> is the address of that function.
\<close>

section \<open>proc.c\<close>

text \<open>The use of a pointer that may be null.\<close>

fun deref :: "'a option \<Rightarrow> ('a \<Rightarrow> 'b kres) \<Rightarrow> 'b kres" where
  "deref None g = Panic ''trap''"
| "deref (Some x) g = g x"

definition upd_p :: "nat \<Rightarrow> (proc \<Rightarrow> proc) \<Rightarrow> kern \<Rightarrow> kern" where
  "upd_p i g s = s\<lparr>ptab := upd_proc i g (ptab s)\<rparr>"

text \<open>\<open>safestrcpy\<close> of a string into the 16-byte name.\<close>

definition set_name :: "byte list \<Rightarrow> byte list \<Rightarrow> byte list" where
  "set_name old src = (let b = length src + 1 in map (safestrcpy (of_bytes (src @ 0 # old)) b 0 16) [b..<b + 16])"

definition allocproc :: "32 word \<Rightarrow> kern \<Rightarrow> nat option \<times> kern" where
  "allocproc forkret s = (case alloc_slot (ptab s) of
     None \<Rightarrow> (None, s)
   | Some (i, t) \<Rightarrow>
       let (ks, m) = kalloc (phys s);
           s = upd_p i (p_kstack_update (\<lambda>_. ks)) (s\<lparr>ptab := t, phys := m\<rparr>)
       in if ks = 0 then (None, upd_p i (p_state_update (\<lambda>_. UNUSED)) s)
          else (Some i, upd_p i (p_context_update (\<lambda>_. zero_context\<lparr>ctx_eip := forkret\<rparr>)) s))"

definition SEG_UCODE :: "16 word" where "SEG_UCODE = 4"
definition SEG_UDATA :: "16 word" where "SEG_UDATA = 5"
definition DPL_USER :: "16 word" where "DPL_USER = 3"
definition FL_IF :: "32 word" where "FL_IF = 0x200"

definition first_frame :: trapframe where
  "first_frame = zero_frame\<lparr>tf_cs := push_bit 3 SEG_UCODE OR DPL_USER, tf_ds := push_bit 3 SEG_UDATA OR DPL_USER,
     tf_es := push_bit 3 SEG_UDATA OR DPL_USER, tf_ss := push_bit 3 SEG_UDATA OR DPL_USER, tf_eflags := FL_IF,
     tf_esp := of_nat PGSIZE, tf_eip := 0\<rparr>"

definition initcode_name :: "byte list" where
  "initcode_name = [105, 110, 105, 116, 99, 111, 100, 101]"

definition userinit :: "32 word \<Rightarrow> byte list \<Rightarrow> kern \<Rightarrow> kern kres" where
  "userinit forkret initcode s =
     (let (p, s) = allocproc forkret s in deref p (\<lambda>p.
      let s = s\<lparr>ptab := (ptab s)\<lparr>initproc := p\<rparr>\<rparr> in
      kbind (setupkvm (link_data s) (phys s)) (\<lambda>(d, m).
      let s = upd_p p (p_pgdir_update (\<lambda>_. d)) (s\<lparr>phys := m\<rparr>) in
      if d = 0 then Panic ''userinit: out of memory?''
      else kbind (inituvm d initcode (phys s)) (\<lambda>m.
        let s = upd_p p (\<lambda>x. x\<lparr>p_sz := PGSIZE, p_tf := first_frame, p_name := set_name (p_name x) initcode_name\<rparr>) (s\<lparr>phys := m\<rparr>) in
        kbind (namei 0 [slash] s) (\<lambda>(r, s).
        Ok (upd_p p (\<lambda>x. x\<lparr>p_cwd := r, p_state := RUNNABLE\<rparr>) s))))))"

definition growproc :: "int \<Rightarrow> kern \<Rightarrow> (int \<times> kern) kres" where
  "growproc n s =
     (let p = curproc s; new = to_uint (int (p_sz p) + n) in
      kbind (if n > 0 then allocuvm (link_end s) (p_pgdir p) (p_sz p) new (phys s)
             else if n < 0 then deallocuvm (link_end s) (p_pgdir p) (p_sz p) new (phys s)
             else Ok (p_sz p, phys s)) (\<lambda>(sz, m).
      let s = s\<lparr>phys := m\<rparr> in
      if n \<noteq> 0 \<and> sz = 0 then Ok (- 1, s)
      else if p_pgdir p = 0 then Panic ''switchuvm: no pgdir''
      else Ok (0, upd_cur (p_sz_update (\<lambda>_. sz)) s)))"

text \<open>The loop of \<open>fork\<close> over the descriptors.\<close>

fun fork_files :: "nat \<Rightarrow> nat list \<Rightarrow> kern \<Rightarrow> kern kres" where
  "fork_files np [] s = Ok s"
| "fork_files np (i # is) s =
     (case p_ofile (curproc s) i of
        None \<Rightarrow> fork_files np is s
      | Some f \<Rightarrow> kbind (filedup f s) (\<lambda>(f, s). fork_files np is (upd_p np (p_ofile_update (\<lambda>m. m(i := Some f))) s)))"

definition fork :: "32 word \<Rightarrow> kern \<Rightarrow> (int \<times> kern) kres" where
  "fork forkret s = (case allocproc forkret s of
     (None, s) \<Rightarrow> Ok (- 1, s)
   | (Some np, s) \<Rightarrow>
       kbind (copyuvm (link_end s) (link_data s) (p_pgdir (curproc s)) (p_sz (curproc s)) (phys s)) (\<lambda>(d, m).
       let s = upd_p np (p_pgdir_update (\<lambda>_. d)) (s\<lparr>phys := m\<rparr>) in
       if d = 0 then
         kbind (kfree (link_end s) (p_kstack (procs (ptab s) np)) (phys s)) (\<lambda>m.
         Ok (- 1, upd_p np (\<lambda>x. x\<lparr>p_kstack := 0, p_state := UNUSED\<rparr>) (s\<lparr>phys := m\<rparr>)))
       else
         let s = upd_p np (\<lambda>x. x\<lparr>p_sz := p_sz (curproc s), p_parent := Some (cur s), p_tf := (p_tf (curproc s))\<lparr>tf_eax := 0\<rparr>\<rparr>) s in
         kbind (fork_files np [0..<NOFILE] s) (\<lambda>s.
         deref (p_cwd (curproc s)) (\<lambda>ip.
         let (ip, s) = idup ip s;
             pid = p_pid (procs (ptab s) np);
             s = upd_p np (\<lambda>x. x\<lparr>p_cwd := Some ip, p_state := RUNNABLE, p_name := set_name (p_name x) (p_name (curproc s))\<rparr>) s
         in Ok (pid, s)))))"

fun exit_files :: "nat list \<Rightarrow> kern \<Rightarrow> kern kres" where
  "exit_files [] s = Ok s"
| "exit_files (fd # fds) s =
     (case p_ofile (curproc s) fd of
        None \<Rightarrow> exit_files fds s
      | Some f \<Rightarrow> kbind (fileclose f s) (\<lambda>s. exit_files fds (upd_cur (p_ofile_update (\<lambda>m. m(fd := None))) s)))"

definition kexit :: "kern \<Rightarrow> kern kres" where
  "kexit s =
     (if cur s = initproc (ptab s) then Panic ''init exiting''
      else kbind (exit_files [0..<NOFILE] s) (\<lambda>s.
        deref (p_cwd (curproc s)) (\<lambda>ip.
        kbind (iput ip s) (\<lambda>s.
        let s = upd_cur (p_cwd_update (\<lambda>_. None)) s in
        kbind (exit_table (cur s) (ptab s)) (\<lambda>t. Ok (s\<lparr>ptab := t\<rparr>))))))"

definition kwait :: "kern \<Rightarrow> (int outcome \<times> kern) kres" where
  "kwait s = (case wait_scan (cur s) (ptab s) [0..<NPROC] False of
     Inl i \<Rightarrow>
       (let p = procs (ptab s) i in
        kbind (kfree (link_end s) (p_kstack p) (phys s)) (\<lambda>m.
        kbind (freevm (link_end s) (p_pgdir p) m) (\<lambda>m.
        Ok (Returns (p_pid p), s\<lparr>phys := m, ptab := clear_slot i (ptab s)\<rparr>))))
   | Inr havekids \<Rightarrow>
       if \<not> havekids \<or> p_killed (curproc s) then Ok (Returns (- 1), s) else Ok (Blocks, ksleep (Ch_proc (cur s)) s))"

end
