(* ===== verification/Sysfile.thy ===== *)
theory Sysfile
  imports Process
begin

text \<open>
  The system calls on files, \<open>src/P1/xv6/xv6/kernel/sysfile.c\<close>. A handler returns the value for \<open>%eax\<close>, or \<open>Blocks\<close> when the process went to
  sleep in a pipe. Buffers on the kernel stack that the source leaves uninitialised hold zeros; no result depends on them.
\<close>

type_synonym handler = "kern \<Rightarrow> (int outcome \<times> kern) kres"

abbreviation ret :: "int \<Rightarrow> kern \<Rightarrow> (int outcome \<times> kern) kres" where
  "ret r s \<equiv> Ok (Returns r, s)"

section \<open>Descriptors\<close>

definition argfd :: "nat \<Rightarrow> kern \<Rightarrow> (nat \<times> nat) option kres" where
  "argfd n s = kbind (argint n s) (\<lambda>r. case r of
     None \<Rightarrow> Ok None
   | Some fd \<Rightarrow> if fd < 0 \<or> fd \<ge> int NOFILE then Ok None
       else Ok (map_option (\<lambda>f. (nat fd, f)) (p_ofile (curproc s) (nat fd))))"

definition fdalloc :: "nat \<Rightarrow> kern \<Rightarrow> int \<times> kern" where
  "fdalloc f s = (case find (\<lambda>fd. p_ofile (curproc s) fd = None) [0..<NOFILE] of
     None \<Rightarrow> (- 1, s)
   | Some fd \<Rightarrow> (int fd, upd_cur (p_ofile_update (\<lambda>m. m(fd := Some f))) s))"

definition sys_dup :: handler where
  "sys_dup s = kbind (argfd 0 s) (\<lambda>r. case r of
     None \<Rightarrow> ret (- 1) s
   | Some (_, f) \<Rightarrow> let (fd, s) = fdalloc f s in
       if fd < 0 then ret (- 1) s else kbind (filedup f s) (\<lambda>(_, s). ret fd s))"

text \<open>The three arguments of \<open>read\<close> and \<open>write\<close>: file, address, length.\<close>

definition arg_rw :: "kern \<Rightarrow> (nat \<times> nat \<times> int) option kres" where
  "arg_rw s = kbind (argfd 0 s) (\<lambda>r. case r of None \<Rightarrow> Ok None | Some (_, f) \<Rightarrow>
     kbind (argint 2 s) (\<lambda>r. case r of None \<Rightarrow> Ok None | Some n \<Rightarrow>
     kbind (argptr 1 n s) (\<lambda>r. case r of None \<Rightarrow> Ok None | Some p \<Rightarrow> Ok (Some (f, p, n)))))"

definition sys_read :: handler where
  "sys_read s = kbind (arg_rw s) (\<lambda>r. case r of
     None \<Rightarrow> ret (- 1) s
   | Some (f, p, n) \<Rightarrow> kbind (fileread f n s) (\<lambda>(r, d, s).
       kbind (store_user (p_pgdir (curproc s)) p d (phys s)) (\<lambda>m. Ok (r, s\<lparr>phys := m\<rparr>))))"

text \<open>
  How many bytes at the address the write looks at. For a negative length the file system sees a large unsigned one and cuts it at the
  largest file; \<open>write_src\<close> fills the part of the list nobody looks at.
\<close>

definition write_len :: "nat \<Rightarrow> int \<Rightarrow> kern \<Rightarrow> nat" where
  "write_len f n s =
     (if \<not> f_writable (files s f) then 0
      else case f_type (files s f) of
        FD_NONE \<Rightarrow> 0
      | FD_PIPE \<Rightarrow> nat n
      | FD_INODE \<Rightarrow>
          let ino = icache s (f_ip (files s f)); off = f_off (files s f) in
          if i_type ino = T_DEV then nat n
          else if off > i_size ino \<or> off_overflow off (to_uint n) then 0 else writei_n off (to_uint n))"

definition write_src :: "nat \<Rightarrow> int \<Rightarrow> kern \<Rightarrow> byte list \<Rightarrow> byte list" where
  "write_src f n s d =
     (if f_type (files s f) = FD_INODE \<and> i_type (icache s (f_ip (files s f))) \<noteq> T_DEV then d @ replicate (to_uint n - length d) 0 else d)"

definition sys_write :: handler where
  "sys_write s = kbind (arg_rw s) (\<lambda>r. case r of
     None \<Rightarrow> ret (- 1) s
   | Some (f, p, n) \<Rightarrow> kbind (load_user (p_pgdir (curproc s)) p (write_len f n s) (phys s)) (\<lambda>d.
       kbind (filewrite f (write_src f n s d) n s) (\<lambda>(r, _, s). Ok (r, s))))"

definition sys_close :: handler where
  "sys_close s = kbind (argfd 0 s) (\<lambda>r. case r of
     None \<Rightarrow> ret (- 1) s
   | Some (fd, f) \<Rightarrow> kbind (fileclose f (upd_cur (p_ofile_update (\<lambda>m. m(fd := None))) s)) (ret 0))"

text \<open>The fields of \<open>struct stat\<close> at their offsets; the padding is not written.\<close>

definition store_stat :: "nat \<Rightarrow> nat \<Rightarrow> stat \<Rightarrow> kmem \<Rightarrow> kmem kres" where
  "store_stat pgdir p st k =
     kbind (store_user pgdir p (put_le 2 (st_type st) (replicate 2 0) 0) k) (\<lambda>k.
     kbind (store_user pgdir (p + 4) (put_le 4 (st_dev st) (replicate 4 0) 0 @ put_le 4 (st_ino st) (replicate 4 0) 0 @ put_le 2 (st_nlink st) (replicate 2 0) 0) k) (\<lambda>k.
     store_user pgdir (p + 16) (put_le 4 (st_size st) (replicate 4 0) 0) k))"

definition sys_fstat :: handler where
  "sys_fstat s = kbind (argfd 0 s) (\<lambda>r. case r of None \<Rightarrow> ret (- 1) s | Some (_, f) \<Rightarrow>
     kbind (argptr 1 20 s) (\<lambda>r. case r of None \<Rightarrow> ret (- 1) s | Some p \<Rightarrow>
     kbind (filestat f s) (\<lambda>(r, st, s). case st of None \<Rightarrow> ret r s | Some st \<Rightarrow>
     kbind (store_stat (p_pgdir (curproc s)) p st (phys s)) (\<lambda>m. ret r (s\<lparr>phys := m\<rparr>)))))"

section \<open>Links\<close>

abbreviation no_name :: "byte list" where "no_name \<equiv> replicate DIRSIZ 0"

text \<open>The lookup of a path by the current process.\<close>

definition knamei :: "byte list \<Rightarrow> kern \<Rightarrow> (nat option \<times> kern) kres" where
  "knamei path s = (if path \<noteq> [] \<and> hd path = slash then namei 0 path s else deref (p_cwd (curproc s)) (\<lambda>cwd. namei cwd path s))"

definition knameiparent :: "byte list \<Rightarrow> kern \<Rightarrow> (nat option \<times> byte list \<times> kern) kres" where
  "knameiparent path s = (if path \<noteq> [] \<and> hd path = slash then nameiparent 0 path no_name s
     else deref (p_cwd (curproc s)) (\<lambda>cwd. nameiparent cwd path no_name s))"

text \<open>The counter \<open>nlink\<close> is a \<open>short\<close>, kept as its 16 bits.\<close>

definition nlink_add :: "nat \<Rightarrow> int \<Rightarrow> kern \<Rightarrow> kern" where
  "nlink_add ip d = upd_inode ip (i_nlink_update (\<lambda>n. nat ((int n + d) mod 2 ^ 16)))"

definition link_bad :: "nat \<Rightarrow> handler" where
  "link_bad ip s =
     kbind (ilock ip s) (\<lambda>s.
     kbind (iupdate ip (nlink_add ip (- 1) s)) (\<lambda>s.
     kbind (iunlockput ip s) (ret (- 1))))"

definition sys_link :: handler where
  "sys_link s =
     kbind (argstr 0 s) (\<lambda>r. case r of None \<Rightarrow> ret (- 1) s | Some old \<Rightarrow>
     kbind (argstr 1 s) (\<lambda>r. case r of None \<Rightarrow> ret (- 1) s | Some new \<Rightarrow>
     kbind (knamei old s) (\<lambda>(r, s). case r of None \<Rightarrow> ret (- 1) s | Some ip \<Rightarrow>
     kbind (ilock ip s) (\<lambda>s.
     if i_type (icache s ip) = T_DIR then kbind (iunlockput ip s) (ret (- 1))
     else
       kbind (iupdate ip (nlink_add ip 1 s)) (\<lambda>s.
       kbind (iunlock ip s) (\<lambda>s.
       kbind (knameiparent new s) (\<lambda>(r, name, s). case r of None \<Rightarrow> link_bad ip s | Some dp \<Rightarrow>
       kbind (ilock dp s) (\<lambda>s.
       kbind (if i_dev (icache s dp) \<noteq> i_dev (icache s ip) then Ok (- 1, s) else dirlink dp name (i_inum (icache s ip)) s) (\<lambda>(r, s).
       kbind (iunlockput dp s) (\<lambda>s.
       if r < 0 then link_bad ip s else kbind (iput ip s) (ret 0)))))))))))"

function isdirempty_loop :: "nat \<Rightarrow> nat \<Rightarrow> nat \<Rightarrow> kern \<Rightarrow> (bool \<times> kern) kres" where
  "isdirempty_loop dp sz off s =
     (if off < sz then
        kbind (readi dp off sizeof_dirent s) (\<lambda>(r, de, s).
          if r \<noteq> int sizeof_dirent then Panic ''isdirempty: readi''
          else if de_inum de 0 \<noteq> 0 then Ok (False, s) else isdirempty_loop dp sz (off + sizeof_dirent) s)
      else Ok (True, s))"
  by pat_completeness auto
termination by (relation "measure (\<lambda>(dp, sz, off, s). sz - off)") (auto simp: sizeof_dirent_def)

declare isdirempty_loop.simps [simp del]

definition isdirempty :: "nat \<Rightarrow> kern \<Rightarrow> (bool \<times> kern) kres" where
  "isdirempty dp s = isdirempty_loop dp (i_size (icache s dp)) (2 * sizeof_dirent) s"

abbreviation dot :: "byte list" where "dot \<equiv> [46, 0]"
abbreviation dotdot :: "byte list" where "dotdot \<equiv> [46, 46, 0]"

definition sys_unlink :: handler where
  "sys_unlink s =
     kbind (argstr 0 s) (\<lambda>r. case r of None \<Rightarrow> ret (- 1) s | Some path \<Rightarrow>
     kbind (knameiparent path s) (\<lambda>(r, name, s). case r of None \<Rightarrow> ret (- 1) s | Some dp \<Rightarrow>
     kbind (ilock dp s) (\<lambda>s.
     if namecmp name dot = 0 \<or> namecmp name dotdot = 0 then kbind (iunlockput dp s) (ret (- 1))
     else kbind (dirlookup dp name s) (\<lambda>(r, s). case r of None \<Rightarrow> kbind (iunlockput dp s) (ret (- 1)) | Some (ip, off) \<Rightarrow>
       kbind (ilock ip s) (\<lambda>s.
       if i_nlink (icache s ip) = 0 \<or> i_nlink (icache s ip) \<ge> 2 ^ 15 then Panic ''unlink: nlink < 1''
       else kbind (if i_type (icache s ip) = T_DIR then isdirempty ip s else Ok (True, s)) (\<lambda>(e, s).
         if \<not> e then kbind (iunlockput ip s) (\<lambda>s. kbind (iunlockput dp s) (ret (- 1)))
         else kbind (writei dp (replicate sizeof_dirent 0) off s) (\<lambda>(r, s).
           if r \<noteq> int sizeof_dirent then Panic ''unlink: writei''
           else kbind (if i_type (icache s ip) = T_DIR then iupdate dp (nlink_add dp (- 1) s) else Ok s) (\<lambda>s.
             kbind (iunlockput dp s) (\<lambda>s.
             kbind (iupdate ip (nlink_add ip (- 1) s)) (\<lambda>s.
             kbind (iunlockput ip s) (ret 0))))))))))) "

section \<open>Creating\<close>

text \<open>\<open>create\<close> after the lookup did not find the name.\<close>

definition create_new :: "nat \<Rightarrow> byte list \<Rightarrow> nat \<Rightarrow> int \<Rightarrow> int \<Rightarrow> kern \<Rightarrow> (nat option \<times> kern) kres" where
  "create_new dp name type major minor s =
     kbind (ialloc (i_dev (icache s dp)) type s) (\<lambda>(ip, s).
     kbind (ilock ip s) (\<lambda>s.
     kbind (iupdate ip (upd_inode ip (\<lambda>i. i\<lparr>i_major := nat (major mod 2 ^ 16), i_minor := nat (minor mod 2 ^ 16), i_nlink := 1\<rparr>) s)) (\<lambda>s.
     kbind (if type = T_DIR then
              kbind (iupdate dp (nlink_add dp 1 s)) (\<lambda>s.
              kbind (dirlink ip dot (i_inum (icache s ip)) s) (\<lambda>(r, s).
              kbind (if r < 0 then Ok (r, s) else dirlink ip dotdot (i_inum (icache s dp)) s) (\<lambda>(r, s).
              if r < 0 then Panic ''create dots'' else Ok s)))
            else Ok s) (\<lambda>s.
     kbind (dirlink dp name (i_inum (icache s ip)) s) (\<lambda>(r, s).
     if r < 0 then Panic ''create: dirlink''
     else kbind (iunlockput dp s) (\<lambda>s. Ok (Some ip, s)))))))"

definition create :: "byte list \<Rightarrow> nat \<Rightarrow> int \<Rightarrow> int \<Rightarrow> kern \<Rightarrow> (nat option \<times> kern) kres" where
  "create path type major minor s =
     kbind (knameiparent path s) (\<lambda>(r, name, s). case r of None \<Rightarrow> Ok (None, s) | Some dp \<Rightarrow>
     kbind (ilock dp s) (\<lambda>s.
     kbind (dirlookup dp name s) (\<lambda>(r, s). case r of
       Some (ip, _) \<Rightarrow>
         kbind (iunlockput dp s) (\<lambda>s.
         kbind (ilock ip s) (\<lambda>s.
         if type = T_FILE \<and> i_type (icache s ip) = T_FILE then Ok (Some ip, s)
         else kbind (iunlockput ip s) (\<lambda>s. Ok (None, s))))
     | None \<Rightarrow> create_new dp name type major minor s)))"

definition O_RDONLY :: int where "O_RDONLY = 0"
definition O_WRONLY :: int where "O_WRONLY = 1"
definition O_RDWR :: int where "O_RDWR = 2"
definition O_CREATE :: int where "O_CREATE = 0x200"

text \<open>The inode for \<open>open\<close>, locked.\<close>

definition open_inode :: "byte list \<Rightarrow> int \<Rightarrow> kern \<Rightarrow> (nat option \<times> kern) kres" where
  "open_inode path omode s =
     (if omode AND O_CREATE \<noteq> 0 then create path T_FILE 0 0 s
      else kbind (knamei path s) (\<lambda>(r, s). case r of None \<Rightarrow> Ok (None, s) | Some ip \<Rightarrow>
        kbind (ilock ip s) (\<lambda>s.
        if i_type (icache s ip) = T_DIR \<and> omode \<noteq> O_RDONLY then kbind (iunlockput ip s) (\<lambda>s. Ok (None, s))
        else Ok (Some ip, s))))"

definition open_file :: "nat \<Rightarrow> int \<Rightarrow> kfile \<Rightarrow> kfile" where
  "open_file ip omode x = x\<lparr>f_type := FD_INODE, f_ip := ip, f_off := 0,
     f_readable := (omode AND O_WRONLY = 0), f_writable := (omode AND O_WRONLY \<noteq> 0 \<or> omode AND O_RDWR \<noteq> 0)\<rparr>"

definition open_fd :: "nat \<Rightarrow> int \<Rightarrow> handler" where
  "open_fd ip omode s = (case filealloc s of
     (None, s) \<Rightarrow> kbind (iunlockput ip s) (ret (- 1))
   | (Some f, s) \<Rightarrow>
       let (fd, s) = fdalloc f s in
       if fd < 0 then kbind (fileclose f s) (\<lambda>s. kbind (iunlockput ip s) (ret (- 1)))
       else kbind (iunlock ip s) (\<lambda>s. ret fd (upd_file f (open_file ip omode) s)))"

definition sys_open :: handler where
  "sys_open s =
     kbind (argstr 0 s) (\<lambda>r. case r of None \<Rightarrow> ret (- 1) s | Some path \<Rightarrow>
     kbind (argint 1 s) (\<lambda>r. case r of None \<Rightarrow> ret (- 1) s | Some omode \<Rightarrow>
     kbind (open_inode path omode s) (\<lambda>(r, s). case r of None \<Rightarrow> ret (- 1) s | Some ip \<Rightarrow> open_fd ip omode s)))"

definition sys_mkdir :: handler where
  "sys_mkdir s =
     kbind (argstr 0 s) (\<lambda>r. case r of None \<Rightarrow> ret (- 1) s | Some path \<Rightarrow>
     kbind (create path T_DIR 0 0 s) (\<lambda>(r, s). case r of None \<Rightarrow> ret (- 1) s | Some ip \<Rightarrow>
     kbind (iunlockput ip s) (ret 0)))"

definition sys_mknod :: handler where
  "sys_mknod s =
     kbind (argstr 0 s) (\<lambda>r. case r of None \<Rightarrow> ret (- 1) s | Some path \<Rightarrow>
     kbind (argint 1 s) (\<lambda>r. case r of None \<Rightarrow> ret (- 1) s | Some major \<Rightarrow>
     kbind (argint 2 s) (\<lambda>r. case r of None \<Rightarrow> ret (- 1) s | Some minor \<Rightarrow>
     kbind (create path T_DEV major minor s) (\<lambda>(r, s). case r of None \<Rightarrow> ret (- 1) s | Some ip \<Rightarrow>
     kbind (iunlockput ip s) (ret 0)))))"

definition sys_chdir :: handler where
  "sys_chdir s =
     kbind (argstr 0 s) (\<lambda>r. case r of None \<Rightarrow> ret (- 1) s | Some path \<Rightarrow>
     kbind (knamei path s) (\<lambda>(r, s). case r of None \<Rightarrow> ret (- 1) s | Some ip \<Rightarrow>
     kbind (ilock ip s) (\<lambda>s.
     if i_type (icache s ip) \<noteq> T_DIR then kbind (iunlockput ip s) (ret (- 1))
     else kbind (iunlock ip s) (\<lambda>s.
       deref (p_cwd (curproc s)) (\<lambda>cwd.
       kbind (iput cwd s) (\<lambda>s. ret 0 (upd_cur (p_cwd_update (\<lambda>_. Some ip)) s)))))))"

definition pipe_fds :: "nat \<Rightarrow> nat \<Rightarrow> nat \<Rightarrow> handler" where
  "pipe_fds p fr fw s =
     (let (fd0, s) = fdalloc fr s; (fd1, s) = (if fd0 < 0 then (- 1, s) else fdalloc fw s) in
      if fd0 < 0 \<or> fd1 < 0 then
        let s = (if fd0 \<ge> 0 then upd_cur (p_ofile_update (\<lambda>m. m(nat fd0 := None))) s else s) in
        kbind (fileclose fr s) (\<lambda>s. kbind (fileclose fw s) (ret (- 1)))
      else kbind (store_user (p_pgdir (curproc s)) p
             (put_le 4 (nat fd0) (replicate 4 0) 0 @ put_le 4 (nat fd1) (replicate 4 0) 0) (phys s)) (\<lambda>m. ret 0 (s\<lparr>phys := m\<rparr>)))"

definition sys_pipe :: handler where
  "sys_pipe s =
     kbind (argptr 0 8 s) (\<lambda>r. case r of None \<Rightarrow> ret (- 1) s | Some p \<Rightarrow>
     kbind (pipealloc s) (\<lambda>(r, s). case r of None \<Rightarrow> ret (- 1) s | Some (fr, fw) \<Rightarrow> pipe_fds p fr fw s))"

end
