(* ===== verification/Exec.thy ===== *)
theory Exec
  imports Sysfile
begin

text \<open>
  The program loader \<open>src/P1/xv6/xv6/kernel/exec.c\<close>, \<open>sys_exec\<close>, and the dispatch of system calls of \<open>syscall.c\<close> and
  \<open>src/P1/xv6/xv6/kernel/sysproc.c\<close>. The strings of the argument vector are read from the old address space before anything changes;
  they are passed as lists without the NUL.
\<close>

definition ELF_MAGIC :: nat where "ELF_MAGIC = 0x464C457F"
definition ELF_PROG_LOAD :: nat where "ELF_PROG_LOAD = 1"
definition MAXARG :: nat where "MAXARG = 32"

record elfhdr =
  e_magic :: nat
  e_entry :: nat
  e_phoff :: nat
  e_phnum :: nat

record proghdr =
  ph_type :: nat
  ph_offset :: nat
  ph_va :: nat
  ph_filesz :: nat
  ph_memsz :: nat

definition sizeof_elfhdr :: nat where "sizeof_elfhdr = 52"
definition sizeof_proghdr :: nat where "sizeof_proghdr = 32"

definition decode_elf :: "byte list \<Rightarrow> elfhdr" where
  "decode_elf d = \<lparr>e_magic = get_le 4 d 0, e_entry = get_le 4 d 24, e_phoff = get_le 4 d 28, e_phnum = get_le 2 d 44\<rparr>"

definition decode_ph :: "byte list \<Rightarrow> proghdr" where
  "decode_ph d = \<lparr>ph_type = get_le 4 d 0, ph_offset = get_le 4 d 4, ph_va = get_le 4 d 8, ph_filesz = get_le 4 d 16, ph_memsz = get_le 4 d 20\<rparr>"

section \<open>exec.c\<close>

text \<open>The loop over the program headers; \<open>None\<close> is the jump to \<open>bad\<close>. \<open>off\<close> is an \<open>int\<close> that \<open>readi\<close> takes as unsigned.\<close>

fun exec_load :: "nat \<Rightarrow> nat \<Rightarrow> nat \<Rightarrow> nat \<Rightarrow> nat \<Rightarrow> kern \<Rightarrow> (nat option \<times> kern) kres" where
  "exec_load pgdir ip 0 off sz s = Ok (Some sz, s)"
| "exec_load pgdir ip (Suc n) off sz s =
     kbind (readi ip off sizeof_proghdr s) (\<lambda>(r, d, s).
     if r \<noteq> int sizeof_proghdr then Ok (None, s)
     else let ph = decode_ph d; off = (off + sizeof_proghdr) mod 2 ^ 32 in
       if ph_type ph \<noteq> ELF_PROG_LOAD then exec_load pgdir ip n off sz s
       else if ph_memsz ph < ph_filesz ph then Ok (None, s)
       else kbind (allocuvm (link_end s) pgdir sz ((ph_va ph + ph_memsz ph) mod 2 ^ 32) (phys s)) (\<lambda>(sz, m).
         let s = s\<lparr>phys := m\<rparr> in
         if sz = 0 then Ok (None, s)
         else kbind (loaduvm pgdir (ph_va ph) ip (ph_offset ph) (ph_filesz ph) s) (\<lambda>(r, s).
           if r < 0 then Ok (None, s) else exec_load pgdir ip n off sz s)))"

text \<open>The argument strings, each below the one before and aligned to 4; the result is the stack pointer and the addresses.\<close>

fun push_args :: "nat \<Rightarrow> nat \<Rightarrow> byte list list \<Rightarrow> nat \<Rightarrow> nat list \<Rightarrow> kern \<Rightarrow> ((nat \<times> nat list) option \<times> kern) kres" where
  "push_args pgdir argc [] sp acc s = Ok (Some (sp, acc), s)"
| "push_args pgdir argc (a # as) sp acc s =
     (if argc \<ge> MAXARG then Ok (None, s)
      else let sp = to_uint (int sp - int (length a + 1)); sp = sp - sp mod 4 in
        kbind (copyout (null_word s) pgdir sp (a @ [0]) (phys s)) (\<lambda>(r, m).
        let s = s\<lparr>phys := m\<rparr> in
        if r < 0 then Ok (None, s) else push_args pgdir (argc + 1) as sp (acc @ [sp]) s))"

definition le4 :: "nat \<Rightarrow> byte list" where
  "le4 v = put_le 4 v (replicate 4 0) 0"

text \<open>\<open>ustack\<close>: fake return address, \<open>argc\<close>, \<open>argv\<close> pointer, the pointers and a null pointer.\<close>

definition ustack :: "nat \<Rightarrow> nat list \<Rightarrow> byte list" where
  "ustack sp args = concat (map le4 ([0xFFFFFFFF, length args, to_uint (int sp - int ((length args + 1) * 4))] @ args @ [0]))"

definition last_elem :: "byte list \<Rightarrow> byte list" where
  "last_elem path = rev (takeWhile (\<lambda>c. c \<noteq> slash) (rev path))"

fun exec_bad :: "nat \<Rightarrow> nat option \<Rightarrow> kern \<Rightarrow> (int \<times> kern) kres" where
  "exec_bad pgdir ip s =
     kbind (if pgdir \<noteq> 0 then kbind (freevm (link_end s) pgdir (phys s)) (\<lambda>m. Ok (s\<lparr>phys := m\<rparr>)) else Ok s) (\<lambda>s.
     kbind (case ip of Some ip \<Rightarrow> iunlockput ip s | None \<Rightarrow> Ok s) (\<lambda>s. Ok (- 1, s)))"

declare exec_bad.simps [simp del]

text \<open>From the stack on, when the file is no longer needed.\<close>

definition exec_stack :: "nat \<Rightarrow> nat \<Rightarrow> nat \<Rightarrow> byte list \<Rightarrow> byte list list \<Rightarrow> kern \<Rightarrow> (int \<times> kern) kres" where
  "exec_stack pgdir eip sz path argv s =
     (let sz = PGROUNDUP sz in
      kbind (allocuvm (link_end s) pgdir sz (sz + PGSIZE) (phys s)) (\<lambda>(sz, m).
      let s = s\<lparr>phys := m\<rparr> in
      if sz = 0 then exec_bad pgdir None s
      else kbind (push_args pgdir 0 argv sz [] s) (\<lambda>(r, s). case r of None \<Rightarrow> exec_bad pgdir None s | Some (sp, args) \<Rightarrow>
        let us = ustack sp args; sp = to_uint (int sp - int (length us)) in
        kbind (copyout (null_word s) pgdir sp us (phys s)) (\<lambda>(r, m).
        let s = s\<lparr>phys := m\<rparr> in
        if r < 0 then exec_bad pgdir None s
        else let old = p_pgdir (curproc s);
               s = upd_cur (\<lambda>p. p\<lparr>p_name := set_name (p_name p) (last_elem path), p_pgdir := pgdir, p_sz := sz,
                     p_tf := (p_tf p)\<lparr>tf_eip := of_nat eip, tf_esp := of_nat sp\<rparr>\<rparr>) s in
          kbind (freevm (link_end s) old (phys s)) (\<lambda>m. Ok (0, s\<lparr>phys := m\<rparr>))))))"

text \<open>
  The header is read into a local variable, \<open>junk\<close> before; the comparison of the result with \<open>sizeof(elf)\<close> is unsigned.
\<close>

definition exec :: "byte list \<Rightarrow> byte list \<Rightarrow> byte list list \<Rightarrow> kern \<Rightarrow> (int \<times> kern) kres" where
  "exec junk path argv s =
     kbind (knamei path s) (\<lambda>(r, s). case r of None \<Rightarrow> Ok (- 1, s) | Some ip \<Rightarrow>
     kbind (ilock ip s) (\<lambda>s.
     kbind (readi ip 0 sizeof_elfhdr s) (\<lambda>(r, d, s).
     if to_uint r < sizeof_elfhdr then exec_bad 0 (Some ip) s
     else let elf = decode_elf (d @ drop (length d) junk) in
       if e_magic elf \<noteq> ELF_MAGIC then exec_bad 0 (Some ip) s
       else kbind (setupkvm (link_data s) (phys s)) (\<lambda>(pgdir, m).
         let s = s\<lparr>phys := m\<rparr> in
         if pgdir = 0 then exec_bad 0 (Some ip) s
         else kbind (exec_load pgdir ip (e_phnum elf) (e_phoff elf) 0 s) (\<lambda>(r, s).
           case r of None \<Rightarrow> exec_bad pgdir (Some ip) s | Some sz \<Rightarrow>
           kbind (iunlockput ip s) (exec_stack pgdir (e_entry elf) sz path argv))))))"

section \<open>sys\_exec\<close>

text \<open>The argument vector; \<open>i\<close> counts the words read. The array has \<open>MAXARG\<close> entries, one of them the null pointer.\<close>

fun fetch_argv :: "nat \<Rightarrow> nat \<Rightarrow> nat \<Rightarrow> kern \<Rightarrow> byte list list option kres" where
  "fetch_argv uargv i 0 s = Ok None"
| "fetch_argv uargv i (Suc n) s =
     kbind (fetchint (curproc s) ((uargv + 4 * i) mod 2 ^ 32) (phys s)) (\<lambda>r. case r of None \<Rightarrow> Ok None | Some uarg \<Rightarrow>
     if uarg = 0 then Ok (Some [])
     else kbind (fetchstr (curproc s) (to_uint uarg) (phys s)) (\<lambda>r. case r of None \<Rightarrow> Ok None | Some a \<Rightarrow>
       kbind (fetch_argv uargv (i + 1) n s) (\<lambda>r. Ok (map_option (Cons a) r))))"

definition sys_exec :: "byte list \<Rightarrow> handler" where
  "sys_exec junk s =
     kbind (argstr 0 s) (\<lambda>r. case r of None \<Rightarrow> ret (- 1) s | Some path \<Rightarrow>
     kbind (argint 1 s) (\<lambda>r. case r of None \<Rightarrow> ret (- 1) s | Some uargv \<Rightarrow>
     kbind (fetch_argv (to_uint uargv) 0 MAXARG s) (\<lambda>r. case r of None \<Rightarrow> ret (- 1) s | Some argv \<Rightarrow>
     kbind (exec junk path argv s) (\<lambda>(r, s). ret r s))))"

section \<open>sysproc.c\<close>

definition sys_fork :: "32 word \<Rightarrow> handler" where
  "sys_fork forkret s = kbind (fork forkret s) (\<lambda>(r, s). ret r s)"

text \<open>\<open>exit\<close> does not return: the process leaves the CPU for good.\<close>

definition sys_exit :: handler where
  "sys_exit s = kbind (kexit s) (\<lambda>s. Ok (Blocks, s))"

definition sys_wait :: handler where
  "sys_wait = kwait"

definition sys_kill :: handler where
  "sys_kill s = kbind (argint 0 s) (\<lambda>r. case r of
     None \<Rightarrow> ret (- 1) s
   | Some pid \<Rightarrow> let (r, t) = kill pid (ptab s) in ret r (s\<lparr>ptab := t\<rparr>))"

definition sys_getpid :: handler where
  "sys_getpid s = ret (p_pid (curproc s)) s"

definition sys_sbrk :: handler where
  "sys_sbrk s = kbind (argint 0 s) (\<lambda>r. case r of
     None \<Rightarrow> ret (- 1) s
   | Some n \<Rightarrow> let old = wrap32 (int (p_sz (curproc s))) in
       kbind (growproc n s) (\<lambda>(r, s). if r < 0 then ret (- 1) s else ret old s))"

text \<open>
  The wait of \<open>sleep\<close> from \<open>ticks0\<close> on; the comparison with the \<open>int\<close> is unsigned. The first round has \<open>ticks0 = ticks\<close>; a process that was
  woken goes on with the old \<open>ticks0\<close>. The channel is the address of \<open>ticks\<close>, here 0.
\<close>

definition sleep_ticks :: "32 word \<Rightarrow> int \<Rightarrow> handler" where
  "sleep_ticks ticks0 n s =
     (if ticks s - ticks0 < of_int n then
        if p_killed (curproc s) then ret (- 1) s else Ok (Blocks, ksleep (Ch_addr 0) s)
      else ret 0 s)"

definition sys_sleep :: handler where
  "sys_sleep s = kbind (argint 0 s) (\<lambda>r. case r of None \<Rightarrow> ret (- 1) s | Some n \<Rightarrow> sleep_ticks (ticks s) n s)"

definition sys_uptime :: handler where
  "sys_uptime s = ret (sint (ticks s)) s"

definition sys_getsyscallinfo :: handler where
  "sys_getsyscallinfo s = ret (syscall_count s) s"

section \<open>syscall.c: dispatch\<close>

definition syscalls :: "32 word \<Rightarrow> byte list \<Rightarrow> nat \<Rightarrow> handler option" where
  "syscalls forkret junk = [1 \<mapsto> sys_fork forkret, 2 \<mapsto> sys_exit, 3 \<mapsto> sys_wait, 4 \<mapsto> sys_pipe, 5 \<mapsto> sys_write, 6 \<mapsto> sys_read, 7 \<mapsto> sys_close,
     8 \<mapsto> sys_kill, 9 \<mapsto> sys_exec junk, 10 \<mapsto> sys_open, 11 \<mapsto> sys_mknod, 12 \<mapsto> sys_unlink, 13 \<mapsto> sys_fstat, 14 \<mapsto> sys_link, 15 \<mapsto> sys_mkdir,
     16 \<mapsto> sys_chdir, 17 \<mapsto> sys_dup, 18 \<mapsto> sys_getpid, 19 \<mapsto> sys_sbrk, 20 \<mapsto> sys_sleep, 21 \<mapsto> sys_uptime, 22 \<mapsto> sys_getsyscallinfo]"

definition set_eax :: "int \<Rightarrow> kern \<Rightarrow> kern" where
  "set_eax r = upd_cur (\<lambda>p. p\<lparr>p_tf := (p_tf p)\<lparr>tf_eax := of_int r\<rparr>\<rparr>)"

text \<open>The message for an unknown number goes to the console and is left out.\<close>

definition syscall :: "32 word \<Rightarrow> byte list \<Rightarrow> handler" where
  "syscall forkret junk s =
     (let num = sint (tf_eax (p_tf (curproc s))) in
      case (if num > 0 then syscalls forkret junk (nat num) else None) of
        Some h \<Rightarrow> kbind (h (s\<lparr>syscall_count := wrap32 (syscall_count s + 1)\<rparr>)) (\<lambda>(r, s).
          case r of Returns v \<Rightarrow> Ok (r, set_eax v s) | Blocks \<Rightarrow> Ok (Blocks, s))
      | None \<Rightarrow> ret (- 1) (set_eax (- 1) s))"

end
