(* ===== verification/Sys_Refs.thy ===== *)
theory Sys_Refs
  imports Exec File_Refs
begin

text \<open>
  Reference counts across system calls: the count of every open file is the number of descriptors, of all processes, that refer to it.
\<close>

unbundle bit_operations_syntax

section \<open>Partial correctness of kernel code\<close>

definition kpost :: "('a \<Rightarrow> bool) \<Rightarrow> 'a kres \<Rightarrow> bool" where
  "kpost Q r \<longleftrightarrow> (\<forall>x. r = Ok x \<longrightarrow> Q x)"

lemma kpostI: "(\<And>x. r = Ok x \<Longrightarrow> Q x) \<Longrightarrow> kpost Q r"
  by (simp add: kpost_def)

lemma kpostD: "kpost Q r \<Longrightarrow> r = Ok x \<Longrightarrow> Q x"
  by (simp add: kpost_def)

named_theorems kposts \<open>rules that take kernel code apart\<close>

lemma kpost_Ok [kposts]: "Q x \<Longrightarrow> kpost Q (Ok x)"
  by (simp add: kpost_def)

lemma kpost_Panic [kposts]: "kpost Q (Panic e)"
  by (simp add: kpost_def)

lemma kpost_bind [kposts]: "(\<And>x. r = Ok x \<Longrightarrow> kpost Q (f x)) \<Longrightarrow> kpost Q (kbind r f)"
  by (cases r) (simp_all add: kpost_def)

lemma kpost_if [kposts]: "(b \<Longrightarrow> kpost Q r) \<Longrightarrow> (\<not> b \<Longrightarrow> kpost Q r') \<Longrightarrow> kpost Q (if b then r else r')"
  by simp

lemma kpost_option [kposts]: "(x = None \<Longrightarrow> kpost Q r) \<Longrightarrow> (\<And>y. x = Some y \<Longrightarrow> kpost Q (f y)) \<Longrightarrow> kpost Q (case x of None \<Rightarrow> r | Some y \<Rightarrow> f y)"
  by (cases x) simp_all

lemma kpost_prod [kposts]: "(\<And>a b. x = (a, b) \<Longrightarrow> kpost Q (f a b)) \<Longrightarrow> kpost Q (case x of (a, b) \<Rightarrow> f a b)"
  by (cases x) simp

lemma kpost_Let [kposts]: "(\<And>x. x = a \<Longrightarrow> kpost Q (f x)) \<Longrightarrow> kpost Q (let x = a in f x)"
  by simp

lemma kpost_deref [kposts]: "(\<And>y. x = Some y \<Longrightarrow> kpost Q (f y)) \<Longrightarrow> kpost Q (deref x f)"
  by (cases x) (simp_all add: kpost_def)

section \<open>Handlers that only use the file system\<close>

lemma knamei_frame [fs_frames]: "knamei path s = Ok (r, s') \<Longrightarrow> fsys.more s' = fsys.more s"
  by (cases "p_cwd (curproc s)") (auto simp: knamei_def fs_frames split: if_splits)

lemma knameiparent_frame [fs_frames]: "knameiparent path s = Ok (r, n, s') \<Longrightarrow> fsys.more s' = fsys.more s"
  by (cases "p_cwd (curproc s)") (auto simp: knameiparent_def fs_frames split: if_splits)

lemma nlink_add_frame [simp]: "fsys.more (nlink_add ip d s) = fsys.more s"
  by (simp add: nlink_add_def)

lemma isdirempty_loop_frame [fs_frames]: "isdirempty_loop dp sz off s = Ok (r, s') \<Longrightarrow> fsys.more s' = fsys.more s"
proof (induction "sz - off" arbitrary: off s rule: less_induct)
  case less
  show ?case
  proof (cases "off < sz")
    case False
    with less.prems show ?thesis unfolding isdirempty_loop.simps [of dp sz off s] by simp
  next
    case True
    with less.prems obtain r' de s1 where o: "readi dp off sizeof_dirent s = Ok (r', de, s1)"
      and k: "s' = s1 \<or> isdirempty_loop dp sz (off + sizeof_dirent) s1 = Ok (r, s')"
      unfolding isdirempty_loop.simps [of dp sz off s] by (auto simp: kbind_Ok split: if_splits)
    have "sz - (off + sizeof_dirent) < sz - off" using True by (simp add: sizeof_dirent_def)
    from k less.hyps [OF this, of s1] o show ?thesis by (auto simp: fs_frames)
  qed
qed

lemma isdirempty_frame [fs_frames]: "isdirempty dp s = Ok (r, s') \<Longrightarrow> fsys.more s' = fsys.more s"
  by (simp add: isdirempty_def fs_frames)

lemma create_new_frame [fs_frames]: "create_new dp name type major minor s = Ok (r, s') \<Longrightarrow> fsys.more s' = fsys.more s"
  by (auto simp: create_new_def kbind_Ok fs_frames split: if_splits)

lemma create_frame [fs_frames]: "create path type major minor s = Ok (r, s') \<Longrightarrow> fsys.more s' = fsys.more s"
  by (auto simp: create_def kbind_Ok fs_frames split: if_splits option.splits)

lemma open_inode_frame [fs_frames]: "open_inode path omode s = Ok (r, s') \<Longrightarrow> fsys.more s' = fsys.more s"
  by (auto simp: open_inode_def kbind_Ok fs_frames split: if_splits option.splits)

lemma link_bad_frame [fs_frames]: "link_bad ip s = Ok (r, s') \<Longrightarrow> fsys.more s' = fsys.more s"
  by (auto simp: link_bad_def kbind_Ok fs_frames)

lemma sys_link_frame [fs_frames]: "sys_link s = Ok (r, s') \<Longrightarrow> fsys.more s' = fsys.more s"
  by (auto simp: sys_link_def kbind_Ok fs_frames split: if_splits option.splits)

lemma sys_unlink_frame [fs_frames]: "sys_unlink s = Ok (r, s') \<Longrightarrow> fsys.more s' = fsys.more s"
  by (auto simp: sys_unlink_def kbind_Ok fs_frames split: if_splits option.splits)

lemma sys_mkdir_frame [fs_frames]: "sys_mkdir s = Ok (r, s') \<Longrightarrow> fsys.more s' = fsys.more s"
  by (auto simp: sys_mkdir_def kbind_Ok fs_frames split: option.splits)

lemma sys_mknod_frame [fs_frames]: "sys_mknod s = Ok (r, s') \<Longrightarrow> fsys.more s' = fsys.more s"
  by (auto simp: sys_mknod_def kbind_Ok fs_frames split: option.splits)

section \<open>Handlers that keep descriptors and counts\<close>

definition still :: "kern \<Rightarrow> kern \<Rightarrow> bool" where
  "still s t \<longleftrightarrow> (\<forall>g. f_ref (files t g) = f_ref (files s g) \<and> f_type (files t g) = f_type (files s g)) \<and> quiet (ptab s) (ptab t) \<and> cur t = cur s"

named_theorems stills \<open>operations that keep descriptors and reference counts\<close>

lemma still_refl [simp]: "still s s"
  by (simp add: still_def)

lemma still_trans: "still s t \<Longrightarrow> still t u \<Longrightarrow> still s u"
  by (auto simp: still_def intro: quiet_trans)

lemma still_fs: "fsys.more t = fsys.more s \<Longrightarrow> still s t"
  using fsys_more_kern [of t s] by (simp add: still_def)

lemma still_step: "fsys.more u = fsys.more t \<Longrightarrow> still s t \<Longrightarrow> still s u"
  by (rule still_trans) (auto intro: still_fs)

lemmas [stills] = fs_frames [THEN still_step]

lemma still_io: "io_same s t \<Longrightarrow> still s t"
  by (simp add: io_same_def still_def)

lemma still_phys [simp]: "still s (t\<lparr>phys := m\<rparr>) = still s t" "still s (t\<lparr>syscall_count := n\<rparr>) = still s t"
  "still (s\<lparr>syscall_count := n\<rparr>) t = still s t"
  by (simp_all add: still_def)

lemma quiet_upd: "(\<And>p. p_ofile (g p) = p_ofile p) \<Longrightarrow> (\<And>p. p_state (g p) = p_state p) \<Longrightarrow> quiet t (upd_proc i g t)"
  by (auto simp: quiet_def)

lemma still_upd_cur: "(\<And>p. p_ofile (g p) = p_ofile p) \<Longrightarrow> (\<And>p. p_state (g p) = p_state p) \<Longrightarrow> still s t \<Longrightarrow> still s (upd_cur g t)"
  using quiet_trans [OF _ quiet_upd [of g]] by (simp add: still_def)

lemma still_ksleep: "still s (ksleep ch s)"
  by (simp add: still_def ksleep_quiet)

lemma filestat_still [stills]: "filestat f t = Ok (r, st, t') \<Longrightarrow> still s t \<Longrightarrow> still s t'"
  by (auto simp: filestat_def kbind_Ok stills split: if_splits)

lemma fileread_still [stills]: "fileread f n t = Ok (r, d, t') \<Longrightarrow> still s t \<Longrightarrow> still s t'"
  using still_io [OF fileread_same] still_trans by blast

lemma filewrite_still [stills]: "filewrite f d n t = Ok (r, d', t') \<Longrightarrow> still s t \<Longrightarrow> still s t'"
  using still_io [OF filewrite_same] still_trans by blast

lemma growproc_still [stills]: "growproc n t = Ok (r, t') \<Longrightarrow> still s t \<Longrightarrow> still s t'"
  by (auto simp: growproc_def kbind_Ok Let_def split: if_splits intro!: still_upd_cur)

lemma kill_quiet: "kill pid t = (r, t') \<Longrightarrow> quiet t t'"
  by (auto simp: kill_def Let_def quiet_def split: option.splits)

lemma still_ptab: "quiet (ptab s) t \<Longrightarrow> still s (s\<lparr>ptab := t\<rparr>)"
  by (simp add: still_def)

section \<open>The program loader\<close>

lemma loaduvm_loop_still: "kpost (\<lambda>(r, s'). still s s') (loaduvm_loop pgdir va ip offset sz i t)" if "still s t"
  using that
proof (induction "sz - i" arbitrary: i t rule: less_induct)
  case less
  have d: "i < sz \<Longrightarrow> sz - (i + PGSIZE) < sz - i" by (simp add: PGSIZE_def)
  show ?case
    unfolding loaduvm_loop.simps [of pgdir va ip offset sz i t]
    by (intro kposts less.hyps d) (auto simp: less.prems stills)
qed

lemma loaduvm_still [stills]: "loaduvm pgdir va ip offset sz t = Ok (r, t') \<Longrightarrow> still s t \<Longrightarrow> still s t'"
  using kpostD [OF loaduvm_loop_still, of s t pgdir va ip offset sz 0 "(r, t')"] by (simp add: loaduvm_def split: if_splits)

lemma exec_bad_still [stills]: "exec_bad pgdir ip t = Ok (r, t') \<Longrightarrow> still s t \<Longrightarrow> still s t'"
  by (auto simp: exec_bad.simps kbind_Ok stills split: if_splits option.splits)

lemma exec_load_still: "still s t \<Longrightarrow> kpost (\<lambda>(r, s'). still s s') (exec_load pgdir ip n off sz t)"
proof (induction n arbitrary: off sz t)
  case (Suc n)
  show ?case unfolding exec_load.simps by (intro kposts Suc.IH) (auto simp: Suc.prems stills)
qed (auto intro: kposts)

lemma push_args_still: "still s t \<Longrightarrow> kpost (\<lambda>(r, s'). still s s') (push_args pgdir argc as sp acc t)"
proof (induction "as" arbitrary: argc sp acc t)
  case (Cons a "as")
  show ?case unfolding push_args.simps by (intro kposts Cons.IH) (auto simp: Cons.prems)
qed (auto intro: kposts)

lemma loaders_still [stills]:
  "exec_load pgdir ip n off sz t = Ok (v, t') \<Longrightarrow> still s t \<Longrightarrow> still s t'"
  "push_args pgdir argc as sp acc t = Ok (w, t') \<Longrightarrow> still s t \<Longrightarrow> still s t'"
  by (auto dest: kpostD [OF exec_load_still] kpostD [OF push_args_still])

lemma exec_stack_still [stills]: "exec_stack pgdir eip sz path argv t = Ok (r, t') \<Longrightarrow> still s t \<Longrightarrow> still s t'"
proof -
  assume s: "still s t"
  have "kpost (\<lambda>(r, s'). still s s') (exec_stack pgdir eip sz path argv t)"
    unfolding exec_stack_def by (intro kposts) (auto simp: kpost_def stills s still_upd_cur)
  from kpostD [OF this] show "exec_stack pgdir eip sz path argv t = Ok (r, t') \<Longrightarrow> still s t'" by fastforce
qed

lemma exec_still [stills]: "exec junk path argv t = Ok (r, t') \<Longrightarrow> still s t \<Longrightarrow> still s t'"
proof -
  assume s: "still s t"
  have "kpost (\<lambda>(r, s'). still s s') (exec junk path argv t)"
    unfolding exec_def by (intro kposts) (auto simp: kpost_def stills s)
  from kpostD [OF this] show "exec junk path argv t = Ok (r, t') \<Longrightarrow> still s t'" by fastforce
qed

section \<open>The handlers\<close>

lemma sys_read_still: "kpost (\<lambda>(r, s'). still s s') (sys_read s)"
  unfolding sys_read_def by (intro kposts) (auto simp: kpost_def stills)

lemma sys_write_still: "kpost (\<lambda>(r, s'). still s s') (sys_write s)"
  unfolding sys_write_def by (intro kposts) (auto simp: kpost_def stills)

lemma sys_fstat_still: "kpost (\<lambda>(r, s'). still s s') (sys_fstat s)"
  unfolding sys_fstat_def by (intro kposts) (auto simp: kpost_def stills)

lemma sys_link_still: "kpost (\<lambda>(r, s'). still s s') (sys_link s)"
  using still_fs [OF sys_link_frame] by (intro kpostI) auto

lemma sys_unlink_still: "kpost (\<lambda>(r, s'). still s s') (sys_unlink s)"
  using still_fs [OF sys_unlink_frame] by (intro kpostI) auto

lemma sys_mkdir_still: "kpost (\<lambda>(r, s'). still s s') (sys_mkdir s)"
  using still_fs [OF sys_mkdir_frame] by (intro kpostI) auto

lemma sys_mknod_still: "kpost (\<lambda>(r, s'). still s s') (sys_mknod s)"
  using still_fs [OF sys_mknod_frame] by (intro kpostI) auto

lemma sys_chdir_still: "kpost (\<lambda>(r, s'). still s s') (sys_chdir s)"
  unfolding sys_chdir_def by (intro kposts) (auto simp: kpost_def stills still_upd_cur)

lemma sys_sbrk_still: "kpost (\<lambda>(r, s'). still s s') (sys_sbrk s)"
  unfolding sys_sbrk_def by (intro kposts) (auto simp: kpost_def stills)

lemma sys_kill_still: "kpost (\<lambda>(r, s'). still s s') (sys_kill s)"
  unfolding sys_kill_def by (intro kposts) (auto intro: still_ptab kill_quiet sym)

lemma sys_exec_still: "kpost (\<lambda>(r, s'). still s s') (sys_exec junk s)"
  unfolding sys_exec_def by (intro kposts) (auto simp: kpost_def stills)

lemma sys_sleep_still: "kpost (\<lambda>(r, s'). still s s') (sys_sleep s)"
  unfolding sys_sleep_def sleep_ticks_def by (intro kposts) (auto intro: still_ksleep)

section \<open>Counting descriptors\<close>

fun opt_mset :: "'a option \<Rightarrow> 'a multiset" where
  "opt_mset None = {#}"
| "opt_mset (Some x) = {#x#}"

definition fds :: "(nat \<Rightarrow> nat option) \<Rightarrow> nat multiset" where
  "fds m = (\<Sum>fd < NOFILE. opt_mset (m fd))"

text \<open>The references held by descriptors.\<close>

definition held :: "ptable \<Rightarrow> nat multiset" where
  "held t = (\<Sum>i < NPROC. fds (p_ofile (procs t i)))"

lemma sum_upd_mset: "a \<in> A \<Longrightarrow> finite A \<Longrightarrow> (\<Sum>i \<in> A. g ((m(a := x)) i)) + g (m a) = (\<Sum>i \<in> A. g (m i)) + (g x :: 'b multiset)"
proof -
  assume a: "a \<in> A" "finite A"
  have "(\<Sum>i \<in> A - {a}. g ((m(a := x)) i)) = (\<Sum>i \<in> A - {a}. g (m i))" by (rule sum.cong) auto
  with sum.remove [OF a(2,1), of "\<lambda>i. g ((m(a := x)) i)"] sum.remove [OF a(2,1), of "\<lambda>i. g (m i)"] show ?thesis by (simp add: ac_simps)
qed

lemma fds_upd: "fd < NOFILE \<Longrightarrow> fds (m(fd := x)) + opt_mset (m fd) = fds m + opt_mset x"
  unfolding fds_def by (rule sum_upd_mset) simp_all

lemma held_upd_ofile:
  assumes i: "i < NPROC" and fd: "fd < NOFILE" and g: "\<And>p. p_ofile (g p) = (p_ofile p)(fd := x)"
  shows "held (upd_proc i g t) + opt_mset (p_ofile (procs t i) fd) = held t + opt_mset x"
proof -
  let ?m = "\<lambda>i. p_ofile (procs t i)"
  have "held (upd_proc i g t) = (\<Sum>j < NPROC. fds ((?m(i := (?m i)(fd := x))) j))" unfolding held_def by (rule sum.cong) (auto simp: g)
  with sum_upd_mset [of i "{..<NPROC}" fds ?m "(?m i)(fd := x)"] i have "held (upd_proc i g t) + fds (?m i) = held t + fds ((?m i)(fd := x))"
    by (simp add: held_def)
  then have "held (upd_proc i g t) + opt_mset (?m i fd) + fds (?m i) = held t + (fds ((?m i)(fd := x)) + opt_mset (?m i fd))"
    by (simp add: ac_simps)
  also have "\<dots> = held t + opt_mset x + fds (?m i)" unfolding fds_upd [OF fd] by (simp add: ac_simps)
  finally show ?thesis by (simp only: add_right_cancel)
qed

lemma held_cong: "(\<And>i. p_ofile (procs t' i) = p_ofile (procs t i)) \<Longrightarrow> held t' = held t"
  by (simp add: held_def)

lemma quiet_held: "quiet t t' \<Longrightarrow> held t' = held t"
  by (rule held_cong) (simp add: quiet_def)

lemma held_mem: "i < NPROC \<Longrightarrow> fd < NOFILE \<Longrightarrow> p_ofile (procs t i) fd = Some f \<Longrightarrow> f \<in># held t"
  using held_upd_ofile [of i fd "p_ofile_update (\<lambda>m. m(fd := None))" None t] by (auto dest: sym)

text \<open>Entries without a living process have no descriptors.\<close>

definition clean :: "ptable \<Rightarrow> bool" where
  "clean t \<longleftrightarrow> (\<forall>i < NPROC. \<not> alive (p_state (procs t i)) \<longrightarrow> (\<forall>fd < NOFILE. p_ofile (procs t i) fd = None))"

definition desc_inv :: "kern \<Rightarrow> bool" where
  "desc_inv s \<longleftrightarrow> count_ok (files s) (held (ptab s)) \<and> clean (ptab s)"

lemma quiet_clean: "quiet t t' \<Longrightarrow> clean t \<Longrightarrow> clean t'"
  by (simp add: quiet_def clean_def)

lemma count_ok_cong: "count_ok fs H \<Longrightarrow> (\<And>g. f_ref (fs' g) = f_ref (fs g)) \<Longrightarrow> (\<And>g. f_type (fs' g) = f_type (fs g)) \<Longrightarrow> count_ok fs' H"
  by (simp add: count_ok_def)

lemma still_desc: "still s s' \<Longrightarrow> desc_inv s \<Longrightarrow> desc_inv s'"
  by (auto simp: still_def desc_inv_def quiet_held quiet_clean intro: count_ok_cong)

section \<open>Handlers that change descriptors\<close>

lemma filealloc_count:
  assumes "filealloc s = (Some f, s')" and "count_ok (files s) H"
  shows "count_ok (files s') (add_mset f H) \<and> f < NFILE \<and> f \<notin># H \<and> f_type (files s' f) = FD_NONE \<and> ptab s' = ptab s \<and> cur s' = cur s \<and> fsys.truncate s' = fsys.truncate s"
proof -
  have f: "f < NFILE" "f_ref (files s f) = 0" "s' = upd_file f (f_ref_update (\<lambda>_. 1)) s"
    using assms(1) by (auto simp: filealloc_def dest: find_SomeD split: option.splits)
  then have c: "count H f = 0" using assms(2) by (simp add: count_ok_def)
  then show ?thesis using assms(2) f by (auto simp: count_ok_def not_in_iff upd_file_def fsys.defs)
qed

lemma filedup_count:
  assumes "f \<in># H" and "count_ok (files s) H"
  shows "\<exists>s'. filedup f s = Ok (f, s') \<and> count_ok (files s') (add_mset f H) \<and> ptab s' = ptab s \<and> cur s' = cur s"
proof -
  have n: "f < NFILE" "f_ref (files s f) = int (count H f)" "0 < count H f" using assms by (auto simp: count_ok_def)
  then have "count_ok (files (upd_file f (f_ref_update (\<lambda>r. r + 1)) s)) (add_mset f H)" using assms by (auto simp: count_ok_def)
  then show ?thesis using n by (simp add: filedup_def)
qed

lemma fileclose_quiet: "fileclose f s = Ok s' \<Longrightarrow> quiet (ptab s) (ptab s') \<and> cur s' = cur s"
proof -
  assume a: "fileclose f s = Ok s'"
  have p: "quiet (ptab t) (ptab s') \<and> cur s' = cur t" if "kpipeclose p w t = Ok s'" for p w t
    using that by (auto simp: kpipeclose_def kbind_Ok Let_def split: prod.split_asm if_split_asm intro!: pipe_wake_quiet)
  let ?s1 = "upd_file f (f_ref_update (\<lambda>r. r - 1)) s"
  let ?s2 = "upd_file f (\<lambda>x. x\<lparr>f_ref := 0, f_type := FD_NONE\<rparr>) ?s1"
  show ?thesis using a p [of _ _ ?s2] fsys_more_kern [OF iput_frame, of _ ?s2 s']
    by (auto simp: fileclose_def Let_def split: if_split_asm filetype.split_asm)
qed

lemma fileclose_count:
  assumes "fileclose f s = Ok s'" and "f \<in># H" and "count_ok (files s) H"
  shows "count_ok (files s') (H - {#f#})"
proof -
  have n: "f < NFILE" "f_ref (files s f) = int (count H f)" "0 < count H f" using assms by (auto simp: count_ok_def)
  then obtain k where "count H f = Suc k" by (cases "count H f") auto
  then show ?thesis using n assms(2,3) unfolding fileclose_files [OF assms(1)] by (auto simp: count_ok_def dest: in_diffD)
qed

text \<open>The new descriptor of \<open>fdalloc\<close>.\<close>

lemma fdalloc_held:
  assumes "fdalloc f s = (fd, s')" and "0 \<le> fd" and "cur s < NPROC"
  shows "held (ptab s') = add_mset f (held (ptab s)) \<and> files s' = files s \<and> cur s' = cur s \<and>
    (\<exists>g. ptab s' = upd_proc (cur s) g (ptab s) \<and> (\<forall>p. p_state (g p) = p_state p)) \<and> nat fd < NOFILE \<and> p_ofile (curproc s') (nat fd) = Some f \<and>
    p_ofile (curproc s) (nat fd) = None"
proof -
  obtain i where i: "find (\<lambda>fd. p_ofile (curproc s) fd = None) [0..<NOFILE] = Some i" "fd = int i" "s' = upd_cur (p_ofile_update (\<lambda>m. m(i := Some f))) s"
    using assms(1,2) by (auto simp: fdalloc_def split: option.splits)
  have n: "p_ofile (curproc s) i = None" "i < NOFILE" using i(1) by (auto dest: find_SomeD)
  have "held (ptab s') = add_mset f (held (ptab s))"
    using held_upd_ofile [OF assms(3) n(2), of "p_ofile_update (\<lambda>m. m(i := Some f))" "Some f" "ptab s"] n(1) i(3) by simp
  then show ?thesis using i(2,3) n by auto
qed

lemma fdalloc_fail: "fdalloc f s = (fd, s') \<Longrightarrow> fd < 0 \<Longrightarrow> s' = s"
  by (auto simp: fdalloc_def split: option.splits)

lemma clean_upd: "clean t \<Longrightarrow> (\<And>p. p_state (g p) = p_state p) \<Longrightarrow> alive (p_state (procs t i)) \<Longrightarrow> clean (upd_proc i g t)"
  by (auto simp: clean_def)

text \<open>What the current process must be when it makes a system call.\<close>

definition on_cpu :: "kern \<Rightarrow> bool" where
  "on_cpu s \<longleftrightarrow> cur s < NPROC \<and> p_state (curproc s) = RUNNING"

lemma argfd_Some: "argfd n s = Ok (Some (fd, f)) \<Longrightarrow> fd < NOFILE \<and> p_ofile (curproc s) fd = Some f"
  by (auto simp: argfd_def kbind_Ok split: option.split_asm if_split_asm)

lemma sys_dup_desc:
  assumes inv: "desc_inv s" and c: "on_cpu s" and a: "sys_dup s = Ok (r, s')"
  shows "desc_inv s'"
proof -
  from a obtain x where x: "argfd 0 s = Ok x" by (auto simp: sys_dup_def kbind_Ok)
  show ?thesis
  proof (cases x)
    case None
    with a x inv show ?thesis by (simp add: sys_dup_def)
  next
    case (Some y)
    obtain i f where y: "y = (i, f)" by force
    obtain fd s1 where fd: "fdalloc f s = (fd, s1)" by force
    have f: "f \<in># held (ptab s)" using argfd_Some [of 0 s i f] held_mem x Some y c by (auto simp: on_cpu_def)
    show ?thesis
    proof (cases "fd < 0")
      case True
      with a x Some y fd inv show ?thesis by (auto simp: sys_dup_def dest: fdalloc_fail)
    next
      case False
      with fdalloc_held [OF fd] c have h: "held (ptab s1) = add_mset f (held (ptab s))" "files s1 = files s" "clean (ptab s1)"
        using inv by (auto simp: on_cpu_def desc_inv_def intro!: clean_upd)
      from filedup_count [OF f, of s1] inv h(2) obtain s2 where s2: "filedup f s1 = Ok (f, s2)" "count_ok (files s2) (add_mset f (held (ptab s)))" "ptab s2 = ptab s1"
        by (auto simp: desc_inv_def)
      then have "s' = s2" using a x Some y fd False by (auto simp: sys_dup_def)
      then show ?thesis using s2 h by (simp add: desc_inv_def)
    qed
  qed
qed

lemma held_drop:
  assumes "i < NPROC" and "fd < NOFILE" and "p_ofile (procs t i) fd = Some f"
  shows "held (upd_proc i (p_ofile_update (\<lambda>m. m(fd := None))) t) = held t - {#f#}"
proof -
  have "held t = add_mset f (held (upd_proc i (p_ofile_update (\<lambda>m. m(fd := None))) t))"
    using held_upd_ofile [OF assms(1,2), of "p_ofile_update (\<lambda>m. m(fd := None))" None t] assms(3) by simp
  then show ?thesis by simp
qed

lemma clean_drop: "clean t \<Longrightarrow> clean (upd_proc i (p_ofile_update (\<lambda>m. m(fd := None))) t)"
  by (auto simp: clean_def)

lemma sys_close_desc:
  assumes inv: "desc_inv s" and c: "on_cpu s" and a: "sys_close s = Ok (r, s')"
  shows "desc_inv s'"
proof -
  from a obtain x where x: "argfd 0 s = Ok x" by (auto simp: sys_close_def kbind_Ok)
  show ?thesis
  proof (cases x)
    case None
    with a x inv show ?thesis by (simp add: sys_close_def)
  next
    case (Some y)
    obtain i f where y: "y = (i, f)" by force
    let ?s1 = "upd_cur (p_ofile_update (\<lambda>m. m(i := None))) s"
    have o: "i < NOFILE" "p_ofile (curproc s) i = Some f" using argfd_Some [of 0 s i f] x Some y by auto
    from a x Some y have cl: "fileclose f ?s1 = Ok s'" by (auto simp: sys_close_def kbind_Ok)
    have "count_ok (files s') (held (ptab s) - {#f#})"
      using fileclose_count [OF cl held_mem [of "cur s" i]] o c inv by (simp add: on_cpu_def desc_inv_def)
    moreover have "held (ptab s') = held (ptab s) - {#f#}"
      using quiet_held [OF fileclose_quiet [OF cl, THEN conjunct1]] held_drop [of "cur s" i "ptab s" f] o c by (simp add: on_cpu_def)
    moreover have "clean (ptab s')" using quiet_clean [OF fileclose_quiet [OF cl, THEN conjunct1]] clean_drop inv by (simp add: desc_inv_def)
    ultimately show ?thesis by (simp add: desc_inv_def)
  qed
qed

lemma on_cpu_more: "fsys.more t = fsys.more s \<Longrightarrow> on_cpu s \<Longrightarrow> on_cpu t"
  using fsys_more_kern [of t s] by (simp add: on_cpu_def)

lemma open_fd_desc:
  assumes inv: "desc_inv s" and c: "on_cpu s" and a: "open_fd ip omode s = Ok (r, s')"
  shows "desc_inv s'"
proof -
  obtain z s2 where fa: "filealloc s = (z, s2)" by force
  show ?thesis
  proof (cases z)
    case None
    then have "s2 = s" using fa filealloc_None by simp
    then have "fsys.more s' = fsys.more s" using a None fa by (auto simp: open_fd_def kbind_Ok fs_frames)
    then show ?thesis using still_desc [OF still_fs inv] by simp
  next
    case z: (Some f)
    from filealloc_count [OF fa [unfolded z], of "held (ptab s)"] inv
    have h: "count_ok (files s2) (add_mset f (held (ptab s)))" "ptab s2 = ptab s" "cur s2 = cur s" by (auto simp: desc_inv_def)
    obtain fd s3 where fd: "fdalloc f s2 = (fd, s3)" by force
    show ?thesis
    proof (cases "fd < 0")
      case True
      then have "s3 = s2" using fd fdalloc_fail by simp
      then obtain s4 where cl: "fileclose f s2 = Ok s4" "iunlockput ip s4 = Ok s'" using a fa z fd True by (auto simp: open_fd_def kbind_Ok)
      have "count_ok (files s4) (held (ptab s))" using fileclose_count [OF cl(1) _ h(1)] by simp
      moreover have "held (ptab s4) = held (ptab s)" "clean (ptab s4)"
        using fileclose_quiet [OF cl(1)] quiet_held [of "ptab s" "ptab s4"] quiet_clean [of "ptab s" "ptab s4"] inv h(2) by (simp_all add: desc_inv_def)
      ultimately have "desc_inv s4" by (simp add: desc_inv_def)
      then show ?thesis by (rule still_desc [OF still_fs [OF iunlockput_frame [OF cl(2)]]])
    next
      case False
      then obtain s4 where ul: "iunlock ip s3 = Ok s4" "s' = upd_file f (open_file ip omode) s4" using a fa z fd by (auto simp: open_fd_def kbind_Ok)
      note m = fsys_more_kern [OF iunlock_frame [OF ul(1)]]
      have "cur s2 < NPROC" "0 \<le> fd" "alive (p_state (procs (ptab s2) (cur s2)))" using c h False by (simp_all add: on_cpu_def)
      from fdalloc_held [OF fd this(2,1)] this(3) h(2) inv
      have k: "held (ptab s3) = add_mset f (held (ptab s))" "files s3 = files s2" "clean (ptab s3)" by (auto simp: desc_inv_def intro!: clean_upd)
      have "count_ok (files s') (add_mset f (held (ptab s)))" using h(1) k(2) m ul(2) by (auto simp: count_ok_def open_file_def)
      then show ?thesis using k m ul(2) by (simp add: desc_inv_def)
    qed
  qed
qed

lemma sys_open_desc:
  assumes inv: "desc_inv s" and c: "on_cpu s"
  shows "kpost (\<lambda>(r, s'). desc_inv s') (sys_open s)"
proof -
  have d: "desc_inv t" "on_cpu t" if "open_inode path omode s = Ok (q, t)" for path omode q t
    using still_desc [OF still_fs [OF open_inode_frame [OF that]] inv] on_cpu_more [OF open_inode_frame [OF that] c] by auto
  show ?thesis unfolding sys_open_def by (intro kposts kpostI) (auto simp: inv kpost_def dest: d intro: open_fd_desc [OF d])
qed

lemma pipealloc_count:
  assumes c: "count_ok (files s) H" and a: "pipealloc s = Ok (x, s')"
  shows "quiet (ptab s) (ptab s') \<and> cur s' = cur s \<and>
    count_ok (files s') (case x of None \<Rightarrow> H | Some (f0, f1) \<Rightarrow> add_mset f0 (add_mset f1 H))"
proof (cases "filealloc s")
  case (Pair r0 s0)
  show ?thesis
  proof (cases r0)
    case None
    then show ?thesis using Pair a c filealloc_None [of s s0] by (auto simp: pipealloc_def)
  next
    case (Some f0)
    from filealloc_count [OF Pair [unfolded Some] c] have i0: "count_ok (files s0) (add_mset f0 H)" "ptab s0 = ptab s" "cur s0 = cur s" by blast+
    obtain r1 s1 where a1: "filealloc s0 = (r1, s1)" by force
    show ?thesis
    proof (cases r1)
      case None
      then have "s1 = s0" using a1 filealloc_None by simp
      then have cl: "fileclose f0 s0 = Ok s'" "x = None" using a Pair Some a1 None by (auto simp: pipealloc_def kbind_Ok)
      then show ?thesis using fileclose_count [OF cl(1) _ i0(1)] fileclose_quiet [OF cl(1)] i0(2,3) by simp
    next
      case r1: (Some f1)
      from filealloc_count [OF a1 [unfolded r1] i0(1)] have i1: "count_ok (files s1) (add_mset f1 (add_mset f0 H))" "ptab s1 = ptab s" "cur s1 = cur s" "f1 \<noteq> f0"
        using i0(2,3) by auto
      obtain p m where k: "kalloc (phys s1) = (p, m)" by force
      show ?thesis
      proof (cases "p = 0")
        case True
        with a Pair Some a1 r1 k obtain u where cl: "fileclose f0 (s1\<lparr>phys := m\<rparr>) = Ok u" "fileclose f1 u = Ok s'" "x = None" by (auto simp: pipealloc_def kbind_Ok)
        have "count_ok (files u) (add_mset f1 H)" using fileclose_count [OF cl(1), of "add_mset f1 (add_mset f0 H)"] i1(1,4) by simp
        from fileclose_count [OF cl(2) _ this] have "count_ok (files s') H" by simp
        moreover have "quiet (ptab s) (ptab s')" "cur s' = cur s"
          using fileclose_quiet [OF cl(1)] fileclose_quiet [OF cl(2)] i1(2,3) by (auto intro: quiet_trans)
        ultimately show ?thesis using cl(3) by simp
      next
        case False
        with a Pair Some a1 r1 k have e: "x = Some (f0, f1)" "files s' = (files s1)(f0 := pipe_file p False (files s1 f0), f1 := pipe_file p True (files s1 f1))"
          "ptab s' = ptab s1" "cur s' = cur s1" using i1(4) by (auto simp: pipealloc_def)
        have "count_ok (files s') (add_mset f0 (add_mset f1 H))" using i1(1) unfolding e(2) by (auto simp: count_ok_def pipe_file_def add_mset_commute)
        then show ?thesis using e i1 by simp
      qed
    qed
  qed
qed

lemma pipe_fds_desc:
  assumes c: "count_ok (files s) (add_mset fr (add_mset fw (held (ptab s))))" and cl: "clean (ptab s)" and cpu: "on_cpu s"
    and a: "pipe_fds p fr fw s = Ok (r, s')"
  shows "desc_inv s'"
proof -
  obtain fd0 s1 where f0: "fdalloc fr s = (fd0, s1)" by force
  have close: "desc_inv v" if "fileclose fr t = Ok u" "fileclose fw u = Ok v" "count_ok (files t) (add_mset fr (add_mset fw (held (ptab t))))" "clean (ptab t)" for t u v
  proof -
    note q = fileclose_quiet [OF that(1), THEN conjunct1] fileclose_quiet [OF that(2), THEN conjunct1]
    have "count_ok (files u) (add_mset fw (held (ptab t)))" using fileclose_count [OF that(1) _ that(3)] by simp
    from fileclose_count [OF that(2) _ this] show ?thesis
      using quiet_held [OF q(1)] quiet_held [OF q(2)] quiet_clean [OF q(2) quiet_clean [OF q(1) that(4)]] by (simp add: desc_inv_def)
  qed
  show ?thesis
  proof (cases "fd0 < 0")
    case True
    then show ?thesis using a f0 fdalloc_fail [OF f0] close c cl by (auto simp: pipe_fds_def kbind_Ok)
  next
    case False
    from fdalloc_held [OF f0] False cpu
    obtain g where h: "held (ptab s1) = add_mset fr (held (ptab s))" "files s1 = files s" "cur s1 = cur s" "nat fd0 < NOFILE" "p_ofile (curproc s1) (nat fd0) = Some fr"
      "ptab s1 = upd_proc (cur s) g (ptab s)" "\<And>p. p_state (g p) = p_state p" by (auto simp: on_cpu_def)
    have c1: "clean (ptab s1)" "on_cpu s1" using h(3,6,7) cl cpu by (auto simp: on_cpu_def intro!: clean_upd)
    obtain fd1 s2 where f1: "fdalloc fw s1 = (fd1, s2)" by force
    show ?thesis
    proof (cases "fd1 < 0")
      case True
      let ?t = "upd_cur (p_ofile_update (\<lambda>m. m(nat fd0 := None))) s1"
      have "held (ptab ?t) = held (ptab s)" using held_drop [of "cur s1" "nat fd0" "ptab s1" fr] h c1(2) by (simp add: on_cpu_def)
      moreover obtain u where "fileclose fr ?t = Ok u" "fileclose fw u = Ok s'" using a f0 f1 True False fdalloc_fail [OF f1] by (auto simp: pipe_fds_def kbind_Ok)
      ultimately show ?thesis using close [of ?t u s'] c h(2) clean_drop [OF c1(1)] by simp
    next
      case f: False
      from fdalloc_held [OF f1] f c1(2) obtain g' where h': "held (ptab s2) = add_mset fw (held (ptab s1))" "files s2 = files s1"
        "ptab s2 = upd_proc (cur s1) g' (ptab s1)" "\<And>p. p_state (g' p) = p_state p" by (auto simp: on_cpu_def)
      have "clean (ptab s2)" using h'(3,4) c1 by (auto simp: on_cpu_def intro!: clean_upd)
      moreover have "files s' = files s2" "ptab s' = ptab s2" using a f0 f1 f False by (auto simp: pipe_fds_def kbind_Ok)
      ultimately show ?thesis using c h h' by (simp add: desc_inv_def add_mset_commute)
    qed
  qed
qed

lemma sys_pipe_desc:
  assumes inv: "desc_inv s" and c: "on_cpu s" and a: "sys_pipe s = Ok (r, s')"
  shows "desc_inv s'"
proof -
  from a obtain x where "argptr 0 8 s = Ok x" by (auto simp: sys_pipe_def kbind_Ok)
  then consider "s' = s" | p y t where "pipealloc s = Ok (y, t)" "(case y of None \<Rightarrow> ret (- 1) t | Some (fr, fw) \<Rightarrow> pipe_fds p fr fw t) = Ok (r, s')"
    using a by (cases x) (auto simp: sys_pipe_def kbind_Ok)
  then show ?thesis
  proof cases
    case (2 p y t)
    from pipealloc_count [OF _ 2(1), of "held (ptab s)"] inv
    have q: "quiet (ptab s) (ptab t)" "cur t = cur s" "count_ok (files t) (case y of None \<Rightarrow> held (ptab s) | Some (f0, f1) \<Rightarrow> add_mset f0 (add_mset f1 (held (ptab s))))"
      by (auto simp: desc_inv_def)
    have k: "held (ptab t) = held (ptab s)" "clean (ptab t)" using quiet_held [OF q(1)] quiet_clean [OF q(1)] inv by (auto simp: desc_inv_def)
    show ?thesis
    proof (cases y)
      case None
      then show ?thesis using 2(2) q(3) k by (auto simp: desc_inv_def)
    next
      case (Some z)
      then obtain fr fw where z: "y = Some (fr, fw)" by (cases z) auto
      have "ptab t = ptab s" using 2(1) z by (auto simp: pipealloc_def filealloc_def Let_def kbind_Ok split: prod.split_asm option.split_asm if_split_asm)
      then have "on_cpu t" using c q(2) by (simp add: on_cpu_def)
      then show ?thesis using pipe_fds_desc [of t fr fw p r s'] 2(2) z q(3) k by simp
    qed
  qed (use inv in simp)
qed

section \<open>Processes come and go\<close>

lemma upd_p_sel [simp]: "files (upd_p i g s) = files s" "ptab (upd_p i g s) = upd_proc i g (ptab s)" "cur (upd_p i g s) = cur s" "phys (upd_p i g s) = phys s"
  "pipes (upd_p i g s) = pipes s" "link_end (upd_p i g s) = link_end s" "link_data (upd_p i g s) = link_data s"
  by (simp_all add: upd_p_def)

text \<open>Only the entry \<open>i\<close> differs, and its descriptors are the same.\<close>

definition all_but :: "nat \<Rightarrow> kern \<Rightarrow> kern \<Rightarrow> bool" where
  "all_but i s t \<longleftrightarrow> files t = files s \<and> cur t = cur s \<and> (\<forall>j. p_ofile (procs (ptab t) j) = p_ofile (procs (ptab s) j)) \<and>
     (\<forall>j. j \<noteq> i \<longrightarrow> procs (ptab t) j = procs (ptab s) j)"

lemma all_but_trans: "all_but i s t \<Longrightarrow> all_but i t u \<Longrightarrow> all_but i s u"
  by (simp add: all_but_def)

lemma all_but_upd [intro]: "(\<And>p. p_ofile (g p) = p_ofile p) \<Longrightarrow> all_but i s t \<Longrightarrow> all_but i s (upd_p i g t)"
  by (simp add: all_but_def)

lemma all_but_phys [simp]: "all_but i s (t\<lparr>phys := m\<rparr>) = all_but i s t"
  by (simp add: all_but_def)

lemma allocproc_same:
  assumes "allocproc fr s = (x, t)"
  shows "x = None \<Longrightarrow> t = s \<or> (\<exists>i. all_but i s t \<and> p_state (procs (ptab s) i) = UNUSED)"
    and "x = Some i \<Longrightarrow> i < NPROC \<and> all_but i s t \<and> p_state (procs (ptab s) i) = UNUSED"
proof -
  have a: "j < NPROC" "p_state (procs (ptab s) j) = UNUSED" "all_but j s (s\<lparr>ptab := t'\<rparr>)" if "alloc_slot (ptab s) = Some (j, t')" for j t'
    using that by (auto simp: alloc_slot_def all_but_def dest: find_SomeD)
  show "x = None \<Longrightarrow> t = s \<or> (\<exists>i. all_but i s t \<and> p_state (procs (ptab s) i) = UNUSED)"
    and "x = Some i \<Longrightarrow> i < NPROC \<and> all_but i s t \<and> p_state (procs (ptab s) i) = UNUSED"
    using assms a by (auto simp: allocproc_def Let_def all_but_def split: option.split_asm prod.split_asm if_split_asm)
qed

text \<open>A process that copies its descriptors.\<close>

lemma fork_files_desc:
  assumes "fork_files np is s = Ok s'" and "count_ok (files s) (held (ptab s))" and "cur s < NPROC" and "np < NPROC" and "np \<noteq> cur s"
    and "distinct is" and "\<forall>i \<in> set is. i < NOFILE \<and> p_ofile (procs (ptab s) np) i = None"
  shows "count_ok (files s') (held (ptab s')) \<and> cur s' = cur s \<and> (\<forall>j. p_state (procs (ptab s') j) = p_state (procs (ptab s) j)) \<and>
    (\<forall>j. j \<noteq> np \<longrightarrow> procs (ptab s') j = procs (ptab s) j) \<and>
    (\<forall>i. p_ofile (procs (ptab s') np) i = (if i \<in> set is then p_ofile (curproc s) i else p_ofile (procs (ptab s) np) i))"
  using assms
proof (induction "is" arbitrary: s)
  case (Cons i "is")
  show ?case
  proof (cases "p_ofile (curproc s) i")
    case None
    then show ?thesis using Cons.IH [of s] Cons.prems by auto
  next
    case (Some f)
    have f: "f \<in># held (ptab s)" using held_mem [of "cur s" i "ptab s" f] Some Cons.prems by simp
    from filedup_count [OF f Cons.prems(2)] obtain s1 where s1: "filedup f s = Ok (f, s1)" "count_ok (files s1) (add_mset f (held (ptab s)))" "ptab s1 = ptab s" "cur s1 = cur s"
      by blast
    let ?s2 = "upd_p np (p_ofile_update (\<lambda>m. m(i := Some f))) s1"
    have "held (ptab ?s2) = add_mset f (held (ptab s))"
      using held_upd_ofile [of np i "p_ofile_update (\<lambda>m. m(i := Some f))" "Some f" "ptab s"] Cons.prems s1(3) by simp
    then have c2: "count_ok (files ?s2) (held (ptab ?s2))" using s1(2) by simp
    have r: "fork_files np is ?s2 = Ok s'" using Cons.prems(1) Some s1(1) by simp
    have none: "\<forall>j \<in> set is. j < NOFILE \<and> p_ofile (procs (ptab ?s2) np) j = None" using Cons.prems(6,7) s1(3) by auto
    have st: "p_state (procs (ptab ?s2) j) = p_state (procs (ptab s) j)" "j \<noteq> np \<Longrightarrow> procs (ptab ?s2) j = procs (ptab s) j" for j by (simp_all add: s1(3))
    from Cons.IH [OF r c2 _ _ _ _ none] Cons.prems s1(4) have IH: "count_ok (files s') (held (ptab s'))" "cur s' = cur s"
      "\<And>j. p_state (procs (ptab s') j) = p_state (procs (ptab ?s2) j)" "\<And>j. j \<noteq> np \<Longrightarrow> procs (ptab s') j = procs (ptab ?s2) j"
      "\<And>i. p_ofile (procs (ptab s') np) i = (if i \<in> set is then p_ofile (curproc ?s2) i else p_ofile (procs (ptab ?s2) np) i)" by simp_all
    have "p_ofile (procs (ptab s') np) j = (if j \<in> set (i # is) then p_ofile (curproc s) j else p_ofile (procs (ptab s) np) j)" for j
      using Cons.prems(5,6) Some by (auto simp: IH(5) s1(3,4))
    then show ?thesis using IH(1,2) st by (simp add: IH(3,4))
  qed
qed simp

lemma clean_same: "clean (ptab s) \<Longrightarrow> all_but i s t \<Longrightarrow> \<not> alive (p_state (procs (ptab s) i)) \<Longrightarrow> clean (ptab t)"
  by (auto simp: clean_def all_but_def) (metis)

lemma all_but_desc: "desc_inv s \<Longrightarrow> all_but i s t \<Longrightarrow> \<not> alive (p_state (procs (ptab s) i)) \<Longrightarrow> desc_inv t"
  using held_cong [of "ptab t" "ptab s"] by (auto simp: desc_inv_def all_but_def intro: clean_same [unfolded all_but_def])

lemma fork_desc:
  assumes inv: "desc_inv s" and c: "on_cpu s" and a: "fork fr s = Ok (r, s')"
  shows "desc_inv s'"
proof -
  obtain x t where al: "allocproc fr s = (x, t)" by force
  show ?thesis
  proof (cases x)
    case None
    then have "s' = t" using a al by (simp add: fork_def)
    then show ?thesis using allocproc_same(1) [OF al None] inv all_but_desc by auto
  next
    case (Some np)
    from allocproc_same(2) [OF al Some] have np: "np < NPROC" "all_but np s t" "p_state (procs (ptab s) np) = UNUSED" by auto
    have ne: "np \<noteq> cur s" using c np(3) by (auto simp: on_cpu_def)
    have dead: "\<not> alive (p_state (procs (ptab s) np))" using np(3) by simp
    from a al Some obtain d m where cp: "copyuvm (link_end t) (link_data t) (p_pgdir (curproc t)) (p_sz (curproc t)) (phys t) = Ok (d, m)"
      by (auto simp: fork_def kbind_Ok)
    show ?thesis
    proof (cases "d = 0")
      case True
      with a al Some cp obtain g m2 where "s' = upd_p np g ((upd_p np (p_pgdir_update (\<lambda>_. d)) (t\<lparr>phys := m\<rparr>))\<lparr>phys := m2\<rparr>)" "\<And>p. p_ofile (g p) = p_ofile p"
        by (auto simp: fork_def kbind_Ok Let_def)
      then have "all_but np s s'" using np(2) by (auto intro!: all_but_upd)
      then show ?thesis by (rule all_but_desc [OF inv _ dead])
    next
      case False
      define t1 where "t1 = upd_p np (p_pgdir_update (\<lambda>_. d)) (t\<lparr>phys := m\<rparr>)"
      define t2 where "t2 = upd_p np (\<lambda>x. x\<lparr>p_sz := p_sz (curproc t1), p_parent := Some (cur t1), p_tf := (p_tf (curproc t1))\<lparr>tf_eax := 0\<rparr>\<rparr>) t1"
      have sb: "all_but np s t2" unfolding t2_def t1_def using np(2) by (auto intro!: all_but_upd)
      from a al Some cp False obtain t3 ip where ff: "fork_files np [0..<NOFILE] t2 = Ok t3" and
        s': "s' = upd_p np (\<lambda>x. x\<lparr>p_cwd := Some ip, p_state := RUNNABLE, p_name := set_name (p_name x) (p_name (curproc (snd (idup ip t3))))\<rparr>) (snd (idup ip t3))"
        by (auto simp: fork_def kbind_Ok Let_def t1_def t2_def elim!: deref.elims split: prod.split_asm) (auto simp: idup_def)
      have i2: "desc_inv t2" by (rule all_but_desc [OF inv sb dead])
      have none: "\<forall>i \<in> set [0..<NOFILE]. i < NOFILE \<and> p_ofile (procs (ptab t2) np) i = None" using sb inv np dead by (auto simp: all_but_def desc_inv_def clean_def)
      have cu: "cur t2 = cur s" "cur t2 < NPROC" using sb c by (auto simp: all_but_def on_cpu_def)
      from fork_files_desc [OF ff _ cu(2) np(1) _ _ none] i2 ne cu(1)
      have h: "count_ok (files t3) (held (ptab t3))" "\<And>j. j \<noteq> np \<Longrightarrow> procs (ptab t3) j = procs (ptab t2) j" by (auto simp: desc_inv_def)
      have m: "files (snd (idup ip t3)) = files t3" "ptab (snd (idup ip t3)) = ptab t3" using fsys_more_kern [of "snd (idup ip t3)" t3] by simp_all
      have "held (ptab s') = held (ptab t3)" by (rule held_cong) (simp add: s' m)
      moreover have "clean (ptab s')" unfolding clean_def
      proof (intro allI impI)
        fix j fd assume j: "j < NPROC" "\<not> alive (p_state (procs (ptab s') j))" "fd < NOFILE"
        then have "j \<noteq> np" by (auto simp: s')
        then show "p_ofile (procs (ptab s') j) fd = None" using j i2 h(2) by (auto simp: s' m desc_inv_def clean_def)
      qed
      ultimately show ?thesis using h(1) by (simp add: desc_inv_def s' m)
    qed
  qed
qed

lemma exit_files_desc:
  assumes "exit_files is s = Ok s'" and "desc_inv s" and "cur s < NPROC" and "set is \<subseteq> {..<NOFILE}"
  shows "desc_inv s' \<and> cur s' = cur s \<and> quiet (ptab s') (ptab s') \<and> (\<forall>i. p_ofile (curproc s') i = (if i \<in> set is then None else p_ofile (curproc s) i))"
  using assms
proof (induction "is" arbitrary: s)
  case (Cons i "is")
  show ?case
  proof (cases "p_ofile (curproc s) i")
    case None
    then show ?thesis using Cons.IH [of s] Cons.prems by auto
  next
    case (Some f)
    then obtain s1 where cl: "fileclose f s = Ok s1" and r: "exit_files is (upd_cur (p_ofile_update (\<lambda>m. m(i := None))) s1) = Ok s'"
      using Cons.prems(1) by (auto simp: kbind_Ok)
    let ?s2 = "upd_cur (p_ofile_update (\<lambda>m. m(i := None))) s1"
    note q = fileclose_quiet [OF cl]
    have f: "f \<in># held (ptab s)" using held_mem [of "cur s" i "ptab s" f] Some Cons.prems by simp
    have o: "p_ofile (curproc s1) = p_ofile (curproc s)" using q by (simp add: quiet_def)
    have "count_ok (files s1) (held (ptab s) - {#f#})" using fileclose_count [OF cl f] Cons.prems(2) by (simp add: desc_inv_def)
    moreover have "held (ptab ?s2) = held (ptab s) - {#f#}"
      using held_drop [of "cur s1" i "ptab s1" f] q o Some Cons.prems quiet_held [of "ptab s" "ptab s1"] by simp
    moreover have "clean (ptab ?s2)" using clean_drop quiet_clean [of "ptab s" "ptab s1"] q Cons.prems(2) by (simp add: desc_inv_def)
    ultimately have "desc_inv ?s2" by (simp add: desc_inv_def)
    from Cons.IH [OF r this] Cons.prems(3,4) q o show ?thesis by (auto split: if_splits)
  qed
qed simp

lemma wakeup1_ofile [simp]: "p_ofile (procs (wakeup1 ch t) i) = p_ofile (procs t i)"
  by (simp add: wakeup1_def Let_def)

lemma reparent_all_ofile: "p_ofile (procs (fold (reparent me) is t) i) = p_ofile (procs t i)"
proof (induction "is" arbitrary: t)
  case (Cons j "is")
  then show ?case by (simp add: reparent_def Let_def)
qed simp

lemma exit_table_desc:
  assumes "exit_table me t = Ok t'" and "clean t" and "\<forall>fd < NOFILE. p_ofile (procs t me) fd = None"
  shows "held t' = held t \<and> clean t'"
proof -
  let ?t1 = "fold (reparent me) [0..<NPROC] (wakeup1 (map_option Ch_proc (p_parent (procs t me))) t)"
  have t': "t' = upd_proc me (p_state_update (\<lambda>_. ZOMBIE)) ?t1" using assms(1) by (simp add: exit_table_def Let_def)
  have o: "p_ofile (procs t' i) = p_ofile (procs t i)" for i by (simp add: t' reparent_all_ofile)
  have c: "calm t ?t1" by (rule calm_trans [OF calm_wakeup1 reparent_all_calm])
  have "\<not> alive (p_state (procs t i))" if "\<not> alive (p_state (procs t' i))" "i \<noteq> me" for i
  proof -
    have st: "p_state (procs ?t1 i) = p_state (procs t' i)" using that(2) by (simp add: t')
    have "p_state (procs t' i) \<noteq> RUNNABLE" using that(1) by auto
    from calm_stateD(2) [OF c this st] show ?thesis using that(1) by simp
  qed
  then have "clean t'" using assms(2,3) by (auto simp: clean_def o)
  then show ?thesis using held_cong [of t' t] o by simp
qed

lemma kexit_desc:
  assumes inv: "desc_inv s" and c: "on_cpu s"
  shows "kpost (\<lambda>s'. desc_inv s') (kexit s)"
  unfolding kexit_def
proof (intro kposts)
  fix s1 ip s2 s3 t
  assume e: "exit_files [0..<NOFILE] s = Ok s1" and i: "iput ip s1 = Ok s2" and s3: "s3 = upd_cur (p_cwd_update (\<lambda>_. None)) s2" and x: "exit_table (cur s3) (ptab s3) = Ok t"
  have "set [0..<NOFILE] \<subseteq> {..<NOFILE}" by auto
  from exit_files_desc [OF e inv _ this] c have d: "desc_inv s1" "cur s1 = cur s" "\<forall>i < NOFILE. p_ofile (curproc s1) i = None" by (auto simp: on_cpu_def)
  have "still s1 s3" unfolding s3 using still_fs [OF iput_frame [OF i]] by (intro still_upd_cur) simp_all
  note d3 = still_desc [OF this d(1)] and q = this
  have "\<forall>i < NOFILE. p_ofile (curproc s3) i = None" using d q by (auto simp: still_def quiet_def)
  from exit_table_desc [OF x _ this] d3 show "desc_inv (s3\<lparr>ptab := t\<rparr>)" by (simp add: desc_inv_def)
qed

lemma kwait_desc:
  assumes inv: "desc_inv s"
  shows "kpost (\<lambda>(r, s'). desc_inv s') (kwait s)"
proof (cases "wait_scan (cur s) (ptab s) [0..<NPROC] False")
  case (Inl i)
  then have i: "p_state (procs (ptab s) i) = ZOMBIE" using wait_scan_Inl by blast
  have "desc_inv (s\<lparr>phys := m, ptab := clear_slot i (ptab s)\<rparr>)" for m
    by (rule all_but_desc [OF inv, of i]) (auto simp: all_but_def clear_slot_def i)
  then show ?thesis unfolding kwait_def Inl sum.case by (intro kposts) auto
next
  case (Inr b)
  then show ?thesis unfolding kwait_def Inr sum.case
    by (intro kposts) (auto simp: inv intro: still_desc [OF still_ksleep])
qed

section \<open>Property\<close>

lemma still_post: "kpost (\<lambda>(r, s'). still s s') h \<Longrightarrow> desc_inv s \<Longrightarrow> kpost (\<lambda>(r, s'). desc_inv s') h"
  by (auto simp: kpost_def dest: still_desc)

lemma kpost_bind_post: "kpost P r \<Longrightarrow> (\<And>x. P x \<Longrightarrow> kpost Q (f x)) \<Longrightarrow> kpost Q (kbind r f)"
  by (auto simp: kpost_def kbind_Ok)

lemma syscalls_desc:
  assumes "syscalls fr junk n = Some h" and inv: "desc_inv s" and c: "on_cpu s"
  shows "kpost (\<lambda>(r, s'). desc_inv s') (h s)"
proof -
  note st = still_post [OF _ inv]
  have h: "h \<in> {sys_fork fr, sys_exit, sys_wait, sys_pipe, sys_write, sys_read, sys_close, sys_kill, sys_exec junk, sys_open, sys_mknod, sys_unlink, sys_fstat,
      sys_link, sys_mkdir, sys_chdir, sys_dup, sys_getpid, sys_sbrk, sys_sleep, sys_uptime, sys_getsyscallinfo}"
    using assms(1) by (auto simp: syscalls_def split: if_split_asm)
  have "kpost (\<lambda>(r, s'). desc_inv s') (sys_fork fr s)" unfolding sys_fork_def by (intro kposts) (auto dest: fork_desc [OF inv c])
  moreover have "kpost (\<lambda>(r, s'). desc_inv s') (sys_exit s)" unfolding sys_exit_def by (rule kpost_bind_post [OF kexit_desc [OF inv c]]) (auto intro: kposts)
  moreover have "kpost (\<lambda>(r, s'). desc_inv s') (sys_pipe s)" "kpost (\<lambda>(r, s'). desc_inv s') (sys_close s)" "kpost (\<lambda>(r, s'). desc_inv s') (sys_dup s)"
    using sys_pipe_desc [OF inv c] sys_close_desc [OF inv c] sys_dup_desc [OF inv c] by (auto intro!: kpostI)
  moreover have "kpost (\<lambda>(r, s'). desc_inv s') (sys_getpid s)" "kpost (\<lambda>(r, s'). desc_inv s') (sys_uptime s)" "kpost (\<lambda>(r, s'). desc_inv s') (sys_getsyscallinfo s)"
    using inv by (auto simp: sys_getpid_def sys_uptime_def sys_getsyscallinfo_def intro!: kposts)
  ultimately show ?thesis
    using h kwait_desc [OF inv] sys_open_desc [OF inv c] st [OF sys_write_still] st [OF sys_read_still] st [OF sys_kill_still] st [OF sys_exec_still] st [OF sys_mknod_still]
      st [OF sys_unlink_still] st [OF sys_fstat_still] st [OF sys_link_still] st [OF sys_mkdir_still] st [OF sys_chdir_still] st [OF sys_sbrk_still] st [OF sys_sleep_still]
    unfolding sys_wait_def by auto
qed

lemma set_eax_still: "still s (set_eax r s)"
  unfolding set_eax_def by (rule still_upd_cur) simp_all

lemma syscall_desc:
  assumes "desc_inv s" and "on_cpu s" and "syscall fr junk s = Ok (r, s')"
  shows "desc_inv s'"
proof -
  let ?s = "s\<lparr>syscall_count := wrap32 (syscall_count s + 1)\<rparr>"
  have s: "desc_inv ?s" "on_cpu ?s" using assms(1,2) by (simp_all add: desc_inv_def on_cpu_def)
  have "kpost (\<lambda>(r, s'). desc_inv s') (syscall fr junk s)"
  proof (cases "if sint (tf_eax (p_tf (curproc s))) > 0 then syscalls fr junk (nat (sint (tf_eax (p_tf (curproc s))))) else None")
    case None
    show ?thesis unfolding syscall_def None Let_def option.case by (intro kposts) (simp add: still_desc [OF set_eax_still assms(1)])
  next
    case (Some h)
    then have h: "kpost (\<lambda>(r, s'). desc_inv s') (h ?s)" by (auto intro: syscalls_desc [OF _ s] split: if_split_asm)
    show ?thesis unfolding syscall_def Some Let_def option.case
      by (rule kpost_bind_post [OF h]) (auto intro!: kpostI split: outcome.split_asm dest: still_desc [OF set_eax_still])
  qed
  from kpostD [OF this assms(3)] show ?thesis by simp
qed

text \<open>
  C14. Every system call that ends keeps the reference counts of the file table exact: if, for each open file, the count is the number of
  descriptors of all processes that refer to it, and dead entries of the process table have no descriptors, then the same holds afterwards,
  whatever the call was, whether it succeeded, failed half-way or put the process to sleep.
\<close>

theorem syscall_keeps_counts:
  assumes "\<forall>f < NFILE. f_ref (files s f) = int (count (held (ptab s)) f) \<and> (f_ref (files s f) = 0 \<longrightarrow> f_type (files s f) = FD_NONE)"
    and "set_mset (held (ptab s)) \<subseteq> {..<NFILE}" and "clean (ptab s)" and "on_cpu s" and "syscall forkret junk s = Ok (r, s')"
  shows "\<forall>f < NFILE. f_ref (files s' f) = int (count (held (ptab s')) f) \<and> (f_ref (files s' f) = 0 \<longrightarrow> f_type (files s' f) = FD_NONE)"
proof -
  have "desc_inv s" using assms(1,2,3) by (simp add: desc_inv_def count_ok_def)
  from syscall_desc [OF this assms(4,5)] show ?thesis by (auto simp: desc_inv_def count_ok_def)
qed

text \<open>A process with one descriptor that calls \<open>dup(0)\<close>; its single page is at \<open>0x5000\<close>, its page directory at \<open>0x3000\<close>.\<close>

definition dup_kern :: kern where
  "dup_kern = idle_kern\<lparr>files := (files idle_kern)(0 := (files idle_kern 0)\<lparr>f_type := FD_INODE, f_ref := 1, f_readable := True\<rparr>),
     phys := \<lparr>freelist = 0, pmem = (\<lambda>_. 0)(0x3000 := 0x4007, 0x4000 := 0x5007, 0x5008 := 4095)\<rparr>,
     ptab := upd_proc 0 (\<lambda>p. p\<lparr>p_ofile := (p_ofile p)(0 := Some 0), p_sz := 4096, p_pgdir := 0x3000, p_tf := zero_frame\<lparr>tf_eax := 17\<rparr>\<rparr>) (tab run_first),
     cur := 0\<rparr>"

lemma dup_kern_sel: "files dup_kern f = (if f = 0 then (files idle_kern 0)\<lparr>f_type := FD_INODE, f_ref := 1, f_readable := True\<rparr> else files idle_kern f)"
  "phys dup_kern = \<lparr>freelist = 0, pmem = (\<lambda>_. 0)(0x3000 := 0x4007, 0x4000 := 0x5007, 0x5008 := 4095)\<rparr>" "cur dup_kern = 0"
  "p_ofile (procs (ptab dup_kern) 0) = [0 \<mapsto> 0]" "p_sz (procs (ptab dup_kern) 0) = 4096" "p_pgdir (procs (ptab dup_kern) 0) = 0x3000"
  "p_tf (procs (ptab dup_kern) 0) = zero_frame\<lparr>tf_eax := 17\<rparr>" "p_state (procs (ptab dup_kern) 0) = RUNNING"
  "\<And>i. i \<noteq> 0 \<Longrightarrow> p_ofile (procs (ptab dup_kern) i) = (\<lambda>_. None)"
  by (simp_all add: dup_kern_def run_first_def run_boot_def run_table_def run_blank_def)

lemma dup_kern_held: "held (ptab dup_kern) = {#0#}"
proof -
  have "p_ofile (procs (tab run_first) i) = (\<lambda>_. None)" for i by (simp add: run_first_def run_boot_def run_table_def run_blank_def)
  then have "held (tab run_first) = {#}" by (simp add: held_def fds_def)
  with held_upd_ofile [of 0 0 "\<lambda>p. p\<lparr>p_ofile := (p_ofile p)(0 := Some 0), p_sz := 4096, p_pgdir := 0x3000, p_tf := zero_frame\<lparr>tf_eax := 17\<rparr>\<rparr>" "Some 0" "tab run_first"]
  show ?thesis by (simp add: dup_kern_def NPROC_def NOFILE_def run_first_def run_boot_def run_table_def run_blank_def)
qed

lemma dup_kern_addr: "a < 4096 \<Longrightarrow> user_addr 0x3000 a (phys dup_kern) = Ok (0x5000 + a)"
proof -
  assume a: "a < 4096"
  have m: "pmem (phys dup_kern) 0x3000 = 0x4007" "pmem (phys dup_kern) 0x4000 = 0x5007" by (simp_all add: dup_kern_sel)
  have "PDX a = 0" "PTX a = 0" using a by (simp_all add: PDX_def PTX_def)
  then have "walkpgdir 0x3000 a False (phys dup_kern) = (0x4000, phys dup_kern)"
    by (simp add: walkpgdir_def m present_def PTE_P_def PTE_ADDR_def)
  then show ?thesis using a by (simp add: user_addr_def m present_def PTE_P_def PTE_ADDR_def PGSIZE_def)
qed

lemma load_user_4: "load_user d va 4 k = load_user d va (Suc (Suc (Suc (Suc 0)))) k"
proof -
  have "(4 :: nat) = Suc (Suc (Suc (Suc 0)))" by simp
  then show ?thesis by (rule arg_cong)
qed

lemma get_le_4: "get_le 4 d i = get_le (Suc (Suc (Suc (Suc 0)))) d i"
proof -
  have "(4 :: nat) = Suc (Suc (Suc (Suc 0)))" by simp
  then show ?thesis by (rule arg_cong)
qed

lemma dup_kern_ints:
  "fetchint (procs (ptab dup_kern) 0) 4 (phys dup_kern) = Ok (Some 0)"
  "fetchint (procs (ptab dup_kern) 0) 8 (phys dup_kern) = Ok (Some 4095)"
proof -
  have n: "pmem (phys dup_kern) 0x5004 = 0" "pmem (phys dup_kern) 0x5008 = 4095" by (simp_all add: dup_kern_sel)
  have u: "user_addr 0x3000 4 (phys dup_kern) = Ok 0x5004" "user_addr 0x3000 5 (phys dup_kern) = Ok 0x5005" "user_addr 0x3000 6 (phys dup_kern) = Ok 0x5006"
    "user_addr 0x3000 7 (phys dup_kern) = Ok 0x5007" "user_addr 0x3000 8 (phys dup_kern) = Ok 0x5008" "user_addr 0x3000 9 (phys dup_kern) = Ok 0x5009"
    "user_addr 0x3000 10 (phys dup_kern) = Ok 0x500A" "user_addr 0x3000 11 (phys dup_kern) = Ok 0x500B" by (simp_all add: dup_kern_addr)
  have "load_user 0x3000 4 4 (phys dup_kern) = Ok [0, 0, 0, 0]" "load_user 0x3000 8 4 (phys dup_kern) = Ok [0xFF, 0x0F, 0, 0]"
    by (simp_all add: load_user_4 u get_byte_def n)
  then show "fetchint (procs (ptab dup_kern) 0) 4 (phys dup_kern) = Ok (Some 0)" "fetchint (procs (ptab dup_kern) 0) 8 (phys dup_kern) = Ok (Some 4095)"
    by (simp_all add: fetchint_def dup_kern_sel(5,6) wrap32_def get_le_4)
qed

theorem syscall_keeps_counts_witness:
  "\<exists>s'. syscall 0 [] dup_kern = Ok (Returns 1, s') \<and> f_ref (files s' 0) = int (count (held (ptab s')) 0)"
proof -
  have e: "tf_eax (p_tf (procs (ptab dup_kern) 0)) = 17" "tf_esp (p_tf (procs (ptab dup_kern) 0)) = 0" by (simp_all add: dup_kern_sel zero_frame_def)
  let ?s = "dup_kern\<lparr>syscall_count := wrap32 (syscall_count dup_kern + 1)\<rparr>"
  have "argint 0 ?s = Ok (Some 0)" using dup_kern_ints(1) by (simp add: argint_def dup_kern_sel(3) e)
  then have fd: "argfd 0 ?s = Ok (Some (0, 0))" by (simp add: argfd_def dup_kern_sel NOFILE_def)
  have al: "fdalloc 0 ?s = (1, upd_cur (p_ofile_update (\<lambda>m. m(1 := Some 0))) ?s)"
    by (simp add: fdalloc_def dup_kern_sel NOFILE_def upt_conv_Cons)
  have du: "\<exists>t. filedup 0 (upd_cur (p_ofile_update (\<lambda>m. m(1 := Some 0))) ?s) = Ok (0, t)" by (simp add: filedup_def dup_kern_sel)
  then have "\<exists>t. sys_dup ?s = Ok (Returns 1, t)" using fd al by (auto simp: sys_dup_def)
  moreover have "syscalls 0 [] 17 = Some sys_dup" by (simp add: syscalls_def)
  ultimately obtain s' where s': "syscall 0 [] dup_kern = Ok (Returns 1, s')" by (auto simp: syscall_def dup_kern_sel(3) e)
  have "\<forall>f < NFILE. f_ref (files dup_kern f) = int (count (held (ptab dup_kern)) f) \<and> (f_ref (files dup_kern f) = 0 \<longrightarrow> f_type (files dup_kern f) = FD_NONE)"
    by (simp add: dup_kern_held dup_kern_sel idle_kern_sel)
  moreover have "set_mset (held (ptab dup_kern)) \<subseteq> {..<NFILE}" by (simp add: dup_kern_held NFILE_def)
  moreover have "clean (ptab dup_kern)" unfolding clean_def
  proof (intro allI impI)
    fix i fd assume "\<not> alive (p_state (procs (ptab dup_kern) i))"
    then have "i \<noteq> 0" using dup_kern_sel(8) by (cases "i = 0") simp_all
    then show "p_ofile (procs (ptab dup_kern) i) fd = None" by (simp add: dup_kern_sel)
  qed
  moreover have "on_cpu dup_kern" by (simp add: on_cpu_def dup_kern_sel NPROC_def)
  ultimately have "f_ref (files s' 0) = int (count (held (ptab s')) 0)" using syscall_keeps_counts [OF _ _ _ _ s'] by (simp add: NFILE_def)
  with s' show ?thesis by blast
qed

end
