(* ===== verification/Sys_Read.thy ===== *)
theory Sys_Read
  imports Sys_Refs
begin

text \<open>
  The system call \<open>read\<close> on an ordinary file, from the arguments on the user stack to the bytes in user memory:
  \<open>sys_read\<close> (\<open>src/P1/xv6/xv6/kernel/sysfile.c\<close>) with \<open>argptr\<close>, \<open>fileread\<close> and \<open>readi\<close>, for every length, negative ones included.
\<close>

section \<open>Arguments\<close>

lemma argint_range: "argint i s = Ok (Some n) \<Longrightarrow> int_min \<le> n \<and> n \<le> int_max"
  using wrap32_range by (auto simp: argint_def fetchint_def kbind_Ok split: if_splits)

text \<open>The check of a block of memory: it looks at the address and at the end of the block, which a negative length puts before it.\<close>

definition block_refused :: "int \<Rightarrow> int \<Rightarrow> kern \<Rightarrow> bool" where
  "block_refused p n s \<longleftrightarrow> p < 0 \<or> int (p_sz (curproc s)) \<le> p \<or> p + n < 0 \<or> int (p_sz (curproc s)) < p + n"

lemma to_uint_eq: "- (2 ^ 32) \<le> i \<Longrightarrow> i < 2 ^ 32 \<Longrightarrow> to_uint i = (if i < 0 then nat (i + 2 ^ 32) else nat i)"
proof (cases "i < 0")
  case True
  assume "- (2 ^ 32) \<le> i"
  then have "i mod 2 ^ 32 = i + 2 ^ 32" using True by (subst mod_add_self2 [symmetric], subst mod_pos_pos_trivial) auto
  then show ?thesis using True by (simp only: to_uint_def if_True)
qed (simp add: to_uint_def)

lemma argptr_block:
  assumes "argint i s = Ok (Some p)" and "int_min \<le> n" and "n \<le> int_max" and "p_sz (curproc s) \<le> USERTOP"
  shows "argptr i n s = Ok (if block_refused p n s then None else Some (nat p))"
proof -
  have p: "int_min \<le> p" "p \<le> int_max" using argint_range [OF assms(1)] by simp_all
  have "to_uint p \<ge> p_sz (curproc s) \<or> to_uint (p + n) > p_sz (curproc s) \<longleftrightarrow> block_refused p n s"
    using p assms(2-4) to_uint_eq [of p] to_uint_eq [of "p + n"] by (simp add: block_refused_def USERTOP_def) linarith
  moreover have "\<not> block_refused p n s \<Longrightarrow> to_uint p = nat p" using p to_uint_eq [of p] by (simp add: block_refused_def)
  ultimately show ?thesis using assms(1) by (simp add: argptr_def)
qed

lemma arg_rw_block:
  assumes "argfd 0 s = Ok (Some (fd, f))" and "argint 1 s = Ok (Some p)" and "argint 2 s = Ok (Some n)" and "p_sz (curproc s) \<le> USERTOP"
  shows "arg_rw s = Ok (if block_refused p n s then None else Some (f, nat p, n))"
  using assms argint_range [OF assms(3)] argptr_block [OF assms(2), of n] by (simp add: arg_rw_def)

section \<open>Reading the file\<close>

abbreviation locked :: "nat \<Rightarrow> kern \<Rightarrow> kern" where
  "locked ip s \<equiv> upd_inode ip (i_busy_update (\<lambda>_. True)) s"

lemma busy_bytes [simp]:
  "baddr B (i_busy_update b ino) = baddr B ino" "fbyte B (i_busy_update b ino) = fbyte B ino" "file_bytes B (i_busy_update b ino) = file_bytes B ino"
  by (simp_all add: baddr_def fbyte_def file_bytes_def fun_eq_iff)

lemma file_open_locked: "file_open ip s \<Longrightarrow> file_open ip (locked ip s)"
  by (simp add: file_open_def file_state_def Let_def upd_inode_def disk_room_def bc_inv_def bc_held_def fun_eq_iff bc_ready_def file_ok_def no_holes_def lru_def)

text \<open>A file in memory that no other process has locked.\<close>

definition file_idle :: "nat \<Rightarrow> kern \<Rightarrow> bool" where
  "file_idle ip s \<longleftrightarrow> file_open ip s \<and> i_valid (icache s ip) \<and> \<not> i_busy (icache s ip) \<and> 1 \<le> i_ref (icache s ip) \<and> i_type (icache s ip) \<noteq> T_DEV"

text \<open>What a read leaves alone: the disk, the inodes, the processes, memory, and all but the offset of the file.\<close>

definition read_frame :: "nat \<Rightarrow> nat \<Rightarrow> kern \<Rightarrow> kern \<Rightarrow> bool" where
  "read_frame f off s t \<longleftrightarrow> sectors t = sectors s \<and> icache t = icache s \<and> ptab t = ptab s \<and> cur t = cur s \<and> phys t = phys s \<and>
     pipes t = pipes s \<and> files t = (files s)(f := (files s f)\<lparr>f_off := off\<rparr>)"

lemma ilock_idle: "file_idle ip s \<Longrightarrow> ilock ip s = Ok (locked ip s)"
  by (simp add: file_idle_def ilock_def Let_def upd_inode_def)

lemma fileread_unlock:
  assumes "file_idle (f_ip (files s f)) s" and "f_type (files s f) = FD_INODE" and "f_readable (files s f)"
    and r: "readi (f_ip (files s f)) (f_off (files s f)) (to_uint n) (locked (f_ip (files s f)) s) = Ok (r, d, t)"
    and t: "sectors t = sectors s" "icache t = icache (locked (f_ip (files s f)) s)"
    and off: "off = (if r > 0 then (f_off (files s f) + nat r) mod 2 ^ 32 else f_off (files s f))"
  shows "\<exists>u. fileread f n s = Ok (Returns r, d, u) \<and> read_frame f off s u"
proof -
  let ?ip = "f_ip (files s f)"
  have m: "files t = files s" "pipes t = pipes s" "phys t = phys s" "ptab t = ptab s" "cur t = cur s"
    using fsys_more_kern [OF readi_frame [OF r]] fsys_more_kern [of "locked ?ip s" s] by simp_all
  let ?u = "upd_inode ?ip (i_busy_update (\<lambda>_. False)) (advance f r t)"
  have a: "icache (advance f r t) = icache t" "sectors (advance f r t) = sectors t" "f_ip (files (advance f r t) f) = ?ip"
    by (simp_all add: advance_def upd_file_def m)
  have "iunlock ?ip (advance f r t) = Ok ?u"
    using assms(1) by (simp add: iunlock_def a t(2) file_idle_def upd_inode_def)
  then have "fileread f n s = Ok (Returns r, d, ?u)"
    using assms(2,3) r by (simp add: fileread_def ilock_idle [OF assms(1)] a Let_def m to_uint_def upd_inode_def)
  moreover have "icache ?u = icache s" using assms(1) by (auto simp: upd_inode_def a t(2) file_idle_def)
  moreover have "files ?u = (files s)(f := (files s f)\<lparr>f_off := off\<rparr>)" by (auto simp: upd_inode_def advance_def upd_file_def m off)
  moreover have "sectors ?u = sectors s" "ptab ?u = ptab s" "cur ?u = cur s" "phys ?u = phys s" "pipes ?u = pipes s"
    by (simp_all add: upd_inode_def a t(1)) (simp_all add: advance_def upd_file_def m)
  ultimately show ?thesis unfolding read_frame_def by blast
qed

lemma fileread_file:
  assumes "file_idle (f_ip (files s f)) s" and "f_type (files s f) = FD_INODE" and "f_readable (files s f)"
    and "f_off (files s f) \<le> i_size (icache s (f_ip (files s f)))" and "f_off (files s f) + to_uint n < 2 ^ 32"
  defines "d \<equiv> take (to_uint n) (drop (f_off (files s f)) (file_bytes (sectors s) (icache s (f_ip (files s f)))))"
  shows "\<exists>u. fileread f n s = Ok (Returns (int (length d)), d, u) \<and> read_frame f (f_off (files s f) + length d) s u"
proof -
  let ?ip = "f_ip (files s f)" and ?off = "f_off (files s f)" and ?s = "locked (f_ip (files s f)) s"
  have fo: "file_open ?ip s" "i_type (icache s ?ip) \<noteq> T_DEV" using assms(1) by (simp_all add: file_idle_def)
  have l: "length d = min (to_uint n) (i_size (icache s ?ip) - ?off)" by (simp add: d_def file_bytes_def)
  have sz: "i_size (icache s ?ip) < 2 ^ 32"
    using fo(1) by (simp add: file_open_def Let_def no_holes_def MAXFILE_def NDIRECT_def NINDIRECT_def BSIZE_def)
  obtain t where t: "readi ?ip ?off (to_uint n) ?s = Ok (int (length d), d, t)" "sectors t = sectors s" "icache t = icache ?s"
    using readi_file [OF file_open_locked [OF fo(1)], of ?off "to_uint n"] assms(4,5) fo(2) l by (auto simp: upd_inode_def d_def)
  have "?off + length d = (if int (length d) > 0 then (?off + nat (int (length d))) mod 2 ^ 32 else ?off)" using l sz assms(4) by auto
  from fileread_unlock [OF assms(1-3) t this] show ?thesis .
qed

lemma fileread_overflow:
  assumes "file_idle (f_ip (files s f)) s" and "f_type (files s f) = FD_INODE" and "f_readable (files s f)"
    and "f_off (files s f) < 2 ^ 32" and "2 ^ 32 \<le> f_off (files s f) + to_uint n"
  shows "\<exists>u. fileread f n s = Ok (Returns (- 1), [], u) \<and> read_frame f (f_off (files s f)) s u"
proof -
  let ?ip = "f_ip (files s f)" and ?off = "f_off (files s f)" and ?s = "locked (f_ip (files s f)) s"
  have "to_uint n < 2 ^ 32" by (simp add: to_uint_def nat_less_iff)
  then have "(?off + to_uint n) mod 2 ^ 32 = ?off + to_uint n - 2 ^ 32" using assms(4,5) by (simp add: mod_if)
  then have "off_overflow ?off (to_uint n)" using \<open>to_uint n < 2 ^ 32\<close> assms(5) by (simp add: off_overflow_def)
  then have "readi ?ip ?off (to_uint n) ?s = Ok (- 1, [], ?s)" using assms(1) by (simp add: readi_def file_idle_def upd_inode_def)
  from fileread_unlock [OF assms(1-3) this _ refl refl] show ?thesis by (simp add: upd_inode_def)
qed

section \<open>The system call\<close>

text \<open>
  C40. A process calls \<open>read(fd, p, n)\<close> on an ordinary file open for reading, whose inode is in memory and not locked, at an offset
  within the file; \<open>n\<close> is any \<open>int\<close>. If the address, or the address plus \<open>n\<close>, is outside the memory of the process, the call fails and
  changes nothing; if the offset plus \<open>n\<close> taken as unsigned overflows, it fails. Otherwise it stores at \<open>p\<close> exactly the bytes of the
  file from the offset on, \<open>n\<close> of them or as many as there are, through the page table of the process, returns their number and
  advances the offset by it; the disk, the inodes, the other open files and the processes are unchanged. For \<open>n \<ge> 0\<close> what is stored lies within the memory
  of the process. For \<open>n < 0\<close> it does not have to: all the rest of the file is stored, however little room there is behind \<open>p\<close>, since
  \<open>argptr\<close> only looks at \<open>p\<close> and \<open>p + n\<close>.
\<close>
theorem sys_read_file:
  assumes "argfd 0 s = Ok (Some (fd, f))" and "argint 1 s = Ok (Some p)" and "argint 2 s = Ok (Some n)" and "p_sz (curproc s) \<le> USERTOP"
    and "f_type (files s f) = FD_INODE" and "f_readable (files s f)" and "file_idle (f_ip (files s f)) s"
    and "f_off (files s f) \<le> i_size (icache s (f_ip (files s f)))"
  shows "let off = f_off (files s f); rest = drop off (file_bytes (sectors s) (icache s (f_ip (files s f)))); d = take (to_uint n) rest in
    if p < 0 \<or> int (p_sz (curproc s)) \<le> p \<or> p + n < 0 \<or> int (p_sz (curproc s)) < p + n then sys_read s = Ok (Returns (- 1), s)
    else if 2 ^ 32 \<le> off + to_uint n then \<exists>t. sys_read s = Ok (Returns (- 1), t) \<and> read_frame f off s t
    else (\<exists>t. sys_read s = kbind (store_user (p_pgdir (curproc s)) (nat p) d (phys s)) (\<lambda>m. Ok (Returns (int (length d)), t\<lparr>phys := m\<rparr>)) \<and>
        read_frame f (off + length d) s t) \<and>
      (if 0 \<le> n then nat p + length d \<le> p_sz (curproc s) else d = rest)"
proof -
  let ?off = "f_off (files s f)" and ?c = "file_bytes (sectors s) (icache s (f_ip (files s f)))"
  let ?rest = "drop ?off ?c" and ?d = "take (to_uint n) (drop ?off ?c)"
  have n: "int_min \<le> n" "n \<le> int_max" using argint_range [OF assms(3)] by simp_all
  have u: "to_uint n = (if n < 0 then nat (n + 2 ^ 32) else nat n)" using n by (intro to_uint_eq) simp_all
  have sz: "length ?c < 2 ^ 31" using assms(7)
    by (simp add: file_idle_def file_open_def Let_def no_holes_def file_bytes_def MAXFILE_def NDIRECT_def NINDIRECT_def BSIZE_def)
  have fits: "if 0 \<le> n then nat p + length ?d \<le> p_sz (curproc s) else ?d = ?rest" if "\<not> block_refused p n s"
    using that u n sz by (auto simp: block_refused_def)
  consider (refused) "block_refused p n s" | (overflow) "\<not> block_refused p n s" "2 ^ 32 \<le> ?off + to_uint n"
    | (reads) "\<not> block_refused p n s" "?off + to_uint n < 2 ^ 32" by linarith
  then show ?thesis
  proof cases
    case refused
    then show ?thesis by (simp add: sys_read_def arg_rw_block [OF assms(1-4)] block_refused_def Let_def)
  next
    case overflow
    have "?off < 2 ^ 32" using assms(8) sz by (simp add: file_bytes_def)
    from fileread_overflow [OF assms(7,5,6) this overflow(2)] obtain t where
      t: "fileread f n s = Ok (Returns (- 1), [], t)" "read_frame f ?off s t" by blast
    then have "sys_read s = Ok (Returns (- 1), t)" using overflow by (simp add: sys_read_def arg_rw_block [OF assms(1-4)])
    then show ?thesis using overflow t(2) by (simp add: Let_def block_refused_def)
  next
    case reads
    from fileread_file [OF assms(7,5,6,8) reads(2)] obtain t where
      t: "fileread f n s = Ok (Returns (int (length ?d)), ?d, t)" "read_frame f (?off + length ?d) s t" by blast
    then have "sys_read s = kbind (store_user (p_pgdir (curproc s)) (nat p) ?d (phys s)) (\<lambda>m. Ok (Returns (int (length ?d)), t\<lparr>phys := m\<rparr>))"
      using reads by (simp add: sys_read_def arg_rw_block [OF assms(1-4)] read_frame_def)
    moreover have "\<not> 2 ^ 32 \<le> ?off + to_uint n" using reads(2) by simp
    ultimately show ?thesis
      unfolding Let_def if_not_P [OF reads(1) [unfolded block_refused_def]] using t(2) fits [OF reads(1)] by (simp only: if_False) blast
  qed
qed

text \<open>The process of \<open>dup_kern\<close> calling \<open>read(0, 4095, -1)\<close>: one byte of room in its memory, three bytes in the file.\<close>

definition read_kern :: kern where
  "read_kern = dup_kern\<lparr>phys := \<lparr>freelist = 0, pmem = (\<lambda>_. 0)(0x3000 := 0x4007, 0x4000 := 0x5007, 0x5008 := 4095, 0x500C := 0xFFFFFFFF)\<rparr>\<rparr>"

lemma read_kern_sel: "files read_kern = files dup_kern" "ptab read_kern = ptab dup_kern" "cur read_kern = 0"
  "icache read_kern = icache small_fs" "sectors read_kern = sectors small_fs"
  "phys read_kern = \<lparr>freelist = 0, pmem = (\<lambda>_. 0)(0x3000 := 0x4007, 0x4000 := 0x5007, 0x5008 := 4095, 0x500C := 0xFFFFFFFF)\<rparr>"
  by (simp_all add: read_kern_def dup_kern_def idle_kern_def fsys.defs kern.defs)

lemma read_kern_idle: "file_idle 0 read_kern"
proof -
  have "bufs read_kern = bufs small_fs" "idequeue read_kern = idequeue small_fs" "havedisk1 read_kern = havedisk1 small_fs"
    "bad_sectors read_kern = bad_sectors small_fs" "sectors read_kern = sectors small_fs"
    by (simp_all add: read_kern_def dup_kern_def idle_kern_def fsys.defs kern.defs)
  then have "bc_inv read_kern = bc_inv small_fs" "bc_held read_kern = bc_held small_fs" "bc_ready read_kern = bc_ready small_fs"
    by (simp_all add: bc_inv_def lru_def bc_held_def [abs_def] bc_ready_def cong: if_cong)
  then have "file_open 0 read_kern" using small_file_open
    by (simp add: file_open_def file_state_def Let_def read_kern_sel disk_room_def)
  then show ?thesis by (simp add: file_idle_def read_kern_sel small_fs_sel small_inode_def no_inode_def T_DEV_def T_FILE_def)
qed

lemma read_kern_addr:
  assumes "pmem k 0x3000 = 0x4007" "pmem k 0x4000 = 0x5007" "pmem k 0x4004 = 0"
  shows "a < 4096 \<Longrightarrow> user_addr 0x3000 a k = Ok (0x5000 + a)" "user_addr 0x3000 4096 k = Panic ''trap''"
proof -
  assume a: "a < 4096"
  then have "PDX a = 0" "PTX a = 0" by (simp_all add: PDX_def PTX_def)
  then have "walkpgdir 0x3000 a False k = (0x4000, k)" by (simp add: walkpgdir_def assms present_def PTE_P_def PTE_ADDR_def)
  then show "user_addr 0x3000 a k = Ok (0x5000 + a)" using a by (simp add: user_addr_def assms present_def PTE_P_def PTE_ADDR_def PGSIZE_def)
next
  have "PDX 4096 = 0" "PTX 4096 = 1" by (simp_all add: PDX_def PTX_def)
  then have "walkpgdir 0x3000 4096 False k = (0x4004, k)" by (simp add: walkpgdir_def assms present_def PTE_P_def PTE_ADDR_def)
  then show "user_addr 0x3000 4096 k = Panic ''trap''" by (simp add: user_addr_def assms present_def PTE_P_def)
qed

lemma read_kern_args: "argfd 0 read_kern = Ok (Some (0, 0))" "argint 1 read_kern = Ok (Some 4095)" "argint 2 read_kern = Ok (Some (- 1))"
proof -
  have k: "pmem (phys read_kern) 0x3000 = 0x4007" "pmem (phys read_kern) 0x4000 = 0x5007" "pmem (phys read_kern) 0x4004 = 0" by (simp_all add: read_kern_sel)
  have n: "pmem (phys read_kern) 0x5004 = 0" "pmem (phys read_kern) 0x5008 = 4095" "pmem (phys read_kern) 0x500C = 0xFFFFFFFF" by (simp_all add: read_kern_sel)
  have "load_user 0x3000 4 4 (phys read_kern) = Ok [0, 0, 0, 0]" "load_user 0x3000 8 4 (phys read_kern) = Ok [0xFF, 0x0F, 0, 0]"
    "load_user 0x3000 12 4 (phys read_kern) = Ok [0xFF, 0xFF, 0xFF, 0xFF]"
    by (simp_all add: load_user_4 read_kern_addr(1) [OF k] get_byte_def n)
  then have "argint 0 read_kern = Ok (Some 0)" and "argint 1 read_kern = Ok (Some 4095)" and "argint 2 read_kern = Ok (Some (- 1))"
    by (simp_all add: argint_def fetchint_def dup_kern_sel(3,5,6,7) read_kern_sel(2,3) zero_frame_def wrap32_def get_le_4)
  then show "argfd 0 read_kern = Ok (Some (0, 0))" "argint 1 read_kern = Ok (Some 4095)" "argint 2 read_kern = Ok (Some (- 1))"
    by (simp_all add: argfd_def read_kern_sel dup_kern_sel NOFILE_def)
qed

text \<open>The kernel stores the second byte of the file behind the memory of the process, and panics.\<close>

theorem sys_read_file_witness: "sys_read read_kern = Panic ''trap''"
proof -
  let ?f = "files read_kern 0"
  have f: "f_type ?f = FD_INODE" "f_readable ?f" "f_ip ?f = 0" "f_off ?f = 0" by (simp_all add: read_kern_sel dup_kern_sel idle_kern_sel)
  have p: "p_sz (curproc read_kern) = 4096" "p_pgdir (curproc read_kern) = 0x3000" by (simp_all add: read_kern_sel dup_kern_sel)
  have c: "file_bytes (sectors read_kern) (icache read_kern 0) = [1, 2, 3]" using small_bytes by (simp add: read_kern_sel)
  have i: "file_idle (f_ip ?f) read_kern" using read_kern_idle by (simp add: f)
  have "to_uint (- 1) = 4294967295" by (simp add: to_uint_def)
  then obtain t where "sys_read read_kern = kbind (store_user 0x3000 4095 [1, 2, 3] (phys read_kern)) (\<lambda>m. Ok (Returns 3, t\<lparr>phys := m\<rparr>))"
    using sys_read_file [OF read_kern_args _ f(1,2) i] by (auto simp: p f c USERTOP_def Let_def)
  moreover have "store_user 0x3000 4095 [1, 2, 3] (phys read_kern) = Panic ''trap''"
    by (simp add: read_kern_addr read_kern_sel set_byte_def set_word_def)
  ultimately show ?thesis by simp
qed

end
