(* ===== verification/Fork.thy ===== *)
theory Fork
  imports Sys_Refs Vm_Space
begin

text \<open>
  \<open>fork\<close> as a whole: with an unused entry and enough pages it succeeds, and the child is a copy of the parent.
\<close>

lemma uspace_kalloc:
  assumes u: "uspace kend k ps d U" and ps: "ps \<noteq> []"
  shows "\<exists>p m. kalloc k = (p, m) \<and> p \<noteq> 0 \<and> uspace kend m (tl ps) d U \<and> pmem m = pmem k \<and> p = hd ps"
proof -
  obtain p qs where p: "ps = p # qs" using ps by (cases ps) auto
  have fp: "free_pages kend k (p # qs)" using u p by (simp add: uspace_def vm_ok_def)
  from kalloc_free_pages [OF fp] obtain m where m: "kalloc k = (p, m)" "p \<noteq> 0" "free_pages kend m qs" "pmem m = pmem k" by auto
  have "uspace kend m qs d U" using u m(3,4) by (auto simp: uspace_def vm_ok_def p)
  then show ?thesis using m p by auto
qed

lemma fork_files_ok:
  assumes "count_ok (files s) (held (ptab s))" and "cur s < NPROC" and "np < NPROC" and "np \<noteq> cur s"
    and "distinct is" and "\<forall>i \<in> set is. i < NOFILE \<and> p_ofile (procs (ptab s) np) i = None"
  shows "\<exists>s'. fork_files np is s = Ok s' \<and> phys s' = phys s \<and> link_end s' = link_end s \<and>
    (\<exists>m. procs (ptab s') np = (procs (ptab s) np)\<lparr>p_ofile := m\<rparr>)"
  using assms
proof (induction "is" arbitrary: s)
  case Nil
  have "\<exists>m. procs (ptab s) np = (procs (ptab s) np)\<lparr>p_ofile := m\<rparr>" by (intro exI [of _ "p_ofile (procs (ptab s) np)"]) simp
  then show ?case by simp
next
  case (Cons i "is")
  show ?case
  proof (cases "p_ofile (curproc s) i")
    case None
    then show ?thesis using Cons.IH [of s] Cons.prems by auto
  next
    case (Some f)
    have f: "f \<in># held (ptab s)" using held_mem [of "cur s" i "ptab s" f] Some Cons.prems by simp
    from filedup_count [OF f Cons.prems(1)] obtain s1 where s1: "filedup f s = Ok (f, s1)" "count_ok (files s1) (add_mset f (held (ptab s)))" "ptab s1 = ptab s" "cur s1 = cur s"
      by blast
    then have ph: "phys s1 = phys s" "link_end s1 = link_end s" by (auto simp: filedup_def split: if_split_asm)
    let ?s2 = "upd_p np (p_ofile_update (\<lambda>m. m(i := Some f))) s1"
    have "held (ptab ?s2) = add_mset f (held (ptab s))"
      using held_upd_ofile [of np i "p_ofile_update (\<lambda>m. m(i := Some f))" "Some f" "ptab s"] Cons.prems s1(3) by simp
    then have c2: "count_ok (files ?s2) (held (ptab ?s2))" using s1(2) by simp
    have none: "\<forall>j \<in> set is. j < NOFILE \<and> p_ofile (procs (ptab ?s2) np) j = None" using Cons.prems(5,6) s1(3) by auto
    from Cons.IH [OF c2 _ Cons.prems(3) _ _ none] Cons.prems s1(4)
    obtain s' m where "fork_files np is ?s2 = Ok s'" "phys s' = phys ?s2" "link_end s' = link_end ?s2" "procs (ptab s') np = (procs (ptab ?s2) np)\<lparr>p_ofile := m\<rparr>" by auto
    then show ?thesis using Some s1(1,3) ph by (auto simp: fun_upd_def)
  qed
qed

lemma allocproc_ok:
  assumes i: "i < NPROC" "p_state (procs (ptab s) i) = UNUSED" and k: "kalloc (phys s) = (ks, m)" "ks \<noteq> 0"
  shows "\<exists>np t. allocproc fr s = (Some np, t) \<and> np < NPROC \<and> p_state (procs (ptab s) np) = UNUSED \<and> phys t = m \<and> link_end t = link_end s \<and> link_data t = link_data s \<and>
    files t = files s \<and> cur t = cur s \<and> p_pid (procs (ptab t) np) = nextpid (ptab s) \<and> fsys.truncate t = fsys.truncate s"
proof -
  have "find (\<lambda>i. p_state (procs (ptab s) i) = UNUSED) [0..<NPROC] \<noteq> None" using i by (auto simp: find_None_iff)
  then obtain np where np: "find (\<lambda>i. p_state (procs (ptab s) i) = UNUSED) [0..<NPROC] = Some np" by blast
  then have "np < NPROC" "p_state (procs (ptab s) np) = UNUSED" by (auto dest: find_SomeD)
  then show ?thesis using np k by (simp add: allocproc_def alloc_slot_def Let_def upd_p_def fsys.defs)
qed

text \<open>
  C10. With an unused entry in the process table and enough free pages, \<open>fork\<close> succeeds and the child is a copy of its parent: it is runnable, has the pid that
  is returned, the same size, descriptors, working directory and registers but for a zero in \<open>%eax\<close>, and its memory has the same
  contents in pages of its own. The parent is as before.
\<close>

theorem fork_copies_process:
  assumes inv: "desc_inv s" and c: "on_cpu s" and i: "i < NPROC" "p_state (procs (ptab s) i) = UNUSED"
    and mem: "data_ok (link_data s)" "uspace (link_end s) (phys s) ps (p_pgdir (curproc s)) {..<npages (p_sz (curproc s))}" "p_sz (curproc s) \<le> USERTOP"
      "14 + npages (p_sz (curproc s)) \<le> length ps"
    and cwd: "p_cwd (curproc s) = Some ip"
  shows "\<exists>np s' ps'. fork fr s = Ok (nextpid (ptab s), s') \<and> np < NPROC \<and> p_state (procs (ptab s) np) = UNUSED \<and> cur s' = cur s \<and> curproc s' = curproc s \<and>
    p_state (procs (ptab s') np) = RUNNABLE \<and> p_pid (procs (ptab s') np) = nextpid (ptab s) \<and> p_parent (procs (ptab s') np) = Some (cur s) \<and>
    p_sz (procs (ptab s') np) = p_sz (curproc s) \<and> p_tf (procs (ptab s') np) = (p_tf (curproc s))\<lparr>tf_eax := 0\<rparr> \<and> p_cwd (procs (ptab s') np) = Some ip \<and>
    (\<forall>fd < NOFILE. p_ofile (procs (ptab s') np) fd = p_ofile (curproc s) fd) \<and>
    uspace (link_end s) (phys s') ps' (p_pgdir (procs (ptab s') np)) {..<npages (p_sz (curproc s))} \<and>
    owned (pmem (phys s')) (p_pgdir (procs (ptab s') np)) {..<npages (p_sz (curproc s))} \<inter>
      owned (pmem (phys s')) (p_pgdir (curproc s)) {..<npages (p_sz (curproc s))} = {} \<and>
    (\<forall>v < npages (p_sz (curproc s)). \<forall>x < PGSIZE. contents (phys s') (p_pgdir (procs (ptab s') np)) v x = contents (phys s) (p_pgdir (curproc s)) v x)"
proof -
  let ?p = "curproc s" and ?n = "npages (p_sz (curproc s))"
  have "ps \<noteq> []" using mem(4) by auto
  from uspace_kalloc [OF mem(2) this] obtain ks m where k: "kalloc (phys s) = (ks, m)" "ks \<noteq> 0" "uspace (link_end s) m (tl ps) (p_pgdir ?p) {..<?n}" "pmem m = pmem (phys s)" by blast
  from allocproc_ok [OF i k(1,2)] obtain np t where al: "allocproc fr s = (Some np, t)" and np: "np < NPROC" "p_state (procs (ptab s) np) = UNUSED"
    and t: "phys t = m" "link_end t = link_end s" "link_data t = link_data s" "files t = files s" "cur t = cur s" "p_pid (procs (ptab t) np) = nextpid (ptab s)" by blast
  have sb: "all_but np s t" using allocproc_same(2) [OF al refl] by blast
  have ne: "np \<noteq> cur s" and dead: "\<not> alive (p_state (procs (ptab s) np))" using c np(2) by (auto simp: on_cpu_def)
  have ct: "curproc t = ?p" using sb ne t(5) by (simp add: all_but_def)
  from copyuvm_spec [OF mem(1) k(3) mem(3)] obtain d k' ps' where cp: "copyuvm (link_end s) (link_data s) (p_pgdir ?p) (p_sz ?p) m = Ok (d, k')"
    and keep: "\<forall>a. PGROUNDDOWN a \<in> owned (pmem m) (p_pgdir ?p) {..<?n} \<longrightarrow> pmem k' a = pmem m a" "entry (pmem k') (p_pgdir ?p) = entry (pmem m) (p_pgdir ?p)"
    and d: "d = 0 \<and> length (tl ps) < 13 + ?n \<or> d \<noteq> 0 \<and> uspace (link_end s) k' ps' d {..<?n} \<and> owned (pmem k') d {..<?n} \<inter> owned (pmem k') (p_pgdir ?p) {..<?n} = {} \<and>
     (\<forall>v < ?n. \<forall>x < PGSIZE. contents k' d v x = contents k' (p_pgdir ?p) v x)" by blast
  have d: "d \<noteq> 0" "uspace (link_end s) k' ps' d {..<?n}" "owned (pmem k') d {..<?n} \<inter> owned (pmem k') (p_pgdir ?p) {..<?n} = {}"
    "\<forall>v < ?n. \<forall>x < PGSIZE. contents k' d v x = contents k' (p_pgdir ?p) v x" using d mem(4) by auto
  have same: "contents k' (p_pgdir ?p) v x = contents (phys s) (p_pgdir ?p) v x" if v: "v < ?n" "x < PGSIZE" for v x
  proof -
    have e: "upage (pmem k') (p_pgdir ?p) v = upage (pmem m) (p_pgdir ?p) v" using keep(2) by (simp add: upage_def)
    have "page_ok (link_end s) (upage (pmem m) (p_pgdir ?p) v)" using k(3) v(1) by (simp add: uspace_def)
    then have "PGROUNDDOWN (upage (pmem m) (p_pgdir ?p) v + x) = upage (pmem m) (p_pgdir ?p) v" using in_page_off v(2) by blast
    then show ?thesis using keep(1) v(1) e k(4) by (simp add: owned_def)
  qed
  define t1 where "t1 = upd_p np (p_pgdir_update (\<lambda>_. d)) (t\<lparr>phys := k'\<rparr>)"
  define t2 where "t2 = upd_p np (\<lambda>x. x\<lparr>p_sz := p_sz (curproc t1), p_parent := Some (cur t1), p_tf := (p_tf (curproc t1))\<lparr>tf_eax := 0\<rparr>\<rparr>) t1"
  have sb2: "all_but np s t2" unfolding t2_def t1_def using sb by (auto intro!: all_but_upd)
  have i2: "count_ok (files t2) (held (ptab t2))" using all_but_desc [OF inv sb2 dead] by (simp add: desc_inv_def)
  have none: "\<forall>i \<in> set [0..<NOFILE]. i < NOFILE \<and> p_ofile (procs (ptab t2) np) i = None" using sb2 inv np dead by (auto simp: all_but_def desc_inv_def clean_def)
  have cu: "cur t2 = cur s" "cur t2 < NPROC" "np \<noteq> cur t2" using sb2 c ne by (auto simp: all_but_def on_cpu_def)
  have c1: "curproc t1 = ?p" "cur t1 = cur s" "curproc t2 = ?p" using ct ne t(5) by (simp_all add: t1_def t2_def)
  from fork_files_ok [OF i2 cu(2) np(1) cu(3) _ none] obtain t3 mm where ff: "fork_files np [0..<NOFILE] t2 = Ok t3" "phys t3 = phys t2" "procs (ptab t3) np = (procs (ptab t2) np)\<lparr>p_ofile := mm\<rparr>"
    by auto
  from fork_files_desc [OF ff(1) i2 cu(2) np(1) cu(3) _ none] have fd: "cur t3 = cur s" "\<And>j. j \<noteq> np \<Longrightarrow> procs (ptab t3) j = procs (ptab t2) j"
    "\<And>fd. fd < NOFILE \<Longrightarrow> p_ofile (procs (ptab t3) np) fd = p_ofile ?p fd" using cu(1) c1 by auto
  have c3: "curproc t3 = ?p" using fd(1,2) ne c1(3) cu(1) by metis
  let ?u = "snd (idup ip t3)"
  have m: "ptab ?u = ptab t3" "phys ?u = phys t3" "cur ?u = cur t3" using fsys_more_kern [of ?u t3] by simp_all
  define s' where "s' = upd_p np (\<lambda>x. x\<lparr>p_cwd := Some ip, p_state := RUNNABLE, p_name := set_name (p_name x) (p_name (curproc ?u))\<rparr>) ?u"
  have pid: "p_pid (procs (ptab t3) np) = nextpid (ptab s)" using t(6) by (simp add: ff(3) t2_def t1_def)
  have "fork fr s = Ok (nextpid (ptab s), s')"
    by (simp only: fork_def al prod.case option.case t(1-3) ct cp kbind.simps Let_def t1_def [symmetric] t2_def [symmetric] d(1) if_False
        ff(1) c3 cwd deref.simps) (simp add: case_prod_unfold s'_def m pid)
  moreover have ph: "phys s' = k'" by (simp add: s'_def m ff(2) t2_def t1_def)
  have ch: "procs (ptab s') np = (procs (ptab t3) np)\<lparr>p_cwd := Some ip, p_state := RUNNABLE, p_name := p_name (procs (ptab s') np)\<rparr>" by (simp add: s'_def m)
  have "cur s' = cur s" "curproc s' = ?p" using fd(1) c3 ne by (simp_all add: s'_def m)
  moreover have "p_pgdir (procs (ptab s') np) = d" "p_sz (procs (ptab s') np) = p_sz ?p" "p_parent (procs (ptab s') np) = Some (cur s)"
    "p_tf (procs (ptab s') np) = (p_tf ?p)\<lparr>tf_eax := 0\<rparr>" "p_state (procs (ptab s') np) = RUNNABLE" "p_cwd (procs (ptab s') np) = Some ip"
    "p_pid (procs (ptab s') np) = nextpid (ptab s)" "\<forall>fd < NOFILE. p_ofile (procs (ptab s') np) fd = p_ofile ?p fd"
    using c1 fd(3) pid by (simp_all add: s'_def m) (simp_all add: ff(3) t2_def t1_def)
  ultimately show ?thesis using np d(2-4) same ph by auto
qed

theorem fork_copies_process_witness:
  "\<exists>s s'. fork 0 s = Ok (2, s') \<and> curproc s' = curproc s \<and> (\<exists>np. p_state (procs (ptab s') np) = RUNNABLE \<and> p_parent (procs (ptab s') np) = Some (cur s))"
proof -
  obtain k ps d where u: "uspace 0x110000 k ps d {..<npages 4096}" "length ps = 3810" using boot_process by blast
  define s where "s = idle_kern\<lparr>phys := k, link_end := 0x110000, link_data := 0x108000, cur := 0,
    ptab := upd_proc 0 (\<lambda>p. p\<lparr>p_pgdir := d, p_sz := 4096, p_cwd := Some 0\<rparr>) (tab run_first)\<rparr>"
  have sel: "curproc s = (procs (tab run_first) 0)\<lparr>p_pgdir := d, p_sz := 4096, p_cwd := Some 0\<rparr>" "phys s = k" "link_end s = 0x110000" "link_data s = 0x108000"
    "cur s = 0" "files s = files idle_kern" by (simp_all add: s_def)
  have of: "p_ofile (procs (ptab s) i) = (\<lambda>_. None)" for i by (simp add: s_def run_first_def run_boot_def run_table_def run_blank_def)
  have "held (ptab s) = {#}" by (simp add: held_def fds_def of)
  then have inv: "desc_inv s" by (simp add: desc_inv_def count_ok_def clean_def of sel idle_kern_sel)
  have cpu: "on_cpu s" using sel by (simp add: on_cpu_def NPROC_def run_first_def run_table_def)
  have i: "1 < NPROC" "p_state (procs (ptab s) 1) = UNUSED" by (simp_all add: NPROC_def s_def run_first_def run_boot_def run_table_def run_blank_def)
  have m: "data_ok (link_data s)" "uspace (link_end s) (phys s) ps (p_pgdir (curproc s)) {..<npages (p_sz (curproc s))}" "p_sz (curproc s) \<le> USERTOP"
    "14 + npages (p_sz (curproc s)) \<le> length ps" using boot_data u unfolding sel(1) by (simp_all add: sel(2-4) npages_one USERTOP_def)
  have cwd: "p_cwd (curproc s) = Some 0" unfolding sel(1) by simp
  have n: "nextpid (ptab s) = 2" by (simp add: s_def run_first_def run_boot_def run_table_def)
  from fork_copies_process [OF inv cpu i m cwd, of 0] show ?thesis unfolding n by blast
qed

end
