(* ===== verification/Disk_Wait.thy ===== *)
theory Disk_Wait
  imports Bcache
begin

text \<open>
  The buffer cache of \<open>src/P1/xv6/xv6/kernel/bio.c\<close> with any number of processes waiting for the
  disk of \<open>ide.c\<close> at once. \<open>bread\<close> and \<open>bwrite\<close> are cut where they give up the CPU: after
  \<open>bget\<close>, and at the sleep in \<open>iderw\<close>, which ends when an interrupt has served the buffer. In
  between any other process may take, change and release buffers and queue requests of its own,
  and the disk may interrupt at any time. Sectors on which the drive reports errors are included.
\<close>

section \<open>The operations, cut at the sleep\<close>

text \<open>The condition the loop in \<open>iderw\<close> waits for.\<close>

definition iderw_done :: "nat \<Rightarrow> 'a bcache_scheme \<Rightarrow> bool" where
  "iderw_done b s \<longleftrightarrow> b_valid (bufs s b) \<and> \<not> b_dirty (bufs s b)"

definition bwrite_start :: "nat \<Rightarrow> 'a bcache_scheme \<Rightarrow> 'a bcache_scheme kres" where
  "bwrite_start b s =
     (if \<not> b_busy (bufs s b) then Panic ''bwrite''
      else iderw_start b (upd_buf b (b_dirty_update (\<lambda>_. True)) s))"

text \<open>
  Where the process that holds a buffer is: it got the buffer from \<open>bget\<close> without valid contents,
  it sleeps in \<open>iderw\<close>, or \<open>bread\<close> or \<open>bwrite\<close> has returned to it.
\<close>

datatype phase = Got | Waiting | Using

definition buf_key :: "buf \<Rightarrow> nat \<times> nat" where
  "buf_key bf = (b_dev bf, b_sector bf)"

text \<open>
  The runs: \<open>m\<close> is the contents of each sector according to the writes asked for so far, \<open>ph\<close> the
  holder of each buffer, \<open>R\<close> every sector asked for.
\<close>

inductive bc_run :: "bcache \<Rightarrow> (nat \<times> nat \<Rightarrow> 8 word list) \<Rightarrow> (nat \<Rightarrow> phase option) \<Rightarrow> (nat \<times> nat) set \<Rightarrow> bool" where
  boot: "cold s \<Longrightarrow> bc_run (binit s) (sectors s) Map.empty {}"
| get: "bc_run s m ph R \<Longrightarrow> bget d n s = Ok (h, s') \<Longrightarrow>
    bc_run s' m (ph(h \<mapsto> if b_valid (bufs s' h) then Using else Got)) (insert (d, n) R)"
| start_read: "bc_run s m ph R \<Longrightarrow> ph h = Some Got \<Longrightarrow> iderw_start h s = Ok s' \<Longrightarrow> bc_run s' m (ph(h \<mapsto> Waiting)) R"
| start_write: "bc_run s m ph R \<Longrightarrow> ph h = Some Using \<Longrightarrow> length x = BSIZE \<Longrightarrow> bwrite_start h (set_data h x s) = Ok s' \<Longrightarrow>
    bc_run s' (m(buf_key (bufs s h) := x)) (ph(h \<mapsto> Waiting)) R"
| interrupt: "bc_run s m ph R \<Longrightarrow> bc_run (ideintr s) m ph R"
| finish: "bc_run s m ph R \<Longrightarrow> ph h = Some Waiting \<Longrightarrow> iderw_done h s \<Longrightarrow> bc_run s m (ph(h \<mapsto> Using)) R"
| release: "bc_run s m ph R \<Longrightarrow> ph h = Some Using \<Longrightarrow> brelse h s = Ok s' \<Longrightarrow> bc_run s' m (ph(h := None)) R"

section \<open>The invariant\<close>

text \<open>What the ports of the drive can address.\<close>

definition drive_sectors :: "(nat \<times> nat) set" where
  "drive_sectors = {..<2} \<times> {..<2 ^ 28}"

fun buf_phase :: "phase option \<Rightarrow> bool \<Rightarrow> buf \<Rightarrow> bool" where
  "buf_phase None queued bf \<longleftrightarrow> \<not> b_busy bf \<and> \<not> queued \<and> \<not> b_dirty bf \<and> (b_valid bf \<or> b_dev bf = no_dev)"
| "buf_phase (Some Got) queued bf \<longleftrightarrow> b_busy bf \<and> \<not> queued \<and> \<not> b_dirty bf \<and> \<not> b_valid bf"
| "buf_phase (Some Waiting) queued bf \<longleftrightarrow> b_busy bf \<and> (queued \<longleftrightarrow> \<not> (b_valid bf \<and> \<not> b_dirty bf))"
| "buf_phase (Some Using) queued bf \<longleftrightarrow> b_busy bf \<and> \<not> queued \<and> \<not> b_dirty bf \<and> b_valid bf"

text \<open>
  A valid buffer holds the last contents unless its sector is bad, a dirty one in any case; the
  disk holds them unless a write of the sector still waits behind the request the disk works on.
\<close>

definition data_ok :: "bcache \<Rightarrow> (nat \<times> nat \<Rightarrow> 8 word list) \<Rightarrow> buf \<Rightarrow> bool" where
  "data_ok s m bf \<longleftrightarrow> (b_busy bf \<or> b_valid bf \<longrightarrow> buf_key bf \<in> drive_sectors) \<and>
     (b_dirty bf \<or> b_valid bf \<and> buf_key bf \<notin> bad_sectors s \<longrightarrow> b_data bf = m (buf_key bf))"

definition run_inv :: "bcache \<Rightarrow> (nat \<times> nat \<Rightarrow> 8 word list) \<Rightarrow> (nat \<Rightarrow> phase option) \<Rightarrow> nat list \<Rightarrow> bool" where
  "run_inv s m ph q \<longleftrightarrow> ide_queue s q \<and> (\<exists>xs. lru s xs) \<and> set q \<subseteq> {..<NBUF} \<and> (\<forall>h \<ge> NBUF. ph h = None) \<and>
     (\<forall>h < NBUF. buf_phase (ph h) (h \<in> set q) (bufs s h) \<and> data_ok s m (bufs s h)) \<and>
     (\<forall>i < NBUF. \<forall>j < NBUF. b_dev (bufs s i) \<noteq> no_dev \<longrightarrow> buf_key (bufs s i) = buf_key (bufs s j) \<longrightarrow> i = j) \<and>
     (\<forall>k \<in> drive_sectors. (\<forall>h \<in> set (tl q). b_dirty (bufs s h) \<longrightarrow> buf_key (bufs s h) \<noteq> k) \<longrightarrow> sectors s k = m k)"

lemma run_invD:
  assumes "run_inv s m ph q"
  shows "ide_queue s q" "set q \<subseteq> {..<NBUF}" "h \<ge> NBUF \<Longrightarrow> ph h = None"
    "h < NBUF \<Longrightarrow> buf_phase (ph h) (h \<in> set q) (bufs s h)" "h < NBUF \<Longrightarrow> data_ok s m (bufs s h)"
    "i < NBUF \<Longrightarrow> j < NBUF \<Longrightarrow> b_dev (bufs s i) \<noteq> no_dev \<Longrightarrow> buf_key (bufs s i) = buf_key (bufs s j) \<Longrightarrow> i = j"
    "k \<in> drive_sectors \<Longrightarrow> (\<And>h. h \<in> set (tl q) \<Longrightarrow> b_dirty (bufs s h) \<Longrightarrow> buf_key (bufs s h) \<noteq> k) \<Longrightarrow> sectors s k = m k"
  using assms unfolding run_inv_def by (blast | simp)+

lemma run_inv_lru: "run_inv s m ph q \<Longrightarrow> \<exists>xs. lru s xs"
  by (simp add: run_inv_def)

lemma phase_busy: "buf_phase p queued bf \<Longrightarrow> b_busy bf \<longleftrightarrow> p \<noteq> None"
  by (cases "(p, queued, bf)" rule: buf_phase.cases) auto

lemma phase_dirty: "buf_phase p queued bf \<Longrightarrow> b_dirty bf \<Longrightarrow> b_busy bf \<and> queued"
  by (cases "(p, queued, bf)" rule: buf_phase.cases) auto

lemma drive_sectors_dev: "buf_key bf \<in> drive_sectors \<Longrightarrow> b_dev bf \<noteq> no_dev"
  by (simp add: drive_sectors_def buf_key_def no_dev_def)

lemma drive_sectors_addr: "buf_key bf \<in> drive_sectors \<Longrightarrow> addr bf = buf_key bf"
  by (simp add: drive_sectors_def buf_key_def addr_small)

text \<open>The fields of a buffer other than its links.\<close>

definition view :: "buf \<Rightarrow> bool \<times> bool \<times> bool \<times> nat \<times> nat \<times> 8 word list" where
  "view bf = (b_busy bf, b_valid bf, b_dirty bf, b_dev bf, b_sector bf, b_data bf)"

lemma viewD:
  assumes "view a = view b"
  shows "b_busy a = b_busy b" "b_valid a = b_valid b" "b_dirty a = b_dirty b" "b_dev a = b_dev b" "b_data a = b_data b"
    "buf_key a = buf_key b"
  using assms by (simp_all add: view_def buf_key_def)

lemma buf_phase_view: "view a = view b \<Longrightarrow> buf_phase p queued a = buf_phase p queued b"
  using viewD [of a b] by (cases "(p, queued, a)" rule: buf_phase.cases) auto

text \<open>Every step changes one buffer, up to links, and the contents of its sector.\<close>

lemma run_inv_upd:
  assumes inv: "run_inv s m ph q" and h: "h < NBUF" and q: "ide_queue t q'" "\<And>c. c \<noteq> h \<Longrightarrow> c \<in> set q' \<longleftrightarrow> c \<in> set q"
    and l: "lru t xs" and bad: "bad_sectors t = bad_sectors s"
    and oth: "\<And>c. c \<noteq> h \<Longrightarrow> view (bufs t c) = view (bufs s c)"
    and me: "buf_phase p (h \<in> set q') (bufs t h)" "data_ok t m' (bufs t h)"
    and new: "\<And>i. i < NBUF \<Longrightarrow> i \<noteq> h \<Longrightarrow> b_dev (bufs t h) \<noteq> no_dev \<Longrightarrow> buf_key (bufs s i) \<noteq> buf_key (bufs t h)"
    and m': "\<And>k. k \<noteq> buf_key (bufs t h) \<Longrightarrow> m' k = m k"
    and disk: "\<And>k. k \<in> drive_sectors \<Longrightarrow> (\<And>h. h \<in> set (tl q') \<Longrightarrow> b_dirty (bufs t h) \<Longrightarrow> buf_key (bufs t h) \<noteq> k) \<Longrightarrow> sectors t k = m' k"
  shows "run_inv t m' (ph(h := p)) q'"
proof -
  note I = run_invD [OF inv] and o = viewD [OF oth]
  have ph: "buf_phase ((ph(h := p)) c) (c \<in> set q') (bufs t c)" if "c < NBUF" for c
    using I(4) [OF that] me(1) q(2) [of c] buf_phase_view [OF oth, of c] by (cases "c = h") auto
  have dt: "data_ok t m' (bufs t c)" if c: "c < NBUF" for c
  proof (cases "c = h")
    case False
    have d: "data_ok s m (bufs s c)" by (rule I(5) [OF c])
    have "b_dirty (bufs s c) \<Longrightarrow> b_busy (bufs s c)" using phase_dirty [OF I(4) [OF c]] by blast
    then have "m' (buf_key (bufs s c)) = m (buf_key (bufs s c))" if "b_dirty (bufs s c) \<or> b_valid (bufs s c)"
      using that d new [OF c False] drive_sectors_dev [of "bufs s c"] by (intro m') (auto simp: data_ok_def buf_key_def)
    then show ?thesis using d by (auto simp: data_ok_def o [OF False] bad)
  qed (use me in simp)
  have un: "i = j" if "i < NBUF" "j < NBUF" "b_dev (bufs t i) \<noteq> no_dev" "buf_key (bufs t i) = buf_key (bufs t j)" for i j
  proof -
    have dv: "b_dev (bufs t j) = b_dev (bufs t i)" using that(4) by (simp add: buf_key_def)
    show ?thesis
    proof (cases "i = h \<or> j = h")
      case True
      then show ?thesis using new [of i] new [of j] that dv o(6) by metis
    next
      case False
      then show ?thesis using I(6) [of i j] that o [of i] o [of j] by auto
    qed
  qed
  have "set q' \<subseteq> {..<NBUF}"
  proof
    fix c assume "c \<in> set q'"
    then show "c \<in> {..<NBUF}" using q(2) [of c] I(2) h by (cases "c = h") auto
  qed
  moreover have "\<forall>c \<ge> NBUF. (ph(h := p)) c = None" using I(3) h by auto
  ultimately show ?thesis using q(1) l ph dt un disk unfolding run_inv_def by blast
qed

section \<open>Every step keeps it\<close>

lemma run_inv_boot:
  assumes "cold s"
  shows "run_inv (binit s) (sectors s) Map.empty []"
proof -
  have b: "bc_inv (binit s)" "sectors (binit s) = sectors s" "bc_held (binit s) = Map.empty" by (rule binit_inv [OF assms])+
  have nb: "\<not> b_busy (bufs (binit s) i)" if "i < NBUF" for i
    using fun_cong [OF b(3), of i] that by (simp add: bc_held_def split: if_splits)
  have "buf_ok (sectors s) (bufs (binit s) i)" if "i < NBUF" for i using b that by (simp add: bc_inv_def)
  then have "buf_phase None False (bufs (binit s) i) \<and> data_ok (binit s) (sectors s) (bufs (binit s) i)" if "i < NBUF" for i
    using that nb [OF that] by (auto simp: buf_ok_def data_ok_def drive_sectors_def buf_key_def)
  moreover have "i = j" if "i < NBUF" "j < NBUF" "b_dev (bufs (binit s) i) \<noteq> no_dev" "buf_key (bufs (binit s) i) = buf_key (bufs (binit s) j)" for i j
    using b(1) that unfolding bc_inv_def buf_ok_def buf_key_def by blast
  ultimately show ?thesis using b by (auto simp: run_inv_def bc_inv_def)
qed

lemma in_tl: "h \<in> set (tl q) \<Longrightarrow> b \<notin> set q \<Longrightarrow> h \<noteq> b"
  by (cases q) auto

text \<open>\<open>bget\<close> on a sector of the drive.\<close>

lemma run_bget:
  assumes inv: "run_inv s m ph q" and k: "(d, n) \<in> drive_sectors"
  shows "if (d, n) \<in> ran (bc_held s) then bget d n s = Sleeps
    else if \<forall>h < NBUF. b_busy (bufs s h) then bget d n s = Panic ''bget: no buffers''
    else \<exists>h s'. bget d n s = Ok (h, s') \<and> h < NBUF \<and> ph h = None \<and> buf_key (bufs s' h) = (d, n) \<and> bc_held s' = (bc_held s)(h \<mapsto> (d, n)) \<and>
      run_inv s' m (ph(h \<mapsto> if b_valid (bufs s' h) then Using else Got)) q"
proof -
  note I = run_invD [OF inv]
  obtain xs where l: "lru s xs" using run_inv_lru [OF inv] by blast
  have dn: "d \<noteq> no_dev" using k by (simp add: drive_sectors_def no_dev_def)
  have qn: "ide_queue (upd_buf b f s) q" if "\<And>bf. b_qnext (f bf) = b_qnext bf" for b f
    using I(1) that by (subst ide_queue_cong [of _ s]) (auto simp: upd_buf_def)
  have held: "bc_held (upd_buf b f s) = (bc_held s)(b \<mapsto> (d, n))"
    if "b < NBUF" "b_busy (f (bufs s b))" "b_dev (f (bufs s b)) = d" "b_sector (f (bufs s b)) = n" for b f
    using that by (auto simp: bc_held_def upd_buf_def fun_eq_iff)
  show ?thesis
  proof (cases "find (\<lambda>i. b_dev (bufs s i) = d \<and> b_sector (bufs s i) = n) xs")
    case (Some b)
    from find_SomeD [OF Some] l have b: "b < NBUF" "b_dev (bufs s b) = d" "b_sector (bufs s b) = n" by (auto simp: lru_def)
    have kb: "(d, n) \<in> ran (bc_held s) \<longleftrightarrow> b_busy (bufs s b)"
    proof
      assume "(d, n) \<in> ran (bc_held s)"
      then obtain i where i: "i < NBUF" "b_busy (bufs s i)" "b_dev (bufs s i) = d" "b_sector (bufs s i) = n" by (auto simp: bc_held_ran)
      then have "b = i" using I(6) [OF b(1) i(1)] b dn by (simp add: buf_key_def)
      with i show "b_busy (bufs s b)" by simp
    qed (use b in \<open>auto simp: bc_held_ran\<close>)
    show ?thesis
    proof (cases "b_busy (bufs s b)")
      case True
      then show ?thesis using kb Some by (simp add: bget_def lru_scans [OF l])
    next
      case False
      let ?t = "upd_buf b (b_busy_update (\<lambda>_. True)) s"
      have p: "ph b = None" using phase_busy [OF I(4) [OF b(1)]] False by simp
      have ok: "b_valid (bufs s b)" "\<not> b_dirty (bufs s b)" "b \<notin> set q" using I(4) [OF b(1)] p b(2) dn by auto
      have "run_inv ?t m (ph(b := Some Using)) q"
      proof (rule run_inv_upd [OF inv b(1)])
        show "lru ?t xs" using l by (simp add: lru_upd_buf)
        show "data_ok ?t m (bufs ?t b)" using I(5) [OF b(1)] ok by (simp add: data_ok_def upd_buf_def buf_key_def)
        show "buf_key (bufs s i) \<noteq> buf_key (bufs ?t b)" if "i < NBUF" "i \<noteq> b" for i
          using I(6) [OF b(1) that(1)] that(2) b(2) dn by (auto simp: upd_buf_def buf_key_def)
        show "sectors ?t k = m k" if "k \<in> drive_sectors" "\<And>h. h \<in> set (tl q) \<Longrightarrow> b_dirty (bufs ?t h) \<Longrightarrow> buf_key (bufs ?t h) \<noteq> k" for k
          using I(7) [OF that(1)] that(2) in_tl [OF _ ok(3)] by (simp add: upd_buf_def)
      qed (use ok qn in \<open>auto simp: upd_buf_def view_def\<close>)
      then show ?thesis using False kb Some b ok p held [OF b(1), of "b_busy_update (\<lambda>_. True)"]
        by (auto simp: bget_def lru_scans [OF l] upd_buf_def buf_key_def)
    qed
  next
    case None
    have none: "buf_key (bufs s i) \<noteq> (d, n)" if "i < NBUF" for i
      using find_NoneD [OF None, of i] l that by (auto simp: lru_def buf_key_def)
    then have nh: "(d, n) \<notin> ran (bc_held s)" by (auto simp: bc_held_ran buf_key_def)
    show ?thesis
    proof (cases "find (\<lambda>i. \<not> b_busy (bufs s i)) (rev xs)")
      case full: None
      then have "\<forall>h < NBUF. b_busy (bufs s h)" using l by (auto simp: find_None_iff lru_def)
      then show ?thesis using None full nh by (simp add: bget_def lru_scans [OF l])
    next
      case (Some b)
      from find_SomeD [OF Some] l have b: "b < NBUF" "\<not> b_busy (bufs s b)" by (auto simp: lru_def)
      let ?f = "\<lambda>bf. bf\<lparr>b_dev := d, b_sector := n, b_busy := True, b_valid := False, b_dirty := False\<rparr>"
      let ?t = "upd_buf b ?f s"
      have p: "ph b = None" using phase_busy [OF I(4) [OF b(1)]] b(2) by simp
      have nq: "b \<notin> set q" using I(4) [OF b(1)] p by simp
      have "run_inv ?t m (ph(b := Some Got)) q"
      proof (rule run_inv_upd [OF inv b(1)])
        show "lru ?t xs" using l by (simp add: lru_upd_buf)
        show "data_ok ?t m (bufs ?t b)" using k by (simp add: data_ok_def upd_buf_def buf_key_def)
        show "buf_key (bufs s i) \<noteq> buf_key (bufs ?t b)" if "i < NBUF" for i
          using none [OF that] by (simp add: upd_buf_def buf_key_def)
        show "sectors ?t k = m k" if "k \<in> drive_sectors" "\<And>h. h \<in> set (tl q) \<Longrightarrow> b_dirty (bufs ?t h) \<Longrightarrow> buf_key (bufs ?t h) \<noteq> k" for k
          using I(7) [OF that(1)] that(2) in_tl [OF _ nq] by (simp add: upd_buf_def)
        show "ide_queue ?t q" by (rule qn) simp
      qed (use nq in \<open>auto simp: upd_buf_def view_def\<close>)
      then show ?thesis using None Some nh b p held [OF b(1), of ?f]
        by (auto simp: bget_def lru_scans [OF l] upd_buf_def buf_key_def)
    qed
  qed
qed

lemma run_bget_ok:
  assumes "run_inv s m ph q" and "(d, n) \<in> drive_sectors" and nh: "(d, n) \<notin> ran (bc_held s)"
    and nf: "\<not> (\<forall>h < NBUF. b_busy (bufs s h))"
  obtains h s' where "bget d n s = Ok (h, s')" "h < NBUF" "ph h = None" "buf_key (bufs s' h) = (d, n)"
    "bc_held s' = (bc_held s)(h \<mapsto> (d, n))" "run_inv s' m (ph(h \<mapsto> if b_valid (bufs s' h) then Using else Got)) q"
  using run_bget [OF assms(1,2), unfolded if_not_P [OF nh] if_not_P [OF nf]] by blast

text \<open>Queueing a request of a buffer that is not queued: a read, or a write of the new contents.\<close>

lemma run_submit:
  assumes inv: "run_inv s m ph q" and h: "h < NBUF" and nq: "h \<notin> set q"
    and s1: "s1 = upd_buf h f s" "\<And>bf. b_next (f bf) = b_next bf \<and> b_prev (f bf) = b_prev bf \<and> b_dev (f bf) = b_dev bf \<and> b_sector (f bf) = b_sector bf \<and> b_busy (f bf) = b_busy bf"
    and rq: "b_busy (bufs s h)" "\<not> (b_valid (bufs s1 h) \<and> \<not> b_dirty (bufs s1 h))" "b_dirty (bufs s1 h) \<Longrightarrow> b_data (bufs s1 h) = m' (buf_key (bufs s h))"
      "b_valid (bufs s1 h) \<Longrightarrow> b_dirty (bufs s1 h)"
    and m': "\<And>k. k \<noteq> buf_key (bufs s h) \<Longrightarrow> m' k = m k" "\<not> b_dirty (bufs s1 h) \<Longrightarrow> m' = m"
    and st: "iderw_start h s1 = Ok t"
  shows "run_inv t m' (ph(h \<mapsto> Waiting)) (q @ [h])"
proof -
  note I = run_invD [OF inv]
  obtain xs where l: "lru s xs" using run_inv_lru [OF inv] by blast
  have b1: "bufs s1 = (bufs s)(h := f (bufs s h))" "sectors s1 = sectors s" "idequeue s1 = idequeue s" "bad_sectors s1 = bad_sectors s"
    by (simp_all add: s1(1) upd_buf_def)
  have key: "buf_key (bufs s1 h) = buf_key (bufs s h)" using s1(2) by (simp add: b1 buf_key_def)
  have "ide_queue s1 q" using I(1) nq by (subst ide_queue_cong [of _ s]) (auto simp: b1)
  from ide_submit_appends [OF this nq] st obtain bs where
    t: "t = s1\<lparr>idequeue := head_of (q @ [h]), bufs := bs,
      sectors := if q = [] then write_out (bufs s1) h (sectors s1) else sectors s1\<rparr>" and
    bs: "\<And>c. bs c = (bufs s1 c)\<lparr>b_qnext := b_qnext (bs c)\<rparr>" and
    iq: "ide_queue (s1\<lparr>idequeue := head_of (q @ [h]), bufs := bs\<rparr>) (q @ [h])"
    by (auto simp: iderw_start_def split: if_splits)
  have vw: "view (bs c) = view (bufs s1 c) \<and> b_next (bs c) = b_next (bufs s1 c) \<and> b_prev (bs c) = b_prev (bufs s1 c)" for c
  proof -
    obtain n where "bs c = (bufs s1 c)\<lparr>b_qnext := n\<rparr>" using bs by blast
    then show ?thesis by (simp add: view_def)
  qed
  note v = viewD [OF conjunct1 [OF vw]]
  have kd: "buf_key (bufs s h) \<in> drive_sectors" using I(5) [OF h] rq(1) by (simp add: data_ok_def)
  have ad: "addr (bufs s1 h) = buf_key (bufs s h)" using drive_sectors_addr [of "bufs s1 h"] kd key by simp
  show ?thesis
  proof (rule run_inv_upd [OF inv h])
    show "ide_queue t (q @ [h])" using iq by (simp add: t ide_queue_def)
    show "lru t xs" using l vw s1(2) by (subst lru_cong [of _ s]) (auto simp: t b1)
    show "view (bufs t c) = view (bufs s c)" if "c \<noteq> h" for c using vw [of c] that by (simp add: t b1)
    show "buf_phase (Some Waiting) (h \<in> set (q @ [h])) (bufs t h)" using rq(1,2) s1(2) by (auto simp: t v b1)
    show "data_ok t m' (bufs t h)" using rq(3,4) kd key by (auto simp: data_ok_def t v)
    show "buf_key (bufs s i) \<noteq> buf_key (bufs t h)" if "i < NBUF" "i \<noteq> h" for i
      using I(6) [OF h that(1)] that(2) drive_sectors_dev [OF kd] by (auto simp: t v key)
    show "m' k = m k" if "k \<noteq> buf_key (bufs t h)" for k using m'(1) that by (simp add: t v key)
    fix k assume k: "k \<in> drive_sectors" and nk: "\<And>c. c \<in> set (tl (q @ [h])) \<Longrightarrow> b_dirty (bufs t c) \<Longrightarrow> buf_key (bufs t c) \<noteq> k"
    have old: "sectors s k = m k"
    proof (rule I(7) [OF k])
      fix c assume c: "c \<in> set (tl q)" "b_dirty (bufs s c)"
      then show "buf_key (bufs s c) \<noteq> k" using nk [of c] in_tl [OF c(1) nq] by (cases q) (auto simp: t v b1)
    qed
    show "sectors t k = m' k"
    proof (cases "q = []")
      case True
      then show ?thesis using old m' rq(3) ad by (auto simp: t write_out_def b1(2))
    next
      case False
      then have "h \<in> set (tl (q @ [h]))" by (cases q) auto
      then have "b_dirty (bufs s1 h) \<Longrightarrow> k \<noteq> buf_key (bufs s h)" using nk [of h] by (auto simp: t v key)
      then show ?thesis using False old m' by (cases "b_dirty (bufs s1 h)") (auto simp: t b1(2))
    qed
  qed (use nq in \<open>auto simp: t b1\<close>)
qed

lemma run_start_read:
  assumes inv: "run_inv s m ph q" and p: "ph h = Some Got" and st: "iderw_start h s = Ok t"
  shows "run_inv t m (ph(h \<mapsto> Waiting)) (q @ [h])"
proof -
  have h: "h < NBUF" using run_invD(3) [OF inv, of h] p by (cases "h < NBUF") auto
  have b: "b_busy (bufs s h)" "h \<notin> set q" "\<not> b_valid (bufs s h)" "\<not> b_dirty (bufs s h)" using run_invD(4) [OF inv h] p by auto
  have s: "s = upd_buf h (\<lambda>bf. bf) s" by (simp add: upd_buf_def)
  show ?thesis using b st by (intro run_submit [OF inv h b(2) s]) auto
qed

lemma run_start_write:
  assumes inv: "run_inv s m ph q" and p: "ph h = Some Using" and st: "bwrite_start h (set_data h x s) = Ok t"
  shows "run_inv t (m(buf_key (bufs s h) := x)) (ph(h \<mapsto> Waiting)) (q @ [h])"
proof -
  have h: "h < NBUF" using run_invD(3) [OF inv, of h] p by (cases "h < NBUF") auto
  have b: "b_busy (bufs s h)" "h \<notin> set q" using run_invD(4) [OF inv h] p by auto
  let ?f = "\<lambda>bf. bf\<lparr>b_data := x, b_dirty := True\<rparr>"
  have s: "upd_buf h (b_dirty_update (\<lambda>_. True)) (set_data h x s) = upd_buf h ?f s" by (simp add: upd_buf_def set_data_def)
  have "iderw_start h (upd_buf h ?f s) = Ok t" using st b(1) by (simp add: bwrite_start_def s split: if_splits)
  then show ?thesis using b by (intro run_submit [OF inv h b(2) refl]) (auto simp: upd_buf_def)
qed

text \<open>An interrupt serves the first request and starts the next one.\<close>

lemma served_view: "b_busy (served s c) = b_busy (bufs s c)" "b_valid (served s c)" "\<not> b_dirty (served s c)"
  "buf_key (served s c) = buf_key (bufs s c)" "b_next (served s c) = b_next (bufs s c)" "b_prev (served s c) = b_prev (bufs s c)"
  "b_data (served s c) = (if b_dirty (bufs s c) \<or> addr (bufs s c) \<in> bad_sectors s then b_data (bufs s c) else sectors s (addr (bufs s c)))"
  by (simp_all add: served_def Let_def buf_key_def)

lemma run_interrupt:
  assumes inv: "run_inv s m ph (c # r)"
  shows "run_inv (ideintr s) m ph r" and "bufs (ideintr s) = (bufs s)(c := served s c)"
    and "b_data (served s c) = (if b_dirty (bufs s c) \<or> buf_key (bufs s c) \<in> bad_sectors s then b_data (bufs s c) else m (buf_key (bufs s c)))"
proof -
  note I = run_invD [OF inv]
  have iq: "ide_queue s (c # r)" by (rule I(1))
  have c: "c < NBUF" "c \<notin> set r" "set r \<subseteq> {..<NBUF}" using I(2) iq by (auto simp: ide_queue_def)
  have "buf_phase (ph c) True (bufs s c)" using I(4) [OF c(1)] by simp
  then have p: "ph c = Some Waiting" "b_busy (bufs s c)" "\<not> (b_valid (bufs s c) \<and> \<not> b_dirty (bufs s c))"
    by (cases "(ph c, True, bufs s c)" rule: buf_phase.cases; auto)+
  have kd: "buf_key (bufs s c) \<in> drive_sectors" using I(5) [OF c(1)] p(2) by (simp add: data_ok_def)
  have ad: "addr (bufs s c) = buf_key (bufs s c)" by (rule drive_sectors_addr [OF kd])
  have mine: "sectors s (buf_key (bufs s c)) = m (buf_key (bufs s c))"
  proof (rule I(7) [OF kd])
    fix h assume "h \<in> set (tl (c # r))"
    then have "h < NBUF" "h \<noteq> c" using c(2,3) by auto
    then show "buf_key (bufs s h) \<noteq> buf_key (bufs s c)" using I(6) [OF c(1), of h] drive_sectors_dev [OF kd] by metis
  qed
  then show dat: "b_data (served s c) = (if b_dirty (bufs s c) \<or> buf_key (bufs s c) \<in> bad_sectors s then b_data (bufs s c) else m (buf_key (bufs s c)))"
    by (simp add: served_view ad)
  note step = ideintr_step [OF iq]
  then show bf: "bufs (ideintr s) = (bufs s)(c := served s c)" by simp
  obtain xs where l: "lru s xs" using run_inv_lru [OF inv] by blast
  have "run_inv (ideintr s) m (ph(c := Some Waiting)) r"
  proof (rule run_inv_upd [OF inv c(1) ide_queue_ideintr [OF iq]])
    show "lru (ideintr s) xs" using l by (subst lru_cong [of _ s]) (simp_all add: bf served_view)
    show "data_ok (ideintr s) m (bufs (ideintr s) c)"
      using kd I(5) [OF c(1)] dat by (auto simp: data_ok_def bf served_view step)
    show "buf_key (bufs s i) \<noteq> buf_key (bufs (ideintr s) c)" if "i < NBUF" "i \<noteq> c" for i
      using I(6) [OF c(1) that(1)] that(2) drive_sectors_dev [OF kd] by (auto simp: bf served_view)
    fix k assume k: "k \<in> drive_sectors" and nk: "\<And>h. h \<in> set (tl r) \<Longrightarrow> b_dirty (bufs (ideintr s) h) \<Longrightarrow> buf_key (bufs (ideintr s) h) \<noteq> k"
    show "sectors (ideintr s) k = m k"
    proof (cases r)
      case Nil
      then show ?thesis using I(7) [OF k] by (simp add: step)
    next
      case (Cons d r')
      have d: "d < NBUF" "d \<noteq> c" using c(2,3) Cons by auto
      have dk: "b_dirty (bufs s d) \<Longrightarrow> buf_key (bufs s d) \<in> drive_sectors \<and> b_data (bufs s d) = m (buf_key (bufs s d))"
        using I(5) [OF d(1)] phase_dirty [OF I(4) [OF d(1)]] by (auto simp: data_ok_def)
      show ?thesis
      proof (cases "b_dirty (bufs s d) \<and> buf_key (bufs s d) = k")
        case True
        then show ?thesis using dk drive_sectors_addr [of "bufs s d"] by (simp add: step Cons write_out_def)
      next
        case False
        have "h \<noteq> c" if "h \<in> set r'" for h using that c(2) Cons by auto
        then have "sectors s k = m k" using I(7) [OF k] nk False Cons by (auto simp: bf)
        then show ?thesis using False dk drive_sectors_addr [of "bufs s d"] by (auto simp: step Cons write_out_def)
      qed
    qed
  qed (use p c(2) in \<open>auto simp: step served_view\<close>)
  then show "run_inv (ideintr s) m ph r" using p(1) by (metis fun_upd_triv)
qed

lemma run_release:
  assumes inv: "run_inv s m ph q" and p: "ph h = Some Using" and st: "brelse h s = Ok t"
  shows "run_inv t m (ph(h := None)) q"
proof -
  note I = run_invD [OF inv]
  have h: "h < NBUF" using I(3) [of h] p by (cases "h < NBUF") auto
  have b: "b_busy (bufs s h)" "h \<notin> set q" "b_valid (bufs s h)" "\<not> b_dirty (bufs s h)" using I(4) [OF h] p by auto
  obtain xs where l: "lru s xs" using run_inv_lru [OF inv] by blast
  let ?s1 = "s\<lparr>bufs := list_push h (list_unlink h (bufs s))\<rparr>"
  have t: "t = upd_buf h (b_busy_update (\<lambda>_. False)) ?s1" using st b(1) by (simp add: brelse_def)
  have f: "view (bufs ?s1 c) = view (bufs s c) \<and> b_qnext (bufs ?s1 c) = b_qnext (bufs s c)" for c
    using same_buf_fields [OF list_push_same [of h "list_unlink h (bufs s)" c]]
      same_buf_fields [OF list_unlink_same [of h "bufs s" c]] by (simp add: view_def)
  note v = viewD [OF conjunct1 [OF f]]
  have tc: "view (bufs t c) = view (bufs s c)" if "c \<noteq> h" for c using f [of c] that by (simp add: t upd_buf_def)
  have th: "\<not> b_busy (bufs t h)" "b_valid (bufs t h)" "\<not> b_dirty (bufs t h)" "buf_key (bufs t h) = buf_key (bufs s h)"
    "b_data (bufs t h) = b_data (bufs s h)"
    using b v [of h] by (simp_all add: t upd_buf_def buf_key_def)
  have kd: "buf_key (bufs s h) \<in> drive_sectors" using I(5) [OF h] b(1) by (simp add: data_ok_def)
  show ?thesis
  proof (rule run_inv_upd [OF inv h])
    show "ide_queue t q" using I(1) f by (subst ide_queue_cong [of _ s]) (auto simp: t upd_buf_def)
    show "lru t (h # remove1 h xs)" unfolding t using brelse_front [OF l h] by (subst lru_upd_buf) simp_all
    show "view (bufs t c) = view (bufs s c)" if "c \<noteq> h" for c by (rule tc [OF that])
    show "data_ok t m (bufs t h)" using I(5) [OF h] b th by (simp add: data_ok_def) (simp add: t upd_buf_def)
    show "buf_key (bufs s i) \<noteq> buf_key (bufs t h)" if "i < NBUF" "i \<noteq> h" for i
      using I(6) [OF h that(1)] that(2) drive_sectors_dev [OF kd] th(4) by auto
    show "sectors t k = m k" if "k \<in> drive_sectors" "\<And>c. c \<in> set (tl q) \<Longrightarrow> b_dirty (bufs t c) \<Longrightarrow> buf_key (bufs t c) \<noteq> k" for k
      using I(7) [OF that(1)] that(2) in_tl [OF _ b(2)] viewD(3,6) [OF tc] by (simp add: t)
  qed (use b th in \<open>auto simp: t upd_buf_def\<close>)
qed

lemma run_finish:
  assumes "run_inv s m ph q" and "ph h = Some Waiting" and "iderw_done h s"
  shows "run_inv s m (ph(h \<mapsto> Using)) q"
proof -
  have "h < NBUF" using run_invD(3) [OF assms(1), of h] assms(2) by (cases "h < NBUF") auto
  then have "buf_phase (Some Using) (h \<in> set q) (bufs s h)"
    using run_invD(4) [OF assms(1), of h] assms(2,3) by (auto simp: iderw_done_def)
  then show ?thesis using assms(1,2) unfolding run_inv_def by auto
qed

lemma bc_run_inv:
  assumes "bc_run s m ph R" and "R \<subseteq> drive_sectors"
  shows "\<exists>q. run_inv s m ph q"
  using assms
proof (induction rule: bc_run.induct)
  case (boot s)
  then show ?case using run_inv_boot by blast
next
  case (get s m ph R d n h s')
  then obtain q where q: "run_inv s m ph q" by auto
  have "(d, n) \<in> drive_sectors" using get.prems by simp
  from run_bget [OF q this] get.hyps(2)
  have "run_inv s' m (ph(h \<mapsto> if b_valid (bufs s' h) then Using else Got)) q" by (auto split: if_splits simp del: fun_upd_apply)
  then show ?case by blast
next
  case (interrupt s m ph R)
  then obtain q where q: "run_inv s m ph q" by auto
  show ?case
  proof (cases q)
    case Nil
    then have "ideintr s = s" using run_invD(1) [OF q] by (simp add: ideintr_def)
    then show ?thesis using q by auto
  next
    case (Cons c r)
    then show ?thesis using run_interrupt(1) [of s m ph c r] q by blast
  qed
next
  case (start_read s m ph R h s')
  then obtain q where "run_inv s m ph q" by auto
  from run_start_read [OF this start_read.hyps(2,3)] show ?case by blast
next
  case (start_write s m ph R h x s')
  then obtain q where "run_inv s m ph q" by auto
  from run_start_write [OF this start_write.hyps(2,4)] show ?case by blast
next
  case (finish s m ph R h)
  then obtain q where "run_inv s m ph q" by auto
  from run_finish [OF this finish.hyps(2,3)] show ?case by blast
next
  case (release s m ph R h s')
  then obtain q where "run_inv s m ph q" by auto
  from run_release [OF this release.hyps(2,3)] show ?case by blast
qed

section \<open>Waiting ends\<close>

text \<open>The disk's copy of a held sector, when no write of it is queued.\<close>

lemma run_disk_copy:
  assumes inv: "run_inv s m ph q" and h: "h < NBUF" "b_busy (bufs s h)" "h \<notin> set q"
  shows "sectors s (buf_key (bufs s h)) = m (buf_key (bufs s h))"
proof -
  note I = run_invD [OF inv]
  have kd: "buf_key (bufs s h) \<in> drive_sectors" using I(5) [OF h(1)] h(2) by (simp add: data_ok_def)
  show ?thesis
  proof (rule I(7) [OF kd])
    fix c assume c: "c \<in> set (tl q)"
    then have "c < NBUF" "c \<noteq> h" using I(2) in_tl [OF c h(3)] by (cases q; auto)+
    then show "buf_key (bufs s c) \<noteq> buf_key (bufs s h)" using I(6) [OF h(1), of c] drive_sectors_dev [OF kd] by metis
  qed
qed

lemma bad_ideintr [simp]: "bad_sectors (ideintr s) = bad_sectors s"
  by (simp add: ideintr_def idestart_def upd_buf_def Let_def split: option.splits)

lemma run_served:
  assumes "run_inv s m ph (pre @ h # post)"
  shows "run_inv ((ideintr ^^ Suc (length pre)) s) m ph post \<and> iderw_done h ((ideintr ^^ Suc (length pre)) s) \<and>
    buf_key (bufs ((ideintr ^^ Suc (length pre)) s) h) = buf_key (bufs s h) \<and>
    buf_data ((ideintr ^^ Suc (length pre)) s) h =
      (if b_dirty (bufs s h) \<or> buf_key (bufs s h) \<in> bad_sectors s then buf_data s h else m (buf_key (bufs s h)))"
  using assms
proof (induction pre arbitrary: s)
  case Nil
  then have inv: "run_inv s m ph (h # post)" by simp
  note r = run_interrupt [OF inv]
  have b: "bufs (ideintr s) h = served s h" by (simp add: r(2))
  have "iderw_done h (ideintr s)" by (simp add: iderw_done_def b served_view)
  moreover have "buf_key (bufs (ideintr s) h) = buf_key (bufs s h)" by (simp add: b served_view)
  moreover have "buf_data (ideintr s) h = (if b_dirty (bufs s h) \<or> buf_key (bufs s h) \<in> bad_sectors s then buf_data s h else m (buf_key (bufs s h)))"
    using r(3) by (simp only: buf_data_def b)
  ultimately show ?case using r(1) by (simp only: list.size funpow.simps o_apply id_apply)
next
  case (Cons c pre)
  then have inv: "run_inv s m ph (c # pre @ h # post)" by simp
  note r = run_interrupt [OF inv]
  have "h \<noteq> c" using run_invD(1) [OF inv] by (auto simp: ide_queue_def)
  then have "bufs (ideintr s) h = bufs s h" by (simp add: r(2))
  with Cons.IH [OF r(1)] show ?case by (simp add: funpow_Suc_right buf_data_def del: funpow.simps)
qed

lemma run_waiting:
  assumes inv: "run_inv s m ph q" and p: "ph h = Some Waiting"
  shows "\<exists>n \<le> NBUF. iderw_done h ((ideintr ^^ n) s) \<and>
    sectors ((ideintr ^^ n) s) (buf_key (bufs s h)) = m (buf_key (bufs s h)) \<and>
    buf_data ((ideintr ^^ n) s) h =
      (if iderw_done h s \<or> b_dirty (bufs s h) \<or> buf_key (bufs s h) \<in> bad_sectors s then buf_data s h else m (buf_key (bufs s h)))"
proof -
  note I = run_invD [OF inv]
  have h: "h < NBUF" using I(3) [of h] p by (cases "h < NBUF") auto
  have b: "b_busy (bufs s h)" "h \<in> set q \<longleftrightarrow> \<not> iderw_done h s" using I(4) [OF h] p by (auto simp: iderw_done_def)
  show ?thesis
  proof (cases "h \<in> set q")
    case False
    then show ?thesis using run_disk_copy [OF inv h b(1)] b(2) by (intro exI [of _ 0]) simp
  next
    case True
    then obtain pre post where q: "q = pre @ h # post" by (meson split_list)
    let ?n = "Suc (length pre)" and ?t = "(ideintr ^^ Suc (length pre)) s"
    note r = run_served [OF inv [unfolded q]]
    have d: "distinct q" using I(1) by (simp add: ide_queue_def)
    then have "length q \<le> NBUF" using I(2) card_mono [of "{..<NBUF}" "set q"] distinct_card [of q] by simp
    then have n: "?n \<le> NBUF" by (simp add: q)
    have "h \<notin> set post" using d by (simp add: q)
    moreover have "b_busy (bufs ?t h)" using run_invD(4) [OF conjunct1 [OF r] h] p by simp
    ultimately have "sectors ?t (buf_key (bufs s h)) = m (buf_key (bufs s h))"
      using run_disk_copy [OF conjunct1 [OF r] h] r by simp
    with r n b(2) True show ?thesis by (intro exI [of _ ?n]) (simp del: funpow.simps)
  qed
qed

section \<open>The calls that return at once are runs\<close>

lemma bc_run_interrupts: "bc_run s m ph R \<Longrightarrow> bc_run ((ideintr ^^ n) s) m ph R"
  by (induction n) (auto intro: bc_run.interrupt)

lemma iderw_wait_interrupts:
  assumes "iderw_wait b s = Some (Ok s')"
  shows "iderw_done b s' \<and> (\<exists>n. s' = (ideintr ^^ n) s)"
proof -
  have "\<forall>s'. r = Ok s' \<longrightarrow> iderw_done b s' \<and> (\<exists>n. s' = (ideintr ^^ n) s)" if "iderw_wait b s = Some r" for r
  proof (rule iderw_wait.raw_induct [of "\<lambda>b s r. \<forall>s'. r = Ok s' \<longrightarrow> iderw_done b s' \<and> (\<exists>n. s' = (ideintr ^^ n) s)", OF _ that])
    fix wait b' and t :: "'a bcache_scheme" and r
    assume ih: "\<And>c u r. wait c u = Some r \<Longrightarrow> \<forall>s'. r = Ok s' \<longrightarrow> iderw_done c s' \<and> (\<exists>n. s' = (ideintr ^^ n) u)"
      and r: "(if b_valid (bufs t b') \<and> \<not> b_dirty (bufs t b') then Some (Ok t)
        else if idequeue t = None then Some Sleeps else wait b' (ideintr t)) = Some r"
    show "\<forall>s'. r = Ok s' \<longrightarrow> iderw_done b' s' \<and> (\<exists>n. s' = (ideintr ^^ n) t)"
    proof (cases "b_valid (bufs t b') \<and> \<not> b_dirty (bufs t b')")
      case True
      then have "r = Ok t" using r by simp
      then show ?thesis using True by (auto simp: iderw_done_def intro: exI [of _ 0])
    next
      case False
      then have "r = Sleeps \<or> wait b' (ideintr t) = Some r" using r by (auto split: if_splits)
      then show ?thesis
      proof
        assume "wait b' (ideintr t) = Some r"
        from ih [OF this] show ?thesis by (metis funpow_Suc_right o_apply)
      qed simp
    qed
  qed
  with assms show ?thesis by blast
qed

text \<open>
  The file-system code of this development calls \<open>bread\<close> and \<open>bwrite\<close> as operations that return
  with the buffer done. Both are runs: the request is queued and the disk interrupts until it has
  been served, also serving the requests of others that were queued before.
\<close>

lemma bc_run_bread:
  assumes run: "bc_run s m ph R" and rd: "bread d n s = Ok (h, s')"
  shows "bc_run s' m (ph(h \<mapsto> Using)) (insert (d, n) R)"
proof -
  from rd obtain s1 where s1: "bget d n s = Ok (h, s1)" "if b_valid (bufs s1 h) then s' = s1 else iderw h s1 = Ok s'"
    by (auto simp: bread_def kbind_Ok split: if_splits)
  note g = bc_run.get [OF run s1(1)]
  show ?thesis
  proof (cases "b_valid (bufs s1 h)")
    case True
    then show ?thesis using g s1(2) by simp
  next
    case False
    with s1(2) obtain s2 where s2: "iderw_start h s1 = Ok s2" "iderw_wait h s2 = Some (Ok s')"
      by (auto simp: iderw_def kbind_Ok split: option.splits)
    from g False have "bc_run s1 m (ph(h \<mapsto> Got)) (insert (d, n) R)" by simp
    from bc_run.start_read [OF this _ s2(1)] have "bc_run s2 m (ph(h \<mapsto> Waiting)) (insert (d, n) R)" by simp
    moreover from iderw_wait_interrupts [OF s2(2)] obtain k where "iderw_done h s'" "s' = (ideintr ^^ k) s2" by blast
    ultimately have "bc_run s' m (ph(h \<mapsto> Waiting)) (insert (d, n) R)" "iderw_done h s'" using bc_run_interrupts by auto
    from bc_run.finish [OF this(1) _ this(2)] show ?thesis by simp
  qed
qed

lemma bc_run_bwrite:
  assumes run: "bc_run s m ph R" and p: "ph h = Some Using" and len: "length x = BSIZE" and wr: "bwrite h (set_data h x s) = Ok s'"
  shows "bc_run s' (m(buf_key (bufs s h) := x)) ph R"
proof -
  from wr obtain s2 where s2: "bwrite_start h (set_data h x s) = Ok s2" "iderw_wait h s2 = Some (Ok s')"
    by (auto simp: bwrite_def bwrite_start_def iderw_def kbind_Ok split: option.splits if_splits)
  note w = bc_run.start_write [OF run p len s2(1)]
  from iderw_wait_interrupts [OF s2(2)] obtain k where "iderw_done h s'" "s' = (ideintr ^^ k) s2" by blast
  then have "bc_run s' (m(buf_key (bufs s h) := x)) (ph(h \<mapsto> Waiting)) R" "iderw_done h s'"
    using bc_run_interrupts [OF w] by auto
  from bc_run.finish [OF this(1) _ this(2)] have "bc_run s' (m(buf_key (bufs s h) := x)) (ph(h \<mapsto> Using)) R" by simp
  then show ?thesis using p by (metis fun_upd_triv)
qed

section \<open>Properties\<close>

lemma run_starts:
  assumes inv: "run_inv s m ph q"
  shows "ph h = Some Got \<Longrightarrow> if b_dev (bufs s h) \<noteq> 0 \<and> \<not> havedisk1 s
      then iderw_start h s = Panic ''iderw: ide disk 1 not present'' else \<exists>t. iderw_start h s = Ok t"
    and "ph h = Some Using \<Longrightarrow> if b_dev (bufs s h) \<noteq> 0 \<and> \<not> havedisk1 s
      then bwrite_start h (set_data h x s) = Panic ''iderw: ide disk 1 not present'' else \<exists>t. bwrite_start h (set_data h x s) = Ok t"
proof -
  note I = run_invD [OF inv]
  have ok: "\<exists>t. ide_submit h s1 = Ok t" if "h \<notin> set q" "s1 = upd_buf h f s" for s1 f
  proof -
    have "ide_queue s1 q" using I(1) that by (subst ide_queue_cong [of _ s]) (auto simp: upd_buf_def)
    from ide_submit_appends [OF this that(1)] show ?thesis by blast
  qed
  have h: "h < NBUF" if "ph h \<noteq> None" using I(3) [of h] that by (cases "h < NBUF") auto
  show "if b_dev (bufs s h) \<noteq> 0 \<and> \<not> havedisk1 s then iderw_start h s = Panic ''iderw: ide disk 1 not present''
      else \<exists>t. iderw_start h s = Ok t" if "ph h = Some Got"
    using I(4) [OF h] that ok [of s "\<lambda>bf. bf"] by (auto simp: iderw_start_def upd_buf_def)
  show "if b_dev (bufs s h) \<noteq> 0 \<and> \<not> havedisk1 s then bwrite_start h (set_data h x s) = Panic ''iderw: ide disk 1 not present''
      else \<exists>t. bwrite_start h (set_data h x s) = Ok t" if "ph h = Some Using"
    using I(4) [OF h] that ok [of _ "\<lambda>bf. bf\<lparr>b_data := x, b_dirty := True\<rparr>"]
    by (auto simp: bwrite_start_def iderw_start_def upd_buf_def set_data_def)
qed

lemma bget_frame:
  assumes "bget d n s = Ok (h, s')"
  shows "bad_sectors s' = bad_sectors s" "c \<noteq> h \<Longrightarrow> view (bufs s' c) = view (bufs s c)" "b_valid (bufs s' h) \<Longrightarrow> b_valid (bufs s h)"
  using assms by (auto simp: bget_def upd_buf_def split: option.splits if_splits)

lemma iderw_start_frame:
  assumes "iderw_start h s = Ok t"
  shows "bad_sectors t = bad_sectors s" "view (bufs t c) = view (bufs s c)"
  using assms by (auto simp: iderw_start_def ide_submit_def idestart_def upd_buf_def view_def Let_def split: option.splits if_splits)

lemma run_held:
  assumes "run_inv s m ph q"
  shows "bc_held s h = (if ph h = None then None else Some (buf_key (bufs s h)))"
  using run_invD(3) [OF assms, of h] phase_busy [OF run_invD(4) [OF assms, of h]]
  by (cases "h < NBUF") (auto simp: bc_held_def buf_key_def)

text \<open>
  C6. The buffer cache with any number of processes waiting for the disk at once, from boot and
  for every interleaving of \<open>bget\<close>, queueing of reads and writes, interrupts, returns from
  \<open>iderw\<close> and \<open>brelse\<close>; all that is assumed is that the sectors asked for can be addressed (two
  drives, 28-bit sector numbers).
  (1) No two buffers are held for one sector.
  (2) When \<open>bread\<close> or \<open>bwrite\<close> has returned, the buffer of a sector without read errors contains
  what was last written to the sector, and so does the disk.
  (3) A process that sleeps in \<open>iderw\<close> is served after at most ten interrupts: the disk then has
  the last contents; a buffer that was written keeps its bytes, one that was read has the last
  contents of the sector, and if the drive reports an error for the sector it is marked valid with
  the bytes it happened to hold.
  (4) Queueing never panics, except for a drive that is not there.
  (5) \<open>bget\<close> sleeps exactly when the sector is held, panics exactly when all ten buffers are, and
  otherwise hands out a buffer for the sector, whose contents are current if they are valid and
  the sector has no read errors.
\<close>
theorem bcache_coherent:
  assumes "bc_run s m ph R" and "R \<subseteq> drive_sectors"
  shows "(\<forall>h h' k. bc_held s h = Some k \<longrightarrow> bc_held s h' = Some k \<longrightarrow> h = h') \<and>
    (\<forall>h k. ph h = Some Using \<and> k = buf_key (bufs s h) \<longrightarrow> bc_held s h = Some k \<and>
      sectors s k = m k \<and> (k \<notin> bad_sectors s \<longrightarrow> buf_data s h = m k)) \<and>
    (\<forall>h k. ph h = Some Waiting \<and> k = buf_key (bufs s h) \<longrightarrow> bc_held s h = Some k \<and>
      (\<exists>n \<le> NBUF. iderw_done h ((ideintr ^^ n) s) \<and> sectors ((ideintr ^^ n) s) k = m k \<and>
        buf_data ((ideintr ^^ n) s) h =
          (if iderw_done h s \<or> b_dirty (bufs s h) \<or> k \<in> bad_sectors s then buf_data s h else m k))) \<and>
    (\<forall>h x. (ph h = Some Got \<longrightarrow> (if b_dev (bufs s h) \<noteq> 0 \<and> \<not> havedisk1 s
        then iderw_start h s = Panic ''iderw: ide disk 1 not present'' else \<exists>t. iderw_start h s = Ok t)) \<and>
      (ph h = Some Using \<longrightarrow> (if b_dev (bufs s h) \<noteq> 0 \<and> \<not> havedisk1 s
        then bwrite_start h (set_data h x s) = Panic ''iderw: ide disk 1 not present''
        else \<exists>t. bwrite_start h (set_data h x s) = Ok t))) \<and>
    (\<forall>d n. (d, n) \<in> drive_sectors \<longrightarrow>
      (if (d, n) \<in> ran (bc_held s) then bget d n s = Sleeps
       else if \<forall>h < NBUF. b_busy (bufs s h) then bget d n s = Panic ''bget: no buffers''
       else \<exists>h s'. bget d n s = Ok (h, s') \<and> bc_held s' = (bc_held s)(h \<mapsto> (d, n)) \<and>
         (b_valid (bufs s' h) \<and> (d, n) \<notin> bad_sectors s \<longrightarrow> buf_data s' h = m (d, n))))"
    (is "?one \<and> ?using \<and> ?waiting \<and> ?start \<and> ?get")
proof (intro conjI)
  from bc_run_inv [OF assms] obtain q where inv: "run_inv s m ph q" by blast
  note I = run_invD [OF inv] and hl = run_held [OF inv]
  have lt: "h < NBUF" if "ph h \<noteq> None" for h using I(3) [of h] that by (cases "h < NBUF") auto
  have kd: "buf_key (bufs s h) \<in> drive_sectors" if "ph h \<noteq> None" for h
    using I(5) [OF lt [OF that]] phase_busy [OF I(4) [OF lt [OF that]]] that by (simp add: data_ok_def)
  show ?one
  proof (intro allI impI)
    fix h h' k assume "bc_held s h = Some k" "bc_held s h' = Some k"
    then have p: "ph h \<noteq> None" "ph h' \<noteq> None" "buf_key (bufs s h) = buf_key (bufs s h')" by (auto simp: hl split: if_splits)
    then show "h = h'" using I(6) [OF lt lt, of h h'] drive_sectors_dev [OF kd [OF p(1)]] by blast
  qed
  show ?using
  proof (intro allI impI, elim conjE)
    fix h k assume p: "ph h = Some Using" and k: "k = buf_key (bufs s h)"
    then have h: "h < NBUF" using lt by simp
    have b: "b_busy (bufs s h)" "h \<notin> set q" "b_valid (bufs s h)" using I(4) [OF h] p by auto
    show "bc_held s h = Some k \<and> sectors s k = m k \<and> (k \<notin> bad_sectors s \<longrightarrow> buf_data s h = m k)"
      using run_disk_copy [OF inv h b(1,2)] I(5) [OF h] b p k by (simp add: hl data_ok_def buf_data_def)
  qed
  show ?waiting
  proof (intro allI impI, elim conjE)
    fix h k assume p: "ph h = Some Waiting" and k: "k = buf_key (bufs s h)"
    have "bc_held s h = Some k" using p k by (simp add: hl)
    with run_waiting [OF inv p] show "bc_held s h = Some k \<and>
      (\<exists>n \<le> NBUF. iderw_done h ((ideintr ^^ n) s) \<and> sectors ((ideintr ^^ n) s) k = m k \<and>
        buf_data ((ideintr ^^ n) s) h =
          (if iderw_done h s \<or> b_dirty (bufs s h) \<or> k \<in> bad_sectors s then buf_data s h else m k))" unfolding k by (rule conjI [rotated])
  qed
  show ?start using run_starts [OF inv] by blast
  show ?get
  proof (intro allI impI)
    fix d n assume dn: "(d, n) \<in> drive_sectors"
    note g = run_bget [OF inv this]
    have v: "buf_data s' h = m (d, n)" if "run_inv s' m ph' q" "h < NBUF" "buf_key (bufs s' h) = (d, n)" "b_valid (bufs s' h)"
      "(d, n) \<notin> bad_sectors s" "bget d n s = Ok (h, s')" for s' ph' h
      using run_invD(5) [OF that(1,2)] that(3-5) bget_frame(1) [OF that(6)] by (auto simp: data_ok_def buf_data_def)
    show "if (d, n) \<in> ran (bc_held s) then bget d n s = Sleeps
       else if \<forall>h < NBUF. b_busy (bufs s h) then bget d n s = Panic ''bget: no buffers''
       else \<exists>h s'. bget d n s = Ok (h, s') \<and> bc_held s' = (bc_held s)(h \<mapsto> (d, n)) \<and>
         (b_valid (bufs s' h) \<and> (d, n) \<notin> bad_sectors s \<longrightarrow> buf_data s' h = m (d, n))"
    proof (cases "(d, n) \<in> ran (bc_held s) \<or> (\<forall>h < NBUF. b_busy (bufs s h))")
      case False
      then have nh: "(d, n) \<notin> ran (bc_held s)" and nf: "\<not> (\<forall>h < NBUF. b_busy (bufs s h))" by simp_all
      from run_bget_ok [OF inv dn nh nf] obtain h s' where "bget d n s = Ok (h, s')" "h < NBUF"
        "buf_key (bufs s' h) = (d, n)" "bc_held s' = (bc_held s)(h \<mapsto> (d, n))"
        "run_inv s' m (ph(h \<mapsto> if b_valid (bufs s' h) then Using else Got)) q" by blast
      with v show ?thesis unfolding if_not_P [OF nh] if_not_P [OF nf] by blast
    qed (use g in \<open>auto split: if_splits\<close>)
  qed
qed

text \<open>Two processes wait at once: the first for sector 5, which is bad, the second for sector 6.\<close>

lemma two_waiting:
  fixes s0 :: bcache
  assumes c: "cold s0" and m: "sectors s0 = m" and b: "bad_sectors s0 = {(0, 5)}"
  shows "\<exists>s h ph. bc_run s m ph {(0, 5), (0, 6)} \<and> ph h = Some Waiting \<and> buf_key (bufs s h) = (0, 6) \<and>
    \<not> iderw_done h s \<and> \<not> b_dirty (bufs s h) \<and> (0, 6) \<notin> bad_sectors s \<and> (\<exists>h'. h' \<noteq> h \<and> ph h' = Some Waiting)"
proof -
  let ?s = "binit s0"
  have r0: "bc_run ?s m Map.empty {}" and i0: "run_inv ?s m Map.empty []"
    using bc_run.boot [OF c] run_inv_boot [OF c] by (simp_all add: m)
  have nb: "\<not> b_busy (bufs ?s i)" if "i < NBUF" for i using run_invD(4) [OF i0 that] by simp
  have nv: "\<not> b_valid (bufs ?s i)" if "i < NBUF" for i
    using binit_inv(1) [OF c] binit_cold [OF c that] by simp
  have ds: "(0, 5) \<in> drive_sectors" "(0, 6) \<in> drive_sectors" by (simp_all add: drive_sectors_def)
  have held0: "bc_held ?s = Map.empty" using run_held [OF i0] by auto
  have "\<not> (\<forall>h < NBUF. b_busy (bufs ?s h))" using nb [of 0] NBUF_gt(1) by blast
  from run_bget_ok [OF i0 ds(1) _ this] obtain h s1 where
    g1: "bget 0 5 ?s = Ok (h, s1)" "h < NBUF" "buf_key (bufs s1 h) = (0, 5)" "bc_held s1 = [h \<mapsto> (0, 5)]"
    "run_inv s1 m [h \<mapsto> if b_valid (bufs s1 h) then Using else Got] []" by (auto simp: held0)
  have v1: "\<not> b_valid (bufs s1 h)" using bget_frame(3) [OF g1(1)] nv g1(2) by blast
  from g1(5) v1 have i1: "run_inv s1 m [h \<mapsto> Got] []" by simp
  have r1: "bc_run s1 m [h \<mapsto> Got] {(0, 5)}" using bc_run.get [OF r0 g1(1)] v1 by simp
  have nf: "\<not> (\<forall>j < NBUF. b_busy (bufs s1 j))"
    using phase_busy [OF run_invD(4) [OF i1, of "if h = 0 then 1 else 0"]]
    by (auto intro!: exI [of _ "if h = 0 then 1 else 0"] split: if_splits)
  have nh: "(0, 6) \<notin> ran (bc_held s1)" by (simp add: g1(4))
  from run_bget_ok [OF i1 ds(2) nh nf] obtain h' s2 where
    g2: "bget 0 6 s1 = Ok (h', s2)" "h' < NBUF" "[h \<mapsto> Got] h' = None" "buf_key (bufs s2 h') = (0, 6)"
    "run_inv s2 m ([h \<mapsto> Got](h' \<mapsto> if b_valid (bufs s2 h') then Using else Got)) []" by blast
  have ne: "h' \<noteq> h" using g2(3) by auto
  have v2: "\<not> b_valid (bufs s2 h')"
    using bget_frame(3) [OF g2(1)] viewD(2) [OF bget_frame(2) [OF g1(1) ne]] nv g2(2) by blast
  from g2(5) v2 have i2: "run_inv s2 m [h \<mapsto> Got, h' \<mapsto> Got] []" by simp
  have r2: "bc_run s2 m [h \<mapsto> Got, h' \<mapsto> Got] {(0, 5), (0, 6)}" using bc_run.get [OF r1 g2(1)] v2 by (simp add: insert_commute)
  have k2: "buf_key (bufs s2 h) = (0, 5)" using viewD(6) [OF bget_frame(2) [OF g2(1)]] ne g1(3) by metis
  from run_starts(1) [OF i2, of h] ne k2 obtain s3 where s3: "iderw_start h s2 = Ok s3" by (auto simp: buf_key_def)
  have i3: "run_inv s3 m [h \<mapsto> Waiting, h' \<mapsto> Got] [h]" using run_start_read [OF i2 _ s3] ne by (simp add: fun_upd_twist)
  have r3: "bc_run s3 m [h \<mapsto> Waiting, h' \<mapsto> Got] {(0, 5), (0, 6)}" using bc_run.start_read [OF r2 _ s3] ne by (simp add: fun_upd_twist)
  have k3: "buf_key (bufs s3 h') = (0, 6)" using viewD(6) [OF iderw_start_frame(2) [OF s3]] g2(4) by simp
  from run_starts(1) [OF i3, of h'] k3 obtain s4 where s4: "iderw_start h' s3 = Ok s4" by (auto simp: buf_key_def)
  let ?ph = "[h \<mapsto> Waiting, h' \<mapsto> Waiting]"
  have i4: "run_inv s4 m ?ph [h, h']" using run_start_read [OF i3 _ s4] by simp
  have r4: "bc_run s4 m ?ph {(0, 5), (0, 6)}" using bc_run.start_read [OF r3 _ s4] by simp
  note f4 = iderw_start_frame [OF s4]
  have d4: "\<not> b_dirty (bufs s4 h')" using viewD(3) [OF f4(2)] run_invD(4) [OF i3 g2(2)] by simp
  have "\<not> iderw_done h' s4" using run_invD(4) [OF i4 g2(2)] by (simp add: iderw_done_def)
  moreover have "bad_sectors s4 = {(0, 5)}"
    using f4(1) iderw_start_frame(1) [OF s3] bget_frame(1) [OF g2(1)] bget_frame(1) [OF g1(1)] b by (simp add: binit_def Let_def)
  ultimately show ?thesis using r4 d4 viewD(6) [OF f4(2)] k3 ne by (intro exI [of _ s4] exI [of _ h'] exI [of _ ?ph]) auto
qed

theorem bcache_coherent_witness:
  "\<exists>(s :: bcache) h ph. bc_run s (\<lambda>_. replicate BSIZE 7) ph {(0, 5), (0, 6)} \<and> {(0, 5), (0, 6)} \<subseteq> drive_sectors \<and>
    (\<exists>h'. h' \<noteq> h \<and> ph h' = Some Waiting) \<and> ph h = Some Waiting \<and> \<not> iderw_done h s \<and>
    (\<exists>n \<le> NBUF. iderw_done h ((ideintr ^^ n) s) \<and> buf_data ((ideintr ^^ n) s) h = replicate BSIZE 7)"
proof -
  let ?b = "\<lparr>b_busy = False, b_valid = False, b_dirty = False, b_dev = 0, b_sector = 0, b_prev = 0, b_next = 0, b_qnext = None, b_data = []\<rparr>"
  let ?s = "\<lparr>bufs = (\<lambda>_. ?b), idequeue = None, havedisk1 = False, sectors = (\<lambda>_. replicate BSIZE 7), bad_sectors = {(0, 5)}\<rparr>"
  have "cold ?s" by (simp add: cold_def)
  from two_waiting [OF this refl] obtain s h ph h' where
    s: "bc_run s (\<lambda>_. replicate BSIZE 7) ph {(0, 5), (0, 6)}" "ph h = Some Waiting" "buf_key (bufs s h) = (0, 6)"
      "\<not> iderw_done h s" "\<not> b_dirty (bufs s h)" "(0, 6) \<notin> bad_sectors s" "h' \<noteq> h" "ph h' = Some Waiting" by auto
  have d: "{(0, 5), (0, 6)} \<subseteq> drive_sectors" by (simp add: drive_sectors_def)
  note c = conjunct1 [OF conjunct2 [OF conjunct2 [OF bcache_coherent [OF s(1) d]]]]
  from c [rule_format, of h "(0, 6)"] s obtain n where "n \<le> NBUF" "iderw_done h ((ideintr ^^ n) s)"
    "buf_data ((ideintr ^^ n) s) h = replicate BSIZE 7" by auto
  with s d show ?thesis by blast
qed

end
