(* ===== verification/Sh_Parse.thy ===== *)
theory Sh_Parse
  imports Prelude
begin

unbundle bit_operations_syntax

text \<open>
  The parser of the xv6 shell, \<open>src/P1/xv6/xv6/user/sh.c\<close>: the scanner (\<open>gettoken\<close>, \<open>peek\<close>), the
  recursive-descent functions and \<open>nulterminate\<close>. The line is a string without its terminating
  NUL and pointers into it are positions; a command tree holds positions, as the source's does.
  A \<open>panic\<close> ends the parse with its message. The recursive functions take fuel; running out of it
  is \<open>Loops\<close>, and \<open>parsecmd\<close> gives them an amount that is proved to be always enough.
\<close>

section \<open>Commands\<close>

definition MAXARGS :: nat where "MAXARGS = 10"

text \<open>An argument or file name is the pair of the pointers to its first byte and behind its last.\<close>

datatype cmd =
    EXEC "(nat \<times> nat) list"
  | REDIR cmd nat nat nat nat
  | PIPE cmd cmd
  | LIST cmd cmd
  | BACK cmd

definition execcmd :: cmd where "execcmd = EXEC []"

definition redircmd :: "cmd \<Rightarrow> nat \<Rightarrow> nat \<Rightarrow> nat \<Rightarrow> nat \<Rightarrow> cmd" where
  "redircmd subcmd file efile mode fd = REDIR subcmd file efile mode fd"

definition pipecmd :: "cmd \<Rightarrow> cmd \<Rightarrow> cmd" where "pipecmd l r = PIPE l r"
definition listcmd :: "cmd \<Rightarrow> cmd \<Rightarrow> cmd" where "listcmd l r = LIST l r"
definition backcmd :: "cmd \<Rightarrow> cmd" where "backcmd c = BACK c"

text \<open>
  \<open>parseexec\<close> keeps a pointer to the \<open>EXEC\<close> node it made while redirections are wrapped around it;
  storing an argument changes that node.
\<close>

fun push_arg :: "nat \<times> nat \<Rightarrow> cmd \<Rightarrow> cmd" where
  "push_arg a (EXEC as) = EXEC (as @ [a])"
| "push_arg a (REDIR c q eq mode fd) = REDIR (push_arg a c) q eq mode fd"
| "push_arg a c = c"

section \<open>Scanner\<close>

definition whitespace :: string where "whitespace = '' '' @ [CHR 0x09, CHR 0x0D, CHR 0x0A, CHR 0x0B]"
definition symbols :: string where "symbols = ''<|>&;()''"

abbreviation nul :: char where "nul \<equiv> CHR 0x00"

definition char_at :: "string \<Rightarrow> nat \<Rightarrow> char" where
  "char_at buf p = (if p < length buf then buf ! p else nul)"

definition is_ws :: "char \<Rightarrow> bool" where "is_ws c \<longleftrightarrow> c \<in> set whitespace"
definition is_word :: "char \<Rightarrow> bool" where "is_word c \<longleftrightarrow> c \<notin> set whitespace \<and> c \<notin> set symbols"

text \<open>The loops \<open>while(s < es && \<dots>) s++\<close>.\<close>

definition skip :: "(char \<Rightarrow> bool) \<Rightarrow> string \<Rightarrow> nat \<Rightarrow> nat" where
  "skip P buf p = p + length (takeWhile P (drop p buf))"

datatype tok = Tok_end | Tok_word | Tok_append | Tok_sym char

definition gettoken :: "string \<Rightarrow> nat \<Rightarrow> tok \<times> nat \<times> nat \<times> nat" where
  "gettoken buf p =
     (let q = skip is_ws buf p; c = char_at buf q;
          (ret, s) =
            (if c = nul then (Tok_end, q)
             else if c \<in> set ''|();&<'' then (Tok_sym c, q + 1)
             else if c = CHR ''>'' then
               (if char_at buf (q + 1) = CHR ''>'' then (Tok_append, q + 2) else (Tok_sym c, q + 1))
             else (Tok_word, skip is_word buf q))
      in (ret, q, s, skip is_ws buf s))"

definition peek :: "string \<Rightarrow> nat \<Rightarrow> string \<Rightarrow> bool \<times> nat" where
  "peek buf p toks =
     (let s = skip is_ws buf p in (char_at buf s \<noteq> nul \<and> char_at buf s \<in> set toks, s))"

lemma skip_bounds: "p \<le> length buf \<Longrightarrow> p \<le> skip P buf p \<and> skip P buf p \<le> length buf"
  using length_takeWhile_le [of P "drop p buf"] by (simp add: skip_def)

lemma skip_pos: "p < length buf \<Longrightarrow> P (buf ! p) \<Longrightarrow> p < skip P buf p"
  by (cases "drop p buf") (auto simp: skip_def dest: hd_drop_conv_nth)

lemma skip_prefix: "p \<le> i \<Longrightarrow> i < skip P buf p \<Longrightarrow> i < length buf \<and> P (buf ! i)"
proof -
  assume i: "p \<le> i" "i < skip P buf p"
  have l: "length (takeWhile P (drop p buf)) \<le> length buf - p" using length_takeWhile_le [of P "drop p buf"] by simp
  have lt: "i - p < length (takeWhile P (drop p buf))" using i by (simp add: skip_def)
  then have "P (takeWhile P (drop p buf) ! (i - p))" using set_takeWhileD nth_mem by fastforce
  moreover have "takeWhile P (drop p buf) ! (i - p) = drop p buf ! (i - p)" by (rule takeWhile_nth [OF lt])
  ultimately show ?thesis using i lt l by simp
qed

lemma skip_stop: "p \<le> length buf \<Longrightarrow> skip P buf p < length buf \<Longrightarrow> \<not> P (buf ! skip P buf p)"
  using nth_length_takeWhile [of P "drop p buf"] by (simp add: skip_def)

lemma char_at_nul: "char_at buf p \<noteq> nul \<Longrightarrow> p < length buf"
  by (simp add: char_at_def split: if_splits)

lemma skip_ws_word:
  assumes "p \<le> length buf" and "char_at buf (skip is_ws buf p) \<noteq> nul" and "char_at buf (skip is_ws buf p) \<notin> set symbols"
  shows "is_word (buf ! skip is_ws buf p)"
  using assms skip_stop [OF assms(1), of is_ws] char_at_nul [OF assms(2)]
  by (auto simp: is_word_def is_ws_def char_at_def)

text \<open>A scan stays within the line, and a token that is not the end of it takes at least one character.\<close>

lemma gettoken_bounds:
  assumes "gettoken buf p = (ret, q, eq, p')" and "p \<le> length buf"
  shows "p \<le> q" "q \<le> eq" "eq \<le> p'" "p' \<le> length buf" "ret \<noteq> Tok_end \<Longrightarrow> q < eq"
proof -
  let ?q = "skip is_ws buf p"
  note b = skip_bounds [OF assms(2), of is_ws]
  have s: "?q < length buf \<Longrightarrow> ?q < skip is_word buf ?q \<and> skip is_word buf ?q \<le> length buf"
    if "char_at buf ?q \<noteq> nul" "char_at buf ?q \<notin> set ''|();&<''" "char_at buf ?q \<noteq> CHR ''>''"
    using skip_pos [of ?q buf is_word] skip_bounds [of ?q buf is_word] skip_ws_word [OF assms(2) that(1)] that by (simp add: symbols_def)
  have "p \<le> q \<and> q \<le> eq \<and> eq \<le> length buf \<and> p' = skip is_ws buf eq \<and> (ret \<noteq> Tok_end \<longrightarrow> q < eq)"
    using assms(1) b s char_at_nul [of buf ?q] char_at_nul [of buf "?q + 1"]
    by (auto simp: gettoken_def Let_def split: if_splits)
  then show "p \<le> q" "q \<le> eq" "eq \<le> p'" "p' \<le> length buf" "ret \<noteq> Tok_end \<Longrightarrow> q < eq"
    using skip_bounds [of eq buf is_ws] by auto
qed

lemma peek_bounds:
  assumes "peek buf p toks = (b, p')" and "p \<le> length buf"
  shows "p \<le> p'" "p' \<le> length buf" "b \<Longrightarrow> p' < length buf \<and> buf ! p' \<in> set toks \<and> buf ! p' \<noteq> nul"
  using assms skip_bounds [OF assms(2), of is_ws] char_at_nul [of buf p']
  by (auto simp: peek_def Let_def char_at_def split: if_splits)

text \<open>After a successful \<open>peek\<close> the next token is there.\<close>

lemma peek_gettoken:
  assumes "peek buf p toks = (True, p1)" and "p \<le> length buf" and "gettoken buf p1 = (ret, q, eq, p2)"
  shows "p < p2" "p2 \<le> length buf"
proof -
  note pk = peek_bounds [OF assms(1,2)]
  have "p1 \<le> length buf" using pk by simp
  note g = gettoken_bounds [OF assms(3) this]
  have "skip is_ws buf p1 = p1"
  proof -
    have "p1 = skip is_ws buf p" using assms(1) by (simp add: peek_def Let_def)
    then have "\<not> is_ws (buf ! p1)" using skip_stop [OF assms(2), of is_ws] pk by simp
    then show ?thesis using pk by (cases "drop p1 buf") (auto simp: skip_def dest: hd_drop_conv_nth)
  qed
  then have "ret \<noteq> Tok_end" using assms(3) pk by (auto simp: gettoken_def Let_def char_at_def split: if_splits)
  then have "q < eq" using g by simp
  then show "p < p2" "p2 \<le> length buf" using g pk by simp_all
qed

lemma peek_le: "peek buf p toks = (True, p1) \<Longrightarrow> p < length buf"
proof -
  assume a: "peek buf p toks = (True, p1)"
  have "p \<le> skip is_ws buf p" by (simp add: skip_def)
  then show ?thesis using a char_at_nul [of buf "skip is_ws buf p"] by (auto simp: peek_def Let_def)
qed

lemma peek_redir:
  assumes "peek buf p toks = (True, p1)" and "gettoken buf p1 = (t1, q1, e1, p2)" and "gettoken buf p2 = (t2, q2, e2, p3)"
  shows "p < p3" "p3 \<le> length buf"
proof -
  have p: "p \<le> length buf" using peek_le [OF assms(1)] by simp
  note g = peek_gettoken [OF assms(1) p assms(2)]
  from gettoken_bounds [OF assms(3) g(2)] g show "p < p3" "p3 \<le> length buf" by simp_all
qed

section \<open>Parser\<close>

definition O_RDONLY :: nat where "O_RDONLY = 0"
definition O_WRONLY :: nat where "O_WRONLY = 1"
definition O_RDWR :: nat where "O_RDWR = 2"
definition O_CREATE :: nat where "O_CREATE = 0x200"

function parseredirs :: "string \<Rightarrow> cmd \<Rightarrow> nat \<Rightarrow> (cmd \<times> nat) kres" where
  "parseredirs buf cmd p =
     (case peek buf p ''<>'' of
       (False, p) \<Rightarrow> Ok (cmd, p)
     | (True, p) \<Rightarrow>
         (case gettoken buf p of (tok, _, _, p) \<Rightarrow>
          case gettoken buf p of (tok2, q, eq, p) \<Rightarrow>
          if tok2 \<noteq> Tok_word then Panic ''missing file for redirection''
          else if tok = Tok_sym (CHR ''<'') then parseredirs buf (redircmd cmd q eq O_RDONLY 0) p
          else parseredirs buf (redircmd cmd q eq (O_WRONLY OR O_CREATE) 1) p))"
  by pat_completeness auto
termination
proof (relation "measure (\<lambda>(buf, cmd, p). length buf - p)", goal_cases)
  case (2 buf cmd p b p1 tok r1 q1 r2 e1 p2 tok2 r3 q r4 eq p3)
  then show ?case using peek_redir [of buf p "''<>''" p1 tok q1 e1 p2 tok2 q eq p3] by auto
next
  case (3 buf cmd p b p1 tok r1 q1 r2 e1 p2 tok2 r3 q r4 eq p3)
  then show ?case using peek_redir [of buf p "''<>''" p1 tok q1 e1 p2 tok2 q eq p3] by auto
qed simp

declare parseredirs.simps [simp del]

text \<open>\<open>while(peek(ps, es, "&"))\<close> of \<open>parseline\<close>.\<close>

function parse_backs :: "string \<Rightarrow> cmd \<Rightarrow> nat \<Rightarrow> cmd \<times> nat" where
  "parse_backs buf cmd p =
     (case peek buf p ''&'' of
        (False, p) \<Rightarrow> (cmd, p)
      | (True, p) \<Rightarrow> (case gettoken buf p of (_, _, _, p) \<Rightarrow> parse_backs buf (backcmd cmd) p))"
  by pat_completeness auto
termination
proof (relation "measure (\<lambda>(buf, cmd, p). length buf - p)", goal_cases)
  case (2 buf cmd p b p1 t r1 q r2 eq p2)
  then show ?case using peek_gettoken [of buf p "''&''" p1 t q eq p2] peek_le [of buf p "''&''" p1] by auto
qed simp

declare parse_backs.simps [simp del]

text \<open>The loop over the arguments in \<open>parseexec\<close>.\<close>

function parse_args :: "string \<Rightarrow> cmd \<Rightarrow> nat \<Rightarrow> nat \<Rightarrow> (cmd \<times> nat) kres" where
  "parse_args buf ret argc p =
     (case peek buf p ''|)&;'' of
        (True, p) \<Rightarrow> Ok (ret, p)
      | (False, p) \<Rightarrow>
          (case gettoken buf p of (tok, q, eq, p) \<Rightarrow>
           if tok = Tok_end then Ok (ret, p)
           else if tok \<noteq> Tok_word then Panic ''syntax''
           else if argc + 1 \<ge> MAXARGS then Panic ''too many args''
           else kbind (parseredirs buf (push_arg (q, eq) ret) p) (\<lambda>(ret, p). parse_args buf ret (argc + 1) p)))"
  by pat_completeness auto
termination by (relation "measure (\<lambda>(buf, ret, argc, p). MAXARGS - argc)") auto

declare parse_args.simps [simp del]

fun parseline :: "nat \<Rightarrow> string \<Rightarrow> nat \<Rightarrow> (cmd \<times> nat) kres"
  and parsepipe :: "nat \<Rightarrow> string \<Rightarrow> nat \<Rightarrow> (cmd \<times> nat) kres"
  and parseexec :: "nat \<Rightarrow> string \<Rightarrow> nat \<Rightarrow> (cmd \<times> nat) kres"
  and parseblock :: "nat \<Rightarrow> string \<Rightarrow> nat \<Rightarrow> (cmd \<times> nat) kres" where
  "parseline 0 buf p = Loops"
| "parseline (Suc n) buf p =
     kbind (parsepipe n buf p) (\<lambda>(cmd, p).
       case parse_backs buf cmd p of (cmd, p) \<Rightarrow>
       case peek buf p '';'' of
         (True, p) \<Rightarrow> (case gettoken buf p of (_, _, _, p) \<Rightarrow>
                       kbind (parseline n buf p) (\<lambda>(right, p). Ok (listcmd cmd right, p)))
       | (False, p) \<Rightarrow> Ok (cmd, p))"
| "parsepipe 0 buf p = Loops"
| "parsepipe (Suc n) buf p =
     kbind (parseexec n buf p) (\<lambda>(cmd, p).
       case peek buf p ''|'' of
         (True, p) \<Rightarrow> (case gettoken buf p of (_, _, _, p) \<Rightarrow>
                       kbind (parsepipe n buf p) (\<lambda>(right, p). Ok (pipecmd cmd right, p)))
       | (False, p) \<Rightarrow> Ok (cmd, p))"
| "parseexec 0 buf p = Loops"
| "parseexec (Suc n) buf p =
     (case peek buf p ''('' of
        (True, p) \<Rightarrow> parseblock n buf p
      | (False, p) \<Rightarrow> kbind (parseredirs buf execcmd p) (\<lambda>(ret, p). parse_args buf ret 0 p))"
| "parseblock 0 buf p = Loops"
| "parseblock (Suc n) buf p =
     (case peek buf p ''('' of
        (False, p) \<Rightarrow> Panic ''parseblock''
      | (True, p) \<Rightarrow>
          (case gettoken buf p of (_, _, _, p) \<Rightarrow>
           kbind (parseline n buf p) (\<lambda>(cmd, p).
             case peek buf p '')'' of
               (False, p) \<Rightarrow> Panic ''syntax - missing )''
             | (True, p) \<Rightarrow> (case gettoken buf p of (_, _, _, p) \<Rightarrow> parseredirs buf cmd p))))"

text \<open>The buffer here has its terminating NUL; every counted string gets one behind its last byte.\<close>

fun nulterminate :: "cmd \<Rightarrow> string \<Rightarrow> string" where
  "nulterminate (EXEC args) b = fold (\<lambda>(q, eq) b. b[eq := nul]) args b"
| "nulterminate (REDIR c q eq mode fd) b = (nulterminate c b)[eq := nul]"
| "nulterminate (PIPE l r) b = nulterminate r (nulterminate l b)"
| "nulterminate (LIST l r) b = nulterminate r (nulterminate l b)"
| "nulterminate (BACK c) b = nulterminate c b"

definition parse_fuel :: "string \<Rightarrow> nat" where
  "parse_fuel s = 4 * length s + 4"

definition parsecmd :: "string \<Rightarrow> (cmd \<times> string) kres" where
  "parsecmd s = kbind (parseline (parse_fuel s) s 0) (\<lambda>(cmd, p).
     case peek s p [] of (_, p) \<Rightarrow>
     if p \<noteq> length s then Panic ''syntax'' else Ok (cmd, nulterminate cmd (s @ [nul])))"

section \<open>Positions and tokens\<close>

definition tok_ok :: "string \<Rightarrow> nat \<times> nat \<Rightarrow> bool" where
  "tok_ok buf = (\<lambda>(q, eq). q < eq \<and> eq \<le> length buf \<and> (\<forall>i. q \<le> i \<and> i < eq \<longrightarrow> is_word (buf ! i)) \<and>
     (eq < length buf \<longrightarrow> \<not> is_word (buf ! eq)))"

fun toks :: "cmd \<Rightarrow> (nat \<times> nat) list" where
  "toks (EXEC args) = args"
| "toks (REDIR c q eq mode fd) = toks c @ [(q, eq)]"
| "toks (PIPE l r) = toks l @ toks r"
| "toks (LIST l r) = toks l @ toks r"
| "toks (BACK c) = toks c"

definition toks_ok :: "string \<Rightarrow> cmd \<Rightarrow> bool" where
  "toks_ok buf c \<longleftrightarrow> (\<forall>t \<in> set (toks c). tok_ok buf t)"

lemma toks_ok_simps [simp]:
  "toks_ok buf execcmd" "toks_ok buf (pipecmd l r) \<longleftrightarrow> toks_ok buf l \<and> toks_ok buf r"
  "toks_ok buf (listcmd l r) \<longleftrightarrow> toks_ok buf l \<and> toks_ok buf r" "toks_ok buf (backcmd c) \<longleftrightarrow> toks_ok buf c"
  "toks_ok buf (redircmd c q eq mode fd) \<longleftrightarrow> toks_ok buf c \<and> tok_ok buf (q, eq)"
  by (auto simp: toks_ok_def execcmd_def pipecmd_def listcmd_def backcmd_def redircmd_def)

lemma toks_push_arg: "set (toks (push_arg a c)) \<subseteq> insert a (set (toks c))"
  by (induction a c rule: push_arg.induct) auto

lemma toks_ok_push_arg: "toks_ok buf c \<Longrightarrow> tok_ok buf a \<Longrightarrow> toks_ok buf (push_arg a c)"
  using toks_push_arg [of a c] by (auto simp: toks_ok_def)

lemma gettoken_word:
  assumes "gettoken buf p = (Tok_word, q, eq, p')" and "p \<le> length buf"
  shows "tok_ok buf (q, eq)"
proof -
  have e: "q = skip is_ws buf p" "eq = skip is_word buf q" using assms(1) by (auto simp: gettoken_def Let_def split: if_splits)
  note b = gettoken_bounds [OF assms]
  have "q \<le> length buf" using b by simp
  then show ?thesis using b skip_prefix [of q _ is_word buf] skip_stop [of q buf is_word] by (auto simp: tok_ok_def e(2))
qed

text \<open>A result that is neither an endless loop nor breaks the tokens or leaves the line.\<close>

definition parsed :: "string \<Rightarrow> nat \<Rightarrow> (cmd \<times> nat) kres \<Rightarrow> bool" where
  "parsed buf p r \<longleftrightarrow> (\<forall>c p'. r = Ok (c, p') \<longrightarrow> p \<le> p' \<and> p' \<le> length buf \<and> toks_ok buf c)"

lemma parsed_Ok [simp]: "parsed buf p (Ok (c, p')) \<longleftrightarrow> p \<le> p' \<and> p' \<le> length buf \<and> toks_ok buf c"
  and parsed_Panic [simp]: "parsed buf p (Panic e)" and parsed_Loops [simp]: "parsed buf p Loops"
  by (auto simp: parsed_def)

lemma parsed_le: "parsed buf p' r \<Longrightarrow> p \<le> p' \<Longrightarrow> parsed buf p r"
  by (auto simp: parsed_def)

lemma parsed_kbind:
  assumes "parsed buf p r" and "\<And>c p'. r = Ok (c, p') \<Longrightarrow> p \<le> p' \<Longrightarrow> p' \<le> length buf \<Longrightarrow> toks_ok buf c \<Longrightarrow> parsed buf p (f (c, p'))"
  shows "parsed buf p (kbind r f)"
  using assms by (cases r) (auto simp: parsed_def)

lemma parseredirs_parsed:
  "p \<le> length buf \<Longrightarrow> toks_ok buf c \<Longrightarrow> parsed buf p (parseredirs buf c p) \<and> parseredirs buf c p \<noteq> Loops"
proof (induction "length buf - p" arbitrary: c p rule: less_induct)
  case less
  obtain b p1 where pk: "peek buf p ''<>'' = (b, p1)" by force
  note pb = peek_bounds [OF pk less.prems(1)]
  obtain t1 q1 e1 p2 where g1: "gettoken buf p1 = (t1, q1, e1, p2)" by (cases "gettoken buf p1")
  obtain t2 q2 e2 p3 where g2: "gettoken buf p2 = (t2, q2, e2, p3)" by (cases "gettoken buf p2")
  show ?case
  proof (cases "b \<and> t2 = Tok_word")
    case False
    then show ?thesis using pk pb g1 g2 less.prems by (cases b) (simp_all add: parseredirs.simps [of buf c p])
  next
    case True
    then have pk: "peek buf p ''<>'' = (True, p1)" using pk by simp
    note r = peek_redir [OF pk g1 g2]
    have "p2 \<le> length buf" using peek_gettoken [OF pk less.prems(1) g1] by simp
    then have w: "tok_ok buf (q2, e2)" using gettoken_word [of buf p2 q2 e2 p3] g2 True by simp
    let ?c = "if t1 = Tok_sym (CHR ''<'') then redircmd c q2 e2 O_RDONLY 0 else redircmd c q2 e2 (O_WRONLY OR O_CREATE) 1"
    have eq: "parseredirs buf c p = parseredirs buf ?c p3"
      using pk g1 g2 True by (simp add: parseredirs.simps [of buf c p])
    have "toks_ok buf ?c" using less.prems(2) w by simp
    moreover have "length buf - p3 < length buf - p" using r by simp
    ultimately have "parsed buf p3 (parseredirs buf ?c p3) \<and> parseredirs buf ?c p3 \<noteq> Loops"
      using less.hyps r(2) by blast
    then show ?thesis using r parsed_le [of buf p3 _ p] by (simp add: eq)
  qed
qed

lemma parse_backs_parsed:
  "p \<le> length buf \<Longrightarrow> toks_ok buf c \<Longrightarrow> parsed buf p (Ok (parse_backs buf c p))"
proof (induction "length buf - p" arbitrary: c p rule: less_induct)
  case less
  obtain b p1 where pk: "peek buf p ''&'' = (b, p1)" by force
  obtain t1 q1 e1 p2 where g1: "gettoken buf p1 = (t1, q1, e1, p2)" by (cases "gettoken buf p1")
  show ?case
  proof (cases b)
    case False
    then show ?thesis using pk peek_bounds [OF pk less.prems(1)] less.prems by (simp add: parse_backs.simps [of buf c p])
  next
    case True
    then have pk: "peek buf p ''&'' = (True, p1)" using pk by simp
    note r = peek_gettoken [OF pk less.prems(1) g1]
    have "length buf - p2 < length buf - p" "toks_ok buf (backcmd c)" using r less.prems(2) by simp_all
    then have "parsed buf p2 (Ok (parse_backs buf (backcmd c) p2))" using less.hyps r(2) by blast
    then show ?thesis using r parsed_le [of buf p2 _ p] pk g1 by (simp add: parse_backs.simps [of buf c p])
  qed
qed

lemma parse_args_parsed:
  "p \<le> length buf \<Longrightarrow> toks_ok buf c \<Longrightarrow> parsed buf p (parse_args buf c k p) \<and> parse_args buf c k p \<noteq> Loops"
proof (induction "MAXARGS - k" arbitrary: c k p rule: less_induct)
  case less
  obtain b p1 where pk: "peek buf p ''|)&;'' = (b, p1)" by force
  note pb = peek_bounds [OF pk less.prems(1)]
  obtain t1 q e p2 where g1: "gettoken buf p1 = (t1, q, e, p2)" by (cases "gettoken buf p1")
  note gb = gettoken_bounds [OF g1 pb(2)]
  show ?case
  proof (cases "\<not> b \<and> t1 = Tok_word \<and> k + 1 < MAXARGS")
    case False
    then show ?thesis using pk pb g1 gb less.prems by (cases b) (auto simp: parse_args.simps [of buf c k p])
  next
    case True
    let ?c = "push_arg (q, e) c" let ?r = "parseredirs buf ?c p2"
    have eq: "parse_args buf c k p = kbind ?r (\<lambda>(ret, p). parse_args buf ret (k + 1) p)"
      using pk g1 True by (simp add: parse_args.simps [of buf c k p])
    have "toks_ok buf ?c" using gettoken_word [of buf p1 q e p2] g1 True pb(2) less.prems(2) by (intro toks_ok_push_arg) simp_all
    with parseredirs_parsed [OF gb(4) this] have r: "parsed buf p2 ?r" "?r \<noteq> Loops" by simp_all
    have lt: "MAXARGS - (k + 1) < MAXARGS - k" using True by linarith
    have IH: "parsed buf p' (parse_args buf c' (k + 1) p') \<and> parse_args buf c' (k + 1) p' \<noteq> Loops"
      if "p' \<le> length buf" "toks_ok buf c'" for c' p' by (rule less.hyps [OF lt that])
    have "parsed buf p (kbind ?r (\<lambda>(ret, p). parse_args buf ret (k + 1) p))"
    proof (rule parsed_kbind, goal_cases)
      case 1
      show ?case using r(1) pb gb parsed_le [of buf p2 ?r p] by simp
    next
      case (2 c' p')
      from IH [OF 2(3,4)] 2(2) show ?case using parsed_le by (simp only: prod.case) blast
    qed
    moreover have "kbind ?r (\<lambda>(ret, p). parse_args buf ret (k + 1) p) \<noteq> Loops"
    proof (cases ?r)
      case (Ok x)
      obtain c' p' where x: "x = (c', p')" by (cases x)
      have "p' \<le> length buf" "toks_ok buf c'" using r(1) unfolding Ok x by simp_all
      then show ?thesis using IH [of p' c'] unfolding Ok x by simp
    qed (use r(2) in simp_all)
    ultimately show ?thesis by (simp add: eq)
  qed
qed

section \<open>Every line is parsed\<close>

text \<open>The step after a token that a \<open>peek\<close> has seen.\<close>

lemma after_peek:
  assumes "peek buf p ts = (True, p1)" and "gettoken buf p1 = (t, q, e, p2)" and "p \<le> length buf"
  shows "p < p2 \<and> p2 \<le> length buf \<and> p \<le> p1 \<and> p1 < p2"
proof -
  note pb = peek_bounds [OF assms(1,3)]
  have "skip is_ws buf p1 = p1"
  proof -
    have "p1 = skip is_ws buf p" using assms(1) by (simp add: peek_def Let_def)
    then have "\<not> is_ws (buf ! p1)" using skip_stop [OF assms(3), of is_ws] pb by simp
    then show ?thesis using pb by (cases "drop p1 buf") (auto simp: skip_def dest: hd_drop_conv_nth)
  qed
  then have "peek buf p1 ts = (True, p1)" using assms(1) by (auto simp: peek_def Let_def)
  from peek_gettoken [OF this _ assms(2)] pb show ?thesis by simp
qed

lemma kbind_total: "r \<noteq> Loops \<Longrightarrow> (\<And>x. r = Ok x \<Longrightarrow> f x \<noteq> Loops) \<Longrightarrow> kbind r f \<noteq> Loops"
  by (cases r) auto

lemma parser_parsed:
  "p \<le> length buf \<Longrightarrow> parsed buf p (parseline n buf p) \<and> parsed buf p (parsepipe n buf p) \<and>
    parsed buf p (parseexec n buf p) \<and> parsed buf p (parseblock n buf p)"
proof (induction n arbitrary: p)
  case (Suc n)
  note p = Suc.prems
  have IH: "parsed buf p (parseline n buf p)" "parsed buf p (parsepipe n buf p)" "parsed buf p (parseexec n buf p)"
    "parsed buf p (parseblock n buf p)" if "p \<le> length buf" for p using Suc.IH [OF that] by simp_all
  have "parsed buf p (parseline (Suc n) buf p)"
    unfolding parseline.simps
  proof (rule parsed_kbind [OF IH(2) [OF p]], goal_cases)
    case (1 c p1)
    note 1 = 1(2-4)
    obtain c2 p2 where pb: "parse_backs buf c p1 = (c2, p2)" by force
    have 2: "p1 \<le> p2" "p2 \<le> length buf" "toks_ok buf c2" using parse_backs_parsed [OF 1(2,3)] pb by simp_all
    obtain b p3 where pk: "peek buf p2 '';'' = (b, p3)" by force
    obtain t q e p4 where g: "gettoken buf p3 = (t, q, e, p4)" by (cases "gettoken buf p3")
    have "parsed buf p (kbind (parseline n buf p4) (\<lambda>(right, p). Ok (listcmd c2 right, p)))" if b
    proof (rule parsed_kbind)
      from that after_peek [of buf p2 "'';''" p3 t q e p4] pk g 2 1 have "p \<le> p4" "p4 \<le> length buf" by auto
      then show "parsed buf p (parseline n buf p4)" using IH(1) parsed_le by blast
    qed (use 2 in auto)
    then show ?case
      using pb pk g 1 2 peek_bounds [OF pk 2(2)] by (cases b) simp_all
  qed
  moreover have "parsed buf p (parsepipe (Suc n) buf p)"
    unfolding parsepipe.simps
  proof (rule parsed_kbind [OF IH(3) [OF p]], goal_cases)
    case (1 c p2)
    note 2 = 1(2-4)
    obtain b p3 where pk: "peek buf p2 ''|'' = (b, p3)" by force
    obtain t q e p4 where g: "gettoken buf p3 = (t, q, e, p4)" by (cases "gettoken buf p3")
    have "parsed buf p (kbind (parsepipe n buf p4) (\<lambda>(right, p). Ok (pipecmd c right, p)))" if b
    proof (rule parsed_kbind)
      from that after_peek [of buf p2 "''|''" p3 t q e p4] pk g 2 have "p \<le> p4" "p4 \<le> length buf" by auto
      then show "parsed buf p (parsepipe n buf p4)" using IH(2) parsed_le by blast
    qed (use 2 in auto)
    then show ?case
      using pk g 2 peek_bounds [OF pk 2(2)] by (cases b) simp_all
  qed
  moreover have "parsed buf p (parseexec (Suc n) buf p)"
  proof -
    obtain b p1 where pk: "peek buf p ''('' = (b, p1)" by force
    note pb = peek_bounds [OF pk p]
    have "parsed buf p (kbind (parseredirs buf execcmd p1) (\<lambda>(ret, p). parse_args buf ret 0 p))"
      using parseredirs_parsed [OF pb(2), of execcmd] pb(1)
      by (intro parsed_kbind) (auto intro: parsed_le dest: parse_args_parsed)
    moreover have "parsed buf p (parseblock n buf p1)" using IH(4) [OF pb(2)] parsed_le pb(1) by blast
    ultimately show ?thesis using pk by (cases b) simp_all
  qed
  moreover have "parsed buf p (parseblock (Suc n) buf p)"
  proof -
    obtain b p1 where pk: "peek buf p ''('' = (b, p1)" by force
    obtain t q e p2 where g: "gettoken buf p1 = (t, q, e, p2)" by (cases "gettoken buf p1")
    have "parsed buf p (kbind (parseline n buf p2) (\<lambda>(cmd, p).
             case peek buf p '')'' of
               (False, p) \<Rightarrow> Panic ''syntax - missing )''
             | (True, p) \<Rightarrow> (case gettoken buf p of (_, _, _, p) \<Rightarrow> parseredirs buf cmd p)))" if b
    proof (rule parsed_kbind, goal_cases)
      case 1
      from that after_peek [of buf p "''(''" p1 t q e p2] pk g p have "p \<le> p2" "p2 \<le> length buf" by auto
      then show ?case using IH(1) parsed_le by blast
    next
      case (2 c p3)
      obtain b' p4 where pk': "peek buf p3 '')'' = (b', p4)" by force
      obtain t' q' e' p5 where g': "gettoken buf p4 = (t', q', e', p5)" by (cases "gettoken buf p4")
      have "parsed buf p (parseredirs buf c p5)" if b'
      proof -
        from that after_peek [of buf p3 "'')''" p4 t' q' e' p5] pk' g' 2 have "p \<le> p5" "p5 \<le> length buf" by auto
        then show ?thesis using parseredirs_parsed [of p5 buf c] 2(4) parsed_le by blast
      qed
      then show ?case using pk' g' by (cases b') simp_all
    qed
    then show ?thesis using pk g by (cases b) simp_all
  qed
  ultimately show ?case by blast
qed simp

lemma peek_nul: "peek buf p ts = (True, p1) \<Longrightarrow> p \<le> length buf \<Longrightarrow> p1 < length buf"
  using peek_bounds [of buf p ts True p1] by simp

text \<open>Enough fuel: four calls per character, and the chain of calls on an empty rest.\<close>

lemma parser_total:
  "p \<le> length buf \<Longrightarrow>
   (n \<ge> 4 * (length buf - p) + 4 \<longrightarrow> parseline n buf p \<noteq> Loops) \<and>
   (n \<ge> 4 * (length buf - p) + 3 \<longrightarrow> parsepipe n buf p \<noteq> Loops) \<and>
   (n \<ge> 4 * (length buf - p) + 2 \<longrightarrow> parseexec n buf p \<noteq> Loops) \<and>
   (n \<ge> 4 * (length buf - p) + 1 \<longrightarrow> parseblock n buf p \<noteq> Loops)"
proof (induction n arbitrary: p)
  case (Suc n)
  note p = Suc.prems
  have IH: "n \<ge> 4 * (length buf - p) + 4 \<Longrightarrow> parseline n buf p \<noteq> Loops"
    "n \<ge> 4 * (length buf - p) + 3 \<Longrightarrow> parsepipe n buf p \<noteq> Loops"
    "n \<ge> 4 * (length buf - p) + 2 \<Longrightarrow> parseexec n buf p \<noteq> Loops"
    "n \<ge> 4 * (length buf - p) + 1 \<Longrightarrow> parseblock n buf p \<noteq> Loops" if "p \<le> length buf" for p using Suc.IH [OF that] by simp_all
  have "parseline (Suc n) buf p \<noteq> Loops" if n: "Suc n \<ge> 4 * (length buf - p) + 4"
    unfolding parseline.simps
  proof (rule kbind_total, goal_cases)
    case 1
    then show ?case using IH(2) [OF p] n by simp
  next
    case (2 x)
    obtain c p1 where x: "x = (c, p1)" by (cases x)
    have c1: "p \<le> p1" "p1 \<le> length buf" "toks_ok buf c" using parser_parsed [OF p, of n] 2 x by simp_all
    obtain c2 p2 where pb: "parse_backs buf c p1 = (c2, p2)" by force
    have p2: "p1 \<le> p2" "p2 \<le> length buf" using parse_backs_parsed [OF c1(2,3)] pb by simp_all
    obtain b p3 where pk: "peek buf p2 '';'' = (b, p3)" by force
    obtain t q e p4 where g: "gettoken buf p3 = (t, q, e, p4)" by (cases "gettoken buf p3")
    have "kbind (parseline n buf p4) (\<lambda>(right, p). Ok (listcmd c2 right, p)) \<noteq> Loops" if b
    proof (rule kbind_total, goal_cases)
      case 1
      from that after_peek [of buf p2 "'';''" p3 t q e p4] pk g p2 c1 have "p < p4" "p4 \<le> length buf" by auto
      then show ?case using IH(1) [of p4] n by simp
    qed auto
    then show ?case using pb pk g x by (cases b) simp_all
  qed
  moreover have "parsepipe (Suc n) buf p \<noteq> Loops" if n: "Suc n \<ge> 4 * (length buf - p) + 3"
    unfolding parsepipe.simps
  proof (rule kbind_total, goal_cases)
    case 1
    then show ?case using IH(3) [OF p] n by simp
  next
    case (2 x)
    obtain c p2 where x: "x = (c, p2)" by (cases x)
    have c1: "p \<le> p2" "p2 \<le> length buf" using parser_parsed [OF p, of n] 2 x by simp_all
    obtain b p3 where pk: "peek buf p2 ''|'' = (b, p3)" by force
    obtain t q e p4 where g: "gettoken buf p3 = (t, q, e, p4)" by (cases "gettoken buf p3")
    have "kbind (parsepipe n buf p4) (\<lambda>(right, p). Ok (pipecmd c right, p)) \<noteq> Loops" if b
    proof (rule kbind_total, goal_cases)
      case 1
      from that after_peek [of buf p2 "''|''" p3 t q e p4] pk g c1 have "p < p4" "p4 \<le> length buf" by auto
      then show ?case using IH(2) [of p4] n by simp
    qed auto
    then show ?case using pk g x by (cases b) simp_all
  qed
  moreover have "parseexec (Suc n) buf p \<noteq> Loops" if n: "Suc n \<ge> 4 * (length buf - p) + 2"
  proof -
    obtain b p1 where pk: "peek buf p ''('' = (b, p1)" by force
    note pb = peek_bounds [OF pk p]
    have "parseblock n buf p1 \<noteq> Loops" using IH(4) [OF pb(2)] n pb(1) by simp
    moreover have "kbind (parseredirs buf execcmd p1) (\<lambda>(ret, p). parse_args buf ret 0 p) \<noteq> Loops"
      using parseredirs_parsed [OF pb(2), of execcmd]
      by (intro kbind_total) (auto dest!: parse_args_parsed simp: parsed_def)
    ultimately show ?thesis using pk by (cases b) simp_all
  qed
  moreover have "parseblock (Suc n) buf p \<noteq> Loops" if n: "Suc n \<ge> 4 * (length buf - p) + 1"
  proof -
    obtain b p1 where pk: "peek buf p ''('' = (b, p1)" by force
    obtain t q e p2 where g: "gettoken buf p1 = (t, q, e, p2)" by (cases "gettoken buf p1")
    have "kbind (parseline n buf p2) (\<lambda>(cmd, p). case peek buf p '')'' of
               (False, p) \<Rightarrow> Panic ''syntax - missing )''
             | (True, p) \<Rightarrow> (case gettoken buf p of (_, _, _, p) \<Rightarrow> parseredirs buf cmd p)) \<noteq> Loops" if b
    proof (rule kbind_total, goal_cases)
      from that after_peek [of buf p "''(''" p1 t q e p2] pk g p have p2: "p < p2" "p2 \<le> length buf" by auto
      {
        case 1
        show ?case using IH(1) [OF p2(2)] p2 n by simp
      next
        case (2 x)
        obtain c p3 where x: "x = (c, p3)" by (cases x)
        have 3: "p3 \<le> length buf" "toks_ok buf c" using parser_parsed [OF p2(2), of n] 2 x by simp_all
        obtain b' p4 where pk': "peek buf p3 '')'' = (b', p4)" by force
        obtain t' q' e' p5 where g': "gettoken buf p4 = (t', q', e', p5)" by (cases "gettoken buf p4")
        have "parseredirs buf c p5 \<noteq> Loops" if b'
          using that after_peek [of buf p3 "'')''" p4 t' q' e' p5] pk' g' 3 parseredirs_parsed [of p5 buf c] by simp
        then show ?case using pk' g' x by (cases b') simp_all
      }
    qed
    then show ?thesis using pk g by (cases b) simp_all
  qed
  ultimately show ?case by blast
qed simp

lemma kbind_more:
  assumes "kbind r f \<noteq> Loops" and "r \<noteq> Loops \<Longrightarrow> r' = r" and "\<And>x. r = Ok x \<Longrightarrow> f x \<noteq> Loops \<Longrightarrow> f' x = f x"
  shows "kbind r' f' = kbind r f"
  using assms by (cases r) auto

text \<open>More fuel changes no result.\<close>

lemma parser_more_fuel:
  "(parseline n buf p \<noteq> Loops \<longrightarrow> parseline (n + k) buf p = parseline n buf p) \<and>
   (parsepipe n buf p \<noteq> Loops \<longrightarrow> parsepipe (n + k) buf p = parsepipe n buf p) \<and>
   (parseexec n buf p \<noteq> Loops \<longrightarrow> parseexec (n + k) buf p = parseexec n buf p) \<and>
   (parseblock n buf p \<noteq> Loops \<longrightarrow> parseblock (n + k) buf p = parseblock n buf p)"
proof (induction n arbitrary: p)
  case (Suc n)
  have IH: "parseline n buf p \<noteq> Loops \<Longrightarrow> parseline (n + k) buf p = parseline n buf p"
    "parsepipe n buf p \<noteq> Loops \<Longrightarrow> parsepipe (n + k) buf p = parsepipe n buf p"
    "parseexec n buf p \<noteq> Loops \<Longrightarrow> parseexec (n + k) buf p = parseexec n buf p"
    "parseblock n buf p \<noteq> Loops \<Longrightarrow> parseblock (n + k) buf p = parseblock n buf p" for p using Suc.IH [of p] by simp_all
  have "parseline (Suc n + k) buf p = parseline (Suc n) buf p" if "parseline (Suc n) buf p \<noteq> Loops"
    using that unfolding add_Suc parseline.simps
    by (elim kbind_more) (auto simp: IH split: prod.splits bool.splits elim!: kbind_more)
  moreover have "parsepipe (Suc n + k) buf p = parsepipe (Suc n) buf p" if "parsepipe (Suc n) buf p \<noteq> Loops"
    using that unfolding add_Suc parsepipe.simps
    by (elim kbind_more) (auto simp: IH split: prod.splits bool.splits elim!: kbind_more)
  moreover have "parseexec (Suc n + k) buf p = parseexec (Suc n) buf p" if "parseexec (Suc n) buf p \<noteq> Loops"
    using that unfolding add_Suc parseexec.simps by (auto simp: IH split: prod.splits bool.splits)
  moreover have "parseblock (Suc n + k) buf p = parseblock (Suc n) buf p" if "parseblock (Suc n) buf p \<noteq> Loops"
    using that unfolding add_Suc parseblock.simps by (auto simp: IH split: prod.splits bool.splits elim!: kbind_more)
  ultimately show ?case by blast
qed simp

text \<open>
  C27. The parser of the shell always comes to an end: whatever the line, the calls of \<open>parseline\<close>,
  \<open>parsepipe\<close>, \<open>parseexec\<close> and \<open>parseblock\<close> return within the chosen number of nested calls (so any
  larger number gives the same result), and \<open>parsecmd\<close> yields a command or a syntax error.
\<close>
theorem parsecmd_terminates:
  "parsecmd s \<noteq> Loops \<and> parseline (parse_fuel s + k) s 0 = parseline (parse_fuel s) s 0"
proof -
  have l: "parseline (parse_fuel s) s 0 \<noteq> Loops" using parser_total [of 0 s "parse_fuel s"] by (simp add: parse_fuel_def)
  then have "parsecmd s \<noteq> Loops" unfolding parsecmd_def by (rule kbind_total) (auto split: prod.splits)
  then show ?thesis using parser_more_fuel [of "parse_fuel s" s 0 k] l by simp
qed

section \<open>The strings of a command\<close>

lemma fold_nul: "fold (\<lambda>(q, eq) b. b[eq := nul]) args b = fold (\<lambda>i b. b[i := nul]) (map snd args) b"
  by (induction args arbitrary: b) auto

lemma fold_nul_nth: "i < length b \<Longrightarrow> fold (\<lambda>i b. b[i := nul]) is b ! i = (if i \<in> set is then nul else b ! i)"
  by (induction "is" arbitrary: b) (auto simp: nth_list_update)

lemma length_fold_nul [simp]: "length (fold (\<lambda>i b. b[i := nul]) is b) = length b"
  by (induction "is" arbitrary: b) auto

lemma nulterminate_fold: "nulterminate c b = fold (\<lambda>i b. b[i := nul]) (map snd (toks c)) b"
  by (induction c arbitrary: b) (auto simp: fold_nul)

lemma takeWhile_run:
  assumes "q + k < length b" and "\<And>i. i < k \<Longrightarrow> b ! (q + i) \<noteq> nul" and "b ! (q + k) = nul"
  shows "takeWhile (\<lambda>c. c \<noteq> nul) (drop q b) = take k (drop q b)"
  using assms by (intro takeWhile_eq_take_P_nth) auto

lemma nulterminate_string:
  assumes ok: "toks_ok s c" and t: "(q, eq) \<in> set (toks c)" and "nul \<notin> set s"
  shows "takeWhile (\<lambda>c. c \<noteq> nul) (drop q (nulterminate c (s @ [nul]))) = take (eq - q) (drop q s)"
proof -
  let ?b = "nulterminate c (s @ [nul])"
  have to: "q < eq" "eq \<le> length s" "\<And>i. q \<le> i \<Longrightarrow> i < eq \<Longrightarrow> is_word (s ! i)"
    using ok t by (auto simp: toks_ok_def tok_ok_def)
  have nth: "?b ! i = (if i \<in> snd ` set (toks c) then nul else (s @ [nul]) ! i)" if "i \<le> length s" for i
    using that fold_nul_nth [of i "s @ [nul]" "map snd (toks c)"] by (simp add: nulterminate_fold)
  have keep: "?b ! (q + i) = s ! (q + i)" if "i < eq - q" for i
  proof -
    have w: "is_word (s ! (q + i))" and lt: "q + i < length s" using to that by auto
    have "q + i \<notin> snd ` set (toks c)"
    proof
      assume "q + i \<in> snd ` set (toks c)"
      then obtain r where "tok_ok s (r, q + i)" using ok by (auto simp: toks_ok_def)
      then show False using w lt by (simp add: tok_ok_def)
    qed
    then show ?thesis using nth [of "q + i"] lt by (simp add: nth_append)
  qed
  have lb: "length ?b = length s + 1" by (simp add: nulterminate_fold)
  have "takeWhile (\<lambda>c. c \<noteq> nul) (drop q ?b) = take (eq - q) (drop q ?b)"
  proof (rule takeWhile_run)
    show "q + (eq - q) < length ?b" using to lb by simp
    show "?b ! (q + i) \<noteq> nul" if "i < eq - q" for i
      using keep [OF that] assms(3) to that by (auto simp: in_set_conv_nth)
    show "?b ! (q + (eq - q)) = nul" using nth [of eq] to t by (force simp: image_iff)
  qed
  also have "\<dots> = take (eq - q) (drop q s)"
    using keep to lb by (intro nth_equalityI) auto
  finally show ?thesis .
qed

text \<open>
  C22. The strings of a parsed command are its words: after \<open>nulterminate\<close>, reading the buffer from an
  argument or file pointer up to the NUL gives exactly the characters of that word of the line, no
  terminator having been written into another word, and a word contains no blank and no symbol.
\<close>
theorem parsecmd_strings:
  assumes "parsecmd s = Ok (c, b)" and "nul \<notin> set s" and "(q, eq) \<in> set (toks c)"
  shows "q < eq \<and> eq \<le> length s \<and> takeWhile (\<lambda>x. x \<noteq> nul) (drop q b) = take (eq - q) (drop q s) \<and>
    (\<forall>x \<in> set (take (eq - q) (drop q s)). is_word x)"
proof -
  from assms(1) obtain c' p where p': "parseline (parse_fuel s) s 0 = Ok (c', p)"
    and k: "(case peek s p [] of (_, p) \<Rightarrow> if p \<noteq> length s then Panic ''syntax'' else Ok (c', nulterminate c' (s @ [nul]))) = Ok (c, b)"
    unfolding parsecmd_def kbind_Ok by auto
  then have p: "parseline (parse_fuel s) s 0 = Ok (c, p)" and b: "b = nulterminate c (s @ [nul])"
    by (auto split: prod.split_asm if_split_asm)
  have ok: "toks_ok s c" using parser_parsed [of 0 s "parse_fuel s"] p by (simp add: parsed_def)
  then have to: "q < eq" "eq \<le> length s" "\<And>i. q \<le> i \<Longrightarrow> i < eq \<Longrightarrow> is_word (s ! i)"
    using assms(3) by (auto simp: toks_ok_def tok_ok_def)
  have "is_word x" if x: "x \<in> set (take (eq - q) (drop q s))" for x
  proof -
    obtain i where "i < length (take (eq - q) (drop q s))" "x = take (eq - q) (drop q s) ! i" using x by (metis in_set_conv_nth)
    then show ?thesis using to by simp
  qed
  then show ?thesis using nulterminate_string [OF ok assms(3,2)] to by (simp add: b)
qed

theorem parsecmd_strings_witness:
  "\<exists>c b. parsecmd ''ls|wc>x'' = Ok (c, b) \<and> (3, 5) \<in> set (toks c) \<and> takeWhile (\<lambda>x. x \<noteq> nul) (drop 3 b) = ''wc''"
proof -
  let ?s = "''ls|wc>x''"
  let ?c = "PIPE (EXEC [(0, 2)]) (REDIR (EXEC [(3, 5)]) 6 7 513 1)"
  have "parsecmd ?s = Ok (?c, nulterminate ?c (?s @ [nul]))" by code_simp
  with parsecmd_strings [OF this, of 3 5] show ?thesis by (intro exI [of _ ?c]) auto
qed

end
