(* ===== verification/Sh_Run.thy ===== *)
theory Sh_Run
  imports Sh_Parse
begin

text \<open>
  \<open>runcmd\<close> of \<open>src/P1/xv6/xv6/user/sh.c\<close>: what processes a command tree starts and which open
  files each of them has. A process is followed to its end (\<open>exec\<close>, exit or panic); \<open>fork1\<close> gives a
  child and the parent that goes on, and a process that waits for a child keeps its open files
  meanwhile. The outcome of the system calls that can fail (\<open>exec\<close>, \<open>open\<close>, \<open>fork\<close>, \<open>pipe\<close>)
  is an argument, asked at the place of the command tree where the call is made.
\<close>

section \<open>Open files of a process\<close>

definition NOFILE :: nat where "NOFILE = 16"

text \<open>What a descriptor refers to: something inherited, a file opened here, an end of a pipe made here.\<close>

datatype obj = Inherited nat | File nat nat nat | Pipe_read "nat list" | Pipe_write "nat list"

type_synonym fds = "nat \<Rightarrow> obj option"

text \<open>\<open>open\<close>, \<open>dup\<close> and \<open>pipe\<close> take the lowest free descriptors (\<open>fdalloc\<close>).\<close>

definition fd_lowest :: "fds \<Rightarrow> nat option" where
  "fd_lowest t = find (\<lambda>fd. t fd = None) [0..<NOFILE]"

definition fd_close :: "nat \<Rightarrow> fds \<Rightarrow> fds" where
  "fd_close fd t = t(fd := None)"

definition fd_add :: "obj \<Rightarrow> fds \<Rightarrow> (nat \<times> fds) option" where
  "fd_add ob t = map_option (\<lambda>fd. (fd, t(fd \<mapsto> ob))) (fd_lowest t)"

definition fd_dup :: "nat \<Rightarrow> fds \<Rightarrow> fds" where
  "fd_dup fd t = (case t fd of None \<Rightarrow> t | Some ob \<Rightarrow> (case fd_add ob t of None \<Rightarrow> t | Some (_, t) \<Rightarrow> t))"

definition fd_pipe :: "nat list \<Rightarrow> fds \<Rightarrow> (nat \<times> nat \<times> fds) option" where
  "fd_pipe path t = (case fd_add (Pipe_read path) t of
     None \<Rightarrow> None
   | Some (p0, t) \<Rightarrow> (case fd_add (Pipe_write path) t of None \<Rightarrow> None | Some (p1, t) \<Rightarrow> Some (p0, p1, t)))"

section \<open>Running a command\<close>

text \<open>
  \<open>Exec_failed\<close> and \<open>Open_failed\<close> print a message with the name on descriptor 2 and exit, \<open>Died\<close> is
  the shell's \<open>panic\<close>; \<open>Waits t r\<close> is a process that waits with the open files \<open>t\<close> and then goes on.
\<close>

datatype run =
    Exec "(nat \<times> nat) list" fds
  | Exec_failed "nat \<times> nat" fds
  | Exit
  | Died string
  | Open_failed nat nat fds
  | Forked run run
  | Waits fds run

record sys =
  exec_ok :: "nat list \<Rightarrow> bool"
  open_ok :: "nat list \<Rightarrow> bool"
  fork_ok :: "nat list \<Rightarrow> bool"
  pipe_ok :: "nat list \<Rightarrow> bool"

definition fork1 :: "sys \<Rightarrow> nat list \<Rightarrow> run \<Rightarrow> run \<Rightarrow> run" where
  "fork1 e path child parent = (if fork_ok e path then Forked child parent else Died ''fork'')"

definition end_of_pipe :: "nat \<Rightarrow> nat \<Rightarrow> nat \<Rightarrow> nat \<Rightarrow> fds \<Rightarrow> fds" where
  "end_of_pipe fd p p0 p1 t = fd_close p1 (fd_close p0 (fd_dup p (fd_close fd t)))"

fun runcmd :: "sys \<Rightarrow> nat list \<Rightarrow> cmd \<Rightarrow> fds \<Rightarrow> run" where
  "runcmd e path (EXEC args) t = (if args = [] then Exit else if exec_ok e path then Exec args t else Exec_failed (hd args) t)"
| "runcmd e path (REDIR c q eq mode fd) t =
     (case (if open_ok e path then fd_add (File q eq mode) (fd_close fd t) else None) of
        None \<Rightarrow> Open_failed q eq (fd_close fd t)
      | Some (_, t) \<Rightarrow> runcmd e (0 # path) c t)"
| "runcmd e path (LIST l r) t =
     fork1 e path (runcmd e (0 # path) l t) (Waits t (runcmd e (1 # path) r t))"
| "runcmd e path (PIPE l r) t =
     (case (if pipe_ok e path then fd_pipe path t else None) of
        None \<Rightarrow> Died ''pipe''
      | Some (p0, p1, t) \<Rightarrow>
          let parent = fd_close p1 (fd_close p0 t) in
          fork1 e (2 # path) (runcmd e (0 # path) l (end_of_pipe 1 p1 p0 p1 t))
            (fork1 e (3 # path) (runcmd e (1 # path) r (end_of_pipe 0 p0 p0 p1 t)) (Waits parent (Waits parent Exit))))"
| "runcmd e path (BACK c) t = fork1 e path (runcmd e (0 # path) c t) Exit"

lemma fd_lowest_first: "t i = None \<Longrightarrow> \<forall>j < i. t j \<noteq> None \<Longrightarrow> i < NOFILE \<Longrightarrow> fd_lowest t = Some i"
  unfolding fd_lowest_def by (subst find_Some_iff) (auto intro!: exI [of _ i])

lemma fd_lowestD: "fd_lowest t = Some i \<Longrightarrow> t i = None \<and> i < NOFILE"
  unfolding fd_lowest_def by (auto dest: find_SomeD)

text \<open>
  C33. A pipeline is wired as it reads: when standard input and output are open and the calls succeed, the
  left command runs with the writing end of the new pipe as its output and the right one with the
  reading end as its input, every other descriptor of either is what the shell had, and neither
  keeps a second descriptor to the pipe; the shell itself waits for both with exactly the
  descriptors it had before, so that it holds no end of the pipe either (and the reader sees the
  end of input when the left command is done).
\<close>
theorem runcmd_pipe_wiring:
  assumes "t 0 \<noteq> None" and "t 1 \<noteq> None" and "pipe_ok e path" and "fd_pipe path t = Some (p0, p1, t')"
    and "fork_ok e (2 # path)" and "fork_ok e (3 # path)"
  shows "runcmd e path (PIPE l r) t =
    Forked (runcmd e (0 # path) l (t(1 \<mapsto> Pipe_write path)))
      (Forked (runcmd e (1 # path) r (t(0 \<mapsto> Pipe_read path))) (Waits t (Waits t Exit)))"
proof -
  from assms(4) have l: "fd_lowest t = Some p0" "fd_lowest (t(p0 \<mapsto> Pipe_read path)) = Some p1"
    and t': "t' = t(p0 \<mapsto> Pipe_read path, p1 \<mapsto> Pipe_write path)"
    by (auto simp: fd_pipe_def fd_add_def split: option.splits)
  have n: "t p0 = None" "t p1 = None" "p0 \<noteq> p1" using fd_lowestD [OF l(1)] fd_lowestD [OF l(2)] by (auto split: if_splits)
  then have d: "p0 \<noteq> 0" "p0 \<noteq> 1" "p1 \<noteq> 0" "p1 \<noteq> 1" using assms(1,2) by metis+
  have "fd_lowest (t'(1 := None)) = Some 1" "fd_lowest (t'(0 := None)) = Some 0"
    using assms(1,2) d by (auto intro!: fd_lowest_first simp: t' NOFILE_def less_Suc_eq)
  then have "end_of_pipe 1 p1 p0 p1 t' = t(1 \<mapsto> Pipe_write path)" "end_of_pipe 0 p0 p0 p1 t' = t(0 \<mapsto> Pipe_read path)"
    using d n by (auto simp: end_of_pipe_def fd_close_def fd_dup_def fd_add_def t' fun_eq_iff)
  moreover have "fd_close p1 (fd_close p0 t') = t" using n by (auto simp: fd_close_def t' fun_eq_iff)
  ultimately show ?thesis using assms by (simp add: fork1_def Let_def)
qed

theorem runcmd_pipe_wiring_witness:
  "runcmd \<lparr>exec_ok = \<lambda>_. True, open_ok = \<lambda>_. True, fork_ok = \<lambda>_. True, pipe_ok = \<lambda>_. True\<rparr> [] (PIPE (EXEC [(0, 2)]) (EXEC [(3, 5)])) [0 \<mapsto> Inherited 0, 1 \<mapsto> Inherited 1] =
    Forked (Exec [(0, 2)] [0 \<mapsto> Inherited 0, 1 \<mapsto> Pipe_write []]) (Forked (Exec [(3, 5)] [0 \<mapsto> Pipe_read [], 1 \<mapsto> Inherited 1])
      (Waits [0 \<mapsto> Inherited 0, 1 \<mapsto> Inherited 1] (Waits [0 \<mapsto> Inherited 0, 1 \<mapsto> Inherited 1] Exit)))"
proof -
  let ?t = "[0 \<mapsto> Inherited 0, 1 \<mapsto> Inherited 1] :: fds"
  have "fd_lowest ?t = Some 2" by (rule fd_lowest_first) (auto simp: NOFILE_def less_Suc_eq numeral_2_eq_2)
  moreover have "fd_lowest (?t(2 \<mapsto> Pipe_read [])) = Some 3" by (rule fd_lowest_first) (auto simp: NOFILE_def less_Suc_eq numeral_eq_Suc)
  ultimately have "fd_pipe [] ?t = Some (2, 3, ?t(2 \<mapsto> Pipe_read [], 3 \<mapsto> Pipe_write []))"
    by (simp add: fd_pipe_def fd_add_def)
  from runcmd_pipe_wiring [OF _ _ _ this, of "\<lparr>exec_ok = \<lambda>_. True, open_ok = \<lambda>_. True, fork_ok = \<lambda>_. True, pipe_ok = \<lambda>_. True\<rparr>" "EXEC [(0, 2)]" "EXEC [(3, 5)]"]
  show ?thesis by (simp add: fun_upd_twist)
qed

end
