(* ===== verification/Sh_Main.thy ===== *)
theory Sh_Main
  imports Sh_Run Cstring
begin

text \<open>
  The command loop of the shell, \<open>getcmd\<close> and \<open>main\<close> of \<open>src/P1/xv6/xv6/user/sh.c\<close>: lines are read through \<open>gets\<close> of the user library into
  a buffer of 100 bytes, \<open>cd\<close> is handled by the shell itself and everything else by a child. The input is the bytes descriptor 0 delivers; whether
  \<open>chdir\<close> succeeds and the outcome of the calls of the child are given.
\<close>

section \<open>sh.c: getcmd, main\<close>

definition text_of :: "byte list \<Rightarrow> string" where
  "text_of bs = map (\<lambda>b. char_of (unat b)) bs"

text \<open>The string \<open>getcmd\<close> leaves in the buffer, none at the end of the input.\<close>

definition getcmd :: "byte list \<Rightarrow> byte list option \<times> byte list" where
  "getcmd inp =
     (let (buf, rest) = gets inp 100; line = takeWhile (\<lambda>b. b \<noteq> 0) buf
      in (if line = [] then None else Some line, rest))"

datatype shell_event =
    Chdir string bool
  | Ran "run kres"

definition shell_step :: "sys \<Rightarrow> (string \<Rightarrow> bool) \<Rightarrow> fds \<Rightarrow> nat \<Rightarrow> byte list \<Rightarrow> shell_event" where
  "shell_step e chdir t i line =
     (if take 3 (text_of line) = ''cd '' then
        let path = drop 3 (butlast (text_of line)) in Chdir path (chdir path)
      else Ran (kbind (parsecmd (text_of line)) (\<lambda>(c, _). Ok (runcmd e [i] c t))))"

lemma gets_loop_rest: "gets_loop inp k acc = (buf, rest) \<Longrightarrow> length rest \<le> length inp \<and> (rest = inp \<longrightarrow> inp = [] \<or> k = 0)"
proof (induction inp k acc arbitrary: buf rest rule: gets_loop.induct)
  case (3 c inp k acc)
  then show ?case by (force split: if_splits)
qed auto

lemma gets_loop_empty: "gets_loop [] k acc = (acc @ [0], [])"
  by (cases k) auto

lemma gets_less:
  assumes "gets inp 100 = (buf, rest)" "takeWhile (\<lambda>b. b \<noteq> 0) buf \<noteq> []"
  shows "length rest < length inp"
proof -
  have g: "gets_loop inp 99 [] = (buf, rest)" using assms(1) by (simp add: gets_def)
  have "inp \<noteq> []" using assms(2) g by (auto simp: gets_loop_empty)
  then obtain c cs where inp: "inp = c # cs" by (cases inp) auto
  have n: "(99 :: nat) = Suc 98" by simp
  have "(c = 10 \<or> c = 13) \<and> rest = cs \<or> gets_loop cs 98 [c] = (buf, rest)"
    using g unfolding inp n gets_loop.simps(3) by (auto split: if_splits)
  then show ?thesis using gets_loop_rest [of cs 98 "[c]" buf rest] by (auto simp: inp)
qed

function shell_loop :: "sys \<Rightarrow> (string \<Rightarrow> bool) \<Rightarrow> fds \<Rightarrow> nat \<Rightarrow> byte list \<Rightarrow> shell_event list" where
  "shell_loop e chdir t i inp = (case getcmd inp of
     (None, rest) \<Rightarrow> []
   | (Some line, rest) \<Rightarrow>
       if take 3 (text_of line) = ''cd '' \<or> fork_ok e [i]
       then shell_step e chdir t i line # shell_loop e chdir t (Suc i) rest
       else [Ran (Panic ''fork'')])"
  by pat_completeness auto
termination
proof (relation "measure (\<lambda>(e, chdir, t, i, inp). length inp)", goal_cases)
  case (2 e chdir t i inp x rest line)
  then show ?case using gets_less [of inp] by (auto simp: getcmd_def Let_def split: prod.splits if_splits)
qed simp

declare shell_loop.simps [simp del]

section \<open>Every line is handled\<close>

lemma gets_loop_line:
  assumes "\<forall>c \<in> set body. c \<noteq> 10 \<and> c \<noteq> 13" "length body < k"
  shows "gets_loop (body @ 10 # rest) k acc = (acc @ body @ [10, 0], rest)"
  using assms
proof (induction body arbitrary: k acc)
  case Nil
  then show ?case by (cases k) auto
next
  case (Cons c body)
  then show ?case by (cases k) auto
qed

text \<open>A line as typed: printable bytes and the newline, short enough for the buffer.\<close>

definition typed_line :: "byte list \<Rightarrow> bool" where
  "typed_line l \<longleftrightarrow> (\<exists>body. l = body @ [10] \<and> (\<forall>c \<in> set body. c \<noteq> 0 \<and> c \<noteq> 10 \<and> c \<noteq> 13) \<and> length body < 99)"

lemma getcmd_line: "typed_line l \<Longrightarrow> getcmd (l @ rest) = (Some l, rest)"
  using gets_loop_line [of _ 99 rest "[]"] by (auto simp: typed_line_def getcmd_def gets_def takeWhile_append2)

text \<open>
  The shell takes its input line by line: on lines of less than 100 bytes it handles each of them once, in order, the \<open>cd\<close> lines itself with the
  path behind the blank and the others by parsing and running them in a child, as long as children can be created, and stops at the end of the input.
\<close>

theorem shell_handles_each_line:
  assumes "\<forall>l \<in> set ls. typed_line l" "\<forall>i. fork_ok e [i]"
  shows "shell_loop e chdir t i (concat ls) = map (\<lambda>(i, l). shell_step e chdir t i l) (enumerate i ls)"
  using assms(1)
proof (induction ls arbitrary: i)
  case Nil
  then show ?case by (simp add: shell_loop.simps getcmd_def gets_def gets_loop_empty)
next
  case (Cons l ls)
  then show ?case using assms(2) getcmd_line [of l "concat ls"] by (simp add: shell_loop.simps [of _ _ _ _ "l @ concat ls"])
qed

theorem shell_handles_each_line_witness:
  "shell_loop \<lparr>exec_ok = (\<lambda>_. True), open_ok = (\<lambda>_. True), fork_ok = (\<lambda>_. True), pipe_ok = (\<lambda>_. True)\<rparr> (\<lambda>_. True) Map.empty 0 [99, 100, 32, 97, 10] = [Chdir ''a'' True]"
proof -
  let ?e = "\<lparr>exec_ok = (\<lambda>_. True), open_ok = (\<lambda>_. True), fork_ok = (\<lambda>_. True), pipe_ok = (\<lambda>_. True)\<rparr>"
  have "\<forall>l \<in> set [[99, 100, 32, 97, 10]]. typed_line l" by (auto simp: typed_line_def intro!: exI [of _ "[99, 100, 32, 97]"])
  moreover have "\<forall>i. fork_ok ?e [i]" by simp
  ultimately have "shell_loop ?e (\<lambda>_. True) Map.empty 0 (concat [[99, 100, 32, 97, 10]]) =
      map (\<lambda>(i, l). shell_step ?e (\<lambda>_. True) Map.empty i l) (enumerate 0 [[99, 100, 32, 97, 10]])"
    by (rule shell_handles_each_line)
  moreover have "text_of [99, 100, 32, 97, 10] = ''cd a'' @ [CHR 0x0A]" by code_simp
  ultimately show ?thesis by (simp add: shell_step_def)
qed

end
