(* ===== verification/Web_Server.thy ===== *)
theory Web_Server
  imports Fifo "HOL-Library.Multiset" "HOL-Library.Sublist"
begin

text \<open>
  The multi-threaded web server of project 4, \<open>src/P4/linux/server.c\<close>: arguments, request lines,
  and the buffer of pending requests that the accepting thread fills and the workers empty, in
  its three scheduling modes. The part of a thread's round under the mutex is one step; a thread
  that would wait on a condition variable is \<open>Sleeps\<close>, and a call of \<open>unix_error\<close>, which prints a
  message and ends the server, is \<open>Panic\<close> with the message. The library's \<open>qsort\<close> is an argument of
  the definitions that call it, as is \<open>stat\<close> (the size of a file, none if the call fails).
\<close>

section \<open>Requests\<close>

record http_info =
  is_static :: bool
  hmethod :: string
  uri :: string
  version :: string
  filename :: string
  cgiargs :: string
  connfd :: int

text \<open>
  \<open>strncpy\<close> with the size of the array copies a field whole, whatever its length, so the copy has
  the fields of the source.
\<close>

definition copyInfo :: "http_info \<Rightarrow> http_info \<Rightarrow> http_info" where
  "copyInfo src dest = dest\<lparr>is_static := is_static src, hmethod := hmethod src, uri := uri src, version := version src,
     filename := filename src, cgiargs := cgiargs src, connfd := connfd src\<rparr>"

lemma copyInfo_eq [simp]: "copyInfo src dest = src"
  by (simp add: copyInfo_def)

definition strstr :: "string \<Rightarrow> string \<Rightarrow> bool" where
  "strstr s t \<longleftrightarrow> sublist t s"

definition ends_in_slash :: "string \<Rightarrow> bool" where
  "ends_in_slash u \<longleftrightarrow> u \<noteq> [] \<and> last u = CHR ''/''"

definition serverParseURI :: "http_info \<Rightarrow> http_info" where
  "serverParseURI info =
     (if \<not> strstr (uri info) ''cgi'' then
        let info = info\<lparr>cgiargs := [], filename := CHR ''.'' # uri info\<rparr>;
            info = (if ends_in_slash (uri info) then info\<lparr>filename := filename info @ ''home.html''\<rparr> else info)
        in info\<lparr>is_static := True\<rparr>
      else
        let u = uri info;
            info = (if CHR ''?'' \<in> set u
                    then info\<lparr>cgiargs := tl (dropWhile (\<lambda>c. c \<noteq> CHR ''?'') u), uri := takeWhile (\<lambda>c. c \<noteq> CHR ''?'') u\<rparr>
                    else info\<lparr>cgiargs := []\<rparr>);
            info = info\<lparr>filename := CHR ''.'' # uri info\<rparr>
        in info\<lparr>is_static := False\<rparr>)"

text \<open>The white space of \<open>sscanf\<close>, and its \<open>%s\<close> conversions: a word, or no assignment at the end of the line.\<close>

definition isspace :: "char \<Rightarrow> bool" where
  "isspace c \<longleftrightarrow> c \<in> {CHR '' '', CHR 0x09, CHR 0x0A, CHR 0x0B, CHR 0x0C, CHR 0x0D}"

definition scan_word :: "string \<Rightarrow> (string \<times> string) option" where
  "scan_word l = (let r = dropWhile isspace l in
     if r = [] then None else Some (takeWhile (\<lambda>c. \<not> isspace c) r, dropWhile (\<lambda>c. \<not> isspace c) r))"

text \<open>\<open>info\<close> is the uninitialised local of \<open>readHeader\<close>, \<open>buf\<close> the first line read from the connection.\<close>

definition readHeader :: "http_info \<Rightarrow> int \<Rightarrow> string \<Rightarrow> http_info" where
  "readHeader info fd buf =
     (let info = info\<lparr>connfd := fd\<rparr>;
          info = (case scan_word buf of None \<Rightarrow> info
                  | Some (w1, buf) \<Rightarrow> (case scan_word buf of None \<Rightarrow> info\<lparr>hmethod := w1\<rparr>
                    | Some (w2, buf) \<Rightarrow> (case scan_word buf of None \<Rightarrow> info\<lparr>hmethod := w1, uri := w2\<rparr>
                      | Some (w3, buf) \<Rightarrow> info\<lparr>hmethod := w1, uri := w2, version := w3\<rparr>)))
      in serverParseURI info)"

section \<open>Arguments\<close>

datatype mode = FIFO | SFNF | SFF

definition c_digits :: "string \<Rightarrow> nat" where
  "c_digits l = foldl (\<lambda>n c. 10 * n + (of_char c - 48)) 0 (takeWhile (\<lambda>c. (48 :: nat) \<le> of_char c \<and> (of_char c :: nat) \<le> 57) l)"

definition libc_atoi :: "string \<Rightarrow> int" where
  "libc_atoi s = (let l = dropWhile isspace s in
     if l \<noteq> [] \<and> hd l = CHR ''-'' then - int (c_digits (tl l))
     else if l \<noteq> [] \<and> hd l = CHR ''+'' then int (c_digits (tl l))
     else int (c_digits l))"

text \<open>\<open>getargs\<close>: \<open>None\<close> where it prints a message and exits.\<close>

definition getargs :: "string list \<Rightarrow> (int \<times> int \<times> int \<times> mode) option" where
  "getargs argv =
     (if length argv \<noteq> 5 then None
      else let port = libc_atoi (argv ! 1); thread = libc_atoi (argv ! 2); buffer = libc_atoi (argv ! 3) in
        if port < 2000 then None
        else if thread \<le> 0 then None
        else if argv ! 4 = ''FIFO'' then Some (port, thread, buffer, FIFO)
        else if argv ! 4 = ''SFNF'' then Some (port, thread, buffer, SFNF)
        else if argv ! 4 = ''SFF'' then Some (port, thread, buffer, SFF)
        else None)"

section \<open>The buffer\<close>

record server =
  buffer :: "http_info list"
  useptr :: nat
  fillptr :: nat
  numfull :: nat
  request :: nat
  mode :: mode

abbreviation size_of :: "server \<Rightarrow> nat" where
  "size_of s \<equiv> length (buffer s)"

definition server_init :: "http_info list \<Rightarrow> mode \<Rightarrow> server" where
  "server_init junk m = \<lparr>buffer = junk, useptr = 0, fillptr = 0, numfull = 0, request = 0, mode = m\<rparr>"

text \<open>The comparison functions; \<open>None\<close> where \<open>Stat\<close> ends the server because a file cannot be examined.\<close>

definition sfnfCompare :: "http_info \<Rightarrow> http_info \<Rightarrow> int option" where
  "sfnfCompare p1 p2 = Some (wrap32 (int (length (filename p1)) - int (length (filename p2))))"

definition sffCompare :: "(string \<Rightarrow> int option) \<Rightarrow> http_info \<Rightarrow> http_info \<Rightarrow> int option" where
  "sffCompare stat p1 p2 = (case stat (filename p1) of
     None \<Rightarrow> None
   | Some size1 \<Rightarrow> (case stat (filename p2) of None \<Rightarrow> None | Some size2 \<Rightarrow> Some (wrap32 (size1 - size2))))"

text \<open>\<open>qsort\<close> of the first \<open>n\<close> elements of the array; \<open>None\<close> if a comparison it makes ends the server.\<close>

type_synonym request_compare = "http_info \<Rightarrow> http_info \<Rightarrow> int option"
type_synonym sorter = "request_compare \<Rightarrow> http_info list \<Rightarrow> http_info list option"

definition sort_prefix :: "sorter \<Rightarrow> request_compare \<Rightarrow> nat \<Rightarrow> http_info list \<Rightarrow> http_info list option" where
  "sort_prefix qsort cmp n b = map_option (\<lambda>p. p @ drop n b) (qsort cmp (take n b))"

definition fifo_put :: "http_info \<Rightarrow> server \<Rightarrow> server" where
  "fifo_put info s = s\<lparr>buffer := (buffer s)[fillptr s := info], fillptr := (fillptr s + 1) mod size_of s, numfull := numfull s + 1\<rparr>"

definition sorted_put :: "sorter \<Rightarrow> request_compare \<Rightarrow> http_info \<Rightarrow> server \<Rightarrow> server kres" where
  "sorted_put qsort cmp info s =
     (let n = numfull s + 1 in
      case sort_prefix qsort cmp n ((buffer s)[numfull s := info]) of
        None \<Rightarrow> Panic ''Stat error''
      | Some b \<Rightarrow> Ok (s\<lparr>buffer := b, numfull := n\<rparr>))"

text \<open>The accepting thread, from taking the mutex to releasing it.\<close>

definition accept_request :: "sorter \<Rightarrow> (string \<Rightarrow> int option) \<Rightarrow> http_info \<Rightarrow> int \<Rightarrow> string \<Rightarrow> server \<Rightarrow> server kres" where
  "accept_request qsort stat junk fd line s =
     (if numfull s = size_of s then Sleeps
      else let info = readHeader junk fd line in
        case mode s of
          FIFO \<Rightarrow> Ok (fifo_put info s)
        | SFNF \<Rightarrow> sorted_put qsort sfnfCompare info s
        | SFF \<Rightarrow> sorted_put qsort (sffCompare stat) info s)"

definition fifo_get :: "server \<Rightarrow> http_info \<times> server" where
  "fifo_get s = (buffer s ! useptr s, s\<lparr>useptr := (useptr s + 1) mod size_of s, numfull := numfull s - 1\<rparr>)"

text \<open>The first entry is taken and the last one moved into its place before sorting again.\<close>

definition sorted_get :: "sorter \<Rightarrow> request_compare \<Rightarrow> server \<Rightarrow> (http_info \<times> server) kres" where
  "sorted_get qsort cmp s =
     (let info = buffer s ! 0; n = numfull s;
          b = (if n > 1 then (buffer s)[0 := copyInfo (buffer s ! (n - 1)) (buffer s ! 0)] else buffer s)
      in case sort_prefix qsort cmp n b of
           None \<Rightarrow> Panic ''Stat error''
         | Some b \<Rightarrow> Ok (info, s\<lparr>buffer := b, numfull := n - 1\<rparr>))"

text \<open>A worker's round up to the release of the mutex: the request it goes on to handle.\<close>

definition worker :: "sorter \<Rightarrow> (string \<Rightarrow> int option) \<Rightarrow> http_info \<Rightarrow> server \<Rightarrow> (http_info \<times> server) kres" where
  "worker qsort stat local s =
     (if numfull s = 0 then Sleeps
      else kbind (case mode s of
              FIFO \<Rightarrow> Ok (fifo_get s)
            | SFNF \<Rightarrow> sorted_get qsort sfnfCompare s
            | SFF \<Rightarrow> sorted_get qsort (sffCompare stat) s)
        (\<lambda>(info, s). Ok (copyInfo info local, s\<lparr>request := request s + 1\<rparr>)))"

section \<open>First in, first out\<close>

definition pending :: "server \<Rightarrow> http_info list" where
  "pending s = map (\<lambda>i. buffer s ! ((useptr s + i) mod size_of s)) [0..<numfull s]"

definition ring_ok :: "server \<Rightarrow> bool" where
  "ring_ok s \<longleftrightarrow> useptr s < size_of s \<and> numfull s \<le> size_of s \<and> fillptr s = (useptr s + numfull s) mod size_of s"

definition web_get :: "server \<Rightarrow> http_info \<times> server" where
  "web_get s = (let (info, s) = fifo_get s in (info, s\<lparr>request := request s + 1\<rparr>))"

lemma mod_ring_neq: "i < k \<Longrightarrow> k < n \<Longrightarrow> (u + i) mod n \<noteq> (u + k) mod n" for n :: nat
proof
  assume a: "i < k" "k < n" "(u + i) mod n = (u + k) mod n"
  then have "n dvd (u + k) - (u + i)" by (metis mod_eq_dvd_iff_nat add_le_cancel_left less_imp_le)
  then show False using a by (auto dest: dvd_imp_le)
qed

lemma fifo_put_spec:
  assumes "ring_ok s" and "numfull s \<noteq> size_of s"
  shows "ring_ok (fifo_put x s) \<and> pending (fifo_put x s) = pending s @ [x] \<and> size_of (fifo_put x s) = size_of s"
proof -
  let ?n = "size_of s" and ?k = "numfull s"
  have k: "?k < ?n" "0 < ?n" using assms by (auto simp: ring_ok_def)
  have f: "fillptr s = (useptr s + ?k) mod ?n" using assms by (simp add: ring_ok_def)
  have "(buffer s)[(useptr s + ?k) mod ?n := x] ! ((useptr s + i) mod ?n) = buffer s ! ((useptr s + i) mod ?n)" if "i < ?k" for i
    using mod_ring_neq [OF that k(1), of "useptr s"] by simp
  moreover have "((useptr s + ?k) mod ?n + 1) mod ?n = (useptr s + (?k + 1)) mod ?n" by (simp add: mod_Suc_eq)
  ultimately show ?thesis using assms k by (simp add: ring_ok_def fifo_put_def pending_def f)
qed

lemma web_get_spec:
  assumes "ring_ok s" and "numfull s \<noteq> 0"
  shows "ring_ok (snd (web_get s)) \<and> pending s = fst (web_get s) # pending (snd (web_get s)) \<and> size_of (snd (web_get s)) = size_of s"
proof -
  let ?n = "size_of s"
  obtain k where k: "numfull s = Suc k" using assms(2) by (cases "numfull s") auto
  have u: "useptr s mod ?n = useptr s" using assms(1) by (simp add: ring_ok_def)
  have "((useptr s + 1) mod ?n + i) mod ?n = (useptr s + Suc i) mod ?n" for i by (simp add: mod_add_left_eq)
  moreover have "[0..<Suc k] = 0 # map Suc [0..<k]" by (simp add: upt_conv_Cons map_Suc_upt del: upt_Suc)
  moreover have "(useptr s + 1) mod ?n < ?n" using assms(1) by (intro mod_less_divisor) (auto simp: ring_ok_def)
  ultimately show ?thesis using assms(1) u
    by (simp add: web_get_def fifo_get_def pending_def ring_ok_def k del: upt_Suc)
qed

interpretation web: bounded_fifo ring_ok pending "\<lambda>s. size_of s" "\<lambda>s. numfull s = size_of s" "\<lambda>s. numfull s = 0" fifo_put web_get
proof (unfold_locales, goal_cases)
  case (4 s x)
  then show ?case using fifo_put_spec by blast
next
  case (5 s)
  then show ?case using web_get_spec by blast
qed (auto simp: ring_ok_def pending_def)

text \<open>
  The accepting thread (\<open>Some\<close> connection and its first line) and the workers (\<open>None\<close>) taking the mutex in
  any order, until the server ends; the requests read and the requests handed to workers.
\<close>

fun web_run :: "sorter \<Rightarrow> (string \<Rightarrow> int option) \<Rightarrow> http_info \<Rightarrow> (int \<times> string) option list \<Rightarrow> server \<Rightarrow> server \<times> http_info list \<times> http_info list" where
  "web_run qs st j [] s = (s, [], [])"
| "web_run qs st j (Some (fd, line) # ops) s =
     (case accept_request qs st j fd line s of
        Ok s' \<Rightarrow> let (s', ins, outs) = web_run qs st j ops s' in (s', readHeader j fd line # ins, outs)
      | Sleeps \<Rightarrow> web_run qs st j ops s
      | _ \<Rightarrow> (s, [], []))"
| "web_run qs st j (None # ops) s =
     (case worker qs st j s of
        Ok (info, s') \<Rightarrow> let (s', ins, outs) = web_run qs st j ops s' in (s', ins, info # outs)
      | Sleeps \<Rightarrow> web_run qs st j ops s
      | _ \<Rightarrow> (s, [], []))"

lemma mode_kept [simp]: "mode (fifo_put x s) = mode s" "mode (snd (web_get s)) = mode s"
  by (simp_all add: fifo_put_def web_get_def fifo_get_def)

lemma web_run_interleave:
  "mode s = FIFO \<Longrightarrow> web_run qs sz j ops s = web.interleave (map (map_option (\<lambda>(fd, line). readHeader j fd line)) ops) s"
proof (induction qs sz j ops s rule: web_run.induct)
  case (2 qs sz j fd line ops s)
  then show ?case by (simp add: accept_request_def Let_def)
next
  case (3 qs sz j ops s)
  obtain info s1 where g: "web_get s = (info, s1)" by force
  have m: "mode s1 = FIFO" using "3.prems" mode_kept(2) [of s] g by simp
  have w: "worker qs sz j s = (if numfull s = 0 then Sleeps else Ok (web_get s))"
    using "3.prems" by (auto simp: worker_def web_get_def split: prod.splits)
  show ?case
  proof (cases "numfull s = 0")
    case True
    then show ?thesis using 3 w by simp
  next
    case False
    then have "web_run qs sz j ops s1 = web.interleave (map (map_option (\<lambda>(fd, line). readHeader j fd line)) ops) s1"
      using "3.IH" m w g by auto
    then show ?thesis using w g False by simp
  qed
qed simp

text \<open>
  C12. In the mode \<open>FIFO\<close> no request is lost, duplicated or overtaken, for any buffer size and however the
  accepting thread and the workers take turns: what was pending followed by what was accepted is
  what the workers took followed by what is pending now.
\<close>
theorem server_fifo:
  assumes "ring_ok s" and "mode s = FIFO" and "web_run qs sz j ops s = (s', ins, outs)"
  shows "ring_ok s' \<and> pending s @ ins = outs @ pending s' \<and> length (pending s') \<le> size_of s"
  using web.interleave_fifo [OF assms(1)] web.bounded [of s'] assms by (simp add: web_run_interleave [OF assms(2)])

lemma server_init_ok: "junk \<noteq> [] \<Longrightarrow> ring_ok (server_init junk m)" "pending (server_init junk m) = []"
  by (simp_all add: ring_ok_def server_init_def pending_def)

definition blank_info :: http_info where
  "blank_info = \<lparr>is_static = False, hmethod = [], uri = [], version = [], filename = [], cgiargs = [], connfd = 0\<rparr>"

theorem server_fifo_witness:
  "let s = server_init [blank_info, blank_info] FIFO; line = ''GET / HTTP/1.0'';
     r = web_run (\<lambda>_. Some) (\<lambda>_. Some 0) blank_info [Some (4, line), Some (5, line), Some (6, line), None, Some (7, line)] s in
   map connfd (snd (snd r)) @ map connfd (pending (fst r)) = map connfd (fst (snd r)) \<and> ring_ok (fst r)"
proof -
  let ?s = "server_init [blank_info, blank_info] FIFO" let ?line = "''GET / HTTP/1.0''"
  obtain s' ins outs where r: "web_run (\<lambda>_. Some) (\<lambda>_. Some 0) blank_info [Some (4, ?line), Some (5, ?line), Some (6, ?line), None, Some (7, ?line)] ?s = (s', ins, outs)"
    by (metis prod_cases3)
  have "ring_ok s' \<and> pending ?s @ ins = outs @ pending s'"
    using server_fifo [OF _ _ r] server_init_ok [of "[blank_info, blank_info]" FIFO] by (simp add: server_init_def)
  then show ?thesis using r server_init_ok(2) [of "[blank_info, blank_info]" FIFO] by (simp add: Let_def flip: map_append)
qed

section \<open>Shortest first\<close>

text \<open>
  What the C library promises of \<open>qsort\<close>: a permutation, in ascending order whenever the comparison
  function is consistent; the order of elements that compare equal is not specified. It calls the
  comparison function on elements of the array only, so it returns if these calls do.
\<close>

definition consistent :: "('a \<Rightarrow> 'a \<Rightarrow> int) \<Rightarrow> 'a set \<Rightarrow> bool" where
  "consistent cmp A \<longleftrightarrow> (\<forall>x \<in> A. \<forall>y \<in> A. cmp x y \<le> 0 \<or> cmp y x \<le> 0) \<and>
     (\<forall>x \<in> A. \<forall>y \<in> A. \<forall>z \<in> A. cmp x y \<le> 0 \<longrightarrow> cmp y z \<le> 0 \<longrightarrow> cmp x z \<le> 0)"

lemma consistent_subset: "consistent cmp A \<Longrightarrow> B \<subseteq> A \<Longrightarrow> consistent cmp B"
  unfolding consistent_def by blast

lemma consistentD:
  assumes "consistent cmp A"
  shows "x \<in> A \<Longrightarrow> y \<in> A \<Longrightarrow> cmp x y \<le> 0 \<or> cmp y x \<le> 0"
    "x \<in> A \<Longrightarrow> y \<in> A \<Longrightarrow> z \<in> A \<Longrightarrow> cmp x y \<le> 0 \<Longrightarrow> cmp y z \<le> 0 \<Longrightarrow> cmp x z \<le> 0"
  using assms unfolding consistent_def by blast+

definition qsort_ok :: "sorter \<Rightarrow> bool" where
  "qsort_ok qs \<longleftrightarrow> (\<forall>cmp xs.
     (\<forall>ys. qs cmp xs = Some ys \<longrightarrow> mset ys = mset xs) \<and>
     ((\<forall>x \<in> set xs. \<forall>y \<in> set xs. cmp x y \<noteq> None) \<longrightarrow>
        (\<exists>ys. qs cmp xs = Some ys \<and>
           (consistent (\<lambda>x y. the (cmp x y)) (set xs) \<longrightarrow> sorted_wrt (\<lambda>x y. the (cmp x y) \<le> 0) ys))))"

text \<open>The pending requests, whose keys the comparison function subtracts.\<close>

definition queued :: "server \<Rightarrow> http_info list" where
  "queued s = take (numfull s) (buffer s)"

definition keyed :: "request_compare \<Rightarrow> (http_info \<Rightarrow> int) \<Rightarrow> http_info list \<Rightarrow> bool" where
  "keyed cmp key xs \<longleftrightarrow> (\<forall>x \<in> set xs. \<forall>y \<in> set xs. cmp x y = Some (key x - key y))"

abbreviation by_key :: "(http_info \<Rightarrow> int) \<Rightarrow> http_info list \<Rightarrow> bool" where
  "by_key key \<equiv> sorted_wrt (\<lambda>x y. key x \<le> key y)"

lemma qsort_keyed:
  assumes "qsort_ok qs" and "keyed cmp key xs"
  shows "\<exists>ys. qs cmp xs = Some ys \<and> mset ys = mset xs \<and> by_key key ys"
proof -
  have k: "cmp x y = Some (key x - key y)" if "x \<in> set xs" "y \<in> set xs" for x y using assms(2) that by (simp add: keyed_def)
  have "consistent (\<lambda>x y. the (cmp x y)) (set xs)" by (auto simp: consistent_def k)
  moreover have "\<forall>x \<in> set xs. \<forall>y \<in> set xs. cmp x y \<noteq> None" by (simp add: k)
  ultimately obtain ys where ys: "qs cmp xs = Some ys" "sorted_wrt (\<lambda>x y. the (cmp x y) \<le> 0) ys"
    using assms(1) [unfolded qsort_ok_def, THEN spec, THEN spec, of cmp xs] by blast
  have m: "mset ys = mset xs" using assms(1) ys(1) unfolding qsort_ok_def by blast
  then have "set ys = set xs" by (rule mset_eq_setD)
  then have "by_key key ys" using ys(2) k by (auto elim!: sorted_wrt_mono_rel [rotated])
  with ys(1) m show ?thesis by blast
qed

lemma sort_prefix_keyed:
  assumes "qsort_ok qs" and "n \<le> length b" and "keyed cmp key (take n b)"
  shows "\<exists>p. sort_prefix qs cmp n b = Some (p @ drop n b) \<and> length p = n \<and> mset p = mset (take n b) \<and> by_key key p"
proof -
  from qsort_keyed [OF assms(1,3)] obtain p where p: "qs cmp (take n b) = Some p" "mset p = mset (take n b)" "by_key key p" by blast
  moreover have "length p = n" using mset_eq_length [OF p(2)] assms(2) by simp
  ultimately show ?thesis by (simp add: sort_prefix_def)
qed

lemma sorted_put_spec:
  assumes "qsort_ok qs" and "numfull s < size_of s" and "keyed cmp key (x # queued s)"
  shows "\<exists>s'. sorted_put qs cmp x s = Ok s' \<and> mset (queued s') = add_mset x (mset (queued s)) \<and> by_key key (queued s') \<and>
    size_of s' = size_of s"
proof -
  let ?n = "numfull s" and ?b = "(buffer s)[numfull s := x]"
  have t: "take (?n + 1) ?b = queued s @ [x]"
    using assms(2) by (simp add: queued_def take_Suc_conv_app_nth)
  have "keyed cmp key (take (?n + 1) ?b)" unfolding t using assms(3) by (auto simp: keyed_def)
  from sort_prefix_keyed [OF assms(1) _ this] assms(2) obtain p where
    p: "sort_prefix qs cmp (?n + 1) ?b = Some (p @ drop (?n + 1) ?b)" "length p = ?n + 1" "mset p = mset (queued s @ [x])" "by_key key p"
    unfolding t by auto
  then have "sorted_put qs cmp x s = Ok (s\<lparr>buffer := p @ drop (?n + 1) ?b, numfull := ?n + 1\<rparr>)" by (simp add: sorted_put_def)
  moreover have "queued (s\<lparr>buffer := p @ drop (?n + 1) ?b, numfull := ?n + 1\<rparr>) = p" using p(2) by (simp add: queued_def)
  ultimately show ?thesis using p assms(2) by simp
qed

lemma by_key_last: "by_key key (ys @ [z]) \<Longrightarrow> x \<in> set ys \<Longrightarrow> key x \<le> key z"
  by (simp add: sorted_wrt_append)

text \<open>
  Taking a request leaves, in place of the entry that held the longest one twice, some entry with the
  same key out: the keys that remain are right, and so are the requests if the longest is unique.
\<close>

lemma prefix_last_first:
  assumes "take n b = x # r" and "1 < n" and "n \<le> length b"
  shows "take n (b[0 := b ! (n - 1)]) = last r # r"
proof -
  have l: "length (x # r) = n" using assms(1,3) by (metis length_take min.absorb2)
  have "b ! (n - 1) = (x # r) ! (n - 1)" using assms(2) by (simp flip: assms(1))
  also have "\<dots> = last (x # r)" using l by (subst last_conv_nth) auto
  also have "\<dots> = last r" using l assms(2) by (cases r) auto
  finally have "b ! (n - 1) = last r" .
  moreover have "take n (b[0 := last r]) = (x # r)[0 := last r]" by (simp add: take_update_swap assms(1))
  ultimately show ?thesis by simp
qed

lemma sorted_get_spec:
  assumes "qsort_ok qs" and "0 < numfull s" and "numfull s \<le> size_of s" and "by_key key (queued s)" and "keyed cmp key (queued s)"
  obtains x s' where "sorted_get qs cmp s = Ok (x, s')" "x = hd (queued s)" "x \<in> set (queued s)" "\<forall>y \<in> set (queued s). key x \<le> key y"
    "by_key key (queued s')" "image_mset key (mset (queued s)) = add_mset (key x) (image_mset key (mset (queued s')))"
    "distinct (map key (queued s)) \<longrightarrow> mset (queued s) = add_mset x (mset (queued s'))"
proof -
  let ?n = "numfull s" and ?q = "queued s" and ?x = "buffer s ! 0"
  have lq: "length ?q = ?n" using assms(3) by (simp add: queued_def)
  have "?x = ?q ! 0" using assms(2) by (simp add: queued_def)
  then obtain r where r: "?q = ?x # r" using lq assms(2) by (cases ?q) auto
  have x: "?x = hd ?q" "?x \<in> set ?q" "\<forall>y \<in> set ?q. key ?x \<le> key y" using assms(4) r by (metis list.sel(1), metis list.set_intros(1), metis order_refl set_ConsD sorted_wrt.simps(2))
  define b where "b = (if ?n > 1 then (buffer s)[0 := buffer s ! (?n - 1)] else buffer s)"
  have lb: "length b = size_of s" by (simp add: b_def)
  have tb: "take ?n b = (if ?n > 1 then last r # r else ?q)"
    using prefix_last_first [OF r [unfolded queued_def] _ assms(3)] by (simp add: b_def queued_def)
  have sub: "set (take ?n b) \<subseteq> set ?q"
  proof (cases "?n > 1")
    case True
    then have "r \<noteq> []" using lq arg_cong [OF r, of length] by auto
    then have "set (last r # r) \<subseteq> set (?x # r)" by auto
    then show ?thesis using True unfolding tb by (simp add: r [symmetric])
  qed (simp add: tb)
  then have k: "keyed cmp key (take ?n b)" using assms(5) by (auto simp: keyed_def)
  from sort_prefix_keyed [OF assms(1) _ k] assms(3) lb obtain z where
    z: "sort_prefix qs cmp ?n b = Some (z @ drop ?n b)" "length z = ?n" "mset z = mset (take ?n b)" "by_key key z" by auto
  let ?s' = "s\<lparr>buffer := z @ drop ?n b, numfull := ?n - 1\<rparr>"
  have g: "sorted_get qs cmp s = Ok (?x, ?s')" unfolding sorted_get_def Let_def copyInfo_eq b_def [symmetric] z(1) by simp
  have q': "queued ?s' = butlast z" using z(2) by (simp add: queued_def butlast_conv_take)
  consider (one) "?n = 1" | (more) "?n > 1" using assms(2) by linarith
  then have "by_key key (queued ?s') \<and> image_mset key (mset ?q) = add_mset (key ?x) (image_mset key (mset (queued ?s'))) \<and>
      (distinct (map key ?q) \<longrightarrow> mset ?q = add_mset ?x (mset (queued ?s')))"
  proof cases
    case one
    then have "r = []" "queued ?s' = []" using lq arg_cong [OF r, of length] q' z(2) by (auto simp: butlast_conv_take)
    then show ?thesis using r by (metis image_mset_add_mset image_mset_empty mset.simps sorted_wrt.simps(1))
  next
    case more
    then obtain m l where ml: "r = m @ [l]" using lq arg_cong [OF r, of length] by (cases r rule: rev_cases) auto
    then have ql: "?q = ?x # m @ [l]" using r by simp
    have tb': "take ?n b = l # m @ [l]" using tb more ml by simp
    obtain zs y where zy: "z = zs @ [y]" using z(2) more by (cases z rule: rev_cases) auto
    have zm: "add_mset y (mset zs) = add_mset l (add_mset l (mset m))" using z(3) zy tb' by simp
    have yl: "y = l \<or> y \<in> set m" using zm by (metis insert_iff set_mset_add_mset_insert set_mset_mset)
    have srt: "by_key key (?x # m @ [l])" using assms(4) ql by metis
    have kl: "key y = key l"
    proof (rule antisym)
      show "key y \<le> key l" using srt yl by (auto simp: sorted_wrt_append)
      have "l \<in># add_mset y (mset zs)" using zm by simp
      then show "key l \<le> key y" using z(4) zy by (auto simp: sorted_wrt_append)
    qed
    have "image_mset key (add_mset y (mset zs)) = image_mset key (add_mset l (add_mset l (mset m)))" by (simp only: zm)
    then have "image_mset key (mset zs) = add_mset (key l) (image_mset key (mset m))" using kl by simp
    moreover have "y = l" if "distinct (map key (?x # m @ [l]))"
    proof (rule ccontr)
      assume "y \<noteq> l"
      then have "key l \<in> key ` set m" using yl kl by (metis imageI)
      then show False using that by simp
    qed
    then have "distinct (map key (?x # m @ [l])) \<Longrightarrow> mset zs = add_mset l (mset m)" using zm by simp
    moreover have "by_key key zs" using z(4) zy by (simp add: sorted_wrt_append)
    ultimately show ?thesis unfolding q' unfolding zy ql butlast_snoc by simp
  qed
  then show thesis using that [OF g x] by blast
qed

text \<open>What a worker's comparison function subtracts.\<close>

definition sort_key :: "(string \<Rightarrow> int option) \<Rightarrow> mode \<Rightarrow> http_info \<Rightarrow> int" where
  "sort_key stat m x = (if m = SFF then the (stat (filename x)) else int (length (filename x)))"

definition small_keys :: "(http_info \<Rightarrow> int) \<Rightarrow> http_info list \<Rightarrow> bool" where
  "small_keys key xs \<longleftrightarrow> (\<forall>x \<in> set xs. 0 \<le> key x \<and> key x < 2 ^ 31)"

text \<open>The files of the pending requests can be examined, in the mode that does.\<close>

definition all_stat :: "(string \<Rightarrow> int option) \<Rightarrow> mode \<Rightarrow> http_info list \<Rightarrow> bool" where
  "all_stat stat m xs \<longleftrightarrow> (m = SFF \<longrightarrow> (\<forall>x \<in> set xs. stat (filename x) \<noteq> None))"

abbreviation compare_of :: "(string \<Rightarrow> int option) \<Rightarrow> mode \<Rightarrow> request_compare" where
  "compare_of stat m \<equiv> (if m = SFF then sffCompare stat else sfnfCompare)"

lemma keyed_small:
  assumes "small_keys (sort_key stat m) xs" and "all_stat stat m xs"
  shows "keyed (compare_of stat m) (sort_key stat m) xs"
  unfolding keyed_def
proof (intro ballI)
  fix x y assume xy: "x \<in> set xs" "y \<in> set xs"
  then have "0 \<le> sort_key stat m x" "sort_key stat m x < 2 ^ 31" "0 \<le> sort_key stat m y" "sort_key stat m y < 2 ^ 31"
    using assms(1) by (auto simp: small_keys_def)
  then have w: "wrap32 (sort_key stat m x - sort_key stat m y) = sort_key stat m x - sort_key stat m y" by (intro wrap32_id) simp_all
  show "compare_of stat m x y = Some (sort_key stat m x - sort_key stat m y)"
  proof (cases "m = SFF")
    case True
    then have "stat (filename x) \<noteq> None" "stat (filename y) \<noteq> None" using assms(2) xy by (simp_all add: all_stat_def)
    then obtain a b where "stat (filename x) = Some a" "stat (filename y) = Some b" by blast
    then show ?thesis using True w by (simp add: sffCompare_def sort_key_def)
  next
    case False
    then show ?thesis using w by (simp add: sfnfCompare_def sort_key_def)
  qed
qed

lemma worker_sorted:
  assumes "mode s \<noteq> FIFO" and "0 < numfull s"
  shows "worker qs stat j s = kbind (sorted_get qs (compare_of stat (mode s)) s) (\<lambda>(x, s). Ok (x, s\<lparr>request := request s + 1\<rparr>))"
  using assms by (cases "mode s") (auto simp: worker_def)

text \<open>
  C38. In the modes \<open>SFNF\<close> and \<open>SFF\<close>, with requests pending in order and keys (lengths of the names, sizes of the
  files) below 2 GB: if the files can be examined, a worker's round returns with a pending request of the shortest
  file name (smallest file), and the pending requests stay sorted; whatever conforming \<open>qsort\<close> is used, the keys that
  remain pending are right, and as long as no two pending requests have the same key nothing is lost or duplicated. If
  \<open>stat\<close> fails for one of them, a worker either ends the whole server with \<open>Stat error\<close> or takes the first pending request.
\<close>
theorem server_shortest_first:
  assumes "qsort_ok qs" and "mode s \<noteq> FIFO" and "0 < numfull s" and "numfull s \<le> size_of s"
    and "by_key (sort_key stat (mode s)) (queued s)" and "small_keys (sort_key stat (mode s)) (queued s)"
  shows "if all_stat stat (mode s) (queued s)
    then \<exists>x s'. worker qs stat j s = Ok (x, s') \<and>
      x \<in> set (queued s) \<and> (\<forall>y \<in> set (queued s). sort_key stat (mode s) x \<le> sort_key stat (mode s) y) \<and>
      by_key (sort_key stat (mode s)) (queued s') \<and>
      image_mset (sort_key stat (mode s)) (mset (queued s)) =
        add_mset (sort_key stat (mode s) x) (image_mset (sort_key stat (mode s)) (mset (queued s'))) \<and>
      (distinct (map (sort_key stat (mode s)) (queued s)) \<longrightarrow> mset (queued s) = add_mset x (mset (queued s')))
    else worker qs stat j s = Panic ''Stat error'' \<or> (\<exists>s'. worker qs stat j s = Ok (hd (queued s), s'))"
proof (cases "all_stat stat (mode s) (queued s)")
  case True
  let ?key = "sort_key stat (mode s)"
  from sorted_get_spec [OF assms(1,3,4,5) keyed_small [OF assms(6) True]] obtain x s1 where
    g: "sorted_get qs (compare_of stat (mode s)) s = Ok (x, s1)" "x \<in> set (queued s)" "\<forall>y \<in> set (queued s). ?key x \<le> ?key y"
      "by_key ?key (queued s1)" "image_mset ?key (mset (queued s)) = add_mset (?key x) (image_mset ?key (mset (queued s1)))"
      "distinct (map ?key (queued s)) \<longrightarrow> mset (queued s) = add_mset x (mset (queued s1))" by blast
  let ?s' = "s1\<lparr>request := request s1 + 1\<rparr>"
  have "worker qs stat j s = Ok (x, ?s')" by (simp add: worker_sorted [OF assms(2,3)] g(1))
  moreover have "queued ?s' = queued s1" by (simp add: queued_def)
  ultimately show ?thesis unfolding if_P [OF True] using g(2-) by (intro exI [of _ x] exI [of _ ?s']) simp
next
  case False
  have "hd (queued s) = buffer s ! 0" using assms(3,4) by (cases "buffer s") (auto simp: queued_def)
  then show ?thesis unfolding if_not_P [OF False] worker_sorted [OF assms(2,3)]
    by (auto simp: sorted_get_def Let_def split: option.split)
qed

section \<open>Sorting functions\<close>

fun ins :: "('a \<Rightarrow> 'a \<Rightarrow> int) \<Rightarrow> 'a \<Rightarrow> 'a list \<Rightarrow> 'a list" where
  "ins cmp x [] = [x]"
| "ins cmp x (y # ys) = (if cmp x y \<le> 0 then x # y # ys else y # ins cmp x ys)"

definition csort :: "('a \<Rightarrow> 'a \<Rightarrow> int) \<Rightarrow> 'a list \<Rightarrow> 'a list" where
  "csort cmp xs = foldr (ins cmp) xs []"

lemma mset_ins [simp]: "mset (ins cmp x ys) = add_mset x (mset ys)"
  by (induction ys) auto

lemma mset_csort [simp]: "mset (csort cmp xs) = mset xs"
  by (induction xs) (simp_all add: csort_def)

lemma set_ins [simp]: "set (ins cmp x ys) = insert x (set ys)"
  using mset_ins [of cmp x ys] by (metis set_mset_add_mset_insert set_mset_mset)

lemma sorted_ins:
  assumes "consistent cmp (insert x (set ys))" and "sorted_wrt (\<lambda>x y. cmp x y \<le> 0) ys"
  shows "sorted_wrt (\<lambda>x y. cmp x y \<le> 0) (ins cmp x ys)"
  using assms
proof (induction ys)
  case (Cons y ys)
  note D = consistentD [OF Cons.prems(1)]
  have c: "consistent cmp (insert x (set ys))" by (rule consistent_subset [OF Cons.prems(1)]) auto
  show ?case
  proof (cases "cmp x y \<le> 0")
    case True
    then have "cmp x z \<le> 0" if "z \<in> set ys" for z using D(2) [of x y z] Cons.prems(2) that by simp
    then show ?thesis using True Cons.prems(2) by simp
  next
    case False
    then have "cmp y x \<le> 0" using D(1) [of x y] by simp
    then show ?thesis using False Cons.IH [OF c] Cons.prems(2) by simp
  qed
qed simp

lemma sorted_csort: "consistent cmp (set xs) \<Longrightarrow> sorted_wrt (\<lambda>x y. cmp x y \<le> 0) (csort cmp xs)"
proof (induction xs)
  case (Cons x xs)
  have "consistent cmp (set xs)" by (rule consistent_subset [OF Cons.prems]) auto
  moreover have "set (csort cmp xs) = set xs" by (rule mset_eq_setD) simp
  ultimately show ?case using Cons sorted_ins [of cmp x "csort cmp xs"] by (simp add: csort_def)
qed (simp add: csort_def)

text \<open>A conforming \<open>qsort\<close>: the server ends if it would compare two elements that cannot be compared.\<close>

definition lib_sort :: sorter where
  "lib_sort cmp xs =
     (if \<exists>x \<in> set xs. \<exists>y \<in> set xs. cmp x y = None then None else Some (csort (\<lambda>x y. the (cmp x y)) xs))"

lemma qsort_ok_lib_sort: "qsort_ok lib_sort"
  by (auto simp: qsort_ok_def lib_sort_def sorted_csort)

definition named :: "string \<Rightarrow> int \<Rightarrow> http_info" where
  "named f fd = blank_info\<lparr>filename := f, connfd := fd\<rparr>"

definition three :: server where
  "three = \<lparr>buffer = [named ''.'' 4, named ''./a'' 5, named ''./b'' 6], useptr = 0, fillptr = 0, numfull = 3, request = 0, mode = SFNF\<rparr>"

lemma three_queued: "queued three = [named ''.'' 4, named ''./a'' 5, named ''./b'' 6]"
  by (simp add: three_def queued_def)

theorem server_shortest_first_witness:
  "\<exists>x s'. worker lib_sort (\<lambda>_. None) blank_info three = Ok (x, s') \<and> connfd x = 4 \<and> by_key (sort_key (\<lambda>_. None) SFNF) (queued s')"
proof -
  have m: "mode three = SFNF" "numfull three = 3" "size_of three = 3" by (simp_all add: three_def)
  have a: "all_stat (\<lambda>_. None) (mode three) (queued three)" by (simp add: all_stat_def m)
  have "small_keys (sort_key (\<lambda>_. None) (mode three)) (queued three)" "by_key (sort_key (\<lambda>_. None) (mode three)) (queued three)"
    by (simp_all add: three_queued small_keys_def sort_key_def named_def m)
  then obtain x s' where w: "worker lib_sort (\<lambda>_. None) blank_info three = Ok (x, s')" "x \<in> set (queued three)"
    "\<forall>y \<in> set (queued three). sort_key (\<lambda>_. None) SFNF x \<le> sort_key (\<lambda>_. None) SFNF y" "by_key (sort_key (\<lambda>_. None) SFNF) (queued s')"
    using server_shortest_first [OF qsort_ok_lib_sort, of three "\<lambda>_. None" blank_info, unfolded if_P [OF a]] by (auto simp: m)
  then show ?thesis by (auto simp: three_queued sort_key_def named_def)
qed

text \<open>
  With two longest requests of equal length, a \<open>qsort\<close> that is free to order them drops one for good and
  leaves the other pending twice.
\<close>

definition tie_qsort :: sorter where
  "tie_qsort cmp xs = (let m = named ''./a'' 5; l = named ''./b'' 6 in
     if xs = [l, m, l] \<and> cmp l m = Some 0 \<and> cmp m l = Some 0 \<and> cmp l l = Some 0 then Some [l, l, m] else lib_sort cmp xs)"

lemma qsort_ok_tie: "qsort_ok tie_qsort"
  using qsort_ok_lib_sort by (auto simp: qsort_ok_def tie_qsort_def Let_def)

theorem server_tie_loses_request:
  "\<exists>x s'. qsort_ok tie_qsort \<and> by_key (sort_key (\<lambda>_. None) SFNF) (queued three) \<and>
     worker tie_qsort (\<lambda>_. None) blank_info three = Ok (x, s') \<and>
     named ''./a'' 5 \<in> set (queued three) \<and> named ''./a'' 5 \<noteq> x \<and> named ''./a'' 5 \<notin> set (queued s') \<and>
     queued s' = [named ''./b'' 6, named ''./b'' 6]"
proof -
  have d: "named ''./a'' 5 \<noteq> named ''.'' 4" "named ''./a'' 5 \<noteq> named ''./b'' 6" by (simp_all add: named_def blank_info_def)
  have c: "sfnfCompare (named a i) (named b j) = Some (wrap32 (int (length a) - int (length b)))" for a b i j
    by (simp add: sfnfCompare_def named_def)
  have "sort_prefix tie_qsort sfnfCompare 3 [named ''./b'' 6, named ''./a'' 5, named ''./b'' 6] =
      Some [named ''./b'' 6, named ''./b'' 6, named ''./a'' 5]"
    by (simp add: sort_prefix_def tie_qsort_def Let_def c wrap32_def)
  then have "worker tie_qsort (\<lambda>_. None) blank_info three =
      Ok (named ''.'' 4, three\<lparr>buffer := [named ''./b'' 6, named ''./b'' 6, named ''./a'' 5], numfull := 2, request := 1\<rparr>)"
    by (simp add: worker_def three_def sorted_get_def Let_def)
  then show ?thesis using d qsort_ok_tie by (auto simp: three_queued sort_key_def named_def) (simp_all add: queued_def three_def)
qed

end
