(* ===== verification/Web_Request.thy ===== *)
theory Web_Request
  imports Web_Server
begin

text \<open>
  Handling a request, \<open>src/P4/linux/request.c\<close>: error replies, static files and CGI programs. A reply
  is the list of byte strings written to the connection. The system below the server is an argument,
  the record \<open>web_host\<close>: what \<open>stat\<close> says of a name, the bytes of a file, which calls succeed. A wrapper of
  \<open>src/P4/linux/cs537.c\<close> whose call fails ends the whole server through \<open>unix_error\<close>: \<open>Panic\<close> with its
  message. Building a text with \<open>sprintf\<close> into the buffer it reads is taken as appending, which is
  what the server relies on.
\<close>

record fstat =
  st_reg :: bool
  st_rusr :: bool
  st_xusr :: bool
  st_fsize :: nat

text \<open>
  \<open>mmap_ok\<close>: mapping that many bytes of the file succeeds; \<open>peer_takes\<close>: after what was written already, the
  connection takes all the bytes of the next write.
\<close>

record web_host =
  stat_of :: "string \<Rightarrow> fstat option"
  contents :: "string \<Rightarrow> string"
  open_ok :: "string \<Rightarrow> bool"
  mmap_ok :: "string \<Rightarrow> nat \<Rightarrow> bool"
  fork_ok :: bool
  peer_takes :: "string list \<Rightarrow> string \<Rightarrow> bool"

definition Rio_writen :: "web_host \<Rightarrow> string list \<Rightarrow> string \<Rightarrow> string list kres" where
  "Rio_writen h ws buf = (if peer_takes h ws buf then Ok (ws @ [buf]) else Panic ''Rio_writen error'')"

definition crlf :: string where "crlf = [CHR 0x0D, CHR 0x0A]"

text \<open>The conversions \<open>%lu\<close> and \<open>%d\<close>.\<close>

fun decimal :: "nat \<Rightarrow> string" where
  "decimal n = (if n < 10 then [char_of (48 + n)] else decimal (n div 10) @ [char_of (48 + n mod 10)])"

declare decimal.simps [simp del]

definition decimal_int :: "int \<Rightarrow> string" where
  "decimal_int x = (if x < 0 then CHR ''-'' # decimal (nat (- x)) else decimal (nat x))"

definition error_body :: "string \<Rightarrow> string \<Rightarrow> string \<Rightarrow> string \<Rightarrow> string" where
  "error_body cause errnum shortmsg longmsg =
     (let body = ''<html><title>CS537 Error</title>'';
          body = body @ ''<body bgcolor=fffff>'' @ crlf;
          body = body @ errnum @ '': '' @ shortmsg @ crlf;
          body = body @ ''<p>'' @ longmsg @ '': '' @ cause @ crlf
      in body @ ''<hr>CS537 Web Server'' @ crlf)"

text \<open>A CGI program is run with its standard output on the connection, after the part written here.\<close>

datatype reply = Written "string list" | Cgi "string list" string string

definition requestError :: "web_host \<Rightarrow> string \<Rightarrow> string \<Rightarrow> string \<Rightarrow> string \<Rightarrow> reply kres" where
  "requestError h cause errnum shortmsg longmsg =
     (let body = error_body cause errnum shortmsg longmsg in
      kbind (Rio_writen h [] (''HTTP/1.0 '' @ errnum @ '' '' @ shortmsg @ crlf))
        (\<lambda>ws. kbind (Rio_writen h ws (''Content-Type: text/html'' @ crlf))
          (\<lambda>ws. kbind (Rio_writen h ws (''Content-Length: '' @ decimal (length body) @ crlf @ crlf))
            (\<lambda>ws. kbind (Rio_writen h ws body) (\<lambda>ws. Ok (Written ws))))))"

text \<open>
  Reading lines up to an empty one. At the end of the connection the last line stays in the buffer and
  the loop does not end.
\<close>

fun requestReadhdrs :: "string list \<Rightarrow> string list kres" where
  "requestReadhdrs [] = Loops"
| "requestReadhdrs (l # ls) = (if l = crlf then Ok ls else requestReadhdrs ls)"

text \<open>The result: whether the content is static, the file name, the arguments, and the URI as it is left.\<close>

definition requestParseURI :: "string \<Rightarrow> bool \<times> string \<times> string \<times> string" where
  "requestParseURI u =
     (if \<not> strstr u ''cgi'' then
        (True, CHR ''.'' # u @ (if ends_in_slash u then ''home.html'' else []), [], u)
      else if CHR ''?'' \<in> set u then
        (let v = takeWhile (\<lambda>c. c \<noteq> CHR ''?'') u in (False, CHR ''.'' # v, tl (dropWhile (\<lambda>c. c \<noteq> CHR ''?'') u), v))
      else (False, CHR ''.'' # u, [], u))"

definition requestGetFiletype :: "string \<Rightarrow> string" where
  "requestGetFiletype f =
     (if strstr f ''.html'' then ''text/html''
      else if strstr f ''.gif'' then ''image/gif''
      else if strstr f ''.jpg'' then ''image/jpeg''
      else ''text/plain'')"

text \<open>The child runs the program; if \<open>execve\<close> fails there, only the child ends.\<close>

definition requestServeDynamic :: "web_host \<Rightarrow> string \<Rightarrow> string \<Rightarrow> reply kres" where
  "requestServeDynamic h f args =
     kbind (Rio_writen h [] (''HTTP/1.0 200 OK'' @ crlf @ ''Server: CS537 Web Server'' @ crlf))
       (\<lambda>ws. if fork_ok h then Ok (Cgi ws f args) else Panic ''Fork error'')"

text \<open>\<open>filesize\<close> is an \<open>int\<close>, and the length that \<open>mmap\<close> and \<open>rio_writen\<close> get is that \<open>int\<close> as a 64-bit \<open>size_t\<close>.\<close>

definition to_size_t :: "int \<Rightarrow> nat" where
  "to_size_t x = nat (x mod 2 ^ 64)"

definition requestServeStatic :: "web_host \<Rightarrow> string \<Rightarrow> int \<Rightarrow> reply kres" where
  "requestServeStatic h f filesize =
     (if \<not> open_ok h f then Panic ''Open error''
      else if \<not> mmap_ok h f (to_size_t filesize) then Panic ''mmap error''
      else
        let srcp = take (to_size_t filesize) (contents h f);
            buf = ''HTTP/1.0 200 OK'' @ crlf;
            buf = buf @ ''Server: CS537 Web Server'' @ crlf;
            buf = buf @ ''Content-Length: '' @ decimal_int filesize @ crlf;
            buf = buf @ ''Content-Type: '' @ requestGetFiletype f @ crlf @ crlf
        in kbind (Rio_writen h [] buf) (\<lambda>ws. kbind (Rio_writen h ws srcp) (\<lambda>ws. Ok (Written ws))))"

definition to_lower :: "char \<Rightarrow> char" where
  "to_lower c = (if 65 \<le> (of_char c :: nat) \<and> (of_char c :: nat) \<le> 90 then char_of ((of_char c :: nat) + 32) else c)"

definition same_ignoring_case :: "string \<Rightarrow> string \<Rightarrow> bool" where
  "same_ignoring_case s t \<longleftrightarrow> map to_lower s = map to_lower t"

text \<open>The size of the file, an \<open>off_t\<close>, is passed as an \<open>int\<close>.\<close>

definition requestHandle :: "web_host \<Rightarrow> http_info \<Rightarrow> reply kres" where
  "requestHandle h info =
     (if \<not> same_ignoring_case (hmethod info) ''GET'' then
        requestError h (hmethod info) ''501'' ''Not Implemented'' ''CS537 Server does not implement this method''
      else case stat_of h (filename info) of
        None \<Rightarrow> requestError h (filename info) ''404'' ''Not found'' ''CS537 Server could not find this file''
      | Some sbuf \<Rightarrow>
          if is_static info then
            (if \<not> st_reg sbuf \<or> \<not> st_rusr sbuf
             then requestError h (filename info) ''403'' ''Forbidden'' ''CS537 Server could not read this file''
             else requestServeStatic h (filename info) (wrap32 (int (st_fsize sbuf))))
          else
            (if \<not> st_reg sbuf \<or> \<not> st_xusr sbuf
             then requestError h (filename info) ''403'' ''Forbidden'' ''CS537 Server could not run this CGI program''
             else requestServeDynamic h (filename info) (cgiargs info)))"

section \<open>Both parsers of the URI agree\<close>

lemma parse_uri_agree:
  "requestParseURI (uri info) = (is_static (serverParseURI info), filename (serverParseURI info), cgiargs (serverParseURI info), uri (serverParseURI info))"
  by (simp add: requestParseURI_def serverParseURI_def Let_def)

section \<open>Replies are framed correctly\<close>

fun undecimal :: "nat \<Rightarrow> string \<Rightarrow> nat" where
  "undecimal n [] = n"
| "undecimal n (c # cs) = undecimal (10 * n + (of_char c - 48)) cs"

lemma undecimal_append: "undecimal n (s @ t) = undecimal (undecimal n s) t"
  by (induction n s rule: undecimal.induct) auto

lemma undecimal_decimal: "undecimal 0 (decimal n) = n"
proof (induction n rule: decimal.induct)
  case (1 n)
  show ?case
  proof (cases "n < 10")
    case True
    then show ?thesis by (simp add: decimal.simps [of n])
  next
    case False
    then show ?thesis using 1 by (simp add: decimal.simps [of n] undecimal_append)
  qed
qed

text \<open>A response whose headers announce the length of the body that follows the empty line.\<close>

definition framed :: "string \<Rightarrow> string \<Rightarrow> bool" where
  "framed r body \<longleftrightarrow> (\<exists>status before num after.
     r = ''HTTP/1.0 '' @ status @ crlf @ before @ ''Content-Length: '' @ num @ crlf @ after @ crlf @ body \<and>
     (after = [] \<or> (\<exists>h. after = h @ crlf)) \<and> undecimal 0 num = length body)"

lemma requestError_cases:
  obtains ws where "requestError h cause errnum shortmsg longmsg = Ok (Written ws)" "framed (concat ws) (error_body cause errnum shortmsg longmsg)"
  | "requestError h cause errnum shortmsg longmsg = Panic ''Rio_writen error''"
proof (cases "requestError h cause errnum shortmsg longmsg = Panic ''Rio_writen error''")
  case False
  let ?b = "error_body cause errnum shortmsg longmsg"
  obtain ws where ws: "requestError h cause errnum shortmsg longmsg = Ok (Written ws)"
    "concat ws = ''HTTP/1.0 '' @ (errnum @ '' '' @ shortmsg) @ crlf @ (''Content-Type: text/html'' @ crlf) @
      ''Content-Length: '' @ decimal (length ?b) @ crlf @ [] @ crlf @ ?b"
    using False by (auto simp: requestError_def Rio_writen_def Let_def split: if_splits)
  moreover have "framed (concat ws) ?b" unfolding framed_def ws(2) using undecimal_decimal by blast
  ultimately show thesis using that(1) by blast
qed (use that in blast)

lemma length_error_body:
  "length (error_body cause errnum shortmsg longmsg) = 87 + length cause + length errnum + length shortmsg + length longmsg"
  by (simp add: error_body_def crlf_def)

text \<open>The length passed to \<open>mmap\<close> is below \<open>2 ^ 63\<close> only if the \<open>int\<close> is not negative; it is then what is left of the size.\<close>

lemma int_size:
  assumes "0 < to_size_t (wrap32 (int n))" and "to_size_t (wrap32 (int n)) < 2 ^ 63"
  shows "wrap32 (int n) = int (n mod 2 ^ 32)" "to_size_t (wrap32 (int n)) = n mod 2 ^ 32" "0 < n mod 2 ^ 32" "n mod 2 ^ 32 < 2 ^ 31"
proof -
  let ?x = "wrap32 (int n)"
  have r: "- (2 ^ 31) \<le> ?x" "?x < 2 ^ 31" using wrap32_range [of "int n"] by simp_all
  have "0 \<le> ?x"
  proof (rule ccontr)
    assume "\<not> 0 \<le> ?x"
    then have "?x mod 2 ^ 64 = ?x + 2 ^ 64" using r by (subst mod_add_self2 [symmetric], subst mod_pos_pos_trivial) auto
    then have "to_size_t ?x = nat (?x + 2 ^ 64)" by (simp only: to_size_t_def)
    moreover have "(2 :: int) ^ 63 \<le> ?x + 2 ^ 64" using r(1) by simp
    ultimately have "2 ^ 63 \<le> to_size_t ?x" by (simp add: nat_le_iff le_nat_iff)
    then show False using assms(2) by simp
  qed
  moreover have "?x mod 2 ^ 32 = int n mod 2 ^ 32" by (simp add: wrap32_def mod_simps)
  ultimately have x: "?x = int n mod 2 ^ 32" using r by simp
  then show e: "?x = int (n mod 2 ^ 32)" by (simp add: zmod_int)
  show t: "to_size_t ?x = n mod 2 ^ 32" using \<open>0 \<le> ?x\<close> r unfolding e by (simp add: to_size_t_def)
  show "0 < n mod 2 ^ 32" using assms(1) unfolding t .
  show "n mod 2 ^ 32 < 2 ^ 31" using r(2) unfolding e by simp
qed

text \<open>What the server relies on: a file is as long as \<open>stat\<close> says, and \<open>mmap\<close> refuses a length of 0 and one of half the address space.\<close>

definition host_ok :: "web_host \<Rightarrow> bool" where
  "host_ok h \<longleftrightarrow> (\<forall>f st. stat_of h f = Some st \<longrightarrow> length (contents h f) = st_fsize st) \<and>
     (\<forall>f n. mmap_ok h f n \<longrightarrow> 0 < n \<and> n < 2 ^ 63)"

definition serves_file :: "web_host \<Rightarrow> http_info \<Rightarrow> bool" where
  "serves_file h info \<longleftrightarrow> same_ignoring_case (hmethod info) ''GET'' \<and> is_static info \<and>
     (\<exists>st. stat_of h (filename info) = Some st \<and> st_reg st \<and> st_rusr st)"

lemma requestServeStatic_cases:
  assumes "host_ok h" and "stat_of h f = Some st"
  defines "filesize \<equiv> wrap32 (int (st_fsize st))" and "n \<equiv> length (contents h f) mod 2 ^ 32"
  obtains ws where "requestServeStatic h f filesize = Ok (Written ws)" "framed (concat ws) (take n (contents h f))" "0 < n" "n < 2 ^ 31"
  | "requestServeStatic h f filesize = Panic ''Open error''" "\<not> open_ok h f"
  | "requestServeStatic h f filesize = Panic ''mmap error''" "\<not> mmap_ok h f (to_size_t filesize)"
  | "requestServeStatic h f filesize = Panic ''Rio_writen error''"
proof (cases "open_ok h f \<and> mmap_ok h f (to_size_t filesize)")
  case True
  have l: "length (contents h f) = st_fsize st" using assms(1,2) by (simp add: host_ok_def)
  have m: "0 < to_size_t filesize" "to_size_t filesize < 2 ^ 63" using assms(1) True unfolding host_ok_def by blast+
  note s = int_size [OF m [unfolded filesize_def], folded filesize_def l, folded n_def]
  have t: "to_size_t (int n) = n" using s(1,2) by simp
  show thesis
  proof (cases "requestServeStatic h f filesize = Panic ''Rio_writen error''")
    case False
    obtain ws where ws: "requestServeStatic h f filesize = Ok (Written ws)"
      "concat ws = ''HTTP/1.0 '' @ ''200 OK'' @ crlf @ (''Server: CS537 Web Server'' @ crlf) @
        ''Content-Length: '' @ decimal n @ crlf @ ((''Content-Type: '' @ requestGetFiletype f) @ crlf) @ crlf @ take n (contents h f)"
      using False True by (auto simp: requestServeStatic_def Rio_writen_def Let_def s(1) t decimal_int_def split: if_splits)
    have "length (take n (contents h f)) = n" by (simp add: n_def min_def)
    then have "framed (concat ws) (take n (contents h f))" unfolding framed_def ws(2) using undecimal_decimal by metis
    then show thesis using that(1) ws(1) s(3,4) by blast
  qed (use that(4) in blast)
next
  case False
  then have "\<not> open_ok h f \<and> requestServeStatic h f filesize = Panic ''Open error'' \<or>
    \<not> mmap_ok h f (to_size_t filesize) \<and> requestServeStatic h f filesize = Panic ''mmap error''"
    by (simp add: requestServeStatic_def)
  then show thesis using that(2,3) by blast
qed

lemma requestHandle_no_file:
  assumes "\<not> serves_file h info" and "length (hmethod info) \<le> 8000" and "length (filename info) \<le> 8000"
  obtains (refused) cause errnum shortmsg longmsg where "requestHandle h info = requestError h cause errnum shortmsg longmsg"
      "length cause \<le> 8000" "length errnum + length shortmsg + length longmsg \<le> 100"
    | (cgi) st where "requestHandle h info = requestServeDynamic h (filename info) (cgiargs info)" "\<not> is_static info"
      "stat_of h (filename info) = Some st" "st_reg st" "st_xusr st"
proof (cases "same_ignoring_case (hmethod info) ''GET''")
  case False
  show thesis by (rule refused) (simp add: requestHandle_def False, simp_all add: assms)
next
  case get: True
  show thesis
  proof (cases "stat_of h (filename info)")
    case None
    show thesis by (rule refused) (simp add: requestHandle_def get None, simp_all add: assms)
  next
    case (Some st)
    consider (run) "\<not> is_static info" "st_reg st" "st_xusr st" | (mode1) "\<not> is_static info" "\<not> st_reg st \<or> \<not> st_xusr st"
      | (mode2) "is_static info" "\<not> st_reg st \<or> \<not> st_rusr st"
      using assms(1) get Some by (auto simp: serves_file_def)
    then show thesis
    proof cases
      case run
      show thesis by (rule cgi [OF _ run(1) Some run(2,3)]) (simp add: requestHandle_def get Some run)
    next
      case mode1
      then have "requestHandle h info = requestError h (filename info) ''403'' ''Forbidden'' ''CS537 Server could not run this CGI program''"
        by (auto simp: requestHandle_def get Some)
      from refused [OF this] show thesis by (simp add: assms)
    next
      case mode2
      then have "requestHandle h info = requestError h (filename info) ''403'' ''Forbidden'' ''CS537 Server could not read this file''"
        by (auto simp: requestHandle_def get Some)
      from refused [OF this] show thesis by (simp add: assms)
    qed
  qed
qed

text \<open>
  C39. For any request whose method and file name leave room in the buffer of an error text, handling it has one of these
  outcomes, and no other:
  the server completes a reply itself, and it is a framed HTTP response: a status line, headers, and after the empty line a
  body of exactly the number of bytes that the \<open>Content-Length\<close> header announces. The body is an error text that fits its
  buffer, or, for a readable regular file, the file up to its size modulo \<open>2 ^ 32\<close>, which is then not 0 and below 2 GB (so
  the whole file if that is below 2 GB);
  or an executable regular file is run as a CGI program with the arguments of the request;
  or the whole server ends: the connection does not take a write, no child can be created for a CGI program, or the file
  cannot be opened or mapped. So a request for an empty file, or for one of 2 to 4 GB, always ends the server.
\<close>
theorem requestHandle_framed:
  assumes "host_ok h" and "length (hmethod info) \<le> 8000" and "length (filename info) \<le> 8000"
  shows "case requestHandle h info of
      Ok (Written ws) \<Rightarrow> \<exists>body. framed (concat ws) body \<and>
        (let c = contents h (filename info); n = length c mod 2 ^ 32 in
         if serves_file h info then body = take n c \<and> 0 < n \<and> n < 2 ^ 31 \<and> (length c < 2 ^ 31 \<longrightarrow> body = c)
         else length body < 8192)
    | Ok (Cgi ws f args) \<Rightarrow> f = filename info \<and> args = cgiargs info \<and> \<not> is_static info \<and>
        (\<exists>st. stat_of h f = Some st \<and> st_reg st \<and> st_xusr st)
    | Panic e \<Rightarrow> e = ''Rio_writen error'' \<or> e = ''Fork error'' \<and> \<not> is_static info \<and> \<not> fork_ok h \<or>
        serves_file h info \<and>
          (let f = filename info in
           e = ''Open error'' \<and> \<not> open_ok h f \<or>
           e = ''mmap error'' \<and> \<not> mmap_ok h f (to_size_t (wrap32 (int (length (contents h f))))))
    | _ \<Rightarrow> False"
proof (cases "serves_file h info")
  case True
  then obtain st where st: "stat_of h (filename info) = Some st" "st_reg st" "st_rusr st" and g: "same_ignoring_case (hmethod info) ''GET''" "is_static info"
    by (auto simp: serves_file_def)
  have l: "length (contents h (filename info)) = st_fsize st" using assms(1) st(1) by (simp add: host_ok_def)
  have r: "requestHandle h info = requestServeStatic h (filename info) (wrap32 (int (st_fsize st)))"
    by (simp add: requestHandle_def st g)
  show ?thesis unfolding r by (rule requestServeStatic_cases [OF assms(1) st(1)]) (auto simp: True l)
next
  case False
  show ?thesis using False assms(2,3)
  proof (cases rule: requestHandle_no_file)
    case (refused cause errnum shortmsg longmsg)
    show ?thesis unfolding refused(1)
      by (rule requestError_cases [of h cause errnum shortmsg longmsg]) (use refused False length_error_body in \<open>auto simp: Let_def\<close>)
  next
    case (cgi st)
    then show ?thesis by (simp add: requestServeDynamic_def Rio_writen_def)
  qed
qed

text \<open>A host with a file \<open>./a\<close> of two bytes, an empty file \<open>./b\<close>, and a connection that takes everything.\<close>

definition small_host :: web_host where
  "small_host = \<lparr>
     stat_of = [''./a'' \<mapsto> \<lparr>st_reg = True, st_rusr = True, st_xusr = False, st_fsize = 2\<rparr>,
       ''./b'' \<mapsto> \<lparr>st_reg = True, st_rusr = True, st_xusr = False, st_fsize = 0\<rparr>],
     contents = (\<lambda>f. if f = ''./a'' then ''hi'' else []), open_ok = (\<lambda>f. True), mmap_ok = (\<lambda>f n. 0 < n \<and> n < 2 ^ 40),
     fork_ok = True, peer_takes = (\<lambda>ws buf. True)\<rparr>"

definition get_of :: "string \<Rightarrow> http_info" where
  "get_of f = \<lparr>is_static = True, hmethod = ''GET'', uri = tl f, version = ''HTTP/1.0'', filename = f, cgiargs = [], connfd = 4\<rparr>"

lemma small_host_ok: "host_ok small_host"
  by (auto simp: host_ok_def small_host_def split: if_splits)

lemma small_host_contents: "contents small_host f = (if f = ''./a'' then ''hi'' else [])"
  by (simp add: small_host_def)

lemma small_host_serves: "serves_file small_host (get_of f) \<longleftrightarrow> f = ''./a'' \<or> f = ''./b''"
  by (auto simp: serves_file_def small_host_def get_of_def same_ignoring_case_def)

theorem requestHandle_framed_witness:
  "(\<exists>ws. requestHandle small_host (get_of ''./a'') = Ok (Written ws) \<and> framed (concat ws) ''hi'') \<and>
   requestHandle small_host (get_of ''./b'') = Panic ''mmap error'' \<and>
   (\<exists>ws body. requestHandle small_host (get_of ''./c'') = Ok (Written ws) \<and> framed (concat ws) body \<and> length body < 8192)"
proof (intro conjI)
  note h = small_host_ok
  have l: "length (hmethod (get_of f)) \<le> 8000" "filename (get_of f) = f" for f by (simp_all add: get_of_def)
  have r: "\<exists>ws. requestHandle small_host (get_of ''./a'') = Ok (Written ws)" "\<exists>ws. requestHandle small_host (get_of ''./c'') = Ok (Written ws)"
    by (simp_all add: requestHandle_def small_host_def get_of_def same_ignoring_case_def requestServeStatic_def requestError_def Rio_writen_def
      to_size_t_def wrap32_def Let_def)
  show "\<exists>ws. requestHandle small_host (get_of ''./a'') = Ok (Written ws) \<and> framed (concat ws) ''hi''"
    using requestHandle_framed [OF h l(1), of "''./a''"] r(1) by (auto simp: l(2) small_host_serves small_host_contents Let_def)
  show "\<exists>ws body. requestHandle small_host (get_of ''./c'') = Ok (Written ws) \<and> framed (concat ws) body \<and> length body < 8192"
    using requestHandle_framed [OF h l(1), of "''./c''"] r(2) by (auto simp: l(2) small_host_serves)
  show "requestHandle small_host (get_of ''./b'') = Panic ''mmap error''"
    using requestHandle_framed [OF h l(1), of "''./b''"]
    by (simp add: requestHandle_def small_host_def get_of_def same_ignoring_case_def requestServeStatic_def to_size_t_def wrap32_def)
qed

end
