(* ===== verification/Printf.thy ===== *)
theory Printf
  imports Cstring
begin

text \<open>
  Formatted output: \<open>cprintf\<close> of the kernel, \<open>src/P1/xv6/xv6/kernel/console.c\<close>, which looks
  one character ahead, and \<open>printf\<close> of the user library, \<open>user/printf.c\<close>, which keeps a state
  between characters. Both are modelled by the bytes they put out; where the bytes go is the matter of
  the theory \<open>Console\<close> and of the \<open>write\<close> system call. Format and string arguments are the bytes
  before the NUL. A conversion without an argument of its type reads whatever is on the stack; then there
  is no result.
\<close>

definition ascii :: "string \<Rightarrow> byte list" where
  "ascii s = map of_char s"

datatype carg = Num "32 word" | Str "byte list option"

definition str_bytes :: "byte list option \<Rightarrow> byte list" where
  "str_bytes s = (case s of None \<Rightarrow> ascii ''(null)'' | Some bs \<Rightarrow> bs)"

section \<open>console.c: printint, cprintf\<close>

definition cons_digit :: "nat \<Rightarrow> byte" where
  "cons_digit d = (if d < 10 then 48 + of_nat d else 87 + of_nat d)"

text \<open>The digits as they are put into \<open>buf\<close>, lowest first; the base is 10 or 16.\<close>

function cons_digits :: "nat \<Rightarrow> nat \<Rightarrow> byte list" where
  "cons_digits base x =
     (if x div base = 0 \<or> base \<le> 1 then [cons_digit (x mod base)]
      else cons_digit (x mod base) # cons_digits base (x div base))"
  by pat_completeness auto
termination
proof (relation "measure snd", goal_cases)
  case (2 base x)
  then have "0 < x" and "1 < base" by (auto intro: Nat.gr0I)
  then show ?case by simp
qed simp

declare cons_digits.simps [simp del]

definition cons_printint :: "32 word \<Rightarrow> nat \<Rightarrow> bool \<Rightarrow> byte list" where
  "cons_printint xx base sign =
     (let neg = (sign \<and> sint xx < 0);
          x = (if neg then - xx else xx);
          buf = cons_digits base (unat x) @ (if neg then [45] else [])
      in rev buf)"

fun cprintf_out :: "byte list \<Rightarrow> carg list \<Rightarrow> byte list option" where
  "cprintf_out [] args = Some []"
| "cprintf_out [c] args = (if c \<noteq> 37 then Some [c] else Some [])"
| "cprintf_out (c # d # fmt) args =
     (if c \<noteq> 37 then map_option ((#) c) (cprintf_out (d # fmt) args)
      else if d = 100 then
        (case args of Num x # args \<Rightarrow> map_option ((@) (cons_printint x 10 True)) (cprintf_out fmt args) | _ \<Rightarrow> None)
      else if d = 120 \<or> d = 112 then
        (case args of Num x # args \<Rightarrow> map_option ((@) (cons_printint x 16 False)) (cprintf_out fmt args) | _ \<Rightarrow> None)
      else if d = 115 then
        (case args of Str s # args \<Rightarrow> map_option ((@) (str_bytes s)) (cprintf_out fmt args) | _ \<Rightarrow> None)
      else if d = 37 then map_option ((#) 37) (cprintf_out fmt args)
      else map_option ((@) [37, d]) (cprintf_out fmt args))"

section \<open>printf.c: printf\<close>

text \<open>The flag is the variable \<open>state\<close>: a percent sign was read.\<close>

fun printf_loop :: "bool \<Rightarrow> byte list \<Rightarrow> carg list \<Rightarrow> byte list option" where
  "printf_loop st [] args = Some []"
| "printf_loop False (c # fmt) args =
     (if c = 37 then printf_loop True fmt args else map_option ((#) c) (printf_loop False fmt args))"
| "printf_loop True (c # fmt) args =
     (if c = 100 then
        (case args of Num x # args \<Rightarrow> map_option ((@) (printint x 10 True)) (printf_loop False fmt args) | _ \<Rightarrow> None)
      else if c = 120 \<or> c = 112 then
        (case args of Num x # args \<Rightarrow> map_option ((@) (printint x 16 False)) (printf_loop False fmt args) | _ \<Rightarrow> None)
      else if c = 115 then
        (case args of Str s # args \<Rightarrow> map_option ((@) (str_bytes s)) (printf_loop False fmt args) | _ \<Rightarrow> None)
      else if c = 99 then
        (case args of Num x # args \<Rightarrow> map_option ((#) (ucast x)) (printf_loop False fmt args) | _ \<Rightarrow> None)
      else if c = 37 then map_option ((#) 37) (printf_loop False fmt args)
      else map_option ((@) [37, c]) (printf_loop False fmt args))"

definition printf :: "byte list \<Rightarrow> carg list \<Rightarrow> byte list option" where
  "printf fmt args = printf_loop False fmt args"

section \<open>The two agree\<close>

fun conversions :: "byte list \<Rightarrow> byte list" where
  "conversions (c # d # fmt) = (if c = 37 then d # conversions fmt else conversions (d # fmt))"
| "conversions _ = []"

lemma cons_digits_10: "cons_digits 10 x = digits_rev 10 x"
proof (induction "10 :: nat" x rule: digits_rev.induct)
  case (1 x)
  have "cons_digit (x mod 10) = digit_char (x mod 10)" by (simp add: cons_digit_def digit_char_def)
  with 1 show ?case by (subst cons_digits.simps, subst digits_rev.simps) auto
qed

lemma cons_printint_10: "cons_printint x 10 s = printint x 10 s"
  by (simp add: cons_printint_def printint_def cons_digits_10)

text \<open>
  C36. The kernel's \<open>cprintf\<close> and the user library's \<open>printf\<close> put out the same bytes for the same format
  and arguments, including a format that ends in a percent sign and unknown conversions, for every format that
  does not use the hexadecimal conversions, whose digits differ in case, or \<open>%c\<close>, which the kernel does not know.
\<close>

theorem printf_agrees_with_cprintf:
  assumes "99 \<notin> set (conversions fmt)" "112 \<notin> set (conversions fmt)" "120 \<notin> set (conversions fmt)"
  shows "printf fmt args = cprintf_out fmt args"
  using assms unfolding printf_def
proof (induction fmt args rule: cprintf_out.induct)
  case (2 c args)
  show ?case by simp
next
  case (3 c d fmt args)
  show ?case
  proof (cases "c = 37")
    case False
    with 3 show ?thesis by simp
  next
    case True
    with 3(2-) show ?thesis
      by (auto simp: cons_printint_10 split: list.split carg.split)
  qed
qed simp

theorem printf_agrees_with_cprintf_witness:
  "printf (ascii ''%d %s%%%'') [Num (- 7), Str None] = cprintf_out (ascii ''%d %s%%%'') [Num (- 7), Str None] \<and>
   cprintf_out (ascii ''%d %s%%%'') [Num (- 7), Str None] = Some (ascii ''-7 (null)%'')"
proof -
  have "99 \<notin> set (conversions (ascii ''%d %s%%%''))" "112 \<notin> set (conversions (ascii ''%d %s%%%''))"
    "120 \<notin> set (conversions (ascii ''%d %s%%%''))" by code_simp+
  note p = printf_agrees_with_cprintf [OF this]
  have "cprintf_out (ascii ''%d %s%%%'') [Num (- 7), Str None] = Some (ascii ''-7 (null)%'')" by code_simp
  then show ?thesis by (simp add: p)
qed

end
