(* ===== verification/Console.thy ===== *)
theory Console
  imports Printf File_Table
begin

text \<open>
  The console, \<open>src/P1/xv6/xv6/kernel/console.c\<close>, with the serial output of \<open>uart.c\<close>: the screen
  of 80 by 25 cells behind the video controller, \<open>cprintf\<close> and \<open>panic\<close>, the input ring with its three
  free-running indices, the interrupt handler that edits the line being typed and the \<open>read\<close> and
  \<open>write\<close> functions of the device. A read is modelled, as for pipes, by the slice from entry or wake-up to the
  next sleep or return. The lock of the console makes each handler and each slice one step.
\<close>

section \<open>State\<close>

definition BACKSPACE :: nat where "BACKSPACE = 256"
definition INPUT_BUF :: nat where "INPUT_BUF = 128"
definition screen_cells :: nat where "screen_cells = 24 * 80"

text \<open>
  \<open>crt\<close> is the video memory at \<open>0xb8000\<close>, \<open>crt_pos\<close> the cursor in the controller's registers,
  \<open>uart_out\<close> what went out on the serial line.
\<close>

record console =
  crt :: "nat \<Rightarrow> 16 word"
  crt_pos :: nat
  uart :: bool
  uart_out :: "byte list"
  con_panicked :: bool
  con_buf :: "byte list"
  con_r :: "32 word"
  con_w :: "32 word"
  con_e :: "32 word"

text \<open>Readers sleep on the address of the read index.\<close>

definition input_r :: channel where "input_r = Ch_addr 1"

section \<open>Output\<close>

definition uartputc :: "byte \<Rightarrow> console \<Rightarrow> console" where
  "uartputc c s = (if uart s then s\<lparr>uart_out := uart_out s @ [c]\<rparr> else s)"

text \<open>
  The byte counts of \<open>memmove\<close> and \<open>memset\<close> are twice the numbers of cells; the one of \<open>memset\<close> is unsigned.
\<close>

definition scroll :: "nat \<Rightarrow> (nat \<Rightarrow> 16 word) \<Rightarrow> nat \<times> (nat \<Rightarrow> 16 word)" where
  "scroll pos m =
     (let m = (\<lambda>i. if i < 23 * 80 then m (i + 80) else m i);
          pos = pos - 80;
          n = nat ((24 * 80 - int pos) mod 2 ^ 31)
      in (pos, \<lambda>i. if pos \<le> i \<and> i < pos + n then 0 else m i))"

definition cgaputc :: "nat \<Rightarrow> console \<Rightarrow> console" where
  "cgaputc c s =
     (let pos = crt_pos s;
          (pos, m) =
            (if c = 10 then (pos + (80 - pos mod 80), crt s)
             else if c = BACKSPACE then (if pos > 0 then pos - 1 else pos, crt s)
             else (pos + 1, (crt s)(pos := of_nat (c mod 256) + 0x0700)));
          (pos, m) = (if pos div 80 \<ge> 24 then scroll pos m else (pos, m))
      in s\<lparr>crt_pos := pos mod 2 ^ 16, crt := m(pos := 0x0720)\<rparr>)"

definition consputc :: "nat \<Rightarrow> console \<Rightarrow> console kres" where
  "consputc c s =
     (if con_panicked s then Loops
      else let s = (if c = BACKSPACE then uartputc 8 (uartputc 32 (uartputc 8 s)) else uartputc (of_nat c) s)
           in Ok (cgaputc c s))"

fun consputs :: "byte list \<Rightarrow> console \<Rightarrow> console kres" where
  "consputs [] s = Ok s"
| "consputs (c # cs) s = kbind (consputc (unat c) s) (consputs cs)"

text \<open>A call whose arguments do not fit the format has no result; the kernel has none.\<close>

definition cprintf :: "string \<Rightarrow> carg list \<Rightarrow> console \<Rightarrow> console kres" where
  "cprintf fmt args s = (case cprintf_out (ascii fmt) args of None \<Rightarrow> Loops | Some out \<Rightarrow> consputs out s)"

fun cprintf_all :: "string \<Rightarrow> 32 word list \<Rightarrow> console \<Rightarrow> console kres" where
  "cprintf_all fmt [] s = Ok s"
| "cprintf_all fmt (x # xs) s = kbind (cprintf fmt [Num x] s) (cprintf_all fmt xs)"

text \<open>\<open>panic\<close> up to its endless loop; \<open>ras\<close> are the ten return addresses \<open>getcallerpcs\<close> finds.\<close>

definition panic :: "nat \<Rightarrow> 32 word list \<Rightarrow> string \<Rightarrow> console \<Rightarrow> console kres" where
  "panic cpu_id ras msg s =
     kbind (cprintf ''cpu%d: panic: '' [Num (of_nat cpu_id)] s) (\<lambda>s.
     kbind (cprintf msg [] s) (\<lambda>s.
     kbind (consputs [10] s) (\<lambda>s.
     kbind (cprintf_all '' %p'' ras s) (\<lambda>s.
     Ok (s\<lparr>con_panicked := True\<rparr>)))))"

section \<open>procdump\<close>

fun state_name :: "procstate \<Rightarrow> string" where
  "state_name UNUSED = ''unused''"
| "state_name EMBRYO = ''embryo''"
| "state_name SLEEPING = ''sleep ''"
| "state_name RUNNABLE = ''runble''"
| "state_name RUNNING = ''run   ''"
| "state_name ZOMBIE = ''zombie''"

text \<open>\<open>ras i\<close>: the return addresses on the kernel stack of process \<open>i\<close>. The name is printed up to its NUL.\<close>

definition procdump_one :: "(nat \<Rightarrow> 32 word list) \<Rightarrow> ptable \<Rightarrow> nat \<Rightarrow> console \<Rightarrow> console kres" where
  "procdump_one ras t i s =
     (let p = procs t i in
      if p_state p = UNUSED then Ok s
      else kbind (cprintf ''%d %s %s'' [Num (of_int (p_pid p)), Str (Some (ascii (state_name (p_state p)))), Str (Some (takeWhile (\<lambda>b. b \<noteq> 0) (p_name p)))] s) (\<lambda>s.
           kbind (if p_state p = SLEEPING then cprintf_all '' %p'' (takeWhile (\<lambda>pc. pc \<noteq> 0) (take 10 (ras i))) s else Ok s)
             (consputs [10])))"

fun procdump_from :: "(nat \<Rightarrow> 32 word list) \<Rightarrow> ptable \<Rightarrow> nat list \<Rightarrow> console \<Rightarrow> console kres" where
  "procdump_from ras t [] s = Ok s"
| "procdump_from ras t (i # is) s = kbind (procdump_one ras t i s) (procdump_from ras t is)"

definition procdump :: "(nat \<Rightarrow> 32 word list) \<Rightarrow> ptable \<Rightarrow> console \<Rightarrow> console kres" where
  "procdump ras t = procdump_from ras t [0..<NPROC]"

section \<open>Output stays on the screen\<close>

abbreviation ring_same :: "console \<Rightarrow> console \<Rightarrow> bool" where
  "ring_same s s' \<equiv> con_buf s' = con_buf s \<and> con_r s' = con_r s \<and> con_w s' = con_w s \<and> con_e s' = con_e s"

text \<open>Output changes neither the input ring nor whether the kernel has panicked, and no cell below the screen.\<close>

definition shows_only :: "console \<Rightarrow> console \<Rightarrow> bool" where
  "shows_only s s' \<longleftrightarrow> ring_same s s' \<and> con_panicked s' = con_panicked s \<and>
     (crt_pos s < screen_cells \<longrightarrow> crt_pos s' < screen_cells \<and> (\<forall>i \<ge> screen_cells. crt s' i = crt s i))"

lemma shows_only_refl [simp]: "shows_only s s"
  by (simp add: shows_only_def)

lemma shows_only_trans: "shows_only s t \<Longrightarrow> shows_only t u \<Longrightarrow> shows_only s u"
  by (auto simp: shows_only_def)

lemma uartputc_shows: "shows_only s (uartputc c s)"
  by (simp add: shows_only_def uartputc_def)

lemma cgaputc_ring: "ring_same s (cgaputc c s) \<and> con_panicked (cgaputc c s) = con_panicked s"
proof -
  have "\<exists>p m. cgaputc c s = s\<lparr>crt_pos := p, crt := m\<rparr>" unfolding cgaputc_def Let_def case_prod_unfold by blast
  then show ?thesis by auto
qed

lemma cgaputc_pos:
  assumes "crt_pos s < screen_cells"
  shows "crt_pos (cgaputc c s) < screen_cells \<and> (\<forall>i \<ge> screen_cells. crt (cgaputc c s) i = crt s i)"
proof -
  have nl: "crt_pos s + (80 - crt_pos s mod 80) \<le> screen_cells"
  proof -
    have "crt_pos s div 80 < 24" using assms by (simp add: screen_cells_def)
    then have "80 * (crt_pos s div 80) + 80 \<le> 24 * 80" by simp
    moreover have "crt_pos s + (80 - crt_pos s mod 80) = 80 * (crt_pos s div 80) + 80"
      using div_mult_mod_eq [of "crt_pos s" 80] mod_less_divisor [of 80 "crt_pos s"] by linarith
    ultimately show ?thesis by (simp add: screen_cells_def)
  qed
  have sc: "fst (scroll p m) < screen_cells \<and> (\<forall>i \<ge> screen_cells. snd (scroll p m) i = m i)" if "p \<le> screen_cells" "p div 80 \<ge> 24" for p m
  proof -
    from that have "p = 1920" by (simp add: screen_cells_def)
    then show ?thesis by (simp add: scroll_def screen_cells_def Let_def)
  qed
  have fin: "crt_pos (s\<lparr>crt_pos := p mod 2 ^ 16, crt := m(p := 0x0720)\<rparr>) < screen_cells \<and>
      (\<forall>i \<ge> screen_cells. crt (s\<lparr>crt_pos := p mod 2 ^ 16, crt := m(p := 0x0720)\<rparr>) i = m i)" if "p < screen_cells" for p m
    using that by (simp add: screen_cells_def)
  define pm where "pm = (if c = 10 then (crt_pos s + (80 - crt_pos s mod 80), crt s)
     else if c = BACKSPACE then (if crt_pos s > 0 then crt_pos s - 1 else crt_pos s, crt s)
     else (crt_pos s + 1, (crt s)(crt_pos s := of_nat (c mod 256) + 0x0700)))"
  have pm: "fst pm \<le> screen_cells" "\<forall>i \<ge> screen_cells. snd pm i = crt s i" using assms nl by (auto simp: pm_def)
  define qm where "qm = (if fst pm div 80 \<ge> 24 then scroll (fst pm) (snd pm) else pm)"
  have "fst qm < screen_cells" "\<forall>i \<ge> screen_cells. snd qm i = crt s i"
    using pm sc [of "fst pm" "snd pm"] by (auto simp: qm_def screen_cells_def)
  moreover have "cgaputc c s = s\<lparr>crt_pos := fst qm mod 2 ^ 16, crt := (snd qm)(fst qm := 0x0720)\<rparr>"
    unfolding cgaputc_def Let_def pm_def [symmetric] qm_def by (simp add: case_prod_unfold)
  ultimately show ?thesis using fin [of "fst qm" "snd qm"] by auto
qed

lemma cgaputc_shows: "shows_only s (cgaputc c s)"
  using cgaputc_ring cgaputc_pos [of s c] by (auto simp: shows_only_def)

lemma consputc_ok: "\<not> con_panicked s \<Longrightarrow> \<exists>s'. consputc c s = Ok s' \<and> shows_only s s'"
  by (auto simp: consputc_def Let_def intro!: shows_only_trans [OF _ cgaputc_shows] shows_only_trans [OF _ uartputc_shows])

lemma consputs_ok: "\<not> con_panicked s \<Longrightarrow> \<exists>s'. consputs cs s = Ok s' \<and> shows_only s s'"
proof (induction cs arbitrary: s)
  case (Cons c cs)
  from consputc_ok [OF Cons.prems] obtain s1 where s1: "consputc (unat c) s = Ok s1" "shows_only s s1" by blast
  then have "\<not> con_panicked s1" using Cons.prems by (simp add: shows_only_def)
  from Cons.IH [OF this] s1 show ?case by (auto intro: shows_only_trans)
qed simp

lemma shows_only_panicked: "shows_only s s' \<Longrightarrow> \<not> con_panicked s \<Longrightarrow> \<not> con_panicked s'"
  by (simp add: shows_only_def)

lemma kbind_shows:
  assumes "\<exists>s'. r = Ok s' \<and> shows_only s s'" and "\<not> con_panicked s"
    and "\<And>s'. \<not> con_panicked s' \<Longrightarrow> \<exists>s2. f s' = Ok s2 \<and> shows_only s' s2"
  shows "\<exists>s2. kbind r f = Ok s2 \<and> shows_only s s2"
proof -
  obtain s' where s': "r = Ok s'" "shows_only s s'" using assms(1) by blast
  then have "\<not> con_panicked s'" using assms(2) by (simp add: shows_only_def)
  from assms(3) [OF this] s' show ?thesis by (auto intro: shows_only_trans)
qed

lemma cprintf_ok: "\<not> con_panicked s \<Longrightarrow> cprintf_out (ascii fmt) args \<noteq> None \<Longrightarrow> \<exists>s'. cprintf fmt args s = Ok s' \<and> shows_only s s'"
  using consputs_ok by (auto simp: cprintf_def)

lemma pointer_fits: "cprintf_out (ascii '' %p'') [Num x] \<noteq> None"
proof -
  have a: "ascii '' %p'' = [32, 37, 112]" by (simp add: ascii_def)
  show ?thesis unfolding a by simp
qed

lemma cprintf_all_ok: "\<not> con_panicked s \<Longrightarrow> \<exists>s'. cprintf_all '' %p'' xs s = Ok s' \<and> shows_only s s'"
proof (induction xs arbitrary: s)
  case (Cons x xs)
  then show ?case using pointer_fits [of x] by (auto intro!: kbind_shows cprintf_ok)
qed simp

lemma procdump_one_ok: "\<not> con_panicked s \<Longrightarrow> \<exists>s'. procdump_one ras t i s = Ok s' \<and> shows_only s s'"
proof -
  assume n: "\<not> con_panicked s"
  have a: "ascii ''%d %s %s'' = [37, 100, 32, 37, 115, 32, 37, 115]" by (simp add: ascii_def)
  have "cprintf_out (ascii ''%d %s %s'') [Num x, Str a, Str b] \<noteq> None" for x a b unfolding a by simp
  with n show ?thesis
    unfolding procdump_one_def Let_def
    by (auto intro!: kbind_shows cprintf_ok cprintf_all_ok consputs_ok simp del: consputs.simps)
qed

lemma procdump_ok: "\<not> con_panicked s \<Longrightarrow> \<exists>s'. procdump ras t s = Ok s' \<and> shows_only s s'"
proof -
  have "\<not> con_panicked s \<Longrightarrow> \<exists>s'. procdump_from ras t is s = Ok s' \<and> shows_only s s'" for "is"
    by (induction "is" arbitrary: s) (auto intro!: kbind_shows procdump_one_ok)
  then show "\<not> con_panicked s \<Longrightarrow> ?thesis" unfolding procdump_def .
qed

text \<open>
  C37. Console output stays on the screen and out of the input: from a cursor inside the first 24 rows, printing any
  bytes leaves the cursor inside them, through line breaks and scrolling, writes no cell of the video memory below
  them and does not touch the input ring; it returns unless the kernel has panicked.
\<close>

theorem consputs_on_screen:
  assumes "\<not> con_panicked s" "crt_pos s < screen_cells"
  shows "\<exists>s'. consputs cs s = Ok s' \<and> crt_pos s' < screen_cells \<and> (\<forall>i \<ge> screen_cells. crt s' i = crt s i) \<and>
     con_buf s' = con_buf s \<and> con_r s' = con_r s \<and> con_w s' = con_w s \<and> con_e s' = con_e s"
  using consputs_ok [OF assms(1), of cs] assms(2) unfolding shows_only_def by blast

definition boot_console :: console where
  "boot_console = \<lparr>crt = (\<lambda>_. 0), crt_pos = 0, uart = True, uart_out = [], con_panicked = False,
     con_buf = replicate INPUT_BUF 0, con_r = 0, con_w = 0, con_e = 0\<rparr>"

theorem consputs_on_screen_witness:
  "\<exists>s'. consputs [104, 10, 105] (boot_console\<lparr>crt_pos := 1910\<rparr>) = Ok s' \<and> crt_pos s' < screen_cells"
proof -
  have "\<not> con_panicked (boot_console\<lparr>crt_pos := 1910\<rparr>)" "crt_pos (boot_console\<lparr>crt_pos := 1910\<rparr>) < screen_cells"
    by (simp_all add: boot_console_def screen_cells_def)
  from consputs_on_screen [OF this, of "[104, 10, 105]"] show ?thesis by blast
qed

section \<open>Input\<close>

text \<open>The erase loop of \<open>consoleintr\<close>.\<close>

function con_kill :: "console \<Rightarrow> console kres" where
  "con_kill s =
     (if con_e s \<noteq> con_w s \<and> con_buf s ! (unat (con_e s - 1) mod INPUT_BUF) \<noteq> 10
      then kbind (consputc BACKSPACE (s\<lparr>con_e := con_e s - 1\<rparr>)) con_kill
      else Ok s)"
  by pat_completeness auto
termination
proof (relation "measure (\<lambda>s. unat (con_e s - con_w s))", goal_cases)
  case (2 s s')
  then have "\<not> con_panicked s" by (auto simp: consputc_def split: if_splits)
  with 2(2) consputc_ok [of "s\<lparr>con_e := con_e s - 1\<rparr>" BACKSPACE] have "con_e s' = con_e s - 1" "con_w s' = con_w s"
    by (auto simp: shows_only_def)
  moreover have "con_e s - con_w s \<noteq> 0" using 2(1) by simp
  then have "unat (con_e s - con_w s - 1) < unat (con_e s - con_w s)" by (rule measure_unat)
  moreover have "con_e s - 1 - con_w s = con_e s - con_w s - 1" by simp
  ultimately show ?case by (metis in_measure)
qed simp

declare con_kill.simps [simp del]

definition con_erase :: "console \<Rightarrow> console kres" where
  "con_erase s =
     (if con_e s \<noteq> con_w s then consputc BACKSPACE (s\<lparr>con_e := con_e s - 1\<rparr>) else Ok s)"

definition con_insert :: "byte \<Rightarrow> console \<times> ptable \<Rightarrow> (console \<times> ptable) kres" where
  "con_insert c = (\<lambda>(s, t).
     if c \<noteq> 0 \<and> con_e s - con_r s < of_nat INPUT_BUF then
       let c = (if c = 13 then 10 else c);
           s = s\<lparr>con_buf := (con_buf s)[unat (con_e s) mod INPUT_BUF := c], con_e := con_e s + 1\<rparr>
       in kbind (consputc (unat c) s) (\<lambda>s.
            if c = 10 \<or> c = 4 \<or> con_e s = con_r s + of_nat INPUT_BUF
            then Ok (s\<lparr>con_w := con_e s\<rparr>, wakeup input_r t)
            else Ok (s, t))
     else Ok (s, t))"

text \<open>The handler, given what \<open>getc\<close> returns until it has nothing more.\<close>

fun consoleintr :: "(nat \<Rightarrow> 32 word list) \<Rightarrow> byte list \<Rightarrow> console \<times> ptable \<Rightarrow> (console \<times> ptable) kres" where
  "consoleintr ras [] st = Ok st"
| "consoleintr ras (c # cs) (s, t) =
     kbind (if c = 16 then kbind (procdump ras t s) (\<lambda>s. Ok (s, t))
            else if c = 21 then kbind (con_kill s) (\<lambda>s. Ok (s, t))
            else if c = 8 \<or> c = 127 then kbind (con_erase s) (\<lambda>s. Ok (s, t))
            else con_insert c (s, t))
       (consoleintr ras cs)"

text \<open>
  \<open>consoleread\<close> from its loop head with \<open>n\<close> bytes to go of \<open>target\<close>: the bytes it delivers, what is still to go
  and the result; a reader that blocks comes back to the same point.
\<close>

fun consoleread_loop :: "bool \<Rightarrow> nat \<Rightarrow> nat \<Rightarrow> console \<Rightarrow> console \<times> byte list \<times> nat \<times> int outcome" where
  "consoleread_loop killed target 0 s = (s, [], 0, Returns (int target))"
| "consoleread_loop killed target (Suc n) s =
     (if con_r s = con_w s then (s, [], Suc n, if killed then Returns (- 1) else Blocks)
      else let c = con_buf s ! (unat (con_r s) mod INPUT_BUF); s = s\<lparr>con_r := con_r s + 1\<rparr> in
        if c = 4 then (if Suc n < target then s\<lparr>con_r := con_r s - 1\<rparr> else s, [], Suc n, Returns (int target - int (Suc n)))
        else if c = 10 then (s, [c], n, Returns (int target - int n))
        else let (s, cs, m, r) = consoleread_loop killed target n s in (s, c # cs, m, r))"

definition consoleread :: "bool \<Rightarrow> int \<Rightarrow> console \<Rightarrow> console \<times> byte list \<times> nat \<times> int outcome" where
  "consoleread killed n s = consoleread_loop killed (nat n) (nat n) s"

definition consolewrite :: "byte list \<Rightarrow> int \<Rightarrow> console \<Rightarrow> (int \<times> console) kres" where
  "consolewrite d n s = kbind (consputs (take (nat n) d) s) (\<lambda>s. Ok (n, s))"

end
