(* ===== verification/Line_Input.thy ===== *)
theory Line_Input
  imports Console
begin

text \<open>
  What the input side of the console (theory \<open>Console\<close>) promises: a line editor on two lists, the input that
  readers may take and the line under edit. The ring with its wrapping 32-bit indices implements it for every
  interleaving of typing and reading, and no reader sleeps while there is input to take.
\<close>

section \<open>The line editor\<close>

type_synonym lined = "byte list \<times> byte list"

definition line_key :: "byte \<Rightarrow> lined \<Rightarrow> lined" where
  "line_key c = (\<lambda>(cooked, edit).
     if c = 16 then (cooked, edit)
     else if c = 21 then (cooked, [])
     else if c = 8 \<or> c = 127 then (cooked, butlast edit)
     else if c \<noteq> 0 \<and> length cooked + length edit < INPUT_BUF then
       (let c = (if c = 13 then 10 else c) in
        if c = 10 \<or> c = 4 \<or> length cooked + length edit + 1 = INPUT_BUF then (cooked @ edit @ [c], [])
        else (cooked, edit @ [c]))
     else (cooked, edit))"

text \<open>
  A read takes what is before the first newline or end-of-input mark, the newline with it; a mark ends the
  read and stays if the read has delivered something, so that the next read returns 0.
\<close>

definition line_read :: "bool \<Rightarrow> nat \<Rightarrow> nat \<Rightarrow> byte list \<Rightarrow> byte list \<times> byte list \<times> int outcome" where
  "line_read killed target n cooked =
     (let line = takeWhile (\<lambda>c. c \<noteq> 10 \<and> c \<noteq> 4) cooked; rest = drop (length line) cooked in
      if n \<le> length line then (take n line, drop n cooked, Returns (int target))
      else let got = int target - int n + int (length line) in
        case rest of
          [] \<Rightarrow> (line, [], if killed then Returns (- 1) else Blocks)
        | c # rest' \<Rightarrow>
            if c = 10 then (line @ [10], rest', Returns (got + 1))
            else (line, if got = 0 then rest' else rest, Returns got))"

section \<open>The ring as a window of the input\<close>

definition ring_bytes :: "byte list \<Rightarrow> 32 word \<Rightarrow> nat \<Rightarrow> byte list" where
  "ring_bytes buf a n = map (\<lambda>i. buf ! ((unat a + i) mod INPUT_BUF)) [0..<n]"

abbreviation n_ready :: "console \<Rightarrow> nat" where
  "n_ready s \<equiv> unat (con_w s - con_r s)"

abbreviation n_window :: "console \<Rightarrow> nat" where
  "n_window s \<equiv> unat (con_e s - con_r s)"

definition con_window :: "console \<Rightarrow> byte list" where
  "con_window s = ring_bytes (con_buf s) (con_r s) (n_window s)"

definition con_lines :: "console \<Rightarrow> lined" where
  "con_lines s = (take (n_ready s) (con_window s), drop (n_ready s) (con_window s))"

definition con_inv :: "console \<Rightarrow> bool" where
  "con_inv s \<longleftrightarrow> length (con_buf s) = INPUT_BUF \<and> n_ready s \<le> n_window s \<and> n_window s \<le> INPUT_BUF \<and>
     10 \<notin> set (snd (con_lines s))"

lemma length_ring_bytes [simp]: "length (ring_bytes buf a n) = n"
  by (simp add: ring_bytes_def)

lemma length_window [simp]: "length (con_window s) = n_window s"
  by (simp add: con_window_def)

lemma unat_add_mod128: "unat (a + b :: 32 word) mod 128 = (unat a + unat b) mod 128"
  by (simp add: unat_word_ariths mod_mod_cancel)

lemma unat_suc128: "unat (d :: 32 word) \<le> 128 \<Longrightarrow> unat (d + 1) = Suc (unat d)"
  by (simp add: unat_word_ariths)

lemma unat_pred: "(d :: 32 word) \<noteq> 0 \<Longrightarrow> unat (d - 1) = unat d - 1"
  by (rule unat_minus_one)

lemma ring_bytes_Suc: "ring_bytes buf a (Suc n) = ring_bytes buf a n @ [buf ! ((unat a + n) mod INPUT_BUF)]"
  by (simp add: ring_bytes_def)

lemma ring_bytes_Cons: "ring_bytes buf a (Suc n) = buf ! (unat a mod INPUT_BUF) # ring_bytes buf (a + 1) n"
proof -
  have sh: "(unat (a + 1) + i) mod 128 = (unat a + Suc i) mod 128" for i
  proof -
    have "(unat (a + 1) + i) mod 128 = (unat (a + 1) mod 128 + i) mod 128" by (simp add: mod_simps)
    also have "\<dots> = (unat a + 1 + i) mod 128"
      unfolding unat_add_mod128 by (simp add: mod_simps del: One_nat_def)
    finally show ?thesis by simp
  qed
  have up: "[0..<Suc n] = 0 # map Suc [0..<n]" by (simp add: map_Suc_upt upt_conv_Cons del: upt_Suc)
  show ?thesis unfolding ring_bytes_def up using sh by (simp add: INPUT_BUF_def)
qed

lemma ring_bytes_update:
  assumes "n < INPUT_BUF" "length buf = INPUT_BUF"
  shows "ring_bytes (buf[(unat a + n) mod INPUT_BUF := c]) a (Suc n) = ring_bytes buf a n @ [c]"
proof -
  have "ring_bytes (buf[(unat a + n) mod INPUT_BUF := c]) a n = ring_bytes buf a n"
    unfolding ring_bytes_def
    by (intro map_cong refl nth_list_update_neq) (metis assms(1) atLeastLessThan_iff mod_window_distinct set_upt)
  then show ?thesis using assms by (simp add: ring_bytes_Suc INPUT_BUF_def)
qed

lemma end_index: "unat (con_e s) mod INPUT_BUF = (unat (con_r s) + n_window s) mod INPUT_BUF"
  using unat_add_mod128 [of "con_r s" "con_e s - con_r s"] by (simp add: INPUT_BUF_def)

lemma nothing_edited: "con_e s = con_w s \<longleftrightarrow> n_window s = n_ready s"
  by (metis diff_add_cancel word_unat_eq_iff)

lemma nothing_ready: "con_r s = con_w s \<longleftrightarrow> n_ready s = 0"
  by (auto simp: unat_eq_zero)

section \<open>The operations on the window\<close>

lemma con_lines_cong: "ring_same s s' \<Longrightarrow> con_lines s' = con_lines s \<and> con_inv s' = con_inv s"
  by (simp add: con_lines_def con_window_def con_inv_def)

lemma shows_lines: "shows_only s s' \<Longrightarrow> con_lines s' = con_lines s \<and> con_inv s' = con_inv s"
  by (intro con_lines_cong) (simp add: shows_only_def)

lemma push_window:
  fixes c :: byte
  assumes "con_inv s" "n_window s < INPUT_BUF"
  defines "s1 \<equiv> s\<lparr>con_buf := (con_buf s)[unat (con_e s) mod INPUT_BUF := c], con_e := con_e s + 1\<rparr>"
  shows "n_window s1 = Suc (n_window s)" "n_ready s1 = n_ready s" "con_window s1 = con_window s @ [c]"
    "length (con_buf s1) = INPUT_BUF"
proof -
  have d: "con_e s + 1 - con_r s = con_e s - con_r s + 1" by simp
  have n: "unat (con_e s + 1 - con_r s) = Suc (n_window s)" unfolding d using assms(2)
    by (intro unat_suc128) (simp add: INPUT_BUF_def)
  then show "n_window s1 = Suc (n_window s)" by (simp add: s1_def)
  show "n_ready s1 = n_ready s" by (simp add: s1_def)
  have "length (con_buf s) = INPUT_BUF" using assms(1) by (simp add: con_inv_def)
  then show "con_window s1 = con_window s @ [c]" using n assms(2)
    by (simp add: con_window_def s1_def end_index ring_bytes_update)
  show "length (con_buf s1) = INPUT_BUF" using assms(1) by (simp add: con_inv_def s1_def)
qed

lemma pop_window:
  assumes "con_inv s" "con_e s \<noteq> con_w s"
  defines "s1 \<equiv> s\<lparr>con_e := con_e s - 1\<rparr>"
  shows "con_lines s1 = (fst (con_lines s), butlast (snd (con_lines s)))" "con_inv s1"
    "snd (con_lines s) \<noteq> [] \<and> last (snd (con_lines s)) = con_buf s ! (unat (con_e s - 1) mod INPUT_BUF)"
proof -
  have lt: "n_ready s < n_window s" using assms by (auto simp: con_inv_def nothing_edited)
  then have "con_e s - con_r s \<noteq> 0" by auto
  moreover have "con_e s - 1 - con_r s = con_e s - con_r s - 1" by simp
  ultimately have n1: "unat (con_e s - 1 - con_r s) = n_window s - 1" using unat_pred by presburger
  then have n: "n_window s1 = n_window s - 1" "n_ready s1 = n_ready s" by (simp_all add: s1_def)
  obtain m where m: "n_window s = Suc m" using lt by (cases "n_window s") auto
  have w: "con_window s = con_window s1 @ [con_buf s ! ((unat (con_r s) + m) mod INPUT_BUF)]"
    using m n by (simp add: con_window_def s1_def ring_bytes_Suc)
  have e: "(unat (con_r s) + m) mod INPUT_BUF = unat (con_e s - 1) mod INPUT_BUF"
    using end_index [of s1] n m by (simp add: s1_def)
  have k: "n_ready s \<le> length (con_window s1)" using lt n m by simp
  have l: "con_lines s = (take (n_ready s) (con_window s1), drop (n_ready s) (con_window s1) @ [con_buf s ! (unat (con_e s - 1) mod INPUT_BUF)])"
    unfolding con_lines_def w e using k by simp
  show 1: "con_lines s1 = (fst (con_lines s), butlast (snd (con_lines s)))" unfolding l by (simp add: con_lines_def n)
  show "snd (con_lines s) \<noteq> [] \<and> last (snd (con_lines s)) = con_buf s ! (unat (con_e s - 1) mod INPUT_BUF)" unfolding l by simp
  have "length (con_buf s1) = INPUT_BUF" using assms(1) by (simp add: con_inv_def s1_def)
  moreover have "n_ready s1 \<le> n_window s1" "n_window s1 \<le> INPUT_BUF" using assms(1) lt n unfolding con_inv_def by linarith+
  moreover have "10 \<notin> set (snd (con_lines s1))" using assms(1) in_set_butlastD unfolding 1 con_inv_def by fastforce
  ultimately show "con_inv s1" unfolding con_inv_def by blast
qed

lemma get_window:
  assumes "con_inv s" "con_r s \<noteq> con_w s"
  defines "s1 \<equiv> s\<lparr>con_r := con_r s + 1\<rparr>"
  shows "fst (con_lines s) = con_buf s ! (unat (con_r s) mod INPUT_BUF) # fst (con_lines s1)"
    "snd (con_lines s1) = snd (con_lines s)" "con_inv s1"
proof -
  have lt: "n_ready s > 0" using assms(2) nothing_ready [of s] by simp
  have pred: "unat (x - (con_r s + 1)) = unat (x - con_r s) - 1" if "unat (x - con_r s) > 0" for x
  proof -
    have "x - (con_r s + 1) = x - con_r s - 1" by simp
    moreover have "x - con_r s \<noteq> 0" using that by auto
    ultimately show ?thesis using unat_pred by presburger
  qed
  have wn: "n_window s > 0" using lt assms(1) by (simp add: con_inv_def)
  have n: "n_ready s1 = n_ready s - 1" "n_window s1 = n_window s - 1" using pred lt wn by (simp_all add: s1_def)
  obtain m k where m: "n_window s = Suc m" "n_ready s = Suc k" using lt wn by (metis gr0_implies_Suc)
  have w: "con_window s = con_buf s ! (unat (con_r s) mod INPUT_BUF) # con_window s1"
    using m n by (simp add: con_window_def s1_def ring_bytes_Cons)
  show "fst (con_lines s) = con_buf s ! (unat (con_r s) mod INPUT_BUF) # fst (con_lines s1)"
    unfolding con_lines_def w n m by simp
  show s: "snd (con_lines s1) = snd (con_lines s)" unfolding con_lines_def w n m by simp
  have "length (con_buf s1) = INPUT_BUF" using assms(1) by (simp add: con_inv_def s1_def)
  moreover have "n_ready s1 \<le> n_window s1" "n_window s1 \<le> INPUT_BUF" using assms(1) n unfolding con_inv_def by linarith+
  ultimately show "con_inv s1" using assms(1) s unfolding con_inv_def by simp
qed

section \<open>Refinement\<close>

lemma con_kill_spec:
  "con_inv s \<Longrightarrow> \<not> con_panicked s \<Longrightarrow>
   \<exists>s'. con_kill s = Ok s' \<and> \<not> con_panicked s' \<and> con_inv s' \<and> con_lines s' = (fst (con_lines s), [])"
proof (induction "length (snd (con_lines s))" arbitrary: s rule: less_induct)
  case less
  show ?case
  proof (cases "con_e s = con_w s")
    case True
    then have "con_lines s = (fst (con_lines s), [])" using nothing_edited [of s] by (simp add: con_lines_def)
    then show ?thesis using less.prems True by (subst con_kill.simps) auto
  next
    case False
    let ?s = "s\<lparr>con_e := con_e s - 1\<rparr>"
    note p = pop_window [OF less.prems(1) False]
    have "con_buf s ! (unat (con_e s - 1) mod INPUT_BUF) \<noteq> 10"
      using p(3) less.prems(1) unfolding con_inv_def by (metis last_in_set)
    then have k: "con_kill s = kbind (consputc BACKSPACE ?s) con_kill" using False by (subst con_kill.simps) simp
    obtain s1 where s1: "consputc BACKSPACE ?s = Ok s1" "shows_only ?s s1" using consputc_ok [of ?s] less.prems(2) by auto
    then have l: "con_lines s1 = (fst (con_lines s), butlast (snd (con_lines s)))" "con_inv s1" "\<not> con_panicked s1"
      using shows_lines [OF s1(2)] p less.prems(2) by (auto simp: shows_only_def)
    then have "length (snd (con_lines s1)) < length (snd (con_lines s))" using p(3) by simp
    from less.hyps [OF this l(2,3)] show ?thesis using l(1) s1(1) k by simp
  qed
qed

lemma con_erase_spec:
  assumes "con_inv s" "\<not> con_panicked s"
  shows "\<exists>s'. con_erase s = Ok s' \<and> \<not> con_panicked s' \<and> con_inv s' \<and>
     con_lines s' = (fst (con_lines s), butlast (snd (con_lines s)))"
proof (cases "con_e s = con_w s")
  case True
  then have "con_lines s = (fst (con_lines s), [])" using nothing_edited [of s] by (simp add: con_lines_def)
  then show ?thesis using assms True by (metis butlast.simps(1) con_erase_def snd_conv)
next
  case False
  let ?s = "s\<lparr>con_e := con_e s - 1\<rparr>"
  obtain s1 where s1: "consputc BACKSPACE ?s = Ok s1" "shows_only ?s s1" using consputc_ok [of ?s] assms(2) by auto
  then show ?thesis using shows_lines [OF s1(2)] pop_window [OF assms(1) False] assms(2) False
    by (auto simp: con_erase_def shows_only_def)
qed

lemma length_lines: "con_inv s \<Longrightarrow> length (fst (con_lines s)) + length (snd (con_lines s)) = n_window s"
  by (simp add: con_lines_def con_inv_def)

text \<open>A commit wakes every reader: afterwards none sleeps on the channel.\<close>

definition no_reader :: "ptable \<Rightarrow> bool" where
  "no_reader t \<longleftrightarrow> (\<forall>i < NPROC. \<not> (p_state (procs t i) = SLEEPING \<and> p_chan (procs t i) = Some input_r))"

lemma wakeup_no_reader: "no_reader (wakeup input_r t)"
  by (simp add: no_reader_def wakeup_def wakeup1_def Let_def)

lemma con_insert_spec:
  assumes "con_inv s" "\<not> con_panicked s" "c \<noteq> 16" "c \<noteq> 21" "c \<noteq> 8" "c \<noteq> 127"
  shows "\<exists>s' t'. con_insert c (s, t) = Ok (s', t') \<and> \<not> con_panicked s' \<and> con_inv s' \<and> con_lines s' = line_key c (con_lines s) \<and>
     (t' = t \<and> fst (con_lines s') = fst (con_lines s) \<or> no_reader t')"
proof (cases "c \<noteq> 0 \<and> n_window s < INPUT_BUF")
  case False
  have "con_e s - con_r s < of_nat INPUT_BUF \<longleftrightarrow> n_window s < INPUT_BUF" by (simp add: word_less_nat_alt INPUT_BUF_def)
  then show ?thesis using False assms length_lines [OF assms(1)] by (auto simp: con_insert_def line_key_def split: prod.split)
next
  case True
  define d where "d = (if c = 13 then 10 else c)"
  define s1 where "s1 = s\<lparr>con_buf := (con_buf s)[unat (con_e s) mod INPUT_BUF := d], con_e := con_e s + 1\<rparr>"
  have small: "con_e s - con_r s < of_nat INPUT_BUF" using True by (simp add: word_less_nat_alt INPUT_BUF_def)
  obtain s2 where s2: "consputc (unat d) s1 = Ok s2" "shows_only s1 s2" using consputc_ok [of s1] assms(2) by (auto simp: s1_def)
  have eq: "con_buf s2 = con_buf s1" "con_r s2 = con_r s1" "con_w s2 = con_w s1" "con_e s2 = con_e s1" "\<not> con_panicked s2"
    using s2(2) assms(2) by (auto simp: shows_only_def s1_def)
  note w = push_window [OF assms(1) conjunct2 [OF True], of d, folded s1_def]
  have win: "con_window s2 = con_window s @ [d]" "n_window s2 = Suc (n_window s)" "n_ready s2 = n_ready s" "length (con_buf s2) = INPUT_BUF"
    using w eq by (simp_all add: con_window_def)
  have full: "con_e s2 = con_r s2 + of_nat INPUT_BUF \<longleftrightarrow> Suc (n_window s) = INPUT_BUF"
  proof -
    have "con_e s2 = con_r s2 + of_nat INPUT_BUF \<longleftrightarrow> con_e s2 - con_r s2 = 128" by (auto simp: INPUT_BUF_def diff_eq_eq)
    also have "\<dots> \<longleftrightarrow> n_window s2 = unat (128 :: 32 word)" by (simp only: word_unat_eq_iff)
    finally show ?thesis using win by (simp add: INPUT_BUF_def)
  qed
  have ins: "con_insert c (s, t) = (if d = 10 \<or> d = 4 \<or> Suc (n_window s) = INPUT_BUF then Ok (s2\<lparr>con_w := con_e s2\<rparr>, wakeup input_r t) else Ok (s2, t))"
    using True small s2(1) full unfolding s1_def d_def by (simp add: con_insert_def Let_def)
  have len: "length (fst (con_lines s)) + length (snd (con_lines s)) = n_window s" by (rule length_lines [OF assms(1)])
  have key: "line_key c (con_lines s) =
      (if d = 10 \<or> d = 4 \<or> Suc (n_window s) = INPUT_BUF then (fst (con_lines s) @ snd (con_lines s) @ [d], [])
       else (fst (con_lines s), snd (con_lines s) @ [d]))"
    using True assms(3-) len by (simp add: line_key_def d_def Let_def case_prod_unfold)
  show ?thesis
  proof (cases "d = 10 \<or> d = 4 \<or> Suc (n_window s) = INPUT_BUF")
    case commit: True
    let ?s = "s2\<lparr>con_w := con_e s2\<rparr>"
    have "con_lines ?s = (con_window s @ [d], [])" using win by (simp add: con_lines_def con_window_def)
    moreover have "fst (con_lines s) @ snd (con_lines s) = con_window s" by (simp add: con_lines_def)
    ultimately have l: "con_lines ?s = line_key c (con_lines s)" using commit unfolding key by (metis append_assoc)
    then have "con_inv ?s" using win commit True unfolding key con_inv_def by (simp add: key)
    then show ?thesis using commit l eq(5) ins wakeup_no_reader by auto
  next
    case False
    have "con_lines s2 = (take (n_ready s) (con_window s), drop (n_ready s) (con_window s) @ [d])"
      using win assms(1) by (simp add: con_lines_def con_inv_def)
    then have l: "con_lines s2 = line_key c (con_lines s)" using False unfolding key by (simp add: con_lines_def)
    then have "con_inv s2" using win False True assms(1) unfolding con_inv_def by (simp add: key)
    then show ?thesis using False l eq(5) ins by (auto simp: key)
  qed
qed

lemma consoleintr_spec:
  assumes "con_inv s" "\<not> con_panicked s"
  shows "\<exists>s' t'. consoleintr ras ks (s, t) = Ok (s', t') \<and> \<not> con_panicked s' \<and> con_inv s' \<and> con_lines s' = fold line_key ks (con_lines s) \<and>
     (t' = t \<and> fst (con_lines s') = fst (con_lines s) \<or> no_reader t')"
  using assms
proof (induction ks arbitrary: s t)
  case (Cons c ks)
  have "\<exists>s1 t1. (if c = 16 then kbind (procdump ras t s) (\<lambda>s. Ok (s, t))
            else if c = 21 then kbind (con_kill s) (\<lambda>s. Ok (s, t))
            else if c = 8 \<or> c = 127 then kbind (con_erase s) (\<lambda>s. Ok (s, t))
            else con_insert c (s, t)) = Ok (s1, t1) \<and> \<not> con_panicked s1 \<and> con_inv s1 \<and> con_lines s1 = line_key c (con_lines s) \<and>
      (t1 = t \<and> fst (con_lines s1) = fst (con_lines s) \<or> no_reader t1)" (is "\<exists>s1 t1. ?step = _ \<and> _")
  proof -
    consider "c = 16" | "c = 21" | "c = 8 \<or> c = 127" | "c \<noteq> 16 \<and> c \<noteq> 21 \<and> c \<noteq> 8 \<and> c \<noteq> 127" by blast
    then show ?thesis
    proof cases
      case 1
      obtain s1 where s1: "procdump ras t s = Ok s1" "shows_only s s1" using procdump_ok [OF Cons.prems(2)] by blast
      then show ?thesis using 1 shows_lines [OF s1(2)] Cons.prems shows_only_panicked [OF s1(2)] by (auto simp: line_key_def split: prod.split)
    next
      case 2
      then show ?thesis using con_kill_spec [OF Cons.prems] by (auto simp: line_key_def split: prod.split)
    next
      case 3
      then show ?thesis using con_erase_spec [OF Cons.prems] by (auto simp: line_key_def split: prod.split)
    next
      case 4
      then show ?thesis using con_insert_spec [OF Cons.prems, of c t] by auto
    qed
  qed
  then obtain s1 t1 where 1: "?step = Ok (s1, t1)" "\<not> con_panicked s1" "con_inv s1" "con_lines s1 = line_key c (con_lines s)"
    "t1 = t \<and> fst (con_lines s1) = fst (con_lines s) \<or> no_reader t1" by blast
  from Cons.IH [OF 1(3,2), of t1] 1(4,5) show ?case unfolding consoleintr.simps 1(1) kbind.simps by auto
qed simp

lemma line_read_Cons:
  "c \<noteq> 10 \<Longrightarrow> c \<noteq> 4 \<Longrightarrow>
   line_read killed target (Suc n) (c # cs) = (let (d, rest, r) = line_read killed target n cs in (c # d, rest, r))"
  by (simp add: line_read_def Let_def split: list.split)

lemma consoleread_loop_spec:
  assumes "con_inv s" "n \<le> target" "consoleread_loop killed target n s = (s', d, m, r)"
  shows "line_read killed target n (fst (con_lines s)) = (d, fst (con_lines s'), r) \<and> snd (con_lines s') = snd (con_lines s) \<and>
     con_inv s' \<and> con_panicked s' = con_panicked s \<and> (r = Blocks \<longrightarrow> fst (con_lines s') = []) \<and> (fst (con_lines s) = [] \<longrightarrow> fst (con_lines s') = [])"
  using assms
proof (induction n arbitrary: s d)
  case 0
  then show ?case by (auto simp: line_read_def)
next
  case (Suc n)
  show ?case
  proof (cases "con_r s = con_w s")
    case True
    then have "fst (con_lines s) = []" using nothing_ready [of s] by (simp add: con_lines_def)
    with True Suc.prems show ?thesis by (auto simp: line_read_def split: if_splits)
  next
    case False
    let ?c = "con_buf s ! (unat (con_r s) mod INPUT_BUF)" and ?s = "s\<lparr>con_r := con_r s + 1\<rparr>"
    note g = get_window [OF Suc.prems(1) False]
    have undo: "?s\<lparr>con_r := con_r ?s - 1\<rparr> = s" by simp
    consider "?c = 4" | "?c = 10" | "?c \<noteq> 4" "?c \<noteq> 10" by blast
    then show ?thesis
    proof cases
      case 1
      with Suc.prems(3) False have "s' = (if Suc n < target then s else ?s)" "d = []" "r = Returns (int target - int (Suc n))"
        unfolding consoleread_loop.simps Let_def undo by (auto split: if_splits)
      then show ?thesis using 1 g Suc.prems(1,2) by (auto simp: line_read_def)
    next
      case 2
      with Suc.prems(3) False have "s' = ?s" "d = [10]" "r = Returns (int target - int n)" by (auto simp: Let_def)
      then show ?thesis using 2 g by (auto simp: line_read_def)
    next
      case 3
      obtain s2 d2 m2 r2 where l: "consoleread_loop killed target n ?s = (s2, d2, m2, r2)" by (metis prod_cases4)
      with Suc.prems(3) False 3 have e: "s2 = s'" "d = ?c # d2" "m2 = m" "r2 = r" by (auto simp: Let_def)
      from Suc.IH [OF g(3) _ l [unfolded e]] Suc.prems(2) show ?thesis
        using g 3 e by (auto simp: line_read_Cons)
    qed
  qed
qed

section \<open>Typing and reading in any order\<close>

text \<open>
  \<open>Typed\<close> is an interrupt with the keys it finds. \<open>Reads me killed got n\<close> is a slice of a read by
  process \<open>me\<close> that has \<open>got\<close> bytes already and asks for \<open>n\<close> more.
\<close>

datatype cevent = Typed "byte list" | Reads nat bool nat nat

fun con_run :: "(nat \<Rightarrow> 32 word list) \<Rightarrow> cevent list \<Rightarrow> console \<times> ptable \<Rightarrow> ((console \<times> ptable) \<times> (byte list \<times> int outcome) list) kres" where
  "con_run ras [] st = Ok (st, [])"
| "con_run ras (Typed ks # evs) st = kbind (consoleintr ras ks st) (con_run ras evs)"
| "con_run ras (Reads me killed got n # evs) (s, t) =
     (let (s, d, m, r) = consoleread_loop killed (got + n) n s;
          t = (if r = Blocks then sleep_table me input_r t else t)
      in kbind (con_run ras evs (s, t)) (\<lambda>(st, outs). Ok (st, (d, r) # outs)))"

fun line_run :: "cevent list \<Rightarrow> lined \<Rightarrow> lined \<times> (byte list \<times> int outcome) list" where
  "line_run [] l = (l, [])"
| "line_run (Typed ks # evs) l = line_run evs (fold line_key ks l)"
| "line_run (Reads me killed got n # evs) (cooked, edit) =
     (let (d, cooked, r) = line_read killed (got + n) n cooked; (l, outs) = line_run evs (cooked, edit)
      in (l, (d, r) # outs))"

lemma con_run_spec:
  assumes "con_inv s" "\<not> con_panicked s"
  shows "\<exists>s' t' outs. con_run ras evs (s, t) = Ok ((s', t'), outs) \<and> \<not> con_panicked s' \<and> con_inv s' \<and>
     line_run evs (con_lines s) = (con_lines s', outs) \<and>
     (fst (con_lines s) = [] \<or> no_reader t \<longrightarrow> fst (con_lines s') = [] \<or> no_reader t')"
  using assms
proof (induction evs arbitrary: s t)
  case (Cons ev evs)
  show ?case
  proof (cases ev)
    case (Typed ks)
    from consoleintr_spec [OF Cons.prems, of ras ks t] obtain s1 t1 where
      1: "consoleintr ras ks (s, t) = Ok (s1, t1)" "\<not> con_panicked s1" "con_inv s1" "con_lines s1 = fold line_key ks (con_lines s)"
        "t1 = t \<and> fst (con_lines s1) = fst (con_lines s) \<or> no_reader t1" by blast
    from Cons.IH [OF 1(3,2), of t1] show ?thesis unfolding Typed con_run.simps line_run.simps 1(1) kbind.simps 1(4) [symmetric]
      using 1(5) by metis
  next
    case (Reads me killed got n)
    obtain s1 d m r where 1: "consoleread_loop killed (got + n) n s = (s1, d, m, r)" by (metis prod_cases4)
    note l = consoleread_loop_spec [OF Cons.prems(1) _ 1]
    define t1 where "t1 = (if r = Blocks then sleep_table me input_r t else t)"
    have i: "con_inv s1" "\<not> con_panicked s1" using l Cons.prems(2) by auto
    have w: "fst (con_lines s) = [] \<or> no_reader t \<longrightarrow> fst (con_lines s1) = [] \<or> no_reader t1"
      using l by (auto simp: t1_def)
    from Cons.IH [OF i, of t1] obtain s' t' outs where
      2: "con_run ras evs (s1, t1) = Ok ((s', t'), outs)" "\<not> con_panicked s'" "con_inv s'" "line_run evs (con_lines s1) = (con_lines s', outs)"
        "fst (con_lines s1) = [] \<or> no_reader t1 \<longrightarrow> fst (con_lines s') = [] \<or> no_reader t'" by blast
    have "con_run ras (ev # evs) (s, t) = Ok ((s', t'), (d, r) # outs)" using 1 2(1) by (simp add: Reads t1_def)
    moreover have "line_run (ev # evs) (con_lines s) = (con_lines s', (d, r) # outs)"
      using l 2(4) by (cases "con_lines s"; cases "con_lines s1") (simp add: Reads)
    ultimately show ?thesis using 2(2,3,5) w by blast
  qed
qed simp

text \<open>
  C18. The input ring implements a line editor: for every interleaving of interrupts and reads, whatever the indices
  have counted up to, the reads deliver the bytes and results that an editor on two lists delivers, the ready input and the
  line being typed. Erasing and killing a line never reach input that was committed, and every handler returns.
\<close>

theorem console_refines_line_editor:
  assumes "con_inv s" "\<not> con_panicked s"
  shows "\<exists>s' t' outs. con_run ras evs (s, t) = Ok ((s', t'), outs) \<and> con_inv s' \<and> line_run evs (con_lines s) = (con_lines s', outs)"
  using con_run_spec [OF assms] by blast

lemma boot_console_inv: "con_inv (boot_console\<lparr>con_r := a, con_w := a, con_e := a\<rparr>)"
  "con_lines (boot_console\<lparr>con_r := a, con_w := a, con_e := a\<rparr>) = ([], [])"
  by (simp_all add: con_inv_def con_lines_def con_window_def ring_bytes_def boot_console_def INPUT_BUF_def)

theorem console_refines_line_editor_witness:
  "\<forall>ras t. \<exists>s' t'. con_run ras [Typed [97, 98, 8, 99, 13], Reads 3 False 0 10] (boot_console\<lparr>con_r := - 2, con_w := - 2, con_e := - 2\<rparr>, t) =
     Ok ((s', t'), [([97, 99, 10], Returns 3)])"
proof (intro allI)
  fix ras t
  have "\<not> con_panicked (boot_console\<lparr>con_r := - 2, con_w := - 2, con_e := - 2\<rparr>)" by (simp add: boot_console_def)
  note c = console_refines_line_editor [OF boot_console_inv(1) this, of ras "[Typed [97, 98, 8, 99, 13], Reads 3 False 0 10]" t]
  have "line_run [Typed [97, 98, 8, 99, 13], Reads 3 False 0 10] ([], []) = (([], []), [([97, 99, 10], Returns 3)])"
    by (simp add: line_key_def line_read_def INPUT_BUF_def)
  with c show "\<exists>s' t'. con_run ras [Typed [97, 98, 8, 99, 13], Reads 3 False 0 10] (boot_console\<lparr>con_r := - 2, con_w := - 2, con_e := - 2\<rparr>, t) =
     Ok ((s', t'), [([97, 99, 10], Returns 3)])" unfolding boot_console_inv(2) by auto
qed

text \<open>
  C26. No reader of the console is forgotten: however typing and reading are interleaved from an idle console, whenever some
  process sleeps on the input channel there is nothing it could read, since each committed line wakes all of them.
\<close>

theorem console_no_lost_wakeup:
  assumes "con_run ras evs (boot_console\<lparr>con_r := a, con_w := a, con_e := a\<rparr>, t) = Ok ((s', t'), outs)"
    and "i < NPROC" "p_state (procs t' i) = SLEEPING" "p_chan (procs t' i) = Some input_r"
  shows "con_r s' = con_w s'"
proof -
  let ?s = "boot_console\<lparr>con_r := a, con_w := a, con_e := a\<rparr>"
  have "\<not> con_panicked ?s" by (simp add: boot_console_def)
  from con_run_spec [OF boot_console_inv(1) this, of ras evs t] assms(1) boot_console_inv(2)
  have "con_inv s'" "fst (con_lines s') = [] \<or> no_reader t'" by auto
  with assms(2-) have "con_inv s'" "fst (con_lines s') = []" by (auto simp: no_reader_def)
  then have "n_ready s' = 0" using length_window [of s'] by (auto simp: con_lines_def con_inv_def simp del: length_window)
  then show ?thesis using nothing_ready by blast
qed

theorem console_no_lost_wakeup_witness:
  "\<forall>t. \<exists>s'. con_run (\<lambda>_. []) [Reads 3 False 0 2] (boot_console\<lparr>con_r := 5, con_w := 5, con_e := 5\<rparr>, t) =
     Ok ((s', sleep_table 3 input_r t), [([], Blocks)]) \<and> con_r s' = con_w s'"
proof
  fix t
  let ?s = "boot_console\<lparr>con_r := 5, con_w := 5, con_e := 5\<rparr>"
  have r: "con_run (\<lambda>_. []) [Reads 3 False 0 2] (?s, t) = Ok ((?s, sleep_table 3 input_r t), [([], Blocks)])"
    by (simp add: boot_console_def numeral_2_eq_2)
  moreover have "3 < NPROC" "p_state (procs (sleep_table 3 input_r t) 3) = SLEEPING" "p_chan (procs (sleep_table 3 input_r t) 3) = Some input_r"
    by (simp_all add: NPROC_def sleep_table_def upd_proc_def)
  ultimately show "\<exists>s'. con_run (\<lambda>_. []) [Reads 3 False 0 2] (?s, t) = Ok ((s', sleep_table 3 input_r t), [([], Blocks)]) \<and> con_r s' = con_w s'"
    using console_no_lost_wakeup [OF r] by blast
qed

end
