(* ===== verification/Kbd.thy ===== *)
theory Kbd
  imports Console
begin

unbundle bit_operations_syntax

text \<open>
  The keyboard driver, \<open>src/P1/xv6/xv6/kernel/kbd.c\<close> with the tables of \<open>kbd.h\<close>, and the receiving
  side of the serial line, \<open>uart.c\<close>. A scan code changes the modifier state and may yield a character; an interrupt
  hands the characters of the codes that wait in the controller to \<open>consoleintr\<close>.
\<close>

section \<open>kbd.h\<close>

definition SHIFT :: "32 word" where "SHIFT = 1"
definition CTL :: "32 word" where "CTL = 2"
definition ALT :: "32 word" where "ALT = 4"
definition CAPSLOCK :: "32 word" where "CAPSLOCK = 8"
definition NUMLOCK :: "32 word" where "NUMLOCK = 16"
definition SCROLLLOCK :: "32 word" where "SCROLLLOCK = 32"
definition E0ESC :: "32 word" where "E0ESC = 64"

lemmas modifier_defs = SHIFT_def CTL_def ALT_def CAPSLOCK_def NUMLOCK_def SCROLLLOCK_def E0ESC_def

definition shiftcode :: "byte \<Rightarrow> 32 word" where
  "shiftcode d = (if d = 0x1D \<or> d = 0x9D then CTL else if d = 0x2A \<or> d = 0x36 then SHIFT
     else if d = 0x38 \<or> d = 0xB8 then ALT else 0)"

definition togglecode :: "byte \<Rightarrow> 32 word" where
  "togglecode d = (if d = 0x3A then CAPSLOCK else if d = 0x45 then NUMLOCK else if d = 0x46 then SCROLLLOCK else 0)"

text \<open>The keys the three maps have in common behind their first rows.\<close>

definition special_keys :: "byte \<Rightarrow> byte" where
  "special_keys d =
     (if d = 0xC8 then 0xE2 else if d = 0xD0 then 0xE3 else if d = 0xC9 then 0xE6 else if d = 0xD1 then 0xE7
      else if d = 0xCB then 0xE4 else if d = 0xCD then 0xE5 else if d = 0x97 then 0xE0 else if d = 0xCF then 0xE1
      else if d = 0xD2 then 0xE8 else if d = 0xD3 then 0xE9 else 0)"

definition table :: "byte list \<Rightarrow> (byte \<Rightarrow> byte) \<Rightarrow> byte \<Rightarrow> byte" where
  "table rows rest d = (if unat d < length rows then rows ! unat d else rest d)"

definition keypad :: "byte list" where
  "keypad = ascii ''789-456+1230.''"

definition normal_rows :: "byte list" where
  "normal_rows = [0, 0x1B] @ ascii ''1234567890-='' @ [8, 9] @
     ascii ''qwertyuiop[]'' @ [10, 0] @ ascii ''asdfghjkl;'' @ [39, 96, 0, 92] @
     ascii ''zxcvbnm,./'' @ [0, 42, 0, 32] @ replicate 13 0 @ keypad @ replicate 4 0"

definition normalmap :: "byte \<Rightarrow> byte" where
  "normalmap = table normal_rows (\<lambda>d. if d = 0x9C then 10 else if d = 0xB5 then 47 else special_keys d)"

definition shift_rows :: "byte list" where
  "shift_rows = [0, 0x1B] @ ascii ''!@#$%^&*()_+'' @ [8, 9] @
     ascii ''QWERTYUIOP{}'' @ [10, 0] @ ascii ''ASDFGHJKL:'' @ [34, 126, 0, 124] @
     ascii ''ZXCVBNM<>?'' @ [0, 42, 0, 32] @ replicate 13 0 @ keypad @ replicate 4 0"

definition shiftmap :: "byte \<Rightarrow> byte" where
  "shiftmap = table shift_rows (\<lambda>d. if d = 0x9C then 10 else if d = 0xB5 then 47 else special_keys d)"

text \<open>Control characters: \<open>C(x)\<close> is the character minus 64.\<close>

definition ctrl :: "char \<Rightarrow> byte" where
  "ctrl c = of_char c - 64"

definition ctl_rows :: "byte list" where
  "ctl_rows = replicate 16 0 @ map ctrl ''QWERTYUIOP'' @ [0, 0, 13, 0] @ map ctrl ''ASDFGHJKL'' @ [0, 0, 0, 0, ctrl (CHR 0x5C)] @
     map ctrl ''ZXCVBNM'' @ [0, 0, ctrl (CHR ''/''), 0, 0]"

definition ctlmap :: "byte \<Rightarrow> byte" where
  "ctlmap = table ctl_rows (\<lambda>d. if d = 0x9C then 13 else if d = 0xB5 then ctrl (CHR ''/'') else special_keys d)"

section \<open>kbd.c\<close>

definition charcode :: "32 word \<Rightarrow> byte \<Rightarrow> byte" where
  "charcode i = (if i = 0 then normalmap else if i = 1 then shiftmap else ctlmap)"

definition flip_case :: "byte \<Rightarrow> byte" where
  "flip_case c = (if 97 \<le> c \<and> c \<le> 122 then c + 65 - 97 else if 65 \<le> c \<and> c \<le> 90 then c + 97 - 65 else c)"

text \<open>\<open>kbdgetc\<close> when the controller has a code: the character, 0 for none, and the modifiers.\<close>

definition kbdgetc :: "byte \<Rightarrow> 32 word \<Rightarrow> byte \<times> 32 word" where
  "kbdgetc data shift =
     (if data = 0xE0 then (0, shift OR E0ESC)
      else if data AND 0x80 \<noteq> 0 then
        let data = (if shift AND E0ESC \<noteq> 0 then data else data AND 0x7F)
        in (0, shift AND NOT (shiftcode data OR E0ESC))
      else
        let (data, shift) = (if shift AND E0ESC \<noteq> 0 then (data OR 0x80, shift AND NOT E0ESC) else (data, shift));
            shift = shift OR shiftcode data;
            shift = shift XOR togglecode data;
            c = charcode (shift AND (CTL OR SHIFT)) data
        in (if shift AND CAPSLOCK \<noteq> 0 then flip_case c else c, shift))"

fun kbd_chars :: "byte list \<Rightarrow> 32 word \<Rightarrow> byte list \<times> 32 word" where
  "kbd_chars [] shift = ([], shift)"
| "kbd_chars (d # ds) shift = (let (c, shift) = kbdgetc d shift; (cs, shift) = kbd_chars ds shift in (c # cs, shift))"

definition kbdintr :: "(nat \<Rightarrow> 32 word list) \<Rightarrow> byte list \<Rightarrow> 32 word \<Rightarrow> console \<times> ptable \<Rightarrow> ((console \<times> ptable) \<times> 32 word) kres" where
  "kbdintr ras codes shift st =
     (let (cs, shift) = kbd_chars codes shift in kbind (consoleintr ras cs st) (\<lambda>st. Ok (st, shift)))"

definition uartintr :: "(nat \<Rightarrow> 32 word list) \<Rightarrow> byte list \<Rightarrow> console \<times> ptable \<Rightarrow> (console \<times> ptable) kres" where
  "uartintr ras received st = consoleintr ras (if uart (fst st) then received else []) st"

section \<open>Letters and modifiers\<close>

definition letter :: "byte \<Rightarrow> bool" where
  "letter c \<longleftrightarrow> 97 \<le> c \<and> c \<le> 122"

text \<open>What the rows of the tables say of the letters.\<close>

lemma letter_rows:
  "list_all (\<lambda>(i, n, s). letter n \<longrightarrow> shiftcode (of_nat i) = 0 \<and> togglecode (of_nat i) = 0 \<and> s = n - 32 \<and> flip_case n = n - 32 \<and> flip_case (n - 32) = n)
     (zip [0..<88] (zip normal_rows shift_rows))"
  by code_simp

lemma length_rows: "length normal_rows = 88" "length shift_rows = 88"
  by code_simp+

lemma no_letter_behind: "88 \<le> unat d \<Longrightarrow> d < 0x80 \<Longrightarrow> normalmap d = 0"
  by (auto simp: normalmap_def table_def length_rows special_keys_def)

lemma letter_code:
  assumes "d < 0x80" "letter (normalmap d)"
  shows "shiftcode d = 0 \<and> togglecode d = 0 \<and> shiftmap d = normalmap d - 32 \<and>
    flip_case (normalmap d) = normalmap d - 32 \<and> flip_case (normalmap d - 32) = normalmap d"
proof -
  have n: "unat d < 88"
  proof (rule ccontr)
    assume "\<not> unat d < 88"
    then have "normalmap d = 0" using no_letter_behind assms(1) by simp
    with assms(2) show False by (simp add: letter_def)
  qed
  then have r: "normalmap d = normal_rows ! unat d" "shiftmap d = shift_rows ! unat d"
    by (simp_all add: normalmap_def shiftmap_def table_def length_rows)
  have "(unat d, normal_rows ! unat d, shift_rows ! unat d) \<in> set (zip [0..<88] (zip normal_rows shift_rows))"
    using n unfolding in_set_zip by (intro exI [of _ "unat d"]) (simp add: length_rows)
  with letter_rows assms(2) r show ?thesis unfolding list_all_iff by fastforce
qed

lemma low_code: "d < 0x80 \<Longrightarrow> d AND 0x80 = 0 \<and> d \<noteq> 0xE0" for d :: byte
proof -
  assume d: "d < 0x80"
  have "unat (d div 128) = 0" using d by (simp add: unat_div word_less_nat_alt)
  then have "d div 128 = 0" by (simp only: unat_eq_zero)
  then have "\<not> bit d 7" by (simp add: bit_iff_odd)
  then have "d AND 2 ^ 7 = 0" by (simp only: and_exp_eq_0_iff_not_bit not_False_eq_True)
  then have "d AND 0x80 = 0" by simp
  then show ?thesis using d by auto
qed

lemma bit_of_mask: "x AND 1 = 0 \<or> x AND 1 = (1 :: 32 word)"
  by (simp add: and_one_eq mod_2_eq_odd)

text \<open>
  A letter key yields the letter in lower case, or in upper case if exactly one of Shift and Caps Lock is in effect, and
  leaves the modifiers as they are, when neither Control nor an escape code is pending.
\<close>

theorem kbd_letter_case:
  assumes "d < 0x80" "letter (normalmap d)" "shift AND CTL = 0" "shift AND E0ESC = 0"
  shows "kbdgetc d shift =
    (if (shift AND SHIFT \<noteq> 0) \<noteq> (shift AND CAPSLOCK \<noteq> 0) then normalmap d - 32 else normalmap d, shift)"
proof -
  have m: "d AND 0x80 = 0" "d \<noteq> 0xE0" "shiftcode d = 0" "togglecode d = 0" "shiftmap d = normalmap d - 32"
    "flip_case (normalmap d) = normalmap d - 32" "flip_case (normalmap d - 32) = normalmap d"
    using low_code letter_code [OF assms(1,2)] assms(1) by blast+
  have "shift AND (CTL OR SHIFT) = shift AND SHIFT" using assms(3) by (simp add: bit.conj_disj_distrib)
  moreover have "shift AND SHIFT = 0 \<or> shift AND SHIFT = 1" using bit_of_mask by (simp add: SHIFT_def)
  ultimately have c: "charcode (shift AND (CTL OR SHIFT)) d = (if shift AND SHIFT \<noteq> 0 then normalmap d - 32 else normalmap d)"
    using m(5) by (auto simp: charcode_def)
  then show ?thesis using m assms(4) by (simp add: kbdgetc_def)
qed

theorem kbd_letter_case_witness: "kbdgetc 0x1E 0 = (97, 0) \<and> kbdgetc 0x1E SHIFT = (65, SHIFT) \<and> kbdgetc 0x1E (SHIFT OR CAPSLOCK) = (97, SHIFT OR CAPSLOCK)"
proof -
  have a: "(0x1E :: byte) < 0x80" "letter (normalmap 0x1E)" "normalmap 0x1E = 97" by code_simp+
  have "(0 :: 32 word) AND CTL = 0" "(0 :: 32 word) AND E0ESC = 0" "SHIFT AND CTL = 0" "SHIFT AND E0ESC = 0"
    "(SHIFT OR CAPSLOCK) AND CTL = 0" "(SHIFT OR CAPSLOCK) AND E0ESC = 0" by (simp_all add: modifier_defs)
  note k = kbd_letter_case [OF a(1,2) this(1,2)] kbd_letter_case [OF a(1,2) this(3,4)] kbd_letter_case [OF a(1,2) this(5,6)]
  show ?thesis unfolding k a(3) by (simp add: modifier_defs)
qed

end
