(* ===== verification/Trap.thy ===== *)
theory Trap
  imports Exec Kbd
begin

unbundle bit_operations_syntax

text \<open>
  Interrupts, exceptions and the entry to system calls, \<open>src/P1/xv6/xv6/kernel/trap.c\<close>. The state joins the kernel
  of \<open>File_Table\<close> with the console and the keyboard's modifiers. A trap ends in one of three ways: the interrupted
  code goes on, the process has exited, or it sleeps inside a system call.
\<close>

section \<open>State\<close>

record machine =
  kst :: kern
  cons :: console
  kbd_shift :: "32 word"

text \<open>
  What the hardware presents and what happens elsewhere: the CPU, the codes in the keyboard controller, the bytes in
  the serial port, return addresses on kernel stacks, the faulting address, and what the other processes do to the machine
  between a \<open>yield\<close> and its return.
\<close>

record trap_env =
  cpu_id :: nat
  codes :: "byte list"
  received :: "byte list"
  stacks :: "nat \<Rightarrow> 32 word list"
  cr2 :: "32 word"
  others :: "machine \<Rightarrow> machine"
  forkret_addr :: "32 word"
  stack_junk :: "byte list"

datatype trap_end = Resumes | Exits | Waits

section \<open>traps.h\<close>

definition T_SYSCALL :: "32 word" where "T_SYSCALL = 64"
definition T_IRQ0 :: "32 word" where "T_IRQ0 = 32"
definition IRQ_TIMER :: "32 word" where "IRQ_TIMER = 0"
definition IRQ_KBD :: "32 word" where "IRQ_KBD = 1"
definition IRQ_COM1 :: "32 word" where "IRQ_COM1 = 4"
definition IRQ_IDE :: "32 word" where "IRQ_IDE = 14"
definition IRQ_SPURIOUS :: "32 word" where "IRQ_SPURIOUS = 31"

lemmas trap_numbers = T_SYSCALL_def T_IRQ0_def IRQ_TIMER_def IRQ_KBD_def IRQ_COM1_def IRQ_IDE_def IRQ_SPURIOUS_def

definition from_user :: "trapframe \<Rightarrow> bool" where
  "from_user tf \<longleftrightarrow> tf_cs tf AND 3 = 3"

section \<open>trap.c\<close>

definition on_cons :: "(console \<Rightarrow> console kres) \<Rightarrow> machine \<Rightarrow> machine kres" where
  "on_cons f m = kbind (f (cons m)) (\<lambda>c. Ok (m\<lparr>cons := c\<rparr>))"

definition trap_exit :: "machine \<Rightarrow> (trap_end \<times> machine) kres" where
  "trap_exit m = kbind (kexit (kst m)) (\<lambda>k. Ok (Exits, m\<lparr>kst := k\<rparr>))"

definition clock_tick :: "kern \<Rightarrow> kern" where
  "clock_tick k = k\<lparr>ticks := ticks k + 1, ptab := wakeup (Ch_addr 0) (ptab k)\<rparr>"

abbreviation set_con_tab :: "machine \<Rightarrow> console \<times> ptable \<Rightarrow> machine" where
  "set_con_tab m ct \<equiv> m\<lparr>cons := fst ct, kst := (kst m)\<lparr>ptab := snd ct\<rparr>\<rparr>"

abbreviation word_of_cs :: "trapframe \<Rightarrow> 32 word" where
  "word_of_cs tf \<equiv> ucast (tf_cs tf)"

abbreviation nl :: string where
  "nl \<equiv> [CHR 0x0A]"

text \<open>The messages of the two kinds of unexpected traps.\<close>

definition spurious_message :: "trap_env \<Rightarrow> trapframe \<Rightarrow> console \<Rightarrow> console kres" where
  "spurious_message env tf = cprintf (''cpu%d: spurious interrupt at %x:%x'' @ nl)
     [Num (of_nat (cpu_id env)), Num (word_of_cs tf), Num (tf_eip tf)]"

definition fault_message :: "trap_env \<Rightarrow> trapframe \<Rightarrow> proc \<Rightarrow> console \<Rightarrow> console kres" where
  "fault_message env tf p = cprintf (''pid %d %s: trap %d err %d on cpu %d eip 0x%x addr 0x%x--kill proc'' @ nl)
     [Num (of_int (p_pid p)), Str (Some (takeWhile (\<lambda>b. b \<noteq> 0) (p_name p))), Num (tf_trapno tf), Num (tf_err tf),
      Num (of_nat (cpu_id env)), Num (tf_eip tf), Num (cr2 env)]"

text \<open>The switch on the trap number; \<open>has_proc\<close> says whether a process is running on this CPU.\<close>

definition trap_dispatch :: "trap_env \<Rightarrow> bool \<Rightarrow> trapframe \<Rightarrow> machine \<Rightarrow> machine kres" where
  "trap_dispatch env has_proc tf m =
     (let no = tf_trapno tf in
      if no = T_IRQ0 + IRQ_TIMER then
        Ok (if cpu_id env = 0 then m\<lparr>kst := clock_tick (kst m)\<rparr> else m)
      else if no = T_IRQ0 + IRQ_IDE then Ok (m\<lparr>kst := ideintr (kst m)\<rparr>)
      else if no = T_IRQ0 + IRQ_IDE + 1 then Ok m
      else if no = T_IRQ0 + IRQ_KBD then
        kbind (kbdintr (stacks env) (codes env) (kbd_shift m) (cons m, ptab (kst m))) (\<lambda>(ct, sh).
          Ok (set_con_tab (m\<lparr>kbd_shift := sh\<rparr>) ct))
      else if no = T_IRQ0 + IRQ_COM1 then
        kbind (uartintr (stacks env) (received env) (cons m, ptab (kst m))) (\<lambda>ct. Ok (set_con_tab m ct))
      else if no = T_IRQ0 + 7 \<or> no = T_IRQ0 + IRQ_SPURIOUS then on_cons (spurious_message env tf) m
      else if \<not> has_proc \<or> tf_cs tf AND 3 = 0 then Panic ''trap''
      else kbind (on_cons (fault_message env tf (curproc (kst m))) m) (\<lambda>m.
        Ok (m\<lparr>kst := upd_cur (p_killed_update (\<lambda>_. True)) (kst m)\<rparr>)))"

definition yield :: "trap_env \<Rightarrow> machine \<Rightarrow> machine" where
  "yield env m = others env (m\<lparr>kst := (kst m)\<lparr>ptab := yield_table (cur (kst m)) (ptab (kst m))\<rparr>\<rparr>)"

text \<open>
  The end of a system call, after \<open>syscall\<close> has returned: at once, or, for a call that put the process to sleep, when the
  process runs again and the call returns.
\<close>

definition trap_return :: "machine \<Rightarrow> (trap_end \<times> machine) kres" where
  "trap_return m = (if p_killed (curproc (kst m)) then trap_exit m else Ok (Resumes, m))"

definition trap_syscall :: "trap_env \<Rightarrow> trapframe \<Rightarrow> machine \<Rightarrow> (trap_end \<times> machine) kres" where
  "trap_syscall env tf m =
     (if p_killed (curproc (kst m)) then trap_exit m
      else kbind (syscall (forkret_addr env) (stack_junk env) (upd_cur (p_tf_update (\<lambda>_. tf)) (kst m))) (\<lambda>(r, k).
        let m = m\<lparr>kst := k\<rparr> in
        case r of
          Blocks \<Rightarrow> Ok (Waits, m)
        | Returns v \<Rightarrow> trap_return m))"

definition trap :: "trap_env \<Rightarrow> bool \<Rightarrow> trapframe \<Rightarrow> machine \<Rightarrow> (trap_end \<times> machine) kres" where
  "trap env has_proc tf m =
     (if tf_trapno tf = T_SYSCALL then trap_syscall env tf m
      else kbind (trap_dispatch env has_proc tf m) (\<lambda>m.
        if has_proc \<and> p_killed (curproc (kst m)) \<and> from_user tf then trap_exit m
        else
          let m = (if has_proc \<and> p_state (curproc (kst m)) = RUNNING \<and> tf_trapno tf = T_IRQ0 + IRQ_TIMER then yield env m else m)
          in if has_proc \<and> p_killed (curproc (kst m)) \<and> from_user tf then trap_exit m
             else Ok (Resumes, m)))"

section \<open>Killed processes\<close>

lemma trap_exit_not_resumes: "trap_exit m \<noteq> Ok (Resumes, m')"
  by (cases "kexit (kst m)") (auto simp: trap_exit_def)

text \<open>
  C19. A killed process does not return to user mode: when a system call, an exception or an interrupt that arrived in user
  mode lets the interrupted code go on, the process has not been killed, neither before nor by the trap nor by others while it had
  given up the CPU; nor while it slept in a system call that now returns (\<open>trap_return\<close>).
\<close>

theorem trap_killed_never_resumes:
  assumes "trap env True tf m = Ok (Resumes, m') \<or> trap_return m = Ok (Resumes, m')" "from_user tf"
  shows "\<not> p_killed (curproc (kst m'))"
  using assms trap_exit_not_resumes
  by (auto simp: trap_def trap_syscall_def trap_return_def kbind_Ok Let_def split: if_split_asm outcome.split_asm) (metis outcome.exhaust)+

definition fresh_machine :: "machine \<Rightarrow> machine" where
  "fresh_machine m = m\<lparr>cons := boot_console, kst := upd_cur (\<lambda>p. p\<lparr>p_state := RUNNING, p_killed := False\<rparr>) (kst m)\<rparr>"

lemma fresh_machine_sel: "\<not> p_killed (curproc (kst (fresh_machine m)))" "p_state (curproc (kst (fresh_machine m))) = RUNNING"
  "\<not> con_panicked (cons (fresh_machine m))"
  by (simp_all add: fresh_machine_def upd_cur_def upd_proc_def boot_console_def)

theorem trap_killed_never_resumes_witness:
  "\<forall>env m. trap env True (zero_frame\<lparr>tf_trapno := 47, tf_cs := 0x23\<rparr>) (fresh_machine m) = Ok (Resumes, fresh_machine m) \<and>
     \<not> p_killed (curproc (kst (fresh_machine m)))"
proof (intro allI)
  fix env :: trap_env and m :: machine
  let ?tf = "zero_frame\<lparr>tf_trapno := 47, tf_cs := 0x23\<rparr>"
  have "trap env True ?tf (fresh_machine m) = Ok (Resumes, fresh_machine m)"
    by (simp add: trap_def trap_dispatch_def trap_numbers fresh_machine_sel)
  moreover have "from_user ?tf" by (simp add: from_user_def)
  ultimately show "trap env True ?tf (fresh_machine m) = Ok (Resumes, fresh_machine m) \<and> \<not> p_killed (curproc (kst (fresh_machine m)))"
    using trap_killed_never_resumes by blast
qed

section \<open>Faults of user programs\<close>

definition handled :: "32 word \<Rightarrow> bool" where
  "handled no \<longleftrightarrow> no = T_SYSCALL \<or> no = T_IRQ0 + IRQ_TIMER \<or> no = T_IRQ0 + IRQ_IDE \<or> no = T_IRQ0 + IRQ_IDE + 1 \<or>
     no = T_IRQ0 + IRQ_KBD \<or> no = T_IRQ0 + IRQ_COM1 \<or> no = T_IRQ0 + 7 \<or> no = T_IRQ0 + IRQ_SPURIOUS"

lemma fault_format:
  "ascii (''pid %d %s: trap %d err %d on cpu %d eip 0x%x addr 0x%x--kill proc'' @ nl) =
   [112, 105, 100, 32, 37, 100, 32, 37, 115, 58, 32, 116, 114, 97, 112, 32, 37, 100, 32, 101, 114, 114, 32, 37, 100, 32, 111, 110, 32,
    99, 112, 117, 32, 37, 100, 32, 101, 105, 112, 32, 48, 120, 37, 120, 32, 97, 100, 100, 114, 32, 48, 120, 37, 120, 45, 45,
    107, 105, 108, 108, 32, 112, 114, 111, 99, 10]"
  by code_simp

text \<open>What is printed, byte for byte.\<close>

definition fault_text :: "trap_env \<Rightarrow> trapframe \<Rightarrow> proc \<Rightarrow> byte list" where
  "fault_text env tf p =
     ascii ''pid '' @ cons_printint (of_int (p_pid p)) 10 True @ ascii '' '' @ takeWhile (\<lambda>b. b \<noteq> 0) (p_name p) @
     ascii '': trap '' @ cons_printint (tf_trapno tf) 10 True @ ascii '' err '' @ cons_printint (tf_err tf) 10 True @
     ascii '' on cpu '' @ cons_printint (of_nat (cpu_id env)) 10 True @ ascii '' eip 0x'' @ cons_printint (tf_eip tf) 16 False @
     ascii '' addr 0x'' @ cons_printint (cr2 env) 16 False @ ascii ''--kill proc'' @ [10]"

lemma fault_pieces:
  "ascii ''pid '' = [112, 105, 100, 32]" "ascii '' '' = [32]" "ascii '': trap '' = [58, 32, 116, 114, 97, 112, 32]"
  "ascii '' err '' = [32, 101, 114, 114, 32]" "ascii '' on cpu '' = [32, 111, 110, 32, 99, 112, 117, 32]"
  "ascii '' eip 0x'' = [32, 101, 105, 112, 32, 48, 120]" "ascii '' addr 0x'' = [32, 97, 100, 100, 114, 32, 48, 120]"
  "ascii ''--kill proc'' = [45, 45, 107, 105, 108, 108, 32, 112, 114, 111, 99]"
  by (simp_all add: ascii_def)

lemma fault_message_text: "fault_message env tf p c = consputs (fault_text env tf p) c"
  unfolding fault_message_def cprintf_def fault_format fault_text_def fault_pieces by (simp add: str_bytes_def)

lemma consputs_serial:
  "consputs cs s = Ok s' \<Longrightarrow> uart s' = uart s \<and> uart_out s' = uart_out s @ (if uart s then cs else [])"
proof (induction cs arbitrary: s)
  case (Cons c cs)
  have "unat c < 256" using unsigned_less [of c] by simp
  then have nb: "unat c \<noteq> BACKSPACE" by (simp add: BACKSPACE_def)
  have cg: "uart (cgaputc k u) = uart u \<and> uart_out (cgaputc k u) = uart_out u" for k u
    by (auto simp: cgaputc_def Let_def case_prod_unfold)
  from Cons.prems obtain s1 where s1: "consputc (unat c) s = Ok s1" "consputs cs s1 = Ok s'" by (auto simp: kbind_Ok)
  then have "uart s1 = uart s" "uart_out s1 = uart_out s @ (if uart s then [c] else [])"
    using nb cg by (auto simp: consputc_def uartputc_def Let_def split: if_splits)
  with Cons.IH [OF s1(2)] show ?case by auto
qed simp

text \<open>A process whose open files and directory all have another reference exits without disk traffic.\<close>

definition shares_all :: "kern \<Rightarrow> bool" where
  "shares_all k \<longleftrightarrow> (\<forall>fd < NOFILE. \<forall>f. p_ofile (curproc k) fd = Some f \<longrightarrow>
       int (card {i. i < NOFILE \<and> p_ofile (curproc k) i = Some f}) < f_ref (files k f)) \<and>
     (\<exists>ip. p_cwd (curproc k) = Some ip \<and> i_ref (icache k ip) > 1)"

lemma exit_files_shared:
  assumes "distinct fds" and "\<forall>fd \<in> set fds. \<forall>f. p_ofile (curproc k) fd = Some f \<longrightarrow>
      int (card {i \<in> set fds. p_ofile (curproc k) i = Some f}) < f_ref (files k f)"
  shows "\<exists>k'. exit_files fds k = Ok k' \<and> cur k' = cur k \<and> icache k' = icache k \<and> p_cwd (curproc k') = p_cwd (curproc k) \<and>
    (\<forall>fd \<in> set fds. p_ofile (curproc k') fd = None) \<and> (\<forall>fd. fd \<notin> set fds \<longrightarrow> p_ofile (curproc k') fd = p_ofile (curproc k) fd)"
  using assms
proof (induction fds arbitrary: k)
  case (Cons fd fds)
  show ?case
  proof (cases "p_ofile (curproc k) fd")
    case None
    then have "{i \<in> set (fd # fds). p_ofile (curproc k) i = Some f} = {i \<in> set fds. p_ofile (curproc k) i = Some f}" for f by auto
    with Cons.prems None Cons.IH [of k] show ?thesis by fastforce
  next
    case (Some f)
    let ?S = "\<lambda>g. {i \<in> set fds. p_ofile (curproc k) i = Some g}"
    have sub: "{i \<in> set (fd # fds). p_ofile (curproc k) i = Some g} = (if g = f then insert fd (?S g) else ?S g)" for g
      using Some by auto
    have c: "card {i \<in> set (fd # fds). p_ofile (curproc k) i = Some f} = Suc (card (?S f))"
      using Cons.prems(1) unfolding sub by simp
    have r: "int (card (?S f)) + 1 < f_ref (files k f)" using Cons.prems(2) Some c by fastforce
    let ?k1 = "upd_file f (f_ref_update (\<lambda>r. r - 1)) k" and ?p = "p_ofile_update (\<lambda>m. m(fd := None))"
    let ?k2 = "upd_cur ?p ?k1"
    have k2: "cur ?k2 = cur k" "icache ?k2 = icache k" "p_cwd (curproc ?k2) = p_cwd (curproc k)"
      "p_ofile (curproc ?k2) = (p_ofile (curproc k))(fd := None)"
      "f_ref (files ?k2 g) = (if g = f then f_ref (files k g) - 1 else f_ref (files k g))" for g
      by (simp_all add: upd_file_def upd_cur_def upd_proc_def)
    have S2: "{i \<in> set fds. p_ofile (curproc ?k2) i = Some g} = ?S g" for g using Cons.prems(1) by (auto simp: k2)
    have "\<forall>i \<in> set fds. \<forall>g. p_ofile (curproc ?k2) i = Some g \<longrightarrow>
        int (card {i \<in> set fds. p_ofile (curproc ?k2) i = Some g}) < f_ref (files ?k2 g)"
    proof (intro ballI allI impI)
      fix i g assume i: "i \<in> set fds" "p_ofile (curproc ?k2) i = Some g"
      then have "p_ofile (curproc k) i = Some g" using Cons.prems(1) by (auto simp: k2(4) split: if_splits)
      then have "int (card {i \<in> set (fd # fds). p_ofile (curproc k) i = Some g}) < f_ref (files k g)" using Cons.prems(2) i(1) by simp
      then have "int (card (?S g)) < f_ref (files ?k2 g)" using r unfolding sub k2(5) by (cases "g = f") simp_all
      then show "int (card {i \<in> set fds. p_ofile (curproc ?k2) i = Some g}) < f_ref (files ?k2 g)" by (simp only: S2)
    qed
    from Cons.IH [OF _ this] Cons.prems(1) obtain k' where k': "exit_files fds ?k2 = Ok k'" "cur k' = cur ?k2"
      "icache k' = icache ?k2" "p_cwd (curproc k') = p_cwd (curproc ?k2)" "\<forall>fd \<in> set fds. p_ofile (curproc k') fd = None"
      "\<forall>fd. fd \<notin> set fds \<longrightarrow> p_ofile (curproc k') fd = p_ofile (curproc ?k2) fd" by auto
    have "fileclose f k = Ok ?k1" using r by (simp add: fileclose_def Let_def upd_file_def)
    then have "exit_files (fd # fds) k = Ok k'" using Some k'(1) by simp
    then show ?thesis using k' k2 Cons.prems(1) by auto
  qed
qed simp

lemma reparent_keeps: "p_ofile (procs (fold (reparent me) is t) i) = p_ofile (procs t i) \<and> p_cwd (procs (fold (reparent me) is t) i) = p_cwd (procs t i)"
proof (induction "is" arbitrary: t)
  case (Cons j "is")
  then show ?case by (simp add: reparent_def wakeup1_def Let_def)
qed simp

lemma exit_entry:
  assumes "exit_table me t = Ok t'"
  shows "p_state (procs t' me) = ZOMBIE" "p_ofile (procs t' i) = p_ofile (procs t i)" "p_cwd (procs t' i) = p_cwd (procs t i)"
proof -
  have "t' = upd_proc me (p_state_update (\<lambda>_. ZOMBIE)) (fold (reparent me) [0..<NPROC] (wakeup1 (map_option Ch_proc (p_parent (procs t me))) t))"
    using assms by (simp add: exit_table_def Let_def)
  then show "p_state (procs t' me) = ZOMBIE" "p_ofile (procs t' i) = p_ofile (procs t i)" "p_cwd (procs t' i) = p_cwd (procs t i)"
    by (simp_all add: upd_proc_def reparent_keeps wakeup1_def Let_def)
qed

lemma kexit_shared:
  assumes "shares_all k" and "cur k \<noteq> initproc (ptab k)"
  shows "\<exists>k'. kexit k = Ok k' \<and> cur k' = cur k \<and> p_state (curproc k') = ZOMBIE \<and>
    (\<forall>fd < NOFILE. p_ofile (curproc k') fd = None) \<and> p_cwd (curproc k') = None"
proof -
  have e: "{i \<in> set [0..<NOFILE]. p_ofile (curproc k) i = Some f} = {i. i < NOFILE \<and> p_ofile (curproc k) i = Some f}" for f by auto
  from assms(1) obtain ip where ip: "p_cwd (curproc k) = Some ip" "i_ref (icache k ip) > 1" by (auto simp: shares_all_def)
  from exit_files_shared [of "[0..<NOFILE]" k, unfolded e] assms(1) obtain k1 where
    k1: "exit_files [0..<NOFILE] k = Ok k1" "cur k1 = cur k" "icache k1 = icache k" "p_cwd (curproc k1) = p_cwd (curproc k)"
      "\<forall>fd < NOFILE. p_ofile (curproc k1) fd = None" by (auto simp: shares_all_def)
  let ?k2 = "upd_inode ip (i_ref_update (\<lambda>r. r - 1)) k1"
  have "iput ip k1 = Ok ?k2" using ip k1(3) by (simp add: iput_def)
  moreover have "ptab ?k2 = ptab k1" "cur ?k2 = cur k1" by (simp_all add: upd_inode_def)
  ultimately have "kexit k = kbind (exit_table (cur k) (ptab (upd_cur (p_cwd_update (\<lambda>_. None)) ?k2))) (\<lambda>t. Ok ((upd_cur (p_cwd_update (\<lambda>_. None)) ?k2)\<lparr>ptab := t\<rparr>))"
    using assms(2) k1 ip by (simp add: kexit_def upd_cur_def Let_def)
  moreover obtain t where t: "exit_table (cur k) (ptab (upd_cur (p_cwd_update (\<lambda>_. None)) ?k2)) = Ok t" by (simp add: exit_table_def Let_def)
  ultimately show ?thesis using k1(2,5) exit_entry [OF t] by (auto simp: upd_cur_def upd_proc_def upd_inode_def)
qed

text \<open>
  C30. A fault of a user program is contained. An exception in user mode with a number the kernel has no handler for prints
  exactly the text with the process, the trap number, the error code and the addresses on the console (and, where there is one, on the
  serial line), leaves the input ring alone and marks the running process as killed. It then exits: for \<open>init\<close> the kernel stops with
  \<open>init exiting\<close>; for every other process the result is that of \<open>exit\<close>, which for a process whose open files and directory
  have other references too (nothing is torn down on the disk) returns without a panic, with all its descriptors closed and the process a zombie.
\<close>

theorem user_fault_contained:
  assumes "from_user tf" "\<not> handled (tf_trapno tf)" "\<not> con_panicked (cons m)"
  defines "k \<equiv> upd_cur (p_killed_update (\<lambda>_. True)) (kst m)"
  shows "\<exists>c. consputs (fault_text env tf (curproc (kst m))) (cons m) = Ok c \<and>
    uart_out c = uart_out (cons m) @ (if uart (cons m) then fault_text env tf (curproc (kst m)) else []) \<and>
    con_buf c = con_buf (cons m) \<and> con_r c = con_r (cons m) \<and> con_w c = con_w (cons m) \<and> con_e c = con_e (cons m) \<and>
    (if cur (kst m) = initproc (ptab (kst m)) then trap env True tf m = Panic ''init exiting''
     else trap env True tf m = kbind (kexit k) (\<lambda>k'. Ok (Exits, m\<lparr>cons := c, kst := k'\<rparr>)) \<and>
       (shares_all (kst m) \<longrightarrow> (\<exists>k'. trap env True tf m = Ok (Exits, m\<lparr>cons := c, kst := k'\<rparr>) \<and> cur k' = cur (kst m) \<and>
          p_state (curproc k') = ZOMBIE \<and> (\<forall>fd < NOFILE. p_ofile (curproc k') fd = None))))"
proof -
  obtain c where c: "consputs (fault_text env tf (curproc (kst m))) (cons m) = Ok c" "shows_only (cons m) c"
    using consputs_ok [OF assms(3)] by blast
  have cs: "tf_cs tf AND 3 \<noteq> 0" using assms(1) by (simp add: from_user_def)
  have "trap_dispatch env True tf m = Ok (m\<lparr>cons := c, kst := k\<rparr>)"
    using assms(2) c(1) cs unfolding handled_def trap_dispatch_def Let_def on_cons_def fault_message_text k_def by simp
  moreover have "p_killed (curproc k)" by (simp add: k_def upd_cur_def upd_proc_def)
  moreover have "tf_trapno tf \<noteq> T_SYSCALL" using assms(2) by (simp add: handled_def)
  ultimately have ex: "trap env True tf m = kbind (kexit k) (\<lambda>k'. Ok (Exits, m\<lparr>cons := c, kst := k'\<rparr>))"
    using assms(1) by (simp add: trap_def trap_exit_def)
  have k: "cur k = cur (kst m)" "initproc (ptab k) = initproc (ptab (kst m))" "shares_all k = shares_all (kst m)"
    by (simp_all add: k_def upd_cur_def upd_proc_def shares_all_def)
  show ?thesis
  proof (cases "cur (kst m) = initproc (ptab (kst m))")
    case True
    then have "trap env True tf m = Panic ''init exiting''" using k by (simp add: ex kexit_def)
    then show ?thesis using True c consputs_serial [OF c(1)] unfolding shows_only_def by auto
  next
    case False
    have "\<exists>k'. trap env True tf m = Ok (Exits, m\<lparr>cons := c, kst := k'\<rparr>) \<and> cur k' = cur (kst m) \<and>
          p_state (curproc k') = ZOMBIE \<and> (\<forall>fd < NOFILE. p_ofile (curproc k') fd = None)" if "shares_all (kst m)"
      using kexit_shared [of k] that False k by (auto simp: ex)
    then show ?thesis using False ex c consputs_serial [OF c(1)] unfolding shows_only_def by auto
  qed
qed

text \<open>Process 1, with no open file, in a directory that \<open>init\<close> is in as well.\<close>

definition faulting_machine :: "machine \<Rightarrow> machine" where
  "faulting_machine m = (let k = kst m; t = ptab k in m\<lparr>cons := boot_console,
     kst := k\<lparr>cur := 1, icache := (icache k)(0 := (icache k 0)\<lparr>i_ref := 2\<rparr>),
       ptab := upd_proc 1 (\<lambda>p. p\<lparr>p_ofile := (\<lambda>_. None), p_cwd := Some 0\<rparr>) (t\<lparr>initproc := 0\<rparr>)\<rparr>\<rparr>)"

theorem user_fault_contained_witness:
  "\<forall>env m. \<exists>c k'. trap env True (zero_frame\<lparr>tf_trapno := 14, tf_cs := 0x23\<rparr>) (faulting_machine m) =
      Ok (Exits, (faulting_machine m)\<lparr>cons := c, kst := k'\<rparr>) \<and> p_state (curproc k') = ZOMBIE \<and>
    uart_out c = fault_text env (zero_frame\<lparr>tf_trapno := 14, tf_cs := 0x23\<rparr>) (curproc (kst (faulting_machine m)))"
proof (intro allI)
  fix env :: trap_env and m :: machine
  let ?tf = "zero_frame\<lparr>tf_trapno := 14, tf_cs := 0x23\<rparr>" and ?m = "faulting_machine m"
  have "from_user ?tf" "\<not> handled (tf_trapno ?tf)" by (simp_all add: from_user_def handled_def trap_numbers)
  moreover have "\<not> con_panicked (cons ?m)" and u: "uart (cons ?m)" "uart_out (cons ?m) = []"
    by (simp_all add: faulting_machine_def Let_def boot_console_def)
  moreover have "shares_all (kst ?m)" "cur (kst ?m) \<noteq> initproc (ptab (kst ?m))"
    by (simp_all add: shares_all_def faulting_machine_def upd_proc_def Let_def)
  ultimately show "\<exists>c k'. trap env True ?tf ?m = Ok (Exits, ?m\<lparr>cons := c, kst := k'\<rparr>) \<and> p_state (curproc k') = ZOMBIE \<and>
    uart_out c = fault_text env ?tf (curproc (kst ?m))"
    using user_fault_contained [of ?tf ?m env] by (auto simp del: consputs.simps)
qed

section \<open>The clock\<close>

text \<open>
  A clock tick preempts: the timer interrupt on the first CPU advances \<open>ticks\<close>, leaves no process asleep on it and puts the
  running process back among the runnable ones before the others run; the process goes on afterwards unless it has been killed.
\<close>

theorem timer_tick_preempts:
  assumes "tf_trapno tf = T_IRQ0 + IRQ_TIMER" "cpu_id env = 0" "p_state (curproc (kst m)) = RUNNING" "\<not> p_killed (curproc (kst m))"
  defines "handed \<equiv> m\<lparr>kst := (kst m)\<lparr>ticks := ticks (kst m) + 1, ptab := yield_table (cur (kst m)) (wakeup (Ch_addr 0) (ptab (kst m)))\<rparr>\<rparr>"
  shows "trap env True tf m =
      (if p_killed (curproc (kst (others env handed))) \<and> from_user tf then trap_exit (others env handed) else Ok (Resumes, others env handed)) \<and>
    p_state (curproc (kst handed)) = RUNNABLE \<and>
    (\<forall>i < NPROC. \<not> (p_state (procs (ptab (kst handed)) i) = SLEEPING \<and> p_chan (procs (ptab (kst handed)) i) = Some (Ch_addr 0)))"
proof -
  have n: "tf_trapno tf \<noteq> T_SYSCALL" using assms(1) by (simp add: trap_numbers)
  let ?m = "m\<lparr>kst := clock_tick (kst m)\<rparr>"
  have d: "trap_dispatch env True tf m = Ok ?m" using assms(1,2) by (simp add: trap_dispatch_def)
  have p: "p_killed (curproc (kst ?m)) = p_killed (curproc (kst m))" "p_state (curproc (kst ?m)) = RUNNING"
    using assms(3) by (simp_all add: clock_tick_def wakeup_def wakeup1_def Let_def)
  have y: "yield env ?m = others env handed" by (simp add: yield_def handed_def clock_tick_def)
  have "trap env True tf m =
      (if p_killed (curproc (kst (others env handed))) \<and> from_user tf then trap_exit (others env handed) else Ok (Resumes, others env handed))"
    using n d p assms(1,4) y by (simp add: trap_def Let_def)
  moreover have "p_state (curproc (kst handed)) = RUNNABLE" by (simp add: handed_def yield_table_def upd_proc_def)
  ultimately show ?thesis
    by (simp add: handed_def yield_table_def upd_proc_def wakeup_def wakeup1_def Let_def)
qed

theorem timer_tick_preempts_witness:
  "\<forall>env m. trap (env\<lparr>cpu_id := 0, others := (\<lambda>m. m)\<rparr>) True (zero_frame\<lparr>tf_trapno := 32, tf_cs := 8\<rparr>) (fresh_machine m) =
     Ok (Resumes, (fresh_machine m)\<lparr>kst := (kst (fresh_machine m))\<lparr>ticks := ticks (kst (fresh_machine m)) + 1,
       ptab := yield_table (cur (kst (fresh_machine m))) (wakeup (Ch_addr 0) (ptab (kst (fresh_machine m))))\<rparr>\<rparr>)"
proof (intro allI)
  fix env :: trap_env and m :: machine
  let ?tf = "zero_frame\<lparr>tf_trapno := 32, tf_cs := 8\<rparr>" and ?env = "env\<lparr>cpu_id := 0, others := (\<lambda>m. m)\<rparr>"
  have "tf_trapno ?tf = T_IRQ0 + IRQ_TIMER" "cpu_id ?env = 0" by (simp_all add: trap_numbers)
  note t = timer_tick_preempts [OF this fresh_machine_sel(2,1), of m]
  have "\<not> from_user ?tf" by (simp add: from_user_def)
  then show "trap ?env True ?tf (fresh_machine m) =
     Ok (Resumes, (fresh_machine m)\<lparr>kst := (kst (fresh_machine m))\<lparr>ticks := ticks (kst (fresh_machine m)) + 1,
       ptab := yield_table (cur (kst (fresh_machine m))) (wakeup (Ch_addr 0) (ptab (kst (fresh_machine m))))\<rparr>\<rparr>)"
    using conjunct1 [OF t] by simp
qed

end
