(* ===== verification/Umalloc.thy ===== *)
theory Umalloc
  imports Prelude
begin

text \<open>
  The storage allocator of user programs, \<open>src/P1/xv6/xv6/user/umalloc.c\<close>: free blocks form a circular list in the
  order of their addresses, through an empty block \<open>base\<close> in the program's data below the heap. A header takes 8 bytes and sizes count
  headers. Addresses are natural numbers, 0 the null pointer; a header is a pair of fields at its address. What the kernel answers to
  \<open>sbrk\<close> is a parameter: the new break for a requested change, or none if it refuses. Loops over the list return no result when they
  do not end.
\<close>

section \<open>umalloc.c\<close>

record uheap =
  h_ptr :: "nat \<Rightarrow> nat"
  h_size :: "nat \<Rightarrow> nat"
  freep :: nat
  brk :: nat

abbreviation set_ptr :: "nat \<Rightarrow> nat \<Rightarrow> uheap \<Rightarrow> uheap" where
  "set_ptr a v h \<equiv> h\<lparr>h_ptr := (h_ptr h)(a := v)\<rparr>"

abbreviation set_size :: "nat \<Rightarrow> nat \<Rightarrow> uheap \<Rightarrow> uheap" where
  "set_size a v h \<equiv> h\<lparr>h_size := (h_size h)(a := v)\<rparr>"

definition hdr :: "uheap \<Rightarrow> nat \<Rightarrow> nat" where
  "hdr h p = p + 8 * h_size h p"

partial_function (option) free_search :: "(nat \<Rightarrow> nat) \<Rightarrow> nat \<Rightarrow> nat \<Rightarrow> nat option" where
  "free_search nxt bp p =
     (if bp > p \<and> bp < nxt p then Some p
      else if p \<ge> nxt p \<and> (bp > p \<or> bp < nxt p) then Some p
      else free_search nxt bp (nxt p))"

definition free_join_up :: "nat \<Rightarrow> nat \<Rightarrow> uheap \<Rightarrow> uheap" where
  "free_join_up bp p h =
     (if hdr h bp = h_ptr h p
      then let h = set_size bp (h_size h bp + h_size h (h_ptr h p)) h in set_ptr bp (h_ptr h (h_ptr h p)) h
      else set_ptr bp (h_ptr h p) h)"

definition free_join_down :: "nat \<Rightarrow> nat \<Rightarrow> uheap \<Rightarrow> uheap" where
  "free_join_down bp p h =
     (if hdr h p = bp
      then let h = set_size p (h_size h p + h_size h bp) h in set_ptr p (h_ptr h bp) h
      else set_ptr p bp h)"

definition ufree :: "nat \<Rightarrow> uheap \<Rightarrow> uheap option" where
  "ufree ap h =
     (let bp = ap - 8 in
      case free_search (h_ptr h) bp (freep h) of
        None \<Rightarrow> None
      | Some p \<Rightarrow> Some ((free_join_down bp p (free_join_up bp p h))\<lparr>freep := p\<rparr>))"

type_synonym sbrk = "int \<Rightarrow> nat \<Rightarrow> nat option"

text \<open>The argument of \<open>sbrk\<close> is an \<open>int\<close>.\<close>

definition morecore :: "sbrk \<Rightarrow> nat \<Rightarrow> uheap \<Rightarrow> (nat \<times> uheap) option" where
  "morecore sbrk nu h =
     (let nu = (if nu < 4096 then 4096 else nu) in
      case sbrk (wrap32 (int nu * 8)) (brk h) of
        None \<Rightarrow> Some (0, h)
      | Some b \<Rightarrow>
          (let hp = brk h; h = set_size hp nu (h\<lparr>brk := b\<rparr>)
           in map_option (\<lambda>h. (freep h, h)) (ufree (hp + 8) h)))"

definition take_units :: "nat \<Rightarrow> nat \<Rightarrow> nat \<Rightarrow> uheap \<Rightarrow> nat \<times> uheap" where
  "take_units nunits prevp p h =
     (if h_size h p = nunits then (p + 8, (set_ptr prevp (h_ptr h p) h)\<lparr>freep := prevp\<rparr>)
      else let h = set_size p (h_size h p - nunits) h; p = hdr h p; h = set_size p nunits h
           in (p + 8, h\<lparr>freep := prevp\<rparr>))"

partial_function (option) malloc_loop :: "sbrk \<Rightarrow> nat \<Rightarrow> nat \<Rightarrow> nat \<Rightarrow> uheap \<Rightarrow> (nat \<times> uheap) option" where
  "malloc_loop sbrk nunits prevp p h =
     (if h_size h p \<ge> nunits then Some (take_units nunits prevp p h)
      else if p = freep h then
        Option.bind (morecore sbrk nunits h) (\<lambda>(p, h).
          if p = 0 then Some (0, h) else malloc_loop sbrk nunits p (h_ptr h p) h)
      else malloc_loop sbrk nunits p (h_ptr h p) h)"

definition units :: "nat \<Rightarrow> nat" where
  "units nbytes = (nbytes + 8 - 1) mod 2 ^ 32 div 8 + 1"

definition umalloc :: "sbrk \<Rightarrow> nat \<Rightarrow> nat \<Rightarrow> uheap \<Rightarrow> (nat \<times> uheap) option" where
  "umalloc sbrk base nbytes h =
     (let h = (if freep h = 0 then set_size base 0 (set_ptr base base (h\<lparr>freep := base\<rparr>)) else h)
      in malloc_loop sbrk (units nbytes) (freep h) (h_ptr h (freep h)) h)"

section \<open>The invariant\<close>

text \<open>Along the free list each block ends below the next one: no two free blocks touch.\<close>

fun spaced :: "(nat \<Rightarrow> nat) \<Rightarrow> nat list \<Rightarrow> bool" where
  "spaced e (a # b # bs) = (e a < b \<and> spaced e (b # bs))"
| "spaced e _ = True"

definition apart :: "uheap \<Rightarrow> nat \<Rightarrow> nat \<Rightarrow> bool" where
  "apart h a b \<longleftrightarrow> hdr h a \<le> b \<or> hdr h b \<le> a"

text \<open>
  \<open>fl\<close> is the free list behind \<open>base\<close>, \<open>live\<close> the headers of the blocks that are handed out.
\<close>

definition uinv :: "nat \<Rightarrow> uheap \<Rightarrow> nat list \<Rightarrow> nat set \<Rightarrow> bool" where
  "uinv base h fl live \<longleftrightarrow>
     0 < base \<and> base < brk h \<and> ring (h_ptr h) base fl \<and> h_size h base = 0 \<and> freep h \<in> set (base # fl) \<and> spaced (hdr h) (base # fl) \<and>
     (\<forall>b \<in> set fl \<union> live. base < b \<and> 1 \<le> h_size h b \<and> hdr h b \<le> brk h) \<and>
     live \<inter> set fl = {} \<and> (\<forall>a \<in> live. \<forall>b \<in> set fl \<union> live. a \<noteq> b \<longrightarrow> apart h a b)"

lemma hdr_other [simp]: "hdr (h\<lparr>freep := x\<rparr>) = hdr h" "hdr (h\<lparr>h_ptr := f\<rparr>) = hdr h" "hdr (h\<lparr>brk := b\<rparr>) = hdr h"
  by (simp_all add: hdr_def fun_eq_iff)

lemma apart_other [simp]: "apart (h\<lparr>freep := x\<rparr>) = apart h" "apart (h\<lparr>h_ptr := f\<rparr>) = apart h" "apart (h\<lparr>brk := b\<rparr>) = apart h"
  by (simp_all add: apart_def fun_eq_iff)

lemma le_hdr: "p \<le> hdr h p"
  by (simp add: hdr_def)

lemma spaced_tl: "spaced e (a # bs) \<Longrightarrow> spaced e bs"
  by (cases bs) auto

lemma spaced_less: "spaced (hdr h) (a # bs) \<Longrightarrow> b \<in> set bs \<Longrightarrow> hdr h a < b"
proof (induction bs arbitrary: a)
  case (Cons c cs)
  show ?case
  proof (cases "b = c")
    case False
    then have "hdr h c < b" using Cons by simp
    then show ?thesis using Cons.prems le_hdr [of c h] by simp
  qed (use Cons.prems in simp)
qed simp

lemma spaced_append:
  "spaced e (as @ [a] @ bs) \<longleftrightarrow> spaced e (as @ [a]) \<and> spaced e (a # bs)"
proof (induction as)
  case (Cons c cs)
  then show ?case by (cases cs) auto
qed auto

lemma spaced_cong: "(\<And>a. a \<in> set (butlast as) \<Longrightarrow> e a = e' a) \<Longrightarrow> spaced e as = spaced e' as"
  by (induction e as rule: spaced.induct) auto

lemma spaced_sorted: "spaced (hdr h) as \<Longrightarrow> sorted_wrt (<) as"
proof (induction as)
  case (Cons a as)
  then show ?case using spaced_less [of h a as] spaced_tl [of "hdr h" a as] le_hdr [of a h]
    by (auto intro: le_less_trans)
qed simp

section \<open>Walking round the list\<close>

lemma chain_walk:
  assumes "chain nxt zs" "p \<in> set zs" "P p" "\<And>x. x \<in> set zs \<Longrightarrow> x \<noteq> p \<Longrightarrow> P (nxt x) \<Longrightarrow> P x"
  shows "P (hd zs)"
  using assms
proof (induction zs)
  case (Cons a zs)
  show ?case
  proof (cases "a = p")
    case False
    then obtain c cs where zs: "zs = c # cs" using Cons.prems(2) by (cases zs) auto
    have "P (hd zs)" using Cons.prems False zs by (intro Cons.IH) auto
    then show ?thesis using Cons.prems False zs by simp
  qed (use Cons.prems in simp)
qed simp

text \<open>The list seen from any of its blocks.\<close>

lemma ring_rotate:
  assumes "ring nxt b fl" "f \<in> set (b # fl)"
  shows "\<exists>ys. chain nxt (f # ys @ [f]) \<and> set (f # ys) = set (b # fl) \<and> f \<notin> set ys"
proof (cases "f = b")
  case True
  then show ?thesis using assms(1) by (intro exI [of _ fl]) (auto simp: ring_chain)
next
  case False
  then obtain as cs where fl: "fl = as @ f # cs" using assms(2) by (auto dest: split_list)
  have "chain nxt ((b # as) @ f # cs @ [b])" using assms(1) by (simp add: ring_chain fl)
  then have c: "chain nxt (b # as)" "nxt (last (b # as)) = f" "chain nxt ((f # cs) @ b # [])"
    using chain_append [of "b # as" nxt f "cs @ [b]"] by simp_all
  then have d: "chain nxt (f # cs)" "nxt (last (f # cs)) = b" using chain_append [of "f # cs" nxt b "[]"] by simp_all
  have "chain nxt ((f # cs) @ b # (as @ [f]))"
    using d c chain_append [of "b # as" nxt f "[]"] chain_append [of "f # cs" nxt b "as @ [f]"] by simp
  then show ?thesis using assms(1) by (intro exI [of _ "cs @ b # as"]) (auto simp: ring_chain fl)
qed

lemma ring_closed: "ring nxt b fl \<Longrightarrow> x \<in> set (b # fl) \<Longrightarrow> nxt x \<in> set (b # fl)"
proof -
  assume "ring nxt b fl" "x \<in> set (b # fl)"
  then obtain ys where "chain nxt (x # ys @ [x])" "set (x # ys) = set (b # fl)" using ring_rotate by metis
  then show ?thesis by (cases ys) auto
qed

text \<open>
  The search of \<open>free\<close> ends at the last block below the one to be inserted.
\<close>

lemma free_search_spec:
  assumes "ring nxt b fl" "sorted_wrt (<) (b # fl)" "f \<in> set (b # fl)" "b < bp" "bp \<notin> set fl"
  shows "\<exists>as cs. fl = as @ cs \<and> (\<forall>a \<in> set (b # as). a < bp) \<and> (\<forall>c \<in> set cs. bp < c) \<and>
    free_search nxt bp f = Some (last (b # as))"
proof -
  define as cs where "as = takeWhile (\<lambda>a. a < bp) fl" and "cs = dropWhile (\<lambda>a. a < bp) fl"
  have fl: "fl = as @ cs" by (simp add: as_def cs_def)
  have lo: "\<forall>a \<in> set (b # as). a < bp" using assms(4) by (auto simp: as_def dest: set_takeWhileD)
  have hi: "\<forall>c \<in> set cs. bp < c"
  proof (cases cs)
    case (Cons c cs')
    then have "\<not> c < bp" unfolding cs_def by (meson dropWhile_eq_Cons_conv)
    then have "bp < c" using assms(5) fl Cons by (cases "c = bp") auto
    moreover have "\<forall>x \<in> set cs'. c < x" using assms(2) by (simp add: fl Cons sorted_wrt_append)
    ultimately show ?thesis using Cons by auto
  qed simp
  let ?p = "last (b # as)"
  have stop: "free_search nxt bp ?p = Some ?p"
  proof -
    have "?p < bp" using lo last_in_set [of "b # as"] by blast
    moreover have "nxt ?p = hd (cs @ [b])"
      using assms(1) ring_prev [of nxt b as "hd cs" "tl cs"] chain_append [of "b # as" nxt b "[]"]
      by (cases cs) (auto simp: fl ring_chain)
    moreover have "bp < hd (cs @ [b]) \<or> hd (cs @ [b]) = b" using hi by (cases cs) auto
    moreover have "b \<le> ?p" using assms(2) last_in_set [of as] by (cases "as = []") (auto simp: fl less_imp_le)
    ultimately show ?thesis by (subst free_search.simps) auto
  qed
  have step: "free_search nxt bp x = free_search nxt bp (nxt x)" if x: "x \<in> set (b # fl)" "x \<noteq> ?p" for x
  proof -
    obtain xs ys where l: "b # fl = xs @ x # ys" using x(1) by (meson split_list)
    have nx: "nxt x = hd (ys @ [b])"
    proof (cases xs)
      case Nil
      then show ?thesis using assms(1) l by (cases ys) (auto simp: ring_def)
    next
      case (Cons z zs)
      then show ?thesis using assms(1) l by (auto intro: ring_next)
    qed
    have s: "sorted_wrt (<) (xs @ x # ys)" using assms(2) l by metis
    have "\<not> (bp > x \<and> bp < nxt x) \<and> \<not> (x \<ge> nxt x \<and> (bp > x \<or> bp < nxt x))"
    proof (cases ys)
      case Nil
      then have "x = last (b # fl)" using l by (metis last_snoc)
      then have "cs \<noteq> []" using x(2) fl by (metis append_Nil2)
      then have "bp < x" using hi \<open>x = last (b # fl)\<close> fl by auto
      moreover have "b < bp" by (rule assms(4))
      ultimately show ?thesis using nx Nil by simp
    next
      case (Cons y ys')
      have xy: "x < y" using s Cons by (simp add: sorted_wrt_append)
      have "\<not> (x < bp \<and> bp < y)"
      proof
        assume xy': "x < bp \<and> bp < y"
        have "x \<in> set (b # as)" using xy' x(1) hi fl by auto
        then obtain us vs where u: "b # as = us @ x # vs" by (meson split_list)
        then have "vs \<noteq> []" using x(2) by auto
        then obtain v vs' where v: "vs = v # vs'" by (cases vs) auto
        have "(b # as) @ cs = xs @ x # y # ys'" using l Cons fl by simp
        then have e: "us @ x # v # vs' @ cs = xs @ x # y # ys'" using u v by simp
        have dist: "distinct (xs @ x # y # ys')" using s Cons by (metis strict_sorted_iff)
        have "us = xs" using e dist by (metis distinct_append append_eq_append_conv2 append_Cons_eq_iff distinct.simps(2) in_set_conv_decomp not_distinct_conv_prefix)
        then have "v = y" using e by simp
        then have "y < bp" using u v lo by (metis in_set_conv_decomp list.set_intros(1) list.set_intros(2) Un_iff set_append)
        with xy' show False by simp
      qed
      then show ?thesis using nx Cons xy by auto
    qed
    then show ?thesis by (subst free_search.simps) auto
  qed
  obtain ys where ys: "chain nxt (f # ys @ [f])" "set (f # ys) = set (b # fl)" using ring_rotate [OF assms(1,3)] by metis
  have "?p \<in> set (f # ys @ [f])" using ys(2) fl by (metis UnCI set_append append_Cons last_in_set list.distinct(1))
  moreover have "set (f # ys @ [f]) = set (b # fl)" using ys(2) by auto
  ultimately have "free_search nxt bp (hd (f # ys @ [f])) = Some ?p"
    using stop step by (intro chain_walk [OF ys(1), of ?p "\<lambda>x. free_search nxt bp x = Some ?p"]) (metis, metis, metis)
  then show ?thesis using fl lo hi by auto
qed

section \<open>free\<close>

lemma ring_insert:
  assumes "ring nxt h (as @ cs)" "b \<notin> set (h # as @ cs)"
  shows "ring (nxt(b := nxt (last (h # as)), last (h # as) := b)) h (as @ b # cs)"
proof -
  let ?p = "last (h # as)" let ?n = "nxt(b := nxt (last (h # as)), last (h # as) := b)"
  obtain c ds where cd: "cs @ [h] = c # ds" by (cases cs) auto
  have d: "distinct (h # as @ cs)" and ch: "chain nxt ((h # as) @ c # ds)"
    using assms(1) by (simp_all add: ring_chain flip: cd)
  from ch have 1: "chain nxt (h # as)" and 2: "nxt ?p = c" and 3: "chain nxt (c # ds)"
    using chain_append [of "h # as" nxt c ds] by simp_all
  have pb: "?p \<noteq> b" using assms(2) last_in_set [of "h # as"] by auto
  have "chain ?n (h # as) = chain nxt (h # as)"
    using last_butlast_distinct [of "h # as"] d assms(2) by (intro chain_cong) (auto dest: in_set_butlastD)
  moreover have "?p \<notin> set (butlast (c # ds))" "b \<notin> set (butlast (c # ds))"
    using d assms(2) by (cases as rule: rev_cases; auto simp flip: cd)+
  then have "chain ?n (c # ds) = chain nxt (c # ds)" by (intro chain_cong) auto
  ultimately have "chain ?n ((h # as) @ b # c # ds)"
    using 1 2 3 pb chain_append [of "h # as" ?n b "c # ds"] by simp
  then show ?thesis using d assms(2) by (auto simp: ring_chain simp flip: cd)
qed

text \<open>
  The two joins. \<open>up\<close> says that the block ends where the next free one begins, \<open>down\<close> that the one before it ends where
  it begins.
\<close>

lemma join_ring:
  assumes r: "ring (h_ptr h) base (as @ cs)" and b: "bp \<notin> set (base # as @ cs)"
    and p: "p = last (base # as)" and up: "up \<longleftrightarrow> hdr h bp = h_ptr h p" and upc: "up \<Longrightarrow> cs \<noteq> []"
    and down: "down \<longleftrightarrow> hdr h p = bp"
  defines "h' \<equiv> free_join_down bp p (free_join_up bp p h)"
  shows "ring (h_ptr h') base (as @ (if down then [] else [bp]) @ (if up then tl cs else cs))"
    and "h_size h' = (let s = (if up then (h_size h)(bp := h_size h bp + h_size h (hd cs)) else h_size h)
           in if down then s(p := s p + s bp) else s)"
    and "brk h' = brk h" "up \<Longrightarrow> h_ptr h p = hd cs"
proof -
  have pb: "p \<noteq> bp" using b p last_in_set [of "base # as"] by auto
  show q: "up \<Longrightarrow> h_ptr h p = hd cs"
    using upc r ring_prev [of "h_ptr h" base as "hd cs" "tl cs"] p by simp
  let ?n = "(h_ptr h)(bp := h_ptr h p, p := bp)"
  have 1: "ring ?n base (as @ bp # cs)" using ring_insert [OF r b] p by simp
  let ?m = "(h_ptr h)(bp := if up then h_ptr h (hd cs) else h_ptr h p)"
  have 2: "ring (?m(p := bp)) base (as @ bp # (if up then tl cs else cs))"
  proof (cases up)
    case True
    then obtain c cs' where c: "cs = c # cs'" using upc by (cases cs) auto
    have "c \<noteq> p" "c \<noteq> bp" using r b p c by (auto simp: ring_def)
    then show ?thesis using ring_unlink [of ?n base "as @ [bp]" c cs'] 1 c True pb by (simp add: fun_upd_twist)
  next
    case False
    then show ?thesis using 1 by simp
  qed
  have h1: "h_ptr (free_join_up bp p h) = ?m"
    using up q pb by (auto simp: free_join_up_def Let_def)
  have s1: "h_size (free_join_up bp p h) = (if up then (h_size h)(bp := h_size h bp + h_size h (hd cs)) else h_size h)"
    using up q by (auto simp: free_join_up_def Let_def)
  have d1: "hdr (free_join_up bp p h) p = hdr h p" using s1 pb by (auto simp: hdr_def)
  have "h_ptr h' = ?m(p := if down then ?m bp else bp)"
    unfolding h'_def free_join_down_def Let_def d1 using down h1 pb by auto
  then show "ring (h_ptr h') base (as @ (if down then [] else [bp]) @ (if up then tl cs else cs))"
    using 2 ring_unlink [OF 2] p pb by (auto simp: fun_upd_idem)
  show "h_size h' = (let s = (if up then (h_size h)(bp := h_size h bp + h_size h (hd cs)) else h_size h)
           in if down then s(p := s p + s bp) else s)"
    unfolding h'_def free_join_down_def Let_def d1 using down s1 by auto
  show "brk h' = brk h" by (simp add: h'_def free_join_down_def free_join_up_def Let_def)
qed

text \<open>
  The situation when the search has ended: the block to be freed and its place in the list; whether it touches its neighbours, where
  the joined block ends, and the list afterwards.
\<close>

definition freeing :: "nat \<Rightarrow> uheap \<Rightarrow> nat set \<Rightarrow> nat \<Rightarrow> nat list \<Rightarrow> nat list \<Rightarrow> bool" where
  "freeing base h live bp as cs \<longleftrightarrow>
     uinv base h (as @ cs) live \<and> bp \<in> live \<and> (\<forall>a \<in> set (base # as). a < bp) \<and> (\<forall>c \<in> set cs. bp < c)"

definition fr_up :: "uheap \<Rightarrow> nat \<Rightarrow> nat list \<Rightarrow> bool" where
  "fr_up h bp cs \<longleftrightarrow> cs \<noteq> [] \<and> hdr h bp = hd cs"

definition fr_rest :: "uheap \<Rightarrow> nat \<Rightarrow> nat list \<Rightarrow> nat list" where
  "fr_rest h bp cs = (if fr_up h bp cs then tl cs else cs)"

definition fr_end :: "uheap \<Rightarrow> nat \<Rightarrow> nat list \<Rightarrow> nat" where
  "fr_end h bp cs = (if fr_up h bp cs then hdr h (hd cs) else hdr h bp)"

definition fr_list :: "uheap \<Rightarrow> nat \<Rightarrow> nat \<Rightarrow> nat list \<Rightarrow> nat list \<Rightarrow> nat list" where
  "fr_list h bp p as cs = as @ (if hdr h p = bp then [] else [bp]) @ fr_rest h bp cs"

lemma freeingD:
  assumes "freeing base h live bp as cs"
  shows "ring (h_ptr h) base (as @ cs)" "spaced (hdr h) ((base # as) @ cs)" "h_size h base = 0" "0 < base \<and> base < brk h" "bp \<in> live"
    and "\<And>b. b \<in> set as \<union> set cs \<union> live \<Longrightarrow> base < b \<and> 1 \<le> h_size h b \<and> hdr h b \<le> brk h" "live \<inter> (set as \<union> set cs) = {}"
    and "\<And>a b. a \<in> live \<Longrightarrow> b \<in> set as \<union> set cs \<union> live \<Longrightarrow> a \<noteq> b \<Longrightarrow> apart h a b"
    and "\<forall>a \<in> set (base # as). a < bp" "\<forall>c \<in> set cs. bp < c" "bp \<notin> set (base # as @ cs)"
  using assms unfolding freeing_def uinv_def by auto

lemma freeing_prev:
  assumes "freeing base h live bp as cs"
  shows "last (base # as) \<in> set (base # as)" "last (base # as) < bp" "h_ptr h (last (base # as)) = hd (cs @ [base])"
    and "fr_up h bp cs \<longleftrightarrow> hdr h bp = h_ptr h (last (base # as))"
proof -
  note F = freeingD [OF assms]
  show "last (base # as) \<in> set (base # as)" by (rule last_in_set) simp
  then show "last (base # as) < bp" using F(9) by blast
  show p: "h_ptr h (last (base # as)) = hd (cs @ [base])"
    using F(1) ring_prev [of "h_ptr h" base as "hd cs" "tl cs"] chain_append [of "base # as" "h_ptr h" base "[]"]
    by (cases cs) (auto simp: ring_chain)
  show "fr_up h bp cs \<longleftrightarrow> hdr h bp = h_ptr h (last (base # as))"
    unfolding p using le_hdr [of bp h] F(9) by (cases cs) (auto simp: fr_up_def)
qed

lemma freeing_before:
  assumes "freeing base h live bp as cs" "hdr h (last (base # as)) \<noteq> bp"
  shows "hdr h (last (base # as)) < bp"
proof (cases "last (base # as) = base")
  case True
  then show ?thesis using freeingD(3,9) [OF assms(1)] by (simp add: hdr_def)
next
  case False
  then have "last (base # as) \<in> set as" using freeing_prev(1) [OF assms(1)] by auto
  then have "apart h bp (last (base # as))" using freeingD(5,8,11) [OF assms(1)] by fastforce
  then show ?thesis using assms(2) freeing_prev(2) [OF assms(1)] le_hdr [of bp h] by (auto simp: apart_def)
qed

lemma freeing_after:
  assumes "freeing base h live bp as cs" "c \<in> set (fr_rest h bp cs)"
  shows "fr_end h bp cs < c \<and> bp < c"
proof -
  note F = freeingD [OF assms(1)]
  have c: "c \<in> set cs" using assms(2) by (cases cs) (auto simp: fr_rest_def split: if_splits)
  then obtain q cs' where q: "cs = q # cs'" by (cases cs) auto
  have "spaced (hdr h) ((base # as) @ [q] @ cs')" using F(2) q by simp
  then have s: "spaced (hdr h) (q # cs')" unfolding spaced_append by blast
  show ?thesis
  proof (cases "fr_up h bp cs")
    case True
    then have "c \<in> set cs'" using assms(2) q by (simp add: fr_rest_def)
    then show ?thesis using spaced_less [OF s] F(10) q True by (auto simp: fr_end_def)
  next
    case False
    have "apart h bp q" using F(5,8,11) q by simp
    then have "hdr h bp < q" using F(10) le_hdr [of q h] False q by (auto simp: apart_def fr_up_def)
    moreover have "q \<le> c" using spaced_less [OF s] c q le_hdr [of q h] by fastforce
    ultimately show ?thesis using False F(10) c by (auto simp: fr_end_def)
  qed
qed

lemma freeing_extent:
  assumes "freeing base h live bp as cs"
  shows "bp < fr_end h bp cs" "fr_end h bp cs \<le> brk h"
    and "a \<in> live \<Longrightarrow> a \<noteq> bp \<Longrightarrow> hdr h a \<le> bp \<or> fr_end h bp cs \<le> a"
proof -
  note F = freeingD [OF assms]
  have hd: "fr_up h bp cs \<Longrightarrow> hd cs \<in> set cs \<and> hdr h bp = hd cs" by (simp add: fr_up_def)
  show "bp < fr_end h bp cs" using F(6) [of bp] F(5) hd le_hdr [of "hd cs" h] by (auto simp: fr_end_def hdr_def)
  show "fr_end h bp cs \<le> brk h" using F(6) [of bp] F(5) F(6) [of "hd cs"] hd by (auto simp: fr_end_def)
  assume a: "a \<in> live" "a \<noteq> bp"
  have "apart h a bp" using F(5,8) a by auto
  moreover have "fr_up h bp cs \<Longrightarrow> apart h a (hd cs)" using F(7,8) hd a by blast
  ultimately show "hdr h a \<le> bp \<or> fr_end h bp cs \<le> a" using hd F(6) [of a] a(1) by (auto simp: apart_def fr_end_def hdr_def)
qed

text \<open>What the joins do to the blocks: the joined one, its neighbour below and all others.\<close>

lemma freeing_join:
  assumes "freeing base h live bp as cs" and p: "p = last (base # as)"
  defines "h' \<equiv> free_join_down bp p (free_join_up bp p h)"
  shows "ring (h_ptr h') base (fr_list h bp p as cs)" "brk h' = brk h"
    and "hdr h p \<noteq> bp \<Longrightarrow> hdr h' bp = fr_end h bp cs \<and> h_size h bp \<le> h_size h' bp"
    and "hdr h p = bp \<Longrightarrow> hdr h' p = fr_end h bp cs \<and> h_size h bp \<le> h_size h' p"
    and "x \<noteq> bp \<Longrightarrow> x \<noteq> p \<or> hdr h p \<noteq> bp \<Longrightarrow> hdr h' x = hdr h x \<and> h_size h' x = h_size h x"
proof -
  note F = freeingD [OF assms(1)] and P = freeing_prev [OF assms(1), folded p]
  have upc: "cs \<noteq> [] \<and> hdr h bp = hd cs" if "fr_up h bp cs" using that by (simp add: fr_up_def)
  note J = join_ring [OF F(1,11) p P(4) conjunct1 [OF upc] refl, folded h'_def]
  show "ring (h_ptr h') base (fr_list h bp p as cs)" "brk h' = brk h"
    using J(1,3) by (auto simp: fr_list_def fr_rest_def)
  have pb: "p \<noteq> bp" using P(2) by simp
  show "hdr h p \<noteq> bp \<Longrightarrow> hdr h' bp = fr_end h bp cs \<and> h_size h bp \<le> h_size h' bp"
    using J(2) upc pb by (auto simp: Let_def hdr_def fr_end_def)
  show "hdr h p = bp \<Longrightarrow> hdr h' p = fr_end h bp cs \<and> h_size h bp \<le> h_size h' p"
    using J(2) upc pb by (auto simp: Let_def hdr_def fr_end_def)
  show "x \<noteq> bp \<Longrightarrow> x \<noteq> p \<or> hdr h p \<noteq> bp \<Longrightarrow> hdr h' x = hdr h x \<and> h_size h' x = h_size h x"
    using J(2) pb by (auto simp: Let_def hdr_def)
qed

lemma freeing_spaced:
  assumes "freeing base h live bp as cs" and p: "p = last (base # as)"
  defines "h' \<equiv> free_join_down bp p (free_join_up bp p h)"
  shows "spaced (hdr h') (base # fr_list h bp p as cs)"
proof -
  note F = freeingD [OF assms(1)] and P = freeing_prev [OF assms(1), folded p]
    and J = freeing_join [OF assms(1) p, folded h'_def] and A = freeing_after [OF assms(1)]
  define as0 where "as0 = butlast (base # as)"
  have bas: "base # as = as0 @ [p]" unfolding as0_def p by (rule append_butlast_last_id [symmetric]) simp
  have sp: "spaced (hdr h) (as0 @ [p] @ cs)" using F(2) bas by (metis append_assoc)
  then have 1: "spaced (hdr h) (as0 @ [p])" unfolding spaced_append by blast
  have "distinct (base # as)" using F(1) by (simp add: ring_def)
  then have "p \<notin> set as0" "bp \<notin> set as0" using bas F(9) by (metis distinct_append disjoint_insert(1) list.set(2), force)
  then have 2: "spaced (hdr h') (as0 @ [p])" using 1 spaced_cong [of "as0 @ [p]" "hdr h'" "hdr h"] J(5) by force
  have "spaced (hdr h) cs" using sp spaced_tl [of "hdr h" p cs] unfolding spaced_append by blast
  then have "spaced (hdr h) (fr_rest h bp cs)" using spaced_tl by (cases cs) (auto simp: fr_rest_def)
  moreover have "hdr h' c = hdr h c" if "c \<in> set (fr_rest h bp cs)" for c using A [OF that] P(2) J(5) by force
  ultimately have 3: "spaced (hdr h') (fr_rest h bp cs)"
    using spaced_cong [of "fr_rest h bp cs" "hdr h'" "hdr h"] by (meson in_set_butlastD)
  have ext: "spaced (hdr h') (x # fr_rest h bp cs)" if "hdr h' x = fr_end h bp cs" for x
    using 3 A that by (cases "fr_rest h bp cs") auto
  have 4: "spaced (hdr h') (p # (if hdr h p = bp then [] else [bp]) @ fr_rest h bp cs)"
  proof (cases "hdr h p = bp")
    case True
    then show ?thesis using ext [of p] J(4) by simp
  next
    case False
    have "p \<noteq> bp" using P(2) by simp
    then have "hdr h' p < bp" using J(5) [of p] False freeing_before [OF assms(1)] p by simp
    then show ?thesis using False ext [of bp] J(3) by simp
  qed
  have "base # fr_list h bp p as cs = as0 @ [p] @ ((if hdr h p = bp then [] else [bp]) @ fr_rest h bp cs)"
    using bas by (simp add: fr_list_def)
  then show ?thesis using 2 4 spaced_append [of "hdr h'" as0 p] by metis
qed

text \<open>Each block of the new list: the freed one, the one it was joined to, or an old one that has not changed.\<close>

lemma freeing_kinds:
  assumes "freeing base h live bp as cs" and p: "p = last (base # as)" and "b \<in> set (fr_list h bp p as cs)"
  shows "b = bp \<and> hdr h p \<noteq> bp \<or> b = p \<and> hdr h p = bp \<and> p \<in> set as \<or> b \<in> set as \<union> set cs \<and> b \<noteq> bp \<and> (b \<noteq> p \<or> hdr h p \<noteq> bp)"
proof -
  note F = freeingD [OF assms(1)]
  have "set (fr_rest h bp cs) \<subseteq> set cs" by (cases cs) (auto simp: fr_rest_def)
  then have "b \<in> set as \<union> set cs \<and> b \<noteq> bp \<or> b = bp \<and> hdr h p \<noteq> bp"
    using assms(3) F(11) by (auto simp: fr_list_def split: if_splits)
  moreover have "hdr h p = bp \<Longrightarrow> p \<in> set as" using freeing_prev(1,2) [OF assms(1)] F(3) p by (auto simp: hdr_def split: if_splits)
  ultimately show ?thesis by blast
qed

lemma freeing_live:
  assumes "freeing base h live bp as cs" and p: "p = last (base # as)" and "a \<in> live - {bp}"
  defines "h' \<equiv> free_join_down bp p (free_join_up bp p h)"
  shows "hdr h' a = hdr h a \<and> h_size h' a = h_size h a" "a \<notin> set (fr_list h bp p as cs)"
proof -
  note F = freeingD [OF assms(1)]
  have "a \<noteq> p" using freeing_prev(1) [OF assms(1)] F(6) [of a] F(7) assms(3) p by auto
  then show "hdr h' a = hdr h a \<and> h_size h' a = h_size h a" using freeing_join(5) [OF assms(1) p, of a] assms(3) by (simp add: h'_def)
  show "a \<notin> set (fr_list h bp p as cs)" using freeing_kinds [OF assms(1) p, of a] \<open>a \<noteq> p\<close> assms(3) F(7) by auto
qed

lemma freeing_bounds:
  assumes "freeing base h live bp as cs" and p: "p = last (base # as)" and b: "b \<in> set (fr_list h bp p as cs) \<union> (live - {bp})"
  defines "h' \<equiv> free_join_down bp p (free_join_up bp p h)"
  shows "base < b \<and> 1 \<le> h_size h' b \<and> hdr h' b \<le> brk h"
proof (cases "b \<in> live - {bp}")
  case True
  then show ?thesis using freeing_live(1) [OF assms(1) p True] freeingD(6) [OF assms(1), of b] by (simp add: h'_def)
next
  case False
  note F = freeingD [OF assms(1)] and J = freeing_join [OF assms(1) p, folded h'_def] and E = freeing_extent [OF assms(1)]
  have s: "1 \<le> h_size h bp" "base < bp" using F(5,6) by auto
  from freeing_kinds [OF assms(1) p] False b
  consider "b = bp" "hdr h p \<noteq> bp" | "b = p" "hdr h p = bp" "p \<in> set as" | "b \<in> set as \<union> set cs" "b \<noteq> bp" "b \<noteq> p \<or> hdr h p \<noteq> bp" by blast
  then show ?thesis
  proof cases
    case 1
    then show ?thesis using J(3) E(2) s by auto
  next
    case 2
    then show ?thesis using J(4) E(2) s F(6) [of p] by auto
  next
    case 3
    then show ?thesis using J(5) [of b] F(6) [of b] by auto
  qed
qed

lemma freeing_apart:
  assumes "freeing base h live bp as cs" and p: "p = last (base # as)" and a: "a \<in> live - {bp}"
    and b: "b \<in> set (fr_list h bp p as cs) \<union> (live - {bp})" "a \<noteq> b"
  defines "h' \<equiv> free_join_down bp p (free_join_up bp p h)"
  shows "apart h' a b"
proof (cases "b \<in> live - {bp}")
  case True
  then show ?thesis
    using freeing_live(1) [OF assms(1) p True] freeing_live(1) [OF assms(1) p a] freeingD(8) [OF assms(1), of a b] a b(2) by (simp add: h'_def apart_def)
next
  case False
  note F = freeingD [OF assms(1)] and J = freeing_join [OF assms(1) p, folded h'_def] and E = freeing_extent [OF assms(1)]
  have ha: "hdr h' a = hdr h a" using freeing_live(1) [OF assms(1) p a] by (simp add: h'_def)
  from freeing_kinds [OF assms(1) p] False b(1)
  consider "b = bp" "hdr h p \<noteq> bp" | "b = p" "hdr h p = bp" "p \<in> set as" | "b \<in> set as \<union> set cs" "b \<noteq> bp" "b \<noteq> p \<or> hdr h p \<noteq> bp" by blast
  then show ?thesis
  proof cases
    case 1
    then show ?thesis using J(3) E(3) [of a] a ha by (auto simp: apart_def)
  next
    case 2
    have "apart h a p" using F(8) [of a p] a b(2) 2 by auto
    then show ?thesis using 2 J(4) E(3) [of a] a ha F(6) [of a] by (auto simp: apart_def hdr_def)
  next
    case 3
    then show ?thesis using J(5) [of b] F(8) [of a b] a b(2) ha by (auto simp: apart_def)
  qed
qed

lemma ufree_inv:
  assumes inv: "uinv base h fl live" and bp: "bp \<in> live"
  shows "\<exists>h' fl'. ufree (bp + 8) h = Some h' \<and> uinv base h' fl' (live - {bp}) \<and> brk h' = brk h \<and>
    (\<forall>a \<in> live - {bp}. h_size h' a = h_size h a) \<and> (\<exists>b \<in> set fl'. h_size h bp \<le> h_size h' b)"
proof -
  have r: "ring (h_ptr h) base fl" and sp: "spaced (hdr h) (base # fl)" and fp: "freep h \<in> set (base # fl)" and bb: "base < bp" "bp \<notin> set fl"
    using inv bp unfolding uinv_def by blast+
  from free_search_spec [OF r spaced_sorted [OF sp] fp bb] obtain as cs where
    fl: "fl = as @ cs" "\<forall>a \<in> set (base # as). a < bp" "\<forall>c \<in> set cs. bp < c"
    and fs: "free_search (h_ptr h) bp (freep h) = Some (last (base # as))" by blast
  then have F: "freeing base h live bp as cs" using inv bp by (simp add: freeing_def)
  define p where "p = last (base # as)"
  define h' where "h' = free_join_down bp p (free_join_up bp p h)"
  let ?fl = "fr_list h bp p as cs"
  note J = freeing_join [OF F p_def, folded h'_def]
  have res: "ufree (bp + 8) h = Some (h'\<lparr>freep := p\<rparr>)" using fs by (simp add: ufree_def p_def h'_def)
  have pin: "p \<in> set (base # ?fl)" using freeing_prev(1) [OF F] by (auto simp: p_def fr_list_def)
  have "h_size h' base = 0"
  proof -
    have "base \<noteq> p \<or> hdr h p \<noteq> bp" using freeingD(3,9) [OF F] by (auto simp: hdr_def)
    then show ?thesis using J(5) [of base] bb(1) freeingD(3) [OF F] by auto
  qed
  moreover have "(live - {bp}) \<inter> set ?fl = {}" using freeing_live(2) [OF F p_def] by blast
  moreover have "\<forall>b \<in> set ?fl \<union> (live - {bp}). base < b \<and> 1 \<le> h_size h' b \<and> hdr h' b \<le> brk h"
    using freeing_bounds [OF F p_def] by (simp add: h'_def)
  moreover have "\<forall>a \<in> live - {bp}. \<forall>b \<in> set ?fl \<union> (live - {bp}). a \<noteq> b \<longrightarrow> apart h' a b"
    using freeing_apart [OF F p_def] unfolding h'_def by blast
  ultimately have "uinv base (h'\<lparr>freep := p\<rparr>) ?fl (live - {bp})"
    using J(1,2) pin freeing_spaced [OF F p_def, folded h'_def] freeingD(4) [OF F] unfolding uinv_def by simp
  moreover have "\<exists>b \<in> set ?fl. h_size h bp \<le> h_size h' b"
  proof (cases "hdr h p = bp")
    case True
    then have "p \<noteq> base" using freeingD(3,9) [OF F] by (auto simp: hdr_def)
    then show ?thesis using J(4) True pin by auto
  next
    case False
    then show ?thesis using J(3) by (auto simp: fr_list_def)
  qed
  ultimately show ?thesis using res J(2) freeing_live(1) [OF F p_def, folded h'_def]
    by (intro exI [of _ "h'\<lparr>freep := p\<rparr>"] exI [of _ ?fl]) auto
qed

section \<open>malloc\<close>

lemma spaced_mono: "(\<And>a. a \<in> set as \<Longrightarrow> e' a \<le> e a) \<Longrightarrow> spaced e as \<Longrightarrow> spaced e' as"
proof (induction e as rule: spaced.induct)
  case (1 e a b bs)
  then show ?case using le_less_trans [of "e' a" "e a" b] by simp
qed simp_all

lemma spaced_remove: "spaced (hdr h) (as @ [q] @ b # cs) \<Longrightarrow> spaced (hdr h) (as @ [q] @ cs)"
proof -
  assume s: "spaced (hdr h) (as @ [q] @ b # cs)"
  then have "spaced (hdr h) (as @ [q])" "hdr h q < b" "spaced (hdr h) (b # cs)" unfolding spaced_append by auto
  moreover have "spaced (hdr h) (q # cs)"
    using calculation(2,3) le_hdr [of b h] by (cases cs) auto
  ultimately show ?thesis unfolding spaced_append by blast
qed

lemma spaced_apart: "spaced (hdr h) as \<Longrightarrow> a \<in> set as \<Longrightarrow> b \<in> set as \<Longrightarrow> a \<noteq> b \<Longrightarrow> apart h a b"
proof (induction as)
  case (Cons c as)
  then show ?case using spaced_less [OF Cons.prems(1)] spaced_tl [OF Cons.prems(1)] by (auto simp: apart_def less_imp_le)
qed simp

lemma uinv_apart:
  assumes "uinv base h fl live" "a \<in> set fl \<union> live" "b \<in> set fl \<union> live" "a \<noteq> b"
  shows "apart h a b"
proof (cases "a \<in> live \<or> b \<in> live")
  case True
  then show ?thesis using assms unfolding uinv_def by (metis apart_def)
next
  case False
  then show ?thesis using assms spaced_tl [of "hdr h" base fl] unfolding uinv_def by (metis Un_iff spaced_apart)
qed

text \<open>The block the loop found, with the one before it.\<close>

lemma ring_succ:
  assumes "ring nxt base fl" "q \<in> set (base # fl)" "nxt q \<noteq> base"
  obtains as cs where "fl = as @ nxt q # cs" "last (base # as) = q"
proof -
  obtain xs ys where l: "base # fl = xs @ q # ys" using assms(2) by (meson split_list)
  have nx: "nxt q = hd (ys @ [base])"
  proof (cases xs)
    case Nil
    then show ?thesis using assms(1) l by (cases ys) (auto simp: ring_def)
  next
    case (Cons z zs)
    then show ?thesis using assms(1) l by (auto intro: ring_next)
  qed
  then obtain cs where ys: "ys = nxt q # cs" using assms(3) by (cases ys) auto
  have "fl = tl (xs @ [q]) @ nxt q # cs" using l ys by (cases xs) auto
  moreover have "last (base # tl (xs @ [q])) = q" using l by (cases xs) auto
  ultimately show ?thesis by (rule that)
qed

lemma take_exact:
  assumes inv: "uinv base h fl live" and q: "q \<in> set (base # fl)" "h_ptr h q \<noteq> base"
  shows "\<exists>fl'. uinv base ((set_ptr q (h_ptr h (h_ptr h q)) h)\<lparr>freep := q\<rparr>) fl' (insert (h_ptr h q) live)"
proof -
  have r: "ring (h_ptr h) base fl" and sp: "spaced (hdr h) (base # fl)" using inv by (auto simp: uinv_def)
  from ring_succ [OF r q] obtain as cs where fl: "fl = as @ h_ptr h q # cs" "last (base # as) = q" by blast
  let ?b = "h_ptr h q"
  have 1: "ring ((h_ptr h)(q := h_ptr h ?b)) base (as @ cs)" using ring_unlink [of "h_ptr h" base as ?b cs] r fl by simp
  have bas: "base # as = butlast (base # as) @ [q]" using fl(2) by (metis append_butlast_last_id list.distinct(1))
  have "spaced (hdr h) (butlast (base # as) @ [q] @ ?b # cs)" using sp fl(1) bas by (metis append_Cons append_assoc)
  then have 2: "spaced (hdr h) (base # as @ cs)" using spaced_remove bas by (metis append_Cons append_assoc)
  have 3: "q \<in> set (base # as @ cs)" using fl(2) last_in_set [of "base # as"] by auto
  have d: "?b \<notin> set as \<union> set cs" "?b \<in> set fl" using r fl(1) by (auto simp: ring_def)
  have 4: "\<forall>a \<in> insert ?b live. \<forall>b \<in> set (as @ cs) \<union> insert ?b live. a \<noteq> b \<longrightarrow> apart h a b"
    using uinv_apart [OF inv] d(2) fl(1) by auto
  have 5: "insert ?b live \<inter> set (as @ cs) = {}" using inv d fl(1) by (auto simp: uinv_def)
  have "uinv base ((set_ptr q (h_ptr h ?b) h)\<lparr>freep := q\<rparr>) (as @ cs) (insert ?b live)"
    using inv 1 2 3 4 5 fl(1) unfolding uinv_def by simp
  then show ?thesis by blast
qed

lemma take_split:
  assumes inv: "uinv base h fl live" and b: "b \<in> set fl" and n: "1 \<le> n" "n < h_size h b" and f: "f \<in> set (base # fl)"
  defines "c \<equiv> b + 8 * (h_size h b - n)"
  defines "h' \<equiv> set_size c n (set_size b (h_size h b - n) h)"
  shows "uinv base (h'\<lparr>freep := f\<rparr>) fl (insert c live)" "c \<notin> set (base # fl) \<union> live"
proof -
  have I: "0 < base" "base < brk h" "ring (h_ptr h) base fl" "h_size h base = 0" "spaced (hdr h) (base # fl)" "live \<inter> set fl = {}"
    and B: "\<And>b. b \<in> set fl \<union> live \<Longrightarrow> base < b \<and> 1 \<le> h_size h b \<and> hdr h b \<le> brk h"
    using inv unfolding uinv_def by blast+
  have c: "b < c" "c < hdr h b" "hdr h b = c + 8 * n" using n by (simp_all add: c_def hdr_def)
  have out: "x \<noteq> c" if "x \<in> set fl \<union> live" for x
  proof (cases "x = b")
    case False
    then have "apart h x b" using uinv_apart [OF inv that] b by blast
    then show ?thesis using c B [OF that] by (auto simp: apart_def hdr_def)
  qed (use c in simp)
  moreover have "c \<noteq> base" using c B [of b] b by auto
  ultimately show cn: "c \<notin> set (base # fl) \<union> live" by auto
  have hd': "hdr h' x = (if x = b then c else if x = c then hdr h b else hdr h x)" for x
    using c n by (auto simp: hdr_def h'_def c_def)
  have bb: "base \<noteq> b" using B [of b] b by auto
  have "spaced (hdr h') (base # fl)" using I(5) cn c by (rule_tac spaced_mono [of _ _ "hdr h"]) (auto simp: hd')
  moreover have "\<forall>x \<in> set fl \<union> insert c live. base < x \<and> 1 \<le> h_size h' x \<and> hdr h' x \<le> brk h'"
  proof
    fix x assume "x \<in> set fl \<union> insert c live"
    then show "base < x \<and> 1 \<le> h_size h' x \<and> hdr h' x \<le> brk h'"
      using B [of x] B [of b] b c n hd' [of x] by (auto simp: h'_def)
  qed
  moreover have "\<forall>x \<in> insert c live. \<forall>y \<in> set fl \<union> insert c live. x \<noteq> y \<longrightarrow> apart h' x y"
  proof (intro ballI impI)
    have key: "apart h' x c" if "x \<in> set fl \<union> live" for x
    proof (cases "x = b")
      case False
      have "apart h x b" using uinv_apart [OF inv that] b False by blast
      then show ?thesis using c False hd' out [OF that] by (auto simp: apart_def)
    qed (use hd' in \<open>simp add: apart_def\<close>)
    fix x y assume x: "x \<in> insert c live" and y: "y \<in> set fl \<union> insert c live" and ne: "x \<noteq> y"
    show "apart h' x y"
    proof (cases "x = c \<or> y = c")
      case True
      then show ?thesis using key x y ne by (auto simp: apart_def)
    next
      case False
      then have "apart h x y" using uinv_apart [OF inv] x y ne by blast
      moreover have "x \<noteq> b" using x b I(6) False by auto
      ultimately show ?thesis using hd' False c by (auto simp: apart_def)
    qed
  qed
  ultimately show "uinv base (h'\<lparr>freep := f\<rparr>) fl (insert c live)"
    using I f cn bb unfolding uinv_def by (simp add: h'_def)
qed

text \<open>A block handed out: new, of the size asked for, and the other blocks handed out keep theirs.\<close>

definition hands_out :: "nat \<Rightarrow> uheap \<Rightarrow> nat set \<Rightarrow> nat \<Rightarrow> nat \<times> uheap \<Rightarrow> bool" where
  "hands_out base h live n r \<longleftrightarrow> (case r of (ap, h') \<Rightarrow>
     \<exists>bp fl'. ap = bp + 8 \<and> bp \<notin> live \<and> uinv base h' fl' (insert bp live) \<and> h_size h' bp = n \<and>
       (\<forall>a \<in> live. h_size h' a = h_size h a))"

lemma take_units_spec:
  assumes inv: "uinv base h fl live" and q: "q \<in> set (base # fl)" and n: "1 \<le> n" "n \<le> h_size h (h_ptr h q)"
  shows "hands_out base h live n (take_units n q (h_ptr h q) h)"
proof -
  have r: "ring (h_ptr h) base fl" and s0: "h_size h base = 0" and dj: "live \<inter> set fl = {}" using inv by (auto simp: uinv_def)
  let ?b = "h_ptr h q"
  have nb: "?b \<noteq> base" using n s0 by auto
  have b: "?b \<in> set fl" using ring_closed [OF r q] nb by simp
  show ?thesis
  proof (cases "h_size h ?b = n")
    case True
    then show ?thesis using take_exact [OF inv q nb] b dj by (auto simp: hands_out_def take_units_def)
  next
    case False
    then have "n < h_size h ?b" using n by simp
    note s = take_split [OF inv b n(1) this q]
    have "take_units n q ?b h = (?b + 8 * (h_size h ?b - n) + 8,
        (set_size (?b + 8 * (h_size h ?b - n)) n (set_size ?b (h_size h ?b - n) h))\<lparr>freep := q\<rparr>)"
      using False by (simp add: take_units_def Let_def hdr_def)
    moreover have "?b \<notin> live" using b dj by auto
    ultimately show ?thesis using s unfolding hands_out_def
      by (auto intro!: exI [of _ "?b + 8 * (h_size h ?b - n)"])
  qed
qed

text \<open>The loop goes round the list once, from the block behind \<open>freep\<close> to \<open>freep\<close>, and only then asks for more.\<close>

lemma malloc_scan:
  assumes "chain (h_ptr h) (prev # ys @ [freep h])" "freep h \<notin> set ys"
  shows "(\<exists>q \<in> set (prev # ys). n \<le> h_size h (h_ptr h q) \<and> malloc_loop sbrk n prev (h_ptr h prev) h = Some (take_units n q (h_ptr h q) h)) \<or>
    (\<forall>y \<in> set (ys @ [freep h]). h_size h y < n) \<and>
    malloc_loop sbrk n prev (h_ptr h prev) h = Option.bind (morecore sbrk n h) (\<lambda>(p, h).
          if p = 0 then Some (0, h) else malloc_loop sbrk n p (h_ptr h p) h)"
  using assms
proof (induction ys arbitrary: prev)
  case Nil
  then show ?case by (subst (1 2) malloc_loop.simps) auto
next
  case (Cons y ys)
  then have y: "h_ptr h prev = y" "y \<noteq> freep h" by auto
  show ?case
  proof (cases "n \<le> h_size h y")
    case True
    then show ?thesis using y by (subst malloc_loop.simps) auto
  next
    case False
    then have "malloc_loop sbrk n prev y h = malloc_loop sbrk n y (h_ptr h y) h" using y by (subst malloc_loop.simps) simp
    then show ?thesis using Cons.IH [of y] Cons.prems False y by auto
  qed
qed

lemma malloc_round:
  assumes inv: "uinv base h fl live" and n: "1 \<le> n"
  shows "(\<exists>r. malloc_loop sbrk n (freep h) (h_ptr h (freep h)) h = Some r \<and> hands_out base h live n r) \<or>
    (\<forall>y \<in> set fl. h_size h y < n) \<and>
    malloc_loop sbrk n (freep h) (h_ptr h (freep h)) h = Option.bind (morecore sbrk n h) (\<lambda>(p, h).
          if p = 0 then Some (0, h) else malloc_loop sbrk n p (h_ptr h p) h)"
proof -
  have r: "ring (h_ptr h) base fl" and f: "freep h \<in> set (base # fl)" using inv by (auto simp: uinv_def)
  from ring_rotate [OF r f] obtain ys where ys: "chain (h_ptr h) (freep h # ys @ [freep h])" "set (freep h # ys) = set (base # fl)" "freep h \<notin> set ys"
    by blast
  from malloc_scan [OF ys(1,3), of n sbrk] show ?thesis
  proof (elim disjE bexE conjE)
    fix q assume q: "q \<in> set (freep h # ys)" "n \<le> h_size h (h_ptr h q)"
      "malloc_loop sbrk n (freep h) (h_ptr h (freep h)) h = Some (take_units n q (h_ptr h q) h)"
    then have "q \<in> set (base # fl)" using ys(2) by blast
    from take_units_spec [OF inv this n q(2)] q(3) show ?thesis by blast
  next
    assume "\<forall>y \<in> set (ys @ [freep h]). h_size h y < n"
    then have "\<forall>y \<in> set fl. h_size h y < n" using ys(2) by (metis list.set_intros(2) rotate1.simps(2) set_rotate1)
    moreover assume "malloc_loop sbrk n (freep h) (h_ptr h (freep h)) h = Option.bind (morecore sbrk n h) (\<lambda>(p, h).
          if p = 0 then Some (0, h) else malloc_loop sbrk n p (h_ptr h p) h)"
    ultimately show ?thesis by blast
  qed
qed

text \<open>
  What \<open>malloc\<close> relies on: a growth that is granted moves the break by the amount asked for.
\<close>

definition grows :: "sbrk \<Rightarrow> bool" where
  "grows sbrk \<longleftrightarrow> (\<forall>n b b'. 0 \<le> n \<longrightarrow> sbrk n b = Some b' \<longrightarrow> b' = b + nat n)"

lemma fresh_block:
  assumes inv: "uinv base h fl live" and n: "1 \<le> n"
  defines "h1 \<equiv> set_size (brk h) n (h\<lparr>brk := brk h + 8 * n\<rparr>)"
  shows "uinv base h1 fl (insert (brk h) live)" "brk h \<notin> live" "\<forall>a \<in> live. h_size h1 a = h_size h a"
proof -
  have B: "\<And>b. b \<in> set fl \<union> live \<Longrightarrow> base < b \<and> 1 \<le> h_size h b \<and> hdr h b \<le> brk h" using inv unfolding uinv_def by blast
  have out: "b < brk h" if "b \<in> set fl \<union> live" for b using B [OF that] by (auto simp: hdr_def)
  then have same: "hdr h1 b = hdr h b \<and> h_size h1 b = h_size h b" if "b \<in> set fl \<union> live" for b
    using that by (auto simp: hdr_def h1_def)
  have new: "hdr h1 (brk h) = brk h + 8 * n" by (simp add: hdr_def h1_def)
  have b0: "base \<noteq> brk h" "hdr h1 base = hdr h base" using inv by (auto simp: uinv_def hdr_def h1_def)
  show "brk h \<notin> live" using out by blast
  show "\<forall>a \<in> live. h_size h1 a = h_size h a" using same by blast
  have "spaced (hdr h1) (base # fl)" using inv same b0(2) by (auto simp: uinv_def intro!: spaced_mono [of _ _ "hdr h"])
  moreover have "\<forall>b \<in> set fl \<union> insert (brk h) live. base < b \<and> 1 \<le> h_size h1 b \<and> hdr h1 b \<le> brk h1"
  proof
    fix b assume "b \<in> set fl \<union> insert (brk h) live"
    then consider "b = brk h" | "b \<in> set fl \<union> live" by blast
    then show "base < b \<and> 1 \<le> h_size h1 b \<and> hdr h1 b \<le> brk h1"
    proof cases
      case 1
      then show ?thesis using new n inv by (auto simp: uinv_def h1_def)
    next
      case 2
      then show ?thesis using B [OF 2] same [OF 2] by (auto simp: h1_def)
    qed
  qed
  moreover have "insert (brk h) live \<inter> set fl = {}" using inv out by (auto simp: uinv_def)
  moreover have "\<forall>a \<in> insert (brk h) live. \<forall>b \<in> set fl \<union> insert (brk h) live. a \<noteq> b \<longrightarrow> apart h1 a b"
    using uinv_apart [OF inv] B same by (auto simp: apart_def)
  ultimately show "uinv base h1 fl (insert (brk h) live)" using inv b0(1) unfolding uinv_def by (simp add: h1_def)
qed

lemma morecore_spec:
  assumes inv: "uinv base h fl live" and n: "1 \<le> n" "8 * n < 2 ^ 31" and g: "grows sbrk"
  shows "morecore sbrk n h = Some (0, h) \<or>
    (\<exists>h' fl'. morecore sbrk n h = Some (freep h', h') \<and> uinv base h' fl' live \<and> (\<exists>b \<in> set fl'. n \<le> h_size h' b) \<and> (\<forall>a \<in> live. h_size h' a = h_size h a))"
proof -
  define m where "m = (if n < 4096 then 4096 else n)"
  have m: "n \<le> m" "1 \<le> m" "8 * m < 2 ^ 31" using n by (auto simp: m_def)
  then have w: "wrap32 (int m * 8) = int (8 * m)" by (subst wrap32_id) auto
  show ?thesis
  proof (cases "sbrk (int (8 * m)) (brk h)")
    case None
    then show ?thesis using w by (simp add: morecore_def Let_def m_def)
  next
    case (Some b)
    then have b: "b = brk h + 8 * m" using g unfolding grows_def by (metis nat_int of_nat_0_le_iff)
    let ?h = "set_size (brk h) m (h\<lparr>brk := b\<rparr>)"
    note F = fresh_block [OF inv m(2), folded b]
    from ufree_inv [OF F(1), of "brk h"] obtain h' fl' where h': "ufree (brk h + 8) ?h = Some h'" "uinv base h' fl' (insert (brk h) live - {brk h})"
      "\<forall>a \<in> insert (brk h) live - {brk h}. h_size h' a = h_size ?h a" "\<exists>b \<in> set fl'. h_size ?h (brk h) \<le> h_size h' b" by auto
    have "insert (brk h) live - {brk h} = live" using F(2) by auto
    then have "uinv base h' fl' live" "\<forall>a \<in> live. h_size h' a = h_size h a" "\<exists>b \<in> set fl'. n \<le> h_size h' b"
      using h' F(3) m(1) by (auto intro: le_trans)
    moreover have "morecore sbrk n h = Some (freep h', h')"
      using w Some h'(1) unfolding morecore_def Let_def m_def [symmetric] by simp
    ultimately show ?thesis by blast
  qed
qed

text \<open>\<open>malloc\<close> returns; it gives a new block, or no block and an unchanged heap when the kernel refuses to grow it.\<close>

lemma malloc_loop_spec:
  assumes inv: "uinv base h fl live" and n: "1 \<le> n" "8 * n < 2 ^ 31" and g: "grows sbrk"
  shows "\<exists>r. malloc_loop sbrk n (freep h) (h_ptr h (freep h)) h = Some r \<and> (r = (0, h) \<or> hands_out base h live n r)"
proof -
  from malloc_round [OF inv n(1), of sbrk] show ?thesis
  proof (elim disjE exE conjE)
    assume e: "malloc_loop sbrk n (freep h) (h_ptr h (freep h)) h = Option.bind (morecore sbrk n h) (\<lambda>(p, h).
          if p = 0 then Some (0, h) else malloc_loop sbrk n p (h_ptr h p) h)"
    from morecore_spec [OF inv n g] show ?thesis
    proof (elim disjE exE conjE)
      assume "morecore sbrk n h = Some (0, h)"
      then show ?thesis using e by simp
    next
      fix h' fl'
      assume h': "morecore sbrk n h = Some (freep h', h')" "uinv base h' fl' live" "\<exists>b \<in> set fl'. n \<le> h_size h' b" "\<forall>a \<in> live. h_size h' a = h_size h a"
      have "freep h' \<noteq> 0" using h'(2) unfolding uinv_def by force
      then have "malloc_loop sbrk n (freep h) (h_ptr h (freep h)) h = malloc_loop sbrk n (freep h') (h_ptr h' (freep h')) h'" using e h'(1) by simp
      moreover obtain r where "malloc_loop sbrk n (freep h') (h_ptr h' (freep h')) h' = Some r" "hands_out base h' live n r"
        using malloc_round [OF h'(2) n(1), of sbrk] h'(3) by force
      ultimately show ?thesis using h'(4) by (auto simp: hands_out_def split: prod.splits)
    qed
  qed blast
qed

section \<open>Programs that allocate and free\<close>

text \<open>
  The heaps a program reaches from the start, when \<open>freep\<close> is null, by allocating and by freeing what it holds. \<open>live\<close> maps the
  header of each block it holds to the number of bytes it asked for.
\<close>

inductive urun :: "sbrk \<Rightarrow> nat \<Rightarrow> uheap \<Rightarrow> (nat \<rightharpoonup> nat) \<Rightarrow> bool" for sbrk base where
  start: "freep h = 0 \<Longrightarrow> 0 < base \<Longrightarrow> base < brk h \<Longrightarrow> urun sbrk base h Map.empty"
| malloc: "urun sbrk base h live \<Longrightarrow> nbytes < 2 ^ 31 - 24 \<Longrightarrow> umalloc sbrk base nbytes h = Some (ap, h') \<Longrightarrow>
    urun sbrk base h' (if ap = 0 then live else live(ap - 8 \<mapsto> nbytes))"
| free: "urun sbrk base h live \<Longrightarrow> bp \<in> dom live \<Longrightarrow> ufree (bp + 8) h = Some h' \<Longrightarrow> urun sbrk base h' (live(bp := None))"

definition ustate :: "nat \<Rightarrow> uheap \<Rightarrow> (nat \<rightharpoonup> nat) \<Rightarrow> bool" where
  "ustate base h live \<longleftrightarrow>
     (freep h = 0 \<and> live = Map.empty \<and> 0 < base \<and> base < brk h \<or> (\<exists>fl. uinv base h fl (dom live))) \<and>
     (\<forall>bp n. live bp = Some n \<longrightarrow> h_size h bp = units n \<and> n < 2 ^ 31 - 24)"

lemma units_bound:
  assumes "n < 2 ^ 31 - 24"
  shows "1 \<le> units n" "8 * units n < 2 ^ 31" "n + 8 \<le> 8 * units n"
proof -
  have "(n + 8 - 1) mod 2 ^ 32 = n + 7" using assms by (simp add: mod_less)
  then have u: "units n = (n + 7) div 8 + 1" by (simp add: units_def)
  then show "1 \<le> units n" by simp
  have "8 * ((n + 7) div 8) \<le> n + 7" "n \<le> 8 * ((n + 7) div 8)" by presburger+
  then show "8 * units n < 2 ^ 31" "n + 8 \<le> 8 * units n" using u assms by auto
qed

lemma umalloc_spec:
  assumes "ustate base h live" "n < 2 ^ 31 - 24" "grows sbrk"
  shows "\<exists>ap h'. umalloc sbrk base n h = Some (ap, h') \<and> ustate base h' (if ap = 0 then live else live(ap - 8 \<mapsto> n)) \<and>
    (ap \<noteq> 0 \<longrightarrow> ap - 8 \<notin> dom live)"
proof -
  define h0 where "h0 = (if freep h = 0 then set_size base 0 (set_ptr base base (h\<lparr>freep := base\<rparr>)) else h)"
  have u: "\<And>a m. live a = Some m \<Longrightarrow> h_size h a = units m \<and> m < 2 ^ 31 - 24" using assms(1) by (auto simp: ustate_def)
  have nofl: "freep h = 0 \<Longrightarrow> \<not> uinv base h fl L" for fl L by (auto simp: uinv_def)
  have "\<exists>fl. uinv base h0 fl (dom live)"
  proof (cases "freep h = 0")
    case True
    then have "live = Map.empty" "0 < base" "base < brk h" using assms(1) nofl by (auto simp: ustate_def)
    then have "uinv base h0 [] (dom live)" using True by (simp add: h0_def uinv_def ring_def)
    then show ?thesis by blast
  next
    case False
    then show ?thesis using assms(1) by (auto simp: ustate_def h0_def)
  qed
  then obtain fl where inv: "uinv base h0 fl (dom live)" by blast
  have s0: "\<forall>a \<in> dom live. h_size h0 a = h_size h a"
    using assms(1) nofl by (auto simp: h0_def ustate_def)
  note U = units_bound [OF assms(2)]
  from malloc_loop_spec [OF inv U(1,2) assms(3)] obtain ap h' where
    m: "umalloc sbrk base n h = Some (ap, h')" "(ap, h') = (0, h0) \<or> hands_out base h0 (dom live) (units n) (ap, h')"
    unfolding umalloc_def Let_def h0_def [symmetric] by (metis surj_pair)
  from m(2) show ?thesis
  proof
    assume "(ap, h') = (0, h0)"
    moreover have "\<forall>a m. live a = Some m \<longrightarrow> h_size h0 a = units m \<and> m < 2 ^ 31 - 24" using s0 u by (metis domI)
    ultimately have "ustate base h' live" using inv unfolding ustate_def by blast
    then show ?thesis using m(1) \<open>(ap, h') = (0, h0)\<close> by auto
  next
    assume "hands_out base h0 (dom live) (units n) (ap, h')"
    then obtain bp fl' where bp: "ap = bp + 8" "bp \<notin> dom live" "uinv base h' fl' (insert bp (dom live))" "h_size h' bp = units n"
      "\<forall>a \<in> dom live. h_size h' a = h_size h0 a" by (auto simp: hands_out_def)
    have "uinv base h' fl' (dom (live(bp \<mapsto> n)))" using bp(3) by simp
    moreover have "\<forall>a m. (live(bp \<mapsto> n)) a = Some m \<longrightarrow> h_size h' a = units m \<and> m < 2 ^ 31 - 24"
      using bp(4,5) s0 u assms(2) by (auto simp: domI)
    ultimately have "ustate base h' (live(bp \<mapsto> n))" unfolding ustate_def by blast
    then show ?thesis using m(1) bp(1,2) by (intro exI [of _ ap] exI [of _ h']) simp
  qed
qed

lemma ufree_spec:
  assumes "ustate base h live" "bp \<in> dom live"
  shows "\<exists>h'. ufree (bp + 8) h = Some h' \<and> ustate base h' (live(bp := None))"
proof -
  obtain fl where inv: "uinv base h fl (dom live)" using assms by (auto simp: ustate_def)
  from ufree_inv [OF inv assms(2)] obtain h' fl' where
    h': "ufree (bp + 8) h = Some h'" "uinv base h' fl' (dom live - {bp})" "\<forall>a \<in> dom live - {bp}. h_size h' a = h_size h a" by blast
  have "ustate base h' (live(bp := None))" using assms(1) h'(2,3) unfolding ustate_def by (auto simp: domI)
  with h'(1) show ?thesis by blast
qed

lemma urun_state: "urun sbrk base h live \<Longrightarrow> grows sbrk \<Longrightarrow> ustate base h live"
proof (induction rule: urun.induct)
  case (start h)
  then show ?case by (simp add: ustate_def)
next
  case (malloc h live nbytes ap h')
  then show ?case using umalloc_spec [of base h live nbytes sbrk] by auto
next
  case (free h live bp h')
  then show ?case using ufree_spec [of base h live bp] by (metis option.inject)
qed

text \<open>
  C8. A user program's heap: however it allocates and frees what it holds, the blocks it holds lie inside the heap, have the sizes it asked
  for and do not overlap, and each further call returns, \<open>malloc\<close> for every request below 2 GB less 24 bytes and \<open>free\<close> for every block that is held.
\<close>

theorem umalloc_live_blocks:
  assumes "urun sbrk base h live" "grows sbrk"
  shows "(\<forall>a m. live a = Some m \<longrightarrow> base < a \<and> a + 8 + m \<le> brk h) \<and>
    (\<forall>a m b n. live a = Some m \<and> live b = Some n \<and> a \<noteq> b \<longrightarrow> a + 8 + m \<le> b \<or> b + 8 + n \<le> a) \<and>
    (\<forall>n < 2 ^ 31 - 24. \<exists>r. umalloc sbrk base n h = Some r) \<and> (\<forall>a \<in> dom live. \<exists>h'. ufree (a + 8) h = Some h')"
proof -
  have S: "ustate base h live" using urun_state assms by blast
  have hd: "a + 8 + m \<le> hdr h a" if "live a = Some m" for a m
  proof -
    have "h_size h a = units m" "m < 2 ^ 31 - 24" using S that by (auto simp: ustate_def)
    then show ?thesis using units_bound(3) [of m] by (simp add: hdr_def)
  qed
  have 1: "base < a \<and> hdr h a \<le> brk h" if "live a = Some m" for a m
    using S domI [of live a m, OF that] that unfolding ustate_def uinv_def by auto
  have 2: "apart h a b" if "live a = Some m" "live b = Some n" "a \<noteq> b" for a m b n
    using S that uinv_apart [of base h _ "dom live" a b] by (auto simp: ustate_def)
  have "\<forall>a m. live a = Some m \<longrightarrow> base < a \<and> a + 8 + m \<le> brk h" using 1 hd le_trans by blast
  moreover have "\<forall>a m b n. live a = Some m \<and> live b = Some n \<and> a \<noteq> b \<longrightarrow> a + 8 + m \<le> b \<or> b + 8 + n \<le> a"
    using 2 hd unfolding apart_def by (meson le_trans)
  moreover have "\<forall>n < 2 ^ 31 - 24. \<exists>r. umalloc sbrk base n h = Some r" using umalloc_spec [OF S _ assms(2)] by blast
  moreover have "\<forall>a \<in> dom live. \<exists>h'. ufree (a + 8) h = Some h'" using ufree_spec [OF S] by blast
  ultimately show ?thesis by blast
qed

definition some_heap :: uheap where
  "some_heap = \<lparr>h_ptr = (\<lambda>_. 0), h_size = (\<lambda>_. 0), freep = 0, brk = 8192\<rparr>"

definition some_sbrk :: sbrk where
  "some_sbrk n b = (if b + nat n \<le> 655360 then Some (b + nat n) else None)"

definition grown_heap :: uheap where
  "grown_heap = \<lparr>h_ptr = (\<lambda>_. 0)(4096 := 8192, 8192 := 4096), h_size = (\<lambda>_. 0)(8192 := 4096), freep = 4096, brk = 40960\<rparr>"

lemma some_malloc:
  "\<exists>h'. umalloc some_sbrk 4096 10 some_heap = Some (40944, h') \<and> brk h' = 40960"
proof -
  define h0 where "h0 = \<lparr>h_ptr = (\<lambda>_. 0)(4096 := 4096), h_size = (\<lambda>_. 0), freep = 4096, brk = 8192\<rparr>"
  have u: "units 10 = 3" by (simp add: units_def)
  have w: "wrap32 32768 = 32768" by (simp add: wrap32_def)
  have i: "set_size 4096 0 (set_ptr 4096 4096 (some_heap\<lparr>freep := 4096\<rparr>)) = h0" by (simp add: h0_def some_heap_def fun_upd_idem)
  have s: "free_search ((\<lambda>_. 0)(4096 := 4096)) 8192 4096 = Some 4096" by (subst free_search.simps) simp
  have f: "ufree 8200 (set_size 8192 4096 (h0\<lparr>brk := 40960\<rparr>)) = Some grown_heap"
    by (simp add: ufree_def h0_def s free_join_up_def free_join_down_def hdr_def grown_heap_def fun_upd_twist)
  have m: "morecore some_sbrk 3 h0 = Some (4096, grown_heap)"
    unfolding morecore_def Let_def using f w by (simp add: h0_def some_sbrk_def grown_heap_def)
  have "malloc_loop some_sbrk 3 4096 8192 grown_heap = Some (take_units 3 4096 8192 grown_heap)"
    by (subst malloc_loop.simps) (simp add: grown_heap_def)
  then have l: "malloc_loop some_sbrk 3 4096 4096 h0 = Some (take_units 3 4096 8192 grown_heap)"
    by (subst malloc_loop.simps) (simp add: m, simp add: h0_def grown_heap_def)
  have "umalloc some_sbrk 4096 10 some_heap = malloc_loop some_sbrk 3 4096 4096 h0"
    unfolding umalloc_def u i Let_def by (simp add: some_heap_def h0_def fun_upd_idem)
  then show ?thesis using l by (simp add: take_units_def Let_def grown_heap_def hdr_def)
qed

theorem umalloc_live_blocks_witness:
  "\<exists>h. urun some_sbrk 4096 h [40936 \<mapsto> 10] \<and> brk h = 40960 \<and> (\<forall>n < 2 ^ 31 - 24. \<exists>r. umalloc some_sbrk 4096 n h = Some r)"
proof -
  obtain h where h: "umalloc some_sbrk 4096 10 some_heap = Some (40944, h)" "brk h = 40960" using some_malloc by blast
  have "urun some_sbrk 4096 some_heap Map.empty" by (rule urun.start) (simp_all add: some_heap_def)
  from urun.malloc [OF this _ h(1)] have r: "urun some_sbrk 4096 h [40936 \<mapsto> 10]" by simp
  have "grows some_sbrk" by (simp add: grows_def some_sbrk_def split: if_splits)
  note b = umalloc_live_blocks [OF r this]
  show ?thesis by (rule exI [of _ h], intro conjI, rule r, rule h(2), rule conjunct1 [OF conjunct2 [OF conjunct2 [OF b]]])
qed

end
