(* ===== verification/Grep.thy ===== *)
theory Grep
  imports Printf
begin

text \<open>
  The user program \<open>grep\<close>, \<open>src/P1/xv6/xv6/user/grep.c\<close>. Its matcher works on
  NUL-terminated strings, here the bytes before the NUL; reading the byte behind the last one is
  reading the NUL. The loop over the input keeps the 1024-byte buffer as the code does, with what
  earlier lines left in it, and gives no result when the code leaves the buffer.

  The matcher is shown to decide the regular language its pattern denotes, and the program to print
  the lines that match.
\<close>

section \<open>The matcher\<close>

abbreviation caret :: byte where "caret \<equiv> 94"
abbreviation dollar :: byte where "dollar \<equiv> 36"
abbreviation star :: byte where "star \<equiv> 42"
abbreviation period :: byte where "period \<equiv> 46"
abbreviation newline :: byte where "newline \<equiv> 10"

text \<open>\<open>re[i]\<close> of a string: the NUL behind its end.\<close>

fun re_at :: "byte list \<Rightarrow> nat \<Rightarrow> byte" where
  "re_at s i = (if i < length s then s ! i else 0)"

function matchhere :: "byte list \<Rightarrow> byte list \<Rightarrow> bool"
  and matchstar :: "byte \<Rightarrow> byte list \<Rightarrow> byte list \<Rightarrow> bool" where
  "matchhere re tx =
     (if re = [] then True
      else if re_at re 1 = star then matchstar (re_at re 0) (drop 2 re) tx
      else if re_at re 0 = dollar \<and> re_at re 1 = 0 then tx = []
      else if tx \<noteq> [] \<and> (re_at re 0 = period \<or> re_at re 0 = re_at tx 0)
        then matchhere (drop 1 re) (drop 1 tx)
      else False)"
| "matchstar c re tx =
     (if matchhere re tx then True
      else if tx \<noteq> [] \<and> (re_at tx 0 = c \<or> c = period) then matchstar c re (drop 1 tx)
      else False)"
  by pat_completeness auto
termination
proof (relation "measure (\<lambda>x. case x of Inl (re, t) \<Rightarrow> 2 * (length re + length t) | Inr (c, re, t) \<Rightarrow> 2 * (length re + length t) + 1)", goal_cases)
  case (2 re tx)
  then have "2 \<le> length re" by (auto split: if_splits)
  then show ?case by simp
next
  case (3 re tx)
  then show ?case by (cases re; cases tx) auto
next
  case (5 c re tx)
  then show ?case by (cases tx) auto
qed simp_all

declare matchhere.simps [simp del] matchstar.simps [simp del]

fun match_from :: "byte list \<Rightarrow> byte list \<Rightarrow> bool" where
  "match_from re [] = matchhere re []"
| "match_from re (t # ts) = (if matchhere re (t # ts) then True else match_from re ts)"

definition match :: "byte list \<Rightarrow> byte list \<Rightarrow> bool" where
  "match re tx =
     (if re_at re 0 = caret then matchhere (drop 1 re) tx else match_from re tx)"

section \<open>The language of a pattern\<close>

text \<open>
  A pattern is a sequence of pieces, a character or a repeated character, which a final dollar
  sign ties to the end of the text. A period stands for any character.
\<close>

datatype piece = Single byte | Star byte

definition admits :: "byte \<Rightarrow> byte \<Rightarrow> bool" where
  "admits c t \<longleftrightarrow> c = period \<or> c = t"

fun pieces :: "byte list \<Rightarrow> piece list \<times> bool" where
  "pieces [] = ([], False)"
| "pieces [c] = (if c = dollar then ([], True) else ([Single c], False))"
| "pieces (c # d # re) =
     (if d = star then let (ps, e) = pieces re in (Star c # ps, e)
      else let (ps, e) = pieces (d # re) in (Single c # ps, e))"

fun words :: "piece list \<Rightarrow> byte list set" where
  "words [] = {[]}"
| "words (Single c # ps) = {t # u |t u. admits c t \<and> u \<in> words ps}"
| "words (Star c # ps) = {v @ u |v u. (\<forall>t \<in> set v. admits c t) \<and> u \<in> words ps}"

text \<open>A prefix of the text is in the language, all of the text if the pattern is tied to the end.\<close>

definition begins :: "piece list \<times> bool \<Rightarrow> byte list \<Rightarrow> bool" where
  "begins pe tx \<longleftrightarrow> (\<exists>u v. tx = u @ v \<and> u \<in> words (fst pe) \<and> (snd pe \<longrightarrow> v = []))"

lemma beginsI: "u \<in> words ps \<Longrightarrow> (e \<Longrightarrow> v = []) \<Longrightarrow> begins (ps, e) (u @ v)"
  by (auto simp: begins_def)

lemma beginsE:
  assumes "begins (ps, e) tx"
  obtains u v where "tx = u @ v" "u \<in> words ps" "e \<Longrightarrow> v = []"
  using assms by (auto simp: begins_def)

lemma Star_words: "\<forall>t \<in> set v. admits c t \<Longrightarrow> u \<in> words ps \<Longrightarrow> v @ u \<in> words (Star c # ps)"
  by auto

lemma begins_Nil: "begins ([], e) tx \<longleftrightarrow> (e \<longrightarrow> tx = [])"
  by (auto simp: begins_def)

lemma begins_Single:
  "begins (Single c # ps, e) tx \<longleftrightarrow> (\<exists>t ts. tx = t # ts \<and> admits c t \<and> begins (ps, e) ts)"
  (is "?l \<longleftrightarrow> ?r")
proof
  assume ?l
  then show ?r
  proof (rule beginsE)
    fix u v
    assume "tx = u @ v" "u \<in> words (Single c # ps)" and e: "e \<Longrightarrow> v = []"
    then obtain t w where "tx = t # w @ v" "admits c t" "w \<in> words ps" by auto
    then show ?r using beginsI [of w ps e v] e by blast
  qed
next
  assume ?r
  then obtain t ts where t: "tx = t # ts" "admits c t" "begins (ps, e) ts" by blast
  from t(3) show ?l
  proof (rule beginsE)
    fix u v
    assume "ts = u @ v" "u \<in> words ps" "e \<Longrightarrow> v = []"
    with t show ?l using beginsI [of "t # u" "Single c # ps" e v] by auto
  qed
qed

lemma begins_Star:
  "begins (Star c # ps, e) tx \<longleftrightarrow>
   begins (ps, e) tx \<or> (\<exists>t ts. tx = t # ts \<and> admits c t \<and> begins (Star c # ps, e) ts)"
  (is "?l \<longleftrightarrow> ?r")
proof
  assume ?l
  then show ?r
  proof (rule beginsE)
    fix x w
    assume "tx = x @ w" "x \<in> words (Star c # ps)" and e: "e \<Longrightarrow> w = []"
    then obtain v u where d: "tx = v @ u @ w" "\<forall>t \<in> set v. admits c t" "u \<in> words ps" by auto
    show ?r
    proof (cases v)
      case Nil
      with d e show ?thesis by (simp add: beginsI)
    next
      case (Cons t ts)
      with d have "ts @ u \<in> words (Star c # ps)" by auto
      with Cons d e show ?thesis using beginsI [of "ts @ u" "Star c # ps" e w] by simp
    qed
  qed
next
  assume ?r
  then show ?l
  proof (elim disjE exE conjE)
    assume "begins (ps, e) tx"
    then show ?l
    proof (rule beginsE)
      fix u v
      assume d: "tx = u @ v" "u \<in> words ps" "e \<Longrightarrow> v = []"
      then have "[] @ u \<in> words (Star c # ps)" by (intro Star_words) auto
      with d show ?l using beginsI [of u "Star c # ps" e v] by simp
    qed
  next
    fix t ts
    assume t: "tx = t # ts" "admits c t" "begins (Star c # ps, e) ts"
    from t(3) show ?l
    proof (rule beginsE)
      fix x w
      assume "ts = x @ w" "x \<in> words (Star c # ps)" and e: "e \<Longrightarrow> w = []"
      then obtain v u where "x = v @ u" "\<forall>t \<in> set v. admits c t" "u \<in> words ps" by auto
      then have "(t # v) @ u \<in> words (Star c # ps)" using t(2) by (intro Star_words) auto
      then show ?l using beginsI [of "t # x" "Star c # ps" e w] e t(1) \<open>ts = x @ w\<close> \<open>x = v @ u\<close> by simp
    qed
  qed
qed

lemmas begins_simps = begins_Nil begins_Single

lemma matchstar_begins:
  assumes "\<And>ts. matchhere re ts = begins (ps, e) ts"
  shows "matchstar c re tx = begins (Star c # ps, e) tx"
proof (induction tx)
  case Nil
  show ?case unfolding matchstar.simps [of c re "[]"] begins_Star [of c ps e "[]"] assms by simp
next
  case (Cons t ts)
  have "matchstar c re (t # ts) \<longleftrightarrow> begins (ps, e) (t # ts) \<or> admits c t \<and> matchstar c re ts"
    unfolding matchstar.simps [of c re "t # ts"] assms by (auto simp: admits_def)
  then show ?case unfolding begins_Star [of c ps e "t # ts"] Cons.IH by auto
qed

lemma matchhere_begins: "0 \<notin> set re \<Longrightarrow> matchhere re tx = begins (pieces re) tx"
proof (induction re arbitrary: tx rule: pieces.induct)
  case 1
  then show ?case by (simp add: matchhere.simps begins_simps)
next
  case (2 c)
  then show ?case
    unfolding matchhere.simps [of "[c]"]
    by (cases tx) (auto simp: begins_simps admits_def matchhere.simps [of "[]"])
next
  case (3 c d re)
  show ?case
  proof (cases "d = star")
    case True
    obtain ps e where pe: "pieces re = (ps, e)" by fastforce
    with 3 True have "matchstar c re tx = begins (Star c # ps, e) tx"
      by (intro matchstar_begins) auto
    with True pe show ?thesis unfolding matchhere.simps [of "c # d # re"] by simp
  next
    case False
    obtain ps e where pe: "pieces (d # re) = (ps, e)" by fastforce
    with 3 False have "matchhere (d # re) ts = begins (ps, e) ts" for ts by auto
    with False pe 3(3) show ?thesis unfolding matchhere.simps [of "c # d # re"]
      by (cases tx) (auto simp: begins_simps admits_def)
  qed
qed

lemma match_from_suffix: "match_from re tx \<longleftrightarrow> (\<exists>a b. tx = a @ b \<and> matchhere re b)"
proof (induction tx)
  case (Cons t ts)
  then show ?case by (auto simp: Cons_eq_append_conv)
qed simp

text \<open>
  C21. The matcher of \<open>grep\<close> decides its pattern language: \<open>match\<close> answers yes exactly when some
  part of the text is a word of the pattern, where a leading caret ties the part to the beginning of
  the text and a final dollar sign to its end. Both functions return on every input.
\<close>

theorem match_correct:
  assumes "0 \<notin> set re"
  shows "match re tx \<longleftrightarrow>
    (let anchored = (re \<noteq> [] \<and> hd re = caret); (ps, at_end) = pieces (if anchored then tl re else re)
     in \<exists>a u v. tx = a @ u @ v \<and> u \<in> words ps \<and> (anchored \<longrightarrow> a = []) \<and> (at_end \<longrightarrow> v = []))"
proof (cases "re \<noteq> [] \<and> hd re = caret")
  case True
  then have "re_at re 0 = caret" "drop 1 re = tl re" "0 \<notin> set (tl re)"
    using assms by (cases re; auto)+
  with True show ?thesis
    by (auto simp: match_def matchhere_begins begins_def split: prod.split)
next
  case False
  then have "re_at re 0 \<noteq> caret" by (cases re) auto
  then have "match re tx \<longleftrightarrow> (\<exists>a b. tx = a @ b \<and> begins (pieces re) b)"
    by (simp add: match_def match_from_suffix matchhere_begins [OF assms] del: re_at.simps)
  moreover obtain ps e where "pieces re = (ps, e)" by fastforce
  ultimately show ?thesis using False unfolding begins_def by auto
qed

section \<open>The program\<close>

definition GREP_BUF :: nat where "GREP_BUF = 1024"

text \<open>
  \<open>strchr\<close> from a place of the buffer to its end: no result if it runs past the end, otherwise
  where the byte is, if it comes before a NUL.
\<close>

fun strchr_in :: "byte \<Rightarrow> byte list \<Rightarrow> nat option option" where
  "strchr_in c [] = None"
| "strchr_in c (x # xs) =
     (if x = 0 then Some None else if x = c then Some (Some 0)
      else map_option (map_option Suc) (strchr_in c xs))"

lemma strchr_in_bound: "strchr_in c xs = Some (Some k) \<Longrightarrow> k < length xs"
  by (induction xs arbitrary: k) (auto split: if_splits)

text \<open>The inner loop: the buffer, the place behind the last newline, and what was written.\<close>

function grep_lines :: "byte list \<Rightarrow> byte list \<Rightarrow> nat \<Rightarrow> byte list \<Rightarrow> (byte list \<times> nat \<times> byte list) option" where
  "grep_lines pat buf p out = (case strchr_in newline (drop p buf) of
     None \<Rightarrow> None
   | Some None \<Rightarrow> Some (buf, p, out)
   | Some (Some k) \<Rightarrow>
       (let q = p + k; line = take k (drop p buf) in
        if match pat line then grep_lines pat (buf[q := newline]) (q + 1) (out @ line @ [newline])
        else grep_lines pat (buf[q := 0]) (q + 1) out))"
  by pat_completeness auto
termination
  by (relation "measure (\<lambda>(pat, buf, p, out). length buf - p)") (auto dest!: strchr_in_bound)

declare grep_lines.simps [simp del]

text \<open>What one \<open>read\<close> of at most \<open>k\<close> bytes delivers when the input arrives in the given pieces.\<close>

definition grep_read :: "nat \<Rightarrow> byte list list \<Rightarrow> byte list \<times> byte list list" where
  "grep_read k inp = (case inp of [] \<Rightarrow> ([], [])
     | c # cs \<Rightarrow> (take k c, if k < length c then drop k c # cs else cs))"

lemma grep_read_less: "grep_read k inp = (c, inp') \<Longrightarrow> c \<noteq> [] \<Longrightarrow> sum_list (map length inp') < sum_list (map length inp)"
  by (auto simp: grep_read_def split: list.splits if_splits)

function grep_loop :: "byte list \<Rightarrow> byte list \<Rightarrow> int \<Rightarrow> byte list list \<Rightarrow> byte list \<Rightarrow> (byte list \<times> byte list) option" where
  "grep_loop pat buf m inp out = (case grep_read (nat (int GREP_BUF - m)) inp of (c, inp) \<Rightarrow>
     if c = [] then Some (buf, out)
     else if m < 0 then None
     else let buf = take (nat m) buf @ c @ drop (nat m + length c) buf; m = m + int (length c) in
       case grep_lines pat buf 0 out of
         None \<Rightarrow> None
       | Some (buf, p, out) \<Rightarrow>
           (let m = (if p = 0 then 0 else m) in
            if m > 0 then
              let m = m - int p in grep_loop pat (take (nat m) (drop p buf) @ drop (nat m) buf) m inp out
            else grep_loop pat buf m inp out))"
  by pat_completeness auto
termination
proof (relation "measure (\<lambda>(pat, buf, m, inp, out). sum_list (map length inp))", goal_cases)
  case 1
  then show ?case by simp
qed (auto dest!: grep_read_less [OF sym])

declare grep_loop.simps [simp del]

definition grep :: "byte list \<Rightarrow> byte list list \<Rightarrow> byte list \<Rightarrow> (byte list \<times> byte list) option" where
  "grep pat inp buf = grep_loop pat buf 0 inp []"

text \<open>
  \<open>main\<close>: the argument vector, what descriptor 0 delivers, and what each file that can be opened
  delivers. The results are what is written to descriptors 1 and 2.
\<close>

fun grep_files :: "byte list \<Rightarrow> (byte list \<Rightarrow> byte list list option) \<Rightarrow> byte list list \<Rightarrow> byte list \<Rightarrow> byte list option" where
  "grep_files pat opens [] buf = Some []"
| "grep_files pat opens (f # fs) buf = (case opens f of
     None \<Rightarrow> Some (ascii ''grep: cannot open '' @ f @ [newline])
   | Some inp \<Rightarrow> (case grep pat inp buf of
       None \<Rightarrow> None
     | Some (buf, out) \<Rightarrow> map_option ((@) out) (grep_files pat opens fs buf)))"

definition grep_main :: "byte list list \<Rightarrow> byte list list \<Rightarrow> (byte list \<Rightarrow> byte list list option) \<Rightarrow> (byte list \<times> byte list) option" where
  "grep_main argv stdin opens =
     (if length argv \<le> 1 then Some ([], ascii ''usage: grep pattern [file ...]'' @ [newline])
      else let pattern = argv ! 1; buf = replicate GREP_BUF 0 in
        if length argv \<le> 2 then map_option (\<lambda>(_, out). (out, [])) (grep pattern stdin buf)
        else map_option (\<lambda>out. (out, [])) (grep_files pattern opens (drop 2 argv) buf))"

section \<open>Which lines are printed\<close>

function full_lines :: "byte list \<Rightarrow> byte list list" where
  "full_lines bs =
     (if newline \<in> set bs then takeWhile (\<lambda>b. b \<noteq> newline) bs # full_lines (tl (dropWhile (\<lambda>b. b \<noteq> newline) bs))
      else [])"
  by pat_completeness auto
termination
proof (relation "measure length", goal_cases)
  case (2 bs)
  then have "dropWhile (\<lambda>b. b \<noteq> newline) bs \<noteq> []" by (auto simp: dropWhile_eq_Nil_conv)
  then show ?case using length_dropWhile_le [of "\<lambda>b. b \<noteq> newline" bs]
    by (cases "dropWhile (\<lambda>b. b \<noteq> newline) bs") auto
qed simp

declare full_lines.simps [simp del]

definition matching_lines :: "byte list \<Rightarrow> byte list \<Rightarrow> byte list" where
  "matching_lines pat bs = concat (map (\<lambda>l. l @ [newline]) (filter (match pat) (full_lines bs)))"

lemma strchr_in_line: "0 \<notin> set l \<Longrightarrow> newline \<notin> set l \<Longrightarrow> strchr_in newline (l @ newline # z) = Some (Some (length l))"
  by (induction l) auto

lemma strchr_in_none: "0 \<notin> set l \<Longrightarrow> newline \<notin> set l \<Longrightarrow> strchr_in newline (l @ 0 # z) = Some None"
  by (induction l) auto

lemma full_lines_Cons:
  assumes "newline \<notin> set l"
  shows "full_lines (l @ newline # r) = l # full_lines r"
proof -
  have "\<forall>x \<in> set l. x \<noteq> newline" using assms by auto
  then show ?thesis by (subst full_lines.simps) (simp add: takeWhile_append2 dropWhile_append2)
qed

lemma grep_lines_spec:
  assumes "0 \<notin> set rest"
  shows "\<exists>buf p. grep_lines pat (pre @ rest @ 0 # z) (length pre) out =
           Some (buf, p, out @ matching_lines pat rest) \<and> length buf = length (pre @ rest @ 0 # z)"
  using assms
proof (induction "length rest" arbitrary: pre rest out rule: less_induct)
  case less
  show ?case
  proof (cases "newline \<in> set rest")
    case False
    then show ?thesis using less.prems
      by (subst grep_lines.simps) (simp add: strchr_in_none matching_lines_def full_lines.simps [of rest])
  next
    case True
    then obtain l r where r: "rest = l @ newline # r" "newline \<notin> set l" by (meson split_list_first)
    have ih: "\<exists>buf p. grep_lines pat ((pre @ l @ [c]) @ r @ 0 # z) (length (pre @ l @ [c])) o' =
        Some (buf, p, o' @ matching_lines pat r) \<and> length buf = length ((pre @ l @ [c]) @ r @ 0 # z)" for c o'
      using less.hyps [of r "pre @ l @ [c]" o'] less.prems r by simp
    have s: "grep_lines pat (pre @ rest @ 0 # z) (length pre) out =
        (if match pat l then grep_lines pat ((pre @ l @ [newline]) @ r @ 0 # z) (length (pre @ l @ [newline])) (out @ l @ [newline])
         else grep_lines pat ((pre @ l @ [0]) @ r @ 0 # z) (length (pre @ l @ [0])) out)"
      using less.prems r by (subst grep_lines.simps) (simp add: strchr_in_line list_update_append)
    have "matching_lines pat rest = (if match pat l then l @ [newline] else []) @ matching_lines pat r"
      using r by (simp add: matching_lines_def full_lines_Cons)
    then show ?thesis using ih [of newline "out @ l @ [newline]"] ih [of 0 out] r unfolding s by auto
  qed
qed

lemma grep_one_read:
  assumes "0 \<notin> set inp" "length inp < GREP_BUF"
  shows "\<exists>buf. grep pat [inp] (replicate GREP_BUF 0) = Some (buf, matching_lines pat inp)"
proof (cases "inp = []")
  case True
  then show ?thesis
    by (simp add: grep_def grep_loop.simps grep_read_def matching_lines_def full_lines.simps)
next
  case False
  define z where "z = replicate (GREP_BUF - length inp - 1) (0 :: byte)"
  have "drop (length inp) (replicate GREP_BUF 0) = 0 # z"
    using assms by (simp add: z_def drop_replicate Suc_diff_Suc flip: replicate_Suc)
  moreover obtain buf p where
    g: "grep_lines pat (inp @ 0 # z) 0 [] = Some (buf, p, matching_lines pat inp)"
    using grep_lines_spec [OF assms(1), of pat "[]" z "[]"] by auto
  moreover have "grep_loop pat b m [] o' = Some (b, o')" for b m o'
    by (simp add: grep_loop.simps grep_read_def)
  ultimately show ?thesis using False assms
    by (simp add: grep_def grep_loop.simps [of pat _ 0 "[inp]"] grep_read_def Let_def)
qed

text \<open>
  C32. \<open>grep pattern\<close> prints the lines that match: on an input that arrives in one \<open>read\<close>, is shorter
  than the buffer and has no NUL byte, the output is the matching lines of the input, in order and each
  with its newline. The program stays inside its buffer and returns.
\<close>

theorem grep_prints_matching_lines:
  assumes "0 \<notin> set inp" "length inp < GREP_BUF"
  shows "grep_main [prog, pat] [inp] opens = Some (matching_lines pat inp, [])"
  using grep_one_read [OF assms, of pat] by (auto simp: grep_main_def)

theorem grep_prints_matching_lines_witness:
  "grep_main [ascii ''grep'', ascii ''a.*d$''] [ascii ''abcd'' @ [newline] @ ascii ''da'' @ [newline]] (\<lambda>_. None) =
     Some (ascii ''abcd'' @ [newline], [])"
proof -
  have "(0 :: byte) \<notin> set (ascii ''abcd'' @ [newline] @ ascii ''da'' @ [newline])"
    "length (ascii ''abcd'' @ [newline] @ ascii ''da'' @ [newline]) < GREP_BUF" by code_simp+
  note g = grep_prints_matching_lines [OF this, of "ascii ''grep''" "ascii ''a.*d$''" "\<lambda>_. None"]
  have "matching_lines (ascii ''a.*d$'') (ascii ''abcd'' @ [newline] @ ascii ''da'' @ [newline]) = ascii ''abcd'' @ [newline]"
    by code_simp
  with g show ?thesis by simp
qed

theorem match_correct_witness: "match (ascii ''^ab*$'') (ascii ''abb'') \<and> \<not> match (ascii ''^ab*$'') (ascii ''cabb'')"
proof -
  have "(0 :: byte) \<notin> set (ascii ''^ab*$'')" by code_simp
  note m = match_correct [OF this]
  have p: "ascii ''^ab*$'' \<noteq> [] \<and> hd (ascii ''^ab*$'') = caret" "pieces (tl (ascii ''^ab*$'')) = ([Single 97, Star 98], True)"
    by code_simp+
  have "ascii ''abb'' \<in> words [Single 97, Star 98]"
    by (simp add: ascii_def admits_def)
  moreover have "ascii ''cabb'' \<notin> words [Single 97, Star 98]" by (simp add: ascii_def admits_def)
  ultimately show ?thesis unfolding m using p by simp
qed

text \<open>
  What an earlier line left in the buffer is taken for input: \<open>strchr\<close> searches to the next
  NUL and not to the end of what was read, so a short line typed after a longer one that matched is
  followed by the tail of the longer one. Here two lines are typed and three are printed.
\<close>

theorem grep_repeats_stale_line:
  "grep_main [ascii ''grep'', ascii ''b''] [ascii ''xbb'' @ [newline], ascii ''b'' @ [newline]] opens =
     Some (ascii ''xbb'' @ [newline] @ ascii ''b'' @ [newline] @ ascii ''b'' @ [newline], [])"
proof -
  have "map_option snd (grep (ascii ''b'') [ascii ''xbb'' @ [newline], ascii ''b'' @ [newline]] (replicate GREP_BUF 0)) =
      Some (ascii ''xbb'' @ [newline] @ ascii ''b'' @ [newline] @ ascii ''b'' @ [newline])"
    by code_simp
  then show ?thesis by (auto simp: grep_main_def)
qed

end
