(* ===== verification/User_Tools.thy ===== *)
theory User_Tools
  imports Printf
begin

text \<open>
  Two of the small user programs of xv6: \<open>cat\<close> (\<open>src/P1/xv6/xv6/user/cat.c\<close>) and \<open>wc\<close> (\<open>user/wc.c\<close>). The input of a descriptor is the sequence of
  pieces that successive calls of \<open>read\<close> return, none of them empty; a program is given the pieces of descriptor 0 and those of each file that can be
  opened. The result is what it writes to descriptor 1.
\<close>

type_synonym pieces = "byte list list"

abbreviation lf :: "byte list" where
  "lf \<equiv> [10]"

section \<open>cat.c\<close>

fun cat :: "pieces \<Rightarrow> byte list" where
  "cat [] = []"
| "cat (buf # rest) = buf @ cat rest"

fun cat_files :: "(byte list \<Rightarrow> pieces option) \<Rightarrow> byte list list \<Rightarrow> byte list" where
  "cat_files opens [] = []"
| "cat_files opens (f # fs) = (case opens f of
     None \<Rightarrow> ascii ''cat: cannot open '' @ f @ lf
   | Some inp \<Rightarrow> cat inp @ cat_files opens fs)"

definition cat_main :: "byte list list \<Rightarrow> pieces \<Rightarrow> (byte list \<Rightarrow> pieces option) \<Rightarrow> byte list" where
  "cat_main argv stdin opens = (if length argv \<le> 1 then cat stdin else cat_files opens (drop 1 argv))"

section \<open>wc.c\<close>

record wc_state =
  wc_l :: int
  wc_w :: int
  wc_c :: int
  inword :: bool

definition wc_space :: "byte \<Rightarrow> bool" where
  "wc_space b \<longleftrightarrow> b \<in> set [32, 13, 9, 10, 11]"

definition wc_byte :: "byte \<Rightarrow> wc_state \<Rightarrow> wc_state" where
  "wc_byte b s =
     (let s = s\<lparr>wc_c := wrap32 (wc_c s + 1)\<rparr>;
          s = (if b = 10 then s\<lparr>wc_l := wrap32 (wc_l s + 1)\<rparr> else s)
      in if wc_space b then s\<lparr>inword := False\<rparr>
         else if \<not> inword s then s\<lparr>wc_w := wrap32 (wc_w s + 1), inword := True\<rparr>
         else s)"

fun wc_loop :: "pieces \<Rightarrow> wc_state \<Rightarrow> wc_state" where
  "wc_loop [] s = s"
| "wc_loop (buf # rest) s = wc_loop rest (fold wc_byte buf s)"

definition wc :: "pieces \<Rightarrow> byte list \<Rightarrow> byte list option" where
  "wc inp name =
     (let s = wc_loop inp \<lparr>wc_l = 0, wc_w = 0, wc_c = 0, inword = False\<rparr>
      in printf (ascii ''%d %d %d %s'' @ lf) [Num (of_int (wc_l s)), Num (of_int (wc_w s)), Num (of_int (wc_c s)), Str (Some name)])"

fun wc_files :: "(byte list \<Rightarrow> pieces option) \<Rightarrow> byte list list \<Rightarrow> byte list option" where
  "wc_files opens [] = Some []"
| "wc_files opens (f # fs) = (case opens f of
     None \<Rightarrow> Some (ascii ''cat: cannot open '' @ f @ lf)
   | Some inp \<Rightarrow> Option.bind (wc inp f) (\<lambda>out. map_option ((@) out) (wc_files opens fs)))"

definition wc_main :: "byte list list \<Rightarrow> pieces \<Rightarrow> (byte list \<Rightarrow> pieces option) \<Rightarrow> byte list option" where
  "wc_main argv stdin opens = (if length argv \<le> 1 then wc stdin [] else wc_files opens (drop 1 argv))"

section \<open>What wc counts\<close>

text \<open>The words of a text: its maximal runs of bytes that are not white space.\<close>

function words_of :: "byte list \<Rightarrow> byte list list" where
  "words_of bs =
     (case dropWhile wc_space bs of
        [] \<Rightarrow> []
      | b # rest \<Rightarrow> takeWhile (\<lambda>b. \<not> wc_space b) (b # rest) # words_of (dropWhile (\<lambda>b. \<not> wc_space b) rest))"
  by pat_completeness auto
termination
proof (relation "measure length", goal_cases)
  case (2 bs b rest)
  then have "length (b # rest) \<le> length bs" using length_dropWhile_le [of wc_space bs] by simp
  then show ?case using length_dropWhile_le [of "\<lambda>b. \<not> wc_space b" rest] by simp
qed simp

declare words_of.simps [simp del]

lemma words_of_Nil: "words_of [] = []"
  by (simp add: words_of.simps)

lemma words_of_space: "wc_space b \<Longrightarrow> words_of (b # bs) = words_of bs"
  by (simp add: words_of.simps [of "b # bs"] words_of.simps [of bs])

lemma words_of_word: "\<not> wc_space b \<Longrightarrow> words_of (b # bs) = takeWhile (\<lambda>b. \<not> wc_space b) (b # bs) # words_of (dropWhile (\<lambda>b. \<not> wc_space b) bs)"
  by (simp add: words_of.simps [of "b # bs"])

lemma wc_fold:
  assumes "wc_l s = int l" "wc_w s = int w" "wc_c s = int c" "l \<le> c" "w \<le> c" "c + length bs < 2 ^ 31"
  shows "wc_l (fold wc_byte bs s) = int (l + length (filter (\<lambda>b. b = 10) bs)) \<and>
    wc_w (fold wc_byte bs s) = int (w + length (words_of (if inword s then dropWhile (\<lambda>b. \<not> wc_space b) bs else bs))) \<and>
    wc_c (fold wc_byte bs s) = int (c + length bs)"
  using assms
proof (induction bs arbitrary: s l w c)
  case Nil
  then show ?case by (simp add: words_of_Nil)
next
  case (Cons b bs)
  let ?s = "wc_byte b s"
  define l' w' where "l' = (if b = 10 then l + 1 else l)" and "w' = (if wc_space b \<or> inword s then w else w + 1)"
  have st: "wc_l ?s = int l'" "wc_w ?s = int w'" "wc_c ?s = int (c + 1)" "inword ?s \<longleftrightarrow> \<not> wc_space b"
    using Cons.prems by (auto simp: wc_byte_def Let_def wrap32_id l'_def w'_def)
  have "l' \<le> c + 1" "w' \<le> c + 1" "c + 1 + length bs < 2 ^ 31" using Cons.prems by (auto simp: l'_def w'_def)
  from Cons.IH [OF st(1-3) this] st(4) show ?case
    by (auto simp: words_of_space words_of_word l'_def w'_def split: if_splits)
qed

lemma wc_loop_fold: "wc_loop inp s = fold wc_byte (concat inp) s"
  by (induction inp arbitrary: s) auto

text \<open>
  \<open>wc\<close> counts what it is named for: on an input below 2 GB, in whatever pieces it is read, the program prints the number of newlines, of words,
  the maximal runs without white space, and of bytes.
\<close>

theorem wc_counts:
  assumes "length (concat inp) < 2 ^ 31"
  shows "wc_main [prog] inp opens = printf (ascii ''%d %d %d %s'' @ lf)
    [Num (of_nat (length (filter (\<lambda>b. b = 10) (concat inp)))), Num (of_nat (length (words_of (concat inp)))),
     Num (of_nat (length (concat inp))), Str (Some [])]"
  using wc_fold [of "\<lparr>wc_l = 0, wc_w = 0, wc_c = 0, inword = False\<rparr>" 0 0 0 "concat inp"] assms
  by (simp add: wc_main_def wc_def Let_def wc_loop_fold)

theorem wc_counts_witness:
  "wc_main [ascii ''wc''] [ascii ''ab c'', [100, 10, 32, 10]] (\<lambda>_. None) = Some (ascii ''2 2 8 '' @ lf)"
proof -
  have "length (concat [ascii ''ab c'', [100, 10, 32, 10]]) < 2 ^ 31" by (simp add: ascii_def)
  note w = wc_counts [OF this, of "ascii ''wc''" "\<lambda>_. None"]
  show ?thesis unfolding w by code_simp
qed

end
