(* ===== verification/Fastsort.thy ===== *)
theory Fastsort
  imports Cstring "HOL-Library.Multiset"
begin

text \<open>
  The sorting program of the first assignment, \<open>src/P1/Linux /fastsort.c\<close>: it reads a file of 100-byte records that begin with a
  32-bit key, sorts them with the C library's \<open>qsort\<close> and writes them out. The library function is a parameter, a function of the comparison and
  the array; what is relied on is its documented behaviour for a comparison that is a total preorder on the array. A file is its bytes; the results of
  the system calls are those for a readable input and a writable output.
\<close>

section \<open>fastsort.c\<close>

type_synonym rec_t = "byte list"

definition sizeof_rec :: nat where "sizeof_rec = 100"

definition rec_key :: "rec_t \<Rightarrow> 32 word" where
  "rec_key r = of_nat (get_le 4 r 0)"

text \<open>\<open>compare\<close>: the difference of the unsigned keys, returned as an \<open>int\<close>.\<close>

definition compare :: "rec_t \<Rightarrow> rec_t \<Rightarrow> int" where
  "compare p1 p2 = sint (rec_key p1 - rec_key p2)"

text \<open>
  The reading loop. \<open>read\<close> fills \<open>temp_rec_t\<close> up to the end of the file; what it does not fill keeps its old bytes.
\<close>

function read_records :: "rec_t \<Rightarrow> byte list \<Rightarrow> rec_t list" where
  "read_records temp input =
     (if input = [] then []
      else let got = take sizeof_rec input; temp = got @ drop (length got) temp
           in temp # read_records temp (drop sizeof_rec input))"
  by pat_completeness auto
termination
  by (relation "measure (\<lambda>(temp, input). length input)") (auto simp: sizeof_rec_def)

declare read_records.simps [simp del]

type_synonym qsort = "(rec_t \<Rightarrow> rec_t \<Rightarrow> int) \<Rightarrow> rec_t list \<Rightarrow> rec_t list"

text \<open>
  From the opened files to the end: no result if the records do not fit in the space allocated for the file's size.
\<close>

definition fastsort :: "qsort \<Rightarrow> rec_t \<Rightarrow> byte list \<Rightarrow> byte list option" where
  "fastsort qsort temp input =
     (let recs = read_records temp input in
      if sizeof_rec * length recs > length input then None
      else Some (concat (qsort compare recs)))"

section \<open>When the output is sorted\<close>

definition preorder_on_list :: "(rec_t \<Rightarrow> rec_t \<Rightarrow> int) \<Rightarrow> rec_t list \<Rightarrow> bool" where
  "preorder_on_list cmp xs \<longleftrightarrow>
     (\<forall>x \<in> set xs. \<forall>y \<in> set xs. cmp x y \<le> 0 \<or> cmp y x \<le> 0) \<and>
     (\<forall>x \<in> set xs. \<forall>y \<in> set xs. \<forall>z \<in> set xs. cmp x y \<le> 0 \<longrightarrow> cmp y z \<le> 0 \<longrightarrow> cmp x z \<le> 0)"

text \<open>What the C library promises of \<open>qsort\<close>.\<close>

definition qsort_sorts :: "qsort \<Rightarrow> bool" where
  "qsort_sorts qsort \<longleftrightarrow> (\<forall>cmp xs. preorder_on_list cmp xs \<longrightarrow>
     mset (qsort cmp xs) = mset xs \<and> sorted_wrt (\<lambda>x y. cmp x y \<le> 0) (qsort cmp xs))"

lemma read_records_concat:
  assumes "\<forall>r \<in> set rs. length r = sizeof_rec" "length temp = sizeof_rec"
  shows "read_records temp (concat rs) = rs"
  using assms
proof (induction rs arbitrary: temp)
  case Nil
  then show ?case by (simp add: read_records.simps)
next
  case (Cons r rs)
  then have "r \<noteq> []" by (auto simp: sizeof_rec_def)
  then show ?case using Cons by (subst read_records.simps) simp
qed

lemma length_concat_same: "\<forall>r \<in> set rs. length r = n \<Longrightarrow> length (concat rs) = n * length rs"
  by (induction rs) auto

text \<open>On keys that lie within \<open>2\<^sup>31\<close> of one another the comparison is the order of the keys.\<close>

lemma compare_keys:
  assumes "lo \<le> uint (rec_key x)" "uint (rec_key x) < lo + 2 ^ 31" "lo \<le> uint (rec_key y)" "uint (rec_key y) < lo + 2 ^ 31"
  shows "compare x y = uint (rec_key x) - uint (rec_key y)"
proof -
  let ?d = "uint (rec_key x) - uint (rec_key y)"
  have d: "- (2 ^ 31) \<le> ?d" "?d < 2 ^ 31" using assms by auto
  have e: "rec_key x - rec_key y = word_of_int ?d" by simp
  have "compare x y = signed_take_bit 31 ?d" unfolding compare_def e sint_sbintrunc' by simp
  also have "\<dots> = ?d" using d by (intro signed_take_bit_int_eq_self) auto
  finally show ?thesis .
qed

text \<open>
  C34. \<open>fastsort\<close> sorts: for a file of whole records whose keys lie within \<open>2\<^sup>31\<close> of one another, the output consists of the
  same records, in ascending order of their unsigned keys, whatever \<open>temp_rec_t\<close> holds at the start.
\<close>

theorem fastsort_sorts:
  assumes "qsort_sorts qsort" "\<forall>r \<in> set rs. length r = sizeof_rec" "length temp = sizeof_rec"
    and "\<forall>r \<in> set rs. lo \<le> uint (rec_key r) \<and> uint (rec_key r) < lo + 2 ^ 31"
  shows "\<exists>out. fastsort qsort temp (concat rs) = Some (concat out) \<and> mset out = mset rs \<and> sorted (map rec_key out)"
proof -
  have c: "compare x y = uint (rec_key x) - uint (rec_key y)" if "x \<in> set rs" "y \<in> set rs" for x y
    using assms(4) that by (intro compare_keys [of lo]) auto
  have "preorder_on_list compare rs" unfolding preorder_on_list_def using c by force
  then have q: "mset (qsort compare rs) = mset rs" "sorted_wrt (\<lambda>x y. compare x y \<le> 0) (qsort compare rs)"
    using assms(1) unfolding qsort_sorts_def by blast+
  have s: "set (qsort compare rs) = set rs" using q(1) by (metis set_mset_mset)
  have "sorted_wrt (\<lambda>x y. rec_key x \<le> rec_key y) (qsort compare rs)"
    using q(2) by (rule sorted_wrt_mono_rel [rotated]) (auto simp: s c word_le_def)
  then have "sorted (map rec_key (qsort compare rs))" by (simp add: sorted_wrt_map)
  moreover have "fastsort qsort temp (concat rs) = Some (concat (qsort compare rs))"
    using read_records_concat [OF assms(2,3)] length_concat_same [OF assms(2)] by (simp add: fastsort_def)
  ultimately show ?thesis using q(1) by blast
qed

fun insert_by :: "(rec_t \<Rightarrow> rec_t \<Rightarrow> int) \<Rightarrow> rec_t \<Rightarrow> rec_t list \<Rightarrow> rec_t list" where
  "insert_by cmp x [] = [x]"
| "insert_by cmp x (y # ys) = (if cmp x y \<le> 0 then x # y # ys else y # insert_by cmp x ys)"

definition sort_by :: qsort where
  "sort_by cmp xs = foldr (insert_by cmp) xs []"

lemma preorder_subset: "preorder_on_list cmp ys \<Longrightarrow> set xs \<subseteq> set ys \<Longrightarrow> preorder_on_list cmp xs"
  unfolding preorder_on_list_def by (meson subsetD)

lemma insert_by_mset: "mset (insert_by cmp x ys) = add_mset x (mset ys)"
  by (induction ys) auto

lemma insert_by_sorted:
  assumes "preorder_on_list cmp (x # ys)" "sorted_wrt (\<lambda>x y. cmp x y \<le> 0) ys"
  shows "sorted_wrt (\<lambda>x y. cmp x y \<le> 0) (insert_by cmp x ys)"
  using assms
proof (induction ys)
  case (Cons y ys)
  have p: "preorder_on_list cmp (x # ys)" using Cons.prems(1) by (rule preorder_subset) auto
  have s: "set (insert_by cmp x ys) = insert x (set ys)" using insert_by_mset [of cmp x ys] by (metis set_mset_add_mset_insert set_mset_mset)
  have tot: "cmp x y \<le> 0 \<or> cmp y x \<le> 0" using Cons.prems(1) by (simp add: preorder_on_list_def)
  have tr: "cmp x y \<le> 0 \<Longrightarrow> z \<in> set ys \<Longrightarrow> cmp y z \<le> 0 \<Longrightarrow> cmp x z \<le> 0" for z
    using Cons.prems(1) unfolding preorder_on_list_def by (meson list.set_intros)
  show ?case using Cons.IH [OF p] Cons.prems(2) tot tr s by auto
qed simp

lemma sort_by_sorts: "qsort_sorts sort_by"
proof -
  have "preorder_on_list cmp xs \<longrightarrow> mset (sort_by cmp xs) = mset xs \<and> sorted_wrt (\<lambda>x y. cmp x y \<le> 0) (sort_by cmp xs)" for cmp xs
  proof (induction xs)
    case (Cons x xs)
    show ?case
    proof
      assume p: "preorder_on_list cmp (x # xs)"
      then have "preorder_on_list cmp xs" by (rule preorder_subset) auto
      then have ih: "mset (sort_by cmp xs) = mset xs" "sorted_wrt (\<lambda>x y. cmp x y \<le> 0) (sort_by cmp xs)" using Cons.IH by auto
      have "set (x # sort_by cmp xs) = set (x # xs)" using ih(1) by (metis list.set(2) set_mset_mset)
      then have "preorder_on_list cmp (x # sort_by cmp xs)" using p preorder_subset by blast
      then show "mset (sort_by cmp (x # xs)) = mset (x # xs) \<and> sorted_wrt (\<lambda>x y. cmp x y \<le> 0) (sort_by cmp (x # xs))"
        using insert_by_sorted ih insert_by_mset by (simp add: sort_by_def)
    qed
  qed (simp add: sort_by_def)
  then show ?thesis unfolding qsort_sorts_def by blast
qed

definition record_of :: "byte \<Rightarrow> byte \<Rightarrow> rec_t" where
  "record_of low high = [low, 0, 0, high] @ replicate 96 0"

lemma record_of_key: "rec_key (record_of low high) = of_nat (unat low + 16777216 * unat high)"
proof -
  have four: "(4 :: nat) = Suc (Suc (Suc (Suc 0)))" by simp
  show ?thesis unfolding rec_key_def record_of_def four get_le.simps by simp
qed

lemma pair_mset: "{#x, y#} = {#a, b#} \<Longrightarrow> x = a \<and> y = b \<or> x = b \<and> y = a"
  by (auto simp: add_eq_conv_ex)

lemma pair_list:
  assumes "mset xs = mset [a, b]"
  shows "\<exists>x y. xs = [x, y]"
proof -
  have "length xs = length [a, b]" using assms by (rule mset_eq_length)
  then show ?thesis by (cases xs; cases "tl xs") auto
qed

lemma record_of_length: "length (record_of low high) = sizeof_rec"
  by (simp add: record_of_def sizeof_rec_def)

theorem fastsort_sorts_witness:
  "\<exists>out. fastsort sort_by (replicate 100 7) (concat [record_of 9 0, record_of 2 0]) = Some (concat out) \<and>
     mset out = mset [record_of 9 0, record_of 2 0] \<and> sorted (map rec_key out)"
proof -
  have "\<forall>r \<in> set [record_of 9 0, record_of 2 0]. length r = sizeof_rec" "length (replicate 100 (7 :: byte)) = sizeof_rec"
    by (simp_all add: record_of_length, simp add: sizeof_rec_def)
  moreover have "\<forall>r \<in> set [record_of 9 0, record_of 2 0]. 0 \<le> uint (rec_key r) \<and> uint (rec_key r) < 0 + 2 ^ 31"
    by (simp add: record_of_key)
  ultimately show ?thesis by (rule fastsort_sorts [OF sort_by_sorts])
qed

text \<open>
  Keys that lie further apart are sorted the wrong way round: the difference of the unsigned keys does not fit in the \<open>int\<close> the
  comparison returns, so that with any \<open>qsort\<close> the record with key 0 comes out behind the one with key \<open>0x80000001\<close>.
\<close>

theorem fastsort_wrong_order:
  assumes "qsort_sorts qsort" "length temp = sizeof_rec"
  shows "fastsort qsort temp (record_of 0 0 @ record_of 1 0x80) = Some (record_of 1 0x80 @ record_of 0 0) \<and>
    rec_key (record_of 0 0) < rec_key (record_of 1 0x80)"
proof -
  let ?a = "record_of 0 0" and ?b = "record_of 1 0x80"
  have k: "rec_key ?a = 0" "rec_key ?b = 0x80000001" by (simp_all add: record_of_key)
  have c: "compare ?a ?b = 0x7fffffff" "compare ?b ?a = - 0x7fffffff" "compare ?a ?a = 0" "compare ?b ?b = 0"
    unfolding compare_def k by simp_all
  have "preorder_on_list compare [?a, ?b]" unfolding preorder_on_list_def using c by auto
  then have q: "mset (qsort compare [?a, ?b]) = mset [?a, ?b]" "sorted_wrt (\<lambda>x y. compare x y \<le> 0) (qsort compare [?a, ?b])"
    using assms(1) unfolding qsort_sorts_def by blast+
  from pair_list [OF q(1)] obtain x y where xy: "qsort compare [?a, ?b] = [x, y]" by blast
  have "{#x, y#} = {#?a, ?b#}" using q(1) unfolding xy by simp
  note p = pair_mset [OF this]
  have "compare x y \<le> 0" using q(2) unfolding xy by simp
  then have "x \<noteq> ?a \<or> y \<noteq> ?b" using c(1) by (metis zero_less_numeral linorder_not_less)
  then have o: "qsort compare [?a, ?b] = [?b, ?a]" using p xy by metis
  have l: "\<forall>r \<in> set [?a, ?b]. length r = sizeof_rec" by (simp add: record_of_length)
  have "read_records temp (concat [?a, ?b]) = [?a, ?b]" by (rule read_records_concat [OF l assms(2)])
  moreover have "length (concat [?a, ?b]) = sizeof_rec * 2" using length_concat_same [OF l] by simp
  ultimately have "fastsort qsort temp (concat [?a, ?b]) = Some (concat [?b, ?a])" by (simp add: fastsort_def o)
  then show ?thesis using k by simp
qed

theorem fastsort_wrong_order_witness:
  "fastsort sort_by (replicate 100 7) (record_of 0 0 @ record_of 1 0x80) = Some (record_of 1 0x80 @ record_of 0 0)"
proof -
  have "length (replicate 100 (7 :: byte)) = sizeof_rec" by (simp add: sizeof_rec_def)
  from fastsort_wrong_order [OF sort_by_sorts this] show ?thesis by blast
qed

end
