(* ===== verification/Mkfs.thy ===== *)
theory Mkfs
  imports Fs_Path
begin

text \<open>
  The program that makes the file system, \<open>src/P1/xv6/xv6/tools/mkfs.c\<close>: it writes the sectors of a disk image, hands out inodes and
  blocks by counting upwards, copies a directory tree of the build machine into the image and writes the bitmap last. The tree is the
  argument: a file is the pieces that \<open>read\<close> returns for it, a directory its entries in the order of \<open>readdir\<close>. A failed assertion, a
  failed access and every other exit with an error is \<open>Panic\<close> with the name of the call. A \<open>struct dinode\<close> is the kernel's inode
  without the fields that exist in memory only; integers are stored in Intel order, which is what \<open>xint\<close> and \<open>xshort\<close> are for.

  While the program runs the bitmap is still empty. The proofs look at the image as if it had been written already, up to the block
  counter: then every step of \<open>iappend\<close> is the kernel's own block map on that disk, and the lemmas on the kernel's file system
  apply. The image at the end is a file system the kernel's invariants hold for, with the tree in it.
\<close>

section \<open>The program\<close>

record mkfs_state =
  img :: "byte list list"
  freeblock :: nat
  usedblocks :: nat
  freeinode :: nat

definition zeroes :: "byte list" where
  "zeroes = replicate BSIZE 0"

text \<open>Writing past the end of the image leaves a gap that reads as zeros; reading there fails.\<close>

definition wsect :: "nat \<Rightarrow> byte list \<Rightarrow> mkfs_state \<Rightarrow> mkfs_state" where
  "wsect sec buf s = s\<lparr>img := if sec < length (img s) then (img s)[sec := buf]
     else img s @ replicate (sec - length (img s)) zeroes @ [buf]\<rparr>"

definition rsect :: "nat \<Rightarrow> mkfs_state \<Rightarrow> byte list kres" where
  "rsect sec s = (if sec < length (img s) then Ok (img s ! sec) else Panic ''read'')"

definition mkfs :: "nat \<Rightarrow> nat \<Rightarrow> nat \<Rightarrow> mkfs_state kres" where
  "mkfs nblk ninodes sz =
     (let bitblocks = sz div (512 * 8) + 1; used = ninodes div IPB + 3 + bitblocks;
          s = \<lparr>img = [], freeblock = used, usedblocks = used, freeinode = 1\<rparr> in
      if nblk + used \<noteq> sz then Panic ''assert''
      else Ok (wsect 1 (put_le 4 ninodes (put_le 4 nblk (put_le 4 sz zeroes 0) 4) 8)
             (fold (\<lambda>i. wsect i zeroes) [0..<nblk + used] s)))"

definition i2b :: "nat \<Rightarrow> nat" where
  "i2b inum = inum div IPB + 2"

definition blank :: "nat \<Rightarrow> inode" where
  "blank inum = \<lparr>i_dev = ROOTDEV, i_inum = inum, i_ref = 0, i_busy = False, i_valid = False, i_type = 0, i_major = 0,
     i_minor = 0, i_nlink = 0, i_size = 0, i_addrs = replicate (NDIRECT + 1) 0\<rparr>"

definition winode :: "nat \<Rightarrow> inode \<Rightarrow> mkfs_state \<Rightarrow> mkfs_state kres" where
  "winode inum ip s = kbind (rsect (i2b inum) s) (\<lambda>buf. Ok (wsect (i2b inum) (store_inode ip buf (dinode_off inum)) s))"

definition rinode :: "nat \<Rightarrow> mkfs_state \<Rightarrow> inode kres" where
  "rinode inum s = kbind (rsect (i2b inum) s) (\<lambda>buf. Ok (load_inode buf (dinode_off inum) (blank inum)))"

definition mk_ialloc :: "nat \<Rightarrow> mkfs_state \<Rightarrow> (nat \<times> mkfs_state) kres" where
  "mk_ialloc ty s = (let inum = freeinode s; s = s\<lparr>freeinode := freeinode s + 1\<rparr> in
     kbind (winode inum ((blank inum)\<lparr>i_type := ty, i_nlink := 1\<rparr>) s) (\<lambda>s. Ok (inum, s)))"

definition mk_balloc :: "nat \<Rightarrow> mkfs_state \<Rightarrow> mkfs_state kres" where
  "mk_balloc used s = (if \<not> used < 512 * 8 then Panic ''assert''
     else Ok (wsect (200 div IPB + 3) (fold (\<lambda>i buf. mark_bit buf i) [0..<used] zeroes) s))"

definition take_block :: "mkfs_state \<Rightarrow> mkfs_state" where
  "take_block s = s\<lparr>freeblock := freeblock s + 1, usedblocks := usedblocks s + 1\<rparr>"

text \<open>The sector at offset \<open>i\<close> of the indirect block \<open>x\<close>, allocated if there is none.\<close>

definition ientry :: "nat \<Rightarrow> nat \<Rightarrow> mkfs_state \<Rightarrow> (nat \<times> mkfs_state) kres" where
  "ientry x i s = kbind (rsect x s) (\<lambda>indirect.
     if get_le 4 indirect i = 0 then
       let indirect = put_le 4 (freeblock s) indirect i
       in Ok (get_le 4 indirect i, wsect x indirect (take_block s))
     else Ok (get_le 4 indirect i, s))"

text \<open>The sector of block \<open>fbn\<close> of the file, allocated if there is none.\<close>

definition iblock :: "nat \<Rightarrow> inode \<Rightarrow> mkfs_state \<Rightarrow> (nat \<times> inode \<times> mkfs_state) kres" where
  "iblock fbn din s =
     (if fbn < NDIRECT then
        let (din, s) = (if i_addrs din ! fbn = 0 then (din\<lparr>i_addrs := (i_addrs din)[fbn := freeblock s]\<rparr>, take_block s) else (din, s))
        in Ok (i_addrs din ! fbn, din, s)
      else
        let (din, s) = (if i_addrs din ! NDIRECT = 0 then (din\<lparr>i_addrs := (i_addrs din)[NDIRECT := freeblock s]\<rparr>, take_block s) else (din, s))
        in kbind (ientry (i_addrs din ! NDIRECT) (4 * (fbn - NDIRECT)) s) (\<lambda>(x, s). Ok (x, din, s)))"

function iappend_loop :: "inode \<Rightarrow> nat \<Rightarrow> byte list \<Rightarrow> mkfs_state \<Rightarrow> (inode \<times> nat \<times> mkfs_state) kres" where
  "iappend_loop din off p s =
     (if length p > 0 then
        let fbn = off div 512 in
        if \<not> fbn < MAXFILE then Panic ''assert''
        else kbind (iblock fbn din s) (\<lambda>(x, din, s).
          let n1 = min (length p) ((fbn + 1) * 512 - off); k = off - fbn * 512 in
          kbind (rsect x s) (\<lambda>buf.
            iappend_loop din (off + n1) (drop n1 p) (wsect x (take k buf @ take n1 p @ drop (k + n1) buf) s)))
      else Ok (din, off, s))"
  by pat_completeness auto
termination
proof (relation "measure (\<lambda>(din, off, p, s). length p)", goal_cases)
  case (2 din off p s)
  have "off < (off div 512 + 1) * 512" by (simp add: dividend_less_div_times)
  then show ?case using 2 by simp
qed simp

declare iappend_loop.simps [simp del]

definition iappend :: "nat \<Rightarrow> byte list \<Rightarrow> mkfs_state \<Rightarrow> mkfs_state kres" where
  "iappend inum p s = kbind (rinode inum s) (\<lambda>din.
     kbind (iappend_loop din (i_size din) p s) (\<lambda>(din, off, s). winode inum (din\<lparr>i_size := off\<rparr>) s))"

text \<open>
  The directory that is copied: a file as the pieces in which it is read, a directory, an entry that cannot be opened, and a directory that can be opened
  but for which \<open>fdopendir\<close> returns no stream.
\<close>

datatype host = HFile "byte list list" | HDir "(byte list \<times> host) list" | HBad | HNoStream

fun append_pieces :: "nat \<Rightarrow> byte list list \<Rightarrow> mkfs_state \<Rightarrow> mkfs_state kres" where
  "append_pieces inum [] s = Ok s"
| "append_pieces inum (p # ps) s = kbind (iappend inum p s) (append_pieces inum ps)"

definition fix_size :: "nat \<Rightarrow> mkfs_state \<Rightarrow> mkfs_state kres" where
  "fix_size inum s = kbind (rinode inum s) (\<lambda>din. winode inum (din\<lparr>i_size := (i_size din div BSIZE + 1) * BSIZE\<rparr>) s)"

definition dot :: "byte list" where "dot = [46]"
definition dotdot :: "byte list" where "dotdot = [46, 46]"

fun add_dir :: "(byte list \<times> host) list option \<Rightarrow> nat \<Rightarrow> nat \<Rightarrow> mkfs_state \<Rightarrow> mkfs_state kres"
  and add_entries :: "(byte list \<times> host) list \<Rightarrow> nat \<Rightarrow> mkfs_state \<Rightarrow> mkfs_state kres" where
  "add_dir cur_dir cur parent s =
     kbind (iappend cur (dirent cur dot) s) (\<lambda>s.
     kbind (iappend cur (dirent parent dotdot) s) (\<lambda>s.
     case cur_dir of
       None \<Rightarrow> Ok s
     | Some es \<Rightarrow> kbind (add_entries es cur s) (fix_size cur)))"
| "add_entries [] cur s = Ok s"
| "add_entries ((name, h) # es) cur s =
     (if name = dot \<or> name = dotdot then add_entries es cur s
      else kbind (case h of
          HBad \<Rightarrow> Panic ''open''
        | HDir ds \<Rightarrow> kbind (mk_ialloc T_DIR s) (\<lambda>(child, s). kbind (add_dir (Some ds) child cur s) (\<lambda>s. Ok (child, s)))
        | HNoStream \<Rightarrow> kbind (mk_ialloc T_DIR s) (\<lambda>(child, s). kbind (add_dir None child cur s) (\<lambda>s. Ok (child, s)))
        | HFile ps \<Rightarrow> kbind (mk_ialloc T_FILE s) (\<lambda>(child, s). kbind (append_pieces child ps s) (\<lambda>s. Ok (child, s))))
        (\<lambda>(child, s). kbind (iappend cur (dirent child name) s) (add_entries es cur)))"

definition mkfs_main :: "(byte list \<times> host) list option \<Rightarrow> mkfs_state kres" where
  "mkfs_main root_dir = kbind (mkfs 995 200 1024) (\<lambda>s.
     kbind (mk_ialloc T_DIR s) (\<lambda>(root, s).
     if root \<noteq> ROOTINO then Panic ''assert''
     else kbind (add_dir root_dir root root s) (\<lambda>s. mk_balloc (usedblocks s) s)))"

section \<open>The image as a disk with its bitmap\<close>

definition bitmap :: "nat \<Rightarrow> byte list" where
  "bitmap n = fold (\<lambda>i buf. mark_bit buf i) [0..<n] zeroes"

definition disk_of :: "mkfs_state \<Rightarrow> blocks" where
  "disk_of s = (\<lambda>(d, b). if d = ROOTDEV \<and> b < length (img s) then img s ! b else zeroes)"

definition vdisk :: "mkfs_state \<Rightarrow> blocks" where
  "vdisk s = (disk_of s)((ROOTDEV, 28) := bitmap (freeblock s))"

lemma bitmap_Suc: "bitmap (Suc n) = mark_bit (bitmap n) n"
  by (simp add: bitmap_def)

lemma length_bitmap [simp]: "length (bitmap n) = BSIZE"
  by (induction n) (simp_all add: bitmap_Suc, simp add: bitmap_def zeroes_def)

lemma bit_set_bitmap: "n \<le> BPB \<Longrightarrow> bit_set (bitmap n) b \<longleftrightarrow> b < n" if "b < BPB"
proof (induction n)
  case 0
  have "b div 8 < BSIZE" using that by (simp add: BPB_def BSIZE_def less_mult_imp_div_less)
  then show ?case by (simp add: bitmap_def zeroes_def bit_set_def)
next
  case (Suc n)
  then have "n div 8 < BSIZE" by (simp add: BPB_def BSIZE_def less_mult_imp_div_less)
  then show ?case using Suc by (auto simp: bitmap_Suc bit_set_mark)
qed

text \<open>The image is complete: all sectors are there, with the super block of the sizes chosen.\<close>

definition mk_base :: "mkfs_state \<Rightarrow> bool" where
  "mk_base s \<longleftrightarrow> length (img s) = 1024 \<and> (\<forall>b < 1024. length (img s ! b) = BSIZE) \<and> usedblocks s = freeblock s \<and>
     29 \<le> freeblock s \<and> freeblock s \<le> 1024 \<and> img s ! 0 = zeroes \<and>
     decode_sb (img s ! 1) = \<lparr>sb_size = 1024, sb_nblocks = 995, sb_ninodes = 200\<rparr> \<and>
     (\<forall>b. freeblock s \<le> b \<and> b < 1024 \<longrightarrow> img s ! b = zeroes)"

lemma mk_baseD:
  assumes "mk_base s"
  shows "length (img s) = 1024" "freeblock s \<le> 1024" "29 \<le> freeblock s" "usedblocks s = freeblock s"
  using assms by (simp_all add: mk_base_def)

lemma vdisk_nth: "b < length (img s) \<Longrightarrow> b \<noteq> 28 \<Longrightarrow> vdisk s (ROOTDEV, b) = img s ! b"
  by (simp add: vdisk_def disk_of_def)

lemma vdisk_map: "vdisk s (ROOTDEV, 28) = bitmap (freeblock s)"
  by (simp add: vdisk_def)

lemma vdisk_layout:
  assumes "mk_base s"
  shows "fs_sb (vdisk s) ROOTDEV = \<lparr>sb_size = 1024, sb_nblocks = 995, sb_ninodes = 200\<rparr>"
    "bitmap_end (vdisk s) ROOTDEV = 4096" "bitmap_block (vdisk s) ROOTDEV b = b div BPB + 28"
    "sys_blocks (vdisk s) ROOTDEV = {1, 28}" "meta_blocks (vdisk s) ROOTDEV = {0, 1, 28} \<union> {2..26}"
    "b < 4096 \<Longrightarrow> in_use (vdisk s) ROOTDEV b \<longleftrightarrow> b < freeblock s"
proof -
  show sb: "fs_sb (vdisk s) ROOTDEV = \<lparr>sb_size = 1024, sb_nblocks = 995, sb_ninodes = 200\<rparr>"
    using assms by (simp add: fs_sb_def vdisk_nth mk_base_def)
  show e: "bitmap_end (vdisk s) ROOTDEV = 4096" by (simp add: bitmap_end_def sb BPB_def)
  show bb: "bitmap_block (vdisk s) ROOTDEV b = b div BPB + 28" for b by (simp add: bitmap_block_def BBLOCK_def sb IPB_def)
  have "(\<lambda>b. b div BPB + 28) ` {..<4096} = {28}" by (auto simp: BPB_def image_iff) presburger
  then show sys: "sys_blocks (vdisk s) ROOTDEV = {1, 28}" by (simp add: sys_blocks_def e bb)
  have "IBLOCK ` {..<200} = {2..26}"
  proof (intro equalityI subsetI)
    fix x :: nat assume "x \<in> {2..26}"
    then have "x = IBLOCK (8 * (x - 2))" "8 * (x - 2) < 200" by (auto simp: IBLOCK_def IPB_def)
    then show "x \<in> IBLOCK ` {..<200}" by blast
  qed (auto simp: IBLOCK_def IPB_def)
  then show "meta_blocks (vdisk s) ROOTDEV = {0, 1, 28} \<union> {2..26}" by (auto simp: meta_blocks_def sys sb)
  assume "b < 4096"
  then show "in_use (vdisk s) ROOTDEV b \<longleftrightarrow> b < freeblock s"
    using mk_baseD(2) [OF assms] by (simp add: in_use_def bb BPB_def bit_set_bitmap [unfolded BPB_def] vdisk_map)
qed

lemma vdisk_ok:
  assumes "mk_base s"
  shows "fs_ok ROOTDEV (vdisk s)"
proof -
  note l = vdisk_layout [OF assms] and b = mk_baseD [OF assms]
  have "bsized (vdisk s)" using assms by (auto simp: bsized_def vdisk_def disk_of_def zeroes_def mk_base_def)
  moreover have "vdisk s (ROOTDEV, b) = replicate BSIZE 0" if "freeblock s \<le> b" for b
    using assms that b by (auto simp: vdisk_def disk_of_def mk_base_def zeroes_def)
  ultimately show ?thesis using b by (auto simp: fs_ok_def l)
qed

lemma rsect_vdisk: "mk_base s \<Longrightarrow> x < 1024 \<Longrightarrow> x \<noteq> 28 \<Longrightarrow> rsect x s = Ok (vdisk s (ROOTDEV, x))"
  by (simp add: rsect_def mk_base_def vdisk_nth)

lemma wsect_vdisk: "mk_base s \<Longrightarrow> x < 1024 \<Longrightarrow> x \<noteq> 28 \<Longrightarrow> vdisk (wsect x d s) = (vdisk s)((ROOTDEV, x) := d)"
  by (auto simp: fun_eq_iff vdisk_def disk_of_def wsect_def mk_base_def)

lemma wsect_same [simp]: "freeblock (wsect x d s) = freeblock s" "usedblocks (wsect x d s) = usedblocks s" "freeinode (wsect x d s) = freeinode s"
  by (simp_all add: wsect_def)

lemma wsect_base: "mk_base s \<Longrightarrow> 1 < x \<Longrightarrow> x < freeblock s \<Longrightarrow> length d = BSIZE \<Longrightarrow> mk_base (wsect x d s)"
  by (auto simp: mk_base_def wsect_def nth_list_update)

lemma take_block_same [simp]: "img (take_block s) = img s" "freeblock (take_block s) = freeblock s + 1" "freeinode (take_block s) = freeinode s"
  by (simp_all add: take_block_def)

lemma disk_of_take_block [simp]: "disk_of (take_block s) = disk_of s"
  by (simp add: disk_of_def cong: if_cong)

lemma take_block_base: "mk_base s \<Longrightarrow> freeblock s < 1024 \<Longrightarrow> mk_base (take_block s)"
  by (simp add: mk_base_def take_block_def)

text \<open>Counting up is the kernel's allocation.\<close>

lemma palloc_vdisk:
  assumes "mk_base s" and "freeblock s < 1024"
  shows "palloc (vdisk s) ROOTDEV = Some (freeblock s, vdisk (take_block s))"
proof -
  note l = vdisk_layout [OF assms(1)]
  have "first_free (vdisk s) ROOTDEV = Some (freeblock s)" using assms(2) by (auto simp: first_free_Some l)
  moreover have "mark_used (vdisk s) ROOTDEV (freeblock s) = vdisk (take_block s)"
  proof -
    have "bitmap_block (vdisk s) ROOTDEV (freeblock s) = 28" "vdisk s (ROOTDEV, 28) = bitmap (freeblock s)"
      using assms(2) by (simp_all add: l BPB_def vdisk_map)
    then have "mark_used (vdisk s) ROOTDEV (freeblock s) = (vdisk s)((ROOTDEV, 28) := bitmap (Suc (freeblock s)))"
      using assms(2) by (simp add: mark_used_def bitmap_Suc BPB_def)
    then show ?thesis by (simp add: vdisk_def)
  qed
  ultimately show ?thesis by (simp add: palloc_def)
qed

section \<open>\<open>iappend\<close> finds blocks as the kernel does\<close>

lemma vdisk_addr:
  assumes "mk_base s" and "addr_ok ROOTDEV (vdisk s) a"
  shows "a < freeblock s" "a \<noteq> 28" "1 < a" "a < 1024"
proof -
  show a: "a < freeblock s" "a \<noteq> 28" using assms(2) by (auto simp: addr_ok_def vdisk_layout [OF assms(1)])
  have "a \<noteq> 0" "a \<noteq> 1" using assms(2) by (auto simp: addr_ok_def vdisk_layout [OF assms(1)])
  then show "1 < a" by simp
  show "a < 1024" using a(1) mk_baseD(2) [OF assms(1)] by simp
qed

lemma ientry_pentry:
  assumes "mk_base s" and x: "1 < x" "x < freeblock s" "x \<noteq> 28" and i: "i + 4 \<le> BSIZE"
    and room: "get_le 4 (vdisk s (ROOTDEV, x)) i = 0 \<Longrightarrow> freeblock s < 1024"
  shows "\<exists>a s'. ientry x i s = Ok (a, s') \<and> pentry (vdisk s) ROOTDEV x i = Some (a, vdisk s') \<and> mk_base s' \<and> freeinode s' = freeinode s \<and>
    freeblock s' = freeblock s + (if get_le 4 (vdisk s (ROOTDEV, x)) i = 0 then 1 else 0)"
proof -
  let ?d = "vdisk s (ROOTDEV, x)"
  have x': "x < 1024" using x(2) mk_baseD(2) [OF assms(1)] by simp
  have rd: "rsect x s = Ok ?d" using rsect_vdisk [OF assms(1) x' x(3)] .
  show ?thesis
  proof (cases "get_le 4 ?d i = 0")
    case False
    then show ?thesis using assms(1) by (simp add: ientry_def rd pentry_def Let_def)
  next
    case True
    let ?b = "freeblock s" and ?t = "take_block s"
    have tb: "mk_base ?t" using take_block_base [OF assms(1) room [OF True]] .
    have len: "length ?d = BSIZE" using vdisk_ok [OF assms(1)] by (simp add: fs_ok_def bsizedD)
    have same: "vdisk ?t (ROOTDEV, x) = ?d" using x(3) by (simp add: vdisk_def)
    have "get_le 4 (put_le 4 ?b ?d i) i = ?b" using i len room [OF True] by (simp add: get_put_le)
    moreover have "vdisk (wsect x (put_le 4 ?b ?d i) ?t) = (vdisk ?t)((ROOTDEV, x) := put_le 4 ?b ?d i)"
      using wsect_vdisk [OF tb x' x(3)] .
    moreover have "mk_base (wsect x (put_le 4 ?b ?d i) ?t)" using wsect_base [OF tb x(1)] x(2) len by simp
    ultimately show ?thesis using True palloc_vdisk [OF assms(1) room [OF True]]
      by (simp add: ientry_def rd pentry_def same)
  qed
qed

lemma iblock_pmap:
  assumes "mk_base s" and fo: "file_ok (vdisk s) din" and dv: "i_dev din = ROOTDEV" and bn: "fbn < MAXFILE"
    and room: "freeblock s + need (vdisk s) din fbn \<le> 1024"
  shows "\<exists>x din' s'. iblock fbn din s = Ok (x, din', s') \<and> pmap (vdisk s) din fbn = Some (x, vdisk s', din') \<and> mk_base s' \<and>
    freeinode s' = freeinode s \<and> freeblock s' = freeblock s + need (vdisk s) din fbn"
proof (cases "fbn < NDIRECT")
  case True
  have len: "length (i_addrs din) = NDIRECT + 1" using fo by (simp add: file_ok_def)
  show ?thesis
  proof (cases "i_addrs din ! fbn = 0")
    case free: True
    with True room have "freeblock s < 1024" by (simp add: need_def baddr_def)
    with free True len dv palloc_vdisk [OF assms(1)] take_block_base [OF assms(1)] show ?thesis
      by (simp add: iblock_def pmap_def need_def baddr_def)
  next
    case False
    with True assms(1) show ?thesis by (simp add: iblock_def pmap_def need_def baddr_def)
  qed
next
  case False
  let ?i = "4 * (fbn - NDIRECT)"
  have i: "?i + 4 \<le> BSIZE" using False bn by (simp add: MAXFILE_def NINDIRECT_def NDIRECT_def BSIZE_def)
  have len: "length (i_addrs din) = NDIRECT + 1" using fo by (simp add: file_ok_def)
  show ?thesis
  proof (cases "i_addrs din ! NDIRECT = 0")
    case free: True
    let ?b = "freeblock s" and ?t = "take_block s" and ?din = "din\<lparr>i_addrs := (i_addrs din)[NDIRECT := freeblock s]\<rparr>"
    have lt: "?b + 2 \<le> 1024" using free False room by (simp add: need_def baddr_def)
    note tb = take_block_base [OF assms(1)]
    have z: "vdisk ?t (ROOTDEV, ?b) = replicate BSIZE 0"
      using assms(1) lt mk_baseD(3) [OF assms(1)] by (simp add: vdisk_def disk_of_def mk_base_def zeroes_def)
    have g: "get_le 4 (vdisk ?t (ROOTDEV, ?b)) ?i = 0" using i by (simp add: z get_le_zero)
    obtain a s' where "ientry ?b ?i ?t = Ok (a, s')" "pentry (vdisk ?t) ROOTDEV ?b ?i = Some (a, vdisk s')"
        "mk_base s'" "freeinode s' = freeinode s" "freeblock s' = ?b + 2"
      using ientry_pentry [of ?t ?b ?i] tb lt i g mk_baseD(3) [OF assms(1)] by auto
    then show ?thesis using False free len dv lt palloc_vdisk [OF assms(1)]
      by (simp add: iblock_def pmap_def pindirect_def need_def baddr_def)
  next
    case ind: False
    let ?x = "i_addrs din ! NDIRECT"
    have "addr_ok ROOTDEV (vdisk s) ?x" using fo ind dv by (simp add: file_ok_def)
    note x = vdisk_addr [OF assms(1) this]
    have b: "baddr (vdisk s) din fbn = get_le 4 (vdisk s (ROOTDEV, ?x)) ?i" using False ind dv by (simp add: baddr_def)
    have rm: "freeblock s < 1024" if "get_le 4 (vdisk s (ROOTDEV, ?x)) ?i = 0" using that room by (simp add: need_def b)
    from ientry_pentry [OF assms(1) x(3,1,2) i rm] show ?thesis using False ind dv
      by (auto simp: iblock_def pmap_def pindirect_def need_def b)
  qed
qed

lemma pmap_fresh:
  assumes fs: "fs_ok (i_dev ino) B" and fo: "file_ok B ino" and p: "pmap B ino bn = Some (a, B', ino')" and z: "baddr B ino bn = 0"
    and bn: "bn < MAXFILE"
  shows "B' (i_dev ino, a) = replicate BSIZE 0"
proof (cases "bn < NDIRECT")
  case True
  with p z have "palloc B (i_dev ino) = Some (a, B')" by (auto simp: pmap_def baddr_def)
  then show ?thesis using palloc_fresh(5) [OF fs] addr_ok_palloc(4) [OF fs] by simp
next
  case False
  with p obtain x B1 ino1 where 1: "pindirect B ino = Some (x, B1, ino1)" "pentry B1 (i_dev ino1) x (4 * (bn - NDIRECT)) = Some (a, B')"
    by (auto simp: pmap_def bind_eq_Some_conv)
  have s1: "i_dev ino1 = i_dev ino \<and> fs_ok (i_dev ino) B1 \<and> addr_ok (i_dev ino) B1 x \<and>
    (get_le 4 (B1 (i_dev ino, x)) (4 * (bn - NDIRECT)) = 0 \<or> i_addrs ino ! NDIRECT = 0)"
    using 1(1) False z fo fs addr_ok_palloc(1) [OF fs] fs_ok_palloc [OF fs]
    by (auto simp: pindirect_def baddr_def file_ok_def split: if_splits)
  show ?thesis
  proof (cases "get_le 4 (B1 (i_dev ino, x)) (4 * (bn - NDIRECT)) = 0")
    case True
    with 1(2) s1 obtain B2 where al: "palloc B1 (i_dev ino) = Some (a, B2)" "B' = B2((i_dev ino, x) := put_le 4 a (B2 (i_dev ino, x)) (4 * (bn - NDIRECT)))"
      by (auto simp: pentry_def)
    moreover have "a \<noteq> x" using addr_ok_palloc(2) [OF _ al(1)] s1 by auto
    ultimately show ?thesis using s1 palloc_fresh(5) [OF _ al(1)] addr_ok_palloc(4) [OF _ al(1)] by simp
  next
    case ne: False
    with s1 have "i_addrs ino ! NDIRECT = 0" by simp
    with 1(1) have al: "palloc B (i_dev ino) = Some (x, B1)" by (auto simp: pindirect_def)
    have "B1 (i_dev ino, x) = replicate BSIZE 0" using palloc_fresh(5) [OF fs al] addr_ok_palloc(4) [OF fs al] by simp
    then show ?thesis using 1(2) s1 ne bn by (simp add: pentry_def get_le_zero MAXFILE_def NDIRECT_def NINDIRECT_def BSIZE_def)
  qed
qed

section \<open>The data of a file\<close>

text \<open>The file consists of exactly the blocks its data needs, the data, and zeros up to the end of the last block.\<close>

definition data_at :: "blocks \<Rightarrow> inode \<Rightarrow> byte list \<Rightarrow> bool" where
  "data_at B ino d \<longleftrightarrow> file_ok B ino \<and> length d \<le> MAXFILE * BSIZE \<and>
     (\<forall>bn < MAXFILE. baddr B ino bn = 0 \<longleftrightarrow> nblocks (length d) \<le> bn) \<and>
     (i_addrs ino ! NDIRECT = 0 \<longleftrightarrow> nblocks (length d) \<le> NDIRECT) \<and>
     (\<forall>p < length d. fbyte B ino p = d ! p) \<and>
     (\<forall>p < BSIZE * nblocks (length d). length d \<le> p \<longrightarrow> fbyte B ino p = 0)"

lemma nblocks_mult: "r \<le> BSIZE \<Longrightarrow> nblocks (BSIZE * k + r) = k + (if r = 0 then 0 else 1)"
proof -
  assume "r \<le> BSIZE"
  then have "(r + 511) div 512 = (if r = 0 then 0 else 1)" by (auto simp: BSIZE_def intro: div_nat_eqI)
  moreover have "(512 * k + r + 511) div 512 = k + (r + 511) div 512"
    using div_mult_self2 [of 512 "r + 511" k] by (simp add: algebra_simps)
  ultimately show ?thesis by (simp add: nblocks_def BSIZE_def)
qed

lemma nblocks_div: "nblocks n = n div BSIZE + (if n mod BSIZE = 0 then 0 else 1)"
  using nblocks_mult [of "n mod BSIZE" "n div BSIZE"] by (simp add: BSIZE_def)

lemma nblocks_chunk: "0 < n \<Longrightarrow> nblocks (off + chunk off n) = off div BSIZE + 1"
proof -
  assume n: "0 < n"
  have "off mod BSIZE + chunk off n \<le> BSIZE" using mod_less_divisor [of BSIZE off] by (simp add: chunk_def BSIZE_def)
  from nblocks_mult [OF this, of "off div BSIZE"] chunk_pos [OF n, of off] show ?thesis by (simp flip: add.assoc)
qed

lemma nblocks_cover: "n \<le> BSIZE * nblocks n"
  using nblocks_less [of "nblocks n" n] by simp

lemma append_step:
  assumes fs: "fs_ok (i_dev ino) B" and d: "data_at B ino d" and off: "off = length d" and bn: "bn = off div BSIZE" "bn < MAXFILE"
    and p: "pmap B ino bn = Some (a, B1, ino1)" and m: "m = chunk off n" "0 < n" "length xs = m"
  defines "b \<equiv> B1 (i_dev ino, a)"
  defines "B2 \<equiv> B1((i_dev ino, a) := take (off mod BSIZE) b @ xs @ drop (off mod BSIZE + m) b)"
  shows "wrote off xs B ino B2 ino1" "data_at B2 ino1 (d @ xs)"
proof -
  have fo: "file_ok B ino" using d by (simp add: data_at_def)
  from pmap_grows [OF fs fo bn(2) p] have g: "grows B ino B1 ino1" "baddr B1 ino1 bn = a" "a \<noteq> 0" by simp_all
  show w: "wrote off xs B ino B2 ino1"
    unfolding B2_def b_def by (rule wrote_chunk [OF fo g(1) g(2) [unfolded bn(1)] g(3) bn(2) [unfolded bn(1)] m(1,3)])
  note wD = wroteD [OF w] and gD = growsD [OF g(1)]
  have ind: "a \<noteq> i_addrs ino1 ! NDIRECT" using gD(2) g(2,3) bn(2) by (auto simp: file_ok_def)
  have ba: "baddr B2 ino1 bm = baddr B1 ino1 bm" for bm
    using ind gD(3) by (intro baddr_cong) (auto simp: B2_def)
  have nb: "nblocks (length (d @ xs)) = Suc bn" using nblocks_chunk [OF m(2), of off] off m(1,3) bn(1) by simp
  have old: "nblocks (length d) = bn + (if off mod BSIZE = 0 then 0 else 1)" by (simp add: nblocks_div bn off)
  have dz: "baddr B ino bm = 0 \<longleftrightarrow> nblocks (length d) \<le> bm" if "bm < MAXFILE" for bm using d that by (simp add: data_at_def)
  have tight: "baddr B2 ino1 bm = 0 \<longleftrightarrow> Suc bn \<le> bm" if "bm < MAXFILE" for bm
  proof (cases "bm = bn")
    case False
    then show ?thesis using pmap_only(1) [OF fs fo bn(2) p that False] dz [OF that] old by (auto simp: ba split: if_splits)
  qed (use g in \<open>simp add: ba\<close>)
  have "i_addrs ino1 ! NDIRECT = 0 \<longleftrightarrow> bn < NDIRECT \<and> i_addrs ino ! NDIRECT = 0"
    using pmap_only(2) [OF fs fo bn(2) p, of "if bn = 0 then 1 else 0"] by (simp add: MAXFILE_def NDIRECT_def)
  then have tind: "i_addrs ino1 ! NDIRECT = 0 \<longleftrightarrow> Suc bn \<le> NDIRECT" using d old by (auto simp: data_at_def split: if_splits)
  have km: "off mod BSIZE + m \<le> BSIZE" using mod_less_divisor [of BSIZE off] by (simp add: m(1) chunk_def BSIZE_def)
  have "Suc bn \<le> MAXFILE" using bn(2) by simp
  then have mx: "BSIZE * Suc bn \<le> MAXFILE * BSIZE" by (metis mult.commute mult_le_mono1)
  have e: "off + m \<le> BSIZE * Suc bn" using km mult_div_mod_eq [of BSIZE off] unfolding bn(1) mult_Suc_right by linarith
  have kept: "fbyte B2 ino1 q = fbyte B ino q" if "q < BSIZE * nblocks (length d)" "\<not> (off \<le> q \<and> q < off + m)" for q
  proof -
    have q: "q div BSIZE < nblocks (length d)" using that(1) by (simp add: less_mult_imp_div_less mult.commute)
    moreover have "nblocks (length d) \<le> Suc bn" by (simp add: old)
    ultimately have "q div BSIZE < MAXFILE" using bn(2) by simp
    moreover from this have "q < MAXFILE * BSIZE" by (metis BSIZE_def div_less_iff_less_mult zero_less_numeral)
    ultimately show ?thesis using wD(11) [of q] dz [of "q div BSIZE"] that(2) q by (simp add: m(3))
  qed
  have bytes: "fbyte B2 ino1 q = (d @ xs) ! q" if q: "q < length (d @ xs)" for q
  proof (cases "q < off")
    case True
    moreover have "q < BSIZE * nblocks (length d)" using True nblocks_cover [of "length d"] off by simp
    ultimately show ?thesis using kept [of q] d by (simp add: data_at_def nth_append off)
  qed (use wD(10) [of q] q off in \<open>simp add: nth_append\<close>)
  have tail: "fbyte B2 ino1 q = 0" if q: "q < BSIZE * Suc bn" "length (d @ xs) \<le> q" for q
  proof (cases "off mod BSIZE = 0")
    case False
    then show ?thesis using kept [of q] q d m(3) off by (simp add: old data_at_def)
  next
    case True
    have z: "b = replicate BSIZE 0"
      using pmap_fresh [OF fs fo p _ bn(2)] dz [OF bn(2)] True by (simp add: b_def old)
    have o: "BSIZE * bn = off" using True div_mult_mod_eq [of off BSIZE] by (simp add: bn(1) mult.commute)
    have qb: "q div BSIZE = bn" using q o off by (intro div_nat_eqI) simp_all
    then have "q mod BSIZE = q - off" using minus_mult_div_eq_mod [of q BSIZE] o by simp
    moreover from this have "m \<le> q mod BSIZE" "q mod BSIZE < BSIZE" using q m(3) off o by simp_all
    moreover note qb
    moreover have "B2 (i_dev ino, a) = xs @ replicate (BSIZE - m) 0" using True by (simp add: B2_def z)
    ultimately show ?thesis using m(3) gD(3) by (simp add: fbyte_def ba g(2) nth_append)
  qed
  have "length (d @ xs) \<le> MAXFILE * BSIZE" using e mx m(3) off by simp
  with wD(2) tight tind bytes tail show "data_at B2 ino1 (d @ xs)" unfolding data_at_def nb by blast
qed

text \<open>The blocks a file of \<open>n\<close> bytes takes, with its indirect block.\<close>

definition cost :: "nat \<Rightarrow> nat" where
  "cost n = nblocks n + (if NDIRECT < nblocks n then 1 else 0)"

lemma nblocks_mono: "m \<le> n \<Longrightarrow> nblocks m \<le> nblocks n"
  by (simp add: nblocks_def div_le_mono)

lemma cost_mono: "m \<le> n \<Longrightarrow> cost m \<le> cost n"
  using nblocks_mono [of m n] by (simp add: cost_def)

lemma need_cost:
  assumes "data_at B ino d" and "length d div BSIZE < MAXFILE" and "0 < n"
  shows "need B ino (length d div BSIZE) + cost (length d) = cost (length d + chunk (length d) n)"
proof -
  have "nblocks (length d) = length d div BSIZE + (if length d mod BSIZE = 0 then 0 else 1)" by (rule nblocks_div)
  moreover note nblocks_chunk [OF assms(3), of "length d"]
  ultimately show ?thesis using assms(1,2) by (simp add: need_def cost_def data_at_def)
qed

lemma iappend_loop_ok:
  assumes "mk_base s" and "i_dev din = ROOTDEV" and "data_at (vdisk s) din d" and "length d + length p \<le> MAXFILE * BSIZE"
    and "freeblock s + cost (length d + length p) \<le> 1024 + cost (length d)"
  shows "\<exists>din' s'. iappend_loop din (length d) p s = Ok (din', length d + length p, s') \<and> wrote (length d) p (vdisk s) din (vdisk s') din' \<and>
    data_at (vdisk s') din' (d @ p) \<and> mk_base s' \<and> freeinode s' = freeinode s \<and>
    freeblock s' + cost (length d) = freeblock s + cost (length d + length p)"
  using assms
proof (induction "length p" arbitrary: p din d s rule: less_induct)
  case less
  let ?off = "length d" and ?n = "length p" and ?B = "vdisk s"
  have fs: "fs_ok (i_dev din) ?B" and fo: "file_ok ?B din" using vdisk_ok [OF less.prems(1)] less.prems(2,3) by (simp_all add: data_at_def)
  show ?case
  proof (cases "p = []")
    case True
    then show ?thesis using less.prems wrote_Nil [OF fs fo] by (simp add: iappend_loop.simps)
  next
    case False
    let ?m = "chunk ?off ?n" and ?bn = "?off div BSIZE"
    have n: "0 < ?n" using False by simp
    have "?off < MAXFILE * BSIZE" using n less.prems(4) by linarith
    then have bn: "?bn < MAXFILE" by (rule block_less)
    have c: "cost (?off + ?m) \<le> cost (?off + ?n)" using chunk_le by (intro cost_mono) simp
    note nc = need_cost [OF less.prems(3) bn n]
    have "freeblock s + need ?B din ?bn \<le> 1024" using nc c less.prems(5) by linarith
    from iblock_pmap [OF less.prems(1) fo less.prems(2) bn this] obtain x din1 s1 where
      1: "iblock ?bn din s = Ok (x, din1, s1)" "pmap ?B din ?bn = Some (x, vdisk s1, din1)" "mk_base s1" "freeinode s1 = freeinode s"
        "freeblock s1 = freeblock s + need ?B din ?bn" by blast
    from pmap_grows [OF fs fo bn 1(2)] have g: "grows ?B din (vdisk s1) din1" "baddr (vdisk s1) din1 ?bn = x" "x \<noteq> 0" by simp_all
    have dv: "i_dev din1 = ROOTDEV" using growsD(3) [OF g(1)] less.prems(2) by simp
    have "addr_ok ROOTDEV (vdisk s1) x" using growsD(2) [OF g(1)] g(2,3) bn dv by (auto simp: file_ok_def)
    note x = vdisk_addr [OF 1(3) this]
    let ?b = "vdisk s1 (ROOTDEV, x)"
    let ?c = "take (?off mod BSIZE) ?b @ take ?m p @ drop (?off mod BSIZE + ?m) ?b"
    let ?s2 = "wsect x ?c s1"
    have len: "length ?b = BSIZE" using vdisk_ok [OF 1(3)] by (simp add: fs_ok_def bsizedD)
    have km: "?off mod BSIZE + ?m \<le> BSIZE" using mod_less_divisor [of BSIZE ?off] by (simp add: chunk_def BSIZE_def)
    have lm: "length (take ?m p) = ?m" using chunk_le [of ?off ?n] by simp
    have "length ?c = BSIZE" using len km lm by simp
    note s2 = wsect_base [OF 1(3) x(3,1) this] and v2 = wsect_vdisk [OF 1(3) x(4,2), of ?c]
    note st = append_step [OF fs less.prems(3) refl refl bn 1(2) refl n lm, unfolded less.prems(2), folded v2]
    have eq: "iappend_loop din ?off p s = iappend_loop din1 (?off + ?m) (drop ?m p) ?s2"
    proof -
      have "min ?n ((?bn + 1) * 512 - ?off) = ?m" "?off - ?bn * 512 = ?off mod BSIZE"
        using minus_div_mult_eq_mod [of ?off 512] by (simp_all add: chunk_def BSIZE_def algebra_simps)
      then show ?thesis using n bn 1(1) rsect_vdisk [OF 1(3) x(4,2)]
        by (subst iappend_loop.simps) (simp add: Let_def BSIZE_def)
    qed
    have l: "length (d @ take ?m p) = ?off + ?m" "?off + ?m + length (drop ?m p) = ?off + ?n" using lm chunk_le [of ?off ?n] by simp_all
    have "length (drop ?m p) < ?n" using n chunk_pos [OF n, of ?off] by simp
    moreover have "freeblock ?s2 + cost (?off + ?n) \<le> 1024 + cost (?off + ?m)" using 1(5) nc less.prems(5) by simp
    ultimately obtain din' s' where
      2: "iappend_loop din1 (?off + ?m) (drop ?m p) ?s2 = Ok (din', ?off + ?n, s')" "wrote (?off + ?m) (drop ?m p) (vdisk ?s2) din1 (vdisk s') din'"
        "data_at (vdisk s') din' (d @ p)" "mk_base s'" "freeinode s' = freeinode s" "freeblock s' + cost (?off + ?m) = freeblock ?s2 + cost (?off + ?n)"
      using less.hyps [of "drop ?m p" ?s2 din1 "d @ take ?m p"] s2 dv st(2) less.prems(4) 1(4) unfolding l by (auto simp: l)
    have "wrote ?off (take ?m p @ drop ?m p) ?B din (vdisk s') din'"
      using wrote_append [OF st(1), of "drop ?m p"] 2(2) lm less.prems(4) l(2) by simp
    then show ?thesis using 2 eq 1(5) nc by (intro exI [of _ din'] exI [of _ s']) simp
  qed
qed

section \<open>Other files\<close>

text \<open>Two files share no block.\<close>

definition apart :: "blocks \<Rightarrow> inode \<Rightarrow> inode \<Rightarrow> bool" where
  "apart B ino jno \<longleftrightarrow> (\<forall>b. b \<noteq> 0 \<longrightarrow> owns B ino b \<longrightarrow> \<not> owns B jno b)"

lemma apart_sym: "apart B ino jno \<Longrightarrow> apart B jno ino"
  by (auto simp: apart_def)

text \<open>A file is unchanged when its blocks are.\<close>

lemma owns_ok: "file_ok B ino \<Longrightarrow> owns B ino b \<Longrightarrow> b \<noteq> 0 \<Longrightarrow> addr_ok (i_dev ino) B b"
  by (auto simp: owns_def file_ok_def)

lemma data_at_kept:
  assumes d: "data_at B jno d"
    and kept: "\<And>b. owns B jno b \<Longrightarrow> b \<noteq> 0 \<Longrightarrow> addr_ok (i_dev jno) B' b \<and> B' (i_dev jno, b) = B (i_dev jno, b)"
  shows "data_at B' jno d" "owns B' jno = owns B jno"
proof -
  have fo: "file_ok B jno" using d by (simp add: data_at_def)
  have ba: "baddr B' jno bn = baddr B jno bn" for bn
    using kept [of "i_addrs jno ! NDIRECT"] by (intro baddr_cong) (auto simp: owns_def)
  then show ow: "owns B' jno = owns B jno" by (simp add: owns_def fun_eq_iff)
  have ok: "b \<noteq> 0 \<Longrightarrow> owns B jno b \<Longrightarrow> addr_ok (i_dev jno) B' b" for b using kept by blast
  have "file_ok B' jno" using fo ok by (auto simp: file_ok_def ba owns_def)
  moreover have "fbyte B' jno p = fbyte B jno p" if "p < BSIZE * nblocks (length d)" for p
  proof -
    have q: "p div BSIZE < nblocks (length d)" using that by (simp add: less_mult_imp_div_less mult.commute)
    moreover have "nblocks (length d) \<le> MAXFILE" using d nblocks_less [of MAXFILE "length d"] by (simp add: data_at_def mult.commute)
    ultimately have "p div BSIZE < MAXFILE" by simp
    then have "baddr B jno (p div BSIZE) \<noteq> 0" "owns B jno (baddr B jno (p div BSIZE))" using d q by (auto simp: data_at_def owns_def)
    then show ?thesis using kept by (simp add: fbyte_def ba)
  qed
  moreover have "p < length d \<Longrightarrow> p < BSIZE * nblocks (length d)" for p using nblocks_cover [of "length d"] by simp
  ultimately show "data_at B' jno d" using d by (simp add: data_at_def ba)
qed

lemma wrote_apart:
  assumes "wrote off xs B ino B' ino'" and "data_at B jno d" and "i_dev jno = i_dev ino" and "apart B ino jno"
  shows "data_at B' jno d" "apart B' ino' jno" "owns B' jno = owns B jno"
proof -
  have fo: "file_ok B jno" using assms(2) by (simp add: data_at_def)
  have k: "addr_ok (i_dev jno) B' b \<and> B' (i_dev jno, b) = B (i_dev jno, b) \<and> \<not> owns B' ino' b" if "owns B jno b" "b \<noteq> 0" for b
    using wroteD(12) [OF assms(1)] owns_ok [OF fo that] that assms(3,4) by (auto simp: apart_def)
  show "data_at B' jno d" and ow: "owns B' jno = owns B jno" using data_at_kept [OF assms(2)] k by blast+
  show "apart B' ino' jno" using k by (auto simp: apart_def ow)
qed

section \<open>Inodes\<close>

record mfile =
  mf_type :: nat
  mf_data :: "byte list"
  mf_size :: nat

definition inode_of :: "blocks \<Rightarrow> nat \<Rightarrow> inode" where
  "inode_of B i = load_inode (B (ROOTDEV, IBLOCK i)) (dinode_off i) (blank i)"

definition as_inode :: "nat \<Rightarrow> mfile \<Rightarrow> nat list \<Rightarrow> inode" where
  "as_inode i f as = (blank i)\<lparr>i_type := mf_type f, i_nlink := 1, i_size := mf_size f, i_addrs := as\<rparr>"

definition holds :: "blocks \<Rightarrow> nat \<Rightarrow> mfile \<Rightarrow> bool" where
  "holds B i f \<longleftrightarrow> inode_of B i = as_inode i f (i_addrs (inode_of B i)) \<and> data_at B (inode_of B i) (mf_data f)"

lemma as_inode_sel [simp]: "i_dev (as_inode i f as) = ROOTDEV" "i_inum (as_inode i f as) = i" "i_addrs (as_inode i f as) = as"
  "i_size (as_inode i f as) = mf_size f" "i_type (as_inode i f as) = mf_type f"
  by (simp_all add: as_inode_def blank_def)

lemma data_at_cong: "i_addrs ino = i_addrs jno \<Longrightarrow> i_dev ino = i_dev jno \<Longrightarrow> data_at B ino d = data_at B jno d"
  by (simp add: data_at_def file_ok_def baddr_def fbyte_def)

lemma owns_cong: "i_addrs ino = i_addrs jno \<Longrightarrow> i_dev ino = i_dev jno \<Longrightarrow> owns B ino = owns B jno"
  by (simp add: owns_def baddr_def fun_eq_iff)

lemma inode_block:
  assumes "mk_base s" and "i < 200"
  shows "i2b i = IBLOCK i" "IBLOCK i \<in> {2..26}" "IBLOCK i \<in> meta_blocks (vdisk s) ROOTDEV - sys_blocks (vdisk s) ROOTDEV"
    "dinode_off i + 64 \<le> BSIZE"
proof -
  show "i2b i = IBLOCK i" by (simp add: i2b_def IBLOCK_def)
  show "IBLOCK i \<in> {2..26}" using assms(2) by (auto simp: IBLOCK_def IPB_def)
  then show "IBLOCK i \<in> meta_blocks (vdisk s) ROOTDEV - sys_blocks (vdisk s) ROOTDEV" by (auto simp: vdisk_layout [OF assms(1)])
  have "i mod 8 < 8" by simp
  then show "dinode_off i + 64 \<le> BSIZE" by (simp add: dinode_off_def sizeof_dinode_def IPB_def BSIZE_def)
qed

lemma rinode_ok: "mk_base s \<Longrightarrow> i < 200 \<Longrightarrow> rinode i s = Ok (inode_of (vdisk s) i)"
  using inode_block [of s i] rsect_vdisk [of s "IBLOCK i"] by (simp add: rinode_def inode_of_def)

lemma winode_ok:
  assumes "mk_base s" and "i < 200" and "i_dev ino = ROOTDEV" and "i_inum ino = i"
  shows "\<exists>s'. winode i ino s = Ok s' \<and> vdisk s' = store_at ino (vdisk s) \<and> mk_base s' \<and> freeblock s' = freeblock s \<and> freeinode s' = freeinode s"
proof -
  note b = inode_block [OF assms(1,2)]
  let ?d = "store_inode ino (vdisk s (ROOTDEV, IBLOCK i)) (dinode_off i)"
  have "length ?d = BSIZE" using vdisk_ok [OF assms(1)] by (simp add: fs_ok_def bsizedD)
  moreover have "1 < IBLOCK i" "IBLOCK i < freeblock s" "IBLOCK i < 1024" "IBLOCK i \<noteq> 28" using b(2) mk_baseD(3) [OF assms(1)] by auto
  ultimately show ?thesis using rsect_vdisk [OF assms(1)] wsect_vdisk [OF assms(1)] wsect_base [OF assms(1)] assms(3,4)
    by (simp add: winode_def b(1) store_at_def iblock_off_def)
qed

text \<open>Storing an inode keeps the data of all files and the other inodes.\<close>

lemma store_at_kept:
  assumes "mk_base s" and "i < 200" and ino: "i_dev ino = ROOTDEV" "i_inum ino = i"
  shows "data_at (vdisk s) jno d \<Longrightarrow> i_dev jno = ROOTDEV \<Longrightarrow> data_at (store_at ino (vdisk s)) jno d"
    "data_at (vdisk s) jno d \<Longrightarrow> i_dev jno = ROOTDEV \<Longrightarrow> owns (store_at ino (vdisk s)) jno = owns (vdisk s) jno"
    "j \<noteq> i \<Longrightarrow> inode_of (store_at ino (vdisk s)) j = inode_of (vdisk s) j"
proof -
  let ?B = "vdisk s" and ?B' = "store_at ino (vdisk s)"
  note b = inode_block [OF assms(1,2)]
  have e: "?B' = ?B((ROOTDEV, IBLOCK i) := store_inode ino (?B (ROOTDEV, IBLOCK i)) (dinode_off i))"
    by (simp add: store_at_def iblock_off_def ino)
  have l: "addr_ok ROOTDEV ?B' a" if "addr_ok ROOTDEV ?B a" for a
    using that layout_other [of "IBLOCK i" ?B ROOTDEV] b(3) unfolding e addr_ok_def by auto
  have k: "addr_ok (i_dev jno) ?B' a \<and> ?B' (i_dev jno, a) = ?B (i_dev jno, a)"
    if "data_at ?B jno d" "i_dev jno = ROOTDEV" "owns ?B jno a" "a \<noteq> 0" for jno a d
  proof -
    have "addr_ok ROOTDEV ?B a" using owns_ok [OF _ that(3,4)] that(1,2) by (simp add: data_at_def)
    moreover from this b(3) have "a \<noteq> IBLOCK i" by (auto simp: addr_ok_def)
    ultimately show ?thesis using l that(2) by (simp add: e)
  qed
  show "data_at ?B jno d \<Longrightarrow> i_dev jno = ROOTDEV \<Longrightarrow> data_at ?B' jno d"
    "data_at ?B jno d \<Longrightarrow> i_dev jno = ROOTDEV \<Longrightarrow> owns ?B' jno = owns ?B jno" using data_at_kept [of ?B jno d ?B'] k by blast+
  show "j \<noteq> i \<Longrightarrow> inode_of ?B' j = inode_of ?B j"
    using inode_elsewhere [of j ino ?B] by (simp add: inode_of_def ino)
qed

lemma store_at_same:
  assumes "mk_base s" and "i < 200" and "data_at (vdisk s) ino d" and "ino = as_inode i f as" and "mf_type f < 2 ^ 16" and "mf_size f < 2 ^ 32"
  shows "inode_of (store_at ino (vdisk s)) i = ino"
proof -
  let ?B = "vdisk s"
  have len: "length (?B (ROOTDEV, IBLOCK i)) = BSIZE" using vdisk_ok [OF assms(1)] by (simp add: fs_ok_def bsizedD)
  have fo: "file_ok ?B ino" using assms(3) by (simp add: data_at_def)
  have "a < 2 ^ 32" if a: "a \<in> set (i_addrs ino)" for a
  proof (cases "a = 0")
    case False
    from a fo obtain j where j: "j < NDIRECT + 1" "a = i_addrs ino ! j" by (auto simp: in_set_conv_nth file_ok_def)
    have "owns ?B ino a"
    proof (cases "j = NDIRECT")
      case False
      with j have "baddr ?B ino j = a" "j < MAXFILE" by (auto simp: baddr_def MAXFILE_def)
      then show ?thesis by (auto simp: owns_def)
    qed (simp add: owns_def j(2))
    then have "addr_ok ROOTDEV ?B a" using owns_ok [OF fo _ False] assms(4) by simp
    then show ?thesis using vdisk_addr(4) [OF assms(1)] by fastforce
  qed simp
  then have "inode_ranged ino" using assms(4-6) fo by (simp add: inode_ranged_def file_ok_def as_inode_def blank_def)
  then show ?thesis using load_store_inode [of ino "dinode_off i"] len inode_block(4) [OF assms(1,2)] assms(4)
    by (simp add: inode_of_def store_at_def iblock_off_def as_inode_def blank_def)
qed

section \<open>The invariant of the run\<close>

definition blocks_taken :: "mfile list \<Rightarrow> nat" where
  "blocks_taken F = sum_list (map (\<lambda>f. cost (length (mf_data f))) F)"

definition fits :: "mfile list \<Rightarrow> bool" where
  "fits F \<longleftrightarrow> length F < 200 \<and> blocks_taken F \<le> 995 \<and> (\<forall>f \<in> set F. length (mf_data f) \<le> MAXFILE * BSIZE)"

definition separate :: "blocks \<Rightarrow> nat \<Rightarrow> bool" where
  "separate B n \<longleftrightarrow> (\<forall>i < n. \<forall>j < n. i \<noteq> j \<longrightarrow> apart B (inode_of B (Suc i)) (inode_of B (Suc j)))"

definition mk_inv :: "mkfs_state \<Rightarrow> mfile list \<Rightarrow> bool" where
  "mk_inv s F \<longleftrightarrow> mk_base s \<and> freeinode s = Suc (length F) \<and> freeblock s = 29 + blocks_taken F \<and> length F < 200 \<and>
     (\<forall>i < length F. holds (vdisk s) (Suc i) (F ! i)) \<and> separate (vdisk s) (length F) \<and>
     (\<forall>f \<in> set F. mf_type f < 2 ^ 16 \<and> mf_size f < 2 ^ 32)"

lemma mk_invD:
  assumes "mk_inv s F"
  shows "mk_base s" "freeinode s = Suc (length F)" "freeblock s = 29 + blocks_taken F" "length F < 200"
    "i < length F \<Longrightarrow> holds (vdisk s) (Suc i) (F ! i)"
    "i < length F \<Longrightarrow> j < length F \<Longrightarrow> i \<noteq> j \<Longrightarrow> apart (vdisk s) (inode_of (vdisk s) (Suc i)) (inode_of (vdisk s) (Suc j))"
    "f \<in> set F \<Longrightarrow> mf_type f < 2 ^ 16" "f \<in> set F \<Longrightarrow> mf_size f < 2 ^ 32"
  using assms by (simp_all add: mk_inv_def separate_def)

lemma holdsD:
  assumes "holds B i f"
  shows "inode_of B i = as_inode i f (i_addrs (inode_of B i))" "data_at B (inode_of B i) (mf_data f)" "i_dev (inode_of B i) = ROOTDEV"
    "i_size (inode_of B i) = mf_size f"
proof -
  show e: "inode_of B i = as_inode i f (i_addrs (inode_of B i))" "data_at B (inode_of B i) (mf_data f)" using assms by (simp_all add: holds_def)
  show "i_dev (inode_of B i) = ROOTDEV" "i_size (inode_of B i) = mf_size f" by (subst e(1), simp)+
qed

text \<open>Writing the inode of file \<open>i\<close> when the rest is in order.\<close>

lemma store_file:
  assumes t: "mk_base t" "freeinode t = Suc (length F)" "freeblock t = 29 + blocks_taken F" "length F < 200" and i: "i < length F"
    and ino: "ino = as_inode (Suc i) (F ! i) as" "data_at (vdisk t) ino (mf_data (F ! i))"
    and rg: "\<forall>f \<in> set F. mf_type f < 2 ^ 16 \<and> mf_size f < 2 ^ 32"
    and others: "\<And>j. j < length F \<Longrightarrow> j \<noteq> i \<Longrightarrow> holds (vdisk t) (Suc j) (F ! j) \<and> apart (vdisk t) ino (inode_of (vdisk t) (Suc j))"
    and sep: "\<And>j k. j < length F \<Longrightarrow> k < length F \<Longrightarrow> j \<noteq> i \<Longrightarrow> k \<noteq> i \<Longrightarrow> j \<noteq> k \<Longrightarrow>
      apart (vdisk t) (inode_of (vdisk t) (Suc j)) (inode_of (vdisk t) (Suc k))"
  shows "\<exists>s'. winode (Suc i) ino t = Ok s' \<and> mk_inv s' F"
proof -
  have i2: "Suc i < 200" using i t(4) by simp
  have dv: "i_dev ino = ROOTDEV" "i_inum ino = Suc i" using ino(1) by simp_all
  from winode_ok [OF t(1) i2 dv] obtain s' where s': "winode (Suc i) ino t = Ok s'" "vdisk s' = store_at ino (vdisk t)" "mk_base s'"
    "freeblock s' = freeblock t" "freeinode s' = freeinode t" by blast
  note k = store_at_kept [OF t(1) i2 dv, folded s'(2)]
  have "mf_type (F ! i) < 2 ^ 16" "mf_size (F ! i) < 2 ^ 32" using rg i by simp_all
  note same = store_at_same [OF t(1) i2 ino(2,1) this, folded s'(2)]
  have o: "inode_of (vdisk s') (Suc j) = inode_of (vdisk t) (Suc j)" if "j \<noteq> i" for j using k(3) that by simp
  have h: "data_at (vdisk t) (inode_of (vdisk t) (Suc j)) (mf_data (F ! j))" "i_dev (inode_of (vdisk t) (Suc j)) = ROOTDEV"
    if "j < length F" "j \<noteq> i" for j using others [OF that] by (auto dest: holdsD)
  have ow: "owns (vdisk s') (inode_of (vdisk t) (Suc j)) = owns (vdisk t) (inode_of (vdisk t) (Suc j))" if "j < length F" "j \<noteq> i" for j
    using k(2) h [OF that] .
  have "holds (vdisk s') (Suc j) (F ! j)" if "j < length F" for j
  proof (cases "j = i")
    case True
    then show ?thesis using k(1) [OF ino(2) dv(1)] by (simp add: holds_def same) (simp add: ino(1))
  next
    case False
    then show ?thesis using k(1) h [OF that] others [OF that] by (simp add: holds_def o)
  qed
  moreover have "separate (vdisk s') (length F)"
    unfolding separate_def
  proof (intro allI impI)
    have sep1: "apart (vdisk s') ino (inode_of (vdisk t) (Suc k))" if "k < length F" "k \<noteq> i" for k
      using others [OF that] h [OF that] k(2) ino(2) dv(1) by (simp add: apart_def)
    fix j l assume jl: "j < length F" "l < length F" "j \<noteq> l"
    show "apart (vdisk s') (inode_of (vdisk s') (Suc j)) (inode_of (vdisk s') (Suc l))"
    proof (cases "j = i \<or> l = i")
      case True
      then show ?thesis using jl sep1 apart_sym same o by auto
    next
      case False
      then have "apart (vdisk t) (inode_of (vdisk t) (Suc j)) (inode_of (vdisk t) (Suc l))" using sep jl by simp
      then show ?thesis using False jl by (simp add: apart_def o ow)
    qed
  qed
  ultimately show ?thesis using s' t rg by (simp add: mk_inv_def)
qed

lemma no_data_at: "data_at B (as_inode i f (replicate (NDIRECT + 1) 0)) []"
  by (simp add: data_at_def file_ok_def baddr_def nblocks_def BSIZE_def NDIRECT_def MAXFILE_def)

lemma no_data_apart: "apart B (as_inode i f (replicate (NDIRECT + 1) 0)) jno"
  by (simp add: apart_def owns_def baddr_def NDIRECT_def MAXFILE_def)

lemma cost_0 [simp]: "cost 0 = 0"
  by (simp add: cost_def nblocks_def BSIZE_def)

lemma vdisk_freeinode [simp]: "vdisk (s\<lparr>freeinode := n\<rparr>) = vdisk s"
  by (simp add: vdisk_def disk_of_def cong: if_cong)

lemma ialloc_inv:
  assumes "mk_inv s F" and "length F < 199" and "ty < 2 ^ 16"
  shows "\<exists>s'. mk_ialloc ty s = Ok (Suc (length F), s') \<and> mk_inv s' (F @ [\<lparr>mf_type = ty, mf_data = [], mf_size = 0\<rparr>])"
proof -
  note d = mk_invD [OF assms(1)]
  let ?f = "\<lparr>mf_type = ty, mf_data = [], mf_size = 0\<rparr>" and ?t = "s\<lparr>freeinode := freeinode s + 1\<rparr>"
  let ?ino = "as_inode (Suc (length F)) ?f (replicate (NDIRECT + 1) 0)"
  have b: "mk_base ?t" using d(1) by (simp add: mk_base_def)
  have "holds (vdisk ?t) (Suc j) ((F @ [?f]) ! j)" if "j < length (F @ [?f])" "j \<noteq> length F" for j
    using d(5) [of j] that by (simp add: nth_append)
  moreover have "\<forall>f \<in> set (F @ [?f]). mf_type f < 2 ^ 16 \<and> mf_size f < 2 ^ 32" using d(7,8) assms(3) by auto
  moreover have "blocks_taken (F @ [?f]) = blocks_taken F" by (simp add: blocks_taken_def)
  moreover have "apart (vdisk ?t) (inode_of (vdisk ?t) (Suc j)) (inode_of (vdisk ?t) (Suc k))"
    if "j < length (F @ [?f])" "k < length (F @ [?f])" "j \<noteq> length F" "k \<noteq> length F" "j \<noteq> k" for j k using that d(6) [of j k] by simp
  ultimately have "\<exists>s'. winode (Suc (length F)) ?ino ?t = Ok s' \<and> mk_inv s' (F @ [?f])"
    using b d(2,3) assms(2) no_data_at no_data_apart by (intro store_file) (simp_all add: nth_append)
  moreover have "?ino = (blank (Suc (length F)))\<lparr>i_type := ty, i_nlink := 1\<rparr>" by (simp add: as_inode_def blank_def)
  ultimately show ?thesis by (auto simp: mk_ialloc_def d(2) Let_def)
qed

definition extend :: "byte list \<Rightarrow> mfile \<Rightarrow> mfile" where
  "extend p f = f\<lparr>mf_data := mf_data f @ p, mf_size := mf_size f + length p\<rparr>"

definition pad :: "mfile \<Rightarrow> mfile" where
  "pad f = f\<lparr>mf_size := (mf_size f div BSIZE + 1) * BSIZE\<rparr>"

lemma blocks_taken_update:
  "i < length F \<Longrightarrow> blocks_taken (F[i := f]) + cost (length (mf_data (F ! i))) = blocks_taken F + cost (length (mf_data f))"
proof -
  assume i: "i < length F"
  then have "cost (length (mf_data (F ! i))) \<le> blocks_taken F" by (auto simp: blocks_taken_def intro!: member_le_sum_list)
  with i show ?thesis by (simp add: blocks_taken_def map_update sum_list_update)
qed

lemma ranges_update:
  assumes "mk_inv s F" and "mf_type f < 2 ^ 16" and "mf_size f < 2 ^ 32"
  shows "\<forall>g \<in> set (F[i := f]). mf_type g < 2 ^ 16 \<and> mf_size g < 2 ^ 32"
  using mk_invD(7,8) [OF assms(1)] assms(2,3) set_update_subset_insert [of F i f] by blast

lemma iappend_inv:
  assumes "mk_inv s F" and i: "i < length F" and sz: "mf_size (F ! i) = length (mf_data (F ! i))" and ft: "fits (F[i := extend p (F ! i)])"
  shows "\<exists>s'. iappend (Suc i) p s = Ok s' \<and> mk_inv s' (F[i := extend p (F ! i)])"
proof -
  note d = mk_invD [OF assms(1)]
  let ?f = "F ! i" and ?F = "F[i := extend p (F ! i)]" and ?B = "vdisk s"
  let ?din = "inode_of ?B (Suc i)" and ?len = "length (mf_data (F ! i))"
  note h = holdsD [OF d(5) [OF i]]
  have i2: "Suc i < 200" using i d(4) by simp
  have bt: "blocks_taken ?F + cost ?len = blocks_taken F + cost (?len + length p)"
    using blocks_taken_update [OF i, of "extend p ?f"] by (simp add: extend_def)
  have "extend p ?f \<in> set ?F" using i by (simp add: set_update_memI)
  then have mx: "?len + length p \<le> MAXFILE * BSIZE" using ft by (auto simp: fits_def extend_def)
  have "freeblock s + cost (?len + length p) \<le> 1024 + cost ?len" using bt ft d(3) by (simp add: fits_def)
  from iappend_loop_ok [OF d(1) h(3,2) mx this] obtain din t where
    t: "iappend_loop ?din ?len p s = Ok (din, ?len + length p, t)" "wrote ?len p ?B ?din (vdisk t) din" "data_at (vdisk t) din (mf_data ?f @ p)"
      "mk_base t" "freeinode t = freeinode s" "freeblock t + cost ?len = freeblock s + cost (?len + length p)" by blast
  note w = wroteD [OF t(2), unfolded h(3)]
  let ?ino = "din\<lparr>i_size := ?len + length p\<rparr>"
  have ino: "?ino = as_inode (Suc i) (extend p ?f) (i_addrs din)"
  proof -
    obtain as where as: "din = ?din\<lparr>i_addrs := as\<rparr>" using w(3) by blast
    then have "?ino = ?din\<lparr>i_addrs := as, i_size := ?len + length p\<rparr>" by simp
    also have "\<dots> = as_inode (Suc i) (extend p ?f) as" by (subst h(1)) (simp add: as_inode_def extend_def sz)
    finally show ?thesis by (simp add: as)
  qed
  have same: "data_at (vdisk t) ?ino e = data_at (vdisk t) din e" "owns (vdisk t) ?ino = owns (vdisk t) din" for e
    by (rule data_at_cong owns_cong; simp)+
  have io: "inode_of (vdisk t) (Suc j) = inode_of ?B (Suc j)" if "j < length F" for j
    using w(13) [OF inode_block(3) [OF d(1), of "Suc j"]] that d(4) by (simp add: inode_of_def)
  have o: "data_at (vdisk t) (inode_of ?B (Suc j)) (mf_data (F ! j)) \<and> apart (vdisk t) din (inode_of ?B (Suc j)) \<and>
      owns (vdisk t) (inode_of ?B (Suc j)) = owns ?B (inode_of ?B (Suc j))" if "j < length F" "j \<noteq> i" for j
    using wrote_apart [OF t(2) holdsD(2) [OF d(5)] _ d(6) [OF i]] holdsD(3) [OF d(5)] h(3) that by simp
  have ao: "apart (vdisk t) ?ino (inode_of ?B (Suc j))" if "j < length F" "j \<noteq> i" for j
    using o [OF that] unfolding apart_def same by blast
  have ap: "apart (vdisk t) (inode_of ?B (Suc j)) (inode_of ?B (Suc k))"
    if "j < length F" "k < length F" "j \<noteq> i" "k \<noteq> i" "j \<noteq> k" for j k
    using that d(6) o by (simp add: apart_def)
  have rg: "\<forall>g \<in> set ?F. mf_type g < 2 ^ 16 \<and> mf_size g < 2 ^ 32"
    using mx d(7) [of ?f] i sz
    by (intro ranges_update [OF assms(1)]) (simp_all add: extend_def MAXFILE_def NDIRECT_def NINDIRECT_def BSIZE_def)
  have "\<exists>s'. winode (Suc i) ?ino t = Ok s' \<and> mk_inv s' ?F"
  proof (rule store_file [OF t(4), where as = "i_addrs din"])
    show "freeinode t = Suc (length ?F)" "length ?F < 200" "i < length ?F" using t(5) d(2,4) i by simp_all
    show "freeblock t = 29 + blocks_taken ?F" using t(6) d(3) bt by simp
    show "?ino = as_inode (Suc i) (?F ! i) (i_addrs din)" "data_at (vdisk t) ?ino (mf_data (?F ! i))"
      using ino i t(3) same by (simp_all add: extend_def)
    show "\<forall>g \<in> set ?F. mf_type g < 2 ^ 16 \<and> mf_size g < 2 ^ 32" by (rule rg)
  next
    fix j assume j: "j < length ?F" "j \<noteq> i"
    then show "holds (vdisk t) (Suc j) (?F ! j) \<and> apart (vdisk t) ?ino (inode_of (vdisk t) (Suc j))"
      using o [of j] holdsD(1) [OF d(5) [of j]] ao [of j] by (simp add: holds_def io)
  next
    fix j k assume "j < length ?F" "k < length ?F" "j \<noteq> i" "k \<noteq> i" "j \<noteq> k"
    then show "apart (vdisk t) (inode_of (vdisk t) (Suc j)) (inode_of (vdisk t) (Suc k))" using ap by (simp add: io)
  qed
  then show ?thesis using t(1) h(4) sz by (simp add: iappend_def rinode_ok [OF d(1) i2])
qed

lemma fix_size_inv:
  assumes "mk_inv s F" and i: "i < length F" and sz: "mf_size (F ! i) \<le> MAXFILE * BSIZE"
  shows "\<exists>s'. fix_size (Suc i) s = Ok s' \<and> mk_inv s' (F[i := pad (F ! i)])"
proof -
  note d = mk_invD [OF assms(1)]
  let ?f = "F ! i" and ?F = "F[i := pad (F ! i)]" and ?B = "vdisk s" and ?n = "(mf_size (F ! i) div BSIZE + 1) * BSIZE"
  let ?din = "inode_of ?B (Suc i)" and ?ino = "(inode_of ?B (Suc i))\<lparr>i_size := (mf_size (F ! i) div BSIZE + 1) * BSIZE\<rparr>"
  note h = holdsD [OF d(5) [OF i]]
  have i2: "Suc i < 200" using i d(4) by simp
  have ino: "?ino = as_inode (Suc i) (pad ?f) (i_addrs ?din)" by (subst h(1)) (simp add: as_inode_def pad_def)
  have same: "data_at ?B ?ino e = data_at ?B ?din e" "owns ?B ?ino = owns ?B ?din" for e
    by (rule data_at_cong owns_cong; simp)+
  have "?n \<le> mf_size ?f + BSIZE" by (simp add: BSIZE_def)
  then have "?n < 2 ^ 32" using sz by (simp add: MAXFILE_def NDIRECT_def NINDIRECT_def BSIZE_def)
  then have rg: "\<forall>g \<in> set ?F. mf_type g < 2 ^ 16 \<and> mf_size g < 2 ^ 32"
    using d(7) [of ?f] i by (intro ranges_update [OF assms(1)]) (simp_all add: pad_def)
  have "\<exists>s'. winode (Suc i) ?ino s = Ok s' \<and> mk_inv s' ?F"
  proof (rule store_file [OF d(1), where as = "i_addrs ?din"])
    show "freeinode s = Suc (length ?F)" "length ?F < 200" "i < length ?F" using d(2,4) i by simp_all
    show "freeblock s = 29 + blocks_taken ?F" using d(3) blocks_taken_update [OF i, of "pad ?f"] by (simp add: pad_def)
    show "?ino = as_inode (Suc i) (?F ! i) (i_addrs ?din)" "data_at ?B ?ino (mf_data (?F ! i))"
      using ino i h(2) same by (simp_all add: pad_def)
    show "\<forall>g \<in> set ?F. mf_type g < 2 ^ 16 \<and> mf_size g < 2 ^ 32" by (rule rg)
  next
    fix j assume j: "j < length ?F" "j \<noteq> i"
    then show "holds ?B (Suc j) (?F ! j) \<and> apart ?B ?ino (inode_of ?B (Suc j))"
      using d(5) [of j] d(6) [OF i, of j] by (simp add: apart_def same)
  qed (use d(6) in simp)
  then show ?thesis by (simp add: fix_size_def rinode_ok [OF d(1) i2] h(4))
qed

end
