(* ===== verification/Mkfs_Tree.thy ===== *)
theory Mkfs_Tree
  imports Mkfs
begin

text \<open>
  What \<open>mkfs\<close> makes of a directory tree: the list of files a tree stands for, the proof that \<open>add_dir\<close> of
  \<open>src/P1/xv6/xv6/tools/mkfs.c\<close> puts exactly these on the image, that their directories form the tree, and that a kernel started on the
  image reads the files back.
\<close>

section \<open>The files of a tree\<close>

text \<open>
  What the program is to make of a tree: the list of files, inode 1 first, each with its type, its data and its size. A directory's size is
  rounded up past its entries.
\<close>

definition app :: "nat \<Rightarrow> byte list \<Rightarrow> mfile list \<Rightarrow> mfile list" where
  "app cur p F = F[cur - 1 := extend p (F ! (cur - 1))]"

fun place_dir :: "(byte list \<times> host) list option \<Rightarrow> nat \<Rightarrow> nat \<Rightarrow> mfile list \<Rightarrow> mfile list"
  and place_entries :: "(byte list \<times> host) list \<Rightarrow> nat \<Rightarrow> mfile list \<Rightarrow> mfile list" where
  "place_dir None cur parent F = app cur (dirent parent dotdot) (app cur (dirent cur dot) F)"
| "place_dir (Some es) cur parent F =
     (let G = place_entries es cur (app cur (dirent parent dotdot) (app cur (dirent cur dot) F))
      in G[cur - 1 := pad (G ! (cur - 1))])"
| "place_entries [] cur F = F"
| "place_entries ((name, h) # es) cur F =
     (if name = dot \<or> name = dotdot then place_entries es cur F
      else place_entries es cur (app cur (dirent (Suc (length F)) name)
        (case h of HBad \<Rightarrow> F | HNoStream \<Rightarrow> F
         | HFile ps \<Rightarrow> F @ [\<lparr>mf_type = T_FILE, mf_data = concat ps, mf_size = length (concat ps)\<rparr>]
         | HDir ds \<Rightarrow> place_dir (Some ds) (Suc (length F)) cur (F @ [\<lparr>mf_type = T_DIR, mf_data = [], mf_size = 0\<rparr>]))))"

fun readable :: "host \<Rightarrow> bool" where
  "readable (HFile ps) = True"
| "readable (HDir es) = list_all (\<lambda>(name, h). name = dot \<or> name = dotdot \<or> readable h) es"
| "readable HBad = False"
| "readable HNoStream = False"

text \<open>Only the file being filled grows, and new ones are added.\<close>

definition fgrown :: "nat \<Rightarrow> mfile list \<Rightarrow> mfile list \<Rightarrow> bool" where
  "fgrown cur F G \<longleftrightarrow> 0 < cur \<and> cur \<le> length F \<and> length F \<le> length G \<and> (\<forall>j < length F. j \<noteq> cur - 1 \<longrightarrow> G ! j = F ! j) \<and>
     length (mf_data (F ! (cur - 1))) \<le> length (mf_data (G ! (cur - 1)))"

lemma fgrown_refl: "0 < cur \<Longrightarrow> cur \<le> length F \<Longrightarrow> fgrown cur F F"
  by (simp add: fgrown_def)

lemma fgrown_trans: "fgrown cur F G \<Longrightarrow> fgrown cur G H \<Longrightarrow> fgrown cur F H"
  by (auto simp: fgrown_def)

lemma fgrown_index: "fgrown cur F G \<Longrightarrow> cur - 1 < length G"
  by (auto simp: fgrown_def)

lemma fgrown_app: "0 < cur \<Longrightarrow> cur \<le> length F \<Longrightarrow> fgrown cur F (app cur p F)"
  by (simp add: fgrown_def app_def extend_def)

lemma fgrown_pad: "0 < cur \<Longrightarrow> cur \<le> length F \<Longrightarrow> fgrown cur F (F[cur - 1 := pad (F ! (cur - 1))])"
  by (simp add: fgrown_def pad_def)

lemma fgrown_new: "0 < cur \<Longrightarrow> cur \<le> length F \<Longrightarrow> fgrown cur F (F @ fs)"
  by (cases cur) (simp_all add: fgrown_def nth_append)

lemma fgrown_other: "fgrown (Suc (length F)) (F @ [f]) G \<Longrightarrow> 0 < cur \<Longrightarrow> cur \<le> length F \<Longrightarrow> fgrown cur F G"
  by (auto simp: fgrown_def nth_append)

lemma app_simps [simp]: "length (app cur p F) = length F" "0 < cur \<Longrightarrow> cur \<le> length F \<Longrightarrow> app cur p F ! (cur - Suc 0) = extend p (F ! (cur - Suc 0))"
  by (simp_all add: app_def)

lemma blocks_taken_grown:
  assumes "fgrown cur F G"
  shows "blocks_taken F \<le> blocks_taken G"
proof -
  let ?c = "\<lambda>f. cost (length (mf_data f))"
  have "length (mf_data (F ! j)) \<le> length (mf_data (G ! j))" if "j < length F" for j
    using assms that by (cases "j = cur - 1") (simp_all add: fgrown_def)
  then have "map ?c F ! j \<le> map ?c (take (length F) G) ! j" if "j < length F" for j
    using assms that by (simp add: fgrown_def cost_mono)
  then have "sum_list (map ?c F) \<le> sum_list (map ?c (take (length F) G))"
    using assms by (intro sum_list_mono2) (simp_all add: fgrown_def)
  also have "\<dots> \<le> sum_list (map ?c (take (length F) G @ drop (length F) G))" unfolding map_append sum_list_append by simp
  finally show ?thesis by (simp add: blocks_taken_def)
qed

lemma fits_grown:
  assumes "fgrown cur F G" and "fits G"
  shows "fits F"
proof -
  have "length (mf_data (F ! j)) \<le> MAXFILE * BSIZE" if "j < length F" for j
  proof -
    have "length (mf_data (F ! j)) \<le> length (mf_data (G ! j))" "j < length G"
      using assms(1) that by (cases "j = cur - 1"; simp add: fgrown_def)+
    moreover from this have "length (mf_data (G ! j)) \<le> MAXFILE * BSIZE" using assms(2) by (simp add: fits_def)
    ultimately show ?thesis by simp
  qed
  then show ?thesis using assms blocks_taken_grown [OF assms(1)] by (auto simp: fits_def fgrown_def in_set_conv_nth)
qed

definition unpadded :: "nat \<Rightarrow> mfile list \<Rightarrow> bool" where
  "unpadded cur F \<longleftrightarrow> 0 < cur \<and> cur \<le> length F \<and> mf_size (F ! (cur - 1)) = length (mf_data (F ! (cur - 1)))"

lemma unpadded_app: "unpadded cur F \<Longrightarrow> unpadded cur (app cur p F)"
  by (cases cur) (simp_all add: unpadded_def extend_def app_def)

definition placed :: "host \<Rightarrow> nat \<Rightarrow> mfile list \<Rightarrow> mfile list" where
  "placed h cur F = (case h of HBad \<Rightarrow> F | HNoStream \<Rightarrow> F
     | HFile ps \<Rightarrow> F @ [\<lparr>mf_type = T_FILE, mf_data = concat ps, mf_size = length (concat ps)\<rparr>]
     | HDir ds \<Rightarrow> place_dir (Some ds) (Suc (length F)) cur (F @ [\<lparr>mf_type = T_DIR, mf_data = [], mf_size = 0\<rparr>]))"

lemma place_entries_Cons:
  "\<not> (name = dot \<or> name = dotdot) \<Longrightarrow>
   place_entries ((name, h) # es) cur F = place_entries es cur (app cur (dirent (Suc (length F)) name) (placed h cur F))"
  by (simp add: placed_def)

lemma placed_grown:
  assumes "0 < cur" "cur \<le> length F"
    and "\<And>ds. h = HDir ds \<Longrightarrow> fgrown (Suc (length F)) (F @ [\<lparr>mf_type = T_DIR, mf_data = [], mf_size = 0\<rparr>]) (placed h cur F)"
  shows "fgrown cur F (placed h cur F) \<and> placed h cur F ! (cur - 1) = F ! (cur - 1)"
proof (cases h)
  case (HDir ds)
  note g = assms(3) [OF HDir]
  then have "placed h cur F ! (cur - 1) = F ! (cur - 1)" using assms(1,2) by (auto simp: fgrown_def nth_append)
  then show ?thesis using fgrown_other [OF g] assms(1,2) by blast
qed (use assms(1,2) fgrown_refl fgrown_new in \<open>auto simp: placed_def nth_append\<close>)

lemma place_grown:
  "0 < cur \<Longrightarrow> cur \<le> length F \<Longrightarrow> fgrown cur F (place_dir d cur parent F)"
  "0 < cur \<Longrightarrow> cur \<le> length F \<Longrightarrow> fgrown cur F (place_entries es cur F) \<and> (unpadded cur F \<longrightarrow> unpadded cur (place_entries es cur F))"
proof (induction d cur parent F and es cur F rule: place_dir_place_entries.induct)
  case (1 cur parent F)
  then show ?case using fgrown_app [of cur F] fgrown_app [of cur "app cur (dirent cur dot) F"] fgrown_trans by (simp, blast)
next
  case (2 es cur parent F)
  let ?G = "app cur (dirent parent dotdot) (app cur (dirent cur dot) F)"
  have "fgrown cur F ?G" using 2(2,3) fgrown_app [of cur F] fgrown_app [of cur "app cur (dirent cur dot) F"] fgrown_trans by (simp, blast)
  moreover have g: "fgrown cur ?G (place_entries es cur ?G)" using 2 by simp
  moreover have "fgrown cur (place_entries es cur ?G) (place_dir (Some es) cur parent F)"
    using g 2(2) fgrown_pad [of cur "place_entries es cur ?G"] by (simp add: Let_def fgrown_def)
  ultimately show ?case using fgrown_trans by blast
next
  case (3 cur F)
  then show ?case by (simp add: fgrown_refl)
next
  case (4 name h es cur F)
  show ?case
  proof (cases "name = dot \<or> name = dotdot")
    case True
    then show ?thesis using 4(1) 4(4,5) by simp
  next
    case False
    define F1 where "F1 = placed h cur F"
    have "fgrown cur F F1 \<and> F1 ! (cur - 1) = F ! (cur - 1)"
      unfolding F1_def
    proof (rule placed_grown [OF 4(4,5)])
      fix ds assume "h = HDir ds"
      with 4(2) [OF False this] show "fgrown (Suc (length F)) (F @ [\<lparr>mf_type = T_DIR, mf_data = [], mf_size = 0\<rparr>]) (placed h cur F)"
        by (simp add: placed_def)
    qed
    then have 1: "fgrown cur F F1" "unpadded cur F \<longrightarrow> unpadded cur F1" by (auto simp: unpadded_def fgrown_def)
    let ?G = "app cur (dirent (Suc (length F)) name) F1"
    have c: "cur \<le> length F1" using 1(1) by (simp add: fgrown_def)
    have 2: "fgrown cur F1 ?G" using fgrown_app 4(4) c by simp
    have 3: "fgrown cur ?G (place_entries es cur ?G) \<and> (unpadded cur ?G \<longrightarrow> unpadded cur (place_entries es cur ?G))"
      using 4(3) [OF False] 4(4) c by (simp add: F1_def placed_def)
    have "place_entries ((name, h) # es) cur F = place_entries es cur ?G" using place_entries_Cons [OF False] by (simp only: F1_def)
    then show ?thesis using 1 2 3 fgrown_trans unpadded_app by metis
  qed
qed

section \<open>The program makes the files\<close>

lemma iappend_app:
  assumes "mk_inv s F" and "unpadded cur F" and "fits (app cur p F)"
  shows "\<exists>s'. iappend cur p s = Ok s' \<and> mk_inv s' (app cur p F)"
proof -
  obtain i where "cur = Suc i" "i < length F" using assms(2) by (cases cur) (auto simp: unpadded_def)
  then show ?thesis using iappend_inv [OF assms(1), of i p] assms(2,3) by (simp add: app_def unpadded_def)
qed

lemma extend_extend [simp]: "extend q (extend p f) = extend (p @ q) f"
  by (simp add: extend_def)

lemma append_pieces_inv:
  assumes "mk_inv s F" and "unpadded cur F" and "fits (app cur (concat ps) F)"
  shows "\<exists>s'. append_pieces cur ps s = Ok s' \<and> mk_inv s' (app cur (concat ps) F)"
  using assms
proof (induction ps arbitrary: s F)
  case Nil
  then show ?case by (simp add: app_def extend_def)
next
  case (Cons p ps)
  have c: "0 < cur" "cur \<le> length F" using Cons.prems(2) by (simp_all add: unpadded_def)
  then have e: "app cur (concat ps) (app cur p F) = app cur (concat (p # ps)) F" by (cases cur) (simp_all add: app_def)
  have "fits (app cur (concat ps) (app cur p F))" using Cons.prems(3) by (simp only: e)
  then have "fits (app cur p F)" using fits_grown [OF fgrown_app [of cur "app cur p F"]] c by simp
  from iappend_app [OF Cons.prems(1,2) this] obtain s1 where 1: "iappend cur p s = Ok s1" "mk_inv s1 (app cur p F)" by blast
  from Cons.IH [OF 1(2) unpadded_app [OF Cons.prems(2)]] Cons.prems(3) show ?case by (simp add: 1(1) e)
qed

lemma add_place:
  "mk_inv s F \<Longrightarrow> unpadded cur F \<Longrightarrow> (\<forall>es. d = Some es \<longrightarrow> readable (HDir es)) \<Longrightarrow> fits (place_dir d cur parent F) \<Longrightarrow>
    \<exists>s'. add_dir d cur parent s = Ok s' \<and> mk_inv s' (place_dir d cur parent F)"
  "mk_inv s F \<Longrightarrow> unpadded cur F \<Longrightarrow> readable (HDir es) \<Longrightarrow> fits (place_entries es cur F) \<Longrightarrow>
    \<exists>s'. add_entries es cur s = Ok s' \<and> mk_inv s' (place_entries es cur F)"
proof (induction d cur parent F and es cur F arbitrary: s and s rule: place_dir_place_entries.induct)
  case (1 cur parent F)
  let ?F1 = "app cur (dirent cur dot) F"
  have c: "0 < cur" "cur \<le> length F" using 1(2) by (simp_all add: unpadded_def)
  have ft: "fits (app cur (dirent parent dotdot) ?F1)" using 1(4) by simp
  have "fits ?F1" using fits_grown [OF fgrown_app [of cur ?F1] ft] c by simp
  from iappend_app [OF 1(1,2) this] obtain s1 where s1: "iappend cur (dirent cur dot) s = Ok s1" "mk_inv s1 ?F1" by blast
  from iappend_app [OF s1(2) unpadded_app [OF 1(2)] ft] show ?case by (auto simp: s1(1))
next
  case (2 es cur parent F)
  let ?F1 = "app cur (dirent cur dot) F" and ?G = "app cur (dirent parent dotdot) (app cur (dirent cur dot) F)"
  have c: "0 < cur" "cur \<le> length F" using 2(3) by (simp_all add: unpadded_def)
  have up: "unpadded cur ?G" using 2(3) by (intro unpadded_app)
  let ?H = "place_entries es cur ?G"
  have gH: "fgrown cur ?G ?H" and uH: "unpadded cur ?H" using place_grown(2) [of cur ?G es] c up by simp_all
  have cH: "cur \<le> length ?H" using gH by (simp add: fgrown_def)
  have ftH: "fits ?H" using fits_grown [OF fgrown_pad [OF c(1) cH]] 2(5) by (simp add: Let_def)
  have ftG: "fits ?G" using fits_grown [OF gH ftH] .
  have "fits ?F1" using fits_grown [OF fgrown_app [of cur ?F1] ftG] c by simp
  from iappend_app [OF 2(2,3) this] obtain s1 where s1: "iappend cur (dirent cur dot) s = Ok s1" "mk_inv s1 ?F1" by blast
  from iappend_app [OF s1(2) unpadded_app [OF 2(3)] ftG] obtain s2 where s2: "iappend cur (dirent parent dotdot) s1 = Ok s2" "mk_inv s2 ?G" by blast
  from 2(1) [OF s2(2) up _ ftH] 2(4) obtain s3 where s3: "add_entries es cur s2 = Ok s3" "mk_inv s3 ?H" by auto
  obtain i where i: "cur = Suc i" using c(1) by (cases cur) auto
  have "mf_size (?H ! i) \<le> MAXFILE * BSIZE" using uH ftH i cH by (simp add: unpadded_def fits_def)
  from fix_size_inv [OF s3(2) _ this] cH i obtain s4 where "fix_size cur s3 = Ok s4" "mk_inv s4 (?H[cur - 1 := pad (?H ! (cur - 1))])" by auto
  then show ?case by (simp add: s1(1) s2(1) s3(1) Let_def)
next
  case (3 cur F)
  then show ?case by simp
next
  case (4 name h es cur F)
  show ?case
  proof (cases "name = dot \<or> name = dotdot")
    case True
    then show ?thesis using 4(1) [OF True 4(4,5)] 4(6,7) by simp
  next
    case False
    let ?child = "Suc (length F)" and ?F1 = "placed h cur F"
    let ?G = "app cur (dirent (Suc (length F)) name) (placed h cur F)"
    have c: "0 < cur" "cur \<le> length F" using 4(5) by (simp_all add: unpadded_def)
    have "fgrown cur F ?F1 \<and> ?F1 ! (cur - 1) = F ! (cur - 1)"
    proof (rule placed_grown [OF c])
      fix ds assume "h = HDir ds"
      then show "fgrown (Suc (length F)) (F @ [\<lparr>mf_type = T_DIR, mf_data = [], mf_size = 0\<rparr>]) ?F1"
        using place_grown(1) [of "Suc (length F)" "F @ [\<lparr>mf_type = T_DIR, mf_data = [], mf_size = 0\<rparr>]" "Some ds" cur] by (simp add: placed_def)
    qed
    then have F1: "fgrown cur F ?F1" "unpadded cur ?F1" using 4(5) by (auto simp: unpadded_def fgrown_def)
    have c1: "cur \<le> length ?F1" using F1(1) by (simp add: fgrown_def)
    have gG: "fgrown cur ?G (place_entries es cur ?G)" using place_grown(2) c c1 by simp
    have ftG: "fits ?G" using fits_grown [OF gG] 4(7) place_entries_Cons [OF False] by simp
    have ft1: "fits ?F1" using fits_grown [OF fgrown_app [OF c(1) c1] ftG] .
    have rd: "readable h" "readable (HDir es)" using 4(6) False by auto
    have "\<exists>s1. (case h of
          HBad \<Rightarrow> Panic ''open''
        | HDir ds \<Rightarrow> kbind (mk_ialloc T_DIR s) (\<lambda>(child, s). kbind (add_dir (Some ds) child cur s) (\<lambda>s. Ok (child, s)))
        | HNoStream \<Rightarrow> kbind (mk_ialloc T_DIR s) (\<lambda>(child, s). kbind (add_dir None child cur s) (\<lambda>s. Ok (child, s)))
        | HFile ps \<Rightarrow> kbind (mk_ialloc T_FILE s) (\<lambda>(child, s). kbind (append_pieces child ps s) (\<lambda>s. Ok (child, s)))) = Ok (?child, s1) \<and> mk_inv s1 ?F1"
    proof (cases h)
      case (HFile ps)
      let ?n = "\<lparr>mf_type = T_FILE, mf_data = [], mf_size = 0\<rparr>"
      have e: "app ?child (concat ps) (F @ [?n]) = ?F1" by (simp add: app_def extend_def placed_def HFile list_update_append)
      have "length F < 199" using ft1 HFile by (simp add: fits_def placed_def)
      from ialloc_inv [OF 4(4) this, of T_FILE] obtain t where t: "mk_ialloc T_FILE s = Ok (?child, t)" "mk_inv t (F @ [?n])" by (auto simp: T_FILE_def)
      have "unpadded ?child (F @ [?n])" by (simp add: unpadded_def)
      from append_pieces_inv [OF t(2) this, of ps] ft1 show ?thesis by (auto simp: HFile t(1) e)
    next
      case (HDir ds)
      let ?n = "\<lparr>mf_type = T_DIR, mf_data = [], mf_size = 0\<rparr>"
      have e: "place_dir (Some ds) ?child cur (F @ [?n]) = ?F1" by (simp add: placed_def HDir)
      have "fgrown ?child (F @ [?n]) ?F1" using place_grown(1) [of ?child "F @ [?n]" "Some ds" cur] unfolding e by simp
      then have "length F < 199" using ft1 by (simp add: fits_def fgrown_def)
      from ialloc_inv [OF 4(4) this, of T_DIR] obtain t where t: "mk_ialloc T_DIR s = Ok (?child, t)" "mk_inv t (F @ [?n])" by (auto simp: T_DIR_def)
      have "unpadded ?child (F @ [?n])" by (simp add: unpadded_def)
      from 4(2) [OF False HDir t(2) this] rd(1) ft1 obtain u where "add_dir (Some ds) ?child cur t = Ok u" "mk_inv u ?F1" unfolding e HDir by auto
      then show ?thesis by (simp add: HDir t(1) del: add_dir.simps)
    qed (use rd in simp_all)
    then obtain s1 where s1: "(case h of
          HBad \<Rightarrow> Panic ''open''
        | HDir ds \<Rightarrow> kbind (mk_ialloc T_DIR s) (\<lambda>(child, s). kbind (add_dir (Some ds) child cur s) (\<lambda>s. Ok (child, s)))
        | HNoStream \<Rightarrow> kbind (mk_ialloc T_DIR s) (\<lambda>(child, s). kbind (add_dir None child cur s) (\<lambda>s. Ok (child, s)))
        | HFile ps \<Rightarrow> kbind (mk_ialloc T_FILE s) (\<lambda>(child, s). kbind (append_pieces child ps s) (\<lambda>s. Ok (child, s)))) = Ok (?child, s1)" "mk_inv s1 ?F1" by blast
    from iappend_app [OF s1(2) F1(2) ftG] obtain s2 where s2: "iappend cur (dirent ?child name) s1 = Ok s2" "mk_inv s2 ?G" by blast
    from 4(3) [OF False] s2(2) unpadded_app [OF F1(2)] rd(2) 4(7) obtain s3 where "add_entries es cur s2 = Ok s3" "mk_inv s3 (place_entries es cur ?G)"
      unfolding place_entries_Cons [OF False] placed_def by blast
    then show ?thesis using False s1(1) s2(1) by (simp only: add_entries.simps if_False kbind.simps prod.case place_entries_Cons [OF False]) simp
  qed
qed

section \<open>The files form the tree\<close>

definition real_entries :: "(byte list \<times> host) list \<Rightarrow> (byte list \<times> host) list" where
  "real_entries es = filter (\<lambda>e. fst e \<noteq> dot \<and> fst e \<noteq> dotdot) es"

definition dir_data :: "nat \<Rightarrow> nat \<Rightarrow> (byte list \<times> host) list \<Rightarrow> nat list \<Rightarrow> byte list" where
  "dir_data i parent es cs = dirent i dot @ dirent parent dotdot @ concat (map2 (\<lambda>e c. dirent c (fst e)) es cs)"

text \<open>
  \<open>stored F i parent h\<close>: the files \<open>F\<close> hold the tree \<open>h\<close> at inode \<open>i\<close>, the entries of a directory pointing to inodes of their own that
  hold its members.
\<close>

inductive stored :: "mfile list \<Rightarrow> nat \<Rightarrow> nat \<Rightarrow> host \<Rightarrow> bool" for F where
  stored_file: "0 < i \<Longrightarrow> i \<le> length F \<Longrightarrow> F ! (i - 1) = \<lparr>mf_type = T_FILE, mf_data = concat ps, mf_size = length (concat ps)\<rparr> \<Longrightarrow>
    stored F i parent (HFile ps)"
| stored_dir: "0 < i \<Longrightarrow> i \<le> length F \<Longrightarrow> d = dir_data i parent (real_entries es) cs \<Longrightarrow>
    F ! (i - 1) = \<lparr>mf_type = T_DIR, mf_data = d, mf_size = (length d div BSIZE + 1) * BSIZE\<rparr> \<Longrightarrow>
    distinct cs \<Longrightarrow> list_all2 (\<lambda>e c. i < c \<and> stored F c i (snd e)) (real_entries es) cs \<Longrightarrow> stored F i parent (HDir es)"

lemma place_stored:
  "0 < cur \<Longrightarrow> cur \<le> length F \<Longrightarrow> d = Some es \<Longrightarrow> readable (HDir es) \<Longrightarrow> F ! (cur - 1) = \<lparr>mf_type = T_DIR, mf_data = [], mf_size = 0\<rparr> \<Longrightarrow>
    G = place_dir d cur parent F \<Longrightarrow> length G \<le> length H \<Longrightarrow> H ! (cur - 1) = G ! (cur - 1) \<Longrightarrow>
    (\<And>j. length F \<le> j \<Longrightarrow> j < length G \<Longrightarrow> H ! j = G ! j) \<Longrightarrow> stored H cur parent (HDir es)"
  "0 < cur \<Longrightarrow> cur \<le> length F \<Longrightarrow> readable (HDir ds) \<Longrightarrow> G = place_entries ds cur F \<Longrightarrow> length G \<le> length H \<Longrightarrow>
    (\<And>j. length F \<le> j \<Longrightarrow> j < length G \<Longrightarrow> H ! j = G ! j) \<Longrightarrow>
    \<exists>cs. list_all2 (\<lambda>e c. length F < c \<and> stored H c cur (snd e)) (real_entries ds) cs \<and> distinct cs \<and>
      G ! (cur - 1) = extend (concat (map2 (\<lambda>e c. dirent c (fst e)) (real_entries ds) cs)) (F ! (cur - 1))"
proof (induction d cur parent F and ds cur F arbitrary: es G H and G H rule: place_dir_place_entries.induct)
  case (1 cur parent F)
  then show ?case by simp
next
  case (2 es' cur parent F)
  let ?F2 = "app cur (dirent parent dotdot) (app cur (dirent cur dot) F)"
  let ?G = "place_entries es' cur ?F2"
  have es: "es' = es" using 2(4) by simp
  have gG: "fgrown cur ?F2 ?G" using place_grown(2) [of cur ?F2 es'] 2(2,3) by simp
  have cG: "cur - 1 < length ?G" by (rule fgrown_index [OF gG])
  have G: "G = ?G[cur - 1 := pad (?G ! (cur - 1))]" using 2(7) by (simp add: Let_def)
  have "H ! j = ?G ! j" if "length ?F2 \<le> j" "j < length ?G" for j
    using that 2(10) [of j] 2(2,3) by (simp add: G)
  with 2(1) [of ?G H] 2(2,3,5,8) obtain cs where
    cs: "list_all2 (\<lambda>e c. length F < c \<and> stored H c cur (snd e)) (real_entries es) cs" "distinct cs"
      "?G ! (cur - 1) = extend (concat (map2 (\<lambda>e c. dirent c (fst e)) (real_entries es) cs)) (?F2 ! (cur - 1))"
    by (auto simp: es G)
  let ?d = "dir_data cur parent (real_entries es) cs"
  have "?G ! (cur - 1) = \<lparr>mf_type = T_DIR, mf_data = ?d, mf_size = length ?d\<rparr>"
    using cs(3) 2(2,3,6) by (simp add: dir_data_def) (simp add: extend_def add.assoc)
  then have "H ! (cur - 1) = \<lparr>mf_type = T_DIR, mf_data = ?d, mf_size = (length ?d div BSIZE + 1) * BSIZE\<rparr>"
    using 2(9) cG by (simp add: G pad_def)
  moreover have "list_all2 (\<lambda>e c. cur < c \<and> stored H c cur (snd e)) (real_entries es) cs"
    using cs(1) by (rule list_all2_mono) (use 2(3) in auto)
  ultimately show ?case using 2(2,8) cG by (intro stored_dir [OF 2(2) _ refl _ cs(2)]) (simp_all add: G)
next
  case (3 cur F)
  then show ?case by (auto simp: real_entries_def extend_def)
next
  case (4 name h ds cur F)
  show ?case
  proof (cases "name = dot \<or> name = dotdot")
    case True
    then have "real_entries ((name, h) # ds) = real_entries ds" by (auto simp: real_entries_def)
    with True 4(1) [OF True 4(4,5), of G H] 4(6-9) show ?thesis by simp
  next
    case False
    let ?c = "Suc (length F)" and ?F1 = "placed h cur F"
    let ?G1 = "app cur (dirent (Suc (length F)) name) (placed h cur F)"
    have re: "real_entries ((name, h) # ds) = (name, h) # real_entries ds" using False by (auto simp: real_entries_def)
    have G: "G = place_entries ds cur ?G1" using 4(7) place_entries_Cons [OF False] by simp
    have rd: "readable h" "readable (HDir ds)" using 4(6) False by auto
    have gd: "fgrown ?c (F @ [\<lparr>mf_type = T_DIR, mf_data = [], mf_size = 0\<rparr>]) ?F1" if "h = HDir es" for es
      using place_grown(1) [of ?c "F @ [\<lparr>mf_type = T_DIR, mf_data = [], mf_size = 0\<rparr>]" "Some es" cur] by (simp add: placed_def that)
    have F1: "fgrown cur F ?F1" "?F1 ! (cur - 1) = F ! (cur - 1)" using placed_grown [OF 4(4,5) gd] by blast+
    have c1: "cur \<le> length ?F1" "?c \<le> length ?F1"
      using F1(1) rd(1) gd by (cases h; simp add: fgrown_def placed_def)+
    have g2: "fgrown cur ?G1 G" using place_grown(2) [of cur ?G1 ds] 4(4) c1(1) by (simp add: G)
    have HF1: "H ! j = ?F1 ! j" if "length F \<le> j" "j < length ?F1" for j
    proof -
      have "j \<noteq> cur - 1" "j < length G" using that 4(4,5) g2 by (auto simp: fgrown_def)
      then have "H ! j = ?G1 ! j" using 4(9) that(1,2) g2 by (auto simp: fgrown_def)
      then show ?thesis using \<open>j \<noteq> cur - 1\<close> by (simp add: app_def)
    qed
    have lH: "length ?F1 \<le> length H" using g2 4(8) by (simp add: fgrown_def)
    have st: "stored H ?c cur h"
    proof (cases h)
      case (HFile ps)
      then show ?thesis using HF1 [of "length F"] c1(2) lH by (auto simp: placed_def intro!: stored_file)
    next
      case (HDir es)
      show ?thesis unfolding HDir
        by (rule 4(2) [OF False HDir _ _ refl _ _ refl]) (use HF1 c1(2) lH rd(1) HDir in \<open>simp_all add: placed_def\<close>)
    qed (use rd in simp_all)
    have "\<exists>cs. list_all2 (\<lambda>e c. length ?G1 < c \<and> stored H c cur (snd e)) (real_entries ds) cs \<and> distinct cs \<and>
        G ! (cur - 1) = extend (concat (map2 (\<lambda>e c. dirent c (fst e)) (real_entries ds) cs)) (?G1 ! (cur - 1))"
      by (rule 4(3) [OF False, folded placed_def, OF 4(4) _ rd(2) G 4(8)]) (use c1 4(9) in simp_all)
    then obtain cs where cs: "list_all2 (\<lambda>e c. length ?G1 < c \<and> stored H c cur (snd e)) (real_entries ds) cs" "distinct cs"
        "G ! (cur - 1) = extend (concat (map2 (\<lambda>e c. dirent c (fst e)) (real_entries ds) cs)) (?G1 ! (cur - 1))" by blast
    have "?c \<notin> set cs" using cs(1) c1(2) by (auto simp: list_all2_conv_all_nth in_set_conv_nth)
    moreover have "list_all2 (\<lambda>e c. length F < c \<and> stored H c cur (snd e)) (real_entries ds) cs"
      using cs(1) c1(2) by (auto elim!: list_all2_mono)
    ultimately show ?thesis using cs(2,3) st 4(4) c1(1) F1(2)
      by (intro exI [of _ "?c # cs"]) (simp add: re)
  qed
qed

section \<open>The image\<close>

lemma zeroed_sectors: "img s = [] \<Longrightarrow> fold (\<lambda>i. wsect i zeroes) [0..<n] s = s\<lparr>img := replicate n zeroes\<rparr>"
  by (induction n) (simp_all add: wsect_def replicate_append_same)

lemma mkfs_inv: "\<exists>s. mkfs 995 200 1024 = Ok s \<and> mk_inv s []"
proof -
  let ?sb = "put_le 4 200 (put_le 4 995 (put_le 4 1024 zeroes 0) 4) 8"
  let ?s = "\<lparr>img = (replicate 1024 zeroes)[1 := ?sb], freeblock = 29, usedblocks = 29, freeinode = 1\<rparr>"
  have "mkfs 995 200 1024 = Ok ?s"
    by (simp add: mkfs_def Let_def zeroed_sectors IPB_def) (simp add: wsect_def)
  moreover have "decode_sb ?sb = \<lparr>sb_size = 1024, sb_nblocks = 995, sb_ninodes = 200\<rparr>"
    by (simp add: decode_sb_def get_put_le_other get_put_le zeroes_def BSIZE_def)
  then have "mk_base ?s" by (simp add: mk_base_def nth_list_update zeroes_def)
  then have "mk_inv ?s []" by (simp add: mk_inv_def blocks_taken_def separate_def)
  ultimately show ?thesis by blast
qed

text \<open>The files of a whole image: the root directory is inode 1.\<close>

definition tree_files :: "(byte list \<times> host) list option \<Rightarrow> mfile list" where
  "tree_files root = place_dir root ROOTINO ROOTINO [\<lparr>mf_type = T_DIR, mf_data = [], mf_size = 0\<rparr>]"

lemma mkfs_main_inv:
  assumes "\<forall>es. root = Some es \<longrightarrow> readable (HDir es)" and "fits (tree_files root)"
  shows "\<exists>s t. mkfs_main root = Ok s \<and> mk_inv t (tree_files root) \<and> disk_of s = vdisk t"
proof -
  let ?n = "\<lparr>mf_type = T_DIR, mf_data = [], mf_size = 0\<rparr>"
  obtain s0 where s0: "mkfs 995 200 1024 = Ok s0" "mk_inv s0 []" using mkfs_inv by blast
  from ialloc_inv [OF s0(2), of T_DIR] obtain s1 where s1: "mk_ialloc T_DIR s0 = Ok (ROOTINO, s1)" "mk_inv s1 [?n]"
    by (auto simp: T_DIR_def ROOTINO_def)
  have "unpadded ROOTINO [?n]" by (simp add: unpadded_def ROOTINO_def)
  from add_place(1) [OF s1(2) this assms(1), of ROOTINO] assms(2) obtain t where
    t: "add_dir root ROOTINO ROOTINO s1 = Ok t" "mk_inv t (tree_files root)" by (auto simp: tree_files_def)
  note b = mk_baseD [OF mk_invD(1) [OF t(2)]]
  have "disk_of (wsect 28 (bitmap (freeblock t)) t) = vdisk t"
    using b(1) by (auto simp: disk_of_def wsect_def vdisk_def fun_eq_iff)
  moreover have "mkfs_main root = Ok (wsect 28 (bitmap (freeblock t)) t)"
    using b by (simp add: mkfs_main_def s0(1) s1(1) t(1) mk_balloc_def IPB_def bitmap_def del: add_dir.simps)
  ultimately show ?thesis using t(2) by blast
qed

lemma tree_files_stored:
  assumes "readable (HDir es)"
  shows "stored (tree_files (Some es)) ROOTINO ROOTINO (HDir es)"
  by (rule place_stored(1) [OF _ _ refl assms _ refl, where F = "[\<lparr>mf_type = T_DIR, mf_data = [], mf_size = 0\<rparr>]"])
    (simp_all add: tree_files_def ROOTINO_def)

text \<open>
  C15. \<open>mkfs\<close> makes a file system. If every file of the tree can be opened and the tree fits (fewer than 200 files and directories, no file
  longer than the block map reaches, all blocks within the 995 of the disk), the program succeeds. The image it writes meets the invariant the
  kernel relies on: the super block describes the layout, metadata is marked in use and free blocks are zero. Every file of the tree has an inode
  of its own with type, size and one link; its block map is well-formed and has exactly the blocks its data needs; its bytes are those of the
  tree, with zeros to the end of the last block; no two files share a block; and the directories lead from the root to every member of the tree.
\<close>
theorem mkfs_image:
  assumes "readable (HDir es)" and "fits (tree_files (Some es))"
  shows "\<exists>s. mkfs_main (Some es) = Ok s \<and> fs_ok ROOTDEV (disk_of s) \<and>
    fs_sb (disk_of s) ROOTDEV = \<lparr>sb_size = 1024, sb_nblocks = 995, sb_ninodes = 200\<rparr> \<and>
    stored (tree_files (Some es)) ROOTINO ROOTINO (HDir es) \<and>
    (\<forall>i < length (tree_files (Some es)). holds (disk_of s) (Suc i) (tree_files (Some es) ! i)) \<and>
    separate (disk_of s) (length (tree_files (Some es)))"
proof -
  from mkfs_main_inv [of "Some es"] assms obtain s t where
    st: "mkfs_main (Some es) = Ok s" "mk_inv t (tree_files (Some es))" "disk_of s = vdisk t" by auto
  note b = mk_invD(1) [OF st(2)]
  from st tree_files_stored [OF assms(1)] show ?thesis
    by (intro exI [of _ s]) (simp add: vdisk_ok [OF b] vdisk_layout(1) [OF b] mk_inv_def)
qed

definition small_tree :: "(byte list \<times> host) list" where
  "small_tree = [([97], HFile [[1, 2], [3]]), ([100], HDir [])]"

lemma small_tree_files:
  "tree_files (Some small_tree) = [\<lparr>mf_type = T_DIR, mf_data = dir_data 1 1 small_tree [2, 3], mf_size = 512\<rparr>,
    \<lparr>mf_type = T_FILE, mf_data = [1, 2, 3], mf_size = 3\<rparr>, \<lparr>mf_type = T_DIR, mf_data = dir_data 3 1 [] [], mf_size = 512\<rparr>]"
  by (simp add: tree_files_def small_tree_def ROOTINO_def app_def extend_def pad_def Let_def dot_def dotdot_def dir_data_def length_dirent
      sizeof_dirent_def BSIZE_def) (simp add: numeral_2_eq_2 numeral_3_eq_3)

lemma small_tree_fits: "readable (HDir small_tree)" "fits (tree_files (Some small_tree))"
proof -
  show "readable (HDir small_tree)" by (simp add: small_tree_def)
  have "length (dir_data 1 1 small_tree [2, 3]) = 64" "length (dir_data 3 1 [] []) = 32"
    by (simp_all add: dir_data_def small_tree_def length_dirent sizeof_dirent_def)
  then show "fits (tree_files (Some small_tree))"
    by (simp add: small_tree_files fits_def blocks_taken_def cost_def nblocks_def BSIZE_def NDIRECT_def MAXFILE_def NINDIRECT_def)
qed

theorem mkfs_image_witness:
  "\<exists>s. mkfs_main (Some small_tree) = Ok s \<and> fs_ok ROOTDEV (disk_of s) \<and> holds (disk_of s) 2 \<lparr>mf_type = T_FILE, mf_data = [1, 2, 3], mf_size = 3\<rparr>"
proof -
  from mkfs_image [OF small_tree_fits] obtain s where "mkfs_main (Some small_tree) = Ok s" "fs_ok ROOTDEV (disk_of s)"
    and h: "\<forall>i < length (tree_files (Some small_tree)). holds (disk_of s) (Suc i) (tree_files (Some small_tree) ! i)" by blast
  moreover have "holds (disk_of s) 2 \<lparr>mf_type = T_FILE, mf_data = [1, 2, 3], mf_size = 3\<rparr>"
    using h [rule_format, of 1] by (simp add: small_tree_files numeral_2_eq_2)
  ultimately show ?thesis by blast
qed

text \<open>The kernel's view of a file of the image.\<close>

lemma holds_file_bytes:
  assumes "data_at B ino d" and "i_size ino = length d"
  shows "file_bytes B ino = d" "no_holes B ino"
proof -
  show "file_bytes B ino = d" using assms by (auto simp: file_bytes_def data_at_def intro: nth_equalityI)
  have "baddr B ino (p div BSIZE) \<noteq> 0" if "p < length d" for p
  proof -
    have "p < BSIZE * nblocks (length d)" using that nblocks_cover [of "length d"] by simp
    then have "p div BSIZE < nblocks (length d)" by (simp add: less_mult_imp_div_less mult.commute)
    moreover have "p div BSIZE < MAXFILE" using that assms(1) by (intro block_less) (simp add: data_at_def)
    ultimately show ?thesis using assms(1) by (simp add: data_at_def)
  qed
  then show "no_holes B ino" using assms by (simp add: no_holes_def data_at_def)
qed

text \<open>
  C24. From the build machine into the kernel: on a disk with the image of a tree, a kernel that caches the inode of a file of the tree, locks it and
  reads \<open>n\<close> bytes at an offset within it gets exactly that part of the bytes the file had when the image was made, and the disk is unchanged.
\<close>
theorem kernel_reads_image:
  assumes "readable (HDir es)" and "fits (tree_files (Some es))" and "mkfs_main (Some es) = Ok s"
    and "i < length (tree_files (Some es))" and f: "tree_files (Some es) ! i = \<lparr>mf_type = T_FILE, mf_data = d, mf_size = length d\<rparr>"
    and k: "sectors k = disk_of s" "disk_room ROOTDEV k"
    and slot: "i_ref (icache k ip) \<ge> 1" "\<not> i_busy (icache k ip)" "\<not> i_valid (icache k ip)" "i_dev (icache k ip) = ROOTDEV" "i_inum (icache k ip) = Suc i"
    and "off \<le> length d" and "off + n < 2 ^ 32"
  shows "\<exists>k1 k2. ilock ip k = Ok k1 \<and> readi ip off n k1 = Ok (int (min n (length d - off)), take n (drop off d), k2) \<and> sectors k2 = disk_of s"
proof -
  from mkfs_main_inv [of "Some es"] assms(1-3) obtain t where t: "mk_inv t (tree_files (Some es))" "disk_of s = vdisk t" by auto
  note b = mk_invD(1) [OF t(1)] and h = holdsD [OF mk_invD(5) [OF t(1) assms(4)]]
  have "Suc i < 200" using assms(4) mk_invD(4) [OF t(1)] by simp
  note ib = inode_block [OF b this]
  let ?B = "vdisk t" and ?ino = "load_inode (vdisk t (ROOTDEV, IBLOCK (Suc i))) (dinode_off (Suc i)) (icache k ip)"
  have same: "i_addrs ?ino = i_addrs (inode_of ?B (Suc i))" "i_size ?ino = i_size (inode_of ?B (Suc i))" "i_type ?ino = i_type (inode_of ?B (Suc i))"
    "i_dev ?ino = ROOTDEV" "i_inum ?ino = Suc i" using slot(4,5) by (simp_all add: load_inode_def inode_of_def)
  have ty: "i_type ?ino = T_FILE" unfolding same(3) by (subst h(1)) (simp add: f)
  have "bc.room k (iblock_off (icache k ip))"
    using disk_room_room [OF k(2)] ib(2) by (simp add: iblock_off_def slot(4,5) k(1) t(2) vdisk_layout [OF b])
  from ilock_load [OF slot(1-3) this] obtain k1 where k1: "ilock ip k = Ok k1" "icache k1 = (icache k)(ip := ?ino\<lparr>i_busy := True, i_valid := True\<rparr>)"
    "bc_inv k1" "sectors k1 = sectors k" "bc_held k1 = bc_held k" "bc_ready k1 = bc_ready k"
    using ty by (auto simp: iblock_off_def slot(4,5) k(1) t(2) T_FILE_def)
  let ?i = "?ino\<lparr>i_busy := True, i_valid := True\<rparr>"
  have "data_at ?B ?i d" using h(2,3) same by (simp add: f data_at_cong [of ?i "inode_of ?B (Suc i)"])
  moreover have "i_size ?i = length d" using h(4) same(2) f by simp
  ultimately have fb: "file_bytes ?B ?i = d" "no_holes ?B ?i" "file_ok ?B ?i" "i_size ?i = length d"
    using holds_file_bytes [of ?B ?i d] by (simp_all add: data_at_def)
  have "disk_room ROOTDEV k1" using k(2) k1 by (simp add: disk_room_def)
  then have "file_open ip k1" using fb ib(2,3) same vdisk_ok [OF b]
    by (simp add: file_open_def file_state_def Let_def k1(2,4) k(1) t(2) vdisk_layout [OF b])
  from readi_file [OF this, of off n] show ?thesis
    using assms(13,14) ty fb k1(1) by (auto simp: k1(2,4) k(1) t(2) T_FILE_def T_DEV_def)
qed

text \<open>A kernel that has just started on a disk, with one inode in its table that is not loaded yet.\<close>

definition boot_disk :: "blocks \<Rightarrow> nat \<Rightarrow> fsys" where
  "boot_disk B i = (mount (binit \<lparr>bufs = (\<lambda>_. \<lparr>b_busy = False, b_valid = False, b_dirty = False, b_dev = 0, b_sector = 0,
       b_prev = 0, b_next = 0, b_qnext = None, b_data = []\<rparr>), idequeue = None, havedisk1 = True, sectors = B, bad_sectors = {}\<rparr>))
     \<lparr>icache := (\<lambda>_. no_inode)(0 := no_inode\<lparr>i_dev := ROOTDEV, i_inum := i, i_ref := 1\<rparr>)\<rparr>"

lemma boot_disk_sel: "sectors (boot_disk B i) = B" "icache (boot_disk B i) 0 = no_inode\<lparr>i_dev := ROOTDEV, i_inum := i, i_ref := 1\<rparr>"
  "havedisk1 (boot_disk B i)" "bad_sectors (boot_disk B i) = {}"
  by (simp_all add: boot_disk_def binit_def Let_def)

lemma boot_disk_room:
  assumes "mk_base t" and "B = vdisk t"
  shows "disk_room ROOTDEV (boot_disk B i)"
proof -
  have bs: "bsized B" using vdisk_ok [OF assms(1)] assms(2) by (simp add: fs_ok_def)
  let ?s = "\<lparr>bufs = (\<lambda>_. \<lparr>b_busy = False, b_valid = False, b_dirty = False, b_dev = 0, b_sector = 0,
       b_prev = 0, b_next = 0, b_qnext = None, b_data = []\<rparr>), idequeue = None, havedisk1 = True, sectors = B, bad_sectors = {}\<rparr> :: bcache"
  have "cold ?s" using bs by (simp add: cold_def bsized_def)
  from binit_inv [OF this] have "bc_inv (boot_disk B i)" "bc_held (boot_disk B i) = Map.empty" by (simp_all add: boot_disk_def)
  then show ?thesis unfolding disk_room_def boot_disk_sel assms(2) vdisk_layout [OF assms(1)]
    by (simp add: bc_ready_def boot_disk_sel ROOTDEV_def)
qed

theorem kernel_reads_image_witness:
  "\<exists>s k1 k2. mkfs_main (Some small_tree) = Ok s \<and> ilock 0 (boot_disk (disk_of s) 2) = Ok k1 \<and> readi 0 1 10 k1 = Ok (2, [2, 3], k2)"
proof -
  from mkfs_main_inv [of "Some small_tree"] small_tree_fits obtain s t where
    s: "mkfs_main (Some small_tree) = Ok s" "mk_inv t (tree_files (Some small_tree))" "disk_of s = vdisk t" by auto
  let ?k = "boot_disk (disk_of s) 2"
  note room = boot_disk_room [OF mk_invD(1) [OF s(2)] s(3), of 2]
  have i: "1 < length (tree_files (Some small_tree))" "tree_files (Some small_tree) ! 1 = \<lparr>mf_type = T_FILE, mf_data = [1, 2, 3], mf_size = length [1, 2, 3 :: byte]\<rparr>"
    by (simp_all add: small_tree_files)
  have slot: "i_ref (icache ?k 0) \<ge> 1" "\<not> i_busy (icache ?k 0)" "\<not> i_valid (icache ?k 0)" "i_dev (icache ?k 0) = ROOTDEV" "i_inum (icache ?k 0) = Suc 1"
    by (simp_all add: boot_disk_sel no_inode_def)
  from kernel_reads_image [OF small_tree_fits s(1) i boot_disk_sel(1) room slot, of 1 10] s(1) show ?thesis by auto
qed

text \<open>
  The size of a directory is one block past its last entry: if the entries, \<open>.\<close> and \<open>..\<close> included, fill their last block, the size covers a block
  the directory does not have, which the kernel allocates on the first lookup that reads so far.
\<close>
lemma directory_hole:
  assumes "stored F i parent (HDir es)" and "holds B i (F ! (i - 1))"
  shows "no_holes B (inode_of B i) \<longleftrightarrow> (2 + length (real_entries es)) mod 32 \<noteq> 0"
proof -
  from assms(1) obtain d cs where d: "d = dir_data i parent (real_entries es) cs"
      "F ! (i - 1) = \<lparr>mf_type = T_DIR, mf_data = d, mf_size = (length d div BSIZE + 1) * BSIZE\<rparr>" "length (real_entries es) = length cs"
    by cases (auto dest: list_all2_lengthD)
  note h = holdsD [OF assms(2)]
  have "length (concat (map2 (\<lambda>e c. dirent c (fst e)) xs cs)) = 16 * length cs" if "length xs = length cs" for xs :: "(byte list \<times> host) list"
    using that by (induction xs cs rule: list_induct2) (simp_all add: length_dirent sizeof_dirent_def)
  then have len: "length d = 16 * (2 + length (real_entries es))"
    using d(1,3) by (simp add: dir_data_def length_dirent sizeof_dirent_def)
  have da: "data_at B (inode_of B i) d" and sz: "i_size (inode_of B i) = (length d div BSIZE + 1) * BSIZE" using h(2,4) d(2) by simp_all
  let ?k = "length d div BSIZE"
  have "length d mod BSIZE = 0 \<longleftrightarrow> (2 + length (real_entries es)) mod 32 = 0"
    unfolding len BSIZE_def using mult_mod_right [of 16 "2 + length (real_entries es)" 32] by auto
  moreover have "no_holes B (inode_of B i) \<longleftrightarrow> length d mod BSIZE \<noteq> 0"
  proof
    assume nh: "no_holes B (inode_of B i)"
    then have k: "(?k + 1) * BSIZE \<le> MAXFILE * BSIZE" by (simp add: no_holes_def sz)
    then have km: "?k < MAXFILE" by (simp add: BSIZE_def)
    have "?k * BSIZE < i_size (inode_of B i)" "?k * BSIZE div BSIZE = ?k" by (simp_all add: sz BSIZE_def)
    then have "baddr B (inode_of B i) ?k \<noteq> 0" using nh unfolding no_holes_def by metis
    moreover have "baddr B (inode_of B i) ?k = 0 \<longleftrightarrow> nblocks (length d) \<le> ?k" using da km by (simp add: data_at_def)
    ultimately have "?k < nblocks (length d)" by (simp add: not_le)
    then show "length d mod BSIZE \<noteq> 0" by (auto simp: nblocks_div split: if_splits)
  next
    assume "length d mod BSIZE \<noteq> 0"
    then have nb: "nblocks (length d) = ?k + 1" by (simp add: nblocks_div)
    have mx: "nblocks (length d) \<le> MAXFILE" using da nblocks_less [of MAXFILE "length d"] by (simp add: data_at_def mult.commute)
    have "baddr B (inode_of B i) (p div BSIZE) \<noteq> 0" if "p < (?k + 1) * BSIZE" for p
    proof -
      have "p div BSIZE < nblocks (length d)" using that nb by (simp add: less_mult_imp_div_less)
      then show ?thesis using da mx by (simp add: data_at_def)
    qed
    moreover have "(?k + 1) * BSIZE \<le> MAXFILE * BSIZE" using mx nb by (simp only: mult_le_mono1)
    ultimately show "no_holes B (inode_of B i)" by (simp add: no_holes_def sz)
  qed
  ultimately show ?thesis by simp
qed

end
