(* ===== verification/Spec2Isabelle.thy ===== *)
theory Spec2Isabelle
  imports Prelude Bestfit_Alloc Cstring Kalloc Vm Vm_Space Proc_Table Fs_Frame File_Table File_Refs User_Mem Process Sysfile Exec Sys_Refs Sys_Read Fork Pipe Spinlock Bcache Disk_Wait Fs_Disk Inode Fs_Content File_Io Fs_Path Sh_Parse Sh_Run Sh_Main Fifo Web_Server Web_Request
    Printf Console Line_Input Kbd Trap Umalloc Grep User_Tools Fastsort Mkfs Mkfs_Tree
begin

text \<open>
  \<^bold>\<open>The program.\<close> The repository holds the projects of an operating systems course: the teaching kernel xv6 with
  its user programs (\<open>src/P1/xv6/xv6\<close>), a sorting program (\<open>src/P1/Linux /fastsort.c\<close>), a best-fit storage allocator
  (\<open>src/P3/linux/mem.c\<close>) and a multi-threaded web server (\<open>src/P4/linux\<close>); a Unix shell (\<open>src/P2\<close>) and a file server
  (\<open>src/P5\<close>) are not modelled. The kernel is one program of many parts. A system call enters through \<open>trap\<close> and
  \<open>syscall\<close>; the calls on files go through the file table to pipes or to inodes, inodes to blocks, blocks to the buffer cache
  and the cache to the disk driver; the calls on processes work on the process table, on page tables and on the page
  allocator, which also gives pipes their pages; the console is a device behind the file table whose input comes from the
  keyboard interrupt. Each file of the development follows one part and imports the parts it calls, so the definitions
  compose as the C functions do.

  \<^bold>\<open>State.\<close> The kernel's state is a chain of records, each extending the last: \<open>bcache\<close> (buffers, disk queue, sectors) is
  extended by \<open>fsys\<close> (inode table, device switch) and that by \<open>kern\<close> (file table, pipes, physical memory, process table,
  current process). An operation on an inner record works on every extension; that it leaves the outer fields alone is
  the collection \<open>frames\<close> (cache), \<open>fs_frames\<close> (file system) or \<open>idents\<close> (identity of inode slots). \<open>machine\<close> joins the kernel,
  the console and the keyboard for \<open>trap\<close>. C structs are records, pointers into fixed tables are indices,
  pointers into memory are addresses; \<open>0\<close> or \<open>None\<close> is the null pointer.

  \<^bold>\<open>Results and loops.\<close> Kernel code ends in a value of \<open>kres\<close> (\<open>Prelude\<close>): a result, a \<open>panic\<close> with its message, a process
  that has to sleep, or an endless loop; \<open>kbind\<close> sequences it. Loops over a count or a list are structural; loops whose end
  needs an argument are functions with a termination proof; loops over linked storage that may be corrupt
  (\<open>Bestfit_Alloc\<close>, \<open>Umalloc\<close>) or run to a NUL byte (\<open>Cstring\<close>) are partial functions where no result means no end, and the
  theorems show that they return. The shell's parser takes fuel, \<open>4 * length line + 4\<close>: every nested call either consumes a
  character or steps down one of four levels of the grammar, and \<open>Sh_Parse.parsecmd_terminates\<close> shows that it never runs
  out and that more changes nothing. Integers keep their width where the code lets them wrap: the
  counters of pipes and of the console ring, the fields of page table entries and keys are words; \<open>int\<close> arithmetic that can
  overflow goes through \<open>wrap32\<close>; a \<open>uint\<close> that cannot wrap is a natural number.

  \<^bold>\<open>Concurrency.\<close> What runs under one lock is one step. Interleavings are inductive relations or lists of steps in any
  order: several CPUs on a spin lock (\<open>Spinlock\<close>), schedulers and processes (\<open>Proc_Table\<close>), writers and readers of a pipe
  (\<open>Pipe\<close>), users of files, pipes and pages (\<open>File_Refs\<close>), processes that hold buffers or wait for the disk (\<open>Disk_Wait\<close>), the accepting thread and the
  workers of the server (\<open>Web_Server\<close>), typing and reading (\<open>Line_Input\<close>). There a call that sleeps is cut into slices from entry,
  or wake-up, to the next sleep or return. The file system above the cache is not cut at the disk: \<open>bread\<close> and \<open>bwrite\<close> of
  \<open>Bcache\<close> wait for the interrupt within one step, which is one of the interleavings of \<open>Disk_Wait\<close> (\<open>bc_run_bread\<close>, \<open>bc_run_bwrite\<close>). In
  system calls a process that goes to sleep ends the step with \<open>Blocks\<close> or \<open>Sleeps\<close>; when such a call returns to \<open>trap\<close> it goes on with
  \<open>trap_return\<close>.

  \<^bold>\<open>The theories.\<close> Kernel sources are under \<open>src/P1/xv6/xv6/kernel\<close>, user programs under \<open>src/P1/xv6/xv6/user\<close>.

  \<^descr> \<open>Prelude\<close>: C integers, \<open>kres\<close>, little-endian fields; the collections \<open>cint_simps\<close> and \<open>slot_simps\<close>.
  \<^descr> \<open>Fifo\<close>: the locale \<open>bounded_fifo\<close>, the contract of a bounded queue with what follows for many items and for producers
    and consumers in any order. It is interpreted on the ring of a pipe (\<open>Pipe\<close>) and on the request buffer (\<open>Web_Server\<close>).
  \<^descr> \<open>Cstring\<close>: \<open>string.c\<close>, \<open>ulib.c\<close> and number formatting of \<open>printf.c\<close>; what each routine computes, and round trips
    (printing and reading a number, copying and comparing strings).
  \<^descr> \<open>Printf\<close>: \<open>cprintf\<close> and \<open>printf\<close> as the bytes they put out, and where the two formatters agree.
  \<^descr> \<open>Spinlock\<close>: \<open>spinlock.c\<close>; mutual exclusion on any number of CPUs, with interrupts off.
  \<^descr> \<open>Kalloc\<close>: \<open>kalloc.c\<close>; the free list in the free pages, and the locale \<open>page_pool\<close> with its interpretation on \<open>kalloc\<close> and
    \<open>kfree\<close>, on which the results on page tables, pipes and processes rest.
  \<^descr> \<open>Vm\<close>, \<open>Vm_Space\<close>: \<open>vm.c\<close>; \<open>Vm\<close> has page tables as words in pages and the lemmas on walking and mapping, \<open>Vm_Space\<close> what
    setting up, growing, copying and freeing an address space does to the page table, the pages and the free list.
  \<^descr> \<open>User_Mem\<close>: the rest of \<open>vm.c\<close> (bytes of a process) and the fetching of arguments in \<open>syscall.c\<close>.
  \<^descr> \<open>Proc_Table\<close>: the parts of \<open>proc.c\<close> under the process table's lock, their interleaving, the invariant of the table and
    that no wake-up is lost between \<open>exit\<close> and \<open>wait\<close>. \<open>Process\<close>: the same operations with memory, files and directory;
    \<open>Fork\<close>: \<open>fork\<close> makes a copy that shares no page.
  \<^descr> \<open>Bcache\<close>: \<open>bio.c\<close> and \<open>ide.c\<close>; the recency list, the disk queue, and the locale \<open>block_cache\<close>, the contract of \<open>bread\<close>,
    \<open>bwrite\<close> and \<open>brelse\<close>, interpreted on them. The file system proofs use only its facts. \<open>Disk_Wait\<close>: the same operations cut where
    they wait, coherence for any number of waiting processes, and what a read error does.
  \<^descr> \<open>Fs_Disk\<close>, \<open>Inode\<close>, \<open>Fs_Content\<close>, \<open>File_Io\<close>, \<open>Fs_Path\<close>: \<open>fs.c\<close> from the bitmap over inodes and the block map to
    directories and paths. Each operation is proved equal to a function on the blocks; an invariant of the disk
    (\<open>fs_ok\<close>) and of a file (\<open>file_ok\<close>) is kept, and reading and writing are slices and splices of a byte sequence.
    \<open>Fs_Frame\<close> shows that none of it touches the rest of the kernel.
  \<^descr> \<open>Mkfs\<close>, \<open>Mkfs_Tree\<close>: \<open>src/P1/xv6/xv6/tools/mkfs.c\<close>; every step that adds bytes to a file is the kernel's own block map on the
    image read with its final bitmap, so the image has the invariants \<open>fs_ok\<close> and \<open>file_ok\<close> from the start, holds the tree it was
    made from, and a kernel started on it reads the files back.
  \<^descr> \<open>Pipe\<close>: \<open>pipe.c\<close>; first in, first out, under wrapping counters, and no mutual wait.
  \<^descr> \<open>File_Table\<close>, \<open>File_Refs\<close>: \<open>file.c\<close> and the opening and closing of pipes; reference counts are exact in every run and a
    pipe's end is open as long as it is referred to.
  \<^descr> \<open>Sysfile\<close>, \<open>Exec\<close>, \<open>Sys_Refs\<close>: \<open>sysfile.c\<close>, \<open>sysproc.c\<close>, \<open>exec.c\<close> and the dispatch of \<open>syscall.c\<close>; every system call keeps
    the counts equal to the descriptors held (collections \<open>kposts\<close>, rules that take kernel code apart, and \<open>stills\<close>). \<open>Sys_Read\<close>: what
    \<open>read\<close> of a file does from the arguments to the bytes in user memory, for every length.
  \<^descr> \<open>Console\<close>, \<open>Line_Input\<close>, \<open>Kbd\<close>: \<open>console.c\<close>, \<open>kbd.c\<close> with its tables, \<open>uart.c\<close> and \<open>procdump\<close>; output stays on the screen,
    the input ring refines a line editor on two lists, and no reader sleeps while there is input.
  \<^descr> \<open>Trap\<close>: \<open>trap.c\<close>; a killed process does not return to user mode, and a fault of a process other than \<open>init\<close> prints a message and makes that
    process exit.
  \<^descr> \<open>Umalloc\<close>: \<open>umalloc.c\<close>; the circular free list stays ordered and disjoint from the blocks handed out, and every call
    returns.
  \<^descr> \<open>Sh_Parse\<close>, \<open>Sh_Run\<close>, \<open>Sh_Main\<close>: \<open>sh.c\<close>; the parser and the words it cuts out, the processes and descriptors a command
    starts and those the shell itself keeps, failing \<open>exec\<close> and \<open>open\<close> included, and the loop over the lines.
  \<^descr> \<open>Grep\<close>, \<open>User_Tools\<close>: \<open>grep.c\<close>, \<open>cat.c\<close>, \<open>wc.c\<close>; the matcher decides the language its pattern denotes.
  \<^descr> \<open>Fastsort\<close>: \<open>fastsort.c\<close>; sorted output for keys that the comparison can tell apart, and an input where it cannot.
  \<^descr> \<open>Bestfit_Alloc\<close>: \<open>mem.c\<close>; the region as a list of tiles, which allocation splits and freeing merges. A region that is not a whole number of
    pages gets a first block larger than what was mapped, and for the last 16 values of \<open>int\<close> the size of a request wraps; the theorems
    say what holds there.
  \<^descr> \<open>Web_Server\<close>, \<open>Web_Request\<close>: \<open>server.c\<close> and \<open>request.c\<close>; the request buffer under its three policies and the framing of
    replies, with the calls whose failure ends the server.

  \<^bold>\<open>Parameters.\<close> Code outside the repository and outcomes the code cannot determine are arguments: \<open>qsort\<close> of the C library
  (assumed to sort by a comparison that is a total preorder, and to permute), \<open>stat\<close>, the files and the failing calls of the web server's host,
  the answers of \<open>sbrk\<close> to the user allocator, the outcome of \<open>open\<close>, \<open>fork\<close> and \<open>pipe\<close> in the shell, the linker's
  symbols, the sectors on which the drive reports an error, and what other processes do while one has given up the CPU
  (\<open>trap_env\<close>).

  \<^bold>\<open>Not modelled.\<close> Boot code, assembly (\<open>swtch\<close>, trap entry), the programming of the interrupt controllers, timer, segment
  registers and serial chip, and start-up in \<open>main.c\<close>: they load registers and write ports, and no state
  of the kernel depends on them. User programs that are a few system calls (\<open>echo\<close>, \<open>ls\<close>, \<open>ln\<close>, ...), test programs,
  \<open>generate\<close> and \<open>dump\<close>. The wrappers and test clients of project 4. The shell of project 2: its \<open>parseArgv\<close> runs \<open>strtok\<close> over
  a copy without terminating NUL on every line, so what it executes is no function of its input. The file
  server of project 5: \<open>getIMap\<close> reads the inode map over its own parameter, so every lookup is undefined, and
  server and client library are socket calls around it.

  The properties of single parts are in the theories of the parts; every theory opens with the modelling decisions of
  its part.
\<close>

end
